(* ===== verification/Prelude.thy ===== *)
theory Prelude
  imports Main "HOL-Library.Word" "HOL-Library.Multiset" "HOL-Library.Code_Target_Nat"
begin

text \<open>
  Shared vocabulary of the development: the status codes every operation of the
  server returns (\<^verbatim>\<open>server_entry/status.hpp\<close>), the fixed-width views of the
  C++ integer types, association-list models of the hash maps, and the list lemmas
  and theorem collections the component theories share.

  Conventions. A C++ method that returns \<^verbatim>\<open>status\<close> and changes its object is a
  function that returns the pair of the status and the changed state (or a triple,
  when it also has an output parameter). Identifiers (\<^verbatim>\<open>string_id\<close>,
  \<^verbatim>\<open>source_id\<close>, \<^verbatim>\<open>stable_id\<close>, \<^verbatim>\<open>type_handle\<close>, \<^verbatim>\<open>TypeRef\<close>) are
  natural numbers, \<open>0\<close> being the invalid identifier as in the code; casts to
  \<^verbatim>\<open>uint32_t\<close> are written out with \<open>cast_u32\<close>. Generation counters are 64-bit words,
  so that their increment wraps as in the code. A boolean argument \<open>mem\<close> says whether
  the allocations inside the \<^verbatim>\<open>try\<close> block of the operation succeed; \<open>False\<close> is the
  \<^verbatim>\<open>std::bad_alloc\<close> / \<^verbatim>\<open>std::length_error\<close> path.
\<close>

section \<open>Status values\<close>

datatype status_code =
    Ok
  | Initialization_failed
  | Configuration_failed
  | Duplicate_source_replacement
  | Invalid_state
  | Persistence_failed
  | Artifact_corrupt
  | Not_available

definition status_ok :: "status_code \<Rightarrow> bool" where
  "status_ok s \<longleftrightarrow> s = Ok"

declare status_ok_def [simp]

section \<open>Integer widths\<close>

type_synonym u8 = "8 word"
type_synonym u32 = "32 word"
type_synonym u64 = "64 word"

definition u32_max :: nat where
  "u32_max = 4294967295"

definition cast_u32 :: "nat \<Rightarrow> nat" where
  "cast_u32 n = n mod 4294967296"

lemma cast_u32_id [simp]: "n \<le> u32_max \<Longrightarrow> cast_u32 n = n"
  by (simp add: cast_u32_def u32_max_def)

lemma cast_u32_le [simp]: "cast_u32 n \<le> u32_max"
  unfolding cast_u32_def u32_max_def by (rule less_Suc_eq_le [THEN iffD1]) simp

section \<open>Allocation answers\<close>

text \<open>
  Where an operation has more than one point that can run out of memory, the answers come from a
  list: one allocation takes the next answer, and an empty list answers yes.
\<close>

definition take_alloc :: "bool list \<Rightarrow> bool \<times> bool list" where
  "take_alloc mem = (case mem of [] \<Rightarrow> (True, []) | m # ms \<Rightarrow> (m, ms))"

lemma take_alloc_Nil [simp]: "take_alloc [] = (True, [])"
  by (simp add: take_alloc_def)

section \<open>Hash maps as association lists\<close>

text \<open>
  \<^verbatim>\<open>std::unordered_map\<close> is an association list whose iteration order nothing in the
  model observes. \<open>um_emplace\<close> keeps an existing entry, as \<^verbatim>\<open>emplace\<close> and
  \<^verbatim>\<open>try_emplace\<close> do, \<open>um_set\<close> overwrites, as \<^verbatim>\<open>operator[]\<close> followed by an
  assignment does, and \<open>um_merge\<close> moves the entries whose key is new.
\<close>

type_synonym ('k, 'v) umap = "('k \<times> 'v) list"

definition um_emplace :: "'k \<Rightarrow> 'v \<Rightarrow> ('k, 'v) umap \<Rightarrow> ('k, 'v) umap" where
  "um_emplace k v m = (case map_of m k of None \<Rightarrow> (k, v) # m | Some _ \<Rightarrow> m)"

definition um_erase :: "'k \<Rightarrow> ('k, 'v) umap \<Rightarrow> ('k, 'v) umap" where
  "um_erase k m = filter (\<lambda>e. fst e \<noteq> k) m"

definition um_set :: "'k \<Rightarrow> 'v \<Rightarrow> ('k, 'v) umap \<Rightarrow> ('k, 'v) umap" where
  "um_set k v m = (k, v) # um_erase k m"

definition um_merge :: "('k, 'v) umap \<Rightarrow> ('k, 'v) umap \<Rightarrow> ('k, 'v) umap" where
  "um_merge m extra = fold (\<lambda>(k, v). um_emplace k v) extra m"

definition um_wf :: "('k, 'v) umap \<Rightarrow> bool" where
  "um_wf m \<longleftrightarrow> distinct (map fst m)"

named_theorems umap_simps \<open>what a lookup returns after an operation on a hash map\<close>

lemma um_lookup_emplace [umap_simps]:
  "map_of (um_emplace k v m) =
     (\<lambda>x. if x = k \<and> map_of m k = None then Some v else map_of m x)"
  by (auto simp: um_emplace_def fun_eq_iff split: option.splits)

lemma um_lookup_erase [umap_simps]: "map_of (um_erase k m) = (map_of m)(k := None)"
  unfolding um_erase_def by (induction m) (auto simp: fun_eq_iff)

lemma um_lookup_set [umap_simps]: "map_of (um_set k v m) = (map_of m)(k \<mapsto> v)"
  by (simp add: um_set_def um_lookup_erase fun_eq_iff)

lemma um_lookup_merge [umap_simps]:
  "map_of (um_merge m extra) x =
     (case map_of m x of None \<Rightarrow> map_of extra x | Some v \<Rightarrow> Some v)"
proof (induction extra arbitrary: m)
  case Nil
  show ?case by (simp add: um_merge_def split: option.splits)
next
  case (Cons e extra)
  obtain k v where e: "e = (k, v)" by force
  have step: "um_merge m (e # extra) = um_merge (um_emplace k v m) extra"
    by (simp add: um_merge_def e)
  show ?case
    unfolding step Cons.IH by (auto simp: um_lookup_emplace e split: option.splits)
qed

lemma um_wf_Nil [simp, intro]: "um_wf []"
  by (simp add: um_wf_def)

lemma um_wf_emplace [simp, intro]: "um_wf m \<Longrightarrow> um_wf (um_emplace k v m)"
  by (auto simp: um_wf_def um_emplace_def map_of_eq_None_iff split: option.splits)

lemma um_wf_erase [simp, intro]: "um_wf m \<Longrightarrow> um_wf (um_erase k m)"
  unfolding um_wf_def um_erase_def by (induction m) auto

lemma um_wf_set [simp, intro]: "um_wf m \<Longrightarrow> um_wf (um_set k v m)"
proof -
  assume "um_wf m"
  moreover have "k \<notin> fst ` set (um_erase k m)"
    by (auto simp: um_erase_def)
  ultimately show ?thesis
    using um_wf_erase [of m k] by (simp add: um_wf_def um_set_def)
qed

lemma um_wf_merge [simp, intro]: "um_wf m \<Longrightarrow> um_wf (um_merge m extra)"
  unfolding um_merge_def by (induction extra arbitrary: m) auto

section \<open>Lists addressed by one-based identifiers\<close>

text \<open>
  The tables of the server are vectors addressed by a one-based identifier: slot \<open>id\<close>
  is element \<open>id - 1\<close>. \<open>slot\<close> is that access with the code's range guard.
\<close>

definition slot :: "'a list \<Rightarrow> nat \<Rightarrow> 'a option" where
  "slot xs i = (if i = 0 \<or> length xs < i then None else Some (xs ! (i - 1)))"

lemma slot_0 [simp]: "slot xs 0 = None"
  by (simp add: slot_def)

lemma slot_Nil [simp]: "slot [] i = None"
  by (auto simp: slot_def)

lemma slot_Suc: "slot xs (Suc i) = (if i < length xs then Some (xs ! i) else None)"
  by (simp add: slot_def not_less_eq not_le Suc_le_eq)

lemma slot_Some_iff: "slot xs i = Some x \<longleftrightarrow> 0 < i \<and> i \<le> length xs \<and> xs ! (i - 1) = x"
  by (cases i) (auto simp: slot_Suc Suc_le_eq)

lemma slot_None_iff: "slot xs i = None \<longleftrightarrow> i = 0 \<or> length xs < i"
  by (simp add: slot_def)

lemma slot_append:
  "slot (xs @ ys) i = (if i \<le> length xs then slot xs i else slot ys (i - length xs))"
  by (auto simp: slot_def nth_append)

lemma slot_snoc: "slot (xs @ [x]) i = (if i = Suc (length xs) then Some x else slot xs i)"
  by (cases i) (auto simp: slot_Suc nth_append)

lemma slot_map: "slot (map f xs) i = map_option f (slot xs i)"
  by (auto simp: slot_def)

lemma slot_update:
  "0 < j \<Longrightarrow> j \<le> length xs \<Longrightarrow> slot (xs[j - 1 := y]) i = (if i = j then Some y else slot xs i)"
  by (auto simp: slot_def nth_list_update)

lemma slot_in_set: "slot xs i = Some x \<Longrightarrow> x \<in> set xs"
  by (auto simp: slot_Some_iff)

lemma in_set_slot: "x \<in> set xs \<Longrightarrow> \<exists>i. 0 < i \<and> i \<le> length xs \<and> slot xs i = Some x"
proof -
  assume "x \<in> set xs"
  then obtain i where "i < length xs" "xs ! i = x" by (auto simp: in_set_conv_nth)
  then show ?thesis by (intro exI [of _ "Suc i"]) (simp add: slot_Suc)
qed

text \<open>Growing a vector with \<^verbatim>\<open>resize\<close>: default elements are appended, or the tail is dropped.\<close>

definition resize :: "nat \<Rightarrow> 'a \<Rightarrow> 'a list \<Rightarrow> 'a list" where
  "resize n d xs = take n xs @ replicate (n - length xs) d"

lemma length_resize [simp]: "length (resize n d xs) = n"
  by (simp add: resize_def)

lemma nth_resize: "i < n \<Longrightarrow> resize n d xs ! i = (if i < length xs then xs ! i else d)"
  by (auto simp: resize_def nth_append)

lemma resize_same [simp]: "resize (length xs) d xs = xs"
  by (simp add: resize_def)

lemma resize_shrink_grow: "length xs \<le> n \<Longrightarrow> resize (length xs) e (resize n d xs) = xs"
  by (simp add: resize_def)

definition grow :: "nat \<Rightarrow> 'a \<Rightarrow> 'a list \<Rightarrow> 'a list" where
  "grow n d xs = (if n \<le> length xs then xs else resize n d xs)"

lemma length_grow [simp]: "length (grow n d xs) = max n (length xs)"
  by (simp add: grow_def max_def)

lemma nth_grow: "i < n \<or> i < length xs \<Longrightarrow> grow n d xs ! i = (if i < length xs then xs ! i else d)"
  by (auto simp: grow_def nth_resize)

lemma nth_grow_old [simp]: "i < length xs \<Longrightarrow> grow n d xs ! i = xs ! i"
  by (simp add: nth_grow)

lemma slot_grow: "slot (grow n d xs) i =
    (if i \<le> length xs then slot xs i else if i \<le> n then Some d else None)"
  by (cases i) (auto simp: slot_Suc nth_grow)

section \<open>Removing duplicates in first-occurrence order\<close>

fun push_unique :: "'a list \<Rightarrow> 'a list \<Rightarrow> 'a list" where
  "push_unique acc [] = acc"
| "push_unique acc (x # xs) =
     (if x \<in> set acc then push_unique acc xs else push_unique (acc @ [x]) xs)"

lemma set_push_unique [simp]: "set (push_unique acc xs) = set acc \<union> set xs"
  by (induction acc xs rule: push_unique.induct) auto

lemma distinct_push_unique [simp]: "distinct (push_unique acc xs) = distinct acc"
  by (induction acc xs rule: push_unique.induct) auto

section \<open>Scanning while a test holds\<close>

lemma takeWhile_eq_all:
  "list_all P xs \<Longrightarrow> ys = [] \<or> \<not> P (hd ys) \<Longrightarrow> takeWhile P (xs @ ys) = xs"
  by (induction xs) (cases ys; auto)+

lemma list_all_takeWhile: "list_all P (takeWhile P xs)"
  by (induction xs) auto

lemma drop_takeWhile: "drop (length (takeWhile P xs)) xs = dropWhile P xs"
  by (induction xs) auto

lemma dropWhile_stop: "dropWhile P xs = [] \<or> \<not> P (hd (dropWhile P xs))"
  by (induction xs) auto

end
