(* ===== verification/Interfaces.thy ===== *)
theory Interfaces
  imports Prelude
begin

text \<open>
  The interfaces between the components, as locales. A provider discharges the laws by
  an interpretation in its own theory; the lemmas of a client are proved here, once.

  \<open>name_store\<close>: an arena that stores a spelling and returns a reference to it, as the
  name arenas of \<^verbatim>\<open>source_context\<close> and \<^verbatim>\<open>source_build_entry\<close> do. References stay
  valid when more is stored. \<open>interner\<close> extends it with canonical references: equal
  spellings have equal references, which is what the String Registry adds.

  \<open>two_phase\<close>: a component that takes part in a build, with its owner and its update as one
  state. Preparation does everything that can fail, publication makes the committed view
  equal to the candidate view, and cancellation keeps the committed view. \<open>two_phase_pair\<close>
  runs two of them in one transaction, which is again such a component.
\<close>

section \<open>Arenas and interning\<close>

text \<open>Storing a list of spellings, left to right, stopping at the first failure.\<close>

fun store_all :: "('s \<Rightarrow> 'v \<Rightarrow> ('i \<times> 's) option) \<Rightarrow> 's \<Rightarrow> 'v list \<Rightarrow> ('i list \<times> 's) option" where
  "store_all st s [] = Some ([], s)"
| "store_all st s (v # vs) =
     (case st s v of
        None \<Rightarrow> None
      | Some (i, s') \<Rightarrow>
          (case store_all st s' vs of
             None \<Rightarrow> None
           | Some (is, s'') \<Rightarrow> Some (i # is, s'')))"

lemma store_all_ConsE:
  assumes "store_all st s (v # vs) = Some (js, t)"
  obtains i s' js' where "st s v = Some (i, s')" "store_all st s' vs = Some (js', t)"
    "js = i # js'"
  using assms by (auto split: option.splits prod.splits)

declare store_all.simps(2) [simp del]

lemma store_all_length: "store_all st s vs = Some (is, t) \<Longrightarrow> length is = length vs"
  by (induction vs arbitrary: s "is") (auto elim!: store_all_ConsE)

locale name_store =
  fixes invar :: "'s \<Rightarrow> bool"
    and lookup :: "'s \<Rightarrow> 'i \<Rightarrow> 'v option"
    and store :: "'s \<Rightarrow> 'v \<Rightarrow> ('i \<times> 's) option"
  assumes store_invar: "invar s \<Longrightarrow> store s v = Some (i, s') \<Longrightarrow> invar s'"
    and store_lookup: "invar s \<Longrightarrow> store s v = Some (i, s') \<Longrightarrow> lookup s' i = Some v"
    and store_keeps: "invar s \<Longrightarrow> store s v = Some (i, s') \<Longrightarrow> lookup s j = Some w \<Longrightarrow>
           lookup s' j = Some w"
begin

lemma store_all_invar: "invar s \<Longrightarrow> store_all store s vs = Some (is, t) \<Longrightarrow> invar t"
  by (induction vs arbitrary: s "is") (auto elim!: store_all_ConsE intro: store_invar)

lemma store_all_keeps:
  "invar s \<Longrightarrow> store_all store s vs = Some (is, t) \<Longrightarrow> lookup s j = Some w \<Longrightarrow> lookup t j = Some w"
proof (induction vs arbitrary: s "is")
  case (Cons v vs)
  from Cons.prems(2) obtain i s' js where "store s v = Some (i, s')"
    and "store_all store s' vs = Some (js, t)" by (rule store_all_ConsE)
  with Cons.prems(1,3) show ?case
    by (blast intro: Cons.IH store_invar store_keeps)
qed simp

text \<open>Every stored spelling is read back through its reference after the whole run.\<close>

lemma store_all_lookup:
  "invar s \<Longrightarrow> store_all store s vs = Some (is, t) \<Longrightarrow> map (lookup t) is = map Some vs"
proof (induction vs arbitrary: s "is")
  case (Cons v vs)
  from Cons.prems(2) obtain i s' js where st: "store s v = Some (i, s')"
    and all: "store_all store s' vs = Some (js, t)" and eq: "is = i # js"
    by (rule store_all_ConsE)
  have inv: "invar s'" using Cons.prems(1) st by (rule store_invar)
  have "lookup s' i = Some v" using Cons.prems(1) st by (rule store_lookup)
  then have "lookup t i = Some v" by (rule store_all_keeps [OF inv all])
  with Cons.IH [OF inv all] eq show ?case by simp
qed auto

end

locale interner = name_store +
  assumes lookup_inj: "invar s \<Longrightarrow> lookup s i = Some v \<Longrightarrow> lookup s j = Some v \<Longrightarrow> i = j"
begin

text \<open>Interning is canonical: the references agree exactly where the spellings agree.\<close>

lemma store_all_canonical:
  assumes "invar s" "store_all store s vs = Some (is, t)" "a < length vs" "b < length vs"
  shows "is ! a = is ! b \<longleftrightarrow> vs ! a = vs ! b"
proof -
  have len: "length is = length vs" using assms(2) by (rule store_all_length)
  have maps: "map (lookup t) is = map Some vs" using assms(1,2) by (rule store_all_lookup)
  have at: "lookup t (is ! k) = Some (vs ! k)" if "k < length vs" for k
    using arg_cong [OF maps, of "\<lambda>l. l ! k"] that len by simp
  have "invar t" using assms(1,2) by (rule store_all_invar)
  then show ?thesis
    using at [OF assms(3)] at [OF assms(4)] lookup_inj by fastforce
qed

lemma store_again:
  assumes "invar s" "store s v = Some (i, s')" "store s' v = Some (j, s'')"
  shows "j = i"
proof -
  have inv: "invar s'" using assms(1,2) by (rule store_invar)
  have "lookup s' i = Some v" using assms(1,2) by (rule store_lookup)
  then have "lookup s'' i = Some v" using inv assms(3) store_keeps by blast
  moreover have "lookup s'' j = Some v" using inv assms(3) by (rule store_lookup)
  moreover have "invar s''" using inv assms(3) by (rule store_invar)
  ultimately show ?thesis using lookup_inj by blast
qed

end

section \<open>Two-phase publication\<close>

text \<open>Prepare, then publish, or cancel when the preparation fails.\<close>

definition two_phase_commit ::
    "('s \<Rightarrow> status_code \<times> 's) \<Rightarrow> ('s \<Rightarrow> 's) \<Rightarrow> ('s \<Rightarrow> 's) \<Rightarrow> 's \<Rightarrow> status_code \<times> 's" where
  "two_phase_commit prepare publish cancel s =
     (case prepare s of (st, t) \<Rightarrow> if st = Ok then (Ok, publish t) else (st, cancel t))"

locale two_phase =
  fixes active :: "'s \<Rightarrow> bool"
    and committed :: "'s \<Rightarrow> 'v"
    and candidate :: "'s \<Rightarrow> 'v"
    and prepare :: "'s \<Rightarrow> status_code \<times> 's"
    and publish :: "'s \<Rightarrow> 's"
    and cancel :: "'s \<Rightarrow> 's"
  assumes publish_shows: "active s \<Longrightarrow> prepare s = (Ok, t) \<Longrightarrow> committed (publish t) = candidate s"
    and cancel_keeps: "active s \<Longrightarrow> prepare s = (st, t) \<Longrightarrow> committed (cancel t) = committed s"
    and abandon_keeps: "active s \<Longrightarrow> committed (cancel s) = committed s"
begin

text \<open>All or nothing: readers see the whole candidate after Ok and nothing of it otherwise.\<close>

lemma commit_atomic:
  "active s \<Longrightarrow> two_phase_commit prepare publish cancel s = (st, t) \<Longrightarrow>
   committed t = (if st = Ok then candidate s else committed s)"
  by (auto simp: two_phase_commit_def publish_shows cancel_keeps split: prod.splits if_splits)

end

definition pair_prepare ::
    "('s \<Rightarrow> status_code \<times> 's) \<Rightarrow> ('t \<Rightarrow> status_code \<times> 't) \<Rightarrow> 's \<times> 't \<Rightarrow> status_code \<times> 's \<times> 't" where
  "pair_prepare prep1 prep2 p =
     (case prep1 (fst p) of (st, s) \<Rightarrow>
        if st \<noteq> Ok then (st, (s, snd p))
        else case prep2 (snd p) of (st', t) \<Rightarrow> (st', (s, t)))"

locale two_phase_pair =
  one: two_phase active1 committed1 candidate1 prepare1 publish1 cancel1 +
  two: two_phase active2 committed2 candidate2 prepare2 publish2 cancel2
  for active1 :: "'s \<Rightarrow> bool" and committed1 :: "'s \<Rightarrow> 'v" and candidate1 prepare1 publish1 cancel1
    and active2 :: "'t \<Rightarrow> bool" and committed2 :: "'t \<Rightarrow> 'w" and candidate2 prepare2 publish2 cancel2
begin

lemma pair_laws:
  "two_phase (\<lambda>p. active1 (fst p) \<and> active2 (snd p)) (map_prod committed1 committed2)
     (map_prod candidate1 candidate2) (pair_prepare prepare1 prepare2)
     (map_prod publish1 publish2) (map_prod cancel1 cancel2)"
proof
  fix p t st
  assume act: "active1 (fst p) \<and> active2 (snd p)"
  show "map_prod committed1 committed2 (map_prod cancel1 cancel2 p) = map_prod committed1 committed2 p"
    using act by (simp add: one.abandon_keeps two.abandon_keeps map_prod_def split_beta)
  show "map_prod committed1 committed2 (map_prod cancel1 cancel2 t) = map_prod committed1 committed2 p"
    if "pair_prepare prepare1 prepare2 p = (st, t)"
    using act that
    by (cases p) (auto simp: pair_prepare_def one.cancel_keeps two.cancel_keeps two.abandon_keeps
        split: prod.splits if_splits)
next
  fix p t
  assume "active1 (fst p) \<and> active2 (snd p)" "pair_prepare prepare1 prepare2 p = (Ok, t)"
  then show "map_prod committed1 committed2 (map_prod publish1 publish2 t) = map_prod candidate1 candidate2 p"
    by (cases p) (auto simp: pair_prepare_def one.publish_shows two.publish_shows
        split: prod.splits if_splits)
qed

end

sublocale two_phase_pair \<subseteq> both:
  two_phase "\<lambda>p. active1 (fst p) \<and> active2 (snd p)" "map_prod committed1 committed2"
    "map_prod candidate1 candidate2" "pair_prepare prepare1 prepare2"
    "map_prod publish1 publish2" "map_prod cancel1 cancel2"
  by (rule pair_laws)

end
