(* ===== verification/StringRegistry.thy ===== *)
theory StringRegistry
  imports Interfaces
begin

text \<open>
  The Project String Registry, \<^verbatim>\<open>server_entry/project/string/string_registry.cpp\<close>:
  the committed registry, its isolated update transaction (interning, two-phase
  publication, the G0 compaction that tombstones unused slots) and the slot
  projection used by the compiled checkpoint.

  \<^verbatim>\<open>records\<close> is the table from the one-based \<^verbatim>\<open>string_id\<close> to the string; a null
  pointer (a reclaimed slot) is \<open>None\<close>. The node list \<^verbatim>\<open>storage\<close>, which owns the
  bytes, is the list of the stored strings. An update holds a pointer to its owner;
  its operations take the owner as an argument, and \<open>su_owner\<close> says whether the
  pointer is set.
\<close>

section \<open>State\<close>

record string_registry =
  storage :: "string list"
  records :: "string option list"
  lookup_index :: "(string, nat) umap"
  sr_generation :: u64

definition new_string_registry :: string_registry where
  "new_string_registry =
     \<lparr>storage = [], records = [], lookup_index = [], sr_generation = 0\<rparr>"

record string_registry_update =
  su_owner :: bool
  added_storage :: "string list"
  added_records :: "string list"
  added_lookup :: "(string, nat) umap"
  rebuilt_storage :: "string list"
  rebuilt_records :: "string option list"
  rebuilt_lookup :: "(string, nat) umap"
  su_base_generation :: u64
  su_failure :: status_code
  su_committed :: bool
  su_prepared :: bool
  su_compaction_prepared :: bool

section \<open>The committed registry\<close>

definition sr_initialize :: "string_registry \<Rightarrow> status_code \<times> string_registry" where
  "sr_initialize r =
     (Ok, r\<lparr>lookup_index := [], records := [], storage := [],
             sr_generation := sr_generation r + 1\<rparr>)"

definition sr_begin_update :: "string_registry \<Rightarrow> string_registry_update" where
  "sr_begin_update r =
     \<lparr>su_owner = True, added_storage = [], added_records = [], added_lookup = [],
      rebuilt_storage = [], rebuilt_records = [], rebuilt_lookup = [],
      su_base_generation = sr_generation r, su_failure = Ok, su_committed = False,
      su_prepared = False, su_compaction_prepared = False\<rparr>"

definition sr_find :: "string_registry \<Rightarrow> string \<Rightarrow> nat" where
  "sr_find r value =
     (case map_of (lookup_index r) value of None \<Rightarrow> 0 | Some i \<Rightarrow> i)"

definition sr_get :: "string_registry \<Rightarrow> nat \<Rightarrow> string option" where
  "sr_get r i =
     (if i = 0 \<or> i > length (records r) then None else records r ! (i - 1))"

text \<open>
  The loop shared by the index rebuilds: slots are visited in order, null records are
  skipped, and a value that is already present rejects the whole index.
\<close>

fun index_slots :: "nat \<Rightarrow> string option list \<Rightarrow> (string, nat) umap
    \<Rightarrow> (string, nat) umap option" where
  "index_slots i [] acc = Some acc"
| "index_slots i (None # rs) acc = index_slots (Suc i) rs acc"
| "index_slots i (Some s # rs) acc =
     (case map_of acc s of
        Some _ \<Rightarrow> None
      | None \<Rightarrow> index_slots (Suc i) rs ((s, cast_u32 (i + 1)) # acc))"

definition sr_rebuild_lookup_index ::
    "bool \<Rightarrow> string_registry \<Rightarrow> status_code \<times> string_registry" where
  "sr_rebuild_lookup_index mem r =
     (if \<not> mem then (Initialization_failed, r)
      else case index_slots 0 (records r) [] of
             None \<Rightarrow> (Invalid_state, r)
           | Some rebuilt \<Rightarrow> (Ok, r\<lparr>lookup_index := rebuilt\<rparr>))"

definition sr_export_slots ::
    "bool \<Rightarrow> string_registry \<Rightarrow> status_code \<times> string option list" where
  "sr_export_slots mem r =
     (if mem then (Ok, records r) else (Initialization_failed, []))"

text \<open>The live strings of a slot table, in slot order: the node list built by the import.\<close>

definition live_strings :: "string option list \<Rightarrow> string list" where
  "live_strings rs = map the (filter (\<lambda>x. x \<noteq> None) rs)"

definition sr_import_slots ::
    "bool \<Rightarrow> string_registry \<Rightarrow> string option list \<Rightarrow> status_code \<times> string_registry" where
  "sr_import_slots mem r values =
     (if \<not> mem then (Initialization_failed, r)
      else case index_slots 0 values [] of
             None \<Rightarrow> (Artifact_corrupt, r)
           | Some idx \<Rightarrow>
               (Ok, r\<lparr>storage := live_strings values, records := values,
                      lookup_index := idx, sr_generation := sr_generation r + 1\<rparr>))"

definition sr_swap_compiled ::
    "string_registry \<Rightarrow> string_registry \<Rightarrow> string_registry \<times> string_registry" where
  "sr_swap_compiled r other = (other, r)"

section \<open>The update transaction\<close>

definition su_active :: "string_registry \<Rightarrow> string_registry_update \<Rightarrow> bool" where
  "su_active r u \<longleftrightarrow> su_owner u \<and> \<not> su_committed u \<and> \<not> su_prepared u \<and>
     sr_generation r = su_base_generation u"

definition su_find :: "string_registry \<Rightarrow> string_registry_update \<Rightarrow> string \<Rightarrow> nat" where
  "su_find r u value =
     (if \<not> su_active r u then 0
      else case map_of (added_lookup u) value of
             Some i \<Rightarrow> i
           | None \<Rightarrow> sr_find r value)"

definition su_intern ::
    "bool \<Rightarrow> string_registry \<Rightarrow> string_registry_update \<Rightarrow> string
     \<Rightarrow> status_code \<times> nat \<times> string_registry_update" where
  "su_intern mem r u value =
     (if su_failure u \<noteq> Ok then (su_failure u, 0, u)
      else if \<not> su_active r u then (Invalid_state, 0, u)
      else if su_find r u value \<noteq> 0 then (Ok, su_find r u value, u)
      else
        let nxt = length (records r) + length (added_records u) + 1 in
        if nxt > u32_max then
          (Initialization_failed, 0, u\<lparr>su_failure := Initialization_failed\<rparr>)
        else if \<not> mem then
          (Initialization_failed, 0, u\<lparr>su_failure := Initialization_failed\<rparr>)
        else case map_of (added_lookup u) value of
          Some i \<Rightarrow> (Ok, i, u)
        | None \<Rightarrow>
            (Ok, cast_u32 nxt,
             u\<lparr>added_storage := added_storage u @ [value],
               added_records := added_records u @ [value],
               added_lookup := (value, cast_u32 nxt) # added_lookup u\<rparr>))"

definition added_get :: "string_registry \<Rightarrow> string_registry_update \<Rightarrow> nat \<Rightarrow> string option" where
  "added_get r u i =
     (if i \<le> length (records r) then sr_get r i
      else let offset = i - length (records r) - 1 in
           if offset \<ge> length (added_records u) then None
           else Some (added_records u ! offset))"

definition su_get ::
    "string_registry \<Rightarrow> string_registry_update \<Rightarrow> nat \<Rightarrow> string option" where
  "su_get r u i = (if i = 0 \<or> \<not> su_active r u then None else added_get r u i)"

definition su_get_for_validation ::
    "string_registry \<Rightarrow> string_registry_update \<Rightarrow> nat \<Rightarrow> string option" where
  "su_get_for_validation r u i =
     (if i = 0 \<or> \<not> su_owner u \<or> su_committed u \<or> sr_generation r \<noteq> su_base_generation u
      then None else added_get r u i)"

definition su_candidate_size :: "string_registry \<Rightarrow> string_registry_update \<Rightarrow> nat" where
  "su_candidate_size r u =
     (if su_owner u then length (records r) + length (added_records u) else 0)"

text \<open>The reservations of the destination containers change no contents.\<close>

definition su_prepare_publish ::
    "bool \<Rightarrow> string_registry \<Rightarrow> string_registry_update
     \<Rightarrow> status_code \<times> string_registry_update" where
  "su_prepare_publish mem r u =
     (if su_failure u \<noteq> Ok then (su_failure u, u)
      else if \<not> su_owner u \<or> su_committed u \<or> su_prepared u then (Invalid_state, u)
      else if su_base_generation u \<noteq> sr_generation r then
        (Invalid_state, u\<lparr>su_failure := Invalid_state\<rparr>)
      else if \<not> mem then
        (Initialization_failed, u\<lparr>su_failure := Initialization_failed\<rparr>)
      else (Ok, u\<lparr>su_prepared := True\<rparr>))"

text \<open>
  The compaction loop walks the candidate slots from one. A slot that is not retained
  stays null. A retained slot must resolve, and its value must be new in the rebuilt
  index. The loop carries the rebuilt containers; on an error it reports the status
  and leaves what it has built so far, as the code does.
\<close>

fun compact_loop ::
    "string_registry \<Rightarrow> string_registry_update \<Rightarrow> nat list \<Rightarrow> nat list
     \<Rightarrow> status_code \<times> string_registry_update" where
  "compact_loop r u retained [] = (Ok, u)"
| "compact_loop r u retained (offset # offsets) =
     (let i = cast_u32 (offset + 1) in
      if retained ! i = 0 then compact_loop r u retained offsets
      else case su_get_for_validation r u i of
        None \<Rightarrow> (Configuration_failed, u)
      | Some v \<Rightarrow>
          let u' = u\<lparr>rebuilt_storage := rebuilt_storage u @ [v],
                      rebuilt_records := (rebuilt_records u)[offset := Some v]\<rparr> in
          case map_of (rebuilt_lookup u') v of
            Some _ \<Rightarrow> (Invalid_state, u')
          | None \<Rightarrow>
              compact_loop r (u'\<lparr>rebuilt_lookup := (v, i) # rebuilt_lookup u'\<rparr>)
                retained offsets)"

definition compaction_required :: "nat \<Rightarrow> nat list \<Rightarrow> bool" where
  "compaction_required candidate_size retained \<longleftrightarrow>
     list_ex (\<lambda>i. retained ! i = 0) [1..<Suc candidate_size]"

definition su_prepare_rebuild_compaction ::
    "bool \<Rightarrow> string_registry \<Rightarrow> string_registry_update \<Rightarrow> nat list
     \<Rightarrow> status_code \<times> string_registry_update" where
  "su_prepare_rebuild_compaction mem r u retained =
     (if su_failure u \<noteq> Ok then (su_failure u, u)
      else if \<not> su_owner u \<or> su_committed u \<or> \<not> su_prepared u \<or> su_compaction_prepared u
           \<or> sr_generation r \<noteq> su_base_generation u then
        (Invalid_state, u\<lparr>su_failure := Invalid_state\<rparr>)
      else
        let candidate_size = length (records r) + length (added_records u) in
        if length retained \<le> candidate_size then
          (Invalid_state, u\<lparr>su_failure := Invalid_state\<rparr>)
        else if \<not> compaction_required candidate_size retained then
          (Ok,
           if storage r = [] \<and> records r = [] \<and> lookup_index r = [] then
             u\<lparr>rebuilt_storage := rebuilt_storage u @ added_storage u,
               added_storage := [],
               rebuilt_records := map Some (added_records u),
               added_records := map the (rebuilt_records u),
               rebuilt_lookup := added_lookup u,
               added_lookup := rebuilt_lookup u,
               su_compaction_prepared := True\<rparr>
           else u)
        else if \<not> mem then
          (Initialization_failed, u\<lparr>su_failure := Initialization_failed\<rparr>)
        else
          case compact_loop r
                 (u\<lparr>rebuilt_storage := [], rebuilt_records := replicate candidate_size None,
                    rebuilt_lookup := []\<rparr>) retained [0..<candidate_size] of
            (Ok, u') \<Rightarrow> (Ok, u'\<lparr>su_compaction_prepared := True\<rparr>)
          | (e, u') \<Rightarrow> (e, u'\<lparr>su_failure := e\<rparr>))"

text \<open>
  Publication. The code asserts that the update is prepared and not committed; the
  transaction calls it in no other state.
\<close>

definition su_publish_prepared ::
    "string_registry \<Rightarrow> string_registry_update
     \<Rightarrow> string_registry \<times> string_registry_update" where
  "su_publish_prepared r u =
     (if su_compaction_prepared u then
        (r\<lparr>storage := rebuilt_storage u, records := rebuilt_records u,
           lookup_index := rebuilt_lookup u, sr_generation := sr_generation r + 1\<rparr>,
         u\<lparr>rebuilt_storage := storage r, rebuilt_records := records r,
           rebuilt_lookup := lookup_index r, added_storage := [], added_records := [],
           added_lookup := [], su_committed := True\<rparr>)
      else
        (r\<lparr>storage := storage r @ added_storage u,
           records := records r @ map Some (added_records u),
           lookup_index := um_merge (lookup_index r) (added_lookup u),
           sr_generation := sr_generation r + 1\<rparr>,
         u\<lparr>added_storage := [], added_records := [], added_lookup := [],
           su_committed := True\<rparr>))"

definition su_commit ::
    "bool \<Rightarrow> string_registry \<Rightarrow> string_registry_update
     \<Rightarrow> status_code \<times> string_registry \<times> string_registry_update" where
  "su_commit mem r u =
     (case su_prepare_publish mem r u of
        (Ok, u') \<Rightarrow> (case su_publish_prepared r u' of (r', u'') \<Rightarrow> (Ok, r', u''))
      | (e, u') \<Rightarrow> (e, r, u'))"

definition su_cancel :: "string_registry_update \<Rightarrow> string_registry_update" where
  "su_cancel u =
     (if su_committed u then u else u\<lparr>su_prepared := True, su_failure := Invalid_state\<rparr>)"

text \<open>Interning a list of names, left to right, stopping at the first failure.\<close>

fun su_intern_all ::
    "bool \<Rightarrow> string_registry \<Rightarrow> string_registry_update \<Rightarrow> string list
     \<Rightarrow> status_code \<times> nat list \<times> string_registry_update" where
  "su_intern_all mem r u [] = (Ok, [], u)"
| "su_intern_all mem r u (v # vs) =
     (case su_intern mem r u v of
        (Ok, i, u') \<Rightarrow>
          (case su_intern_all mem r u' vs of (st, is, u'') \<Rightarrow> (st, i # is, u''))
      | (e, _, u') \<Rightarrow> (e, [], u'))"


section \<open>Invariants\<close>

text \<open>
  A table and its index agree when the index maps exactly the live strings to their
  slots: every live string has one slot, and no slot lies outside the 32-bit range.
\<close>

definition table_ok :: "string option list \<Rightarrow> (string, nat) umap \<Rightarrow> bool" where
  "table_ok rs idx \<longleftrightarrow> length rs \<le> u32_max \<and> um_wf idx \<and>
     (\<forall>v i. map_of idx v = Some i \<longleftrightarrow> slot rs i = Some (Some v))"

definition sr_wf :: "string_registry \<Rightarrow> bool" where
  "sr_wf r \<longleftrightarrow> table_ok (records r) (lookup_index r) \<and>
     mset (storage r) = mset (live_strings (records r))"

text \<open>
  The candidate table of an update: the owner's slots followed by the added strings.
  \<open>su_wf\<close> is the invariant of an update that has not been published: its candidate
  table and the combined index agree, the nodes are the added strings, and nothing is
  rebuilt yet.
\<close>

definition candidate_table :: "string_registry \<Rightarrow> string_registry_update \<Rightarrow> string option list" where
  "candidate_table r u = records r @ map Some (added_records u)"

definition su_wf :: "string_registry \<Rightarrow> string_registry_update \<Rightarrow> bool" where
  "su_wf r u \<longleftrightarrow> sr_wf r \<and> su_owner u \<and> \<not> su_committed u \<and> \<not> su_compaction_prepared u \<and>
     su_base_generation u = sr_generation r \<and>
     added_storage u = added_records u \<and>
     rebuilt_storage u = [] \<and> rebuilt_records u = [] \<and> rebuilt_lookup u = [] \<and>
     table_ok (candidate_table r u) (added_lookup u @ lookup_index r)"

lemma table_ok_iff: "table_ok rs idx \<Longrightarrow> map_of idx v = Some i \<longleftrightarrow> slot rs i = Some (Some v)"
  by (simp add: table_ok_def)

lemma table_ok_inj:
  "table_ok rs idx \<Longrightarrow> slot rs i = Some (Some v) \<Longrightarrow> slot rs j = Some (Some v) \<Longrightarrow> i = j"
  unfolding table_ok_def by (metis option.inject)

lemma table_ok_cong:
  "table_ok rs idx \<Longrightarrow> um_wf idx' \<Longrightarrow> map_of idx' = map_of idx \<Longrightarrow> table_ok rs idx'"
  by (simp add: table_ok_def)

lemma live_strings_simps [simp]:
  "live_strings [] = []"
  "live_strings (None # rs) = live_strings rs"
  "live_strings (Some s # rs) = s # live_strings rs"
  "live_strings (xs @ ys) = live_strings xs @ live_strings ys"
  "live_strings (map Some vs) = vs"
  by (induction vs) (auto simp: live_strings_def)

lemma table_ok_empty: "table_ok [] []"
  by (simp add: table_ok_def slot_def u32_max_def)

lemma table_ok_new:
  assumes "table_ok rs idx" "map_of idx v = None" "Suc (length rs) \<le> u32_max"
  shows "table_ok (rs @ [Some v]) ((v, Suc (length rs)) # idx)"
proof -
  have fresh: "slot rs i \<noteq> Some (Some v)" for i
    using table_ok_iff [OF assms(1), of v i] assms(2) by simp
  have key: "map_of ((v, Suc (length rs)) # idx) w = Some i \<longleftrightarrow>
      slot (rs @ [Some v]) i = Some (Some w)" for w i
    using fresh [of i] table_ok_iff [OF assms(1), of w i]
    by (cases "w = v") (auto simp: slot_snoc slot_Some_iff)
  have "um_wf ((v, Suc (length rs)) # idx)"
    using assms(1,2) by (auto simp: table_ok_def um_wf_def map_of_eq_None_iff)
  with key assms(3) show ?thesis by (simp add: table_ok_def)
qed

text \<open>What the index loop computes, for the slots from \<open>i\<close> on.\<close>

lemma index_slots_ok:
  assumes "table_ok rs acc" "length rs + length qs \<le> u32_max"
  shows "index_slots (length rs) qs acc = Some idx \<Longrightarrow> table_ok (rs @ qs) idx"
  using assms
proof (induction "length rs" qs acc arbitrary: rs rule: index_slots.induct)
  case (1 acc)
  then show ?case by simp
next
  case (2 qs acc)
  have "table_ok (rs @ [None]) acc"
    using 2(3,4) by (auto simp: table_ok_def slot_snoc slot_Some_iff)
  then show ?case using 2(1) [of "rs @ [None]"] 2(2,4) by simp
next
  case (3 s qs acc)
  have new: "map_of acc s = None" using 3(2) by (auto split: option.splits)
  have small: "Suc (length rs) \<le> u32_max" using 3(4) by simp
  have "table_ok (rs @ [Some s]) ((s, Suc (length rs)) # acc)"
    using 3(3) new small by (rule table_ok_new)
  then show ?case using 3(1) [of "rs @ [Some s]"] 3(2,4) new small by simp
qed

lemma index_slots_None:
  "index_slots i qs acc = None \<longleftrightarrow>
     \<not> (distinct (live_strings qs) \<and> set (live_strings qs) \<inter> dom (map_of acc) = {})"
proof (induction i qs acc rule: index_slots.induct)
  case (3 i s rs acc)
  show ?case
  proof (cases "map_of acc s")
    case None
    show ?thesis
      unfolding index_slots.simps option.simps None 3 [OF None] by (auto simp: dom_def None)
  qed auto
qed auto

lemma set_live_strings: "v \<in> set (live_strings rs) \<longleftrightarrow> (\<exists>i. slot rs i = Some (Some v))"
proof -
  have "v \<in> set (live_strings rs) \<longleftrightarrow> Some v \<in> set rs"
    by (force simp: live_strings_def)
  also have "\<dots> \<longleftrightarrow> (\<exists>i. slot rs i = Some (Some v))"
    using in_set_slot [of "Some v" rs] slot_in_set [of rs _ "Some v"] by blast
  finally show ?thesis .
qed

lemma table_ok_dom: "table_ok rs idx \<Longrightarrow> dom (map_of idx) = set (live_strings rs)"
  by (auto simp: table_ok_def set_live_strings dom_def)

lemma slots_distinct:
  "(\<forall>i j v. slot rs i = Some (Some v) \<longrightarrow> slot rs j = Some (Some v) \<longrightarrow> i = j) \<Longrightarrow>
     distinct (live_strings rs)"
proof (induction rs rule: rev_induct)
  case Nil
  show ?case by simp
next
  case (snoc x rs)
  have old: "slot (rs @ [x]) i = Some (Some v)" if "slot rs i = Some (Some v)" for i v
    using that by (auto simp: slot_append slot_Some_iff)
  have "distinct (live_strings rs)"
    using old snoc.prems by (intro snoc.IH) blast
  moreover have "v \<notin> set (live_strings rs)" if "x = Some v" for v
  proof
    assume "v \<in> set (live_strings rs)"
    then obtain i where i: "slot rs i = Some (Some v)" by (auto simp: set_live_strings)
    moreover have "slot (rs @ [x]) (Suc (length rs)) = Some (Some v)"
      by (simp add: slot_append slot_Suc that)
    ultimately have "i = Suc (length rs)" using old [OF i] snoc.prems by blast
    with i show False by (simp add: slot_Some_iff)
  qed
  ultimately show ?case by (cases x) auto
qed

lemma table_ok_distinct: "table_ok rs idx \<Longrightarrow> distinct (live_strings rs)"
  by (rule slots_distinct) (meson table_ok_inj)

lemma index_slots_complete:
  assumes "distinct (live_strings qs)" "length qs \<le> u32_max"
  obtains idx where "index_slots 0 qs [] = Some idx" "table_ok qs idx"
proof -
  obtain idx where idx: "index_slots 0 qs [] = Some idx"
    using assms(1) index_slots_None [of 0 qs "[]"] by auto
  have "table_ok qs idx"
    using index_slots_ok [of "[]" "[]" qs idx] idx assms(2) table_ok_empty by simp
  with idx show ?thesis by (rule that)
qed

section \<open>Lookups\<close>

lemma sr_get_slot: "sr_get r i = (case slot (records r) i of None \<Rightarrow> None | Some x \<Rightarrow> x)"
  by (auto simp: sr_get_def slot_def)

lemma sr_get_Some: "sr_get r i = Some v \<longleftrightarrow> slot (records r) i = Some (Some v)"
  by (auto simp: sr_get_slot split: option.splits)

lemma sr_find_get: "sr_wf r \<Longrightarrow> sr_find r v = i \<and> i \<noteq> 0 \<longleftrightarrow> sr_get r i = Some v"
proof -
  assume "sr_wf r"
  then have tbl: "table_ok (records r) (lookup_index r)" by (simp add: sr_wf_def)
  note iff = table_ok_iff [OF tbl, of v]
  show ?thesis
    unfolding sr_get_Some iff [symmetric]
    using slot_0 [of "records r"] iff [of 0]
    by (cases "map_of (lookup_index r) v") (auto simp: sr_find_def)
qed

lemma added_get_slot:
  "added_get r u i = (case slot (candidate_table r u) i of None \<Rightarrow> None | Some x \<Rightarrow> x)"
  unfolding added_get_def candidate_table_def sr_get_slot slot_append slot_map
  by (cases "i - length (records r)") (auto simp: slot_Suc Let_def)

lemma su_get_for_validation_Some:
  "su_wf r u \<Longrightarrow> su_get_for_validation r u i = Some v \<longleftrightarrow>
     slot (candidate_table r u) i = Some (Some v)"
  by (auto simp: su_get_for_validation_def su_wf_def added_get_slot split: option.splits)

lemma su_get_Some:
  "su_wf r u \<Longrightarrow> \<not> su_prepared u \<Longrightarrow> su_get r u i = Some v \<longleftrightarrow>
     slot (candidate_table r u) i = Some (Some v)"
  by (auto simp: su_get_def su_active_def su_wf_def added_get_slot split: option.splits)

lemma su_find_map:
  "su_wf r u \<Longrightarrow> \<not> su_prepared u \<Longrightarrow> su_find r u v =
     (case map_of (added_lookup u @ lookup_index r) v of None \<Rightarrow> 0 | Some i \<Rightarrow> i)"
  by (auto simp: su_find_def su_active_def su_wf_def sr_find_def split: option.splits)

section \<open>Interning\<close>

lemma su_wf_begin: "sr_wf r \<Longrightarrow> su_wf r (sr_begin_update r)"
  by (simp add: su_wf_def sr_begin_update_def candidate_table_def sr_wf_def)

lemma su_intern_cases:
  assumes wf: "su_wf r u" and ok: "su_intern mem r u v = (Ok, i, u')"
  obtains (existing) "u' = u" "slot (candidate_table r u) i = Some (Some v)"
  | (fresh) "map_of (added_lookup u @ lookup_index r) v = None"
      "i = Suc (length (candidate_table r u))" "i \<le> u32_max"
      "u' = u\<lparr>added_storage := added_storage u @ [v],
              added_records := added_records u @ [v],
              added_lookup := (v, i) # added_lookup u\<rparr>"
proof -
  let ?m = "map_of (added_lookup u @ lookup_index r)"
  have act: "\<not> su_prepared u" "su_active r u"
    using ok by (auto simp: su_intern_def su_active_def split: if_splits)
  have tbl: "table_ok (candidate_table r u) (added_lookup u @ lookup_index r)"
    using wf by (simp add: su_wf_def)
  show ?thesis
  proof (cases "?m v")
    case (Some j)
    then have j: "slot (candidate_table r u) j = Some (Some v)"
      using tbl by (simp add: table_ok_def)
    have "su_find r u v = j" "j \<noteq> 0"
      using su_find_map [OF wf act(1), of v] Some j by (auto simp: slot_Some_iff)
    then have "i = j" "u' = u"
      using ok act by (auto simp: su_intern_def split: if_splits)
    with j show ?thesis by (intro existing) simp_all
  next
    case None
    have "su_find r u v = 0"
      unfolding su_find_map [OF wf act(1), of v] None by simp
    moreover have "map_of (added_lookup u) v = None"
      using None by (simp add: map_add_None)
    ultimately show ?thesis
      using ok act None
      by (intro fresh) (auto simp: su_intern_def candidate_table_def Let_def split: if_splits)
  qed
qed

lemma su_intern_wf:
  assumes wf: "su_wf r u" and ok: "su_intern mem r u v = (Ok, i, u')"
  shows "su_wf r u'"
  using wf ok
proof (cases rule: su_intern_cases)
  case existing
  with wf show ?thesis by simp
next
  case fresh
  have "table_ok (candidate_table r u @ [Some v])
          ((v, i) # added_lookup u @ lookup_index r)"
    using fresh wf by (auto simp: su_wf_def intro: table_ok_new)
  with fresh(4) wf show ?thesis by (simp add: su_wf_def candidate_table_def)
qed

lemma su_intern_get:
  assumes wf: "su_wf r u" and ok: "su_intern mem r u v = (Ok, i, u')"
  shows "slot (candidate_table r u') i = Some (Some v)"
  using wf ok
proof (cases rule: su_intern_cases)
  case fresh
  then show ?thesis by (simp add: candidate_table_def append_assoc [symmetric] slot_snoc del: append_assoc)
qed simp

lemma su_intern_keeps:
  assumes wf: "su_wf r u" and ok: "su_intern mem r u v = (Ok, i, u')"
    and "slot (candidate_table r u) j = Some (Some w)"
  shows "slot (candidate_table r u') j = Some (Some w)"
  using wf ok
proof (cases rule: su_intern_cases)
  case fresh
  then show ?thesis
    using assms(3) by (auto simp: candidate_table_def slot_append slot_map slot_Some_iff
        split: if_splits)
qed (use assms(3) in simp)

lemma su_intern_prepared [simp]:
  "su_intern mem r u v = (st, i, u') \<Longrightarrow> su_prepared u' = su_prepared u"
  by (auto simp: su_intern_def Let_def split: if_splits option.splits)

text \<open>The String Registry update is an interner: the contract its clients rely on.\<close>

definition intern_opt ::
    "bool \<Rightarrow> string_registry \<times> string_registry_update \<Rightarrow> string
     \<Rightarrow> (nat \<times> (string_registry \<times> string_registry_update)) option" where
  "intern_opt mem s v =
     (case su_intern mem (fst s) (snd s) v of
        (Ok, i, u') \<Rightarrow> Some (i, (fst s, u'))
      | _ \<Rightarrow> None)"

lemma intern_opt_Some:
  "intern_opt mem s v = Some (i, s') \<longleftrightarrow>
     (\<exists>u'. su_intern mem (fst s) (snd s) v = (Ok, i, u') \<and> s' = (fst s, u'))"
  by (auto simp: intern_opt_def split: prod.splits status_code.splits)

definition interning :: "string_registry \<times> string_registry_update \<Rightarrow> bool" where
  "interning s \<longleftrightarrow> su_wf (fst s) (snd s) \<and> \<not> su_prepared (snd s)"

interpretation registry: interner interning "\<lambda>s. su_get (fst s) (snd s)" "intern_opt mem"
  for mem
proof
  fix s v i s'
  assume inv: "interning s" and st: "intern_opt mem s v = Some (i, s')"
  obtain u' where u': "su_intern mem (fst s) (snd s) v = (Ok, i, u')" "s' = (fst s, u')"
    using st by (auto simp: intern_opt_Some)
  note wf = inv [unfolded interning_def]
  show inv': "interning s'"
    using wf u' by (auto simp: interning_def intro: su_intern_wf)
  show "su_get (fst s') (snd s') i = Some v"
    using wf u' inv' su_intern_get [of "fst s" "snd s" mem v i u']
    by (simp add: interning_def su_get_Some)
  show "su_get (fst s') (snd s') j = Some w" if "su_get (fst s) (snd s) j = Some w" for j w
    using wf u' inv' that su_intern_keeps [of "fst s" "snd s" mem v i u' j w]
    by (simp add: interning_def su_get_Some)
next
  fix s i j v
  assume "interning s" "su_get (fst s) (snd s) i = Some v" "su_get (fst s) (snd s) j = Some v"
  then show "i = j"
    by (auto simp: interning_def su_get_Some su_wf_def dest: table_ok_inj)
qed

section \<open>Publication and compaction\<close>

lemma su_prepare_publish_Ok:
  "su_prepare_publish mem r u = (Ok, u') \<Longrightarrow>
     su_failure u = Ok \<and> su_owner u \<and> \<not> su_committed u \<and> \<not> su_prepared u \<and>
     su_base_generation u = sr_generation r \<and> mem \<and> u' = u\<lparr>su_prepared := True\<rparr>"
  by (auto simp: su_prepare_publish_def split: if_splits)

lemma su_wf_prepare: "su_wf r u \<Longrightarrow> su_wf r (u\<lparr>su_prepared := True\<rparr>)"
  by (simp add: su_wf_def candidate_table_def)

lemma um_wf_append_commute: "um_wf (a @ b) \<longleftrightarrow> um_wf (b @ a)"
  by (auto simp: um_wf_def)

text \<open>Publishing without compaction appends: the committed table becomes the candidate table.\<close>

lemma publish_append_wf:
  assumes "su_wf r u"
  shows "sr_wf (fst (su_publish_prepared r u))"
    and "records (fst (su_publish_prepared r u)) = candidate_table r u"
proof -
  let ?r = "fst (su_publish_prepared r u)"
  have nocomp: "\<not> su_compaction_prepared u" using assms by (simp add: su_wf_def)
  show recs: "records ?r = candidate_table r u"
    using nocomp by (simp add: su_publish_prepared_def candidate_table_def)
  have tbl: "table_ok (candidate_table r u) (added_lookup u @ lookup_index r)"
    using assms by (simp add: su_wf_def)
  have wf: "um_wf (added_lookup u @ lookup_index r)" using tbl by (simp add: table_ok_def)
  have "map_of (um_merge (lookup_index r) (added_lookup u)) =
        map_of (added_lookup u @ lookup_index r)"
  proof
    fix v
    have "map_of (lookup_index r) v = None \<or> map_of (added_lookup u) v = None"
      using wf by (auto simp: um_wf_def map_of_eq_None_iff)
    then show "map_of (um_merge (lookup_index r) (added_lookup u)) v =
        map_of (added_lookup u @ lookup_index r) v"
      by (auto simp: um_lookup_merge map_add_def split: option.splits)
  qed
  moreover have "um_wf (um_merge (lookup_index r) (added_lookup u))"
    using assms by (auto simp: su_wf_def sr_wf_def table_ok_def)
  ultimately have "table_ok (records ?r) (lookup_index ?r)"
    unfolding recs using tbl nocomp by (simp add: su_publish_prepared_def table_ok_def)
  moreover have "mset (storage ?r) = mset (live_strings (records ?r))"
    unfolding recs using assms nocomp
    by (simp add: su_publish_prepared_def candidate_table_def su_wf_def sr_wf_def)
  ultimately show "sr_wf ?r" by (simp add: sr_wf_def)
qed

text \<open>The rebuilt table the compaction loop computes: retained slots kept, the others null.\<close>

definition retain_table :: "nat list \<Rightarrow> string option list \<Rightarrow> string option list" where
  "retain_table retained rs =
     map (\<lambda>i. if retained ! Suc i = 0 then None else rs ! i) [0..<length rs]"

lemma length_retain_table [simp]: "length (retain_table retained rs) = length rs"
  by (simp add: retain_table_def)

lemma slot_retain_table:
  "slot (retain_table retained rs) i =
     (if 0 < i \<and> i \<le> length rs \<and> retained ! i = 0 then Some None else slot rs i)"
  by (cases i) (auto simp: slot_Suc retain_table_def)

lemma retain_live_subset:
  "slot (retain_table retained rs) i = Some (Some v) \<Longrightarrow> slot rs i = Some (Some v)"
  by (auto simp: slot_retain_table split: if_splits)

text \<open>Two updates that differ in the rebuilt containers only.\<close>

definition rebuilt_frame ::
    "string_registry_update \<Rightarrow> string_registry_update \<Rightarrow> bool" where
  "rebuilt_frame u u' \<longleftrightarrow>
     u'\<lparr>rebuilt_storage := [], rebuilt_records := [], rebuilt_lookup := []\<rparr> =
     u\<lparr>rebuilt_storage := [], rebuilt_records := [], rebuilt_lookup := []\<rparr>"

lemma rebuilt_frame_refl: "rebuilt_frame u u"
  by (simp add: rebuilt_frame_def)

lemma rebuilt_frame_trans: "rebuilt_frame u v \<Longrightarrow> rebuilt_frame v w \<Longrightarrow> rebuilt_frame u w"
  by (simp add: rebuilt_frame_def)

lemma rebuilt_frame_get [simp]:
  "rebuilt_frame u u' \<Longrightarrow> su_get_for_validation r u' i = su_get_for_validation r u i"
  by (cases u; cases u') (simp add: rebuilt_frame_def su_get_for_validation_def added_get_def Let_def)

text \<open>The state of the loop after the first \<open>k\<close> slots.\<close>

definition compact_inv ::
    "string option list \<Rightarrow> nat list \<Rightarrow> nat \<Rightarrow> string_registry_update \<Rightarrow> bool" where
  "compact_inv T retained k u \<longleftrightarrow>
     rebuilt_records u = take k (retain_table retained T) @ replicate (length T - k) None \<and>
     rebuilt_storage u = live_strings (take k (retain_table retained T)) \<and>
     table_ok (take k (retain_table retained T)) (rebuilt_lookup u)"

definition retained_live :: "string option list \<Rightarrow> nat list \<Rightarrow> nat \<Rightarrow> bool" where
  "retained_live T retained k \<longleftrightarrow>
     (\<forall>i. k < i \<longrightarrow> i \<le> length T \<longrightarrow> retained ! i \<noteq> 0 \<longrightarrow> slot T i \<noteq> Some None)"

lemma retained_live_Suc:
  assumes "k < length T"
  shows "retained_live T retained k \<longleftrightarrow>
      (retained ! Suc k \<noteq> 0 \<longrightarrow> T ! k \<noteq> None) \<and> retained_live T retained (Suc k)"
proof -
  have split: "k < i \<longleftrightarrow> i = Suc k \<or> Suc k < i" for i by auto
  show ?thesis
    unfolding retained_live_def split using assms by (auto simp: slot_Suc)
qed

lemma take_retain_Suc:
  "k < length T \<Longrightarrow> take (Suc k) (retain_table retained T) =
     take k (retain_table retained T) @ [if retained ! Suc k = 0 then None else T ! k]"
  by (subst take_Suc_conv_app_nth) (auto simp: retain_table_def)

lemma compact_inv_skip:
  assumes inv: "compact_inv T retained k u" and k: "k < length T" "length T \<le> u32_max"
    and no: "retained ! Suc k = 0"
  shows "compact_inv T retained (Suc k) u"
proof -
  let ?R = "take k (retain_table retained T)"
  have len: "length ?R = k" using k by simp
  have "table_ok (?R @ [None]) (rebuilt_lookup u)"
    using inv k len by (auto simp: compact_inv_def table_ok_def slot_snoc slot_Some_iff)
  moreover have "replicate (length T - k) None = None # replicate (length T - Suc k) (None::string option)"
    using k by (metis Suc_diff_Suc replicate_Suc)
  ultimately show ?thesis using inv by (simp add: compact_inv_def take_retain_Suc k no)
qed

lemma compact_inv_keep:
  assumes inv: "compact_inv T retained k u" and k: "k < length T" "length T \<le> u32_max"
    and yes: "retained ! Suc k \<noteq> 0" and v: "T ! k = Some v"
    and dist: "\<And>i. slot T i = Some (Some v) \<Longrightarrow> i = Suc k"
  shows "map_of (rebuilt_lookup u) v = None"
    and "compact_inv T retained (Suc k)
           (u\<lparr>rebuilt_storage := rebuilt_storage u @ [v],
              rebuilt_records := (rebuilt_records u)[k := Some v],
              rebuilt_lookup := (v, Suc k) # rebuilt_lookup u\<rparr>)"
proof -
  let ?R = "take k (retain_table retained T)"
  have len: "length ?R = k" using k by simp
  have tbl: "table_ok ?R (rebuilt_lookup u)" using inv by (simp add: compact_inv_def)
  show new: "map_of (rebuilt_lookup u) v = None"
  proof (rule ccontr)
    assume "map_of (rebuilt_lookup u) v \<noteq> None"
    then obtain i where "slot ?R i = Some (Some v)" using table_ok_iff [OF tbl] by blast
    then have ik: "i \<le> k" and sl: "slot (retain_table retained T) i = Some (Some v)"
      using len by (auto simp: slot_Some_iff)
    have "i = Suc k" by (rule dist [OF retain_live_subset [OF sl]])
    with ik show False by simp
  qed
  have "table_ok (?R @ [Some v]) ((v, Suc k) # rebuilt_lookup u)"
    using table_ok_new [OF tbl new] k len by simp
  moreover have upd: "(?R @ replicate (length T - k) None)[k := Some v] =
      ?R @ Some v # replicate (length T - Suc k) None"
  proof -
    have "length T - k = Suc (length T - Suc k)" using k by (simp add: Suc_diff_Suc)
    then show ?thesis using len by (simp add: list_update_append)
  qed
  ultimately show "compact_inv T retained (Suc k)
           (u\<lparr>rebuilt_storage := rebuilt_storage u @ [v],
              rebuilt_records := (rebuilt_records u)[k := Some v],
              rebuilt_lookup := (v, Suc k) # rebuilt_lookup u\<rparr>)"
    unfolding compact_inv_def take_retain_Suc [OF k(1)] using inv
    by (simp add: compact_inv_def yes v)
qed

lemma compact_loop_spec:
  assumes T: "table_ok T idx"
    and get: "\<And>i. su_get_for_validation r u i = (case slot T i of None \<Rightarrow> None | Some x \<Rightarrow> x)"
    and inv: "compact_inv T retained k u" and k: "k \<le> length T"
    and run: "compact_loop r u retained [k..<length T] = (st, u')"
  shows "rebuilt_frame u u' \<and>
     (if retained_live T retained k then st = Ok \<and> compact_inv T retained (length T) u'
      else st = Configuration_failed)"
  using get inv k run
proof (induction "length T - k" arbitrary: k u)
  case 0
  then show ?case by (auto simp: retained_live_def rebuilt_frame_refl)
next
  case (Suc n)
  then have k: "k < length T" by simp
  then have upt: "[k..<length T] = k # [Suc k..<length T]" by (rule upt_conv_Cons)
  have small: "length T \<le> u32_max" using T by (simp add: table_ok_def)
  then have cast: "cast_u32 (k + 1) = Suc k" using k by simp
  have sl: "slot T (Suc k) = Some (T ! k)" using k by (simp add: slot_Suc)
  note live = retained_live_Suc [OF k, of retained]
  note IH = Suc.hyps(1) [of "Suc k"]
  show ?case
  proof (cases "retained ! Suc k = 0")
    case True
    have "compact_loop r u retained [Suc k..<length T] = (st, u')"
      using Suc.prems(4) cast True by (simp add: upt)
    with IH [of u] Suc.hyps(2) Suc.prems(1) compact_inv_skip [OF Suc.prems(2) k small True] k True
    show ?thesis by (simp add: live)
  next
    case keep: False
    show ?thesis
    proof (cases "T ! k")
      case None
      then show ?thesis
        using Suc.prems(1,4) cast keep sl live by (auto simp: upt rebuilt_frame_refl)
    next
      case (Some v)
      let ?u = "u\<lparr>rebuilt_storage := rebuilt_storage u @ [v],
              rebuilt_records := (rebuilt_records u)[k := Some v],
              rebuilt_lookup := (v, Suc k) # rebuilt_lookup u\<rparr>"
      have dist: "i = Suc k" if "slot T i = Some (Some v)" for i
        using table_ok_inj [OF T that] sl Some by simp
      note step = compact_inv_keep [OF Suc.prems(2) k small keep Some dist]
      have fr: "rebuilt_frame u ?u" by (auto simp: rebuilt_frame_def)
      have "compact_loop r ?u retained [Suc k..<length T] = (st, u')"
        using Suc.prems(1,4) cast keep sl Some step(1) by (simp add: upt Let_def)
      with IH [of ?u] Suc.hyps(2) Suc.prems(1) step(2) k Some fr live rebuilt_frame_trans [OF fr]
      show ?thesis by auto
    qed
  qed
qed


lemma candidate_table_frame [simp]:
  "candidate_table r (u\<lparr>rebuilt_storage := a, rebuilt_records := b, rebuilt_lookup := c\<rparr>) =
     candidate_table r u"
  "candidate_table r (u\<lparr>su_prepared := p\<rparr>) = candidate_table r u"
  by (simp_all add: candidate_table_def)

lemma su_get_for_validation_slot:
  "su_wf r u \<Longrightarrow> su_get_for_validation r u i =
     (case slot (candidate_table r u) i of None \<Rightarrow> None | Some x \<Rightarrow> x)"
  by (auto simp: su_get_for_validation_def su_wf_def added_get_slot split: option.splits)

lemma su_wf_table: "su_wf r u \<Longrightarrow> table_ok (candidate_table r u) (added_lookup u @ lookup_index r)"
  by (simp add: su_wf_def)

lemma length_candidate_table:
  "length (candidate_table r u) = length (records r) + length (added_records u)"
  by (simp add: candidate_table_def)

lemma retain_table_all:
  assumes "\<And>i. 0 < i \<Longrightarrow> i \<le> length T \<Longrightarrow> retained ! i \<noteq> 0"
  shows "retain_table retained T = T"
proof (rule nth_equalityI)
  show "length (retain_table retained T) = length T" by simp
next
  fix i
  assume i: "i < length (retain_table retained T)"
  with assms [of "Suc i"] show "retain_table retained T ! i = T ! i"
    by (simp add: retain_table_def Suc_le_eq)
qed

lemma compaction_required_iff:
  "compaction_required n retained \<longleftrightarrow> (\<exists>i. 0 < i \<and> i \<le> n \<and> retained ! i = 0)"
  by (auto simp: compaction_required_def list_ex_iff Suc_le_eq less_Suc_eq_le)

text \<open>
  The state a prepared update publishes. The compaction either rebuilds the tables or,
  when every slot is retained, leaves the append path in place (a fresh registry takes
  the added containers by exchange instead).
\<close>

definition published_table ::
    "string_registry \<Rightarrow> string_registry_update \<Rightarrow> string option list" where
  "published_table r u = records (fst (su_publish_prepared r u))"

lemma compaction_rebuilds:
  assumes wf: "su_wf r u" and req: "compaction_required (length (candidate_table r u)) retained"
    and ok: "su_prepare_rebuild_compaction mem r u retained = (Ok, u')"
  shows "sr_wf (fst (su_publish_prepared r u'))"
    and "published_table r u' = retain_table retained (candidate_table r u)"
proof -
  let ?T = "candidate_table r u"
  let ?u = "u\<lparr>rebuilt_storage := [], rebuilt_records := replicate (length ?T) None,
               rebuilt_lookup := []\<rparr>"
  obtain w where loop: "compact_loop r ?u retained [0..<length ?T] = (Ok, w)"
    and u': "u' = w\<lparr>su_compaction_prepared := True\<rparr>"
    using ok req
    by (auto simp: su_prepare_rebuild_compaction_def Let_def length_candidate_table
        split: if_splits prod.splits status_code.splits)
  have fr: "rebuilt_frame u ?u" by (simp add: rebuilt_frame_def)
  have get: "su_get_for_validation r ?u i = (case slot ?T i of None \<Rightarrow> None | Some x \<Rightarrow> x)" for i
    unfolding rebuilt_frame_get [OF fr] by (rule su_get_for_validation_slot [OF wf])
  have "table_ok ?T (added_lookup u @ lookup_index r)" using wf by (rule su_wf_table)
  note spec = compact_loop_spec [OF this get _ _ loop]
  have "compact_inv ?T retained 0 ?u" by (simp add: compact_inv_def table_ok_empty)
  with spec have inv: "compact_inv ?T retained (length ?T) w" by (simp split: if_splits)
  then have "rebuilt_records w = retain_table retained ?T"
    and "rebuilt_storage w = live_strings (retain_table retained ?T)"
    and "table_ok (retain_table retained ?T) (rebuilt_lookup w)"
    by (simp_all add: compact_inv_def)
  then show "sr_wf (fst (su_publish_prepared r u'))"
    and "published_table r u' = retain_table retained ?T"
    by (simp_all add: u' su_publish_prepared_def sr_wf_def published_table_def)
qed

lemma compaction_not_required:
  assumes wf: "su_wf r u" and req: "\<not> compaction_required (length (candidate_table r u)) retained"
    and ok: "su_prepare_rebuild_compaction mem r u retained = (Ok, u')"
  shows "sr_wf (fst (su_publish_prepared r u'))"
    and "published_table r u' = candidate_table r u"
proof -
  have tbl: "table_ok (candidate_table r u) (added_lookup u @ lookup_index r)"
    using wf by (rule su_wf_table)
  have nocomp: "\<not> su_compaction_prepared u" using wf by (simp add: su_wf_def)
  have "sr_wf (fst (su_publish_prepared r u')) \<and> published_table r u' = candidate_table r u"
  proof (cases "storage r = [] \<and> records r = [] \<and> lookup_index r = []")
    case True
    then have "u' = u\<lparr>rebuilt_storage := rebuilt_storage u @ added_storage u,
               added_storage := [],
               rebuilt_records := map Some (added_records u),
               added_records := map the (rebuilt_records u),
               rebuilt_lookup := added_lookup u,
               added_lookup := rebuilt_lookup u,
               su_compaction_prepared := True\<rparr>"
      using ok req by (auto simp: su_prepare_rebuild_compaction_def Let_def
          length_candidate_table split: if_splits)
    with True tbl wf show ?thesis
      by (simp add: su_publish_prepared_def published_table_def sr_wf_def candidate_table_def
          su_wf_def)
  next
    case False
    then have "u' = u"
      using ok req by (auto simp: su_prepare_rebuild_compaction_def Let_def
          length_candidate_table split: if_splits)
    with publish_append_wf [OF wf] show ?thesis by (simp add: published_table_def)
  qed
  then show "sr_wf (fst (su_publish_prepared r u'))"
    and "published_table r u' = candidate_table r u" by simp_all
qed

lemma compaction_table:
  assumes "su_wf r u" "su_prepare_rebuild_compaction mem r u retained = (Ok, u')"
  shows "sr_wf (fst (su_publish_prepared r u'))"
    and "published_table r u' = retain_table retained (candidate_table r u)"
proof -
  have *: "\<not> compaction_required (length (candidate_table r u)) retained \<Longrightarrow>
      retain_table retained (candidate_table r u) = candidate_table r u"
    by (rule retain_table_all) (auto simp: compaction_required_iff)
  show "sr_wf (fst (su_publish_prepared r u'))"
    using compaction_rebuilds(1) [OF assms(1) _ assms(2)]
      compaction_not_required(1) [OF assms(1) _ assms(2)] by blast
  show "published_table r u' = retain_table retained (candidate_table r u)"
    using compaction_rebuilds(2) [OF assms(1) _ assms(2)]
      compaction_not_required(2) [OF assms(1) _ assms(2)] * by metis
qed

lemma su_intern_failure_sticky:
  "su_failure u \<noteq> Ok \<Longrightarrow> su_intern mem r u v = (su_failure u, 0, u)"
  by (simp add: su_intern_def)

lemma su_intern_all_ConsE:
  assumes "su_intern_all mem r u (v # vs) = (Ok, is, u')"
  obtains i w js where "su_intern mem r u v = (Ok, i, w)"
    "su_intern_all mem r w vs = (Ok, js, u')" "is = i # js"
  using assms by (auto split: prod.splits status_code.splits)

declare su_intern_all.simps(2) [simp del]

lemma su_intern_all_store:
  "su_intern_all mem r u vs = (Ok, is, u') \<Longrightarrow>
     store_all (intern_opt mem) (r, u) vs = Some (is, (r, u'))"
proof (induction vs arbitrary: u "is")
  case (Cons v vs)
  from Cons.prems obtain i w js where int: "su_intern mem r u v = (Ok, i, w)"
    and rest: "su_intern_all mem r w vs = (Ok, js, u')" and eq: "is = i # js"
    by (rule su_intern_all_ConsE)
  have "intern_opt mem (r, u) v = Some (i, (r, w))" by (simp add: intern_opt_def int)
  then show ?case
    by (simp add: store_all.simps(2) Cons.IH [OF rest] eq)
qed simp

section \<open>Properties\<close>

lemma su_commit_Ok:
  assumes "su_commit mem r u = (Ok, r', u')"
  shows "su_failure u = Ok" "su_owner u" "\<not> su_committed u" "\<not> su_prepared u"
    "su_base_generation u = sr_generation r"
    "r' = fst (su_publish_prepared r (u\<lparr>su_prepared := True\<rparr>))"
  using assms
  by (auto simp: su_commit_def dest!: su_prepare_publish_Ok
      split: prod.splits status_code.splits)

lemma su_publish_generation [simp]:
  "sr_generation (fst (su_publish_prepared r u)) = sr_generation r + 1"
  by (simp add: su_publish_prepared_def)

lemma su_commit_append:
  assumes "su_wf r u" "su_commit mem r u = (Ok, r', u')"
  shows "sr_wf r'" "records r' = candidate_table r u"
  using su_commit_Ok(6) [OF assms(2)] publish_append_wf [OF su_wf_prepare [OF assms(1)]] by simp_all

text \<open>C11: Interning names in a fresh update and committing it publishes canonical
  identifiers: every returned identifier reads back its name, every name is found under
  its identifier, every identifier that was live before keeps its name, and the table
  and the index of the committed registry agree again.\<close>

theorem registry_intern_commit:
  assumes wf: "sr_wf r"
    and names: "su_intern_all mem r (sr_begin_update r) vs = (Ok, is, u)"
    and commit: "su_commit mem' r u = (Ok, r', u')"
  shows "sr_wf r' \<and> map (sr_get r') is = map Some vs \<and> map (sr_find r') vs = is \<and>
     (\<forall>i v. sr_get r i = Some v \<longrightarrow> sr_get r' i = Some v) \<and>
     sr_generation r' = sr_generation r + 1"
proof -
  note all = su_intern_all_store [OF names]
  have start: "interning (r, sr_begin_update r)"
    using su_wf_begin [OF wf] by (simp add: interning_def sr_begin_update_def)
  have "interning (r, u)" using registry.store_all_invar [OF start all] .
  then have u: "su_wf r u" "\<not> su_prepared u" by (simp_all add: interning_def)
  note wf' = su_commit_append(1) [OF u(1) commit]
  have get: "sr_get r' i = Some v \<longleftrightarrow> su_get r u i = Some v" for i v
    using su_commit_append(2) [OF u(1) commit] by (simp add: sr_get_Some su_get_Some [OF u])
  then have gets: "sr_get r' = su_get r u" by (metis option.exhaust ext)
  have reads: "map (sr_get r') is = map Some vs"
    using registry.store_all_lookup [OF start all] by (simp add: gets)
  have find: "sr_find r' v = i" if "sr_get r' i = Some v" for i v
    using sr_find_get [OF wf', of v i] that by simp
  have len: "length is = length vs" using store_all_length [OF all] .
  have "map (sr_find r') vs = is"
  proof (rule nth_equalityI)
    fix k assume "k < length (map (sr_find r') vs)"
    then have k: "k < length vs" by simp
    then have "sr_get r' (is ! k) = Some (vs ! k)"
      using arg_cong [OF reads, of "\<lambda>l. l ! k"] len by simp
    with find k show "map (sr_find r') vs ! k = is ! k" by simp
  qed (simp add: len)
  moreover have "sr_get r' i = Some v" if "sr_get r i = Some v" for i v
    using that su_commit_append(2) [OF u(1) commit]
    by (auto simp: sr_get_Some candidate_table_def slot_append slot_Some_iff)
  ultimately show ?thesis
    using wf' reads su_commit_Ok(6) [OF commit] by simp
qed

lemma sr_wf_new: "sr_wf new_string_registry"
  by (simp add: sr_wf_def new_string_registry_def table_ok_empty)

definition example_interned :: "status_code \<times> nat list \<times> string_registry_update" where
  "example_interned = su_intern_all True new_string_registry (sr_begin_update new_string_registry)
     [''a'', ''b'', ''a'']"

definition example_committed ::
    "status_code \<times> string_registry \<times> string_registry_update" where
  "example_committed = su_commit True new_string_registry (snd (snd example_interned))"

lemma registry_intern_commit_witness:
  "sr_wf (fst (snd example_committed)) \<and>
   map (sr_get (fst (snd example_committed))) [1, 2, 1] = map Some [''a'', ''b'', ''a'']"
proof -
  have m: "fst example_interned = Ok" "fst (snd example_interned) = [1, 2, 1]"
    "fst example_committed = Ok" by code_simp+
  show ?thesis
    using registry_intern_commit [OF sr_wf_new, of True "[''a'', ''b'', ''a'']" "[1, 2, 1]"
        "snd (snd example_interned)" True "fst (snd example_committed)"
        "snd (snd example_committed)"] m
    by (simp add: example_interned_def [symmetric] example_committed_def [symmetric]
        prod_eq_iff)
qed

text \<open>C25: The G0 compaction never moves an identifier: when it succeeds, publication
  leaves a well-formed registry with as many slots as the candidate had, in which a
  retained slot resolves to the same string and every other slot is a tombstone.\<close>

theorem registry_compaction:
  assumes "su_wf r u" "su_prepare_rebuild_compaction mem r u retained = (Ok, u')"
    "su_publish_prepared r u' = (r', u'')"
  shows "sr_wf r' \<and> length (records r') = su_candidate_size r u \<and>
     (\<forall>i. sr_get r' i =
        (if i < length retained \<and> retained ! i = 0 then None else su_get_for_validation r u i))"
proof -
  let ?T = "candidate_table r u"
  have r': "r' = fst (su_publish_prepared r u')" using assms(3) by simp
  note tab = compaction_table [OF assms(1,2)]
  have rec: "records r' = retain_table retained ?T"
    using tab(2) by (simp add: r' published_table_def)
  have len: "length retained > length ?T"
    using assms(2) by (auto simp: su_prepare_rebuild_compaction_def Let_def
        length_candidate_table split: if_splits)
  have "sr_get r' i =
      (if i < length retained \<and> retained ! i = 0 then None else su_get_for_validation r u i)" for i
    using len by (auto simp: sr_get_slot rec slot_retain_table su_get_for_validation_slot [OF assms(1)]
        slot_Some_iff slot_None_iff split: option.splits)
  then show ?thesis
    using tab(1) rec assms(1)
    by (simp add: r' [symmetric] su_candidate_size_def su_wf_def length_candidate_table)
qed

definition example_prepared :: string_registry_update where
  "example_prepared = snd (su_prepare_publish True new_string_registry (snd (snd example_interned)))"

definition example_compacted :: "status_code \<times> string_registry_update" where
  "example_compacted =
     su_prepare_rebuild_compaction True new_string_registry example_prepared [0, 0, 1]"

lemma su_wf_example: "su_wf new_string_registry example_prepared"
proof -
  let ?u = "snd (snd example_interned)"
  have run: "fst example_interned = Ok"
    "fst (su_prepare_publish True new_string_registry ?u) = Ok" by code_simp+
  have "su_intern_all True new_string_registry (sr_begin_update new_string_registry)
      [''a'', ''b'', ''a''] = (Ok, fst (snd example_interned), ?u)"
    using run(1) by (simp add: example_interned_def [symmetric] prod_eq_iff)
  note all = su_intern_all_store [OF this]
  have start: "interning (new_string_registry, sr_begin_update new_string_registry)"
    using su_wf_begin [OF sr_wf_new] by (simp add: interning_def sr_begin_update_def)
  have "su_wf new_string_registry ?u"
    using registry.store_all_invar [OF start all] by (simp add: interning_def)
  moreover have "example_prepared = ?u\<lparr>su_prepared := True\<rparr>"
    using su_prepare_publish_Ok [of True new_string_registry ?u example_prepared] run(2)
    by (simp add: example_prepared_def prod_eq_iff)
  ultimately show ?thesis using su_wf_prepare by metis
qed

lemma registry_compaction_witness:
  "sr_get (fst (su_publish_prepared new_string_registry (snd example_compacted))) 2 = Some ''b'' \<and>
   sr_get (fst (su_publish_prepared new_string_registry (snd example_compacted))) 1 = None"
proof -
  have c: "fst example_compacted = Ok"
    "su_get_for_validation new_string_registry example_prepared 2 = Some ''b''" by code_simp+
  show ?thesis
    using registry_compaction [OF su_wf_example, of True "[0, 0, 1]" "snd example_compacted"
        "fst (su_publish_prepared new_string_registry (snd example_compacted))"
        "snd (su_publish_prepared new_string_registry (snd example_compacted))"] c
    by (simp add: example_compacted_def prod_eq_iff)
qed

text \<open>The compaction of a prepared update fails only for the reasons the code
  names. With memory and a retention table that covers every candidate identifier it
  succeeds exactly when every retained slot still holds a string, and a retained
  tombstone makes the whole update fail for good with Configuration_failed.\<close>

theorem registry_compaction_outcome:
  assumes wf: "su_wf r u" and prep: "su_prepared u" "su_failure u = Ok"
    and len: "su_candidate_size r u < length retained"
  shows "(case su_prepare_rebuild_compaction True r u retained of (st, u') \<Rightarrow>
     (if \<forall>i. 0 < i \<and> i \<le> su_candidate_size r u \<and> retained ! i \<noteq> 0 \<longrightarrow>
             su_get_for_validation r u i \<noteq> None \<or> \<not> compaction_required (su_candidate_size r u) retained
      then st = Ok
      else st = Configuration_failed \<and> su_failure u' = Configuration_failed \<and>
           su_intern mem r u' v = (Configuration_failed, 0, u')))"
proof -
  let ?T = "candidate_table r u"
  let ?u = "u\<lparr>rebuilt_storage := [], rebuilt_records := replicate (length ?T) None,
               rebuilt_lookup := []\<rparr>"
  have size: "su_candidate_size r u = length ?T"
    using wf by (simp add: su_candidate_size_def su_wf_def length_candidate_table)
  have guards: "su_owner u" "\<not> su_committed u" "\<not> su_compaction_prepared u"
    "sr_generation r = su_base_generation u" using wf by (simp_all add: su_wf_def)
  show ?thesis
  proof (cases "compaction_required (length ?T) retained")
    case False
    then show ?thesis
      using prep len guards
      by (simp add: su_prepare_rebuild_compaction_def size Let_def length_candidate_table
          split: prod.splits)
  next
    case True
    obtain st w where loop: "compact_loop r ?u retained [0..<length ?T] = (st, w)"
      by (cases "compact_loop r ?u retained [0..<length ?T]") auto
    have fr: "rebuilt_frame u ?u" by (simp add: rebuilt_frame_def)
    have get: "su_get_for_validation r ?u i = (case slot ?T i of None \<Rightarrow> None | Some x \<Rightarrow> x)" for i
      unfolding rebuilt_frame_get [OF fr] by (rule su_get_for_validation_slot [OF wf])
    have inv: "compact_inv ?T retained 0 ?u" by (simp add: compact_inv_def table_ok_empty)
    note spec = compact_loop_spec [OF su_wf_table [OF wf] get inv _ loop]
    have live: "retained_live ?T retained 0 \<longleftrightarrow>
        (\<forall>i. 0 < i \<and> i \<le> length ?T \<and> retained ! i \<noteq> 0 \<longrightarrow> su_get_for_validation r u i \<noteq> None)"
      unfolding retained_live_def su_get_for_validation_slot [OF wf]
      by (auto simp: slot_def)
    have run: "su_prepare_rebuild_compaction True r u retained =
        (if st = Ok then (Ok, w\<lparr>su_compaction_prepared := True\<rparr>)
         else (st, w\<lparr>su_failure := st\<rparr>))"
      using prep len guards True loop
      by (cases st) (simp_all add: su_prepare_rebuild_compaction_def size Let_def
          length_candidate_table)
    show ?thesis
      unfolding run size using spec True live
      by (auto simp: su_intern_def)
  qed
qed

lemma registry_compaction_outcome_witness:
  "fst (su_prepare_rebuild_compaction True new_string_registry example_prepared [0, 0, 1]) = Ok"
proof -
  have c: "su_prepared example_prepared" "su_failure example_prepared = Ok"
    "su_candidate_size new_string_registry example_prepared < length [0::nat, 0, 1]"
    "su_candidate_size new_string_registry example_prepared = 2"
    "su_get_for_validation new_string_registry example_prepared 2 = Some ''b''" by code_simp+
  have "i = 2" if "0 < i" "i \<le> 2" "[0::nat, 0, 1] ! i \<noteq> 0" for i
    using that by (cases "i = 1") auto
  then have "\<forall>i. 0 < i \<and> i \<le> su_candidate_size new_string_registry example_prepared \<and>
        [0::nat, 0, 1] ! i \<noteq> 0 \<longrightarrow>
      su_get_for_validation new_string_registry example_prepared i \<noteq> None \<or>
      \<not> compaction_required (su_candidate_size new_string_registry example_prepared) [0, 0, 1]"
    using c(4,5) by (metis option.distinct(1))
  with registry_compaction_outcome [OF su_wf_example c(1,2,3)] show ?thesis
    by (simp only: if_True split_beta)
qed

text \<open>C26: Publication is optimistic: of two updates begun on the same committed
  generation only one can be committed. The other one is rejected, and a rejected
  commit, for whatever reason, leaves the registry untouched.\<close>

theorem registry_first_commit_wins:
  assumes "su_commit mem r u1 = (Ok, r', u1')" "su_base_generation u2 = sr_generation r"
  shows "fst (su_commit mem' r' u2) \<noteq> Ok \<and> fst (snd (su_commit mem' r' u2)) = r'"
proof -
  have "sr_generation r' = sr_generation r + 1"
    using su_commit_Ok(6) [OF assms(1)] by simp
  then have stale: "su_base_generation u2 \<noteq> sr_generation r'" using assms(2) by simp
  then have "fst (su_prepare_publish mem' r' u2) \<noteq> Ok"
    using su_prepare_publish_Ok [of mem' r' u2 "snd (su_prepare_publish mem' r' u2)"]
    by (metis prod.collapse)
  then show ?thesis
    by (auto simp: su_commit_def split: prod.splits status_code.splits)
qed

lemma registry_first_commit_wins_witness:
  "fst (su_commit True (fst (snd example_committed)) (sr_begin_update new_string_registry)) \<noteq> Ok"
proof -
  have c: "fst example_committed = Ok"
    "su_base_generation (sr_begin_update new_string_registry) = sr_generation new_string_registry"
    by code_simp+
  show ?thesis
    using registry_first_commit_wins [of True new_string_registry "snd (snd example_interned)"
        "fst (snd example_committed)" "snd (snd example_committed)" _ True, OF _ c(2)] c(1)
    by (simp add: example_committed_def [symmetric] prod_eq_iff)
qed

lemma import_slots_cases:
  assumes "length vals \<le> u32_max"
  shows "if distinct (live_strings vals)
     then \<exists>r'. sr_import_slots True r vals = (Ok, r') \<and> records r' = vals \<and> sr_wf r'
     else sr_import_slots True r vals = (Artifact_corrupt, r)"
proof (cases "distinct (live_strings vals)")
  case True
  then obtain idx where "index_slots 0 vals [] = Some idx" "table_ok vals idx"
    using assms by (rule index_slots_complete)
  with True show ?thesis by (simp add: sr_import_slots_def sr_wf_def)
next
  case False
  then have "index_slots 0 vals [] = None" using index_slots_None [of 0 vals "[]"] by simp
  with False show ?thesis by (simp add: sr_import_slots_def)
qed

lemma table_ok_same_lookup:
  assumes "table_ok rs idx" "table_ok rs idx'"
  shows "map_of idx = map_of idx'"
proof
  fix v
  show "map_of idx v = map_of idx' v"
    using table_ok_iff [OF assms(1), of v] table_ok_iff [OF assms(2), of v]
    by (metis not_Some_eq)
qed

text \<open>C27: The slot projection of the checkpoint round-trips: importing what a
  well-formed registry exported succeeds on any registry and restores every lookup in
  both directions, tombstones included, and import refuses exactly the slot tables in
  which one string occupies two slots, leaving the registry as it was.\<close>

theorem registry_checkpoint_roundtrip:
  assumes wf: "sr_wf r" and small: "length slots \<le> u32_max"
  shows "(\<exists>r'. sr_import_slots True r0 (snd (sr_export_slots True r)) = (Ok, r') \<and> sr_wf r' \<and>
       length (records r') = length (records r) \<and>
       sr_get r' = sr_get r \<and> sr_find r' = sr_find r) \<and>
     (fst (sr_import_slots True r0 slots) = Ok \<longleftrightarrow> distinct (live_strings slots)) \<and>
     (\<not> distinct (live_strings slots) \<longrightarrow> sr_import_slots True r0 slots = (Artifact_corrupt, r0))"
proof -
  have tbl: "table_ok (records r) (lookup_index r)" using wf by (simp add: sr_wf_def)
  have dist: "distinct (live_strings (records r))" using tbl by (rule table_ok_distinct)
  have len: "length (records r) \<le> u32_max" using tbl by (simp add: table_ok_def)
  obtain r' where r': "sr_import_slots True r0 (records r) = (Ok, r')" "records r' = records r"
    and wf': "sr_wf r'"
    using import_slots_cases [OF len, of r0] dist by auto
  have "table_ok (records r) (lookup_index r')" using wf' r'(2) by (simp add: sr_wf_def)
  then have "map_of (lookup_index r') = map_of (lookup_index r)"
    using tbl by (rule table_ok_same_lookup)
  then have "sr_get r' = sr_get r" "sr_find r' = sr_find r"
    using r'(2) by (auto simp: sr_get_def sr_find_def fun_eq_iff)
  with r' wf' import_slots_cases [OF small, of r0] show ?thesis
    by (auto simp: sr_export_slots_def split: if_splits)
qed

lemma registry_checkpoint_roundtrip_witness:
  "sr_import_slots True new_string_registry [Some ''x'', None, Some ''x''] =
     (Artifact_corrupt, new_string_registry)"
  using registry_checkpoint_roundtrip [OF sr_wf_new,
      of "[Some ''x'', None, Some ''x'']" new_string_registry]
  by (simp add: u32_max_def)

section \<open>The registry update as a two-phase participant\<close>

definition registry_prepare ::
    "bool \<Rightarrow> string_registry \<times> string_registry_update
     \<Rightarrow> status_code \<times> string_registry \<times> string_registry_update" where
  "registry_prepare mem s =
     (case su_prepare_publish mem (fst s) (snd s) of (st, u') \<Rightarrow> (st, (fst s, u')))"

definition registry_publish ::
    "string_registry \<times> string_registry_update \<Rightarrow> string_registry \<times> string_registry_update" where
  "registry_publish s = su_publish_prepared (fst s) (snd s)"

definition registry_cancel ::
    "string_registry \<times> string_registry_update \<Rightarrow> string_registry \<times> string_registry_update" where
  "registry_cancel s = (fst s, su_cancel (snd s))"

interpretation registry_phases: two_phase interning "\<lambda>s. sr_get (fst s)" "\<lambda>s. su_get (fst s) (snd s)"
  "registry_prepare mem" registry_publish registry_cancel
  for mem
proof
  fix s t
  assume act: "interning s" and prep: "registry_prepare mem s = (Ok, t)"
  let ?u = "(snd s)\<lparr>su_prepared := True\<rparr>"
  have wf: "su_wf (fst s) (snd s)" using act by (simp add: interning_def)
  have t: "t = (fst s, ?u)"
    using prep su_prepare_publish_Ok by (auto simp: registry_prepare_def split: prod.splits)
  have "records (fst (registry_publish t)) = candidate_table (fst s) (snd s)"
    using publish_append_wf(2) [OF su_wf_prepare [OF wf]]
    by (simp add: t registry_publish_def candidate_table_def)
  then show "sr_get (fst (registry_publish t)) = su_get (fst s) (snd s)"
    using act su_get_for_validation_slot [OF wf]
    by (auto simp: fun_eq_iff sr_get_slot interning_def su_wf_def su_get_def su_active_def
        su_get_for_validation_def slot_def split: option.splits)
qed (auto simp: registry_prepare_def registry_cancel_def split: prod.splits)


end
