(* ===== verification/SourceChange.thy ===== *)
theory SourceChange
  imports Prelude
begin

text \<open>
  The value types of the Source Manager (\<^verbatim>\<open>server_entry/project/source/source_manager.hpp\<close>)
  and the net change set of a candidate update: the two functions of the anonymous
  namespace of \<^verbatim>\<open>source_manager.cpp\<close>, \<open>classify_change\<close> and \<open>set_net_change\<close>. The
  change records stand in a vector whose order means nothing; a position index, dense
  for the first generation and sparse afterwards, locates the record of a Source. Both
  forms of the index implement the same finite map from Sources to change kinds.

  A content hash is the list of its 32 bytes; a path is its normalized spelling.
\<close>

section \<open>Value types\<close>

type_synonym path = string
type_synonym source_content_hash = "u8 list"

datatype project_item_role = Role_type | Role_source | Role_project

datatype source_presence = Present | Missing

record source_observation =
  write_time_ticks :: u64
  observed_size :: u64

record source_physical_state =
  presence :: source_presence
  observation :: source_observation
  content_hash :: source_content_hash

definition zero_hash :: source_content_hash where
  "zero_hash = replicate 32 0"

definition initial_observation :: source_observation where
  "initial_observation = \<lparr>write_time_ticks = 0, observed_size = 0\<rparr>"

definition initial_physical_state :: source_physical_state where
  "initial_physical_state =
     \<lparr>presence = Missing, observation = initial_observation, content_hash = zero_hash\<rparr>"

datatype source_change_kind = Change_added | Change_modified | Change_removed

record source_change =
  change_source :: nat
  change_kind :: source_change_kind

section \<open>Classification\<close>

definition classify_change ::
    "bool \<Rightarrow> source_physical_state \<Rightarrow> source_physical_state \<Rightarrow> source_change_kind option" where
  "classify_change has_committed committed candidate =
     (if \<not> has_committed then
        (if presence candidate = Present then Some Change_added else None)
      else if presence committed = Present \<and> presence candidate = Missing then Some Change_removed
      else if presence committed = Missing \<and> presence candidate = Present then Some Change_added
      else if presence committed = Present \<and> presence candidate = Present
           \<and> content_hash committed \<noteq> content_hash candidate then Some Change_modified
      else None)"

lemma classify_change_same_hash [simp]:
  "presence committed = Present \<Longrightarrow> content_hash candidate = content_hash committed \<Longrightarrow>
   presence candidate = Present \<Longrightarrow> classify_change True committed candidate = None"
  by (simp add: classify_change_def)

section \<open>The net change set\<close>

definition set_kind :: "nat \<Rightarrow> source_change_kind \<Rightarrow> source_change list \<Rightarrow> source_change list" where
  "set_kind position kind changes =
     changes[position := (changes ! position)\<lparr>change_kind := kind\<rparr>]"

text \<open>Removing a record: the last record takes its place.\<close>

definition swap_pop :: "nat \<Rightarrow> source_change list \<Rightarrow> source_change list" where
  "swap_pop position changes =
     (let lst = length changes - 1 in
      butlast (if position \<noteq> lst then changes[position := changes ! lst] else changes))"

definition set_net_change_dense ::
    "nat \<Rightarrow> source_change_kind option \<Rightarrow> source_change list \<Rightarrow> nat list
     \<Rightarrow> source_change list \<times> nat list" where
  "set_net_change_dense i kind changes positions0 =
     (let positions = (if length positions0 \<le> i then resize (i + 1) 0 positions0 else positions0);
          encoded = positions ! i in
      if encoded \<noteq> 0 then
        (case kind of
           Some k \<Rightarrow> (set_kind (encoded - 1) k changes, positions)
         | None \<Rightarrow>
             let position = encoded - 1; lst = length changes - 1;
                 moved = (if position \<noteq> lst
                          then positions[change_source (changes ! lst) := cast_u32 (position + 1)]
                          else positions)
             in (swap_pop position changes, moved[i := 0]))
      else
        (case kind of
           None \<Rightarrow> (changes, positions)
         | Some k \<Rightarrow>
             (changes @ [\<lparr>change_source = i, change_kind = k\<rparr>],
              positions[i := cast_u32 (length changes + 1)])))"

definition set_net_change_sparse ::
    "nat \<Rightarrow> source_change_kind option \<Rightarrow> source_change list \<Rightarrow> (nat, nat) umap
     \<Rightarrow> source_change list \<times> (nat, nat) umap" where
  "set_net_change_sparse i kind changes positions =
     (case map_of positions i of
        Some encoded \<Rightarrow>
          (case kind of
             Some k \<Rightarrow> (set_kind (encoded - 1) k changes, positions)
           | None \<Rightarrow>
               let position = encoded - 1; lst = length changes - 1;
                   moved = (if position \<noteq> lst
                            then um_set (change_source (changes ! lst)) (cast_u32 (position + 1)) positions
                            else positions)
               in (swap_pop position changes, um_erase i moved))
      | None \<Rightarrow>
          (case kind of
             None \<Rightarrow> (changes, positions)
           | Some k \<Rightarrow>
               (changes @ [\<lparr>change_source = i, change_kind = k\<rparr>],
                um_emplace i (cast_u32 (length changes + 1)) positions)))"

definition set_net_change ::
    "bool \<Rightarrow> nat \<Rightarrow> source_change_kind option \<Rightarrow> source_change list \<times> nat list \<times> (nat, nat) umap
     \<Rightarrow> source_change list \<times> nat list \<times> (nat, nat) umap" where
  "set_net_change dense i kind s =
     (case s of (changes, dense_positions, sparse_positions) \<Rightarrow>
        if dense then
          (case set_net_change_dense i kind changes dense_positions of
             (changes', positions') \<Rightarrow> (changes', positions', sparse_positions))
        else
          (case set_net_change_sparse i kind changes sparse_positions of
             (changes', positions') \<Rightarrow> (changes', dense_positions, positions')))"

section \<open>The map it implements\<close>

definition change_map :: "source_change list \<Rightarrow> nat \<Rightarrow> source_change_kind option" where
  "change_map changes = map_of (map (\<lambda>c. (change_source c, change_kind c)) changes)"

text \<open>
  \<open>indexed pos changes\<close>: the index \<open>pos\<close> locates every record, and only records; the
  records therefore have pairwise different Sources.
\<close>

definition indexed :: "(nat \<Rightarrow> nat option) \<Rightarrow> source_change list \<Rightarrow> bool" where
  "indexed pos changes \<longleftrightarrow>
     (\<forall>i p. pos i = Some p \<longleftrightarrow> p < length changes \<and> change_source (changes ! p) = i)"

definition dense_pos :: "nat list \<Rightarrow> nat \<Rightarrow> nat option" where
  "dense_pos positions i =
     (if i < length positions \<and> positions ! i \<noteq> 0 then Some (positions ! i - 1) else None)"

definition sparse_pos :: "(nat, nat) umap \<Rightarrow> nat \<Rightarrow> nat option" where
  "sparse_pos positions i = map_option (\<lambda>p. p - 1) (map_of positions i)"

definition changes_wf ::
    "bool \<Rightarrow> source_change list \<times> nat list \<times> (nat, nat) umap \<Rightarrow> bool" where
  "changes_wf dense s \<longleftrightarrow> (case s of (changes, dense_positions, sparse_positions) \<Rightarrow>
     length changes \<le> u32_max \<and>
     (if dense then indexed (dense_pos dense_positions) changes
      else indexed (sparse_pos sparse_positions) changes \<and>
           (\<forall>i p. map_of sparse_positions i = Some p \<longrightarrow> p \<noteq> 0)))"

lemma indexed_iff:
  "indexed pos changes \<Longrightarrow>
   pos i = Some p \<longleftrightarrow> p < length changes \<and> change_source (changes ! p) = i"
  by (simp add: indexed_def)

lemma indexed_None:
  "indexed pos changes \<Longrightarrow> pos i = None \<Longrightarrow> p < length changes \<Longrightarrow>
   change_source (changes ! p) \<noteq> i"
  unfolding indexed_def by (metis option.distinct(1))

lemma indexed_inj:
  "indexed pos changes \<Longrightarrow> p < length changes \<Longrightarrow> q < length changes \<Longrightarrow>
   change_source (changes ! p) = change_source (changes ! q) \<Longrightarrow> p = q"
  unfolding indexed_def by (metis option.inject)

lemma indexed_distinct: "indexed pos changes \<Longrightarrow> distinct (map change_source changes)"
  by (auto simp: distinct_conv_nth dest: indexed_inj)

lemma change_map_at:
  assumes "indexed pos changes"
  shows "change_map changes i =
     (case pos i of None \<Rightarrow> None | Some p \<Rightarrow> Some (change_kind (changes ! p)))"
proof -
  let ?l = "map (\<lambda>c. (change_source c, change_kind c)) changes"
  have dist: "distinct (map fst ?l)" using indexed_distinct [OF assms] by (simp add: comp_def)
  show ?thesis
  proof (cases "pos i")
    case None
    then have "\<forall>p < length changes. change_source (changes ! p) \<noteq> i"
      using indexed_None [OF assms] by blast
    then have "i \<notin> fst ` set ?l" by (auto simp: in_set_conv_nth)
    with None show ?thesis by (simp add: change_map_def map_of_eq_None_iff)
  next
    case (Some p)
    then have p: "p < length changes" "change_source (changes ! p) = i"
      using assms by (auto simp: indexed_def)
    then have "?l ! p \<in> set ?l" by (intro nth_mem) simp
    then have "(i, change_kind (changes ! p)) \<in> set ?l" using p by simp
    with dist Some show ?thesis by (simp add: change_map_def)
  qed
qed

lemma length_swap_pop [simp]: "length (swap_pop p changes) = length changes - 1"
  by (simp add: swap_pop_def Let_def)

lemma nth_swap_pop:
  "q < length changes - 1 \<Longrightarrow>
   swap_pop p changes ! q = (if q = p then changes ! (length changes - 1) else changes ! q)"
  by (auto simp: swap_pop_def Let_def nth_butlast nth_list_update)

text \<open>The three ways the set changes, for any index.\<close>

lemma change_source_set_kind [simp]:
  "change_source (set_kind p k changes ! q) = change_source (changes ! q)"
  by (cases "q = p"; cases "p < length changes") (simp_all add: set_kind_def list_update_beyond)

lemma change_kind_set_kind:
  "p < length changes \<Longrightarrow>
   change_kind (set_kind p k changes ! q) = (if q = p then k else change_kind (changes ! q))"
  by (simp add: set_kind_def)

lemma length_set_kind [simp]: "length (set_kind p k changes) = length changes"
  by (simp add: set_kind_def)

lemma indexed_set_kind:
  "indexed pos changes \<Longrightarrow> indexed pos (set_kind p k changes)"
  by (simp add: indexed_def)

lemma indexed_push:
  assumes "indexed pos changes" "pos i = None"
  shows "indexed (pos(i := Some (length changes))) (changes @ [\<lparr>change_source = i, change_kind = k\<rparr>])"
proof -
  have "(pos(i := Some (length changes))) j = Some p \<longleftrightarrow>
      p < length (changes @ [\<lparr>change_source = i, change_kind = k\<rparr>]) \<and>
      change_source ((changes @ [\<lparr>change_source = i, change_kind = k\<rparr>]) ! p) = j" for j p
    using indexed_iff [OF assms(1), of j p] indexed_None [OF assms, of p]
    by (cases "p < length changes") (auto simp: nth_append)
  then show ?thesis by (simp add: indexed_def)
qed

lemma indexed_pop:
  assumes ix: "indexed pos changes" and p: "pos i = Some p"
    and pos': "\<And>j. pos' j = (if j = i then None
        else if j = change_source (changes ! (length changes - 1)) then Some p else pos j)"
  shows "indexed pos' (swap_pop p changes)"
proof -
  let ?n = "length changes - 1"
  have pi: "p < length changes" "change_source (changes ! p) = i"
    using indexed_iff [OF ix] p by simp_all
  then have n: "?n < length changes" by simp
  have "pos' j = Some q \<longleftrightarrow> q < ?n \<and> change_source (swap_pop p changes ! q) = j" for j q
  proof (cases "j = i")
    case True
    have "change_source (swap_pop p changes ! q) \<noteq> i" if "q < ?n"
      using indexed_inj [OF ix less_le_trans [OF that diff_le_self] pi(1)] indexed_inj [OF ix n pi(1)] that pi(2)
      by (cases "q = p") (auto simp: nth_swap_pop)
    with True show ?thesis by (simp add: pos')
  next
    case False
    note iff = indexed_iff [OF ix, of j q]
    show ?thesis
    proof (cases "j = change_source (changes ! ?n)")
      case True
      then have pn: "p < ?n" using False pi by (cases "p = ?n") auto
      show ?thesis
      proof (cases "q < ?n \<and> q \<noteq> p")
        case qn: True
        then have "q < length changes" by linarith
        then have "change_source (changes ! q) \<noteq> j"
          using indexed_inj [OF ix _ n, of q] qn True by auto
        with qn True False show ?thesis by (simp add: pos' nth_swap_pop)
      qed (use True False pn in \<open>auto simp: pos' nth_swap_pop\<close>)
    next
      case other: False
      then show ?thesis
        using False pi iff
        by (cases "q = ?n"; cases "q = p") (auto simp: pos' nth_swap_pop)
    qed
  qed
  then show ?thesis by (simp add: indexed_def)
qed

text \<open>Both representations implement one assignment of the map.\<close>

lemma change_map_set_kind:
  assumes "indexed pos changes" "pos i = Some p"
  shows "change_map (set_kind p k changes) = (change_map changes)(i \<mapsto> k)"
proof
  fix j
  have p: "p < length changes" "change_source (changes ! p) = i"
    using indexed_iff [OF assms(1)] assms(2) by simp_all
  note new = change_map_at [OF indexed_set_kind [OF assms(1)], of p k]
  show "change_map (set_kind p k changes) j = ((change_map changes)(i \<mapsto> k)) j"
  proof (cases "j = i")
    case True
    then show ?thesis using assms(2) p by (simp add: new change_kind_set_kind)
  next
    case False
    then have "pos j \<noteq> Some p" using indexed_iff [OF assms(1), of j p] p by simp
    with False show ?thesis
      using p by (cases "pos j") (auto simp: new change_kind_set_kind change_map_at [OF assms(1)])
  qed
qed

lemma change_map_push:
  assumes "indexed pos changes" "pos i = None"
  shows "change_map (changes @ [\<lparr>change_source = i, change_kind = k\<rparr>]) = (change_map changes)(i \<mapsto> k)"
proof
  fix j
  note new = change_map_at [OF indexed_push [OF assms], of k]
  show "change_map (changes @ [\<lparr>change_source = i, change_kind = k\<rparr>]) j =
      ((change_map changes)(i \<mapsto> k)) j"
  proof (cases "j = i")
    case True
    then show ?thesis by (simp add: new)
  next
    case False
    have "p < length changes" if "pos j = Some p" for p
      using indexed_iff [OF assms(1), of j p] that by simp
    with False show ?thesis
      by (cases "pos j") (simp_all add: new change_map_at [OF assms(1)] nth_append)
  qed
qed

lemma change_map_pop:
  assumes ix: "indexed pos changes" and p: "pos i = Some p"
    and pos': "\<And>j. pos' j = (if j = i then None
        else if j = change_source (changes ! (length changes - 1)) then Some p else pos j)"
  shows "change_map (swap_pop p changes) = (change_map changes)(i := None)"
proof
  fix j
  let ?n = "length changes - 1"
  have pi: "p < length changes" "change_source (changes ! p) = i"
    using indexed_iff [OF ix] p by simp_all
  then have n: "?n < length changes" by simp
  note new = change_map_at [OF indexed_pop [OF ix p pos']]
  show "change_map (swap_pop p changes) j = ((change_map changes)(i := None)) j"
  proof (cases "pos j")
    case None
    then have "j \<noteq> change_source (changes ! ?n)"
      using indexed_None [OF ix None n] by auto
    with None show ?thesis by (simp add: new pos' change_map_at [OF ix])
  next
    case (Some q)
    then have q: "q < length changes" "change_source (changes ! q) = j"
      using indexed_iff [OF ix] by simp_all
    show ?thesis
    proof (cases "j = i")
      case False
      then have qp: "q \<noteq> p" using q pi by auto
      show ?thesis
      proof (cases "q = ?n")
        case True
        then have "p < ?n" using qp pi by simp
        with True q Some False show ?thesis
          by (simp add: new pos' change_map_at [OF ix] nth_swap_pop)
      next
        case other: False
        then have "j \<noteq> change_source (changes ! ?n)"
          using indexed_inj [OF ix q(1) n] q(2) by auto
        moreover have "q < ?n" using other q(1) by simp
        ultimately show ?thesis
          using Some False qp by (simp add: new pos' change_map_at [OF ix] nth_swap_pop)
      qed
    qed (simp add: new pos')
  qed
qed

lemma dense_pos_resize [simp]:
  "length positions \<le> n \<Longrightarrow> dense_pos (resize n 0 positions) = dense_pos positions"
  by (auto simp: dense_pos_def fun_eq_iff nth_resize split: if_splits)

lemma dense_pos_update:
  "j < length positions \<Longrightarrow>
   dense_pos (positions[j := e]) = (dense_pos positions)(j := if e = 0 then None else Some (e - 1))"
  by (auto simp: dense_pos_def fun_eq_iff nth_list_update)

lemma set_net_change_dense_refines:
  assumes ix: "indexed (dense_pos positions0) changes" and small: "length changes \<le> u32_max"
    and room: "change_map changes i = None \<Longrightarrow> length changes < u32_max"
    and run: "set_net_change_dense i kind changes positions0 = (changes', positions')"
  shows "indexed (dense_pos positions') changes' \<and> change_map changes' = (change_map changes)(i := kind)"
proof -
  define positions where
    "positions = (if length positions0 \<le> i then resize (i + 1) 0 positions0 else positions0)"
  have i: "i < length positions" by (simp add: positions_def)
  have "dense_pos positions = dense_pos positions0" by (simp add: positions_def)
  with ix have ix: "indexed (dense_pos positions) changes" by simp
  show ?thesis
  proof (cases "positions ! i = 0")
    case True
    then have none: "dense_pos positions i = None" by (simp add: dense_pos_def)
    show ?thesis
    proof (cases kind)
      case None
      have "change_map changes i = None" using change_map_at [OF ix, of i] none by simp
      then have "(change_map changes)(i := None) = change_map changes" by (auto simp: fun_eq_iff)
      with run True None ix show ?thesis
        by (simp add: set_net_change_dense_def Let_def positions_def [symmetric])
    next
      case (Some k)
      have "length changes < u32_max"
        using change_map_at [OF ix, of i] none room by simp
      then have "changes' = changes @ [\<lparr>change_source = i, change_kind = k\<rparr>]"
        "positions' = positions[i := Suc (length changes)]"
        using run True Some
        by (simp_all add: set_net_change_dense_def Let_def positions_def [symmetric])
      with indexed_push [OF ix none, of k] change_map_push [OF ix none, of k] i Some
      show ?thesis by (simp add: dense_pos_update)
    qed
  next
    case False
    define p where "p = positions ! i - 1"
    have some: "dense_pos positions i = Some p" using False i by (simp add: dense_pos_def p_def)
    have p: "p < length changes" using indexed_iff [OF ix] some by simp
    show ?thesis
    proof (cases kind)
      case (Some k)
      have "changes' = set_kind p k changes" "positions' = positions"
        using run False Some
        by (auto simp: set_net_change_dense_def Let_def positions_def [symmetric] p_def)
      with indexed_set_kind [OF ix, of p k] change_map_set_kind [OF ix some, of k] Some
      show ?thesis by simp
    next
      case None
      let ?l = "change_source (changes ! (length changes - 1))"
      have "dense_pos positions ?l = Some (length changes - 1)"
        using indexed_iff [OF ix] p by simp
      then have l: "?l < length positions" by (auto simp: dense_pos_def split: if_splits)
      have last: "?l = i" if "p = length changes - 1"
        using indexed_iff [OF ix, of i p] some that by simp
      define q where "q = (if p \<noteq> length changes - 1 then positions[?l := cast_u32 (p + 1)] else positions)[i := 0]"
      have q: "dense_pos q j = (if j = i then None else if j = ?l then Some p else dense_pos positions j)" for j
        using i l last p small by (auto simp: q_def dense_pos_update)
      have "changes' = swap_pop p changes" "positions' = q"
        using run False None
        by (auto simp: set_net_change_dense_def Let_def positions_def [symmetric] p_def q_def)
      with indexed_pop [OF ix some q] change_map_pop [OF ix some q] None show ?thesis by simp
    qed
  qed
qed

lemma sparse_pos_erase: "sparse_pos (um_erase i m) = (sparse_pos m)(i := None)"
  by (simp add: sparse_pos_def fun_eq_iff um_lookup_erase)

lemma sparse_pos_set: "sparse_pos (um_set i e m) = (sparse_pos m)(i := Some (e - 1))"
  by (simp add: sparse_pos_def fun_eq_iff um_lookup_set)

lemma sparse_pos_emplace:
  "map_of m i = None \<Longrightarrow> sparse_pos (um_emplace i e m) = (sparse_pos m)(i := Some (e - 1))"
  by (simp add: sparse_pos_def fun_eq_iff um_lookup_emplace)

lemma set_net_change_sparse_refines:
  assumes ix: "indexed (sparse_pos positions) changes" and small: "length changes \<le> u32_max"
    and room: "change_map changes i = None \<Longrightarrow> length changes < u32_max"
    and nz: "\<forall>i p. map_of positions i = Some p \<longrightarrow> p \<noteq> 0"
    and run: "set_net_change_sparse i kind changes positions = (changes', positions')"
  shows "indexed (sparse_pos positions') changes' \<and> change_map changes' = (change_map changes)(i := kind) \<and>
    (\<forall>i p. map_of positions' i = Some p \<longrightarrow> p \<noteq> 0)"
proof (cases "map_of positions i")
  case None
  then have none: "sparse_pos positions i = None" by (simp add: sparse_pos_def)
  show ?thesis
  proof (cases kind)
    case kind: None
    have "change_map changes i = None" using change_map_at [OF ix, of i] none by simp
    then have "(change_map changes)(i := None) = change_map changes" by (auto simp: fun_eq_iff)
    with run None kind ix nz show ?thesis by (auto simp: set_net_change_sparse_def)
  next
    case (Some k)
    have "length changes < u32_max"
      using change_map_at [OF ix, of i] none room by simp
    then have eqs: "changes' = changes @ [\<lparr>change_source = i, change_kind = k\<rparr>]"
      "positions' = um_emplace i (Suc (length changes)) positions"
      using run None Some by (auto simp: set_net_change_sparse_def)
    have "p \<noteq> 0" if "map_of positions' j = Some p" for j p
      using that nz by (auto simp: eqs um_lookup_emplace split: if_splits)
    with eqs indexed_push [OF ix none, of k] change_map_push [OF ix none, of k] Some None
    show ?thesis by (simp add: sparse_pos_emplace)
  qed
next
  case (Some e)
  define p where "p = e - 1"
  have some: "sparse_pos positions i = Some p" using Some by (simp add: sparse_pos_def p_def)
  have p: "p < length changes" using indexed_iff [OF ix] some by simp
  show ?thesis
  proof (cases kind)
    case kind: (Some k)
    have "changes' = set_kind p k changes" "positions' = positions"
      using run Some kind by (auto simp: set_net_change_sparse_def p_def)
    with indexed_set_kind [OF ix, of p k] change_map_set_kind [OF ix some, of k] kind nz
    show ?thesis by blast
  next
    case None
    let ?l = "change_source (changes ! (length changes - 1))"
    have last: "?l = i" if "p = length changes - 1"
      using indexed_iff [OF ix, of i p] some that by simp
    define q where "q = um_erase i
        (if p \<noteq> length changes - 1 then um_set ?l (cast_u32 (p + 1)) positions else positions)"
    have q: "sparse_pos q j = (if j = i then None else if j = ?l then Some p else sparse_pos positions j)" for j
      using last p small by (auto simp: q_def sparse_pos_erase sparse_pos_set)
    have eqs: "changes' = swap_pop p changes" "positions' = q"
      using run Some None
      by (auto simp: set_net_change_sparse_def Let_def p_def q_def)
    have "e' \<noteq> 0" if "map_of positions' j = Some e'" for j e'
      using that nz p small by (auto simp: eqs q_def um_lookup_erase um_lookup_set split: if_splits)
    with eqs indexed_pop [OF ix some q] change_map_pop [OF ix some q] None show ?thesis by auto
  qed
qed

lemma changes_room:
  assumes "indexed pos changes" "\<And>j. change_map changes j \<noteq> None \<Longrightarrow> 0 < j \<and> j \<le> n"
    and "change_map changes i = None" "0 < i" "i \<le> n"
  shows "length changes < n"
proof -
  have "change_source c \<noteq> i \<and> 0 < change_source c \<and> change_source c \<le> n" if c: "c \<in> set changes" for c
  proof -
    have "change_map changes (change_source c) \<noteq> None"
      using c by (auto simp: change_map_def map_of_eq_None_iff image_image)
    with assms(2,3) show ?thesis by metis
  qed
  then have "set (map change_source changes) \<subseteq> {1..n} - {i}" by (auto simp: Suc_le_eq)
  then have "card (set (map change_source changes)) \<le> card ({1..n} - {i})"
    by (intro card_mono) auto
  then have "length changes \<le> n - 1"
    using distinct_card [OF indexed_distinct [OF assms(1)]] assms(4,5) by simp
  with assms(4,5) show ?thesis by linarith
qed

lemma set_net_change_ok:
  assumes wf: "changes_wf dense s"
    and room: "change_map (fst s) i = None \<Longrightarrow> length (fst s) < u32_max"
  shows "changes_wf dense (set_net_change dense i kind s)"
    and "change_map (fst (set_net_change dense i kind s)) = (change_map (fst s))(i := kind)"
proof -
  obtain changes dp sp where s: "s = (changes, dp, sp)" by (cases s) auto
  have small: "length changes \<le> u32_max" using wf by (simp add: changes_wf_def s)
  have rm: "change_map changes i = None \<Longrightarrow> length changes < u32_max" using room by (simp add: s)
  have "changes_wf dense (set_net_change dense i kind s) \<and>
     change_map (fst (set_net_change dense i kind s)) = (change_map (fst s))(i := kind)"
  proof (cases dense)
    case True
    obtain c' p' where run: "set_net_change_dense i kind changes dp = (c', p')" by force
    have ix: "indexed (dense_pos dp) changes" using wf True by (simp add: changes_wf_def s)
    note ref = set_net_change_dense_refines [OF ix small rm run]
    have "length c' \<le> u32_max"
    proof (cases "dense_pos dp i")
      case None
      then have "length changes < u32_max" using change_map_at [OF ix, of i] rm by simp
      with run show ?thesis
        by (auto simp: set_net_change_dense_def Let_def split: if_splits option.splits)
    next
      case (Some p)
      with run small show ?thesis
        by (auto simp: set_net_change_dense_def Let_def dense_pos_def split: if_splits option.splits)
    qed
    with ref True run show ?thesis by (auto simp: s set_net_change_def changes_wf_def)
  next
    case False
    obtain c' p' where run: "set_net_change_sparse i kind changes sp = (c', p')" by force
    have ix: "indexed (sparse_pos sp) changes" and nz: "\<forall>i p. map_of sp i = Some p \<longrightarrow> p \<noteq> 0"
      using wf False by (auto simp: changes_wf_def s)
    note ref = set_net_change_sparse_refines [OF ix small rm nz run]
    have "length c' \<le> u32_max"
    proof (cases "sparse_pos sp i")
      case None
      then have "length changes < u32_max" using change_map_at [OF ix, of i] rm by simp
      with run small show ?thesis
        by (auto simp: set_net_change_sparse_def Let_def split: if_splits option.splits)
    next
      case (Some p)
      with run small show ?thesis
        by (auto simp: set_net_change_sparse_def Let_def sparse_pos_def split: if_splits option.splits)
    qed
    with ref False run show ?thesis by (auto simp: s set_net_change_def changes_wf_def)
  qed
  then show "changes_wf dense (set_net_change dense i kind s)"
    and "change_map (fst (set_net_change dense i kind s)) = (change_map (fst s))(i := kind)"
    by simp_all
qed

lemma changes_wf_distinct: "changes_wf dense s \<Longrightarrow> distinct (map change_source (fst s))"
  by (auto simp: changes_wf_def split: prod.splits if_splits intro: indexed_distinct)

text \<open>C28: The net change set implements a finite map. Whichever position index is in
  use, setting the net change of a Source to a kind, or to none, keeps the index and the
  records in step (one record per Source, found through the index) and changes the map
  they represent at that Source only.\<close>

theorem set_net_change_refines_map:
  assumes "changes_wf dense s" "length (fst s) < u32_max"
  shows "changes_wf dense (set_net_change dense i kind s) \<and>
     change_map (fst (set_net_change dense i kind s)) = (change_map (fst s))(i := kind) \<and>
     distinct (map change_source (fst (set_net_change dense i kind s)))"
  using set_net_change_ok [OF assms(1), of i kind] changes_wf_distinct assms(2) by blast

lemma set_net_change_refines_map_witness:
  "change_map (fst (set_net_change False 7 None
      ([\<lparr>change_source = 7, change_kind = Change_added\<rparr>], [], [(7, 1)]))) 7 = None"
proof -
  have "changes_wf False ([\<lparr>change_source = 7, change_kind = Change_added\<rparr>], [], [(7, 1)])"
    by (auto simp: changes_wf_def indexed_def sparse_pos_def u32_max_def)
  then show ?thesis
    using set_net_change_refines_map
      [of False "([\<lparr>change_source = 7, change_kind = Change_added\<rparr>], [], [(7, 1)])" 7 None]
    by (simp add: u32_max_def)
qed

end
