(* ===== verification/SourceManager.thy ===== *)
theory SourceManager
  imports SourceChange Interfaces "HOL-Library.While_Combinator"
begin

text \<open>
  The Source Manager, \<^verbatim>\<open>server_entry/project/source/source_manager.cpp\<close>: the committed
  Source universe (identities, paths, physical states, include and dependent edges), the
  candidate update that overlays it, and the two-phase publication of the update.

  Parameters of the model, standing for the platform: \<open>acquire\<close> is
  \<^verbatim>\<open>core::acquire_file_snapshot\<close> (which file bytes are there), \<open>hash\<close> is
  \<^verbatim>\<open>hash_source_content\<close>, \<open>is_regular\<close> is \<^verbatim>\<open>std::filesystem::is_regular_file\<close> and
  \<open>lexical_join\<close> is the lexically normal join of a relative include path with the
  directory of the including file. The checkpoint-backed view that a Source Manager may
  serve instead of its own tables is a record of functions, one per method of
  \<^verbatim>\<open>stable_source_manager_view\<close>. Telemetry is left out. When an allocation fails in
  the middle of an operation the update is closed by its failure status; the half-written
  containers of that closed update are not modelled. The iteration order of a hash map is
  the order of the association list, which is arbitrary.
\<close>

section \<open>State\<close>

record source_record =
  record_id :: nat
  record_path :: path

record source_root =
  root_source :: nat
  root_role :: project_item_role

record source_view =
  view_source :: nat
  view_content :: string

record source_physical_storage =
  ps_state :: source_physical_state
  ps_content :: string

record source_physical_delta =
  pd_state :: source_physical_state
  pd_replacement :: "source_physical_storage option"
  pd_observation_only :: bool

record source_acquire_job =
  job_source :: nat
  job_path :: path
  job_committed :: source_physical_state
  job_baseline :: source_physical_state
  job_has_committed :: bool
  job_has_baseline :: bool

datatype source_acquire_result_kind = Acquire_unchanged | Acquire_missing | Acquire_present

record source_acquire_result =
  res_source :: nat
  res_kind :: source_acquire_result_kind
  res_observation :: source_observation
  res_hash :: source_content_hash
  res_content :: string

datatype file_snapshot_result =
    Snapshot_acquired
  | Snapshot_unchanged
  | Snapshot_missing
  | Snapshot_changed_during_read
  | Snapshot_failed
  | Snapshot_allocation_failed

record stable_source_manager_view =
  sv_physical :: "nat \<Rightarrow> status_code \<times> source_physical_state option"
  sv_dependencies :: "nat \<Rightarrow> bool \<Rightarrow> status_code \<times> nat list"
  sv_source_count :: nat
  sv_root_count :: nat
  sv_path :: "nat \<Rightarrow> status_code \<times> path"
  sv_find :: "path \<Rightarrow> status_code \<times> nat"
  sv_root :: "nat \<Rightarrow> status_code \<times> source_root option"

record source_manager =
  sm_sources :: "source_record list"
  sm_roots :: "source_root list"
  sm_by_path :: "(path, nat) umap"
  sm_physical :: "source_physical_storage option list"
  sm_includes :: "nat list list"
  sm_dependents :: "nat list list"
  sm_next_id :: nat
  sm_generation :: u64
  sm_stable :: "stable_source_manager_view option"

definition new_source_manager :: source_manager where
  "new_source_manager =
     \<lparr>sm_sources = [], sm_roots = [], sm_by_path = [], sm_physical = [], sm_includes = [],
      sm_dependents = [], sm_next_id = 1, sm_generation = 0, sm_stable = None\<rparr>"

record source_manager_update =
  mu_owner :: bool
  mu_added :: "source_record list"
  mu_roots :: "source_root list"
  mu_by_path :: "(path, nat) umap"
  mu_physical :: "(nat, source_physical_delta) umap"
  mu_includes :: "(nat, nat list) umap"
  mu_dependents :: "(nat, nat list) umap"
  g0_sources :: "source_record list"
  g0_roots :: "source_root list"
  g0_by_path :: "(path, nat) umap"
  g0_physical :: "source_physical_storage option list"
  g0_includes :: "nat list list"
  g0_dependents :: "nat list list"
  mu_changes :: "source_change list"
  mu_positions :: "nat list"
  mu_sparse :: "(nat, nat) umap"
  mu_next_id :: nat
  mu_base_generation :: u64
  mu_failure :: status_code
  mu_committed :: bool
  mu_prepared :: bool
  mu_graph_validated :: bool
  mu_g0_snapshot :: bool
  mu_dense :: bool
  mu_roots_changed :: bool

section \<open>The committed Source Manager\<close>

definition sm_initialize :: "source_manager \<Rightarrow> status_code \<times> source_manager" where
  "sm_initialize m = (Ok, m)"

definition sm_begin_update :: "source_manager \<Rightarrow> source_manager_update" where
  "sm_begin_update m =
     \<lparr>mu_owner = (case sm_stable m of None \<Rightarrow> True | Some _ \<Rightarrow> False),
      mu_added = [], mu_roots = [], mu_by_path = [], mu_physical = [], mu_includes = [],
      mu_dependents = [], g0_sources = [], g0_roots = [], g0_by_path = [], g0_physical = [],
      g0_includes = [], g0_dependents = [], mu_changes = [], mu_positions = [], mu_sparse = [],
      mu_next_id = sm_next_id m, mu_base_generation = sm_generation m, mu_failure = Ok,
      mu_committed = False, mu_prepared = False, mu_graph_validated = True,
      mu_g0_snapshot = False, mu_dense = (sm_sources m = []), mu_roots_changed = False\<rparr>"

definition sm_find :: "source_manager \<Rightarrow> nat \<Rightarrow> source_record option" where
  "sm_find m i =
     (case slot (sm_sources m) i of
        None \<Rightarrow> None
      | Some candidate \<Rightarrow> if record_id candidate = i then Some candidate else None)"

definition sm_get_physical_state ::
    "source_manager \<Rightarrow> nat \<Rightarrow> status_code \<times> source_physical_state option" where
  "sm_get_physical_state m i =
     (case sm_stable m of
        Some view \<Rightarrow> sv_physical view i
      | None \<Rightarrow>
          (case slot (sm_physical m) i of
             Some (Some physical) \<Rightarrow> (Ok, Some (ps_state physical))
           | _ \<Rightarrow> (Invalid_state, None)))"

definition no_view :: source_view where
  "no_view = \<lparr>view_source = 0, view_content = ''''\<rparr>"

definition sm_get_view :: "source_manager \<Rightarrow> nat \<Rightarrow> status_code \<times> source_view" where
  "sm_get_view m i =
     (case sm_stable m of
        Some _ \<Rightarrow> (Not_available, no_view)
      | None \<Rightarrow>
          (case slot (sm_physical m) i of
             Some (Some physical) \<Rightarrow>
               if presence (ps_state physical) = Missing then (Configuration_failed, no_view)
               else (Ok, \<lparr>view_source = i, view_content = ps_content physical\<rparr>)
           | _ \<Rightarrow> (Invalid_state, no_view)))"

definition sm_includes_of :: "source_manager \<Rightarrow> nat \<Rightarrow> nat list" where
  "sm_includes_of m i = (case slot (sm_includes m) i of None \<Rightarrow> [] | Some edges \<Rightarrow> edges)"

definition sm_dependents_of :: "source_manager \<Rightarrow> nat \<Rightarrow> nat list" where
  "sm_dependents_of m i = (case slot (sm_dependents m) i of None \<Rightarrow> [] | Some edges \<Rightarrow> edges)"

text \<open>
  The breadth-first closure of the dependents. The output vector is also the queue: the
  index walks over it while it grows. \<open>visit_all\<close> is the inner loop, which appends the
  identifiers that are inserted into the visited set for the first time.
\<close>

fun visit_all :: "nat list \<Rightarrow> nat list \<times> nat list \<Rightarrow> nat list \<times> nat list" where
  "visit_all [] s = s"
| "visit_all (d # ds) (visited, output) =
     visit_all ds
       (if d \<in> set visited then (visited, output) else (d # visited, output @ [d]))"

definition closure_loop ::
    "(nat \<Rightarrow> nat list) \<Rightarrow> nat \<times> nat list \<times> nat list \<Rightarrow> (nat \<times> nat list \<times> nat list) option" where
  "closure_loop next_of =
     while_option (\<lambda>(index, visited, output). index < length output)
       (\<lambda>(index, visited, output).
          (Suc index, visit_all (next_of (output ! index)) (visited, output)))"

definition sm_collect_dependents ::
    "bool \<Rightarrow> source_manager \<Rightarrow> nat \<Rightarrow> (status_code \<times> nat list) option" where
  "sm_collect_dependents mem m source =
     (case sm_stable m of
        Some view \<Rightarrow> Some (sv_dependencies view source True)
      | None \<Rightarrow>
          (case sm_find m source of
             None \<Rightarrow> Some (Invalid_state, [])
           | Some _ \<Rightarrow>
               if \<not> mem then Some (Initialization_failed, [])
               else map_option (\<lambda>(index, visited, output). (Ok, output))
                 (closure_loop (sm_dependents_of m)
                   (0, visit_all (sm_dependents_of m source) ([source], [])))))"

definition sm_source_count :: "source_manager \<Rightarrow> nat" where
  "sm_source_count m =
     (case sm_stable m of Some view \<Rightarrow> sv_source_count view | None \<Rightarrow> length (sm_sources m))"

definition sm_root_count :: "source_manager \<Rightarrow> nat" where
  "sm_root_count m =
     (case sm_stable m of Some view \<Rightarrow> sv_root_count view | None \<Rightarrow> length (sm_roots m))"

definition sm_get_path :: "bool \<Rightarrow> source_manager \<Rightarrow> nat \<Rightarrow> status_code \<times> path" where
  "sm_get_path mem m i =
     (case sm_stable m of
        Some view \<Rightarrow> sv_path view i
      | None \<Rightarrow>
          (case sm_find m i of
             None \<Rightarrow> (Invalid_state, [])
           | Some r \<Rightarrow> if mem then (Ok, record_path r) else (Initialization_failed, [])))"

definition sm_find_by_path :: "source_manager \<Rightarrow> path \<Rightarrow> status_code \<times> nat" where
  "sm_find_by_path m p =
     (case sm_stable m of
        Some view \<Rightarrow> sv_find view p
      | None \<Rightarrow>
          (case map_of (sm_by_path m) p of
             None \<Rightarrow> (Not_available, 0)
           | Some i \<Rightarrow> (Ok, i)))"

definition sm_get_root :: "source_manager \<Rightarrow> nat \<Rightarrow> status_code \<times> source_root option" where
  "sm_get_root m index =
     (case sm_stable m of
        Some view \<Rightarrow> sv_root view index
      | None \<Rightarrow>
          if index \<ge> length (sm_roots m) then (Invalid_state, None)
          else (Ok, Some (sm_roots m ! index)))"

definition sm_get_dependencies ::
    "bool \<Rightarrow> source_manager \<Rightarrow> nat \<Rightarrow> bool \<Rightarrow> status_code \<times> nat list" where
  "sm_get_dependencies mem m source reverse =
     (case sm_stable m of
        Some view \<Rightarrow> sv_dependencies view source reverse
      | None \<Rightarrow>
          (case sm_find m source of
             None \<Rightarrow> (Invalid_state, [])
           | Some _ \<Rightarrow>
               if \<not> mem then (Initialization_failed, [])
               else (Ok, if reverse then sm_dependents_of m source else sm_includes_of m source)))"

text \<open>\<open>opened\<close> is the result of opening the checkpoint file.\<close>

definition sm_load_checkpoint ::
    "bool \<Rightarrow> status_code \<times> stable_source_manager_view \<Rightarrow> source_manager
     \<Rightarrow> status_code \<times> source_manager" where
  "sm_load_checkpoint mem opened m =
     (if (case sm_stable m of None \<Rightarrow> False | Some _ \<Rightarrow> True) \<or> sm_sources m \<noteq> []
         \<or> sm_roots m \<noteq> [] \<or> sm_by_path m \<noteq> [] \<or> sm_physical m \<noteq> []
         \<or> sm_includes m \<noteq> [] \<or> sm_dependents m \<noteq> [] then (Invalid_state, m)
      else if \<not> mem then (Initialization_failed, m)
      else case opened of
             (Ok, view) \<Rightarrow> (Ok, m\<lparr>sm_stable := Some view\<rparr>)
           | (e, _) \<Rightarrow> (e, m))"

section \<open>Reading the candidate\<close>

definition mu_closed :: "source_manager_update \<Rightarrow> bool" where
  "mu_closed u \<longleftrightarrow> \<not> mu_owner u \<or> mu_committed u \<or> mu_prepared u"

definition mu_get_physical_state ::
    "source_manager \<Rightarrow> source_manager_update \<Rightarrow> nat
     \<Rightarrow> status_code \<times> source_physical_state option" where
  "mu_get_physical_state m u i =
     (if i = 0 \<or> mu_closed u then (Invalid_state, None)
      else case map_of (mu_physical u) i of
             Some delta \<Rightarrow> (Ok, Some (pd_state delta))
           | None \<Rightarrow> sm_get_physical_state m i)"

definition mu_get_view ::
    "source_manager \<Rightarrow> source_manager_update \<Rightarrow> nat \<Rightarrow> status_code \<times> source_view" where
  "mu_get_view m u i =
     (if i = 0 \<or> mu_closed u then (Invalid_state, no_view)
      else case map_of (mu_physical u) i of
             Some delta \<Rightarrow>
               if presence (pd_state delta) = Missing then (Configuration_failed, no_view)
               else (case pd_replacement delta of
                       Some storage \<Rightarrow>
                         (Ok, \<lparr>view_source = i, view_content = ps_content storage\<rparr>)
                     | None \<Rightarrow> sm_get_view m i)
           | None \<Rightarrow> sm_get_view m i)"

definition mu_source_count :: "source_manager \<Rightarrow> source_manager_update \<Rightarrow> nat" where
  "mu_source_count m u =
     (if mu_closed u then 0 else length (sm_sources m) + length (mu_added u))"

definition mu_contains_for_validation ::
    "source_manager \<Rightarrow> source_manager_update \<Rightarrow> nat \<Rightarrow> bool" where
  "mu_contains_for_validation m u i =
     (if i = 0 \<or> \<not> mu_owner u \<or> mu_committed u \<or> sm_generation m \<noteq> mu_base_generation u
      then False
      else case sm_find m i of
        Some _ \<Rightarrow> True
      | None \<Rightarrow>
          if i \<le> length (sm_sources m) then False
          else
            let offset = i - length (sm_sources m) - 1;
                candidates = (if mu_g0_snapshot u then g0_sources u else mu_added u)
            in offset < length candidates \<and> record_id (candidates ! offset) = i)"

definition mu_collect_dependents ::
    "bool \<Rightarrow> source_manager \<Rightarrow> source_manager_update \<Rightarrow> nat \<Rightarrow> (status_code \<times> nat list) option" where
  "mu_collect_dependents mem m u source =
     (if \<not> mu_contains_for_validation m u source then Some (Invalid_state, [])
      else case sm_find m source of
        None \<Rightarrow> Some (Ok, [])
      | Some _ \<Rightarrow> sm_collect_dependents mem m source)"

definition mu_candidate_includes ::
    "source_manager \<Rightarrow> source_manager_update \<Rightarrow> nat \<Rightarrow> nat list" where
  "mu_candidate_includes m u i =
     (case map_of (mu_includes u) i of
        Some edges \<Rightarrow> edges
      | None \<Rightarrow> if mu_owner u then sm_includes_of m i else [])"

section \<open>Acquisition\<close>

definition new_job :: source_acquire_job where
  "new_job = \<lparr>job_source = 0, job_path = [], job_committed = initial_physical_state,
     job_baseline = initial_physical_state, job_has_committed = False, job_has_baseline = False\<rparr>"

definition mu_record ::
    "source_manager \<Rightarrow> source_manager_update \<Rightarrow> nat \<Rightarrow> source_record option" where
  "mu_record m u i =
     (case sm_find m i of
        Some r \<Rightarrow> Some r
      | None \<Rightarrow>
          if i > length (sm_sources m) then
            let offset = i - length (sm_sources m) - 1 in
            if offset < length (mu_added u) \<and> record_id (mu_added u ! offset) = i
            then Some (mu_added u ! offset) else None
          else None)"

definition mu_prepare_acquire ::
    "bool \<Rightarrow> source_manager \<Rightarrow> source_manager_update \<Rightarrow> nat
     \<Rightarrow> status_code \<times> source_acquire_job" where
  "mu_prepare_acquire mem m u i =
     (if mu_failure u \<noteq> Ok then (mu_failure u, new_job)
      else if i = 0 \<or> mu_closed u then (Invalid_state, new_job)
      else case mu_record m u i of
        None \<Rightarrow> (Invalid_state, new_job)
      | Some r \<Rightarrow>
          if \<not> mem then (Initialization_failed, new_job\<lparr>job_source := i\<rparr>)
          else
            let (committed_st, committed_out) = sm_get_physical_state m i;
                committed = (case committed_out of Some s \<Rightarrow> s | None \<Rightarrow> initial_physical_state);
                job = new_job\<lparr>job_source := i, job_path := record_path r,
                        job_has_committed := (committed_st = Ok), job_committed := committed\<rparr>
            in case map_of (mu_physical u) i of
                 Some delta \<Rightarrow>
                   (Ok, job\<lparr>job_baseline := pd_state delta, job_has_baseline := True\<rparr>)
               | None \<Rightarrow>
                   (Ok, job\<lparr>job_has_baseline := (committed_st = Ok), job_baseline := committed\<rparr>))"

definition new_result :: "nat \<Rightarrow> source_acquire_result" where
  "new_result i = \<lparr>res_source = i, res_kind = Acquire_unchanged,
     res_observation = initial_observation, res_hash = zero_hash, res_content = ''''\<rparr>"

definition execute_acquire ::
    "(path \<Rightarrow> source_observation option \<Rightarrow> file_snapshot_result \<times> source_observation \<times> string)
     \<Rightarrow> (string \<Rightarrow> source_content_hash) \<Rightarrow> source_acquire_job
     \<Rightarrow> status_code \<times> source_acquire_result" where
  "execute_acquire acquire hash job =
     (let result = new_result (job_source job) in
      if job_source job = 0 \<or> job_path job = [] then (Invalid_state, result)
      else
        let baseline = (if job_has_baseline job \<and> presence (job_baseline job) = Present
                        then Some (observation (job_baseline job)) else None)
        in case acquire (job_path job) baseline of (outcome, obs, bytes) \<Rightarrow>
          (case outcome of
             Snapshot_allocation_failed \<Rightarrow> (Initialization_failed, result)
           | Snapshot_changed_during_read \<Rightarrow> (Configuration_failed, result)
           | Snapshot_failed \<Rightarrow> (Configuration_failed, result)
           | Snapshot_unchanged \<Rightarrow> (Ok, result\<lparr>res_kind := Acquire_unchanged\<rparr>)
           | Snapshot_missing \<Rightarrow> (Ok, result\<lparr>res_kind := Acquire_missing\<rparr>)
           | Snapshot_acquired \<Rightarrow>
               (Ok, result\<lparr>res_kind := Acquire_present, res_observation := obs,
                           res_hash := hash bytes, res_content := bytes\<rparr>)))"

text \<open>Storing a delta and reclassifying its Source.\<close>

definition put_delta ::
    "nat \<Rightarrow> source_physical_delta \<Rightarrow> source_manager_update \<Rightarrow> source_manager_update" where
  "put_delta i delta u = u\<lparr>mu_physical := um_set i delta (mu_physical u)\<rparr>"

definition put_net_change ::
    "nat \<Rightarrow> source_change_kind option \<Rightarrow> source_manager_update \<Rightarrow> source_manager_update" where
  "put_net_change i kind u =
     (case set_net_change (mu_dense u) i kind (mu_changes u, mu_positions u, mu_sparse u) of
        (changes, positions, sparse) \<Rightarrow>
          u\<lparr>mu_changes := changes, mu_positions := positions, mu_sparse := sparse\<rparr>)"

definition missing_delta :: source_physical_delta where
  "missing_delta =
     \<lparr>pd_state = initial_physical_state,
      pd_replacement = Some \<lparr>ps_state = initial_physical_state, ps_content = ''''\<rparr>,
      pd_observation_only = False\<rparr>"

definition observation_delta ::
    "source_physical_state \<Rightarrow> source_observation \<Rightarrow> source_physical_delta" where
  "observation_delta state obs =
     \<lparr>pd_state = state\<lparr>observation := obs\<rparr>, pd_replacement = None, pd_observation_only = True\<rparr>"

definition content_delta :: "source_acquire_result \<Rightarrow> source_physical_delta" where
  "content_delta result =
     (let state = \<lparr>presence = Present, observation = res_observation result,
                   content_hash = res_hash result\<rparr>
      in \<lparr>pd_state = state,
          pd_replacement = Some \<lparr>ps_state = state, ps_content = res_content result\<rparr>,
          pd_observation_only = False\<rparr>)"

definition refresh_delta ::
    "source_physical_delta \<Rightarrow> source_physical_storage \<Rightarrow> source_observation
     \<Rightarrow> source_physical_delta" where
  "refresh_delta delta storage obs =
     delta\<lparr>pd_state := (pd_state delta)\<lparr>observation := obs\<rparr>,
           pd_replacement :=
             Some (storage\<lparr>ps_state := (ps_state storage)\<lparr>observation := obs\<rparr>\<rparr>)\<rparr>"

definition reclassify :: "source_acquire_job \<Rightarrow> source_physical_delta
    \<Rightarrow> source_manager_update \<Rightarrow> source_manager_update" where
  "reclassify job delta u =
     put_net_change (job_source job)
       (classify_change (job_has_committed job) (job_committed job) (pd_state delta))
       (put_delta (job_source job) delta u)"

text \<open>The delta a present file leads to, and whether the Source is reclassified.\<close>

definition present_delta ::
    "source_manager_update \<Rightarrow> source_acquire_job \<Rightarrow> source_acquire_result
     \<Rightarrow> source_physical_delta" where
  "present_delta u job result =
     (case map_of (mu_physical u) (job_source job) of
        Some existing \<Rightarrow>
          (case pd_replacement existing of
             Some storage \<Rightarrow> refresh_delta existing storage (res_observation result)
           | None \<Rightarrow> observation_delta (job_baseline job) (res_observation result))
      | None \<Rightarrow> observation_delta (job_baseline job) (res_observation result))"

definition mu_apply_acquire ::
    "bool \<Rightarrow> source_manager_update \<Rightarrow> source_acquire_job \<Rightarrow> source_acquire_result
     \<Rightarrow> status_code \<times> source_manager_update" where
  "mu_apply_acquire mem u job result =
     (if mu_failure u \<noteq> Ok then (mu_failure u, u)
      else if job_source job = 0 \<or> res_source result \<noteq> job_source job \<or> mu_closed u
        then (Invalid_state, u)
      else if res_kind result = Acquire_unchanged then (Ok, u)
      else if res_kind result = Acquire_missing \<and> \<not> job_has_committed job then
        (Configuration_failed, u\<lparr>mu_failure := Configuration_failed\<rparr>)
      else if res_kind result = Acquire_missing \<and> job_has_baseline job
           \<and> presence (job_baseline job) = Missing then (Ok, u)
      else if \<not> mem then (Initialization_failed, u\<lparr>mu_failure := Initialization_failed\<rparr>)
      else if res_kind result = Acquire_missing then (Ok, reclassify job missing_delta u)
      else if job_has_committed job \<and> presence (job_committed job) = Present
           \<and> content_hash (job_committed job) = res_hash result then
        (Ok, put_net_change (job_source job) None
               (put_delta (job_source job)
                  (observation_delta (job_committed job) (res_observation result)) u))
      else if job_has_baseline job \<and> presence (job_baseline job) = Present
           \<and> content_hash (job_baseline job) = res_hash result then
        (Ok, reclassify job (present_delta u job result) u)
      else (Ok, reclassify job (content_delta result) u))"

definition mu_acquire ::
    "(path \<Rightarrow> source_observation option \<Rightarrow> file_snapshot_result \<times> source_observation \<times> string)
     \<Rightarrow> (string \<Rightarrow> source_content_hash) \<Rightarrow> bool \<Rightarrow> source_manager \<Rightarrow> source_manager_update \<Rightarrow> nat
     \<Rightarrow> status_code \<times> source_manager_update" where
  "mu_acquire acquire hash mem m u i =
     (case mu_prepare_acquire mem m u i of
        (Ok, job) \<Rightarrow>
          (case execute_acquire acquire hash job of
             (Ok, result) \<Rightarrow> mu_apply_acquire mem u job result
           | (e, _) \<Rightarrow>
               (let u' = (if mu_failure u = Ok then u\<lparr>mu_failure := e\<rparr> else u)
                in (mu_failure u', u')))
      | (e, _) \<Rightarrow> (e, u))"

section \<open>Resolving Sources\<close>

definition mu_reserve_initial_sources ::
    "bool \<Rightarrow> source_manager_update \<Rightarrow> nat \<Rightarrow> status_code \<times> source_manager_update" where
  "mu_reserve_initial_sources mem u amount =
     (if mu_failure u \<noteq> Ok then (mu_failure u, u)
      else if mu_closed u \<or> \<not> mu_dense u then (Invalid_state, u)
      else if \<not> mem then (Initialization_failed, u\<lparr>mu_failure := Initialization_failed\<rparr>)
      else
        let required = mu_next_id u + amount in
        (Ok, if length (mu_positions u) < required
             then u\<lparr>mu_positions := resize required 0 (mu_positions u)\<rparr> else u))"

definition push_root ::
    "nat \<Rightarrow> project_item_role \<Rightarrow> source_manager_update \<Rightarrow> source_manager_update" where
  "push_root i role u =
     (if role = Role_source \<or> role = Role_type
      then u\<lparr>mu_roots := mu_roots u @ [\<lparr>root_source = i, root_role = role\<rparr>]\<rparr> else u)"

definition mu_resolve ::
    "bool \<Rightarrow> source_manager \<Rightarrow> source_manager_update \<Rightarrow> path \<Rightarrow> project_item_role
     \<Rightarrow> status_code \<times> nat \<times> source_manager_update" where
  "mu_resolve mem m u p role =
     (if mu_failure u \<noteq> Ok then (mu_failure u, 0, u)
      else if mu_closed u then (Invalid_state, 0, u)
      else if p = [] \<or> role = Role_project then
        (Configuration_failed, 0, u\<lparr>mu_failure := Configuration_failed\<rparr>)
      else if \<not> mem then (Initialization_failed, 0, u\<lparr>mu_failure := Initialization_failed\<rparr>)
      else case map_of (mu_by_path u) p of
        Some i \<Rightarrow> (Ok, i, push_root i role u)
      | None \<Rightarrow>
          (case map_of (sm_by_path m) p of
             Some i \<Rightarrow> (Ok, i, push_root i role u)
           | None \<Rightarrow>
               if mu_next_id u = 0 then
                 (Initialization_failed, 0, u\<lparr>mu_failure := Initialization_failed\<rparr>)
               else
                 let i = mu_next_id u in
                 (Ok, i, push_root i role
                    (u\<lparr>mu_by_path := um_emplace p i (mu_by_path u),
                       mu_added := mu_added u @ [\<lparr>record_id = i, record_path = p\<rparr>],
                       mu_next_id := cast_u32 (i + 1)\<rparr>))))"

definition mu_add ::
    "bool \<Rightarrow> source_manager \<Rightarrow> source_manager_update \<Rightarrow> path \<Rightarrow> project_item_role
     \<Rightarrow> status_code \<times> source_manager_update" where
  "mu_add mem m u p role =
     (case mu_resolve mem m u p role of
        (Ok, i, u') \<Rightarrow> (Ok, u'\<lparr>mu_roots_changed := True\<rparr>)
      | (e, i, u') \<Rightarrow> (e, u'))"

definition mu_resolve_include ::
    "(path \<Rightarrow> bool) \<Rightarrow> bool \<Rightarrow> source_manager \<Rightarrow> source_manager_update \<Rightarrow> path
     \<Rightarrow> status_code \<times> nat \<times> source_manager_update" where
  "mu_resolve_include is_regular mem m u p =
     (if \<not> is_regular p then
        (let u' = (if mu_failure u = Ok then u\<lparr>mu_failure := Configuration_failed\<rparr> else u)
         in (mu_failure u', 0, u'))
      else case mu_resolve mem m u p Role_source of
        (Ok, i, u') \<Rightarrow> (Ok, i, u'\<lparr>mu_roots := take (length (mu_roots u)) (mu_roots u')\<rparr>)
      | (e, i, u') \<Rightarrow> (e, i, u'))"

definition mu_resolve_include_from ::
    "(path \<Rightarrow> bool) \<Rightarrow> (path \<Rightarrow> string \<Rightarrow> path) \<Rightarrow> bool \<Rightarrow> source_manager
     \<Rightarrow> source_manager_update \<Rightarrow> nat \<Rightarrow> string \<Rightarrow> status_code \<times> nat \<times> source_manager_update" where
  "mu_resolve_include_from is_regular lexical_join mem m u including relative =
     (if \<not> mu_contains_for_validation m u including \<or> relative = [] then (Invalid_state, 0, u)
      else
        let r = (case sm_find m including of
                   Some r \<Rightarrow> Some r
                 | None \<Rightarrow>
                     if including > length (sm_sources m)
                        \<and> including - length (sm_sources m) - 1 < length (mu_added u)
                     then Some (mu_added u ! (including - length (sm_sources m) - 1)) else None)
        in case r of
             None \<Rightarrow> (Invalid_state, 0, u)
           | Some r' \<Rightarrow>
               if \<not> mem then
                 (let u' = (if mu_failure u = Ok then u\<lparr>mu_failure := Initialization_failed\<rparr> else u)
                  in (mu_failure u', 0, u'))
               else mu_resolve_include is_regular mem m u (lexical_join (record_path r') relative))"

fun unique_includes ::
    "source_manager \<Rightarrow> source_manager_update \<Rightarrow> nat list \<Rightarrow> nat list \<Rightarrow> nat list option" where
  "unique_includes m u uniq [] = Some uniq"
| "unique_includes m u uniq (i # is) =
     (if \<not> mu_contains_for_validation m u i then None
      else unique_includes m u (if i \<in> set uniq then uniq else uniq @ [i]) is)"

definition mu_set_includes ::
    "bool \<Rightarrow> source_manager \<Rightarrow> source_manager_update \<Rightarrow> nat \<Rightarrow> nat list
     \<Rightarrow> status_code \<times> source_manager_update" where
  "mu_set_includes mem m u source included =
     (if mu_failure u \<noteq> Ok then (mu_failure u, u)
      else if mu_committed u \<or> mu_prepared u \<or> \<not> mu_contains_for_validation m u source
        then (Invalid_state, u)
      else if \<not> mem then (Initialization_failed, u\<lparr>mu_failure := Initialization_failed\<rparr>)
      else case unique_includes m u [] included of
        None \<Rightarrow> (Configuration_failed, u\<lparr>mu_failure := Configuration_failed\<rparr>)
      | Some uniq \<Rightarrow>
          (Ok, u\<lparr>mu_includes := um_set source uniq (mu_includes u), mu_graph_validated := False\<rparr>))"

section \<open>Validating the include graph\<close>

text \<open>
  The first generation: a depth-first search with the colours 0 (new), 1 (on the path)
  and 2 (done). The C++ lambda recurses through itself; here the recursion depth is
  bounded by \<open>fuel\<close>, and \<open>None\<close> would mean that the bound was hit. The depth is at most
  one more than the number of Sources, because each level colours a new Source.
\<close>

fun visit_list ::
    "(nat \<Rightarrow> nat list \<Rightarrow> (bool \<times> nat list) option) \<Rightarrow> nat list \<Rightarrow> nat list
     \<Rightarrow> (bool \<times> nat list) option" where
  "visit_list f [] colours = Some (True, colours)"
| "visit_list f (d # ds) colours =
     (case f d colours of
        None \<Rightarrow> None
      | Some (False, colours') \<Rightarrow> Some (False, colours')
      | Some (True, colours') \<Rightarrow> visit_list f ds colours')"

fun visit :: "nat \<Rightarrow> (nat \<Rightarrow> nat list) \<Rightarrow> nat \<Rightarrow> nat list \<Rightarrow> (bool \<times> nat list) option" where
  "visit 0 inc source colours = None"
| "visit (Suc fuel) inc source colours =
     (if colours ! source = 1 then Some (False, colours)
      else if colours ! source = 2 then Some (True, colours)
      else case visit_list (visit fuel inc) (inc source) (colours[source := 1]) of
        None \<Rightarrow> None
      | Some (False, colours') \<Rightarrow> Some (False, colours')
      | Some (True, colours') \<Rightarrow> Some (True, colours'[source := 2]))"

text \<open>The outer loop returns the Source at which a cycle was met.\<close>

fun visit_sources ::
    "nat \<Rightarrow> (nat \<Rightarrow> nat list) \<Rightarrow> nat list \<Rightarrow> nat list \<Rightarrow> nat option option" where
  "visit_sources fuel inc [] colours = Some None"
| "visit_sources fuel inc (i # is) colours =
     (case visit fuel inc i colours of
        None \<Rightarrow> None
      | Some (False, _) \<Rightarrow> Some (Some i)
      | Some (True, colours') \<Rightarrow> visit_sources fuel inc is colours')"

text \<open>
  Later generations: a stack search from each replaced child back to its parent. The
  result of the loop is the stack, the visited set and whether the parent was met.
\<close>

definition reaches_step ::
    "(nat \<Rightarrow> nat list) \<Rightarrow> nat \<Rightarrow> nat list \<times> nat list \<times> bool \<Rightarrow> nat list \<times> nat list \<times> bool" where
  "reaches_step inc parent s =
     (case s of (stack, visited, found) \<Rightarrow>
        let current = last stack; rest = butlast stack in
        if current = parent then (rest, visited, True)
        else if current \<in> set visited then (rest, visited, found)
        else (rest @ inc current, current # visited, found))"

definition reaches ::
    "(nat \<Rightarrow> nat list) \<Rightarrow> nat \<Rightarrow> nat \<Rightarrow> bool option" where
  "reaches inc parent child =
     map_option (\<lambda>(stack, visited, found). found)
       (while_option (\<lambda>(stack, visited, found). stack \<noteq> [] \<and> \<not> found) (reaches_step inc parent)
          ([child], [], False))"

fun find_replaced_cycle ::
    "(nat \<Rightarrow> nat list) \<Rightarrow> (nat \<times> nat) list \<Rightarrow> nat option option" where
  "find_replaced_cycle inc [] = Some None"
| "find_replaced_cycle inc ((parent, child) # es) =
     (case reaches inc parent child of
        None \<Rightarrow> None
      | Some True \<Rightarrow> Some (Some parent)
      | Some False \<Rightarrow> find_replaced_cycle inc es)"

definition replaced_edges :: "(nat, nat list) umap \<Rightarrow> (nat \<times> nat) list" where
  "replaced_edges delta = concat (map (\<lambda>(parent, replacement). map (Pair parent) replacement) delta)"

text \<open>
  \<open>mem\<close> covers the search, \<open>emitted\<close> the diagnostic. The third component lists the
  Sources of the emitted cycle diagnostics; \<open>None\<close> stands for a search that does not end.
\<close>

definition mu_validate_source_graph ::
    "bool \<Rightarrow> bool \<Rightarrow> source_manager \<Rightarrow> source_manager_update
     \<Rightarrow> (status_code \<times> source_manager_update \<times> nat list) option" where
  "mu_validate_source_graph mem emitted m u =
     (if mu_failure u \<noteq> Ok then Some (mu_failure u, u, [])
      else if mu_closed u then Some (Invalid_state, u, [])
      else if \<not> mem then
        Some (Initialization_failed, u\<lparr>mu_failure := Initialization_failed\<rparr>, [])
      else
        let amount = length (sm_sources m) + length (mu_added u);
            inc = mu_candidate_includes m u
        in case (if sm_sources m = []
                 then visit_sources (Suc (Suc amount)) inc [1..<Suc amount] (replicate (amount + 1) 0)
                 else find_replaced_cycle inc (replaced_edges (mu_includes u)))
           of None \<Rightarrow> None
            | Some None \<Rightarrow> Some (Ok, u\<lparr>mu_graph_validated := True\<rparr>, [])
            | Some (Some source) \<Rightarrow>
                if \<not> emitted then
                  Some (Initialization_failed, u\<lparr>mu_failure := Initialization_failed\<rparr>, [])
                else
                  Some (Configuration_failed, u\<lparr>mu_failure := Configuration_failed\<rparr>, [source]))"

section \<open>Publication\<close>

fun place_physical ::
    "nat \<Rightarrow> (nat \<times> source_physical_delta) list \<Rightarrow> source_physical_storage option list
     \<Rightarrow> source_physical_storage option list option" where
  "place_physical amount [] physical = Some physical"
| "place_physical amount ((i, delta) # es) physical =
     (if i = 0 \<or> i > amount \<or> pd_observation_only delta then None
      else case pd_replacement delta of
        None \<Rightarrow> None
      | Some storage \<Rightarrow>
          if physical ! (i - 1) \<noteq> None then None
          else place_physical amount es (physical[i - 1 := Some storage]))"

fun place_includes ::
    "nat \<Rightarrow> (nat \<times> nat list) list \<Rightarrow> nat list list \<Rightarrow> nat list list option" where
  "place_includes amount [] edges = Some edges"
| "place_includes amount ((i, included) # es) edges =
     (if i = 0 \<or> i > amount then None else place_includes amount es (edges[i - 1 := included]))"

fun place_dependents_of ::
    "nat \<Rightarrow> nat \<Rightarrow> nat list \<Rightarrow> nat list list \<Rightarrow> nat list list option" where
  "place_dependents_of amount parent [] edges = Some edges"
| "place_dependents_of amount parent (child # children) edges =
     (if child = 0 \<or> child > amount then None
      else place_dependents_of amount parent children
             (edges[child - 1 := edges ! (child - 1) @ [parent]]))"

fun place_dependents ::
    "nat \<Rightarrow> nat list list \<Rightarrow> nat list \<Rightarrow> nat list list \<Rightarrow> nat list list option" where
  "place_dependents amount includes [] edges = Some edges"
| "place_dependents amount includes (parent # parents) edges =
     (case place_dependents_of amount parent (includes ! (parent - 1)) edges of
        None \<Rightarrow> None
      | Some edges' \<Rightarrow> place_dependents amount includes parents edges')"

definition dense_universe :: "source_record list \<Rightarrow> source_physical_storage option list \<Rightarrow> bool" where
  "dense_universe sources physical \<longleftrightarrow>
     list_all (\<lambda>index. record_id (sources ! index) = index + 1 \<and> physical ! index \<noteq> None)
       [0..<length sources]"

definition mu_prepare_g0 ::
    "source_manager_update \<Rightarrow> status_code \<times> source_manager_update" where
  "mu_prepare_g0 u =
     (let amount = length (mu_added u) in
      if mu_next_id u \<noteq> cast_u32 (amount + 1) then
        (Invalid_state, u\<lparr>mu_failure := Invalid_state\<rparr>)
      else
        let u1 = u\<lparr>g0_sources := mu_added u, mu_added := [], g0_roots := mu_roots u,
                   mu_roots := [], g0_by_path := mu_by_path u, mu_by_path := []\<rparr>
        in case place_physical amount (mu_physical u) (replicate amount None) of
             None \<Rightarrow> (Invalid_state, u1\<lparr>mu_failure := Invalid_state\<rparr>)
           | Some physical \<Rightarrow>
               if \<not> dense_universe (g0_sources u1) physical then
                 (Invalid_state, u1\<lparr>mu_failure := Invalid_state\<rparr>)
               else case place_includes amount (mu_includes u) (replicate amount []) of
                 None \<Rightarrow> (Invalid_state, u1\<lparr>mu_failure := Invalid_state\<rparr>)
               | Some includes \<Rightarrow>
                   (case place_dependents amount includes [1..<Suc amount] (replicate amount []) of
                      None \<Rightarrow> (Configuration_failed, u1\<lparr>mu_failure := Configuration_failed\<rparr>)
                    | Some dependents \<Rightarrow>
                        (Ok, u1\<lparr>g0_physical := physical, g0_includes := includes,
                                g0_dependents := dependents, mu_g0_snapshot := True,
                                mu_prepared := True\<rparr>)))"

text \<open>
  The dependent lists that the replaced include lists change. \<open>dependents_entry\<close> is the
  \<^verbatim>\<open>try_emplace\<close> with the committed list.
\<close>

definition dependents_entry ::
    "source_manager \<Rightarrow> nat \<Rightarrow> (nat, nat list) umap \<Rightarrow> nat list" where
  "dependents_entry m child prepared =
     (case map_of prepared child of Some values \<Rightarrow> values | None \<Rightarrow> sm_dependents_of m child)"

fun drop_dependents ::
    "source_manager \<Rightarrow> nat \<Rightarrow> nat list \<Rightarrow> nat list \<Rightarrow> (nat, nat list) umap
     \<Rightarrow> (nat, nat list) umap" where
  "drop_dependents m parent replacement [] prepared = prepared"
| "drop_dependents m parent replacement (child # old) prepared =
     drop_dependents m parent replacement old
       (if child \<in> set replacement then prepared
        else um_set child (filter (\<lambda>d. d \<noteq> parent) (dependents_entry m child prepared)) prepared)"

fun add_dependents ::
    "source_manager \<Rightarrow> nat \<Rightarrow> nat list \<Rightarrow> nat list \<Rightarrow> (nat, nat list) umap
     \<Rightarrow> (nat, nat list) umap" where
  "add_dependents m parent old [] prepared = prepared"
| "add_dependents m parent old (child # replacement) prepared =
     add_dependents m parent old replacement
       (if child \<in> set old then prepared
        else
          let values = dependents_entry m child prepared in
          um_set child (if parent \<in> set values then values else values @ [parent]) prepared)"

fun prepare_dependents ::
    "source_manager \<Rightarrow> (nat \<times> nat list) list \<Rightarrow> (nat, nat list) umap \<Rightarrow> (nat, nat list) umap" where
  "prepare_dependents m [] prepared = prepared"
| "prepare_dependents m ((parent, replacement) # delta) prepared =
     prepare_dependents m delta
       (add_dependents m parent (sm_includes_of m parent) replacement
          (drop_dependents m parent replacement (sm_includes_of m parent) prepared))"

definition mu_prepare_publish ::
    "bool \<Rightarrow> source_manager \<Rightarrow> source_manager_update \<Rightarrow> status_code \<times> source_manager_update" where
  "mu_prepare_publish mem m u =
     (if mu_failure u \<noteq> Ok then (mu_failure u, u)
      else if mu_closed u then (Invalid_state, u)
      else if mu_base_generation u \<noteq> sm_generation m then
        (Invalid_state, u\<lparr>mu_failure := Invalid_state\<rparr>)
      else if \<not> mu_graph_validated u then
        (Configuration_failed, u\<lparr>mu_failure := Configuration_failed\<rparr>)
      else if \<not> mem then (Initialization_failed, u\<lparr>mu_failure := Initialization_failed\<rparr>)
      else if sm_sources m = [] then
        (if sm_roots m \<noteq> [] \<or> sm_by_path m \<noteq> [] \<or> sm_physical m \<noteq> [] \<or> sm_includes m \<noteq> []
            \<or> sm_dependents m \<noteq> [] then (Invalid_state, u\<lparr>mu_failure := Invalid_state\<rparr>)
         else mu_prepare_g0 u)
      else
        (Ok, u\<lparr>mu_dependents := prepare_dependents m (mu_includes u) [], mu_prepared := True\<rparr>))"

definition publish_g0 ::
    "source_manager \<Rightarrow> source_manager_update \<Rightarrow> source_manager \<times> source_manager_update" where
  "publish_g0 m u =
     (m\<lparr>sm_sources := g0_sources u, sm_roots := g0_roots u, sm_by_path := g0_by_path u,
        sm_physical := g0_physical u, sm_includes := g0_includes u,
        sm_dependents := g0_dependents u, sm_next_id := mu_next_id u,
        sm_generation := sm_generation m + 1\<rparr>,
      u\<lparr>g0_sources := sm_sources m, g0_roots := sm_roots m, g0_by_path := sm_by_path m,
        g0_physical := sm_physical m, g0_includes := sm_includes m,
        g0_dependents := sm_dependents m, mu_committed := True\<rparr>)"

fun swap_edges :: "(nat \<times> nat list) list \<Rightarrow> nat list list \<Rightarrow> nat list list" where
  "swap_edges [] edges = edges"
| "swap_edges ((i, vs) # es) edges = swap_edges es (edges[i - 1 := vs])"

fun swap_physical ::
    "(nat \<times> source_physical_delta) list \<Rightarrow> source_physical_storage option list
     \<Rightarrow> source_physical_storage option list" where
  "swap_physical [] physical = physical"
| "swap_physical ((i, delta) # es) physical =
     swap_physical es
       (physical[i - 1 :=
          (if pd_observation_only delta then
             map_option (\<lambda>s. s\<lparr>ps_state :=
                 (ps_state s)\<lparr>observation := observation (pd_state delta)\<rparr>\<rparr>) (physical ! (i - 1))
           else pd_replacement delta)])"

definition publish_incremental ::
    "source_manager \<Rightarrow> source_manager_update \<Rightarrow> source_manager \<times> source_manager_update" where
  "publish_incremental m u =
     (let n = length (sm_sources m) + length (mu_added u) in
      (m\<lparr>sm_sources := sm_sources m @ mu_added u,
         sm_roots := (if mu_roots_changed u then mu_roots u else sm_roots m),
         sm_by_path := um_merge (sm_by_path m) (mu_by_path u),
         sm_physical := swap_physical (mu_physical u) (resize n None (sm_physical m)),
         sm_includes := swap_edges (mu_includes u) (resize n [] (sm_includes m)),
         sm_dependents := swap_edges (mu_dependents u) (resize n [] (sm_dependents m)),
         sm_next_id := mu_next_id u, sm_generation := sm_generation m + 1\<rparr>,
       u\<lparr>mu_roots := (if mu_roots_changed u then sm_roots m else mu_roots u),
         mu_committed := True\<rparr>))"

definition mu_publish_prepared ::
    "source_manager \<Rightarrow> source_manager_update \<Rightarrow> source_manager \<times> source_manager_update" where
  "mu_publish_prepared m u =
     (if mu_g0_snapshot u then publish_g0 m u else publish_incremental m u)"

definition mu_commit ::
    "bool \<Rightarrow> source_manager \<Rightarrow> source_manager_update
     \<Rightarrow> status_code \<times> source_manager \<times> source_manager_update" where
  "mu_commit mem m u =
     (case mu_prepare_publish mem m u of
        (Ok, u') \<Rightarrow> (case mu_publish_prepared m u' of (m', u'') \<Rightarrow> (Ok, m', u''))
      | (e, u') \<Rightarrow> (e, m, u'))"

definition mu_cancel :: "source_manager_update \<Rightarrow> source_manager_update" where
  "mu_cancel u =
     (if mu_committed u then u else u\<lparr>mu_prepared := True, mu_failure := Invalid_state\<rparr>)"

end
