(* ===== verification/SourceGraph.thy ===== *)
theory SourceGraph
  imports SourceManager
begin

text \<open>
  The graph algorithms of the Source Manager against their specification over the edge
  relation: the breadth-first closure of the dependents, the depth-first search that
  validates the first generation, and the reachability search that validates the
  replaced includes of a later one. All three are total: the loops end on every graph
  with finitely many Sources, and the recursion depth of the first search stays below
  the bound used by the model.
\<close>

section \<open>Loops\<close>

lemma while_total:
  assumes "P s" and "\<And>s. P s \<Longrightarrow> b s \<Longrightarrow> P (c s) \<and> f (c s) < (f s :: nat)"
  shows "\<exists>t. while_option b c s = Some t \<and> P t \<and> \<not> b t"
proof -
  obtain t where t: "while_option b c s = Some t"
    using measure_while_option_Some [of P b c f s] assms by blast
  moreover have "P t" using while_option_rule [of P b c s t] assms t by blast
  moreover have "\<not> b t" using t by (rule while_option_stop)
  ultimately show ?thesis by blast
qed

section \<open>The edge relation\<close>

definition edges :: "(nat \<Rightarrow> nat list) \<Rightarrow> (nat \<times> nat) set" where
  "edges inc = {(v, w). w \<in> set (inc v)}"

lemma edges_iff [simp]: "(v, w) \<in> edges inc \<longleftrightarrow> w \<in> set (inc v)"
  by (simp add: edges_def)

definition closed_graph :: "nat set \<Rightarrow> (nat \<Rightarrow> nat list) \<Rightarrow> bool" where
  "closed_graph V inc \<longleftrightarrow> finite V \<and> (\<forall>v\<in>V. set (inc v) \<subseteq> V)"

lemma reachable_closed:
  assumes "(v, w) \<in> (edges inc)\<^sup>*" "v \<in> S" "\<And>x. x \<in> S \<Longrightarrow> set (inc x) \<subseteq> S"
  shows "w \<in> S"
  using assms(1,2) by (induction rule: rtrancl_induct) (use assms(3) in auto)

section \<open>The closure of the dependents\<close>

lemma visit_all_spec:
  "visit_all ds (visited, queue) = (visited', queue') \<Longrightarrow>
   \<exists>new. queue' = queue @ new \<and> distinct new \<and> set new = set ds - set visited \<and>
     set visited' = set visited \<union> set ds \<and>
     (distinct visited \<longrightarrow> distinct visited' \<and> length visited' = length visited + length new)"
proof (induction ds "(visited, queue)" arbitrary: visited queue rule: visit_all.induct)
  case (2 d ds visited queue)
  show ?case
  proof (cases "d \<in> set visited")
    case True
    then have "visit_all ds (visited, queue) = (visited', queue')" using 2(2) by simp
    with 2(1) [of visited queue] True show ?thesis by auto
  next
    case False
    then have "visit_all ds (d # visited, queue @ [d]) = (visited', queue')" using 2(2) by simp
    with 2(1) [of "d # visited" "queue @ [d]"] False obtain new
      where "queue' = queue @ d # new" "distinct new" "set new = set ds - insert d (set visited)"
        "set visited' = insert d (set visited) \<union> set ds"
        "distinct visited \<longrightarrow> distinct visited' \<and> length visited' = Suc (length visited) + length new"
      by auto
    with False show ?thesis by (intro exI [of _ "d # new"]) auto
  qed
qed simp

definition closure_inv ::
    "nat set \<Rightarrow> (nat \<Rightarrow> nat list) \<Rightarrow> nat \<Rightarrow> nat \<times> nat list \<times> nat list \<Rightarrow> bool" where
  "closure_inv V nxt source s \<longleftrightarrow> (case s of (index, visited, queue) \<Rightarrow>
     index \<le> length queue \<and> distinct queue \<and> source \<notin> set queue \<and> distinct visited \<and>
     set visited = insert source (set queue) \<and> set visited \<subseteq> V \<and>
     set (nxt source) \<subseteq> set visited \<and>
     (\<forall>k<index. set (nxt (queue ! k)) \<subseteq> set visited) \<and>
     set queue \<subseteq> (edges nxt)\<^sup>+ `` {source})"

lemma closure_inv_step:
  assumes V: "closed_graph V nxt" and inv: "closure_inv V nxt source (index, visited, queue)"
    and more: "index < length queue"
    and run: "visit_all (nxt (queue ! index)) (visited, queue) = (visited', queue')"
  shows "closure_inv V nxt source (Suc index, visited', queue') \<and>
     card (V - set visited') + (length queue' - Suc index) <
     card (V - set visited) + (length queue - index)"
proof -
  let ?d = "queue ! index"
  obtain new where new: "queue' = queue @ new" "distinct new" "set new = set (nxt ?d) - set visited"
    "set visited' = set visited \<union> set (nxt ?d)" "distinct visited'"
    "length visited' = length visited + length new"
    using visit_all_spec [OF run] inv by (auto simp: closure_inv_def)
  have d: "?d \<in> set queue" using more by simp
  have dV: "?d \<in> V" using d inv by (auto simp: closure_inv_def)
  then have subV: "set visited' \<subseteq> V" using V inv new(4) by (auto simp: closure_inv_def closed_graph_def)
  have reach: "set new \<subseteq> (edges nxt)\<^sup>+ `` {source}"
  proof
    fix x assume x: "x \<in> set new"
    have "(source, ?d) \<in> (edges nxt)\<^sup>+" using d inv by (auto simp: closure_inv_def)
    moreover have "(?d, x) \<in> edges nxt" using x new(3) by simp
    ultimately show "x \<in> (edges nxt)\<^sup>+ `` {source}" by (auto intro: trancl_into_trancl)
  qed
  have "set (nxt (queue' ! k)) \<subseteq> set visited'" if "k < Suc index" for k
  proof (cases "k = index")
    case True
    then show ?thesis using more new(1,4) by (simp add: nth_append)
  next
    case False
    then have "k < index" using that by simp
    moreover from inv have "\<forall>k<index. set (nxt (queue ! k)) \<subseteq> set visited"
      unfolding closure_inv_def by blast
    ultimately show ?thesis using more new(1,4) by (auto simp: nth_append)
  qed
  then have inv': "closure_inv V nxt source (Suc index, visited', queue')"
    using inv more new subV reach by (auto simp: closure_inv_def)
  have "card (V - set visited') = card V - length visited'"
    using subV new(5) by (simp add: card_Diff_subset distinct_card)
  moreover have "card (V - set visited) = card V - length visited"
  proof -
    have "distinct visited" "set visited \<subseteq> V" using inv unfolding closure_inv_def by auto
    then show ?thesis by (simp add: card_Diff_subset distinct_card)
  qed
  moreover have "length visited' \<le> card V"
    using subV V new(5) card_mono [of V "set visited'"]
    by (simp add: closed_graph_def distinct_card)
  ultimately show ?thesis using inv' more new(1,6) by simp
qed

lemma closure_loop_total:
  assumes V: "closed_graph V nxt" "source \<in> V"
  obtains index visited queue where
    "closure_loop nxt (0, visit_all (nxt source) ([source], [])) = Some (index, visited, queue)"
    "set queue = (edges nxt)\<^sup>+ `` {source} - {source}" "distinct queue"
proof -
  let ?b = "\<lambda>(index, visited, queue). index < length (queue :: nat list)"
  let ?c = "\<lambda>(index, visited, queue).
          (Suc index, visit_all (nxt (queue ! index)) (visited, queue))"
  let ?f = "\<lambda>(index, visited, queue). card (V - set visited) + (length queue - index)"
  obtain v0 o0 where start: "visit_all (nxt source) ([source], []) = (v0, o0)" by force
  obtain new where "o0 = new" "distinct new" "set new = set (nxt source) - {source}"
    "set v0 = insert source (set (nxt source))" "distinct v0"
    using visit_all_spec [OF start] by auto
  then have inv0: "closure_inv V nxt source (0, v0, o0)"
    using V by (auto simp: closure_inv_def closed_graph_def)
  have step: "closure_inv V nxt source (?c s) \<and> ?f (?c s) < ?f s"
    if "closure_inv V nxt source s" "?b s" for s
  proof -
    obtain i v out where s: "s = (i, v, out)" by (cases s) auto
    obtain v' out' where run: "visit_all (nxt (out ! i)) (v, out) = (v', out')" by force
    show ?thesis using closure_inv_step [OF V(1) _ _ run] that by (simp add: s run)
  qed
  obtain t where t: "while_option ?b ?c (0, v0, o0) = Some t" "closure_inv V nxt source t" "\<not> ?b t"
    using while_total [of "closure_inv V nxt source", OF inv0 step] by blast
  obtain i v out where s: "t = (i, v, out)" by (cases t) auto
  have "i = length out" using t(2,3) by (simp add: s closure_inv_def)
  then have inv: "closure_inv V nxt source (length out, v, out)" using t(2) by (simp add: s)
  have closed: "set (nxt x) \<subseteq> set v" if "x \<in> set v" for x
  proof (cases "x = source")
    case True
    then show ?thesis using inv by (auto simp: closure_inv_def)
  next
    case False
    then have "x \<in> set out" using that inv by (simp add: closure_inv_def)
    then obtain k where "k < length out" "out ! k = x" by (auto simp: in_set_conv_nth)
    moreover have "\<forall>k<length out. set (nxt (out ! k)) \<subseteq> set v"
      using inv unfolding closure_inv_def by blast
    ultimately show ?thesis by blast
  qed
  have "set out = (edges nxt)\<^sup>+ `` {source} - {source}"
  proof
    show "set out \<subseteq> (edges nxt)\<^sup>+ `` {source} - {source}" using inv by (auto simp: closure_inv_def)
    show "(edges nxt)\<^sup>+ `` {source} - {source} \<subseteq> set out"
    proof
      fix x assume x: "x \<in> (edges nxt)\<^sup>+ `` {source} - {source}"
      then have "(source, x) \<in> (edges nxt)\<^sup>*" by auto
      then have "x \<in> set v"
        by (rule reachable_closed) (use inv closed in \<open>auto simp: closure_inv_def\<close>)
      with x inv show "x \<in> set out" by (auto simp: closure_inv_def)
    qed
  qed
  moreover have "distinct out" using inv by (simp add: closure_inv_def)
  ultimately show ?thesis
    using that [of i v out] t(1) by (simp add: closure_loop_def start s)
qed

section \<open>Reachability of the parent\<close>

definition reaches_inv ::
    "nat set \<Rightarrow> (nat \<Rightarrow> nat list) \<Rightarrow> nat \<Rightarrow> nat \<Rightarrow> nat list \<times> nat list \<times> bool \<Rightarrow> bool" where
  "reaches_inv V inc parent child s \<longleftrightarrow> (case s of (stack, visited, found) \<Rightarrow>
     set stack \<subseteq> V \<inter> (edges inc)\<^sup>* `` {child} \<and> set visited \<subseteq> V \<and> distinct visited \<and>
     (if found then (child, parent) \<in> (edges inc)\<^sup>*
      else parent \<notin> set visited \<and> child \<in> set visited \<union> set stack \<and>
        (\<forall>v\<in>set visited. set (inc v) \<subseteq> set visited \<union> set stack)))"

definition reaches_measure ::
    "nat set \<Rightarrow> (nat \<Rightarrow> nat list) \<Rightarrow> nat list \<times> nat list \<times> bool \<Rightarrow> nat" where
  "reaches_measure V inc s = (case s of (stack, visited, found) \<Rightarrow>
     length stack + (\<Sum>v\<in>V - set visited. length (inc v)))"

lemma reaches_inv_step:
  assumes V: "closed_graph V inc" and inv: "reaches_inv V inc parent child (stack, visited, False)"
    and ne: "stack \<noteq> []"
  shows "reaches_inv V inc parent child (reaches_step inc parent (stack, visited, False)) \<and>
     reaches_measure V inc (reaches_step inc parent (stack, visited, False)) <
     reaches_measure V inc (stack, visited, False)"
proof -
  define rest current where "rest = butlast stack" and "current = last stack"
  have stack: "stack = rest @ [current]" using ne by (simp add: rest_def current_def)
  have cur: "current \<in> V" "(child, current) \<in> (edges inc)\<^sup>*" "set rest \<subseteq> V \<inter> (edges inc)\<^sup>* `` {child}"
    using inv by (auto simp: reaches_inv_def stack)
  have rest: "set rest \<subseteq> set stack" "length rest < length stack" by (auto simp: stack)
  have vis: "set visited \<subseteq> V" "distinct visited" "parent \<notin> set visited"
    "child \<in> set visited \<union> set stack" "\<forall>v\<in>set visited. set (inc v) \<subseteq> set visited \<union> set stack"
    using inv by (simp_all add: reaches_inv_def)
  consider (found) "current = parent" | (seen) "current \<noteq> parent" "current \<in> set visited"
    | (new) "current \<noteq> parent" "current \<notin> set visited" by blast
  then show ?thesis
  proof cases
    case found
    then have step: "reaches_step inc parent (stack, visited, False) = (rest, visited, True)"
      by (simp add: reaches_step_def rest_def current_def)
    show ?thesis
      unfolding step using cur vis(1,2) found by (simp add: reaches_inv_def reaches_measure_def stack)
  next
    case seen
    then have step: "reaches_step inc parent (stack, visited, False) = (rest, visited, False)"
      by (simp add: reaches_step_def rest_def current_def)
    have same: "set visited \<union> set stack = set visited \<union> set rest" using seen by (auto simp: stack)
    have "reaches_inv V inc parent child (rest, visited, False)"
      using vis(1-3) vis(4,5) [unfolded same] cur(3) by (simp add: reaches_inv_def)
    with rest(2) show ?thesis unfolding step by (simp add: reaches_measure_def)
  next
    case new
    then have step: "reaches_step inc parent (stack, visited, False) =
        (rest @ inc current, current # visited, False)"
      by (simp add: reaches_step_def rest_def current_def Let_def)
    have fin: "finite V" using V by (simp add: closed_graph_def)
    have split: "V - set visited = insert current (V - set (current # visited))"
      using cur(1) new(2) by auto
    have "(\<Sum>v\<in>V - set visited. length (inc v)) =
        length (inc current) + (\<Sum>v\<in>V - set (current # visited). length (inc v))"
      unfolding split by (rule sum.insert) (use fin in auto)
    then have meas: "reaches_measure V inc (rest @ inc current, current # visited, False) <
        reaches_measure V inc (stack, visited, False)"
      by (simp add: reaches_measure_def stack)
    have succs: "set (inc current) \<subseteq> V \<inter> (edges inc)\<^sup>* `` {child}"
      using cur(1,2) V by (auto simp: closed_graph_def intro: rtrancl_into_rtrancl)
    have grow: "set visited \<union> set stack \<subseteq> set (current # visited) \<union> set (rest @ inc current)"
      by (auto simp: stack)
    have "set (inc v) \<subseteq> set (current # visited) \<union> set (rest @ inc current)"
      if "v \<in> set (current # visited)" for v
      using that vis(5) grow by (cases "v = current") auto
    moreover have "child \<in> set (current # visited) \<union> set (rest @ inc current)"
      using vis(4) grow by blast
    ultimately have "reaches_inv V inc parent child (rest @ inc current, current # visited, False)"
      using cur vis(1-3) new succs by (simp add: reaches_inv_def)
    with meas show ?thesis unfolding step by blast
  qed
qed

lemma reaches_spec:
  assumes V: "closed_graph V inc" "child \<in> V"
  shows "reaches inc parent child = Some ((child, parent) \<in> (edges inc)\<^sup>*)"
proof -
  let ?b = "\<lambda>(stack, visited, found). stack \<noteq> [] \<and> \<not> found"
  let ?P = "reaches_inv V inc parent child"
  have inv0: "?P ([child], [], False)" using V by (auto simp: reaches_inv_def)
  have step: "?P (reaches_step inc parent s) \<and>
      reaches_measure V inc (reaches_step inc parent s) < reaches_measure V inc s"
    if "?P s" "?b s" for s
    using reaches_inv_step [OF V(1), of parent child "fst s" "fst (snd s)"] that
    by (cases s) auto
  obtain t where t: "while_option ?b (reaches_step inc parent) ([child], [], False) = Some t"
      "?P t" "\<not> ?b t"
    using while_total [of ?P, OF inv0 step] by blast
  obtain stack visited found where s: "t = (stack, visited, found)" by (cases t) auto
  have "found \<longleftrightarrow> (child, parent) \<in> (edges inc)\<^sup>*"
  proof (cases found)
    case True
    then show ?thesis using t(2) by (simp add: s reaches_inv_def)
  next
    case False
    then have "child \<in> set visited" "parent \<notin> set visited"
      and closed: "\<forall>v\<in>set visited. set (inc v) \<subseteq> set visited"
      using t(2,3) by (auto simp: s reaches_inv_def)
    then have "(child, parent) \<notin> (edges inc)\<^sup>*"
      using reachable_closed [of child parent inc "set visited"] by blast
    with False show ?thesis by simp
  qed
  with t(1) show ?thesis by (simp add: reaches_def s)
qed

lemma find_replaced_cycle_spec:
  assumes V: "closed_graph V inc" and es: "\<And>p c. (p, c) \<in> set es \<Longrightarrow> c \<in> V"
  shows "\<exists>r. find_replaced_cycle inc es = Some r \<and>
     (case r of None \<Rightarrow> \<forall>(p, c)\<in>set es. (c, p) \<notin> (edges inc)\<^sup>*
      | Some p \<Rightarrow> \<exists>c. (p, c) \<in> set es \<and> (c, p) \<in> (edges inc)\<^sup>*)"
  using es
proof (induction es)
  case (Cons e es)
  obtain p c where e: "e = (p, c)" by force
  have reach: "reaches inc p c = Some ((c, p) \<in> (edges inc)\<^sup>*)"
    using V Cons.prems [of p c] by (intro reaches_spec) (auto simp: e)
  show ?case
  proof (cases "(c, p) \<in> (edges inc)\<^sup>*")
    case True
    with reach show ?thesis by (intro exI [of _ "Some p"]) (auto simp: e)
  next
    case False
    have eq: "find_replaced_cycle inc (e # es) = find_replaced_cycle inc es"
      using reach False by (simp add: e)
    obtain r where r: "find_replaced_cycle inc es = Some r"
      "case r of None \<Rightarrow> \<forall>(p, c)\<in>set es. (c, p) \<notin> (edges inc)\<^sup>*
       | Some p \<Rightarrow> \<exists>c. (p, c) \<in> set es \<and> (c, p) \<in> (edges inc)\<^sup>*"
      using Cons by auto
    show ?thesis
      unfolding eq by (intro exI [of _ r]) (use r False in \<open>auto simp: e split: option.splits\<close>)
  qed
qed simp

section \<open>The depth-first search\<close>

definition zeros :: "nat list \<Rightarrow> nat" where
  "zeros colours = length (filter (\<lambda>c. c = 0) colours)"

lemma zeros_colour:
  "i < length colours \<Longrightarrow> colours ! i = 0 \<Longrightarrow> c \<noteq> 0 \<Longrightarrow> Suc (zeros (colours[i := c])) = zeros colours"
  by (induction colours arbitrary: i) (auto simp: zeros_def nth_Cons split: nat.splits)

lemma zeros_recolour:
  "colours ! i \<noteq> 0 \<Longrightarrow> c \<noteq> 0 \<Longrightarrow> zeros (colours[i := c]) = zeros colours"
  by (induction colours arbitrary: i) (auto simp: zeros_def nth_Cons split: nat.splits)

definition cyclic :: "(nat \<Rightarrow> nat list) \<Rightarrow> bool" where
  "cyclic inc \<longleftrightarrow> (\<exists>v. (v, v) \<in> (edges inc)\<^sup>+)"

lemma cyclic_acyclic: "cyclic inc \<longleftrightarrow> \<not> acyclic (edges inc)"
  by (simp add: cyclic_def acyclic_def)

text \<open>
  The done Sources: their includes are done, and none of them lies on a cycle. \<open>dfs_pre\<close>
  adds that every Source on the path reaches the one to be visited.
\<close>

definition dfs_good :: "nat \<Rightarrow> (nat \<Rightarrow> nat list) \<Rightarrow> nat list \<Rightarrow> bool" where
  "dfs_good n inc colours \<longleftrightarrow> length colours = Suc n \<and> (\<forall>x\<le>n. colours ! x \<le> 2) \<and>
     (\<forall>x\<le>n. colours ! x = 2 \<longrightarrow>
        (\<forall>y\<in>set (inc x). y \<le> n \<and> colours ! y = 2) \<and> (x, x) \<notin> (edges inc)\<^sup>+)"

lemma dfs_good_length: "dfs_good n inc c \<Longrightarrow> length c = Suc n"
  by (simp add: dfs_good_def)

lemma dfs_good_le2: "dfs_good n inc c \<Longrightarrow> x \<le> n \<Longrightarrow> c ! x \<le> 2"
  unfolding dfs_good_def by blast

lemma dfs_good_succ:
  "dfs_good n inc c \<Longrightarrow> x \<le> n \<Longrightarrow> c ! x = 2 \<Longrightarrow> y \<in> set (inc x) \<Longrightarrow> y \<le> n \<and> c ! y = 2"
  unfolding dfs_good_def by blast

lemma dfs_good_no_cycle:
  "dfs_good n inc c \<Longrightarrow> x \<le> n \<Longrightarrow> c ! x = 2 \<Longrightarrow> (x, x) \<notin> (edges inc)\<^sup>+"
  unfolding dfs_good_def by blast

lemma dfs_goodI:
  assumes "length c = Suc n" "\<And>x. x \<le> n \<Longrightarrow> c ! x \<le> 2"
    and "\<And>x y. x \<le> n \<Longrightarrow> c ! x = 2 \<Longrightarrow> y \<in> set (inc x) \<Longrightarrow> y \<le> n \<and> c ! y = 2"
    and "\<And>x. x \<le> n \<Longrightarrow> c ! x = 2 \<Longrightarrow> (x, x) \<notin> (edges inc)\<^sup>+"
  shows "dfs_good n inc c"
  unfolding dfs_good_def using assms by blast

definition dfs_pre :: "(nat \<Rightarrow> nat list) \<Rightarrow> nat \<Rightarrow> nat list \<Rightarrow> bool" where
  "dfs_pre inc v colours \<longleftrightarrow> (\<forall>u<length colours. colours ! u = 1 \<longrightarrow> (u, v) \<in> (edges inc)\<^sup>+)"

definition dfs_frame :: "nat list \<Rightarrow> nat list \<Rightarrow> bool" where
  "dfs_frame colours colours' \<longleftrightarrow> length colours' = length colours \<and> zeros colours' \<le> zeros colours \<and>
     (\<forall>x<length colours. (colours' ! x = 1 \<longleftrightarrow> colours ! x = 1) \<and>
        (colours ! x = 2 \<longrightarrow> colours' ! x = 2))"

definition dfs_post ::
    "nat \<Rightarrow> (nat \<Rightarrow> nat list) \<Rightarrow> nat list \<Rightarrow> nat list \<Rightarrow> (bool \<times> nat list) option \<Rightarrow> bool" where
  "dfs_post n inc vs colours r \<longleftrightarrow>
     (case r of
        None \<Rightarrow> False
      | Some (ok, colours') \<Rightarrow>
          if ok then dfs_good n inc colours' \<and> dfs_frame colours colours' \<and>
                     (\<forall>v\<in>set vs. colours' ! v = 2)
          else cyclic inc)"

lemma dfs_frame_refl: "dfs_frame c c"
  by (simp add: dfs_frame_def)

lemma dfs_frame_trans: "dfs_frame a b \<Longrightarrow> dfs_frame b c \<Longrightarrow> dfs_frame a c"
  by (auto simp: dfs_frame_def)

lemma dfs_pre_frame: "dfs_pre inc v c \<Longrightarrow> dfs_frame c c' \<Longrightarrow> dfs_pre inc v c'"
  by (auto simp: dfs_pre_def dfs_frame_def)

lemma visit_list_post:
  assumes f: "\<And>v c. v \<in> set vs \<Longrightarrow> dfs_good n inc c \<Longrightarrow> dfs_pre inc v c \<Longrightarrow> zeros c < fuel \<Longrightarrow>
      dfs_post n inc [v] c (f v c)"
    and vs: "set vs \<subseteq> {1..n}" and good: "dfs_good n inc c"
    and pre: "\<And>v. v \<in> set vs \<Longrightarrow> dfs_pre inc v c" and fuel: "zeros c < fuel"
  shows "dfs_post n inc vs c (visit_list f vs c)"
  using assms
proof (induction vs arbitrary: c)
  case Nil
  then show ?case by (simp add: dfs_post_def dfs_frame_refl)
next
  case (Cons v vs)
  have one: "dfs_post n inc [v] c (f v c)" using Cons.prems by simp
  then obtain ok c' where r: "f v c = Some (ok, c')" by (auto simp: dfs_post_def split: option.splits)
  show ?case
  proof (cases ok)
    case False
    with one r show ?thesis by (simp add: dfs_post_def)
  next
    case True
    with one r have g: "dfs_good n inc c'" "dfs_frame c c'" "c' ! v = 2"
      by (simp_all add: dfs_post_def)
    have rest: "dfs_post n inc vs c' (visit_list f vs c')"
    proof (rule Cons.IH)
      show "dfs_pre inc w c'" if "w \<in> set vs" for w
        using Cons.prems(4) [of w] that g(2) dfs_pre_frame by simp
      show "zeros c' < fuel" using Cons.prems(5) g(2) by (simp add: dfs_frame_def)
    qed (use Cons.prems g in auto)
    obtain ok' c'' where r': "visit_list f vs c' = Some (ok', c'')"
      using rest by (auto simp: dfs_post_def split: option.splits)
    have "c'' ! v = 2" if ok'
    proof -
      have "dfs_frame c' c''" "v < length c'"
        using rest r' that Cons.prems(2) dfs_good_length [OF g(1)] by (auto simp: dfs_post_def)
      with g(3) show ?thesis by (simp add: dfs_frame_def)
    qed
    with rest r r' True dfs_frame_trans [OF g(2)] show ?thesis
      by (auto simp: dfs_post_def)
  qed
qed

lemma dfs_good_start:
  assumes good: "dfs_good n inc c" and v: "v \<le> n" "c ! v = 0"
  shows "dfs_good n inc (c[v := 1])"
proof (rule dfs_goodI)
  have len: "v < length c" using dfs_good_length [OF good] v by simp
  show "length (c[v := 1]) = Suc n" using dfs_good_length [OF good] by simp
  show "c[v := 1] ! x \<le> 2" if "x \<le> n" for x
    using dfs_good_le2 [OF good that] len by (cases "x = v") simp_all
  have old: "x \<noteq> v \<and> c ! x = 2" if "c[v := 1] ! x = 2" for x
    using that len by (cases "x = v") simp_all
  show "y \<le> n \<and> c[v := 1] ! y = 2" if x: "x \<le> n" "c[v := 1] ! x = 2" "y \<in> set (inc x)" for x y
  proof -
    have "y \<le> n \<and> c ! y = 2" using dfs_good_succ [OF good x(1)] old [OF x(2)] x(3) by blast
    with v(2) show ?thesis by (cases "y = v") simp_all
  qed
  show "(x, x) \<notin> (edges inc)\<^sup>+" if "x \<le> n" "c[v := 1] ! x = 2" for x
    using dfs_good_no_cycle [OF good that(1)] old [OF that(2)] by blast
qed

lemma dfs_good_finish:
  assumes good: "dfs_good n inc c" and v: "v \<le> n" "c ! v = 1"
    and succ: "\<And>y. y \<in> set (inc v) \<Longrightarrow> y \<le> n \<and> c ! y = 2"
  shows "dfs_good n inc (c[v := 2])"
proof (rule dfs_goodI)
  let ?S = "{x. x \<le> n \<and> c ! x = 2}"
  have len: "v < length c" using dfs_good_length [OF good] v by simp
  have no: "(v, v) \<notin> (edges inc)\<^sup>+"
  proof
    assume "(v, v) \<in> (edges inc)\<^sup>+"
    then obtain y where y: "(v, y) \<in> edges inc" "(y, v) \<in> (edges inc)\<^sup>*" by (blast dest: tranclD)
    have "y \<in> ?S" using y(1) succ by simp
    moreover have "set (inc x) \<subseteq> ?S" if "x \<in> ?S" for x
      using dfs_good_succ [OF good, of x] that by blast
    ultimately have "v \<in> ?S" using reachable_closed [OF y(2)] by blast
    with v show False by simp
  qed
  show "length (c[v := 2]) = Suc n" using dfs_good_length [OF good] by simp
  show "c[v := 2] ! x \<le> 2" if "x \<le> n" for x
    using dfs_good_le2 [OF good that] len by (cases "x = v") simp_all
  have old: "x = v \<or> c ! x = 2" if "c[v := 2] ! x = 2" for x
    using that by (cases "x = v") simp_all
  have new: "c[v := 2] ! y = 2" if "c ! y = 2" for y
    using that len by (cases "y = v") simp_all
  show "y \<le> n \<and> c[v := 2] ! y = 2" if x: "x \<le> n" "c[v := 2] ! x = 2" "y \<in> set (inc x)" for x y
    using old [OF x(2)] succ [of y] dfs_good_succ [OF good x(1) _ x(3)] x(3) new by blast
  show "(x, x) \<notin> (edges inc)\<^sup>+" if "x \<le> n" "c[v := 2] ! x = 2" for x
    using old [OF that(2)] dfs_good_no_cycle [OF good that(1)] no by blast
qed

lemma visit_post:
  assumes V: "\<And>x. x \<in> {1..n} \<Longrightarrow> set (inc x) \<subseteq> {1..n}"
  shows "v \<in> {1..n} \<Longrightarrow> dfs_good n inc c \<Longrightarrow> dfs_pre inc v c \<Longrightarrow> zeros c < fuel \<Longrightarrow>
    dfs_post n inc [v] c (visit fuel inc v c)"
proof (induction fuel arbitrary: v c)
  case (Suc fuel)
  have v: "v \<le> n" "v < length c" using Suc.prems(1) dfs_good_length [OF Suc.prems(2)] by auto
  have le2: "c ! v \<le> 2" using Suc.prems(2) v(1) by (rule dfs_good_le2)
  consider "c ! v = 1" | "c ! v = 2" | "c ! v = 0" using le2 by linarith
  then show ?case
  proof cases
    case 1
    then have "cyclic inc" using Suc.prems(3) v unfolding dfs_pre_def cyclic_def by blast
    with 1 show ?thesis by (simp add: dfs_post_def)
  next
    case 2
    with Suc.prems show ?thesis by (simp add: dfs_post_def dfs_frame_refl)
  next
    case 3
    let ?c = "c[v := 1]"
    have good: "dfs_good n inc ?c" using Suc.prems(2) v(1) 3 by (rule dfs_good_start)
    have zero: "Suc (zeros ?c) = zeros c" using zeros_colour [OF v(2) 3, of 1] by simp
    have pre: "dfs_pre inc w ?c" if w: "w \<in> set (inc v)" for w
      unfolding dfs_pre_def
    proof (intro allI impI)
      fix u assume u: "u < length ?c" "?c ! u = 1"
      show "(u, w) \<in> (edges inc)\<^sup>+"
      proof (cases "u = v")
        case True
        with w show ?thesis by auto
      next
        case False
        then have "(u, v) \<in> (edges inc)\<^sup>+" using u Suc.prems(3) by (simp add: dfs_pre_def)
        with w show ?thesis by (auto intro: trancl_into_trancl)
      qed
    qed
    have list: "dfs_post n inc (inc v) ?c (visit_list (visit fuel inc) (inc v) ?c)"
    proof (rule visit_list_post [where fuel = fuel])
      show "set (inc v) \<subseteq> {1..n}" using V Suc.prems(1) by blast
      show "zeros ?c < fuel" using zero Suc.prems(4) by simp
      show "dfs_post n inc [w] d (visit fuel inc w d)"
        if "w \<in> set (inc v)" "dfs_good n inc d" "dfs_pre inc w d" "zeros d < fuel" for w d
        using Suc.IH that V Suc.prems(1) by blast
    qed (use good pre in auto)
    then obtain ok d where d: "visit_list (visit fuel inc) (inc v) ?c = Some (ok, d)"
      by (auto simp: dfs_post_def split: option.splits)
    show ?thesis
    proof (cases ok)
      case False
      with list d 3 show ?thesis by (simp add: dfs_post_def)
    next
      case True
      then have post: "dfs_good n inc d" "dfs_frame ?c d" "\<And>y. y \<in> set (inc v) \<Longrightarrow> d ! y = 2"
        using list d by (simp_all add: dfs_post_def)
      have dv: "d ! v = 1" "length d = length c" "zeros d \<le> zeros ?c"
        using post(2) v by (auto simp: dfs_frame_def)
      have "dfs_good n inc (d[v := 2])"
        using post(1) v(1) dv(1)
        by (rule dfs_good_finish) (use post(3) V Suc.prems(1) in fastforce)
      moreover have "dfs_frame c (d[v := 2])"
        using post(2) 3 v dv zero zeros_recolour [of d v 2]
        by (auto simp: dfs_frame_def nth_list_update)
      ultimately show ?thesis
        using d 3 True v dv by (simp add: dfs_post_def)
    qed
  qed
qed simp

lemma visit_sources_post:
  assumes V: "\<And>x. x \<in> {1..n} \<Longrightarrow> set (inc x) \<subseteq> {1..n}"
  shows "set vs \<subseteq> {1..n} \<Longrightarrow> dfs_good n inc c \<Longrightarrow> \<forall>u<length c. c ! u \<noteq> 1 \<Longrightarrow> zeros c < fuel \<Longrightarrow>
    (\<exists>r. visit_sources fuel inc vs c = Some r \<and>
      (case r of None \<Rightarrow> \<forall>v\<in>set vs. (v, v) \<notin> (edges inc)\<^sup>+ | Some v \<Rightarrow> v \<in> set vs \<and> cyclic inc))"
proof (induction vs arbitrary: c)
  case (Cons v vs)
  have one: "dfs_post n inc [v] c (visit fuel inc v c)"
    using Cons.prems by (intro visit_post [OF V]) (auto simp: dfs_pre_def)
  then obtain ok d where d: "visit fuel inc v c = Some (ok, d)"
    by (auto simp: dfs_post_def split: option.splits)
  show ?case
  proof (cases ok)
    case False
    with one d show ?thesis by (intro exI [of _ "Some v"]) (simp add: dfs_post_def)
  next
    case True
    then have post: "dfs_good n inc d" "dfs_frame c d" "d ! v = 2"
      using one d by (simp_all add: dfs_post_def)
    have "\<forall>u<length d. d ! u \<noteq> 1" "zeros d < fuel"
      using post(2) Cons.prems(3,4) by (auto simp: dfs_frame_def)
    then obtain r where r: "visit_sources fuel inc vs d = Some r"
      "case r of None \<Rightarrow> \<forall>v\<in>set vs. (v, v) \<notin> (edges inc)\<^sup>+ | Some v \<Rightarrow> v \<in> set vs \<and> cyclic inc"
      using Cons.IH [of d] post(1) Cons.prems(1) by auto
    have "(v, v) \<notin> (edges inc)\<^sup>+"
      using dfs_good_no_cycle [OF post(1) _ post(3)] Cons.prems(1) by simp
    with r d True show ?thesis by (intro exI [of _ r]) (auto split: option.splits)
  qed
qed simp

lemma zeros_replicate [simp]: "zeros (replicate n 0) = n"
  by (simp add: zeros_def)

lemma trancl_source_in:
  assumes "(v, w) \<in> (edges inc)\<^sup>+" "\<And>x. x \<notin> V \<Longrightarrow> inc x = []"
  shows "v \<in> V"
proof -
  obtain y where "(v, y) \<in> edges inc" using assms(1) by (blast dest: tranclD)
  then have "inc v \<noteq> []" by auto
  with assms(2) show ?thesis by blast
qed

end
