(* ===== verification/SourceUpdate.thy ===== *)
theory SourceUpdate
  imports SourceGraph
begin

text \<open>
  The invariants of the Source Manager and of its candidate update, the steps a build
  takes on a candidate, and the lemmas that every step keeps the invariant.
\<close>

section \<open>The committed Source universe\<close>

definition sm_size :: "source_manager \<Rightarrow> nat" where
  "sm_size m = length (sm_sources m)"

definition stored :: "source_manager \<Rightarrow> nat \<Rightarrow> source_physical_storage option" where
  "stored m i = (case slot (sm_physical m) i of Some (Some s) \<Rightarrow> Some s | _ \<Rightarrow> None)"

text \<open>
  A well-formed Source Manager: identities are dense, the path index is the inverse of
  the identity table, the tables have one row per Source, both edge tables describe the
  same relation without repetitions, that relation is acyclic, and roots name Sources.
\<close>

definition sm_wf :: "source_manager \<Rightarrow> bool" where
  "sm_wf m \<longleftrightarrow> (let n = sm_size m in
     sm_stable m = None \<and> n \<le> u32_max \<and> sm_next_id m = cast_u32 (n + 1) \<and>
     (\<forall>i<n. record_id (sm_sources m ! i) = i + 1) \<and>
     um_wf (sm_by_path m) \<and>
     (\<forall>p i. map_of (sm_by_path m) p = Some i \<longleftrightarrow> map_option record_path (slot (sm_sources m) i) = Some p) \<and>
     length (sm_physical m) = n \<and> length (sm_includes m) = n \<and> length (sm_dependents m) = n \<and>
     (\<forall>v. set (sm_includes_of m v) \<subseteq> {1..n} \<and> distinct (sm_includes_of m v)) \<and>
     (\<forall>v. distinct (sm_dependents_of m v)) \<and>
     (\<forall>v w. w \<in> set (sm_includes_of m v) \<longleftrightarrow> v \<in> set (sm_dependents_of m w)) \<and>
     acyclic (edges (sm_includes_of m)) \<and>
     (\<forall>r\<in>set (sm_roots m). root_source r \<in> {1..n}))"

definition new_size :: "source_manager \<Rightarrow> source_manager_update \<Rightarrow> nat" where
  "new_size m u = sm_size m + length (mu_added u)"

definition delta_ok :: "source_manager \<Rightarrow> nat \<Rightarrow> source_physical_delta \<Rightarrow> bool" where
  "delta_ok m i d \<longleftrightarrow>
     (if pd_observation_only d
      then pd_replacement d = None \<and>
           (\<exists>s. stored m i = Some s \<and>
                pd_state d = (ps_state s)\<lparr>observation := observation (pd_state d)\<rparr>)
      else \<exists>s. pd_replacement d = Some s \<and> ps_state s = pd_state d)"

text \<open>The classification of a Source whose candidate state is given by the delta \<open>d\<close>.\<close>

definition net_kind ::
    "source_manager \<Rightarrow> nat \<Rightarrow> source_physical_delta \<Rightarrow> source_change_kind option" where
  "net_kind m i d =
     (case stored m i of
        None \<Rightarrow> classify_change False initial_physical_state (pd_state d)
      | Some s \<Rightarrow> classify_change True (ps_state s) (pd_state d))"

definition sources_part :: "source_manager \<Rightarrow> source_manager_update \<Rightarrow> bool" where
  "sources_part m u \<longleftrightarrow>
     new_size m u \<le> u32_max \<and> mu_next_id u = cast_u32 (new_size m u + 1) \<and>
     (\<forall>i<length (mu_added u). record_id (mu_added u ! i) = sm_size m + i + 1) \<and>
     um_wf (mu_by_path u) \<and>
     (\<forall>p i. map_of (mu_by_path u) p = Some i \<longleftrightarrow>
        sm_size m < i \<and> map_option record_path (slot (mu_added u) (i - sm_size m)) = Some p) \<and>
     (\<forall>p. map_of (mu_by_path u) p \<noteq> None \<longrightarrow> map_of (sm_by_path m) p = None) \<and>
     (\<forall>r\<in>set (mu_roots u). root_source r \<in> {1..new_size m u})"

definition physical_part :: "source_manager \<Rightarrow> source_manager_update \<Rightarrow> bool" where
  "physical_part m u \<longleftrightarrow>
     um_wf (mu_physical u) \<and>
     (\<forall>i d. map_of (mu_physical u) i = Some d \<longrightarrow> i \<in> {1..new_size m u} \<and> delta_ok m i d) \<and>
     changes_wf (mu_dense u) (mu_changes u, mu_positions u, mu_sparse u) \<and>
     (\<forall>i. change_map (mu_changes u) i = Option.bind (map_of (mu_physical u) i) (net_kind m i))"

definition includes_part :: "source_manager \<Rightarrow> source_manager_update \<Rightarrow> bool" where
  "includes_part m u \<longleftrightarrow>
     um_wf (mu_includes u) \<and>
     (\<forall>v ws. map_of (mu_includes u) v = Some ws \<longrightarrow>
        v \<in> {1..new_size m u} \<and> set ws \<subseteq> {1..new_size m u} \<and> distinct ws) \<and>
     (mu_graph_validated u \<longrightarrow> acyclic (edges (mu_candidate_includes m u)))"

lemma sources_partD:
  assumes "sources_part m u"
  shows "new_size m u \<le> u32_max" "mu_next_id u = cast_u32 (new_size m u + 1)"
    "\<And>i. i < length (mu_added u) \<Longrightarrow> record_id (mu_added u ! i) = sm_size m + i + 1"
    "um_wf (mu_by_path u)"
    "\<And>p i. map_of (mu_by_path u) p = Some i \<longleftrightarrow>
        sm_size m < i \<and> map_option record_path (slot (mu_added u) (i - sm_size m)) = Some p"
    "\<And>p. map_of (mu_by_path u) p \<noteq> None \<Longrightarrow> map_of (sm_by_path m) p = None"
    "\<And>r. r \<in> set (mu_roots u) \<Longrightarrow> root_source r \<in> {1..new_size m u}"
  using assms unfolding sources_part_def by blast+

lemma physical_partD:
  assumes "physical_part m u"
  shows "um_wf (mu_physical u)"
    "\<And>i d. map_of (mu_physical u) i = Some d \<Longrightarrow> i \<in> {1..new_size m u} \<and> delta_ok m i d"
    "changes_wf (mu_dense u) (mu_changes u, mu_positions u, mu_sparse u)"
    "\<And>i. change_map (mu_changes u) i = Option.bind (map_of (mu_physical u) i) (net_kind m i)"
  using assms unfolding physical_part_def by blast+

lemma includes_partD:
  assumes "includes_part m u"
  shows "um_wf (mu_includes u)"
    "\<And>v ws. map_of (mu_includes u) v = Some ws \<Longrightarrow>
        v \<in> {1..new_size m u} \<and> set ws \<subseteq> {1..new_size m u} \<and> distinct ws"
    "mu_graph_validated u \<Longrightarrow> acyclic (edges (mu_candidate_includes m u))"
  using assms unfolding includes_part_def by blast+

lemma sources_partI:
  assumes "new_size m u \<le> u32_max" "mu_next_id u = cast_u32 (new_size m u + 1)"
    "\<And>i. i < length (mu_added u) \<Longrightarrow> record_id (mu_added u ! i) = sm_size m + i + 1"
    "um_wf (mu_by_path u)"
    "\<And>p i. map_of (mu_by_path u) p = Some i \<longleftrightarrow>
        sm_size m < i \<and> map_option record_path (slot (mu_added u) (i - sm_size m)) = Some p"
    "\<And>p. map_of (mu_by_path u) p \<noteq> None \<Longrightarrow> map_of (sm_by_path m) p = None"
    "\<And>r. r \<in> set (mu_roots u) \<Longrightarrow> root_source r \<in> {1..new_size m u}"
  shows "sources_part m u"
  unfolding sources_part_def using assms by blast

lemma physical_partI:
  assumes "um_wf (mu_physical u)"
    "\<And>i d. map_of (mu_physical u) i = Some d \<Longrightarrow> i \<in> {1..new_size m u} \<and> delta_ok m i d"
    "changes_wf (mu_dense u) (mu_changes u, mu_positions u, mu_sparse u)"
    "\<And>i. change_map (mu_changes u) i = Option.bind (map_of (mu_physical u) i) (net_kind m i)"
  shows "physical_part m u"
  unfolding physical_part_def using assms by blast

lemma includes_partI:
  assumes "um_wf (mu_includes u)"
    "\<And>v ws. map_of (mu_includes u) v = Some ws \<Longrightarrow>
        v \<in> {1..new_size m u} \<and> set ws \<subseteq> {1..new_size m u} \<and> distinct ws"
    "mu_graph_validated u \<Longrightarrow> acyclic (edges (mu_candidate_includes m u))"
  shows "includes_part m u"
  unfolding includes_part_def using assms by blast

text \<open>The invariant of an open candidate.\<close>

definition mu_wf :: "source_manager \<Rightarrow> source_manager_update \<Rightarrow> bool" where
  "mu_wf m u \<longleftrightarrow> sm_wf m \<and> mu_owner u \<and> \<not> mu_committed u \<and> \<not> mu_prepared u \<and>
     mu_base_generation u = sm_generation m \<and> \<not> mu_g0_snapshot u \<and>
     sources_part m u \<and> physical_part m u \<and> includes_part m u"

lemma mu_wf_parts:
  assumes "mu_wf m u"
  shows "sm_wf m" "mu_owner u" "\<not> mu_committed u" "\<not> mu_prepared u"
    "mu_base_generation u = sm_generation m" "\<not> mu_g0_snapshot u"
    "sources_part m u" "physical_part m u" "includes_part m u"
  using assms by (simp_all add: mu_wf_def)

lemma sm_wf_stable: "sm_wf m \<Longrightarrow> sm_stable m = None"
  by (simp add: sm_wf_def Let_def)

lemma sm_wf_lengths:
  "sm_wf m \<Longrightarrow> length (sm_physical m) = sm_size m \<and> length (sm_includes m) = sm_size m \<and>
     length (sm_dependents m) = sm_size m \<and> sm_size m \<le> u32_max"
  by (simp add: sm_wf_def Let_def)

lemma sm_wf_path:
  "sm_wf m \<Longrightarrow> map_of (sm_by_path m) p = Some i \<longleftrightarrow>
     map_option record_path (slot (sm_sources m) i) = Some p"
  unfolding sm_wf_def Let_def by blast

lemma sm_wf_ids: "sm_wf m \<Longrightarrow> i < sm_size m \<Longrightarrow> record_id (sm_sources m ! i) = i + 1"
  unfolding sm_wf_def Let_def by blast

lemma sm_wf_includes:
  "sm_wf m \<Longrightarrow> set (sm_includes_of m v) \<subseteq> {1..sm_size m} \<and> distinct (sm_includes_of m v)"
  unfolding sm_wf_def Let_def by blast

lemma sm_wf_dependents:
  "sm_wf m \<Longrightarrow> v \<in> set (sm_dependents_of m w) \<longleftrightarrow> w \<in> set (sm_includes_of m v)"
  unfolding sm_wf_def Let_def by blast

lemma sm_wf_dependents_distinct: "sm_wf m \<Longrightarrow> distinct (sm_dependents_of m w)"
  unfolding sm_wf_def Let_def by blast

lemma sm_wf_acyclic: "sm_wf m \<Longrightarrow> acyclic (edges (sm_includes_of m))"
  unfolding sm_wf_def Let_def by blast

lemma sm_wf_roots: "sm_wf m \<Longrightarrow> r \<in> set (sm_roots m) \<Longrightarrow> root_source r \<in> {1..sm_size m}"
  unfolding sm_wf_def Let_def by blast

lemma sm_find_wf:
  "sm_wf m \<Longrightarrow> sm_find m i = slot (sm_sources m) i"
  using sm_wf_ids [of m "i - 1"]
  by (cases i) (auto simp: sm_find_def slot_def sm_size_def split: option.splits)

lemma sm_includes_of_outside: "sm_wf m \<Longrightarrow> i \<notin> {1..sm_size m} \<Longrightarrow> sm_includes_of m i = []"
  using sm_wf_lengths [of m] by (auto simp: sm_includes_of_def slot_def)

lemma sm_dependents_of_outside: "sm_wf m \<Longrightarrow> i \<notin> {1..sm_size m} \<Longrightarrow> sm_dependents_of m i = []"
  using sm_wf_lengths [of m] by (auto simp: sm_dependents_of_def slot_def)

lemma sm_wf_new: "sm_wf new_source_manager"
  by (simp add: sm_wf_def new_source_manager_def sm_size_def sm_includes_of_def
      sm_dependents_of_def edges_def acyclic_def u32_max_def)

lemma edges_nil: "edges (\<lambda>_. []) = {}"
  by (simp add: edges_def)

section \<open>Beginning an update\<close>

lemma mu_wf_begin:
  assumes "sm_wf m"
  shows "mu_wf m (sm_begin_update m)"
proof -
  let ?u = "sm_begin_update m"
  have size: "new_size m ?u = sm_size m" by (simp add: new_size_def sm_begin_update_def)
  have inc: "mu_candidate_includes m ?u = sm_includes_of m"
    using assms by (simp add: mu_candidate_includes_def sm_begin_update_def sm_wf_stable fun_eq_iff)
  have "sources_part m ?u"
    using assms unfolding sources_part_def size
    by (simp add: sm_begin_update_def sm_wf_def Let_def)
  moreover have "physical_part m ?u"
    unfolding physical_part_def size
    by (simp add: sm_begin_update_def changes_wf_def indexed_def dense_pos_def sparse_pos_def
        change_map_def)
  moreover have "includes_part m ?u"
    unfolding includes_part_def inc using sm_wf_acyclic [OF assms] by (simp add: sm_begin_update_def)
  ultimately show ?thesis
    using assms by (simp add: mu_wf_def sm_begin_update_def sm_wf_stable)
qed

section \<open>Resolving\<close>

text \<open>Two candidates that differ in the failure status, the roots flag and the position index only.\<close>

lemma candidate_includes_frame [simp]:
  "mu_candidate_includes m (u\<lparr>mu_failure := e\<rparr>) = mu_candidate_includes m u"
  "mu_candidate_includes m (u\<lparr>mu_roots_changed := b\<rparr>) = mu_candidate_includes m u"
  "mu_candidate_includes m (u\<lparr>mu_roots := rs\<rparr>) = mu_candidate_includes m u"
  "mu_candidate_includes m (u\<lparr>mu_graph_validated := g\<rparr>) = mu_candidate_includes m u"
  by (simp_all add: mu_candidate_includes_def fun_eq_iff)

lemma mu_wf_failure [simp]: "mu_wf m (u\<lparr>mu_failure := e\<rparr>) = mu_wf m u"
  by (simp add: mu_wf_def sources_part_def physical_part_def includes_part_def new_size_def)

lemma mu_wf_roots_changed [simp]: "mu_wf m (u\<lparr>mu_roots_changed := e\<rparr>) = mu_wf m u"
  by (simp add: mu_wf_def sources_part_def physical_part_def includes_part_def new_size_def)

lemma new_size_roots [simp]: "new_size m (u\<lparr>mu_roots := roots\<rparr>) = new_size m u"
  by (simp add: new_size_def)

lemma physical_part_size:
  assumes "physical_part m u" "new_size m u \<le> new_size m u'" "mu_physical u' = mu_physical u"
    "mu_dense u' = mu_dense u" "mu_changes u' = mu_changes u" "mu_positions u' = mu_positions u"
    "mu_sparse u' = mu_sparse u"
  shows "physical_part m u'"
  using physical_partD [OF assms(1)] assms(2-)
  by (intro physical_partI) (simp_all, meson le_trans)

lemma includes_part_size:
  assumes "includes_part m u" "new_size m u \<le> new_size m u'" "mu_includes u' = mu_includes u"
    "mu_graph_validated u' = mu_graph_validated u" "mu_owner u' = mu_owner u"
  shows "includes_part m u'"
proof (rule includes_partI)
  note part = includes_partD [OF assms(1)]
  have same: "mu_candidate_includes m u' = mu_candidate_includes m u"
    using assms by (simp add: mu_candidate_includes_def fun_eq_iff)
  have sub: "{1..new_size m u} \<subseteq> {1..new_size m u'}" using assms(2) by auto
  show "um_wf (mu_includes u')" using part(1) assms(3) by simp
  show "v \<in> {1..new_size m u'} \<and> set ws \<subseteq> {1..new_size m u'} \<and> distinct ws"
    if "map_of (mu_includes u') v = Some ws" for v ws
    using part(2) [of v ws] that assms(3) sub by auto
  show "acyclic (edges (mu_candidate_includes m u'))" if "mu_graph_validated u'"
    using part(3) that assms(4) same by simp
qed

lemma mu_wf_roots:
  assumes wf: "mu_wf m u" and roots: "\<And>r. r \<in> set roots \<Longrightarrow> root_source r \<in> {1..new_size m u}"
  shows "mu_wf m (u\<lparr>mu_roots := roots\<rparr>)"
proof -
  note parts = mu_wf_parts [OF wf]
  have "sources_part m (u\<lparr>mu_roots := roots\<rparr>)"
    by (rule sources_partI) (use sources_partD [OF parts(7)] roots in simp_all)
  moreover have "physical_part m (u\<lparr>mu_roots := roots\<rparr>)"
    by (rule physical_part_size [OF parts(8)]) simp_all
  moreover have "includes_part m (u\<lparr>mu_roots := roots\<rparr>)"
    by (rule includes_part_size [OF parts(9)]) simp_all
  ultimately show ?thesis using parts by (simp add: mu_wf_def)
qed

lemma mu_wf_push_root:
  assumes "mu_wf m u" "i \<in> {1..new_size m u}"
  shows "mu_wf m (push_root i role u)"
proof -
  have "mu_wf m (u\<lparr>mu_roots := mu_roots u @ [\<lparr>root_source = i, root_role = role\<rparr>]\<rparr>)"
    using assms(1) by (rule mu_wf_roots)
      (use assms(2) sources_partD(7) [OF mu_wf_parts(7) [OF assms(1)]] in auto)
  with assms(1) show ?thesis by (simp add: push_root_def)
qed

lemma slot_id: "map_option f (slot xs i) = Some y \<Longrightarrow> 1 \<le> i \<and> i \<le> length xs"
  by (auto simp: slot_def split: if_splits)

lemma sources_part_id:
  assumes "sources_part m u" "map_of (mu_by_path u) p = Some i"
  shows "sm_size m < i \<and> i \<le> new_size m u"
proof -
  have at: "sm_size m < i" "map_option record_path (slot (mu_added u) (i - sm_size m)) = Some p"
    using sources_partD(5) [OF assms(1), of p i] assms(2) by simp_all
  have "i - sm_size m \<le> length (mu_added u)" using slot_id [OF at(2)] by simp
  with at(1) show ?thesis unfolding new_size_def by linarith
qed

lemma next_id_nonzero:
  assumes "sources_part m u" "mu_next_id u \<noteq> 0"
  shows "Suc (new_size m u) \<le> u32_max" "mu_next_id u = Suc (new_size m u)"
proof -
  have next_id: "mu_next_id u = cast_u32 (new_size m u + 1)" "new_size m u \<le> u32_max"
    using assms(1) by (simp_all add: sources_part_def)
  have "new_size m u \<noteq> u32_max"
    using next_id(1) assms(2) by (auto simp: cast_u32_def u32_max_def)
  with next_id show "Suc (new_size m u) \<le> u32_max" "mu_next_id u = Suc (new_size m u)" by simp_all
qed

lemma sources_part_new:
  assumes wf: "sources_part m u" and nz: "mu_next_id u \<noteq> 0"
    and fresh: "map_of (mu_by_path u) p = None" "map_of (sm_by_path m) p = None"
  shows "sources_part m (u\<lparr>mu_by_path := um_emplace p (mu_next_id u) (mu_by_path u),
      mu_added := mu_added u @ [\<lparr>record_id = mu_next_id u, record_path = p\<rparr>],
      mu_next_id := cast_u32 (mu_next_id u + 1)\<rparr>)" (is "sources_part m ?u")
proof -
  note i = next_id_nonzero [OF wf nz]
  have size: "new_size m ?u = Suc (new_size m u)" by (simp add: new_size_def)
  note part = sources_partD [OF wf]
  have key: "map_of (mu_by_path ?u) q = Some j \<longleftrightarrow> sm_size m < j \<and>
      map_option record_path (slot (mu_added ?u) (j - sm_size m)) = Some q" for q j
  proof (cases "j = Suc (new_size m u)")
    case True
    have no: "map_of (mu_by_path u) q \<noteq> Some j"
      using sources_part_id [OF wf, of q j] True by auto
    have "slot (mu_added ?u) (j - sm_size m) = Some \<lparr>record_id = mu_next_id u, record_path = p\<rparr>"
      by (simp add: True new_size_def slot_snoc Suc_diff_le)
    moreover have "map_of (mu_by_path ?u) q = Some j \<longleftrightarrow> q = p"
      using no fresh(1) i(2) True by (simp add: um_lookup_emplace)
    ultimately show ?thesis using True by (auto simp: new_size_def)
  next
    case False
    have "slot (mu_added ?u) (j - sm_size m) = slot (mu_added u) (j - sm_size m)"
      if "sm_size m < j" using that False by (auto simp: slot_snoc new_size_def)
    moreover have "map_of (mu_by_path ?u) q = Some j \<longleftrightarrow> map_of (mu_by_path u) q = Some j"
      using False i(2) fresh(1) by (simp add: um_lookup_emplace)
    ultimately show ?thesis using part(5) [of q j] by metis
  qed
  show ?thesis
  proof (rule sources_partI)
    show "new_size m ?u \<le> u32_max" unfolding size by (rule i(1))
    show "mu_next_id ?u = cast_u32 (new_size m ?u + 1)" unfolding size using i(2) by simp
    show "record_id (mu_added ?u ! k) = sm_size m + k + 1" if "k < length (mu_added ?u)" for k
      using part(3) [of k] that i(2)
      by (cases "k = length (mu_added u)") (simp_all add: nth_append new_size_def)
    show "um_wf (mu_by_path ?u)" using part(4) by simp
    show "map_of (sm_by_path m) q = None" if "map_of (mu_by_path ?u) q \<noteq> None" for q
      using part(6) [of q] that fresh by (cases "q = p") (simp_all add: um_lookup_emplace)
    show "root_source r \<in> {1..new_size m ?u}" if "r \<in> set (mu_roots ?u)" for r
      using part(7) [of r] that unfolding size by simp
  qed (rule key)
qed

lemma mu_wf_new_source:
  assumes wf: "mu_wf m u" and nz: "mu_next_id u \<noteq> 0"
    and fresh: "map_of (mu_by_path u) p = None" "map_of (sm_by_path m) p = None"
  shows "mu_wf m (u\<lparr>mu_by_path := um_emplace p (mu_next_id u) (mu_by_path u),
      mu_added := mu_added u @ [\<lparr>record_id = mu_next_id u, record_path = p\<rparr>],
      mu_next_id := cast_u32 (mu_next_id u + 1)\<rparr>)" (is "mu_wf m ?u")
proof -
  note parts = mu_wf_parts [OF wf]
  have size: "new_size m u \<le> new_size m ?u" by (simp add: new_size_def)
  have "sources_part m ?u" using parts(7) nz fresh by (rule sources_part_new)
  moreover have "physical_part m ?u" using parts(8) size by (rule physical_part_size) simp_all
  moreover have "includes_part m ?u" using parts(9) size by (rule includes_part_size) simp_all
  ultimately show ?thesis using parts by (simp add: mu_wf_def)
qed

text \<open>What resolving returns, and that it keeps the invariant.\<close>

lemma mu_resolve_cases:
  assumes "mu_resolve mem m u p role = (st, i, u')"
  obtains (error) e where "u' = u\<lparr>mu_failure := e\<rparr>" "st \<noteq> Ok"
  | (known) "map_of (mu_by_path u) p = Some i" "st = Ok" "u' = push_root i role u"
  | (committed) "map_of (sm_by_path m) p = Some i" "st = Ok" "u' = push_root i role u"
  | (fresh) "map_of (mu_by_path u) p = None" "map_of (sm_by_path m) p = None"
      "mu_next_id u \<noteq> 0" "st = Ok" "i = mu_next_id u"
      "u' = push_root i role (u\<lparr>mu_by_path := um_emplace p i (mu_by_path u),
            mu_added := mu_added u @ [\<lparr>record_id = i, record_path = p\<rparr>],
            mu_next_id := cast_u32 (i + 1)\<rparr>)"
proof -
  have keep: "u = u\<lparr>mu_failure := mu_failure u\<rparr>" by simp
  consider "mu_failure u \<noteq> Ok" | "mu_failure u = Ok" "mu_closed u"
    | "mu_failure u = Ok" "\<not> mu_closed u" "p = [] \<or> role = Role_project"
    | "mu_failure u = Ok" "\<not> mu_closed u" "\<not> (p = [] \<or> role = Role_project)" "\<not> mem"
    | "mu_failure u = Ok" "\<not> mu_closed u" "\<not> (p = [] \<or> role = Role_project)" "mem"
    by blast
  then show ?thesis
  proof cases
    case 1
    with assms have "u' = u" "st = mu_failure u" by (auto simp: mu_resolve_def)
    with 1 keep show ?thesis by (intro error [of "mu_failure u"]) simp_all
  next
    case 2
    with assms have "u' = u" "st = Invalid_state" by (simp_all add: mu_resolve_def)
    with keep show ?thesis by (intro error [of "mu_failure u"]) simp_all
  next
    case 3
    with assms have "u' = u\<lparr>mu_failure := Configuration_failed\<rparr>" "st = Configuration_failed"
      by (simp_all add: mu_resolve_def)
    then show ?thesis by (intro error) simp_all
  next
    case 4
    with assms have "u' = u\<lparr>mu_failure := Initialization_failed\<rparr>" "st = Initialization_failed"
      by (simp_all add: mu_resolve_def)
    then show ?thesis by (intro error) simp_all
  next
    case 5
    show ?thesis
    proof (cases "map_of (mu_by_path u) p")
      case (Some j)
      with 5 assms have "st = Ok" "i = j" "u' = push_root j role u" by (auto simp: mu_resolve_def)
      with Some show ?thesis by (intro known) simp_all
    next
      case None
      show ?thesis
      proof (cases "map_of (sm_by_path m) p")
        case (Some j)
        with 5 assms None have "st = Ok" "i = j" "u' = push_root j role u"
          by (auto simp: mu_resolve_def)
        with Some show ?thesis by (intro committed) simp_all
      next
        case none: None
        show ?thesis
        proof (cases "mu_next_id u = 0")
          case True
          with 5 assms None none have "u' = u\<lparr>mu_failure := Initialization_failed\<rparr>"
            "st = Initialization_failed" by (simp_all add: mu_resolve_def)
          then show ?thesis by (intro error) simp_all
        next
          case False
          with 5 assms None none show ?thesis
            by (intro fresh) (auto simp: mu_resolve_def Let_def)
        qed
      qed
    qed
  qed
qed

lemma mu_wf_push_root_size [simp]: "new_size m (push_root i role u) = new_size m u"
  by (simp add: push_root_def new_size_def)

lemma push_root_roots: "\<exists>roots. mu_roots (push_root i role u) = mu_roots u @ roots"
  by (simp add: push_root_def)

lemma mu_resolve_wf:
  assumes wf: "mu_wf m u" and run: "mu_resolve mem m u p role = (st, i, u')"
  shows "mu_wf m u'" "st = Ok \<Longrightarrow> i \<in> {1..new_size m u'}" "new_size m u \<le> new_size m u'"
    "\<exists>roots. mu_roots u' = mu_roots u @ roots"
proof -
  note parts = mu_wf_parts [OF wf]
  have "mu_wf m u' \<and> (st = Ok \<longrightarrow> i \<in> {1..new_size m u'}) \<and> new_size m u \<le> new_size m u' \<and>
    (\<exists>roots. mu_roots u' = mu_roots u @ roots)"
    using run
  proof (cases rule: mu_resolve_cases)
    case error
    with wf show ?thesis by (simp add: new_size_def)
  next
    case known
    have "i \<in> {1..new_size m u}" using sources_part_id [OF parts(7) known(1)] by simp
    with known mu_wf_push_root [OF wf] push_root_roots [of i role u] show ?thesis by simp
  next
    case committed
    have "i \<in> {1..new_size m u}"
      using slot_id [of record_path "sm_sources m" i p] sm_wf_path [OF parts(1), of p i] committed(1)
      by (simp add: new_size_def sm_size_def)
    with committed mu_wf_push_root [OF wf] push_root_roots [of i role u] show ?thesis by simp
  next
    case fresh
    let ?w = "u\<lparr>mu_by_path := um_emplace p i (mu_by_path u),
            mu_added := mu_added u @ [\<lparr>record_id = i, record_path = p\<rparr>],
            mu_next_id := cast_u32 (i + 1)\<rparr>"
    have size: "new_size m ?w = Suc (new_size m u)" by (simp add: new_size_def)
    have i: "i \<in> {1..new_size m ?w}"
      unfolding size using next_id_nonzero(2) [OF parts(7) fresh(3)] fresh(5) by simp
    have "mu_wf m ?w" using mu_wf_new_source [OF wf fresh(3,1,2)] unfolding fresh(5) .
    then have "mu_wf m u'" unfolding fresh(6) using i by (rule mu_wf_push_root)
    moreover have "new_size m u' = Suc (new_size m u)" unfolding fresh(6) by (simp add: size del: One_nat_def)
    moreover have "\<exists>roots. mu_roots u' = mu_roots u @ roots"
      unfolding fresh(6) using push_root_roots [of i role ?w] by simp
    ultimately show ?thesis using i size by simp
  qed
  then show "mu_wf m u'" "st = Ok \<Longrightarrow> i \<in> {1..new_size m u'}" "new_size m u \<le> new_size m u'"
    "\<exists>roots. mu_roots u' = mu_roots u @ roots" by blast+
qed

lemma mu_add_wf: "mu_wf m u \<Longrightarrow> mu_wf m (snd (mu_add mem m u p role))"
  using mu_resolve_wf(1) [of m u mem p role]
  by (cases "mu_resolve mem m u p role"; cases "fst (mu_resolve mem m u p role)")
    (simp_all add: mu_add_def)

lemma mu_resolve_include_wf:
  assumes "mu_wf m u"
  shows "mu_wf m (snd (snd (mu_resolve_include is_regular mem m u p)))"
proof (cases "is_regular p")
  case True
  obtain st i u' where run: "mu_resolve mem m u p Role_source = (st, i, u')"
    by (cases "mu_resolve mem m u p Role_source") auto
  note res = mu_resolve_wf [OF assms run]
  obtain roots where roots: "mu_roots u' = mu_roots u @ roots" using res(4) by blast
  have "root_source r \<in> {1..new_size m u'}" if "r \<in> set (mu_roots u)" for r
    using sources_partD(7) [OF mu_wf_parts(7) [OF res(1)], of r] that roots by simp
  then have "mu_wf m (u'\<lparr>mu_roots := mu_roots u\<rparr>)" using res(1) by (intro mu_wf_roots)
  with True run res(1) roots show ?thesis
    by (auto simp: mu_resolve_include_def split: status_code.splits)
qed (use assms in \<open>simp add: mu_resolve_include_def Let_def\<close>)

lemma mu_resolve_include_from_wf:
  assumes wf: "mu_wf m u"
  shows "mu_wf m (snd (snd (mu_resolve_include_from is_regular lexical_join mem m u i rel)))"
proof (cases "\<not> mu_contains_for_validation m u i \<or> rel = []")
  case True
  with wf show ?thesis by (simp add: mu_resolve_include_from_def)
next
  case False
  define r where "r = (case sm_find m i of
                   Some r \<Rightarrow> Some r
                 | None \<Rightarrow>
                     if i > length (sm_sources m)
                        \<and> i - length (sm_sources m) - 1 < length (mu_added u)
                     then Some (mu_added u ! (i - length (sm_sources m) - 1)) else None)"
  have eq: "mu_resolve_include_from is_regular lexical_join mem m u i rel =
     (case r of
        None \<Rightarrow> (Invalid_state, 0, u)
      | Some r' \<Rightarrow>
          if \<not> mem then
            (let u' = (if mu_failure u = Ok then u\<lparr>mu_failure := Initialization_failed\<rparr> else u)
             in (mu_failure u', 0, u'))
          else mu_resolve_include is_regular mem m u (lexical_join (record_path r') rel))"
    using False by (simp only: mu_resolve_include_from_def r_def Let_def if_False)
  show ?thesis
    unfolding eq using wf mu_resolve_include_wf [OF wf, of is_regular mem]
    by (cases r; cases mem) (simp_all add: Let_def)
qed

lemma mu_reserve_wf:
  assumes "mu_wf m u"
  shows "mu_wf m (snd (mu_reserve_initial_sources mem u n))"
proof -
  have "mu_wf m (u\<lparr>mu_positions := resize k 0 (mu_positions u)\<rparr>)" if "length (mu_positions u) < k" for k
  proof -
    let ?u = "u\<lparr>mu_positions := resize k 0 (mu_positions u)\<rparr>"
    have size: "new_size m ?u = new_size m u" by (simp add: new_size_def)
    note phys = physical_partD [OF mu_wf_parts(8) [OF assms]]
    have "changes_wf (mu_dense ?u) (mu_changes ?u, mu_positions ?u, mu_sparse ?u)"
      using phys(3) that by (simp add: changes_wf_def)
    then have "physical_part m ?u"
      using phys by (intro physical_partI) (simp_all add: size)
    moreover have "sources_part m ?u"
      by (rule sources_partI) (use sources_partD [OF mu_wf_parts(7) [OF assms]] in \<open>simp_all add: size\<close>)
    moreover have "includes_part m ?u"
      by (rule includes_part_size [OF mu_wf_parts(9) [OF assms]]) (simp_all add: size)
    ultimately show ?thesis using mu_wf_parts [OF assms] by (simp add: mu_wf_def)
  qed
  with assms show ?thesis by (simp add: mu_reserve_initial_sources_def Let_def)
qed

section \<open>Includes\<close>

lemma mu_record_slot:
  assumes wf: "mu_wf m u"
  shows "mu_record m u i = slot (sm_sources m @ mu_added u) i"
proof -
  note parts = mu_wf_parts [OF wf]
  show ?thesis
  proof (cases "i \<le> sm_size m")
    case True
    then show ?thesis
      by (simp add: mu_record_def sm_find_wf [OF parts(1)] slot_append sm_size_def split: option.splits)
  next
    case False
    define k where "k = i - sm_size m - 1"
    have i: "i = sm_size m + Suc k" using False by (simp add: k_def)
    have none: "sm_find m i = None"
      using False by (simp add: sm_find_wf [OF parts(1)] slot_def sm_size_def)
    have "slot (sm_sources m @ mu_added u) i = slot (mu_added u) (Suc k)"
      using False by (simp add: slot_append sm_size_def i)
    moreover have "mu_record m u i = slot (mu_added u) (Suc k)"
      using none sources_partD(3) [OF parts(7), of k] False
      by (simp add: mu_record_def i sm_size_def slot_Suc)
    ultimately show ?thesis by simp
  qed
qed

lemma mu_contains_iff:
  assumes wf: "mu_wf m u"
  shows "mu_contains_for_validation m u i \<longleftrightarrow> i \<in> {1..new_size m u}"
proof -
  note parts = mu_wf_parts [OF wf]
  have find: "sm_find m i = slot (sm_sources m) i" by (rule sm_find_wf [OF parts(1)])
  show ?thesis
  proof (cases "i \<le> sm_size m")
    case True
    then show ?thesis
      using parts(2-6) by (auto simp: mu_contains_for_validation_def find new_size_def sm_size_def
          slot_def split: option.splits)
  next
    case False
    define k where "k = i - sm_size m - 1"
    have i: "i = sm_size m + Suc k" using False by (simp add: k_def)
    have none: "sm_find m i = None" using False by (simp add: find slot_def sm_size_def)
    show ?thesis
      using none parts(2-6) sources_partD(3) [OF parts(7), of k]
      by (auto simp: mu_contains_for_validation_def i new_size_def sm_size_def Let_def)
  qed
qed

lemma unique_includes_Some:
  "unique_includes m u uniq is = Some r \<Longrightarrow>
     set r = set uniq \<union> set is \<and> (distinct uniq \<longrightarrow> distinct r) \<and>
     (\<forall>i\<in>set is. mu_contains_for_validation m u i)"
proof (induction "is" arbitrary: uniq)
  case (Cons i "is")
  then have "mu_contains_for_validation m u i"
    "unique_includes m u (if i \<in> set uniq then uniq else uniq @ [i]) is = Some r"
    by (auto split: if_splits)
  with Cons.IH [of "if i \<in> set uniq then uniq else uniq @ [i]"] show ?case
    by (auto split: if_splits)
qed simp

lemma unique_includes_None:
  "unique_includes m u uniq is = None \<longleftrightarrow> (\<exists>i\<in>set is. \<not> mu_contains_for_validation m u i)"
  by (induction "is" arbitrary: uniq) auto

lemma candidate_includes_set:
  "mu_candidate_includes m (u\<lparr>mu_includes := um_set v ws (mu_includes u), mu_graph_validated := g\<rparr>) =
   (mu_candidate_includes m u)(v := ws)"
  by (simp add: mu_candidate_includes_def fun_eq_iff um_lookup_set)

lemma mu_set_includes_cases:
  assumes "mu_set_includes mem m u v is = (st, u')"
  obtains (error) e where "u' = u\<lparr>mu_failure := e\<rparr>" "st \<noteq> Ok"
  | (ok) uniq where "unique_includes m u [] is = Some uniq" "mu_contains_for_validation m u v"
      "st = Ok" "u' = u\<lparr>mu_includes := um_set v uniq (mu_includes u), mu_graph_validated := False\<rparr>"
proof -
  consider "mu_failure u \<noteq> Ok"
    | "mu_failure u = Ok" "mu_committed u \<or> mu_prepared u \<or> \<not> mu_contains_for_validation m u v"
    | "mu_failure u = Ok" "\<not> (mu_committed u \<or> mu_prepared u \<or> \<not> mu_contains_for_validation m u v)"
    by blast
  then show ?thesis
  proof cases
    case 1
    with assms have "u' = u" "st = mu_failure u" by (auto simp: mu_set_includes_def)
    with 1 show ?thesis by (intro error [of "mu_failure u"]) simp_all
  next
    case 2
    with assms have "u' = u" "st = Invalid_state" by (simp_all add: mu_set_includes_def)
    then show ?thesis by (intro error [of "mu_failure u"]) simp_all
  next
    case 3
    show ?thesis
    proof (cases mem)
      case False
      with 3 assms have "u' = u\<lparr>mu_failure := Initialization_failed\<rparr>" "st = Initialization_failed"
        by (auto simp: mu_set_includes_def)
      then show ?thesis by (intro error) simp_all
    next
      case mem: True
      show ?thesis
      proof (cases "unique_includes m u [] is")
        case None
        with 3 mem assms have "u' = u\<lparr>mu_failure := Configuration_failed\<rparr>" "st = Configuration_failed"
          by (auto simp: mu_set_includes_def)
        then show ?thesis by (intro error) simp_all
      next
        case (Some uniq)
        with 3 mem assms show ?thesis by (intro ok [of uniq]) (auto simp: mu_set_includes_def)
      qed
    qed
  qed
qed

lemma mu_set_includes_wf:
  assumes wf: "mu_wf m u" and run: "mu_set_includes mem m u v is = (st, u')"
  shows "mu_wf m u'"
  using run
proof (cases rule: mu_set_includes_cases)
  case error
  with wf show ?thesis by simp
next
  case (ok uniq)
  note parts = mu_wf_parts [OF wf]
  have size: "new_size m u' = new_size m u" by (simp add: new_size_def ok(4))
  have v: "v \<in> {1..new_size m u}" "set uniq \<subseteq> {1..new_size m u}" "distinct uniq"
    using ok(2) unique_includes_Some [OF ok(1)] mu_contains_iff [OF wf] by auto
  have "includes_part m u'"
  proof (rule includes_partI)
    show "um_wf (mu_includes u')" using includes_partD(1) [OF parts(9)] by (simp add: ok(4))
    show "w \<in> {1..new_size m u'} \<and> set ws \<subseteq> {1..new_size m u'} \<and> distinct ws"
      if "map_of (mu_includes u') w = Some ws" for w ws
      using that v includes_partD(2) [OF parts(9), of w ws] unfolding size
      by (cases "w = v") (simp_all add: ok(4) um_lookup_set)
  qed (simp add: ok(4))
  moreover have "sources_part m u'"
    by (rule sources_partI) (use sources_partD [OF parts(7)] size in \<open>simp_all add: ok(4)\<close>)
  moreover have "physical_part m u'"
    by (rule physical_part_size [OF parts(8)]) (simp_all add: size, simp_all add: ok(4))
  ultimately show ?thesis using parts by (simp add: mu_wf_def ok(4))
qed

section \<open>Validating\<close>

lemma candidate_outside:
  assumes wf: "mu_wf m u" and i: "i \<notin> {1..new_size m u}"
  shows "mu_candidate_includes m u i = []"
proof -
  note parts = mu_wf_parts [OF wf]
  have "map_of (mu_includes u) i = None"
    using includes_partD(2) [OF parts(9), of i] i by (cases "map_of (mu_includes u) i") auto
  moreover have "i \<notin> {1..sm_size m}" using i by (auto simp: new_size_def)
  ultimately show ?thesis
    using sm_includes_of_outside [OF parts(1), of i] by (simp add: mu_candidate_includes_def)
qed

lemma candidate_closed:
  assumes wf: "mu_wf m u"
  shows "set (mu_candidate_includes m u i) \<subseteq> {1..new_size m u}" "distinct (mu_candidate_includes m u i)"
proof -
  note parts = mu_wf_parts [OF wf]
  have "{1..sm_size m} \<subseteq> {1..new_size m u}" by (auto simp: new_size_def)
  with sm_wf_includes [OF parts(1), of i]
  have old: "set (sm_includes_of m i) \<subseteq> {1..new_size m u}" "distinct (sm_includes_of m i)" by blast+
  show "set (mu_candidate_includes m u i) \<subseteq> {1..new_size m u}"
    using includes_partD(2) [OF parts(9), of i] old(1) parts(2)
    by (cases "map_of (mu_includes u) i") (simp_all add: mu_candidate_includes_def)
  show "distinct (mu_candidate_includes m u i)"
    using includes_partD(2) [OF parts(9), of i] old(2) parts(2)
    by (cases "map_of (mu_includes u) i") (simp_all add: mu_candidate_includes_def)
qed

lemma replaced_edges_iff:
  "um_wf d \<Longrightarrow> (p, c) \<in> set (replaced_edges d) \<longleftrightarrow> (\<exists>ws. map_of d p = Some ws \<and> c \<in> set ws)"
  by (force simp: replaced_edges_def um_wf_def)

lemma cycle_uses_committed:
  assumes rep: "\<And>p c. (p, c) \<in> E \<Longrightarrow> (p, c) \<notin> E0 \<Longrightarrow> (c, p) \<notin> E\<^sup>*"
    and "(v, w) \<in> E\<^sup>+" "(w, v) \<in> E\<^sup>*"
  shows "(v, w) \<in> E0\<^sup>+"
  using assms(2,3)
proof (induction rule: trancl_induct)
  case (base y)
  with rep show ?case by blast
next
  case (step y z)
  have "(y, v) \<in> E\<^sup>*" using step.hyps(2) step.prems by (rule converse_rtrancl_into_rtrancl)
  then have vy: "(v, y) \<in> E0\<^sup>+" by (rule step.IH)
  have "(z, y) \<in> E\<^sup>*" using step.prems step.hyps(1) by (meson rtrancl_trans trancl_into_rtrancl)
  then have "(y, z) \<in> E0" using rep step.hyps(2) by blast
  with vy show ?case by (rule trancl_into_trancl)
qed

lemma replaced_cycle_iff:
  assumes wf: "mu_wf m u"
  shows "acyclic (edges (mu_candidate_includes m u)) \<longleftrightarrow>
     (\<forall>(p, c)\<in>set (replaced_edges (mu_includes u)). (c, p) \<notin> (edges (mu_candidate_includes m u))\<^sup>*)"
    (is "acyclic ?E \<longleftrightarrow> ?no")
proof
  note parts = mu_wf_parts [OF wf]
  note iff = replaced_edges_iff [OF includes_partD(1) [OF parts(9)]]
  show ?no if ac: "acyclic ?E"
  proof (intro ballI, clarify)
    fix p c assume pc: "(p, c) \<in> set (replaced_edges (mu_includes u))" "(c, p) \<in> ?E\<^sup>*"
    have "(p, c) \<in> ?E" using pc(1) by (auto simp: iff mu_candidate_includes_def)
    with pc(2) have "(p, p) \<in> ?E\<^sup>+" by (meson rtrancl_into_trancl2)
    with ac show False by (simp add: acyclic_def)
  qed
  assume no: ?no
  show "acyclic ?E"
  proof (rule ccontr)
    assume "\<not> acyclic ?E"
    then obtain v where v: "(v, v) \<in> ?E\<^sup>+" by (auto simp: acyclic_def)
    have rep: "(c, p) \<notin> ?E\<^sup>*" if "(p, c) \<in> ?E" "(p, c) \<notin> edges (sm_includes_of m)" for p c
    proof -
      have "(p, c) \<in> set (replaced_edges (mu_includes u))"
        using that by (auto simp: iff mu_candidate_includes_def split: option.splits if_splits)
      with no show ?thesis by auto
    qed
    have "(v, v) \<in> (edges (sm_includes_of m))\<^sup>+"
      by (rule cycle_uses_committed [OF rep v rtrancl_refl])
    with sm_wf_acyclic [OF parts(1)] show False by (simp add: acyclic_def)
  qed
qed

definition validation_run ::
    "source_manager \<Rightarrow> source_manager_update \<Rightarrow> nat option option" where
  "validation_run m u =
     (let amount = length (sm_sources m) + length (mu_added u); inc = mu_candidate_includes m u
      in if sm_sources m = []
         then visit_sources (Suc (Suc amount)) inc [1..<Suc amount] (replicate (amount + 1) 0)
         else find_replaced_cycle inc (replaced_edges (mu_includes u)))"

lemma validation_run_spec:
  assumes wf: "mu_wf m u"
  shows "\<exists>r. validation_run m u = Some r \<and>
     (r = None \<longleftrightarrow> acyclic (edges (mu_candidate_includes m u)))"
proof -
  let ?inc = "mu_candidate_includes m u" and ?n = "new_size m u"
  have n: "length (sm_sources m) + length (mu_added u) = ?n" by (simp add: new_size_def sm_size_def)
  show ?thesis
  proof (cases "sm_sources m = []")
    case True
    have V: "set (?inc x) \<subseteq> {1..?n}" for x using candidate_closed(1) [OF wf] .
    have good: "dfs_good ?n ?inc (replicate (?n + 1) 0)"
      by (rule dfs_goodI) (auto simp del: replicate.simps)
    have "set [1..<Suc ?n] \<subseteq> {1..?n}" "\<forall>u<length (replicate (?n + 1) (0::nat)). replicate (?n + 1) 0 ! u \<noteq> (1::nat)"
      "zeros (replicate (?n + 1) 0) < Suc (Suc ?n)"
      by (auto simp del: replicate.simps)
    from visit_sources_post [OF V this(1) good this(2,3)]
    obtain r where r: "visit_sources (Suc (Suc ?n)) ?inc [1..<Suc ?n] (replicate (?n + 1) 0) = Some r"
      "case r of None \<Rightarrow> \<forall>v\<in>set [1..<Suc ?n]. (v, v) \<notin> (edges ?inc)\<^sup>+
       | Some v \<Rightarrow> v \<in> set [1..<Suc ?n] \<and> cyclic ?inc"
      by blast
    have "r = None \<longleftrightarrow> acyclic (edges ?inc)"
    proof (cases r)
      case None
      have "(v, v) \<notin> (edges ?inc)\<^sup>+" for v
        using trancl_source_in [of v v ?inc "{1..?n}"] candidate_outside [OF wf] r(2) None by auto
      with None show ?thesis by (simp add: acyclic_def)
    next
      case (Some v)
      with r(2) show ?thesis by (simp add: cyclic_acyclic)
    qed
    with r(1) True n show ?thesis by (simp add: validation_run_def Let_def del: replicate.simps upt_Suc)
  next
    case False
    have V: "closed_graph {1..?n} ?inc"
      using candidate_closed(1) [OF wf] by (auto simp: closed_graph_def)
    have es: "c \<in> {1..?n}" if pc: "(p, c) \<in> set (replaced_edges (mu_includes u))" for p c
    proof -
      note part = includes_partD [OF mu_wf_parts(9) [OF wf]]
      obtain ws where ws: "map_of (mu_includes u) p = Some ws" "c \<in> set ws"
        using pc unfolding replaced_edges_iff [OF part(1)] by blast
      from part(2) [OF ws(1)] have "set ws \<subseteq> {1..?n}" by (elim conjE)
      then show ?thesis using ws(2) by (rule subsetD)
    qed
    obtain r where *: "find_replaced_cycle ?inc (replaced_edges (mu_includes u)) = Some r"
      "case r of None \<Rightarrow> \<forall>(p, c)\<in>set (replaced_edges (mu_includes u)). (c, p) \<notin> (edges ?inc)\<^sup>*
       | Some p \<Rightarrow> \<exists>c. (p, c) \<in> set (replaced_edges (mu_includes u)) \<and> (c, p) \<in> (edges ?inc)\<^sup>*"
      using find_replaced_cycle_spec [OF V, of "replaced_edges (mu_includes u)"] es by blast
    have "r = None \<longleftrightarrow> acyclic (edges ?inc)"
      unfolding replaced_cycle_iff [OF wf] using *(2) by (cases r) auto
    with *(1) False show ?thesis by (simp add: validation_run_def Let_def)
  qed
qed

lemma mu_validate_run:
  "mu_failure u = Ok \<Longrightarrow> \<not> mu_closed u \<Longrightarrow> mu_validate_source_graph True emitted m u =
     (case validation_run m u of None \<Rightarrow> None
            | Some None \<Rightarrow> Some (Ok, u\<lparr>mu_graph_validated := True\<rparr>, [])
            | Some (Some source) \<Rightarrow>
                if \<not> emitted then
                  Some (Initialization_failed, u\<lparr>mu_failure := Initialization_failed\<rparr>, [])
                else
                  Some (Configuration_failed, u\<lparr>mu_failure := Configuration_failed\<rparr>, [source]))"
  by (simp add: mu_validate_source_graph_def validation_run_def Let_def)

lemma mu_validate_refused:
  "mu_failure u \<noteq> Ok \<Longrightarrow> mu_validate_source_graph mem emitted m u = Some (mu_failure u, u, [])"
  "mu_failure u = Ok \<Longrightarrow> mu_closed u \<Longrightarrow>
     mu_validate_source_graph mem emitted m u = Some (Invalid_state, u, [])"
  "mu_failure u = Ok \<Longrightarrow> \<not> mu_closed u \<Longrightarrow> mu_validate_source_graph False emitted m u =
     Some (Initialization_failed, u\<lparr>mu_failure := Initialization_failed\<rparr>, [])"
  by (simp_all only: mu_validate_source_graph_def simp_thms if_True if_False)

lemma mu_validate_wf:
  assumes wf: "mu_wf m u" and run: "mu_validate_source_graph mem emitted m u = Some (st, u', ds)"
  shows "mu_wf m u'"
proof (cases "mu_failure u = Ok \<and> \<not> mu_closed u \<and> mem")
  case False
  then consider "mu_failure u \<noteq> Ok" | "mu_failure u = Ok" "mu_closed u"
    | "mu_failure u = Ok" "\<not> mu_closed u" "mem = False" by blast
  then show ?thesis
  proof cases
    case 1
    with run have "u' = u" using mu_validate_refused(1) [of u mem emitted m] by simp
    with wf show ?thesis by simp
  next
    case 2
    with run have "u' = u" using mu_validate_refused(2) [of u mem emitted m] by simp
    with wf show ?thesis by simp
  next
    case 3
    with run have "u' = u\<lparr>mu_failure := Initialization_failed\<rparr>"
      using mu_validate_refused(3) [of u emitted m] by simp
    with wf show ?thesis by simp
  qed
next
  case True
  obtain r where r: "validation_run m u = Some r"
    "r = None \<longleftrightarrow> acyclic (edges (mu_candidate_includes m u))"
    using validation_run_spec [OF wf] by blast
  show ?thesis
  proof (cases r)
    case None
    let ?u = "u\<lparr>mu_graph_validated := True\<rparr>"
    note parts = mu_wf_parts [OF wf]
    have u': "u' = ?u" using run True r None mu_validate_run [of u emitted m] by simp
    have size: "new_size m ?u = new_size m u" by (simp add: new_size_def)
    have "includes_part m ?u"
    proof (rule includes_partI)
      show "um_wf (mu_includes ?u)" using includes_partD(1) [OF parts(9)] by simp
      show "w \<in> {1..new_size m ?u} \<and> set ws \<subseteq> {1..new_size m ?u} \<and> distinct ws"
        if "map_of (mu_includes ?u) w = Some ws" for w ws
        using that includes_partD(2) [OF parts(9), of w ws] unfolding size by simp
      show "acyclic (edges (mu_candidate_includes m ?u))" using r(2) None by simp
    qed
    moreover have "sources_part m ?u"
      by (rule sources_partI) (use sources_partD [OF parts(7)] in \<open>simp_all add: size\<close>)
    moreover have "physical_part m ?u"
      by (rule physical_part_size [OF parts(8)]) (simp_all add: size)
    ultimately show ?thesis using parts by (simp add: mu_wf_def u')
  next
    case (Some v)
    then have "u' = u\<lparr>mu_failure := Configuration_failed\<rparr> \<or> u' = u\<lparr>mu_failure := Initialization_failed\<rparr>"
      using run True r mu_validate_run [of u emitted m] by (cases emitted) simp_all
    with wf show ?thesis by (elim disjE) simp_all
  qed
qed

section \<open>Acquisition\<close>

text \<open>
  A job is current when its committed state and its baseline are those of the Source in
  the candidate; jobs of other Sources may be applied in between.
\<close>

definition job_current ::
    "source_manager \<Rightarrow> source_manager_update \<Rightarrow> source_acquire_job \<Rightarrow> bool" where
  "job_current m u job \<longleftrightarrow> (let i = job_source job in
     i \<in> {1..new_size m u} \<and>
     (case stored m i of
        None \<Rightarrow> \<not> job_has_committed job
      | Some s \<Rightarrow> job_has_committed job \<and> job_committed job = ps_state s) \<and>
     (case map_of (mu_physical u) i of
        Some d \<Rightarrow> job_has_baseline job \<and> job_baseline job = pd_state d
      | None \<Rightarrow> job_has_baseline job = job_has_committed job \<and>
                (job_has_committed job \<longrightarrow> job_baseline job = job_committed job)))"

lemma sm_get_physical_state_stored:
  "sm_wf m \<Longrightarrow> sm_get_physical_state m i =
     (case stored m i of None \<Rightarrow> (Invalid_state, None) | Some s \<Rightarrow> (Ok, Some (ps_state s)))"
  by (simp add: sm_get_physical_state_def sm_wf_stable stored_def split: option.splits)

lemma mu_prepare_acquire_current:
  assumes wf: "mu_wf m u" and run: "mu_prepare_acquire mem m u i = (Ok, job)"
  shows "job_current m u job \<and> job_source job = i"
proof -
  note parts = mu_wf_parts [OF wf]
  have guards: "mu_failure u = Ok" "i \<noteq> 0" "\<not> mu_closed u" "mem"
    using run by (auto simp: mu_prepare_acquire_def split: if_splits option.splits)
  obtain r where r: "mu_record m u i = Some r"
    using run guards by (auto simp: mu_prepare_acquire_def split: option.splits)
  have i: "i \<in> {1..new_size m u}"
    using r unfolding mu_record_slot [OF wf] by (auto simp: slot_Some_iff new_size_def sm_size_def)
  show ?thesis
    using run guards r i
    by (cases "stored m i"; cases "map_of (mu_physical u) i")
      (auto simp: mu_prepare_acquire_def sm_get_physical_state_stored [OF parts(1)] job_current_def
        new_job_def Let_def)
qed

lemma net_kind_job:
  "job_current m u job \<Longrightarrow>
   classify_change (job_has_committed job) (job_committed job) (pd_state d) = net_kind m (job_source job) d"
  by (auto simp: job_current_def Let_def net_kind_def classify_change_def split: option.splits)

lemma delta_ok_missing [simp]: "delta_ok m i missing_delta"
  by (simp add: delta_ok_def missing_delta_def)

lemma delta_ok_content [simp]: "delta_ok m i (content_delta result)"
  by (simp add: delta_ok_def content_delta_def Let_def)

lemma delta_ok_committed:
  "stored m i = Some s \<Longrightarrow> delta_ok m i (observation_delta (ps_state s) obs)"
  by (simp add: delta_ok_def observation_delta_def)

lemma delta_ok_observed:
  assumes "delta_ok m i d" "pd_replacement d = None"
  shows "delta_ok m i (observation_delta (pd_state d) obs)"
proof -
  obtain s where s: "stored m i = Some s"
    "pd_state d = (ps_state s)\<lparr>observation := observation (pd_state d)\<rparr>"
    using assms by (auto simp: delta_ok_def split: if_splits)
  have "(pd_state d)\<lparr>observation := obs\<rparr> = (ps_state s)\<lparr>observation := obs\<rparr>"
    by (subst s(2)) simp
  with s(1) show ?thesis by (simp add: delta_ok_def observation_delta_def)
qed

lemma delta_ok_refresh:
  "delta_ok m i d \<Longrightarrow> pd_replacement d = Some s \<Longrightarrow> delta_ok m i (refresh_delta d s obs)"
  by (auto simp: delta_ok_def refresh_delta_def split: if_splits)

lemma delta_ok_present:
  assumes wf: "mu_wf m u" and job: "job_current m u job" and base: "job_has_baseline job"
  shows "delta_ok m (job_source job) (present_delta u job result)"
proof (cases "map_of (mu_physical u) (job_source job)")
  case None
  then obtain s where "stored m (job_source job) = Some s" "job_baseline job = ps_state s"
    using job base by (auto simp: job_current_def Let_def split: option.splits)
  with None show ?thesis by (simp add: present_delta_def delta_ok_committed)
next
  case (Some d)
  have ok: "delta_ok m (job_source job) d"
    using physical_partD(2) [OF mu_wf_parts(8) [OF wf] Some] by blast
  have "job_baseline job = pd_state d" using job Some by (simp add: job_current_def Let_def)
  with Some ok show ?thesis
    by (cases "pd_replacement d") (simp_all add: present_delta_def delta_ok_observed delta_ok_refresh)
qed

lemma put_net_change_frame [simp]:
  "mu_owner (put_net_change i k u) = mu_owner u"
  "mu_added (put_net_change i k u) = mu_added u"
  "mu_roots (put_net_change i k u) = mu_roots u"
  "mu_by_path (put_net_change i k u) = mu_by_path u"
  "mu_physical (put_net_change i k u) = mu_physical u"
  "mu_includes (put_net_change i k u) = mu_includes u"
  "mu_next_id (put_net_change i k u) = mu_next_id u"
  "mu_base_generation (put_net_change i k u) = mu_base_generation u"
  "mu_failure (put_net_change i k u) = mu_failure u"
  "mu_committed (put_net_change i k u) = mu_committed u"
  "mu_prepared (put_net_change i k u) = mu_prepared u"
  "mu_graph_validated (put_net_change i k u) = mu_graph_validated u"
  "mu_g0_snapshot (put_net_change i k u) = mu_g0_snapshot u"
  "mu_dense (put_net_change i k u) = mu_dense u"
  "new_size m (put_net_change i k u) = new_size m u"
  by (simp_all add: put_net_change_def new_size_def split: prod.split)

lemma put_net_change_changes:
  "(mu_changes (put_net_change i k u), mu_positions (put_net_change i k u), mu_sparse (put_net_change i k u)) =
   set_net_change (mu_dense u) i k (mu_changes u, mu_positions u, mu_sparse u)"
  by (simp add: put_net_change_def split: prod.split)

lemma put_delta_frame [simp]:
  "mu_changes (put_delta i d u) = mu_changes u" "mu_positions (put_delta i d u) = mu_positions u"
  "mu_sparse (put_delta i d u) = mu_sparse u" "mu_dense (put_delta i d u) = mu_dense u"
  "mu_physical (put_delta i d u) = um_set i d (mu_physical u)"
  "mu_owner (put_delta i d u) = mu_owner u"
  "mu_added (put_delta i d u) = mu_added u"
  "mu_roots (put_delta i d u) = mu_roots u"
  "mu_by_path (put_delta i d u) = mu_by_path u"
  "mu_includes (put_delta i d u) = mu_includes u"
  "mu_next_id (put_delta i d u) = mu_next_id u"
  "mu_base_generation (put_delta i d u) = mu_base_generation u"
  "mu_failure (put_delta i d u) = mu_failure u"
  "mu_committed (put_delta i d u) = mu_committed u"
  "mu_prepared (put_delta i d u) = mu_prepared u"
  "mu_graph_validated (put_delta i d u) = mu_graph_validated u"
  "mu_g0_snapshot (put_delta i d u) = mu_g0_snapshot u"
  "new_size m (put_delta i d u) = new_size m u"
  by (simp_all add: put_delta_def new_size_def)

lemma changes_wf_indexed:
  "changes_wf dense s \<Longrightarrow> \<exists>pos. indexed pos (fst s)"
  by (auto simp: changes_wf_def split: prod.splits if_splits)

lemma put_delta_wf:
  assumes wf: "mu_wf m u" and i: "i \<in> {1..new_size m u}" and ok: "delta_ok m i d"
  shows "mu_wf m (put_net_change i (net_kind m i d) (put_delta i d u))" (is "mu_wf m ?u")
proof -
  note parts = mu_wf_parts [OF wf]
  note phys = physical_partD [OF parts(8)]
  let ?s = "(mu_changes u, mu_positions u, mu_sparse u)"
  have dom: "0 < j \<and> j \<le> new_size m u" if "change_map (mu_changes u) j \<noteq> None" for j
    using that phys(2) [of j] unfolding phys(4) by (cases "map_of (mu_physical u) j") auto
  obtain pos where "indexed pos (mu_changes u)" using changes_wf_indexed [OF phys(3)] by auto
  then have room: "length (fst ?s) < u32_max" if "change_map (fst ?s) i = None"
    using changes_room [of pos "mu_changes u" "new_size m u" i] dom that i sources_partD(1) [OF parts(7)]
    by simp
  have step1: "changes_wf (mu_dense u) (set_net_change (mu_dense u) i (net_kind m i d) ?s)"
    by (rule set_net_change_ok(1) [OF phys(3)]) (rule room)
  have step2: "change_map (fst (set_net_change (mu_dense u) i (net_kind m i d) ?s)) =
      (change_map (mu_changes u))(i := net_kind m i d)"
    using set_net_change_ok(2) [OF phys(3), of i "net_kind m i d"] room by simp
  have changes: "(mu_changes ?u, mu_positions ?u, mu_sparse ?u) =
      set_net_change (mu_dense u) i (net_kind m i d) ?s"
    by (simp add: put_net_change_changes)
  have new: "mu_changes ?u = fst (set_net_change (mu_dense u) i (net_kind m i d) ?s)"
    using arg_cong [OF changes, of fst] by simp
  have "physical_part m ?u"
  proof (rule physical_partI)
    show "um_wf (mu_physical ?u)" using phys(1) by simp
    show "j \<in> {1..new_size m ?u} \<and> delta_ok m j e" if "map_of (mu_physical ?u) j = Some e" for j e
      using that phys(2) [of j e] i ok by (cases "j = i") (simp_all add: um_lookup_set)
    show "changes_wf (mu_dense ?u) (mu_changes ?u, mu_positions ?u, mu_sparse ?u)"
      unfolding changes using step1 by simp
    show "change_map (mu_changes ?u) j = Option.bind (map_of (mu_physical ?u) j) (net_kind m j)" for j
      unfolding new step2 using phys(4) [of j] by (cases "j = i") (simp_all add: um_lookup_set)
  qed
  moreover have "sources_part m ?u"
    by (rule sources_partI) (use sources_partD [OF parts(7)] in simp_all)
  moreover have "includes_part m ?u"
    by (rule includes_part_size [OF parts(9)]) simp_all
  ultimately show ?thesis using parts by (simp add: mu_wf_def)
qed

lemma mu_apply_cases:
  assumes wf: "mu_wf m u" and job: "job_current m u job"
    and run: "mu_apply_acquire mem u job result = (st, u')"
  obtains (error) e where "u' = u\<lparr>mu_failure := e\<rparr>" "st \<noteq> Ok"
  | (same) "u' = u" "st = Ok"
  | (delta) d where "u' = put_net_change (job_source job) (net_kind m (job_source job) d)
        (put_delta (job_source job) d u)" "delta_ok m (job_source job) d" "st = Ok"
proof -
  let ?i = "job_source job"
  note def = mu_apply_acquire_def [of mem u job result]
  consider (failed) "mu_failure u \<noteq> Ok"
    | (closed) "mu_failure u = Ok" "?i = 0 \<or> res_source result \<noteq> ?i \<or> mu_closed u"
    | (ready) "mu_failure u = Ok" "\<not> (?i = 0 \<or> res_source result \<noteq> ?i \<or> mu_closed u)" by blast
  then show ?thesis
  proof cases
    case failed
    then have "u' = u" "st = mu_failure u" using run by (auto simp: def)
    with failed show ?thesis by (intro error [of "mu_failure u"]) simp_all
  next
    case closed
    then have "u' = u" "st = Invalid_state" using run by (auto simp: def)
    then show ?thesis by (intro error [of "mu_failure u"]) simp_all
  next
    case ready
    note go = def [unfolded if_not_P [OF not_not [THEN iffD2, OF ready(1)]] if_not_P [OF ready(2)]]
    have cls: "reclassify job d u = put_net_change ?i (net_kind m ?i d) (put_delta ?i d u)" for d
      by (simp add: reclassify_def net_kind_job [OF job])
    consider (unchanged) "res_kind result = Acquire_unchanged" | (gone) "res_kind result = Acquire_missing"
      | (here) "res_kind result = Acquire_present" by (cases "res_kind result")
    then show ?thesis
    proof cases
      case unchanged
      with run go show ?thesis by (intro same) auto
    next
      case gone
      consider "\<not> job_has_committed job"
        | "job_has_committed job" "job_has_baseline job \<and> presence (job_baseline job) = Missing"
        | "job_has_committed job" "\<not> (job_has_baseline job \<and> presence (job_baseline job) = Missing)" "\<not> mem"
        | "job_has_committed job" "\<not> (job_has_baseline job \<and> presence (job_baseline job) = Missing)" "mem"
        by blast
      then show ?thesis
      proof cases
        case 1
        with run go gone show ?thesis by (intro error [of Configuration_failed]) auto
      next
        case 2
        with run go gone show ?thesis by (intro same) auto
      next
        case 3
        with run go gone show ?thesis by (intro error [of Initialization_failed]) auto
      next
        case 4
        then have "u' = reclassify job missing_delta u" "st = Ok" using run go gone by auto
        then show ?thesis by (intro delta [of missing_delta]) (simp_all add: cls)
      qed
    next
      case here
      let ?c = "job_has_committed job \<and> presence (job_committed job) = Present
           \<and> content_hash (job_committed job) = res_hash result"
      let ?b = "job_has_baseline job \<and> presence (job_baseline job) = Present
           \<and> content_hash (job_baseline job) = res_hash result"
      consider "\<not> mem" | "mem" ?c | "mem" "\<not> ?c" ?b | "mem" "\<not> ?c" "\<not> ?b" by blast
      then show ?thesis
      proof cases
        case 1
        with run go here show ?thesis by (intro error [of Initialization_failed]) auto
      next
        case 2
        let ?d = "observation_delta (job_committed job) (res_observation result)"
        obtain s where s: "stored m ?i = Some s" "job_committed job = ps_state s"
          using job 2(2) by (auto simp: job_current_def Let_def split: option.splits)
        have kind: "net_kind m ?i ?d = None"
          using s 2(2) by (simp add: net_kind_def observation_delta_def)
        have "u' = put_net_change ?i None (put_delta ?i ?d u)" "st = Ok" using run go here 2 by auto
        with kind s show ?thesis by (intro delta [of ?d]) (simp_all add: delta_ok_committed)
      next
        case 3
        have "u' = reclassify job (present_delta u job result) u" "st = Ok" using run go here 3 by auto
        with delta_ok_present [OF wf job] 3(3) show ?thesis
          by (intro delta [of "present_delta u job result"]) (simp_all add: cls)
      next
        case 4
        have "u' = reclassify job (content_delta result) u" "st = Ok" using run go here 4 by auto
        then show ?thesis by (intro delta [of "content_delta result"]) (simp_all add: cls)
      qed
    qed
  qed
qed

lemma mu_apply_acquire_wf:
  assumes wf: "mu_wf m u" and job: "job_current m u job"
    and run: "mu_apply_acquire mem u job result = (st, u')"
  shows "mu_wf m u'"
  using wf job run
proof (cases rule: mu_apply_cases)
  case (delta d)
  have "job_source job \<in> {1..new_size m u}" using job by (simp add: job_current_def Let_def)
  with put_delta_wf [OF wf this delta(2)] delta(1) show ?thesis by simp
qed (use wf in simp_all)

section \<open>The steps of a build\<close>

text \<open>
  What a build may do to an open candidate, in any order: add roots, resolve includes,
  replace include lists, apply finished acquisition jobs, validate the graph. Every
  outcome of an operation is a step, the failures included.
\<close>

inductive mu_step :: "source_manager \<Rightarrow> source_manager_update \<Rightarrow> source_manager_update \<Rightarrow> bool"
  for m :: source_manager where
  step_reserve: "mu_step m u (snd (mu_reserve_initial_sources mem u n))"
| step_add: "mu_step m u (snd (mu_add mem m u p role))"
| step_include: "mu_step m u (snd (snd (mu_resolve_include is_regular mem m u p)))"
| step_include_from:
    "mu_step m u (snd (snd (mu_resolve_include_from is_regular lexical_join mem m u i rel)))"
| step_set_includes: "mu_set_includes mem m u v is = (st, u') \<Longrightarrow> mu_step m u u'"
| step_apply: "job_current m u job \<Longrightarrow> mu_apply_acquire mem u job result = (st, u') \<Longrightarrow> mu_step m u u'"
| step_validate: "mu_validate_source_graph mem emitted m u = Some (st, u', ds) \<Longrightarrow> mu_step m u u'"

definition candidate_of :: "source_manager \<Rightarrow> source_manager_update \<Rightarrow> bool" where
  "candidate_of m u \<longleftrightarrow> (mu_step m)\<^sup>*\<^sup>* (sm_begin_update m) u"

lemma mu_step_wf: "mu_step m u u' \<Longrightarrow> mu_wf m u \<Longrightarrow> mu_wf m u'"
proof (induction rule: mu_step.induct)
  case step_include_from
  then show ?case by (rule mu_resolve_include_from_wf)
next
  case step_set_includes
  then show ?case by (rule mu_set_includes_wf [rotated])
next
  case step_apply
  then show ?case using mu_apply_acquire_wf by blast
next
  case step_validate
  then show ?case by (rule mu_validate_wf [rotated])
qed (simp_all add: mu_reserve_wf mu_add_wf mu_resolve_include_wf)

lemma candidate_of_wf:
  assumes "sm_wf m" "candidate_of m u"
  shows "mu_wf m u"
  using assms(2) unfolding candidate_of_def
  by (induction rule: rtranclp_induct) (auto intro: mu_wf_begin [OF assms(1)] mu_step_wf)


end
