(* ===== verification/SourcePublish.thy ===== *)
theory SourcePublish
  imports SourceUpdate
begin

text \<open>
  Publication of a Source Manager update. Both forms, the bulk construction of the first
  generation and the incremental one, are shown to publish the same thing: the committed
  tables become what the candidate showed. The properties of the Source Manager follow.
\<close>

section \<open>Writing rows\<close>

lemma slot_swap_edges:
  "um_wf es \<Longrightarrow> (\<And>i vs. map_of es i = Some vs \<Longrightarrow> i \<in> {1..length E}) \<Longrightarrow>
   length (swap_edges es E) = length E \<and>
   slot (swap_edges es E) j = (case map_of es j of Some vs \<Rightarrow> Some vs | None \<Rightarrow> slot E j)"
proof (induction es arbitrary: E)
  case (Cons e es)
  obtain i vs where e: "e = (i, vs)" by force
  have i: "0 < i" "i \<le> length E" using Cons.prems(2) [of i vs] by (simp_all add: e)
  have wf: "um_wf es" and new: "map_of es i = None"
    using Cons.prems(1) by (simp_all add: um_wf_def e map_of_eq_None_iff)
  have keys: "k \<in> {1..length (E[i - 1 := vs])}" if "map_of es k = Some ws" for k ws
    using Cons.prems(2) [of k ws] that new by (cases "k = i") (simp_all add: e)
  have "length (swap_edges es (E[i - 1 := vs])) = length E"
    "slot (swap_edges es (E[i - 1 := vs])) j =
       (case map_of es j of Some vs \<Rightarrow> Some vs | None \<Rightarrow> slot (E[i - 1 := vs]) j)"
    using Cons.IH [OF wf keys] by simp_all
  with new slot_update [OF i, of vs j] show ?case
    by (cases "j = i"; cases "map_of es j") (simp_all add: e)
qed simp

definition swapped :: "source_physical_delta \<Rightarrow> source_physical_storage option \<Rightarrow> source_physical_storage option" where
  "swapped d old =
     (if pd_observation_only d then
        map_option (\<lambda>s. s\<lparr>ps_state := (ps_state s)\<lparr>observation := observation (pd_state d)\<rparr>\<rparr>) old
      else pd_replacement d)"

lemma slot_swap_physical:
  "um_wf es \<Longrightarrow> (\<And>i d. map_of es i = Some d \<Longrightarrow> i \<in> {1..length P}) \<Longrightarrow>
   length (swap_physical es P) = length P \<and>
   slot (swap_physical es P) j =
     (case map_of es j of Some d \<Rightarrow> Some (swapped d (P ! (j - 1))) | None \<Rightarrow> slot P j)"
proof (induction es arbitrary: P)
  case (Cons e es)
  obtain i d where e: "e = (i, d)" by force
  have i: "0 < i" "i \<le> length P" using Cons.prems(2) [of i d] by (simp_all add: e)
  have wf: "um_wf es" and new: "map_of es i = None"
    using Cons.prems(1) by (simp_all add: um_wf_def e map_of_eq_None_iff)
  let ?P = "P[i - 1 := swapped d (P ! (i - 1))]"
  have eq: "swap_physical (e # es) P = swap_physical es ?P" by (simp add: e swapped_def)
  have keys: "k \<in> {1..length ?P}" if "map_of es k = Some f" for k f
    using Cons.prems(2) [of k f] that new by (cases "k = i") (simp_all add: e)
  have other: "?P ! (j - 1) = P ! (j - 1)" if "j \<noteq> i" "map_of es j = Some f" for f
    using keys [OF that(2)] that(1) i by (cases j) auto
  have "length (swap_physical es ?P) = length P"
    "slot (swap_physical es ?P) j =
       (case map_of es j of Some d \<Rightarrow> Some (swapped d (?P ! (j - 1))) | None \<Rightarrow> slot ?P j)"
    using Cons.IH [OF wf keys] by simp_all
  with new other slot_update [OF i, of "swapped d (P ! (i - 1))" j] show ?case
    unfolding eq by (cases "j = i"; cases "map_of es j") (simp_all add: e)
qed simp

lemma slot_place_includes:
  "place_includes n es E = Some E' \<Longrightarrow> um_wf es \<Longrightarrow> length E = n \<Longrightarrow>
   length E' = n \<and>
   slot E' j = (case map_of es j of Some vs \<Rightarrow> Some vs | None \<Rightarrow> slot E j)"
proof (induction es arbitrary: E)
  case (Cons e es)
  obtain i vs where e: "e = (i, vs)" by force
  have i: "0 < i" "i \<le> length E" and run: "place_includes n es (E[i - 1 := vs]) = Some E'"
    using Cons.prems(1,3) by (simp_all add: e split: if_splits)
  have wf: "um_wf es" and new: "map_of es i = None"
    using Cons.prems(2) by (simp_all add: um_wf_def e map_of_eq_None_iff)
  have "length E' = n"
    "slot E' j = (case map_of es j of Some vs \<Rightarrow> Some vs | None \<Rightarrow> slot (E[i - 1 := vs]) j)"
    using Cons.IH [OF run wf] Cons.prems(3) by simp_all
  with new slot_update [OF i, of vs j] show ?case
    by (cases "j = i"; cases "map_of es j") (simp_all add: e)
qed simp

lemma slot_place_physical:
  "place_physical n es P = Some P' \<Longrightarrow> um_wf es \<Longrightarrow> length P = n \<Longrightarrow>
   length P' = n \<and>
   slot P' j = (case map_of es j of Some d \<Rightarrow> Some (pd_replacement d) | None \<Rightarrow> slot P j) \<and>
   (\<forall>d. map_of es j = Some d \<longrightarrow> \<not> pd_observation_only d)"
proof (induction es arbitrary: P)
  case (Cons e es)
  obtain i d where e: "e = (i, d)" by force
  obtain s where i: "0 < i" "i \<le> length P" and s: "pd_replacement d = Some s"
    and nobs: "\<not> pd_observation_only d"
    and run: "place_physical n es (P[i - 1 := Some s]) = Some P'"
    using Cons.prems(1,3) by (auto simp: e split: if_splits option.splits)
  have wf: "um_wf es" and new: "map_of es i = None"
    using Cons.prems(2) by (simp_all add: um_wf_def e map_of_eq_None_iff)
  have "length P' = n"
    "slot P' j = (case map_of es j of Some d \<Rightarrow> Some (pd_replacement d) | None \<Rightarrow> slot (P[i - 1 := Some s]) j)"
    "\<forall>d. map_of es j = Some d \<longrightarrow> \<not> pd_observation_only d"
    using Cons.IH [OF run wf] Cons.prems(3) by simp_all
  with new slot_update [OF i, of "Some s" j] s nobs show ?case
    by (cases "j = i"; cases "map_of es j") (simp_all add: e)
qed simp

definition row :: "nat list list \<Rightarrow> nat \<Rightarrow> nat list" where
  "row E i = (case slot E i of None \<Rightarrow> [] | Some vs \<Rightarrow> vs)"

lemma row_update: "0 < j \<Longrightarrow> j \<le> length E \<Longrightarrow> row (E[j - 1 := vs]) i = (if i = j then vs else row E i)"
  using slot_update [of j E vs i] by (simp add: row_def)

lemma row_nth: "0 < j \<Longrightarrow> j \<le> length E \<Longrightarrow> row E j = E ! (j - 1)"
  by (simp add: row_def slot_def)

lemma place_dependents_of_row:
  "place_dependents_of n p cs E = Some E' \<Longrightarrow> distinct cs \<Longrightarrow> length E = n \<Longrightarrow>
   length E' = n \<and> row E' w = row E w @ (if w \<in> set cs then [p] else [])"
proof (induction cs arbitrary: E)
  case (Cons c cs)
  have c: "0 < c" "c \<le> length E"
    and run: "place_dependents_of n p cs (E[c - 1 := E ! (c - 1) @ [p]]) = Some E'"
    using Cons.prems(1,3) by (simp_all split: if_splits)
  have "length E' = n" "row E' w = row (E[c - 1 := E ! (c - 1) @ [p]]) w @ (if w \<in> set cs then [p] else [])"
    using Cons.IH [OF run] Cons.prems(2,3) by simp_all
  with row_update [OF c, of "E ! (c - 1) @ [p]" w] row_nth [OF c] Cons.prems(2) show ?case by auto
qed simp

lemma place_dependents_row:
  "place_dependents n includes ps E = Some E' \<Longrightarrow> (\<And>p. p \<in> set ps \<Longrightarrow> distinct (includes ! (p - 1))) \<Longrightarrow>
   length E = n \<Longrightarrow>
   length E' = n \<and> row E' w = row E w @ filter (\<lambda>p. w \<in> set (includes ! (p - 1))) ps"
proof (induction ps arbitrary: E)
  case (Cons p ps)
  obtain E1 where one: "place_dependents_of n p (includes ! (p - 1)) E = Some E1"
    and rest: "place_dependents n includes ps E1 = Some E'"
    using Cons.prems(1) by (auto split: option.splits)
  have "length E1 = n" "row E1 w = row E w @ (if w \<in> set (includes ! (p - 1)) then [p] else [])"
    using place_dependents_of_row [OF one] Cons.prems(2,3) by simp_all
  with Cons.IH [OF rest] Cons.prems(2) show ?case by simp
qed simp

section \<open>The changed dependent lists\<close>

lemma entry_set [simp]:
  "dependents_entry m c (um_set child vs P) = (if c = child then vs else dependents_entry m c P)"
  by (simp add: dependents_entry_def um_lookup_set)

lemma drop_dependents_entry:
  "dependents_entry m c (drop_dependents m parent repl old P) =
     (if c \<in> set old \<and> c \<notin> set repl then filter (\<lambda>d. d \<noteq> parent) (dependents_entry m c P)
      else dependents_entry m c P)"
  by (induction old arbitrary: P) auto

lemma add_dependents_entry:
  "dependents_entry m c (add_dependents m parent old repl P) =
     (if c \<in> set repl \<and> c \<notin> set old \<and> parent \<notin> set (dependents_entry m c P)
      then dependents_entry m c P @ [parent] else dependents_entry m c P)"
  by (induction repl arbitrary: P) (auto simp: Let_def)

lemma drop_dependents_dom:
  "dom (map_of (drop_dependents m parent repl old P)) \<subseteq> dom (map_of P) \<union> set old"
  by (induction old arbitrary: P) (fastforce simp: um_lookup_set split: if_splits)+

lemma add_dependents_dom:
  "dom (map_of (add_dependents m parent old repl P)) \<subseteq> dom (map_of P) \<union> set repl"
  by (induction repl arbitrary: P) (fastforce simp: um_lookup_set Let_def split: if_splits)+

lemma drop_dependents_um_wf: "um_wf P \<Longrightarrow> um_wf (drop_dependents m parent repl old P)"
  by (induction old arbitrary: P) auto

lemma add_dependents_um_wf: "um_wf P \<Longrightarrow> um_wf (add_dependents m parent old repl P)"
  by (induction repl arbitrary: P) (auto simp: Let_def)

text \<open>The entries describe the reverse of an include function.\<close>

definition reverse_of ::
    "source_manager \<Rightarrow> (nat \<Rightarrow> nat list) \<Rightarrow> (nat, nat list) umap \<Rightarrow> bool" where
  "reverse_of m inc P \<longleftrightarrow> um_wf P \<and>
     (\<forall>c. distinct (dependents_entry m c P) \<and> set (dependents_entry m c P) = {v. c \<in> set (inc v)})"

lemma reverse_of_step:
  assumes P: "reverse_of m inc P" and old: "inc parent = old"
  shows "reverse_of m (inc(parent := repl))
     (add_dependents m parent old repl (drop_dependents m parent repl old P))"
proof -
  let ?D = "drop_dependents m parent repl old P"
  have e: "distinct (dependents_entry m c P)" "set (dependents_entry m c P) = {v. c \<in> set (inc v)}" for c
    using P by (simp_all add: reverse_of_def)
  have d: "distinct (dependents_entry m c ?D)"
    "set (dependents_entry m c ?D) =
       {v. c \<in> set (inc v) \<and> (v = parent \<longrightarrow> c \<in> set repl)}" for c
    using e [of c] old by (auto simp: drop_dependents_entry)
  have "distinct (dependents_entry m c (add_dependents m parent old repl ?D))"
    "set (dependents_entry m c (add_dependents m parent old repl ?D)) =
       {v. c \<in> set ((inc(parent := repl)) v)}" for c
    unfolding add_dependents_entry using d [of c] old by auto
  with P show ?thesis
    by (simp add: reverse_of_def add_dependents_um_wf drop_dependents_um_wf)
qed

lemma prepare_dependents_reverse:
  "reverse_of m inc P \<Longrightarrow> um_wf delta \<Longrightarrow> (\<And>p. map_of delta p \<noteq> None \<Longrightarrow> inc p = sm_includes_of m p) \<Longrightarrow>
   reverse_of m (\<lambda>v. case map_of delta v of Some ws \<Rightarrow> ws | None \<Rightarrow> inc v) (prepare_dependents m delta P)"
proof (induction delta arbitrary: P inc)
  case (Cons e delta)
  obtain p ws where e: "e = (p, ws)" by force
  have wf: "um_wf delta" and new: "map_of delta p = None"
    using Cons.prems(2) by (simp_all add: um_wf_def e map_of_eq_None_iff)
  have "inc p = sm_includes_of m p" using Cons.prems(3) [of p] by (simp add: e dom_def)
  then have step: "reverse_of m (inc(p := ws))
     (add_dependents m p (sm_includes_of m p) ws (drop_dependents m p ws (sm_includes_of m p) P))"
    using reverse_of_step [OF Cons.prems(1)] by simp
  have "(inc(p := ws)) q = sm_includes_of m q" if "map_of delta q \<noteq> None" for q
    using that new Cons.prems(3) [of q] by (auto simp: e)
  note IH = Cons.IH [OF step wf this]
  have "(\<lambda>v. case map_of delta v of Some ws \<Rightarrow> ws | None \<Rightarrow> (inc(p := ws)) v) =
      (\<lambda>v. case map_of (e # delta) v of Some ws \<Rightarrow> ws | None \<Rightarrow> inc v)"
    using new by (auto simp: e fun_eq_iff split: option.split)
  with IH show ?case by (simp add: e)
qed simp

lemma prepare_dependents_dom:
  assumes "\<And>p. map_of delta p \<noteq> None \<Longrightarrow> set (sm_includes_of m p) \<subseteq> V"
    and "\<And>p ws. (p, ws) \<in> set delta \<Longrightarrow> set ws \<subseteq> V" and "dom (map_of P) \<subseteq> V"
  shows "dom (map_of (prepare_dependents m delta P)) \<subseteq> V"
  using assms
proof (induction delta arbitrary: P)
  case (Cons e delta)
  obtain p ws where e: "e = (p, ws)" by force
  have p: "set (sm_includes_of m p) \<subseteq> V" using Cons.prems(1) [of p] by (simp add: e dom_def)
  have ws: "set ws \<subseteq> V" using Cons.prems(2) [of p ws] by (simp add: e)
  let ?P = "add_dependents m p (sm_includes_of m p) ws (drop_dependents m p ws (sm_includes_of m p) P)"
  have "dom (map_of ?P) \<subseteq> V"
    using add_dependents_dom drop_dependents_dom p ws Cons.prems(3) by (meson Un_least subset_trans)
  moreover have "set (sm_includes_of m q) \<subseteq> V" if "map_of delta q \<noteq> None" for q
    using Cons.prems(1) [of q] that by (auto simp: e)
  moreover have "set xs \<subseteq> V" if "(q, xs) \<in> set delta" for q xs
    using Cons.prems(2) [of q xs] that by simp
  ultimately have "dom (map_of (prepare_dependents m delta ?P)) \<subseteq> V" by (intro Cons.IH)
  then show ?case by (simp add: e)
qed simp

section \<open>What a publication shows\<close>

definition merged_path :: "source_manager \<Rightarrow> source_manager_update \<Rightarrow> path \<Rightarrow> nat option" where
  "merged_path m u p =
     (case map_of (sm_by_path m) p of Some i \<Rightarrow> Some i | None \<Rightarrow> map_of (mu_by_path u) p)"

definition candidate_stored ::
    "source_manager \<Rightarrow> source_manager_update \<Rightarrow> nat \<Rightarrow> source_physical_storage option" where
  "candidate_stored m u i =
     (case map_of (mu_physical u) i of Some d \<Rightarrow> swapped d (stored m i) | None \<Rightarrow> stored m i)"

definition published :: "source_manager \<Rightarrow> source_manager_update \<Rightarrow> source_manager \<Rightarrow> bool" where
  "published m u m' \<longleftrightarrow>
     sm_stable m' = None \<and> sm_sources m' = sm_sources m @ mu_added u \<and>
     sm_next_id m' = mu_next_id u \<and> sm_generation m' = sm_generation m + 1 \<and>
     um_wf (sm_by_path m') \<and> (\<forall>p. map_of (sm_by_path m') p = merged_path m u p) \<and>
     length (sm_physical m') = new_size m u \<and> length (sm_includes m') = new_size m u \<and>
     length (sm_dependents m') = new_size m u \<and>
     (\<forall>i. stored m' i = candidate_stored m u i) \<and>
     (\<forall>v. sm_includes_of m' v = mu_candidate_includes m u v) \<and>
     (\<forall>w. distinct (sm_dependents_of m' w) \<and>
          set (sm_dependents_of m' w) = {v. w \<in> set (mu_candidate_includes m u v)}) \<and>
     set (sm_roots m') \<subseteq> set (sm_roots m) \<union> set (mu_roots u)"

lemma sm_rows: "sm_includes_of m i = row (sm_includes m) i" "sm_dependents_of m i = row (sm_dependents m) i"
  by (simp_all add: sm_includes_of_def sm_dependents_of_def row_def)

lemma slot_resize:
  "slot (resize n d xs) i = (if i \<le> n \<and> i \<le> length xs then slot xs i else if 0 < i \<and> i \<le> n then Some d else None)"
  by (cases i) (auto simp: slot_Suc nth_resize)

lemma row_resize: "length E \<le> n \<Longrightarrow> row (resize n [] E) i = row E i"
  by (auto simp: row_def slot_resize slot_def nth_resize)

lemma candidate_row:
  assumes wf: "mu_wf m u"
  shows "mu_candidate_includes m u v =
     (case map_of (mu_includes u) v of Some ws \<Rightarrow> ws | None \<Rightarrow> sm_includes_of m v)"
  using mu_wf_parts(2) [OF wf] by (simp add: mu_candidate_includes_def split: option.split)

lemma publish_incremental_published:
  assumes wf: "mu_wf m u"
  defines "u1 \<equiv> u\<lparr>mu_dependents := prepare_dependents m (mu_includes u) [], mu_prepared := True\<rparr>"
  shows "published m u (fst (publish_incremental m u1))"
proof -
  note parts = mu_wf_parts [OF wf]
  note len = sm_wf_lengths [OF parts(1)]
  let ?n = "new_size m u" and ?m = "fst (publish_incremental m u1)"
  let ?P = "prepare_dependents m (mu_includes u) []"
  have n: "length (sm_sources m) + length (mu_added u) = ?n" by (simp add: new_size_def sm_size_def)
  have le: "sm_size m \<le> ?n" by (simp add: new_size_def)
  note inc = includes_partD [OF parts(9)] and phys = physical_partD [OF parts(8)]
  have inc_len: "i \<in> {1..length (resize ?n [] (sm_includes m))}"
    if "map_of (mu_includes u) i = Some ws" for i ws
    using inc(2) [OF that] by simp
  have "reverse_of m (sm_includes_of m) []"
    using sm_wf_dependents [OF parts(1)] sm_wf_dependents_distinct [OF parts(1)]
    by (auto simp: reverse_of_def dependents_entry_def)
  then have "reverse_of m (\<lambda>v. case map_of (mu_includes u) v of Some ws \<Rightarrow> ws | None \<Rightarrow> sm_includes_of m v) ?P"
    using inc(1) by (rule prepare_dependents_reverse) simp
  then have rev: "reverse_of m (mu_candidate_includes m u) ?P"
    unfolding candidate_row [OF wf, abs_def] .
  have "dom (map_of ?P) \<subseteq> {1..?n}"
  proof (rule prepare_dependents_dom)
    show "set (sm_includes_of m p) \<subseteq> {1..?n}" for p
      using sm_wf_includes [OF parts(1), of p] le by auto
    show "set ws \<subseteq> {1..?n}" if "(p, ws) \<in> set (mu_includes u)" for p ws
      using inc(2) [of p ws] inc(1) that by (simp add: um_wf_def)
  qed simp
  then have dep_len: "i \<in> {1..length (resize ?n [] (sm_dependents m))}" if "map_of ?P i = Some vs" for i vs
    using that by auto
  have phys_len: "i \<in> {1..length (resize ?n None (sm_physical m))}"
    if "map_of (mu_physical u) i = Some d" for i d
    using phys(2) [OF that] by simp
  have eqs: "sm_includes ?m = swap_edges (mu_includes u) (resize ?n [] (sm_includes m))"
    "sm_dependents ?m = swap_edges ?P (resize ?n [] (sm_dependents m))"
    "sm_physical ?m = swap_physical (mu_physical u) (resize ?n None (sm_physical m))"
    by (simp_all add: publish_incremental_def u1_def n Let_def)
  have wfP: "um_wf ?P" using rev by (simp add: reverse_of_def)
  have E: "length (sm_includes ?m) = ?n \<and> slot (sm_includes ?m) j =
      (case map_of (mu_includes u) j of Some vs \<Rightarrow> Some vs | None \<Rightarrow> slot (resize ?n [] (sm_includes m)) j)" for j
    unfolding eqs by (subst (2) length_resize [symmetric, of ?n "[]" "sm_includes m"])
      (rule slot_swap_edges [OF inc(1)], erule inc_len)
  have D: "length (sm_dependents ?m) = ?n \<and> slot (sm_dependents ?m) j =
      (case map_of ?P j of Some vs \<Rightarrow> Some vs | None \<Rightarrow> slot (resize ?n [] (sm_dependents m)) j)" for j
    unfolding eqs by (subst (2) length_resize [symmetric, of ?n "[]" "sm_dependents m"])
      (rule slot_swap_edges [OF wfP], erule dep_len)
  have S: "length (sm_physical ?m) = ?n \<and> slot (sm_physical ?m) j =
      (case map_of (mu_physical u) j of
         Some d \<Rightarrow> Some (swapped d (resize ?n None (sm_physical m) ! (j - 1)))
       | None \<Rightarrow> slot (resize ?n None (sm_physical m)) j)" for j
    unfolding eqs by (subst (2) length_resize [symmetric, of ?n None "sm_physical m"])
      (rule slot_swap_physical [OF phys(1)], erule phys_len)
  have incl: "sm_includes_of ?m v = mu_candidate_includes m u v" for v
    using E [of v] row_resize [of "sm_includes m" ?n v] len le
    by (cases "map_of (mu_includes u) v")
      (simp_all add: candidate_row [OF wf] sm_rows row_def)
  have "sm_dependents_of ?m w = dependents_entry m w ?P" for w
    using D [of w] row_resize [of "sm_dependents m" ?n w] len le
    by (cases "map_of ?P w") (simp_all add: dependents_entry_def sm_rows row_def)
  then have dependents: "distinct (sm_dependents_of ?m w) \<and>
      set (sm_dependents_of ?m w) = {v. w \<in> set (mu_candidate_includes m u v)}" for w
    using rev by (simp add: reverse_of_def)
  have physical: "stored ?m i = candidate_stored m u i" for i
  proof (cases "map_of (mu_physical u) i")
    case None
    then show ?thesis
      using S [of i] len le
      by (auto simp: stored_def candidate_stored_def slot_resize slot_def nth_resize)
  next
    case (Some d)
    then have i: "0 < i" "i \<le> ?n" using phys(2) [OF Some] by auto
    have "stored m i = resize ?n None (sm_physical m) ! (i - 1)"
      using i len le by (auto simp: stored_def slot_def nth_resize split: option.split)
    then show ?thesis
      using S [of i] Some by (simp add: stored_def candidate_stored_def split: option.split)
  qed
  have path: "um_wf (sm_by_path ?m)" "map_of (sm_by_path ?m) p = merged_path m u p" for p
    using parts(1) by (simp_all add: publish_incremental_def u1_def Let_def um_lookup_merge merged_path_def
        sm_wf_def split: option.split)
  show ?thesis
    unfolding published_def using incl dependents physical path E D S
    by (simp add: publish_incremental_def u1_def Let_def sm_wf_stable [OF parts(1)])
qed

lemma mu_prepare_g0_Ok:
  assumes "mu_prepare_g0 u = (Ok, u1)"
  obtains physical inc dep where
    "place_physical (length (mu_added u)) (mu_physical u) (replicate (length (mu_added u)) None) = Some physical"
    "dense_universe (mu_added u) physical"
    "place_includes (length (mu_added u)) (mu_includes u) (replicate (length (mu_added u)) []) = Some inc"
    "place_dependents (length (mu_added u)) inc [1..<Suc (length (mu_added u))]
       (replicate (length (mu_added u)) []) = Some dep"
    "g0_sources u1 = mu_added u" "g0_roots u1 = mu_roots u" "g0_by_path u1 = mu_by_path u"
    "g0_physical u1 = physical" "g0_includes u1 = inc" "g0_dependents u1 = dep"
    "mu_next_id u1 = mu_next_id u" "mu_g0_snapshot u1"
proof -
  let ?n = "length (mu_added u)"
  let ?pp = "place_physical ?n (mu_physical u) (replicate ?n None)"
  let ?pi = "place_includes ?n (mu_includes u) (replicate ?n [])"
  let ?dep = "\<lambda>inc. place_dependents ?n inc [1..<Suc ?n] (replicate ?n [])"
  have go: "mu_next_id u = cast_u32 (?n + 1)"
    using assms by (auto simp: mu_prepare_g0_def Let_def split: if_splits)
  note def = mu_prepare_g0_def [of u, unfolded Let_def, unfolded if_not_P [OF not_not [THEN iffD2, OF go]]]
  show ?thesis
  proof (cases ?pp)
    case None
    with assms def show ?thesis by simp
  next
    case pp: (Some physical)
    show ?thesis
    proof (cases "dense_universe (mu_added u) physical")
      case False
      with assms def pp show ?thesis by simp
    next
      case dense: True
      show ?thesis
      proof (cases ?pi)
        case None
        with assms def pp dense show ?thesis by simp
      next
        case pi: (Some inc)
        show ?thesis
        proof (cases "?dep inc")
          case None
          with assms def pp dense pi show ?thesis by (simp del: upt_Suc)
        next
          case dep: (Some dep)
          have "u1 = u\<lparr>g0_sources := mu_added u, mu_added := [], g0_roots := mu_roots u,
              mu_roots := [], g0_by_path := mu_by_path u, mu_by_path := [],
              g0_physical := physical, g0_includes := inc, g0_dependents := dep,
              mu_g0_snapshot := True, mu_prepared := True\<rparr>"
            using assms def pp dense pi dep by (simp del: upt_Suc)
          then show ?thesis by (intro that [OF pp dense pi dep]) simp_all
        qed
      qed
    qed
  qed
qed

lemma slot_replicate: "slot (replicate n x) i = (if 0 < i \<and> i \<le> n then Some x else None)"
  by (auto simp: slot_def)

lemma row_replicate [simp]: "row (replicate n []) i = []"
  by (auto simp: row_def slot_def)

lemma publish_g0_published:
  assumes wf: "mu_wf m u" and empty: "sm_sources m = []" and run: "mu_prepare_g0 u = (Ok, u1)"
  shows "published m u (fst (publish_g0 m u1))"
proof -
  note parts = mu_wf_parts [OF wf]
  note inc = includes_partD [OF parts(9)] and phys = physical_partD [OF parts(8)]
  let ?n = "length (mu_added u)" and ?m = "fst (publish_g0 m u1)"
  have size: "sm_size m = 0" "new_size m u = ?n" by (simp_all add: new_size_def sm_size_def empty)
  have nostored: "stored m i = None" for i
    using sm_wf_lengths [OF parts(1)] size by (auto simp: stored_def slot_def split: option.split)
  have noinc: "sm_includes_of m i = []" for i
    using sm_includes_of_outside [OF parts(1), of i] size by simp
  have nopath: "map_of (sm_by_path m) p = None" for p
    using sm_wf_path [OF parts(1), of p] by (cases "map_of (sm_by_path m) p") (auto simp: empty)
  obtain physical incl dep where res:
    "place_physical ?n (mu_physical u) (replicate ?n None) = Some physical"
    "dense_universe (mu_added u) physical"
    "place_includes ?n (mu_includes u) (replicate ?n []) = Some incl"
    "place_dependents ?n incl [1..<Suc ?n] (replicate ?n []) = Some dep"
    and eqs: "g0_sources u1 = mu_added u" "g0_roots u1 = mu_roots u" "g0_by_path u1 = mu_by_path u"
    "g0_physical u1 = physical" "g0_includes u1 = incl" "g0_dependents u1 = dep"
    "mu_next_id u1 = mu_next_id u"
    using run by (rule mu_prepare_g0_Ok)
  note P = slot_place_physical [OF res(1) phys(1) length_replicate]
  note I = slot_place_includes [OF res(3) inc(1) length_replicate]
  have rows: "row incl v = mu_candidate_includes m u v" for v
    using I [of v] by (auto simp: row_def candidate_row [OF wf] noinc slot_def split: option.split)
  have inrow: "incl ! (p - 1) = mu_candidate_includes m u p" if "p \<in> {1..?n}" for p
    using rows [of p] row_nth [of p incl] I that by simp
  have D: "length dep = ?n" "row dep w = filter (\<lambda>p. w \<in> set (incl ! (p - 1))) [1..<Suc ?n]" for w
    using place_dependents_row [OF res(4), of w] inrow candidate_closed(2) [OF wf] by (simp_all del: upt_Suc)
  have "row dep w = filter (\<lambda>p. w \<in> set (mu_candidate_includes m u p)) [1..<Suc ?n]" for w
    unfolding D(2) by (rule filter_cong [OF refl]) (use inrow in auto)
  moreover have "x \<in> {1..?n}" if "w \<in> set (mu_candidate_includes m u x)" for w x
    using that candidate_outside [OF wf, of x] size by (cases "x \<in> {1..?n}") auto
  ultimately have dependents:
    "distinct (row dep w) \<and> set (row dep w) = {v. w \<in> set (mu_candidate_includes m u v)}" for w
    by fastforce
  have physical: "stored ?m i = candidate_stored m u i" for i
  proof -
    have "stored ?m i = (case slot physical i of Some (Some s) \<Rightarrow> Some s | _ \<Rightarrow> None)"
      by (simp add: stored_def publish_g0_def eqs)
    then show ?thesis
      using P [of i] by (cases "map_of (mu_physical u) i")
        (auto simp: candidate_stored_def swapped_def nostored slot_replicate split: option.split)
  qed
  show ?thesis
    unfolding published_def
    using parts physical rows dependents P I D(1) sources_partD(4) [OF parts(7)] size
    by (simp add: publish_g0_def eqs sm_wf_stable empty merged_path_def nopath sm_rows)
qed

text \<open>A publication of an acyclic candidate is well formed.\<close>

lemma published_wf:
  assumes wf: "mu_wf m u" and pub: "published m u m'" and ac: "acyclic (edges (mu_candidate_includes m u))"
  shows "sm_wf m'"
proof -
  note parts = mu_wf_parts [OF wf]
  note src = sources_partD [OF parts(7)]
  have pubD: "sm_stable m' = None" "sm_sources m' = sm_sources m @ mu_added u" "sm_next_id m' = mu_next_id u"
    "um_wf (sm_by_path m')" "\<And>p. map_of (sm_by_path m') p = merged_path m u p"
    "length (sm_physical m') = new_size m u" "length (sm_includes m') = new_size m u"
    "length (sm_dependents m') = new_size m u" "sm_includes_of m' = mu_candidate_includes m u"
    "\<And>w. distinct (sm_dependents_of m' w)"
    "\<And>w. set (sm_dependents_of m' w) = {v. w \<in> set (mu_candidate_includes m u v)}"
    "set (sm_roots m') \<subseteq> set (sm_roots m) \<union> set (mu_roots u)"
    using pub unfolding published_def by (blast, blast, blast, blast, blast, blast, blast, blast, auto)
  have size: "sm_size m' = new_size m u" by (simp add: sm_size_def new_size_def pubD(2))
  have ids: "record_id (sm_sources m' ! i) = i + 1" if "i < sm_size m'" for i
  proof (cases "i < sm_size m")
    case True
    then show ?thesis using sm_wf_ids [OF parts(1), of i] by (simp add: pubD(2) nth_append sm_size_def)
  next
    case False
    then show ?thesis
      using src(3) [of "i - sm_size m"] that by (simp add: pubD(2) nth_append sm_size_def)
  qed
  have path: "map_of (sm_by_path m') p = Some i \<longleftrightarrow>
      map_option record_path (slot (sm_sources m') i) = Some p" for p i
  proof (cases "i \<le> sm_size m")
    case True
    have "map_of (mu_by_path u) p \<noteq> Some i" using sources_part_id [OF parts(7), of p i] True by auto
    moreover have "slot (sm_sources m') i = slot (sm_sources m) i"
      using True by (simp add: pubD(2) slot_append sm_size_def)
    ultimately show ?thesis
      using sm_wf_path [OF parts(1), of p i] by (auto simp: pubD(5) merged_path_def split: option.splits)
  next
    case False
    have no: "map_of (sm_by_path m) p \<noteq> Some i"
      using sm_wf_path [OF parts(1), of p i] slot_id [of record_path "sm_sources m" i p] False
      by (auto simp: sm_size_def)
    have "slot (sm_sources m') i = slot (mu_added u) (i - sm_size m)"
      using False by (simp add: pubD(2) slot_append sm_size_def)
    moreover have "merged_path m u p = Some i \<longleftrightarrow> map_of (mu_by_path u) p = Some i"
      using no src(6) [of p] by (cases "map_of (mu_by_path u) p") (auto simp: merged_path_def split: option.splits)
    ultimately show ?thesis using src(5) [of p i] False by (simp add: pubD(5))
  qed
  have roots: "root_source r \<in> {1..sm_size m'}" if "r \<in> set (sm_roots m')" for r
    using that pubD(12) src(7) [of r] sm_wf_roots [OF parts(1), of r] unfolding size
    by (auto simp: new_size_def)
  show ?thesis
    unfolding sm_wf_def Let_def
    using pubD(1,3,4,6-11) src(1,2) ids path roots candidate_closed [OF wf] ac
    by (simp add: size)
qed

lemma mu_commit_published:
  assumes wf: "mu_wf m u" and run: "mu_commit mem m u = (Ok, m', u')"
  shows "published m u m'" "mu_graph_validated u" "sm_wf m'"
proof -
  note parts = mu_wf_parts [OF wf]
  obtain u1 where prep: "mu_prepare_publish mem m u = (Ok, u1)" and m': "m' = fst (mu_publish_prepared m u1)"
    using run by (auto simp: mu_commit_def split: prod.splits status_code.splits)
  show valid: "mu_graph_validated u"
    using prep by (auto simp: mu_prepare_publish_def split: if_splits)
  show pub: "published m u m'"
  proof (cases "sm_sources m = []")
    case True
    then have g0: "mu_prepare_g0 u = (Ok, u1)"
      using prep by (auto simp: mu_prepare_publish_def split: if_splits)
    obtain x where "mu_g0_snapshot u1" using g0 by (rule mu_prepare_g0_Ok)
    then show ?thesis
      using publish_g0_published [OF wf True g0] by (simp add: m' mu_publish_prepared_def)
  next
    case False
    then have u1: "u1 = u\<lparr>mu_dependents := prepare_dependents m (mu_includes u) [], mu_prepared := True\<rparr>"
      using prep by (auto simp: mu_prepare_publish_def split: if_splits)
    then show ?thesis
      using publish_incremental_published [OF wf] parts(6) by (simp add: m' mu_publish_prepared_def)
  qed
  show "sm_wf m'"
    by (rule published_wf [OF wf pub]) (rule includes_partD(3) [OF parts(9) valid])
qed

section \<open>Properties\<close>

lemma mu_open: "mu_wf m u \<Longrightarrow> \<not> mu_closed u"
  by (simp add: mu_wf_def mu_closed_def)

lemma stored_zero [simp]: "stored m 0 = None"
  by (simp add: stored_def)

lemma swapped_state:
  "delta_ok m i d \<Longrightarrow> map_option ps_state (swapped d (stored m i)) = Some (pd_state d)"
  by (auto simp: delta_ok_def swapped_def split: if_splits)

lemma mu_get_physical_state_candidate:
  assumes wf: "mu_wf m u"
  shows "mu_get_physical_state m u i =
     (case candidate_stored m u i of None \<Rightarrow> (Invalid_state, None) | Some s \<Rightarrow> (Ok, Some (ps_state s)))"
proof -
  note parts = mu_wf_parts [OF wf]
  note phys = physical_partD(2) [OF parts(8)]
  show ?thesis
  proof (cases "i = 0")
    case True
    have "map_of (mu_physical u) 0 = None" using phys [of 0] by (cases "map_of (mu_physical u) 0") auto
    with True show ?thesis by (simp add: mu_get_physical_state_def candidate_stored_def)
  next
    case False
    show ?thesis
    proof (cases "map_of (mu_physical u) i")
      case None
      with False mu_open [OF wf] show ?thesis
        by (simp add: mu_get_physical_state_def candidate_stored_def
            sm_get_physical_state_stored [OF parts(1)])
    next
      case (Some d)
      with swapped_state [of m i d] phys [OF Some] False mu_open [OF wf] show ?thesis
        by (auto simp: mu_get_physical_state_def candidate_stored_def)
    qed
  qed
qed

lemma sm_get_view_stored:
  "sm_wf m \<Longrightarrow> sm_get_view m i =
     (case stored m i of
        None \<Rightarrow> (Invalid_state, no_view)
      | Some s \<Rightarrow> if presence (ps_state s) = Missing then (Configuration_failed, no_view)
                 else (Ok, \<lparr>view_source = i, view_content = ps_content s\<rparr>))"
  by (simp add: sm_get_view_def sm_wf_stable stored_def split: option.split)

lemma mu_get_view_candidate:
  assumes wf: "mu_wf m u"
  shows "mu_get_view m u i =
     (case candidate_stored m u i of
        None \<Rightarrow> (Invalid_state, no_view)
      | Some s \<Rightarrow> if presence (ps_state s) = Missing then (Configuration_failed, no_view)
                 else (Ok, \<lparr>view_source = i, view_content = ps_content s\<rparr>))"
proof -
  note parts = mu_wf_parts [OF wf]
  note phys = physical_partD(2) [OF parts(8)]
  show ?thesis
  proof (cases "map_of (mu_physical u) i")
    case None
    then show ?thesis
      using mu_open [OF wf] by (cases "i = 0")
        (simp_all add: mu_get_view_def candidate_stored_def sm_get_view_stored [OF parts(1)])
  next
    case (Some d)
    have ok: "delta_ok m i d" and i: "i \<noteq> 0" using phys [OF Some] by auto
    show ?thesis
    proof (cases "pd_observation_only d")
      case True
      then obtain s where s: "pd_replacement d = None" "stored m i = Some s"
        "pd_state d = (ps_state s)\<lparr>observation := observation (pd_state d)\<rparr>"
        using ok by (auto simp: delta_ok_def)
      have "presence (pd_state d) = presence (ps_state s)" by (subst s(3)) simp
      with Some s(1,2) True i mu_open [OF wf] show ?thesis
        by (simp add: mu_get_view_def candidate_stored_def swapped_def sm_get_view_stored [OF parts(1)])
    next
      case False
      then obtain s where "pd_replacement d = Some s" "ps_state s = pd_state d"
        using ok by (auto simp: delta_ok_def)
      with Some False i mu_open [OF wf] show ?thesis
        by (simp add: mu_get_view_def candidate_stored_def swapped_def)
    qed
  qed
qed

lemma published_stored: "published m u m' \<Longrightarrow> stored m' i = candidate_stored m u i"
  unfolding published_def by blast

lemma published_edges:
  assumes "published m u m'"
  shows "sm_includes_of m' v = mu_candidate_includes m u v"
    "set (sm_dependents_of m' w) = {v. w \<in> set (mu_candidate_includes m u v)}"
    "sm_generation m' = sm_generation m + 1"
    "sm_sources m' = sm_sources m @ mu_added u"
  using assms unfolding published_def by blast+

text \<open>A concrete build of a first generation: two Sources, the first includes the second.\<close>

definition example_result :: "nat \<Rightarrow> source_acquire_result" where
  "example_result i = (new_result i)\<lparr>res_kind := Acquire_present, res_content := ''x''\<rparr>"

definition example_u1 :: source_manager_update where
  "example_u1 = snd (mu_add True new_source_manager (sm_begin_update new_source_manager) ''a'' Role_source)"

definition example_u2 :: source_manager_update where
  "example_u2 = snd (mu_add True new_source_manager example_u1 ''b'' Role_source)"

definition example_u3 :: source_manager_update where
  "example_u3 = snd (mu_apply_acquire True example_u2
     (snd (mu_prepare_acquire True new_source_manager example_u2 1)) (example_result 1))"

definition example_u4 :: source_manager_update where
  "example_u4 = snd (mu_apply_acquire True example_u3
     (snd (mu_prepare_acquire True new_source_manager example_u3 2)) (example_result 2))"

definition example_u5 :: source_manager_update where
  "example_u5 = snd (mu_set_includes True new_source_manager example_u4 1 [2])"

definition example_u6 :: source_manager_update where
  "example_u6 = fst (snd (the (mu_validate_source_graph True True new_source_manager example_u5)))"

definition example_commit :: "status_code \<times> source_manager \<times> source_manager_update" where
  "example_commit = mu_commit True new_source_manager example_u6"

lemma example_candidates:
  "candidate_of new_source_manager example_u4" "candidate_of new_source_manager example_u5"
  "candidate_of new_source_manager example_u6"
proof -
  let ?m = new_source_manager
  have step: "candidate_of ?m u \<Longrightarrow> mu_step ?m u u' \<Longrightarrow> candidate_of ?m u'" for u u'
    by (simp add: candidate_of_def)
  have 0: "candidate_of ?m (sm_begin_update ?m)" by (simp add: candidate_of_def)
  have 1: "candidate_of ?m example_u1" unfolding example_u1_def by (rule step [OF 0 step_add])
  have 2: "candidate_of ?m example_u2" unfolding example_u2_def by (rule step [OF 1 step_add])
  have job: "job_current ?m u (snd (mu_prepare_acquire True ?m u i))"
    if "candidate_of ?m u" "fst (mu_prepare_acquire True ?m u i) = Ok" for u i
    using mu_prepare_acquire_current [OF candidate_of_wf [OF sm_wf_new that(1)], of True i] that(2)
    by (simp add: prod_eq_iff)
  have "fst (mu_prepare_acquire True ?m example_u2 1) = Ok" by code_simp
  then have 3: "candidate_of ?m example_u3"
    unfolding example_u3_def using job [OF 2]
    by (intro step [OF 2 step_apply [OF _ prod.collapse [symmetric]]])
  have "fst (mu_prepare_acquire True ?m example_u3 2) = Ok" by code_simp
  then show 4: "candidate_of ?m example_u4"
    unfolding example_u4_def using job [OF 3]
    by (intro step [OF 3 step_apply [OF _ prod.collapse [symmetric]]])
  show 5: "candidate_of ?m example_u5"
    unfolding example_u5_def by (rule step [OF 4 step_set_includes [OF prod.collapse [symmetric]]])
  obtain st u ds where v: "mu_validate_source_graph True True ?m example_u5 = Some (st, u, ds)"
  proof -
    have "mu_validate_source_graph True True ?m example_u5 \<noteq> None" by code_simp
    then show thesis using that by (cases "mu_validate_source_graph True True ?m example_u5") auto
  qed
  show "candidate_of ?m example_u6"
    unfolding example_u6_def v using step [OF 5 step_validate [OF v]] by simp
qed

text \<open>C9: The universe stays consistent over whole builds. Whatever sequence of additions,
  include resolutions, include replacements, acquisitions and validations a build takes,
  a successful commit leaves a Source Manager in which identities are dense, paths and
  identities are in bijection, the dependent lists are the exact reverse of the include
  lists, the include relation is acyclic, and the generation has advanced by one.\<close>

theorem source_commit_invariant:
  assumes "sm_wf m" "candidate_of m u" "mu_commit mem m u = (Ok, m', u')"
  shows "sm_wf m' \<and> sm_generation m' = sm_generation m + 1 \<and>
     acyclic (edges (sm_includes_of m')) \<and>
     (\<forall>v w. w \<in> set (sm_includes_of m' v) \<longleftrightarrow> v \<in> set (sm_dependents_of m' w))"
proof -
  have wf: "mu_wf m u" using assms(1,2) by (rule candidate_of_wf)
  note pub = mu_commit_published [OF wf assms(3)]
  show ?thesis
    using pub(3) sm_wf_acyclic [OF pub(3)] sm_wf_dependents [OF pub(3)] published_edges(3) [OF pub(1)]
    by blast
qed

lemma source_commit_invariant_witness:
  "sm_wf (fst (snd example_commit)) \<and> sm_dependents_of (fst (snd example_commit)) 2 = [1]"
proof -
  have c: "fst example_commit = Ok" "sm_dependents_of (fst (snd example_commit)) 2 = [1]"
    by code_simp+
  show ?thesis
    using source_commit_invariant [OF sm_wf_new example_candidates(3), of True
        "fst (snd example_commit)" "snd (snd example_commit)"] c
    by (simp add: example_commit_def prod_eq_iff)
qed

text \<open>C10: Publication is faithful: after a successful commit every committed query
  returns what the candidate returned just before it: physical states, content views and
  include lists of every identifier. The dependents of a Source are then exactly the
  Sources whose candidate include list names it. This holds for the bulk construction of
  the first generation and for the incremental update alike.\<close>

theorem source_commit_shows_candidate:
  assumes "sm_wf m" "candidate_of m u" "mu_commit mem m u = (Ok, m', u')"
  shows "sm_get_physical_state m' i = mu_get_physical_state m u i \<and>
     sm_get_view m' i = mu_get_view m u i \<and>
     sm_includes_of m' i = mu_candidate_includes m u i \<and>
     set (sm_dependents_of m' i) = {v. i \<in> set (mu_candidate_includes m u v)} \<and>
     sm_source_count m' = mu_source_count m u"
proof -
  have wf: "mu_wf m u" using assms(1,2) by (rule candidate_of_wf)
  note pub = mu_commit_published [OF wf assms(3)]
  have count: "sm_source_count m' = mu_source_count m u"
    using published_edges(4) [OF pub(1)] mu_open [OF wf] sm_wf_stable [OF pub(3)]
    by (simp add: sm_source_count_def mu_source_count_def)
  show ?thesis
    using count published_edges(1,2) [OF pub(1)]
    by (simp add: sm_get_physical_state_stored [OF pub(3)] sm_get_view_stored [OF pub(3)]
        mu_get_physical_state_candidate [OF wf] mu_get_view_candidate [OF wf]
        published_stored [OF pub(1)])
qed

lemma source_commit_shows_candidate_witness:
  "sm_get_view (fst (snd example_commit)) 2 = (Ok, \<lparr>view_source = 2, view_content = ''x''\<rparr>)"
proof -
  have c: "fst example_commit = Ok"
    "mu_get_view new_source_manager example_u6 2 = (Ok, \<lparr>view_source = 2, view_content = ''x''\<rparr>)"
    by code_simp+
  show ?thesis
    using source_commit_shows_candidate [OF sm_wf_new example_candidates(3), of True
        "fst (snd example_commit)" "snd (snd example_commit)" 2] c
    by (simp add: example_commit_def prod_eq_iff)
qed

text \<open>C21: The net change set is exact. At every point of a build, the change recorded for
  a Source is the classification of its candidate physical state against its committed
  one (added, removed, modified, or no record), whatever acquisitions led there, and no
  Source has two records.\<close>

theorem source_changes_exact:
  assumes "sm_wf m" "candidate_of m u"
  shows "change_map (mu_changes u) i =
     (case snd (mu_get_physical_state m u i) of
        None \<Rightarrow> None
      | Some candidate \<Rightarrow>
          (case sm_get_physical_state m i of
             (Ok, Some committed) \<Rightarrow> classify_change True committed candidate
           | _ \<Rightarrow> classify_change False initial_physical_state candidate)) \<and>
     distinct (map change_source (mu_changes u))"
proof -
  have wf: "mu_wf m u" using assms by (rule candidate_of_wf)
  note parts = mu_wf_parts [OF wf]
  note phys = physical_partD [OF parts(8)]
  have same: "classify_change True s s = None" for s
    by (cases "presence s") (simp_all add: classify_change_def)
  have state: "sm_get_physical_state m i =
     (case stored m i of None \<Rightarrow> (Invalid_state, None) | Some s \<Rightarrow> (Ok, Some (ps_state s)))"
    by (rule sm_get_physical_state_stored [OF parts(1)])
  show ?thesis
  proof (cases "map_of (mu_physical u) i")
    case None
    with phys(4) [of i] changes_wf_distinct [OF phys(3)] show ?thesis
      by (simp add: mu_get_physical_state_candidate [OF wf] candidate_stored_def state same
          split: option.split)
  next
    case (Some d)
    obtain s where s: "swapped d (stored m i) = Some s" "ps_state s = pd_state d"
      using swapped_state [of m i d] phys(2) [OF Some] by auto
    with Some phys(4) [of i] changes_wf_distinct [OF phys(3)] show ?thesis
      by (simp add: mu_get_physical_state_candidate [OF wf] candidate_stored_def state net_kind_def
          split: option.split)
  qed
qed

lemma source_changes_exact_witness:
  "change_map (mu_changes example_u4) 2 = Some Change_added"
proof -
  have c: "snd (mu_get_physical_state new_source_manager example_u4 2) =
      Some \<lparr>presence = Present, observation = initial_observation, content_hash = zero_hash\<rparr>"
    "sm_get_physical_state new_source_manager 2 = (Invalid_state, None)"
    by code_simp+
  show ?thesis
    using source_changes_exact [OF sm_wf_new example_candidates(1), of 2] c
    by (simp add: classify_change_def)
qed

text \<open>C19: Validation decides acyclicity and always ends. On an open candidate it returns
  Ok exactly when the complete candidate include graph has no cycle, for the full search
  of the first generation and for the search that starts from the replaced edges only,
  and otherwise it emits one cycle diagnostic and closes the update.\<close>

theorem source_validation_decides:
  assumes "sm_wf m" "candidate_of m u" "mu_failure u = Ok"
  shows "if acyclic (edges (mu_candidate_includes m u))
     then mu_validate_source_graph True True m u = Some (Ok, u\<lparr>mu_graph_validated := True\<rparr>, [])
     else \<exists>source. mu_validate_source_graph True True m u =
            Some (Configuration_failed, u\<lparr>mu_failure := Configuration_failed\<rparr>, [source])"
proof -
  have wf: "mu_wf m u" using assms(1,2) by (rule candidate_of_wf)
  obtain r where "validation_run m u = Some r"
    "r = None \<longleftrightarrow> acyclic (edges (mu_candidate_includes m u))"
    using validation_run_spec [OF wf] by blast
  with mu_validate_run [OF assms(3) mu_open [OF wf], of True m] show ?thesis
    by (cases r) auto
qed

lemma source_validation_decides_witness:
  "acyclic (edges (mu_candidate_includes new_source_manager example_u5))"
proof -
  have c: "mu_failure example_u5 = Ok"
    "fst (the (mu_validate_source_graph True True new_source_manager example_u5)) = Ok"
    by code_simp+
  show ?thesis
    using source_validation_decides [OF sm_wf_new example_candidates(2) c(1)] c(2)
    by (auto split: if_splits)
qed

text \<open>C29: The dependents of a Source are collected completely. On a well-formed Source
  Manager the breadth-first walk ends and returns, without repetition, exactly the
  Sources that reach the given one through one or more include edges.\<close>

theorem source_dependents_closure:
  assumes wf: "sm_wf m" and known: "sm_find m source \<noteq> None"
  shows "\<exists>out. sm_collect_dependents True m source = Some (Ok, out) \<and> distinct out \<and>
     set out = {d. (d, source) \<in> (edges (sm_includes_of m))\<^sup>+}"
proof -
  have V: "closed_graph {1..sm_size m} (sm_dependents_of m)"
  proof -
    have "v \<in> {1..sm_size m}" if "v \<in> set (sm_dependents_of m w)" for v w
    proof (rule ccontr)
      assume "v \<notin> {1..sm_size m}"
      then have "sm_includes_of m v = []" by (rule sm_includes_of_outside [OF wf])
      with that sm_wf_dependents [OF wf] show False by simp
    qed
    then show ?thesis by (auto simp: closed_graph_def)
  qed
  have src: "source \<in> {1..sm_size m}"
    using known by (auto simp: sm_find_wf [OF wf] slot_def sm_size_def split: if_splits)
  have conv: "edges (sm_dependents_of m) = (edges (sm_includes_of m))\<inverse>"
    using sm_wf_dependents [OF wf] by (auto simp: edges_def)
  obtain index visited out where loop:
    "closure_loop (sm_dependents_of m) (0, visit_all (sm_dependents_of m source) ([source], [])) =
       Some (index, visited, out)"
    "set out = (edges (sm_dependents_of m))\<^sup>+ `` {source} - {source}" "distinct out"
    using V src by (rule closure_loop_total)
  have "(source, source) \<notin> (edges (sm_includes_of m))\<^sup>+"
    using sm_wf_acyclic [OF wf] by (simp add: acyclic_def)
  then have "set out = {d. (d, source) \<in> (edges (sm_includes_of m))\<^sup>+}"
    unfolding loop(2) conv by (auto simp: trancl_converse)
  with loop(1,3) known show ?thesis
    by (auto simp: sm_collect_dependents_def sm_wf_stable [OF wf])
qed

lemma source_dependents_closure_witness:
  "\<exists>out. sm_collect_dependents True (fst (snd example_commit)) 2 = Some (Ok, out) \<and> 1 \<in> set out"
proof -
  let ?m = "fst (snd example_commit)"
  have c: "fst example_commit = Ok" "sm_find ?m 2 \<noteq> None" "2 \<in> set (sm_includes_of ?m 1)"
    by code_simp+
  have "mu_commit True new_source_manager example_u6 = (Ok, ?m, snd (snd example_commit))"
    using c(1) by (simp add: example_commit_def prod_eq_iff)
  then have wf: "sm_wf ?m"
    by (rule mu_commit_published(3) [OF candidate_of_wf [OF sm_wf_new example_candidates(3)]])
  have "(1, 2) \<in> (edges (sm_includes_of ?m))\<^sup>+" using c(3) by (auto intro: r_into_trancl)
  with source_dependents_closure [OF wf c(2)] show ?thesis by auto
qed

text \<open>Updates are optimistic and all-or-nothing: a commit that does not return Ok
  leaves the Source Manager untouched, an update whose include graph was replaced and not
  validated is refused, and once a generation has been published no other update begun on
  the previous generation can be published.\<close>

theorem source_commit_refusals:
  shows "(fst (mu_commit mem m u) \<noteq> Ok \<longrightarrow> fst (snd (mu_commit mem m u)) = m) \<and>
     (\<not> mu_graph_validated u \<or> mu_base_generation u \<noteq> sm_generation m \<or> mu_failure u \<noteq> Ok \<longrightarrow>
        fst (mu_commit mem m u) \<noteq> Ok) \<and>
     (fst (mu_commit mem m u) = Ok \<and> mu_base_generation v = sm_generation m \<longrightarrow>
        fst (mu_commit mem' (fst (snd (mu_commit mem m u))) v) \<noteq> Ok)"
proof -
  have unchanged: "fst (mu_commit mem m u) \<noteq> Ok \<Longrightarrow> fst (snd (mu_commit mem m u)) = m" for mem m u
    by (auto simp: mu_commit_def split: prod.splits status_code.splits)
  have refused: "fst (mu_commit mem m u) \<noteq> Ok"
    if "\<not> mu_graph_validated u \<or> mu_base_generation u \<noteq> sm_generation m \<or> mu_failure u \<noteq> Ok" for mem m u
  proof -
    have "fst (mu_prepare_publish mem m u) \<noteq> Ok"
      using that by (auto simp: mu_prepare_publish_def)
    then show ?thesis by (auto simp: mu_commit_def split: prod.splits status_code.splits)
  qed
  have gen: "sm_generation (fst (snd (mu_commit mem m u))) = sm_generation m + 1"
    if "fst (mu_commit mem m u) = Ok"
    using that by (auto simp: mu_commit_def mu_publish_prepared_def publish_g0_def
        publish_incremental_def Let_def split: prod.splits status_code.splits if_splits)
  have "fst (mu_commit mem' (fst (snd (mu_commit mem m u))) v) \<noteq> Ok"
    if "fst (mu_commit mem m u) = Ok" "mu_base_generation v = sm_generation m"
    using refused [of v "fst (snd (mu_commit mem m u))" mem'] gen [OF that(1)] that(2) by simp
  with unchanged refused show ?thesis by blast
qed

lemma source_commit_refusals_witness:
  "fst (mu_commit True (fst (snd example_commit)) (sm_begin_update new_source_manager)) \<noteq> Ok"
proof -
  have "fst example_commit = Ok"
    "mu_base_generation (sm_begin_update new_source_manager) = sm_generation new_source_manager"
    by code_simp+
  then show ?thesis
    using source_commit_refusals [of True new_source_manager example_u6 "sm_begin_update new_source_manager" True]
    by (simp add: example_commit_def)
qed


section \<open>The Source update as a two-phase participant\<close>

definition sources_prepare ::
    "bool \<Rightarrow> source_manager \<times> source_manager_update
     \<Rightarrow> status_code \<times> source_manager \<times> source_manager_update" where
  "sources_prepare mem s =
     (case mu_prepare_publish mem (fst s) (snd s) of (st, u') \<Rightarrow> (st, (fst s, u')))"

definition sources_publish ::
    "source_manager \<times> source_manager_update \<Rightarrow> source_manager \<times> source_manager_update" where
  "sources_publish s = mu_publish_prepared (fst s) (snd s)"

definition sources_cancel ::
    "source_manager \<times> source_manager_update \<Rightarrow> source_manager \<times> source_manager_update" where
  "sources_cancel s = (fst s, mu_cancel (snd s))"

text \<open>What a reader sees of the Sources: physical states, contents and include lists.\<close>

definition sources_view where
  "sources_view m = (sm_get_physical_state m, sm_get_view m, sm_includes_of m)"

definition sources_candidate where
  "sources_candidate m u = (mu_get_physical_state m u, mu_get_view m u, mu_candidate_includes m u)"

lemma mu_commit_shows:
  assumes wf: "mu_wf m u" and run: "mu_commit mem m u = (Ok, m', u')"
  shows "sources_view m' = sources_candidate m u"
proof -
  note pub = mu_commit_published [OF wf run]
  show ?thesis
    using published_edges(1) [OF pub(1)]
    by (simp add: sources_view_def sources_candidate_def fun_eq_iff sm_get_physical_state_stored [OF pub(3)]
        sm_get_view_stored [OF pub(3)] mu_get_physical_state_candidate [OF wf]
        mu_get_view_candidate [OF wf] published_stored [OF pub(1)])
qed

interpretation sources_phases: two_phase "\<lambda>s. mu_wf (fst s) (snd s)" "\<lambda>s. sources_view (fst s)"
  "\<lambda>s. sources_candidate (fst s) (snd s)" "sources_prepare mem" sources_publish sources_cancel
  for mem
proof
  fix s t
  assume wf: "mu_wf (fst s) (snd s)" and prep: "sources_prepare mem s = (Ok, t)"
  obtain u' where u': "mu_prepare_publish mem (fst s) (snd s) = (Ok, u')" "t = (fst s, u')"
    using prep by (auto simp: sources_prepare_def split: prod.splits)
  then have "mu_commit mem (fst s) (snd s) = (Ok, fst (sources_publish t), snd (sources_publish t))"
    by (simp add: mu_commit_def sources_publish_def split: prod.splits)
  with wf show "sources_view (fst (sources_publish t)) = sources_candidate (fst s) (snd s)"
    by (rule mu_commit_shows)
qed (auto simp: sources_prepare_def sources_cancel_def split: prod.splits)


end
