(* ===== verification/BuiltinType.thy ===== *)
theory BuiltinType
  imports Prelude
begin

text \<open>
  The intrinsic types and the target ABI: \<^verbatim>\<open>graph/builtin_type.hpp\<close>,
  \<^verbatim>\<open>graph/builtin_type.cpp\<close>, the ABI settings of \<^verbatim>\<open>project_configuration.hpp\<close> and the
  integral helpers of \<^verbatim>\<open>graph.cpp\<close> that materialize enumerator values. An integral
  constant is a type and 64 raw bits; its mathematical value is \<open>constant_value\<close>.
\<close>

unbundle bit_operations_syntax

section \<open>ABI settings\<close>

text \<open>\<open>Abi_unsupported\<close> stands for the other values an eight-bit enumeration object can hold.\<close>

datatype abi_target = Windows_x64 | Posix_x64 | Abi_unsupported

definition is_supported_abi_target :: "abi_target \<Rightarrow> bool" where
  "is_supported_abi_target target \<longleftrightarrow> target = Windows_x64 \<or> target = Posix_x64"

definition is_supported_abi_pack :: "u32 \<Rightarrow> bool" where
  "is_supported_abi_pack pack \<longleftrightarrow> pack = 1 \<or> pack = 2 \<or> pack = 4 \<or> pack = 8 \<or> pack = 16"

record abi_configuration =
  abi_target_of :: abi_target
  abi_pack :: u32

definition is_supported_abi_configuration :: "abi_configuration \<Rightarrow> bool" where
  "is_supported_abi_configuration abi \<longleftrightarrow>
     is_supported_abi_target (abi_target_of abi) \<and> is_supported_abi_pack (abi_pack abi)"

section \<open>Builtin types\<close>

datatype builtin_type =
    Boolean
  | Character
  | Signed_character
  | Unsigned_character
  | Short_integer
  | Unsigned_short_integer
  | Integer
  | Unsigned_integer
  | Long_integer
  | Unsigned_long_integer
  | Long_long_integer
  | Unsigned_long_long_integer
  | Wide_character
  | Character_8
  | Character_16
  | Character_32
  | Floating
  | Double_floating
  | Long_double_floating
  | Void_type

text \<open>The enumeration order, which the category predicates compare.\<close>

fun builtin_code :: "builtin_type \<Rightarrow> nat" where
  "builtin_code Boolean = 0"
| "builtin_code Character = 1"
| "builtin_code Signed_character = 2"
| "builtin_code Unsigned_character = 3"
| "builtin_code Short_integer = 4"
| "builtin_code Unsigned_short_integer = 5"
| "builtin_code Integer = 6"
| "builtin_code Unsigned_integer = 7"
| "builtin_code Long_integer = 8"
| "builtin_code Unsigned_long_integer = 9"
| "builtin_code Long_long_integer = 10"
| "builtin_code Unsigned_long_long_integer = 11"
| "builtin_code Wide_character = 12"
| "builtin_code Character_8 = 13"
| "builtin_code Character_16 = 14"
| "builtin_code Character_32 = 15"
| "builtin_code Floating = 16"
| "builtin_code Double_floating = 17"
| "builtin_code Long_double_floating = 18"
| "builtin_code Void_type = 19"

lemma builtin_code_inj: "builtin_code s = builtin_code t \<longleftrightarrow> s = t"
  by (cases s; cases t) simp_all

instantiation builtin_type :: linorder
begin

definition less_eq_builtin_type :: "builtin_type \<Rightarrow> builtin_type \<Rightarrow> bool" where
  "less_eq_builtin_type s t \<longleftrightarrow> builtin_code s \<le> builtin_code t"

definition less_builtin_type :: "builtin_type \<Rightarrow> builtin_type \<Rightarrow> bool" where
  "less_builtin_type s t \<longleftrightarrow> builtin_code s < builtin_code t"

instance
  by standard (auto simp: less_eq_builtin_type_def less_builtin_type_def builtin_code_inj)

end

definition is_integral :: "builtin_type \<Rightarrow> bool" where
  "is_integral t \<longleftrightarrow> t \<le> Character_32"

definition is_floating :: "builtin_type \<Rightarrow> bool" where
  "is_floating t \<longleftrightarrow> t \<ge> Floating \<and> t \<le> Long_double_floating"

fun is_signed :: "builtin_type \<Rightarrow> bool" where
  "is_signed Signed_character = True"
| "is_signed Short_integer = True"
| "is_signed Integer = True"
| "is_signed Long_integer = True"
| "is_signed Long_long_integer = True"
| "is_signed _ = False"

fun builtin_bit_width :: "builtin_type \<Rightarrow> abi_configuration \<Rightarrow> nat" where
  "builtin_bit_width Boolean abi = 8"
| "builtin_bit_width Character abi = 8"
| "builtin_bit_width Signed_character abi = 8"
| "builtin_bit_width Unsigned_character abi = 8"
| "builtin_bit_width Character_8 abi = 8"
| "builtin_bit_width Short_integer abi = 16"
| "builtin_bit_width Unsigned_short_integer abi = 16"
| "builtin_bit_width Character_16 abi = 16"
| "builtin_bit_width Integer abi = 32"
| "builtin_bit_width Unsigned_integer abi = 32"
| "builtin_bit_width Character_32 abi = 32"
| "builtin_bit_width Floating abi = 32"
| "builtin_bit_width Long_long_integer abi = 64"
| "builtin_bit_width Unsigned_long_long_integer abi = 64"
| "builtin_bit_width Double_floating abi = 64"
| "builtin_bit_width Long_integer abi =
     (case abi_target_of abi of Windows_x64 \<Rightarrow> 32 | Posix_x64 \<Rightarrow> 64 | Abi_unsupported \<Rightarrow> 0)"
| "builtin_bit_width Unsigned_long_integer abi =
     (case abi_target_of abi of Windows_x64 \<Rightarrow> 32 | Posix_x64 \<Rightarrow> 64 | Abi_unsupported \<Rightarrow> 0)"
| "builtin_bit_width Wide_character abi =
     (case abi_target_of abi of Windows_x64 \<Rightarrow> 16 | Posix_x64 \<Rightarrow> 32 | Abi_unsupported \<Rightarrow> 0)"
| "builtin_bit_width Long_double_floating abi =
     (case abi_target_of abi of Windows_x64 \<Rightarrow> 64 | Posix_x64 \<Rightarrow> 128 | Abi_unsupported \<Rightarrow> 0)"
| "builtin_bit_width Void_type abi = 0"

definition builtin_is_signed :: "builtin_type \<Rightarrow> abi_configuration \<Rightarrow> bool" where
  "builtin_is_signed t abi =
     (case t of
        Character \<Rightarrow> is_supported_abi_target (abi_target_of abi)
      | Wide_character \<Rightarrow> abi_target_of abi = Posix_x64
      | _ \<Rightarrow> is_signed t)"

section \<open>Integral constants\<close>

record integral_constant =
  constant_type :: builtin_type
  constant_bits :: u64

definition signed_value :: "integral_constant \<Rightarrow> abi_configuration \<Rightarrow> u64" where
  "signed_value value abi =
     (let width = builtin_bit_width (constant_type value) abi in
      if width = 64 then constant_bits value
      else signed_drop_bit (64 - width) (push_bit (64 - width) (constant_bits value)))"

text \<open>The scan of an enumerator list: smallest negative value, largest other value, and
  whether a negative value occurred. \<open>None\<close> is the rejection of a non-integral value.\<close>

fun enum_bounds ::
    "abi_configuration \<Rightarrow> integral_constant list \<Rightarrow> u64 \<times> u64 \<times> bool \<Rightarrow> (u64 \<times> u64 \<times> bool) option" where
  "enum_bounds abi [] bounds = Some bounds"
| "enum_bounds abi (value # vals) (minimum, maximum, has_negative) =
     (if \<not> is_integral (constant_type value) then None
      else
        let width = builtin_bit_width (constant_type value) abi in
        if width = 0 \<or> width > 64 then None
        else if builtin_is_signed (constant_type value) abi then
          (let s = signed_value value abi in
           if sint s < 0 then
             enum_bounds abi vals (if sint s < sint minimum then s else minimum, maximum, True)
           else if s > maximum then enum_bounds abi vals (minimum, s, has_negative)
           else enum_bounds abi vals (minimum, maximum, has_negative))
        else if constant_bits value > maximum then
          enum_bounds abi vals (minimum, constant_bits value, has_negative)
        else enum_bounds abi vals (minimum, maximum, has_negative))"

definition select_unscoped_enum_underlying ::
    "integral_constant list \<Rightarrow> abi_configuration \<Rightarrow> status_code \<times> builtin_type option" where
  "select_unscoped_enum_underlying vals abi =
     (if \<not> is_supported_abi_target (abi_target_of abi) then (Configuration_failed, None)
      else case enum_bounds abi vals (0, 0, False) of
        None \<Rightarrow> (Configuration_failed, None)
      | Some (minimum, maximum, has_negative) \<Rightarrow>
          if sint minimum \<ge> -2147483648 \<and> maximum \<le> 2147483647 then (Ok, Some Integer)
          else if \<not> has_negative \<and> maximum \<le> 4294967295 then (Ok, Some Unsigned_integer)
          else
            (case abi_target_of abi of
               Windows_x64 \<Rightarrow>
                 if maximum \<le> 9223372036854775807 then (Ok, Some Long_long_integer)
                 else if \<not> has_negative then (Ok, Some Unsigned_long_long_integer)
                 else (Configuration_failed, None)
             | Posix_x64 \<Rightarrow>
                 if maximum \<le> 9223372036854775807 then (Ok, Some Long_integer)
                 else if \<not> has_negative then (Ok, Some Unsigned_long_integer)
                 else (Configuration_failed, None)
             | Abi_unsupported \<Rightarrow> (Configuration_failed, None)))"

definition bit_mask :: "nat \<Rightarrow> u64" where
  "bit_mask width =
     (if width = 0 \<or> width > 64 then 0
      else if width = 64 then NOT 0
      else push_bit width 1 - 1)"

definition fits_integral :: "integral_constant \<Rightarrow> builtin_type \<Rightarrow> abi_configuration \<Rightarrow> bool" where
  "fits_integral value target abi =
     (let source_width = builtin_bit_width (constant_type value) abi;
          target_width = builtin_bit_width target abi in
      if \<not> is_integral (constant_type value) \<or> \<not> is_integral target \<or> source_width = 0
         \<or> source_width > 64 \<or> target_width = 0 \<or> target_width > 64 then False
      else if builtin_is_signed (constant_type value) abi then
        (let s = signed_value value abi in
         if builtin_is_signed target abi then
           (if target_width = 64 then True
            else
              sint s \<ge> - sint (push_bit (target_width - 1) 1 :: u64)
              \<and> sint s \<le> sint (push_bit (target_width - 1) 1 :: u64) - 1)
         else sint s \<ge> 0 \<and> s \<le> bit_mask target_width)
      else if builtin_is_signed target abi then
        (if target_width = 64 then constant_bits value \<le> 9223372036854775807
         else constant_bits value < push_bit (target_width - 1) 1)
      else constant_bits value \<le> bit_mask target_width)"

definition convert_integral :: "integral_constant \<Rightarrow> builtin_type \<Rightarrow> abi_configuration \<Rightarrow> u64" where
  "convert_integral value target abi =
     (let converted = (if builtin_is_signed (constant_type value) abi
                       then signed_value value abi else constant_bits value)
      in converted AND bit_mask (builtin_bit_width target abi))"

section \<open>Values and ranges\<close>

definition constant_value :: "abi_configuration \<Rightarrow> integral_constant \<Rightarrow> int" where
  "constant_value abi c =
     (if builtin_is_signed (constant_type c) abi
      then signed_take_bit (builtin_bit_width (constant_type c) abi - 1) (uint (constant_bits c))
      else uint (constant_bits c))"

definition type_min :: "abi_configuration \<Rightarrow> builtin_type \<Rightarrow> int" where
  "type_min abi t = (if builtin_is_signed t abi then - (2 ^ (builtin_bit_width t abi - 1)) else 0)"

definition type_max :: "abi_configuration \<Rightarrow> builtin_type \<Rightarrow> int" where
  "type_max abi t =
     (if builtin_is_signed t abi then 2 ^ (builtin_bit_width t abi - 1) - 1
      else 2 ^ builtin_bit_width t abi - 1)"

definition represents :: "abi_configuration \<Rightarrow> builtin_type \<Rightarrow> int \<Rightarrow> bool" where
  "represents abi t v \<longleftrightarrow> type_min abi t \<le> v \<and> v \<le> type_max abi t"

text \<open>A constant is canonical when an unsigned one has no bits beyond its width.\<close>

definition canonical_constant :: "abi_configuration \<Rightarrow> integral_constant \<Rightarrow> bool" where
  "canonical_constant abi c \<longleftrightarrow>
     is_integral (constant_type c) \<and> builtin_bit_width (constant_type c) abi \<in> {1..64} \<and>
     (\<not> builtin_is_signed (constant_type c) abi \<longrightarrow>
        uint (constant_bits c) < 2 ^ builtin_bit_width (constant_type c) abi)"

lemma sign_extend:
  assumes "1 \<le> w" "w \<le> 64"
  shows "sint (signed_drop_bit (64 - w) (push_bit (64 - w) (b :: u64))) = signed_take_bit (w - 1) (uint b)"
proof (rule bit_eqI)
  fix n
  show "bit (sint (signed_drop_bit (64 - w) (push_bit (64 - w) b))) n =
        bit (signed_take_bit (w - 1) (uint b)) n"
  proof (cases "w = 64")
    case True
    then show ?thesis by (auto simp: bit_simps min_def)
  next
    case False
    then have w: "1 \<le> w" "w < 64" using assms by simp_all
    consider "n < w - 1" | "n = w - 1" | "w \<le> n" by linarith
    then show ?thesis using w by cases (auto simp: bit_simps min_def)
  qed
qed

lemma signed_value_int:
  assumes "builtin_bit_width (constant_type c) abi \<in> {1..64}"
  shows "sint (signed_value c abi) =
     signed_take_bit (builtin_bit_width (constant_type c) abi - 1) (uint (constant_bits c))"
  using sign_extend [of "builtin_bit_width (constant_type c) abi" "constant_bits c"] assms
  by (auto simp: signed_value_def Let_def)

lemma constant_value_signed:
  "builtin_bit_width (constant_type c) abi \<in> {1..64} \<Longrightarrow> builtin_is_signed (constant_type c) abi \<Longrightarrow>
   sint (signed_value c abi) = constant_value abi c"
  by (simp add: constant_value_def signed_value_int)

lemma constant_value_range:
  assumes "canonical_constant abi c"
  shows "represents abi (constant_type c) (constant_value abi c)"
proof -
  let ?w = "builtin_bit_width (constant_type c) abi"
  show ?thesis
  proof (cases "builtin_is_signed (constant_type c) abi")
    case True
    have "- (2 ^ (?w - 1)) \<le> signed_take_bit (?w - 1) (uint (constant_bits c))"
      "signed_take_bit (?w - 1) (uint (constant_bits c)) < 2 ^ (?w - 1)"
      by (rule signed_take_bit_int_greater_eq_minus_exp, rule signed_take_bit_int_less_exp)
    with True show ?thesis by (simp add: represents_def type_min_def type_max_def constant_value_def)
  next
    case False
    with assms show ?thesis
      by (simp add: represents_def type_min_def type_max_def constant_value_def canonical_constant_def)
  qed
qed

lemma uint_sint_nonneg:
  assumes "0 \<le> sint (w :: u64)"
  shows "uint w = sint w"
proof (rule bit_eqI)
  fix n :: nat
  have top: "\<not> bit w 63" using bit_last_iff [of w] assms by simp
  consider "n < 63" | "n = 63" | "64 \<le> n" by linarith
  then show "bit (uint w) n = bit (sint w) n"
    using top by cases (auto simp: bit_simps min_def dest: bit_imp_le_length)
qed

section \<open>Selecting the underlying type of an enumeration\<close>

text \<open>The candidates in the order the language prefers them, per target.\<close>

definition enum_candidates :: "abi_configuration \<Rightarrow> builtin_type list" where
  "enum_candidates abi =
     [Integer, Unsigned_integer] @
     (case abi_target_of abi of
        Windows_x64 \<Rightarrow> [Long_long_integer, Unsigned_long_long_integer]
      | Posix_x64 \<Rightarrow> [Long_integer, Unsigned_long_integer]
      | Abi_unsupported \<Rightarrow> [])"

definition first_representing ::
    "abi_configuration \<Rightarrow> integral_constant list \<Rightarrow> builtin_type option" where
  "first_representing abi vals =
     find (\<lambda>t. list_all (\<lambda>c. represents abi t (constant_value abi c)) vals) (enum_candidates abi)"

definition bounds_ok :: "u64 \<times> u64 \<times> bool \<Rightarrow> bool" where
  "bounds_ok b \<longleftrightarrow> (case b of (mn, mx, neg) \<Rightarrow> sint mn \<le> 0 \<and> (neg \<longleftrightarrow> sint mn < 0))"

definition within :: "int \<Rightarrow> int \<Rightarrow> u64 \<times> u64 \<times> bool \<Rightarrow> bool" where
  "within L U b \<longleftrightarrow> (case b of (mn, mx, neg) \<Rightarrow> L \<le> sint mn \<and> uint mx \<le> U)"

lemma enum_bounds_spec:
  assumes "list_all (canonical_constant abi) vals" "bounds_ok b"
  shows "\<exists>b'. enum_bounds abi vals b = Some b' \<and> bounds_ok b' \<and>
     (\<forall>L U. L \<le> 0 \<longrightarrow> 0 \<le> U \<longrightarrow>
        (within L U b' \<longleftrightarrow>
         within L U b \<and> list_all (\<lambda>c. L \<le> constant_value abi c \<and> constant_value abi c \<le> U) vals))"
  using assms
proof (induction vals arbitrary: b)
  case (Cons c cs)
  obtain mn mx neg where b: "b = (mn, mx, neg)" by (cases b) auto
  let ?w = "builtin_bit_width (constant_type c) abi" and ?s = "signed_value c abi"
    and ?v = "constant_value abi c"
  have can: "is_integral (constant_type c)" "?w \<in> {1..64}"
    using Cons.prems(1) by (auto simp: canonical_constant_def)
  have mn: "sint mn \<le> 0" "neg \<longleftrightarrow> sint mn < 0" using Cons.prems(2) by (simp_all add: bounds_ok_def b)
  obtain b1 where step: "enum_bounds abi (c # cs) b = enum_bounds abi cs b1" "bounds_ok b1"
    "\<And>L U. L \<le> 0 \<Longrightarrow> 0 \<le> U \<Longrightarrow> within L U b1 \<longleftrightarrow> within L U b \<and> L \<le> ?v \<and> ?v \<le> U"
  proof (cases "builtin_is_signed (constant_type c) abi")
    case True
    have v: "sint ?s = ?v" using constant_value_signed [OF can(2) True] .
    consider (neg) "?v < 0" | (big) "0 \<le> ?v" "?s > mx" | (small) "0 \<le> ?v" "\<not> ?s > mx" by linarith
    then show ?thesis
    proof cases
      case neg
      let ?b = "(if sint ?s < sint mn then ?s else mn, mx, True)"
      have "enum_bounds abi (c # cs) b = enum_bounds abi cs ?b"
        using can True neg v by (simp add: b Let_def)
      moreover have "bounds_ok ?b" using mn neg v by (simp add: bounds_ok_def)
      moreover have "within L U ?b \<longleftrightarrow> within L U b \<and> L \<le> ?v \<and> ?v \<le> U" if "L \<le> 0" "0 \<le> U" for L U
        using that neg v by (auto simp: within_def b)
      ultimately show ?thesis by (rule that)
    next
      case big
      let ?b = "(mn, ?s, neg)"
      have u: "uint ?s = ?v" using uint_sint_nonneg [of ?s] big(1) v by simp
      then have lt: "uint mx < ?v" using big(2) by (simp add: word_less_def)
      have "enum_bounds abi (c # cs) b = enum_bounds abi cs ?b"
        using can True big v by (simp add: b Let_def)
      moreover have "bounds_ok ?b" using mn by (simp add: bounds_ok_def)
      moreover have "within L U ?b \<longleftrightarrow> within L U b \<and> L \<le> ?v \<and> ?v \<le> U" if "L \<le> 0" "0 \<le> U" for L U
        using that big(1) u lt by (auto simp: within_def b)
      ultimately show ?thesis by (rule that)
    next
      case small
      have u: "uint ?s = ?v" using uint_sint_nonneg [of ?s] small(1) v by simp
      then have le: "?v \<le> uint mx" using small(2) by (simp add: word_less_def)
      have "enum_bounds abi (c # cs) b = enum_bounds abi cs b"
        using can True small v by (simp add: b Let_def)
      moreover have "bounds_ok b" by (rule Cons.prems(2))
      moreover have "within L U b \<longleftrightarrow> within L U b \<and> L \<le> ?v \<and> ?v \<le> U" if "L \<le> 0" "0 \<le> U" for L U
        using that small(1) le by (auto simp: within_def b)
      ultimately show ?thesis by (rule that)
    qed
  next
    case False
    have v: "?v = uint (constant_bits c)" using False by (simp add: constant_value_def)
    let ?b = "(mn, if constant_bits c > mx then constant_bits c else mx, neg)"
    have "enum_bounds abi (c # cs) b = enum_bounds abi cs ?b"
      using can False by (simp add: b Let_def)
    moreover have "bounds_ok ?b" using mn by (simp add: bounds_ok_def)
    moreover have "within L U ?b \<longleftrightarrow> within L U b \<and> L \<le> ?v \<and> ?v \<le> U" if "L \<le> 0" "0 \<le> U" for L U
    proof -
      have "L \<le> uint (constant_bits c)" using that(1) uint_ge_0 order_trans by blast
      with that v show ?thesis by (auto simp: within_def b word_less_def)
    qed
    ultimately show ?thesis by (rule that)
  qed
  obtain b2 where "enum_bounds abi cs b1 = Some b2" "bounds_ok b2"
    "\<And>L U. L \<le> 0 \<Longrightarrow> 0 \<le> U \<Longrightarrow> within L U b2 \<longleftrightarrow>
       within L U b1 \<and> list_all (\<lambda>c. L \<le> constant_value abi c \<and> constant_value abi c \<le> U) cs"
    using Cons.IH [OF _ step(2)] Cons.prems(1) by auto
  with step show ?case by (intro exI [of _ b2]) auto
qed simp

lemma represents_within:
  assumes "bounds_ok (mn, mx, neg)"
    and "\<And>L U. L \<le> 0 \<Longrightarrow> 0 \<le> U \<Longrightarrow> within L U (mn, mx, neg) \<longleftrightarrow>
       list_all (\<lambda>c. L \<le> constant_value abi c \<and> constant_value abi c \<le> U) vals"
    and "type_min abi t \<le> 0" "0 \<le> type_max abi t"
  shows "list_all (\<lambda>c. represents abi t (constant_value abi c)) vals \<longleftrightarrow>
     type_min abi t \<le> sint mn \<and> uint mx \<le> type_max abi t"
  using assms(2) [OF assms(3,4)] by (simp add: represents_def within_def)

text \<open>C30: The underlying type of an unscoped enumeration is the first type of the
  target's preference list (int, unsigned int, then the signed and the unsigned 64-bit
  type of the data model) that represents every enumerator value, and the selection fails
  exactly when no candidate does.\<close>

theorem enum_underlying_first_fit:
  assumes abi: "is_supported_abi_target (abi_target_of abi)"
    and vals: "list_all (canonical_constant abi) vals"
  shows "select_unscoped_enum_underlying vals abi =
     (case first_representing abi vals of
        None \<Rightarrow> (Configuration_failed, None)
      | Some t \<Rightarrow> (Ok, Some t))"
proof -
  obtain mn mx neg where b: "enum_bounds abi vals (0, 0, False) = Some (mn, mx, neg)"
    "bounds_ok (mn, mx, neg)"
    "\<And>L U. L \<le> 0 \<Longrightarrow> 0 \<le> U \<Longrightarrow> within L U (mn, mx, neg) \<longleftrightarrow>
       list_all (\<lambda>c. L \<le> constant_value abi c \<and> constant_value abi c \<le> U) vals"
    using enum_bounds_spec [OF vals, of "(0, 0, False)"] by (auto simp: bounds_ok_def within_def)
  note rep = represents_within [OF b(2,3)]
  have neg: "neg \<longleftrightarrow> sint mn < 0" and mn: "- 9223372036854775808 \<le> sint mn"
    using b(2) sint_ge [of mn] by (simp_all add: bounds_ok_def)
  have mx: "uint mx \<le> 18446744073709551615" using uint_bounded [of mx] by simp
  have int: "list_all (\<lambda>c. represents abi Integer (constant_value abi c)) vals \<longleftrightarrow>
      - 2147483648 \<le> sint mn \<and> mx \<le> 2147483647"
    using rep [of Integer] by (simp add: type_min_def type_max_def builtin_is_signed_def word_le_def)
  have uint: "list_all (\<lambda>c. represents abi Unsigned_integer (constant_value abi c)) vals \<longleftrightarrow>
      \<not> neg \<and> mx \<le> 4294967295"
    using rep [of Unsigned_integer] neg
    by (auto simp: type_min_def type_max_def builtin_is_signed_def word_le_def)
  show ?thesis
  proof (cases "abi_target_of abi")
    case Windows_x64
    have ll: "list_all (\<lambda>c. represents abi Long_long_integer (constant_value abi c)) vals \<longleftrightarrow>
        mx \<le> 9223372036854775807"
      using rep [of Long_long_integer] mn
      by (auto simp: type_min_def type_max_def builtin_is_signed_def word_le_def)
    have ull: "list_all (\<lambda>c. represents abi Unsigned_long_long_integer (constant_value abi c)) vals \<longleftrightarrow> \<not> neg"
      using rep [of Unsigned_long_long_integer] neg mx
      by (auto simp: type_min_def type_max_def builtin_is_signed_def)
    show ?thesis
      using abi Windows_x64 int uint ll ull
      by (simp add: select_unscoped_enum_underlying_def b(1) first_representing_def enum_candidates_def)
  next
    case Posix_x64
    have l: "list_all (\<lambda>c. represents abi Long_integer (constant_value abi c)) vals \<longleftrightarrow>
        mx \<le> 9223372036854775807"
      using rep [of Long_integer] mn Posix_x64
      by (auto simp: type_min_def type_max_def builtin_is_signed_def word_le_def)
    have ul: "list_all (\<lambda>c. represents abi Unsigned_long_integer (constant_value abi c)) vals \<longleftrightarrow> \<not> neg"
      using rep [of Unsigned_long_integer] neg mx Posix_x64
      by (auto simp: type_min_def type_max_def builtin_is_signed_def)
    show ?thesis
      using abi Posix_x64 int uint l ul
      by (simp add: select_unscoped_enum_underlying_def b(1) first_representing_def enum_candidates_def)
  next
    case Abi_unsupported
    with abi show ?thesis by (simp add: is_supported_abi_target_def)
  qed
qed

definition example_abi :: abi_configuration where
  "example_abi = \<lparr>abi_target_of = Posix_x64, abi_pack = 8\<rparr>"

definition example_enumerators :: "integral_constant list" where
  "example_enumerators =
     [\<lparr>constant_type = Integer, constant_bits = 0xFFFFFFFF\<rparr>,
      \<lparr>constant_type = Unsigned_integer, constant_bits = 0xFFFFFFFF\<rparr>]"

lemma enum_underlying_first_fit_witness:
  "select_unscoped_enum_underlying example_enumerators example_abi = (Ok, Some Long_integer)"
proof -
  have "is_supported_abi_target (abi_target_of example_abi)"
    "list_all (canonical_constant example_abi) example_enumerators"
    "first_representing example_abi example_enumerators = Some Long_integer"
    by code_simp+
  then show ?thesis using enum_underlying_first_fit [of example_abi example_enumerators] by simp
qed

section \<open>Conversion\<close>

lemma bit_mask_eq: "1 \<le> w \<Longrightarrow> w \<le> 64 \<Longrightarrow> bit_mask w = mask w"
  by (auto simp: bit_mask_def mask_eq_exp_minus_1 push_bit_of_1)

lemma uint_mask_u64: "w \<le> 64 \<Longrightarrow> uint (mask w :: u64) = 2 ^ w - 1"
proof -
  assume "w \<le> 64"
  then have "uint (mask w :: u64) = mask w" by (intro bit_eqI) (auto simp: bit_simps)
  then show ?thesis by (simp add: mask_eq_exp_minus_1)
qed

lemma uint_power_2: "n < 64 \<Longrightarrow> uint (2 ^ n :: u64) = 2 ^ n"
  by (intro bit_eqI) (auto simp: bit_simps)

lemma sint_power_2: "n < 63 \<Longrightarrow> sint (2 ^ n :: u64) = 2 ^ n"
proof -
  assume n: "n < 63"
  have "(2::int) ^ n \<le> 2 ^ 62" using n by (intro power_increasing) auto
  then have "(2::int) ^ n < 2 ^ 63" by (rule le_less_trans) simp
  moreover have "- (2 ^ 63) \<le> (2::int) ^ n" by (rule order_trans [of _ 0]) simp_all
  ultimately have "- (2 ^ 63) \<le> (2::int) ^ n" "(2::int) ^ n < 2 ^ 63" by blast+
  then have "signed_take_bit 63 (2 ^ n :: int) = 2 ^ n"
    by (rule signed_take_bit_int_eq_self)
  then show ?thesis using n by (simp add: sint_uint uint_power_2)
qed

lemma integral_widths:
  "is_integral t \<Longrightarrow> builtin_bit_width t abi \<noteq> 0 \<Longrightarrow> builtin_bit_width t abi \<in> {8, 16, 32, 64}"
  by (cases t; cases "abi_target_of abi") (simp_all add: is_integral_def less_eq_builtin_type_def)

lemma fits_integral_represents:
  assumes c: "canonical_constant abi c" and t: "is_integral t" "builtin_bit_width t abi \<noteq> 0"
  shows "fits_integral c t abi \<longleftrightarrow> represents abi t (constant_value abi c)"
proof -
  let ?w = "builtin_bit_width t abi" and ?s = "signed_value c abi" and ?v = "constant_value abi c"
  have sw: "builtin_bit_width (constant_type c) abi \<in> {1..64}" "is_integral (constant_type c)"
    using c by (simp_all add: canonical_constant_def)
  have w: "1 \<le> ?w" "?w \<le> 64" using integral_widths [OF t] by auto
  show ?thesis
  proof (cases "builtin_is_signed (constant_type c) abi")
    case True
    have v: "sint ?s = ?v" using constant_value_signed [OF sw(1) True] .
    have lo: "- 9223372036854775808 \<le> ?v" "?v \<le> 9223372036854775807"
      using sint_ge [of ?s] sint_lt [of ?s] by (simp_all add: v)
    show ?thesis
    proof (cases "builtin_is_signed t abi")
      case tgt: True
      show ?thesis
      proof (cases "?w = 64")
        case True
        with \<open>builtin_is_signed (constant_type c) abi\<close> tgt sw t lo show ?thesis
          by (simp add: fits_integral_def represents_def type_min_def type_max_def)
      next
        case False
        then have "?w - 1 < 63" using w by simp
        with False \<open>builtin_is_signed (constant_type c) abi\<close> tgt sw t w v show ?thesis
          by (auto simp: fits_integral_def represents_def type_min_def type_max_def Let_def sint_power_2)
      qed
    next
      case tgt: False
      have "?s \<le> bit_mask ?w \<longleftrightarrow> ?v \<le> 2 ^ ?w - 1" if "0 \<le> ?v"
        using that uint_sint_nonneg [of ?s] v w
        by (simp add: word_le_def bit_mask_eq uint_mask_u64)
      with tgt True sw t w v show ?thesis
        by (auto simp: fits_integral_def represents_def type_min_def type_max_def Let_def)
    qed
  next
    case False
    have v: "?v = uint (constant_bits c)" "0 \<le> ?v" using False by (simp_all add: constant_value_def)
    show ?thesis
    proof (cases "builtin_is_signed t abi")
      case tgt: True
      have "constant_bits c < push_bit (?w - 1) 1 \<longleftrightarrow> ?v < 2 ^ (?w - 1)"
        using w v by (simp add: word_less_def uint_power_2 push_bit_of_1)
      moreover have "- (2 ^ (?w - 1)) \<le> ?v" using v(2) by (smt (verit) zero_le_power)
      moreover have "?w = 64 \<Longrightarrow> constant_bits c \<le> 9223372036854775807 \<longleftrightarrow> ?v < 2 ^ (?w - 1)"
        using v by (simp add: word_le_def) linarith
      ultimately show ?thesis
        using False tgt sw t w
        by (auto simp: fits_integral_def represents_def type_min_def type_max_def Let_def)
    next
      case tgt: False
      have "constant_bits c \<le> bit_mask ?w \<longleftrightarrow> ?v \<le> 2 ^ ?w - 1"
        using w v by (simp add: word_le_def bit_mask_eq uint_mask_u64)
      with False tgt sw t w v(2) show ?thesis
        by (auto simp: fits_integral_def represents_def type_min_def type_max_def Let_def)
    qed
  qed
qed

text \<open>C24: Materializing an enumerator is lossless: a value fits a target type exactly
  when the type represents it (signedness and width of both sides resolved by the ABI),
  and then the converted bits, read back at the target type, are the same value.\<close>

theorem enumerator_conversion_lossless:
  assumes c: "canonical_constant abi c" and t: "is_integral t" "builtin_bit_width t abi \<noteq> 0"
  shows "(fits_integral c t abi \<longleftrightarrow> represents abi t (constant_value abi c)) \<and>
     (fits_integral c t abi \<longrightarrow>
        constant_value abi \<lparr>constant_type = t, constant_bits = convert_integral c t abi\<rparr> =
          constant_value abi c \<and>
        canonical_constant abi \<lparr>constant_type = t, constant_bits = convert_integral c t abi\<rparr>)"
proof -
  let ?w = "builtin_bit_width t abi" and ?v = "constant_value abi c" and ?r = "convert_integral c t abi"
  note fits = fits_integral_represents [OF c t]
  have sw: "builtin_bit_width (constant_type c) abi \<in> {1..64}"
    using c by (simp add: canonical_constant_def)
  have w: "1 \<le> ?w" "?w \<le> 64" using integral_widths [OF t] by auto
  define W where "W = (if builtin_is_signed (constant_type c) abi then signed_value c abi else constant_bits c)"
  have "W = word_of_int ?v"
  proof (cases "builtin_is_signed (constant_type c) abi")
    case True
    then have v: "?v = sint W" using constant_value_signed [OF sw True] by (simp add: W_def)
    show ?thesis by (simp add: v)
  next
    case False
    then show ?thesis by (simp add: W_def constant_value_def)
  qed
  then have "uint W = take_bit 64 ?v" by (simp add: uint_word_of_int_eq)
  moreover have "?r = W AND mask ?w" by (simp add: convert_integral_def Let_def W_def bit_mask_eq [OF w])
  ultimately have r: "uint ?r = take_bit ?w ?v"
    using w by (simp add: take_bit_eq_mask [symmetric] unsigned_take_bit_eq min_def)
  have "constant_value abi \<lparr>constant_type = t, constant_bits = ?r\<rparr> = ?v" if "represents abi t ?v"
  proof (cases "builtin_is_signed t abi")
    case True
    have "signed_take_bit (?w - 1) (take_bit ?w ?v) = signed_take_bit (?w - 1) ?v"
      using w by (intro signed_take_bit_eq_iff_take_bit_eq [THEN iffD2]) simp
    also have "\<dots> = ?v"
      using that True by (intro signed_take_bit_int_eq_self) (auto simp: represents_def type_min_def type_max_def)
    finally show ?thesis using True by (simp add: constant_value_def r)
  next
    case False
    have "take_bit ?w ?v = ?v"
      using that False by (intro take_bit_int_eq_self) (auto simp: represents_def type_min_def type_max_def)
    with False show ?thesis by (simp add: constant_value_def r)
  qed
  moreover have "canonical_constant abi \<lparr>constant_type = t, constant_bits = ?r\<rparr>"
    using t w by (auto simp: canonical_constant_def r take_bit_int_less_exp)
  ultimately show ?thesis using fits by blast
qed

lemma enumerator_conversion_lossless_witness:
  "constant_value example_abi
     \<lparr>constant_type = Signed_character,
      constant_bits = convert_integral \<lparr>constant_type = Integer, constant_bits = 0xFFFFFFFF\<rparr>
                        Signed_character example_abi\<rparr> = -1"
proof -
  let ?c = "\<lparr>constant_type = Integer, constant_bits = 0xFFFFFFFF\<rparr>"
  have "canonical_constant example_abi ?c" "is_integral Signed_character"
    "builtin_bit_width Signed_character example_abi \<noteq> 0"
    "fits_integral ?c Signed_character example_abi" "constant_value example_abi ?c = -1"
    by code_simp+
  then show ?thesis
    using enumerator_conversion_lossless [of example_abi ?c Signed_character] by simp
qed

end
