(* ===== verification/ContributionCache.thy ===== *)
theory ContributionCache
  imports BuiltinType Interfaces
begin

text \<open>
  The Source contribution cache and its update: \<^verbatim>\<open>builder/source_contribution_cache.hpp\<close>
  and \<^verbatim>\<open>builder/source_contribution_cache.cpp\<close>. The candidate slots live in the owner and
  are told apart by the generation of the update that wrote them, so an update and its
  cache are always passed together. A shared definition payload is immutable and is held
  by value. Identifiers are \<open>nat\<close>, 0 being the null identifier; tables are indexed by the
  identifier itself, slot 0 being unused. A \<open>bool\<close> argument named \<open>mem...\<close> says whether
  the allocation it stands for succeeds.
\<close>

section \<open>Data\<close>

datatype entity_kind = Aggregate_type | Enum_type

datatype enum_definition_state = Enum_opaque | Enum_defined

datatype aggregate_definition_state = Aggregate_declared | Aggregate_defined

record enum_value_record =
  enum_value_name :: nat
  enum_value_bits :: u64

record source_definition_payload =
  payload_underlying :: builtin_type
  payload_values :: "enum_value_record list"

record source_contribution_record =
  cr_entity :: nat
  cr_name :: nat
  cr_kind :: entity_kind
  cr_state :: enum_definition_state
  cr_scoped :: bool
  cr_fixed :: bool
  cr_underlying :: builtin_type
  cr_definition :: "source_definition_payload option"

record canonical_entity_construction_state =
  ec_declarations :: u32
  ec_scoped :: u32
  ec_unscoped :: u32
  ec_fixed :: u32
  ec_nonfixed :: u32
  ec_definitions :: u32
  ec_active_fixed :: u32
  ec_aggregate_declarations :: u32
  ec_aggregate_definitions :: u32
  ec_underlying :: "u32 list"
  ec_active_type :: builtin_type
  ec_definition_source :: nat
  ec_definition :: "source_definition_payload option"
  ec_aggregate_definition_source :: nat

definition new_entity_state :: canonical_entity_construction_state where
  "new_entity_state =
     \<lparr>ec_declarations = 0, ec_scoped = 0, ec_unscoped = 0, ec_fixed = 0, ec_nonfixed = 0,
      ec_definitions = 0, ec_active_fixed = 0, ec_aggregate_declarations = 0,
      ec_aggregate_definitions = 0, ec_underlying = replicate (builtin_code Void_type + 1) 0,
      ec_active_type = Integer, ec_definition_source = 0, ec_definition = None,
      ec_aggregate_definition_source = 0\<rparr>"

record source_contribution_state =
  sc_named :: "source_contribution_record list"
  sc_anonymous_types :: "nat list"

definition new_contribution :: source_contribution_state where
  "new_contribution = \<lparr>sc_named = [], sc_anonymous_types = []\<rparr>"

text \<open>The two slot types of the cache, one per value type.\<close>

record 'a candidate_slot =
  slot_generation :: u64
  slot_value :: 'a

definition new_slot :: "'a \<Rightarrow> 'a candidate_slot" where
  "new_slot v = \<lparr>slot_generation = 0, slot_value = v\<rparr>"

record source_contribution_cache =
  cc_states :: "source_contribution_state list"
  cc_candidates :: "source_contribution_state candidate_slot list"
  cc_entity_states :: "canonical_entity_construction_state list"
  cc_candidate_entities :: "canonical_entity_construction_state candidate_slot list"
  cc_next_generation :: u64
  cc_complete :: bool

definition new_contribution_cache :: source_contribution_cache where
  "new_contribution_cache =
     \<lparr>cc_states = [], cc_candidates = [], cc_entity_states = [], cc_candidate_entities = [],
      cc_next_generation = 1, cc_complete = True\<rparr>"

record source_contribution_cache_update =
  cu_owner :: bool
  cu_changed :: "nat list"
  cu_changed_entities :: "nat list"
  cu_generation :: u64
  cu_full_reconstruction :: bool
  cu_prepared :: bool
  cu_committed :: bool
  cu_states_size :: nat
  cu_entity_states_size :: nat
  cu_owner_growth :: bool
  cu_failure :: status_code

section \<open>The cache\<close>

definition cc_initialize ::
    "source_contribution_cache \<Rightarrow> status_code \<times> source_contribution_cache" where
  "cc_initialize c =
     (Ok, c\<lparr>cc_states := [], cc_candidates := [], cc_entity_states := [],
            cc_candidate_entities := [], cc_next_generation := 1, cc_complete := True\<rparr>)"

definition cc_begin_update ::
    "bool \<Rightarrow> source_contribution_cache
     \<Rightarrow> source_contribution_cache \<times> source_contribution_cache_update" where
  "cc_begin_update full c =
     (let generation = cc_next_generation c;
          c1 = c\<lparr>cc_next_generation := generation + 1\<rparr>;
          (generation, c2) =
            (if generation = 0
             then (cc_next_generation c1, c1\<lparr>cc_next_generation := cc_next_generation c1 + 1\<rparr>)
             else (generation, c1))
      in (c2, \<lparr>cu_owner = True, cu_changed = [], cu_changed_entities = [],
               cu_generation = generation, cu_full_reconstruction = full, cu_prepared = False,
               cu_committed = False, cu_states_size = 0, cu_entity_states_size = 0,
               cu_owner_growth = False, cu_failure = Ok\<rparr>))"

definition cc_contribution_count :: "source_contribution_cache \<Rightarrow> nat \<Rightarrow> nat" where
  "cc_contribution_count c source =
     (if source \<noteq> 0 \<and> source < length (cc_states c)
      then length (sc_named (cc_states c ! source)) else 0)"

definition cc_invalidate :: "source_contribution_cache \<Rightarrow> source_contribution_cache" where
  "cc_invalidate c =
     c\<lparr>cc_states := [], cc_candidates := [], cc_entity_states := [],
       cc_candidate_entities := [], cc_complete := False, cc_next_generation := 1\<rparr>"

section \<open>The update\<close>

text \<open>A slot of the current generation: what \<open>candidate\<close> and \<open>candidate_entity\<close> return.\<close>

definition tagged :: "u64 \<Rightarrow> 'a candidate_slot list \<Rightarrow> nat \<Rightarrow> 'a option" where
  "tagged g xs i =
     (if i = 0 \<or> i \<ge> length xs then None
      else if slot_generation (xs ! i) = g then Some (slot_value (xs ! i)) else None)"

definition cu_was_replaced ::
    "source_contribution_cache \<Rightarrow> source_contribution_cache_update \<Rightarrow> nat \<Rightarrow> bool" where
  "cu_was_replaced c u source \<longleftrightarrow>
     \<not> (\<not> cu_owner u \<or> source = 0 \<or> source \<ge> length (cc_candidates c)) \<and>
     slot_generation (cc_candidates c ! source) = cu_generation u"

definition cu_committed_state ::
    "source_contribution_cache \<Rightarrow> source_contribution_cache_update \<Rightarrow> nat
     \<Rightarrow> source_contribution_state option" where
  "cu_committed_state c u source =
     (if \<not> cu_owner u \<or> source = 0 \<or> source \<ge> length (cc_states c) then None
      else Some (cc_states c ! source))"

definition cu_candidate ::
    "source_contribution_cache \<Rightarrow> source_contribution_cache_update \<Rightarrow> nat
     \<Rightarrow> source_contribution_state option" where
  "cu_candidate c u source =
     (if \<not> cu_owner u then None else tagged (cu_generation u) (cc_candidates c) source)"

definition cu_candidate_entity ::
    "source_contribution_cache \<Rightarrow> source_contribution_cache_update \<Rightarrow> nat
     \<Rightarrow> canonical_entity_construction_state option" where
  "cu_candidate_entity c u entity =
     (if \<not> cu_owner u then None else tagged (cu_generation u) (cc_candidate_entities c) entity)"

text \<open>
  \<open>replace\<close>: \<open>mem\<close> is the growth of the slot table, \<open>mem'\<close> the append to the list of
  changed Sources, which fails after the slot is tagged. The output pointer is the slot
  that \<open>cu_candidate\<close> reads.
\<close>

definition cu_replace ::
    "bool \<Rightarrow> bool \<Rightarrow> source_contribution_cache \<Rightarrow> source_contribution_cache_update \<Rightarrow> nat
     \<Rightarrow> status_code \<times> source_contribution_cache \<times> source_contribution_cache_update" where
  "cu_replace mem mem' c u source =
     (if cu_failure u \<noteq> Ok then (cu_failure u, c, u)
      else if \<not> cu_owner u \<or> cu_prepared u \<or> cu_committed u \<or> source = 0
           \<or> cu_was_replaced c u source then (Invalid_state, c, u\<lparr>cu_failure := Invalid_state\<rparr>)
      else if length (cc_candidates c) \<le> source \<and> \<not> mem then
        (Initialization_failed, c, u\<lparr>cu_failure := Initialization_failed\<rparr>)
      else
        let slots = grow (source + 1) (new_slot new_contribution) (cc_candidates c);
            c' = c\<lparr>cc_candidates :=
                   slots[source := \<lparr>slot_generation = cu_generation u, slot_value = new_contribution\<rparr>]\<rparr>
        in if \<not> mem' then (Initialization_failed, c', u\<lparr>cu_failure := Initialization_failed\<rparr>)
           else (Ok, c', u\<lparr>cu_changed := cu_changed u @ [source]\<rparr>))"

text \<open>
  A write through the pointer that \<open>replace\<close> or \<open>candidate\<close> returned, and through the
  reference that \<open>touch_entity\<close> returned: how the Graph update fills the candidates.
\<close>

definition cu_write ::
    "source_contribution_cache \<Rightarrow> nat \<Rightarrow> source_contribution_state \<Rightarrow> source_contribution_cache" where
  "cu_write c source value =
     c\<lparr>cc_candidates :=
         (cc_candidates c)[source := (cc_candidates c ! source)\<lparr>slot_value := value\<rparr>]\<rparr>"

definition cu_write_entity ::
    "source_contribution_cache \<Rightarrow> nat \<Rightarrow> canonical_entity_construction_state
     \<Rightarrow> source_contribution_cache" where
  "cu_write_entity c entity value =
     c\<lparr>cc_candidate_entities :=
         (cc_candidate_entities c)[entity := (cc_candidate_entities c ! entity)\<lparr>slot_value := value\<rparr>]\<rparr>"

text \<open>\<open>touch_entity\<close>: the first component says whether it returned rather than threw.\<close>

definition cu_touch_entity ::
    "bool \<Rightarrow> bool \<Rightarrow> source_contribution_cache \<Rightarrow> source_contribution_cache_update \<Rightarrow> nat
     \<Rightarrow> bool \<times> source_contribution_cache \<times> source_contribution_cache_update" where
  "cu_touch_entity mem mem' c u entity =
     (if \<not> cu_owner u \<or> entity = 0 \<or> cu_prepared u \<or> cu_committed u then (False, c, u)
      else if length (cc_candidate_entities c) \<le> entity \<and> \<not> mem then (False, c, u)
      else
        let slots = grow (entity + 1) (new_slot new_entity_state) (cc_candidate_entities c) in
        if slot_generation (slots ! entity) \<noteq> cu_generation u then
          (let value = (if \<not> cu_full_reconstruction u \<and> entity < length (cc_entity_states c)
                        then cc_entity_states c ! entity else new_entity_state);
               c' = c\<lparr>cc_candidate_entities :=
                      slots[entity := \<lparr>slot_generation = cu_generation u, slot_value = value\<rparr>]\<rparr>
           in if \<not> mem' then (False, c', u)
              else (True, c', u\<lparr>cu_changed_entities := cu_changed_entities u @ [entity]\<rparr>))
        else (True, c\<lparr>cc_candidate_entities := slots\<rparr>, u))"

text \<open>
  The two loops of \<open>remap_new_entities\<close>: the slots of this generation in the renumbered
  range are taken out, then put down under their new identifiers.
\<close>

fun remap_collect ::
    "u64 \<Rightarrow> 'a candidate_slot \<Rightarrow> nat \<Rightarrow> nat list \<Rightarrow> 'a candidate_slot list
     \<Rightarrow> (nat \<times> 'a) list \<times> 'a candidate_slot list" where
  "remap_collect g d raw [] xs = ([], xs)"
| "remap_collect g d raw (target # targets) xs =
     (if raw \<ge> length xs \<or> slot_generation (xs ! raw) \<noteq> g
      then remap_collect g d (Suc raw) targets xs
      else case remap_collect g d (Suc raw) targets (xs[raw := d]) of
             (previous, ys) \<Rightarrow>
               (if target \<noteq> 0 then (target, slot_value (xs ! raw)) # previous else previous, ys))"

fun remap_place ::
    "bool \<Rightarrow> u64 \<Rightarrow> 'a candidate_slot \<Rightarrow> (nat \<times> 'a) list \<Rightarrow> 'a candidate_slot list
     \<Rightarrow> bool \<times> 'a candidate_slot list" where
  "remap_place mem g d [] xs = (True, xs)"
| "remap_place mem g d ((target, value) # items) xs =
     (if length xs \<le> target \<and> \<not> mem then (False, xs)
      else remap_place mem g d items
             ((grow (target + 1) d xs)[target := \<lparr>slot_generation = g, slot_value = value\<rparr>]))"

definition remap_id :: "nat \<Rightarrow> nat list \<Rightarrow> nat \<Rightarrow> nat" where
  "remap_id base remap i =
     (if base \<le> i \<and> i < base + length remap then remap ! (i - base) else i)"

definition cu_remap_new_entities ::
    "bool \<Rightarrow> bool \<Rightarrow> source_contribution_cache \<Rightarrow> source_contribution_cache_update \<Rightarrow> nat \<Rightarrow> nat list
     \<Rightarrow> status_code \<times> source_contribution_cache \<times> source_contribution_cache_update" where
  "cu_remap_new_entities mem mem' c u base remap =
     (if \<not> cu_owner u \<or> cu_prepared u \<or> cu_committed u
      then (Invalid_state, c, u\<lparr>cu_failure := Invalid_state\<rparr>)
      else if \<not> mem then (Initialization_failed, c, u\<lparr>cu_failure := Initialization_failed\<rparr>)
      else
        case remap_collect (cu_generation u) (new_slot new_entity_state) base remap
               (cc_candidate_entities c) of
          (previous, xs) \<Rightarrow>
            (case remap_place mem' (cu_generation u) (new_slot new_entity_state) previous xs of
               (placed, ys) \<Rightarrow>
                 (let c' = c\<lparr>cc_candidate_entities := ys\<rparr> in
                  if \<not> placed
                  then (Initialization_failed, c', u\<lparr>cu_failure := Initialization_failed\<rparr>)
                  else
                    (Ok, c', u\<lparr>cu_changed_entities :=
                                 filter (\<lambda>i. i \<noteq> 0) (map (remap_id base remap) (cu_changed_entities u))\<rparr>))))"

section \<open>Publication\<close>

definition maximum_id :: "nat list \<Rightarrow> nat" where
  "maximum_id ids = fold max ids 0"

text \<open>\<open>mem\<close> is the growth of the contributions, \<open>mem'\<close> that of the entity states.\<close>

definition cu_prepare_publish ::
    "bool \<Rightarrow> bool \<Rightarrow> source_contribution_cache \<Rightarrow> source_contribution_cache_update
     \<Rightarrow> status_code \<times> source_contribution_cache \<times> source_contribution_cache_update" where
  "cu_prepare_publish mem mem' c u =
     (if cu_failure u \<noteq> Ok then (cu_failure u, c, u)
      else if \<not> cu_owner u \<or> cu_prepared u \<or> cu_committed u
      then (Invalid_state, c, u\<lparr>cu_failure := Invalid_state\<rparr>)
      else
        let u1 = u\<lparr>cu_states_size := length (cc_states c),
                   cu_entity_states_size := length (cc_entity_states c), cu_owner_growth := True\<rparr>;
            grow_states = (cu_changed u \<noteq> [] \<and> length (cc_states c) \<le> maximum_id (cu_changed u));
            grow_entities = (cu_changed_entities u \<noteq> []
                             \<and> length (cc_entity_states c) \<le> maximum_id (cu_changed_entities u))
        in if grow_states \<and> \<not> mem
           then (Initialization_failed, c, u1\<lparr>cu_failure := Initialization_failed\<rparr>)
           else
             let c1 = (if grow_states
                       then c\<lparr>cc_states := grow (maximum_id (cu_changed u) + 1) new_contribution (cc_states c)\<rparr>
                       else c)
             in if grow_entities \<and> \<not> mem'
                then (Initialization_failed, c1, u1\<lparr>cu_failure := Initialization_failed\<rparr>)
                else
                  (Ok,
                   if grow_entities
                   then c1\<lparr>cc_entity_states :=
                            grow (maximum_id (cu_changed_entities u) + 1) new_entity_state (cc_entity_states c1)\<rparr>
                   else c1,
                   u1\<lparr>cu_prepared := True\<rparr>))"

fun swap_candidates ::
    "nat list \<Rightarrow> 'a list \<Rightarrow> 'a candidate_slot list \<Rightarrow> 'a list \<times> 'a candidate_slot list" where
  "swap_candidates [] states slots = (states, slots)"
| "swap_candidates (i # ids) states slots =
     swap_candidates ids (states[i := slot_value (slots ! i)])
       (slots[i := (slots ! i)\<lparr>slot_value := states ! i\<rparr>])"

definition cu_publish_prepared ::
    "source_contribution_cache \<Rightarrow> source_contribution_cache_update
     \<Rightarrow> source_contribution_cache \<times> source_contribution_cache_update" where
  "cu_publish_prepared c u =
     (if \<not> cu_owner u \<or> \<not> cu_prepared u \<or> cu_committed u then (c, u)
      else
        let states = (if cu_full_reconstruction u
                      then map (\<lambda>s. s\<lparr>sc_named := [], sc_anonymous_types := []\<rparr>) (cc_states c)
                      else cc_states c);
            entities = (if cu_full_reconstruction u
                        then map (\<lambda>_. new_entity_state) (cc_entity_states c)
                        else cc_entity_states c);
            (states', slots) = swap_candidates (cu_changed u) states (cc_candidates c);
            (entities', entity_slots) =
              swap_candidates (cu_changed_entities u) entities (cc_candidate_entities c)
        in (c\<lparr>cc_states := states', cc_candidates := slots, cc_entity_states := entities',
              cc_candidate_entities := entity_slots, cc_complete := True\<rparr>,
            u\<lparr>cu_owner_growth := False, cu_committed := True\<rparr>))"

definition cu_cancel ::
    "source_contribution_cache \<Rightarrow> source_contribution_cache_update
     \<Rightarrow> source_contribution_cache \<times> source_contribution_cache_update" where
  "cu_cancel c u =
     (if cu_committed u then (c, u)
      else if cu_owner u \<and> cu_owner_growth u then
        (c\<lparr>cc_states := take (cu_states_size u) (cc_states c),
           cc_entity_states := take (cu_entity_states_size u) (cc_entity_states c)\<rparr>,
         u\<lparr>cu_owner_growth := False, cu_prepared := True, cu_failure := Invalid_state\<rparr>)
      else (c, u\<lparr>cu_prepared := True, cu_failure := Invalid_state\<rparr>))"

section \<open>Tagged slots\<close>

text \<open>
  \<open>tracks g xs ids\<close>: \<open>ids\<close> lists, once each, the slots that generation \<open>g\<close> owns. Every
  operation is described by what it does to \<open>tagged\<close> and to this list.
\<close>

definition tracks :: "u64 \<Rightarrow> 'a candidate_slot list \<Rightarrow> nat list \<Rightarrow> bool" where
  "tracks g xs ids \<longleftrightarrow> distinct ids \<and> (\<forall>i. i \<in> set ids \<longleftrightarrow> tagged g xs i \<noteq> None)"

named_theorems tagged_simps \<open>the current slots after an update of the slot table\<close>

lemma tagged_0 [simp]: "tagged g xs 0 = None"
  by (simp add: tagged_def)

lemma tagged_bound: "tagged g xs i = Some v \<Longrightarrow> 0 < i \<and> i < length xs"
  by (simp add: tagged_def split: if_splits)

lemma tagged_grow [tagged_simps]:
  "slot_generation d \<noteq> g \<Longrightarrow> tagged g (grow n d xs) i = tagged g xs i"
  by (auto simp: tagged_def nth_grow less_max_iff_disj)

lemma tagged_put [tagged_simps]:
  "0 < j \<Longrightarrow> j < length xs \<Longrightarrow> slot_generation s = g \<Longrightarrow>
   tagged g (xs[j := s]) i = (if i = j then Some (slot_value s) else tagged g xs i)"
  by (auto simp: tagged_def nth_list_update)

lemma tagged_clear [tagged_simps]:
  "slot_generation s \<noteq> g \<Longrightarrow> tagged g (xs[j := s]) i = (if i = j then None else tagged g xs i)"
  by (cases "j < length xs") (auto simp: tagged_def nth_list_update)

lemma tagged_write:
  assumes "tagged g xs j \<noteq> None"
  shows "tagged g (xs[j := (xs ! j)\<lparr>slot_value := v\<rparr>]) i = (if i = j then Some v else tagged g xs i)"
proof -
  have "0 < j" "j < length xs" "slot_generation (xs ! j) = g"
    using assms by (auto simp: tagged_def split: if_splits)
  then show ?thesis by (simp add: tagged_put)
qed

lemma tagged_fresh:
  "(\<And>s. s \<in> set xs \<Longrightarrow> slot_generation s \<noteq> g) \<Longrightarrow> tagged g xs i = None"
  by (auto simp: tagged_def)

lemma tracks_Nil: "(\<And>s. s \<in> set xs \<Longrightarrow> slot_generation s \<noteq> g) \<Longrightarrow> tracks g xs []"
  by (simp add: tracks_def tagged_fresh)

lemma tracks_same: "tracks g xs ids \<Longrightarrow> (\<And>i. tagged g ys i \<noteq> None \<longleftrightarrow> tagged g xs i \<noteq> None) \<Longrightarrow> tracks g ys ids"
  by (simp add: tracks_def)

lemma tracks_snoc:
  assumes "tracks g xs ids" "tagged g xs j = None" "\<And>i. tagged g ys i = (if i = j then Some v else tagged g xs i)"
  shows "tracks g ys (ids @ [j])"
  using assms by (auto simp: tracks_def)

section \<open>Renumbering\<close>

lemma remap_collect_slots:
  "slot_generation d \<noteq> g \<Longrightarrow> 0 < raw \<Longrightarrow>
   tagged g (snd (remap_collect g d raw ts xs)) i =
     (if raw \<le> i \<and> i < raw + length ts then None else tagged g xs i)"
proof (induction ts arbitrary: raw xs)
  case (Cons t ts)
  have range: "raw \<le> i \<and> i < raw + length (t # ts) \<longleftrightarrow>
      i = raw \<or> Suc raw \<le> i \<and> i < Suc raw + length ts" by auto
  have IH: "tagged g (snd (remap_collect g d (Suc raw) ts ys)) i =
      (if Suc raw \<le> i \<and> i < Suc raw + length ts then None else tagged g ys i)" for ys
    by (rule Cons.IH) (use Cons.prems in simp_all)
  show ?case
  proof (cases "raw \<ge> length xs \<or> slot_generation (xs ! raw) \<noteq> g")
    case True
    then have "tagged g xs raw = None" by (auto simp: tagged_def)
    with True IH [of xs] show ?thesis unfolding range by (cases "i = raw") auto
  next
    case False
    with IH [of "xs[raw := d]"] Cons.prems(1) show ?thesis
      unfolding range by (cases "i = raw") (auto simp: tagged_clear split: prod.splits)
  qed
qed auto

lemma remap_collect_items:
  "slot_generation d \<noteq> g \<Longrightarrow> 0 < raw \<Longrightarrow>
   set (fst (remap_collect g d raw ts xs)) =
     {(ts ! k, v) |k v. k < length ts \<and> ts ! k \<noteq> 0 \<and> tagged g xs (raw + k) = Some v}"
proof (induction ts arbitrary: raw xs)
  case (Cons t ts)
  let ?rest = "\<lambda>ys. {(ts ! k, v) |k v. k < length ts \<and> ts ! k \<noteq> 0 \<and> tagged g ys (Suc raw + k) = Some v}"
  have split: "{((t # ts) ! k, v) |k v. k < length (t # ts) \<and> (t # ts) ! k \<noteq> 0 \<and> tagged g xs (raw + k) = Some v}
      = {(t, v) |v. t \<noteq> 0 \<and> tagged g xs raw = Some v} \<union> ?rest xs"
    (is "?L = ?R")
  proof (rule set_eqI)
    fix p
    show "p \<in> ?L \<longleftrightarrow> p \<in> ?R"
    proof
      assume "p \<in> ?L"
      then obtain k v where p: "p = ((t # ts) ! k, v)" "k < length (t # ts)" "(t # ts) ! k \<noteq> 0"
        "tagged g xs (raw + k) = Some v" by blast
      then show "p \<in> ?R" by (cases k) auto
    next
      assume "p \<in> ?R"
      then consider v where "p = (t, v)" "t \<noteq> 0" "tagged g xs raw = Some v"
        | k v where "p = (ts ! k, v)" "k < length ts" "ts ! k \<noteq> 0" "tagged g xs (Suc raw + k) = Some v"
        by blast
      then show "p \<in> ?L"
      proof cases
        case 1
        then show ?thesis by (intro CollectI exI [of _ 0] exI) auto
      next
        case 2
        then show ?thesis by (intro CollectI exI [of _ "Suc k" for k] exI) auto
      qed
    qed
  qed
  show ?case
  proof (cases "raw \<ge> length xs \<or> slot_generation (xs ! raw) \<noteq> g")
    case True
    then have "tagged g xs raw = None" by (auto simp: tagged_def)
    with True Cons.IH [of "Suc raw" xs] Cons.prems show ?thesis unfolding split by simp
  next
    case False
    then have v: "tagged g xs raw = Some (slot_value (xs ! raw))"
      using Cons.prems by (simp add: tagged_def)
    have "?rest (xs[raw := d]) = ?rest xs"
      using Cons.prems(1) by (simp add: tagged_clear)
    with False v Cons.IH [of "Suc raw" "xs[raw := d]"] Cons.prems show ?thesis
      unfolding split by (auto split: prod.splits)
  qed
qed simp

lemma remap_collect_distinct:
  "distinct (filter (\<lambda>t. t \<noteq> 0) ts) \<Longrightarrow>
   distinct (map fst (fst (remap_collect g d raw ts xs))) \<and>
   fst ` set (fst (remap_collect g d raw ts xs)) \<subseteq> set ts - {0}"
proof (induction ts arbitrary: raw xs)
  case (Cons t ts)
  have IH: "distinct (map fst (fst (remap_collect g d r ts ys))) \<and>
      fst ` set (fst (remap_collect g d r ts ys)) \<subseteq> set ts - {0}" for r ys
    using Cons by (simp split: if_splits)
  have new: "t = 0 \<or> t \<notin> set ts" using Cons.prems by auto
  obtain ps ys where r: "remap_collect g d (Suc raw) ts (xs[raw := d]) = (ps, ys)" by force
  have "distinct (map fst ps)" and sub: "fst ` set ps \<subseteq> set ts - {0}"
    using IH [of "Suc raw" "xs[raw := d]"] by (simp_all add: r)
  moreover have "t = 0 \<or> t \<notin> fst ` set ps" using new sub by blast
  ultimately show ?case
    using IH [of "Suc raw" xs] by (simp add: r) blast
qed simp

lemma remap_place_slots:
  assumes "remap_place mem g d items xs = (True, ys)" "distinct (map fst items)"
    "0 \<notin> fst ` set items" "slot_generation d \<noteq> g"
  shows "tagged g ys i = (case map_of items i of Some v \<Rightarrow> Some v | None \<Rightarrow> tagged g xs i)"
  using assms
proof (induction items arbitrary: xs)
  case (Cons item items)
  obtain t v where item: "item = (t, v)" by force
  let ?xs = "(grow (Suc t) d xs)[t := \<lparr>slot_generation = g, slot_value = v\<rparr>]"
  have "remap_place mem g d items ?xs = (True, ys)"
    using Cons.prems(1) by (simp add: item split: if_splits)
  then have "tagged g ys i = (case map_of items i of Some v \<Rightarrow> Some v | None \<Rightarrow> tagged g ?xs i)"
    using Cons.IH Cons.prems by simp
  moreover have "tagged g ?xs i = (if i = t then Some v else tagged g xs i)"
    using Cons.prems(3,4) by (simp add: item tagged_simps)
  moreover have "map_of items t = None"
    using Cons.prems(2) by (simp add: item map_of_eq_None_iff)
  ultimately show ?case by (cases "map_of items i") (auto simp: item)
qed simp

text \<open>
  A renumbering as the Graph makes it: the targets of the kept identifiers are distinct
  and lie in the renumbered range.
\<close>

definition remap_ok :: "nat \<Rightarrow> nat list \<Rightarrow> bool" where
  "remap_ok base remap \<longleftrightarrow> 0 < base \<and> distinct (filter (\<lambda>t. t \<noteq> 0) remap) \<and>
     (\<forall>t\<in>set remap. t = 0 \<or> base \<le> t \<and> t < base + length remap)"

lemma nth_eq_filter_distinct:
  "distinct (filter P xs) \<Longrightarrow> i < length xs \<Longrightarrow> j < length xs \<Longrightarrow> P (xs ! i) \<Longrightarrow> xs ! i = xs ! j \<Longrightarrow> i = j"
proof (induction xs arbitrary: i j)
  case (Cons x xs)
  have inj: "i' = j'" if "i' < length xs" "j' < length xs" "P (xs ! i')" "xs ! i' = xs ! j'" for i' j'
    using Cons that by (simp split: if_splits)
  have new: "xs ! k \<noteq> x" if "P x" "k < length xs" for k
    using Cons.prems(1) that nth_mem [of k xs] by auto
  note prems = Cons.prems(2-)
  show ?case
  proof (cases i)
    case 0
    with prems new show ?thesis by (cases j) force+
  next
    case i: (Suc i')
    show ?thesis
    proof (cases j)
      case 0
      with prems i have "P x" "xs ! i' = x" "i' < length xs" by simp_all
      with new show ?thesis by blast
    next
      case (Suc j')
      with prems i have "i' = j'" by (intro inj) simp_all
      with i Suc show ?thesis by simp
    qed
  qed
qed simp

lemma remap_id_inj:
  assumes "remap_ok base remap" "remap_id base remap i = remap_id base remap j" "remap_id base remap i \<noteq> 0"
  shows "i = j"
proof -
  let ?in = "\<lambda>i. base \<le> i \<and> i < base + length remap"
  have val: "remap_id base remap k \<noteq> 0 \<Longrightarrow> ?in (remap_id base remap k) \<longleftrightarrow> ?in k" for k
  proof -
    assume nz: "remap_id base remap k \<noteq> 0"
    show ?thesis
    proof (cases "?in k")
      case True
      then have "k - base < length remap" by auto
      then have "remap ! (k - base) \<in> set remap" by (rule nth_mem)
      with True nz assms(1) show ?thesis by (auto simp: remap_ok_def remap_id_def)
    qed (auto simp: remap_id_def)
  qed
  show ?thesis
  proof (cases "?in i")
    case True
    then have "?in j" using val [of i] val [of j] assms by simp
    with True have "i - base = j - base"
      using assms nth_eq_filter_distinct [of "\<lambda>t. t \<noteq> 0" remap "i - base" "j - base"]
      by (auto simp: remap_ok_def remap_id_def)
    with True \<open>?in j\<close> show ?thesis by linarith
  next
    case False
    then have "\<not> ?in j" using val [of i] val [of j] assms by simp
    with False show ?thesis using assms(2) by (auto simp: remap_id_def)
  qed
qed

text \<open>The slots after a whole renumbering, and the renumbered list of changed identifiers.\<close>

lemma remap_slots:
  assumes ok: "remap_ok base remap" and d: "slot_generation d \<noteq> g"
    and col: "remap_collect g d base remap xs = (previous, ys)"
    and place: "remap_place mem g d previous ys = (True, zs)"
  shows "tagged g zs t = Some v \<longleftrightarrow> t \<noteq> 0 \<and> (\<exists>i. remap_id base remap i = t \<and> tagged g xs i = Some v)"
proof -
  let ?in = "\<lambda>i. base \<le> i \<and> i < base + length remap"
  have b: "0 < base" and dist: "distinct (filter (\<lambda>t. t \<noteq> 0) remap)"
    using ok by (simp_all add: remap_ok_def)
  have items: "set previous =
      {(remap ! k, v) |k v. k < length remap \<and> remap ! k \<noteq> 0 \<and> tagged g xs (base + k) = Some v}"
    using remap_collect_items [OF d b, of remap xs] by (simp add: col)
  have ys: "tagged g ys i = (if ?in i then None else tagged g xs i)" for i
    using remap_collect_slots [OF d b, of remap xs i] by (simp add: col)
  have dist': "distinct (map fst previous)" "0 \<notin> fst ` set previous"
    using remap_collect_distinct [OF dist, of g d base xs] by (auto simp: col)
  have zs: "tagged g zs t = (case map_of previous t of Some v \<Rightarrow> Some v | None \<Rightarrow> tagged g ys t)"
    by (rule remap_place_slots [OF place dist' d])
  have target: "?in t" if mem: "(t, v) \<in> set previous" for v
  proof -
    obtain k where k: "k < length remap" "remap ! k = t" "remap ! k \<noteq> 0"
      using mem by (auto simp: items)
    have "remap ! k \<in> set remap" using k(1) by (rule nth_mem)
    with k ok show ?thesis by (auto simp: remap_ok_def)
  qed
  have moved: "map_of previous t = Some v \<longleftrightarrow>
      t \<noteq> 0 \<and> (\<exists>i. ?in i \<and> remap_id base remap i = t \<and> tagged g xs i = Some v)" for v
  proof -
    have "map_of previous t = Some v \<longleftrightarrow> (t, v) \<in> set previous"
      using dist'(1) by (rule map_of_eq_Some_iff)
    also have "\<dots> \<longleftrightarrow> t \<noteq> 0 \<and> (\<exists>i. ?in i \<and> remap_id base remap i = t \<and> tagged g xs i = Some v)"
      (is "_ \<longleftrightarrow> ?R")
    proof
      assume "(t, v) \<in> set previous"
      then obtain k where "k < length remap" "remap ! k = t" "remap ! k \<noteq> 0" "tagged g xs (base + k) = Some v"
        unfolding items by blast
      then show ?R by (auto simp: remap_id_def intro!: exI [of _ "base + k"])
    next
      assume ?R
      then obtain i where i: "t \<noteq> 0" "?in i" "remap_id base remap i = t" "tagged g xs i = Some v" by blast
      then have "i - base < length remap" "remap ! (i - base) = t" "tagged g xs (base + (i - base)) = Some v"
        by (auto simp: remap_id_def)
      with i(1) show "(t, v) \<in> set previous" unfolding items by blast
    qed
    finally show ?thesis .
  qed
  show ?thesis
  proof (cases "map_of previous t")
    case None
    have "\<not> ?in t \<Longrightarrow> tagged g xs t = Some v \<Longrightarrow> remap_id base remap t = t \<and> t \<noteq> 0"
      using tagged_bound by (fastforce simp: remap_id_def)
    moreover have "\<not> ?in i \<Longrightarrow> remap_id base remap i = i" for i by (auto simp: remap_id_def)
    ultimately show ?thesis using zs ys [of t] moved None by (metis option.simps(3,4))
  next
    case (Some w)
    have "i = j" if "remap_id base remap i = t" "remap_id base remap j = t" "t \<noteq> 0" for i j
      using remap_id_inj [OF ok, of i j] that by simp
    moreover obtain i where "t \<noteq> 0" "remap_id base remap i = t" "tagged g xs i = Some w"
      using moved [of w] Some by blast
    ultimately show ?thesis using zs Some by (metis option.simps(5) option.inject)
  qed
qed

lemma remap_tracks:
  assumes ok: "remap_ok base remap" and d: "slot_generation d \<noteq> g" and tr: "tracks g xs ids"
    and col: "remap_collect g d base remap xs = (previous, ys)"
    and place: "remap_place mem g d previous ys = (True, zs)"
  shows "tracks g zs (filter (\<lambda>i. i \<noteq> 0) (map (remap_id base remap) ids))"
proof -
  let ?f = "remap_id base remap"
  have "distinct (filter (\<lambda>i. i \<noteq> 0) (map ?f ids))"
  proof -
    have "inj_on ?f (set (filter (\<lambda>i. ?f i \<noteq> 0) ids))"
      using remap_id_inj [OF ok] by (intro inj_onI) simp
    moreover have "distinct (filter (\<lambda>i. ?f i \<noteq> 0) ids)" using tr by (simp add: tracks_def)
    ultimately show ?thesis by (simp add: filter_map o_def distinct_map)
  qed
  moreover have "t \<in> set (filter (\<lambda>i. i \<noteq> 0) (map ?f ids)) \<longleftrightarrow> tagged g zs t \<noteq> None" for t
  proof -
    have "tagged g zs t \<noteq> None \<longleftrightarrow> t \<noteq> 0 \<and> (\<exists>i. ?f i = t \<and> tagged g xs i \<noteq> None)"
    proof -
      have iff: "tagged g zs t = Some v \<longleftrightarrow> t \<noteq> 0 \<and> (\<exists>i. ?f i = t \<and> tagged g xs i = Some v)" for v
        by (rule remap_slots [OF ok d col place])
      show ?thesis unfolding not_None_eq iff by blast
    qed
    also have "\<dots> \<longleftrightarrow> t \<noteq> 0 \<and> (\<exists>i\<in>set ids. ?f i = t)"
      using tr by (auto simp: tracks_def)
    finally show ?thesis by auto
  qed
  ultimately show ?thesis by (simp add: tracks_def)
qed

section \<open>Swapping candidates in\<close>

lemma maximum_id_ge: "i \<in> set ids \<Longrightarrow> i \<le> maximum_id ids"
proof -
  have "i \<in> set ids \<or> i \<le> m \<Longrightarrow> i \<le> fold max ids m" for m
    by (induction ids arbitrary: m) (auto simp: le_max_iff_disj)
  then show "i \<in> set ids \<Longrightarrow> i \<le> maximum_id ids" by (simp add: maximum_id_def)
qed

lemma swap_candidates_spec:
  assumes "distinct ids" "\<And>i. i \<in> set ids \<Longrightarrow> i < length states \<and> i < length slots"
    "swap_candidates ids states slots = (states', slots')"
  shows "length states' = length states \<and>
     (\<forall>j<length states. states' ! j = (if j \<in> set ids then slot_value (slots ! j) else states ! j)) \<and>
     map slot_generation slots' = map slot_generation slots"
  using assms
proof (induction ids arbitrary: states slots)
  case (Cons i ids)
  let ?states = "states[i := slot_value (slots ! i)]"
    and ?slots = "slots[i := (slots ! i)\<lparr>slot_value := states ! i\<rparr>]"
  have "swap_candidates ids ?states ?slots = (states', slots')" using Cons.prems(3) by simp
  then have IH: "length states' = length states"
    "\<forall>j<length states. states' ! j = (if j \<in> set ids then slot_value (?slots ! j) else ?states ! j)"
    "map slot_generation slots' = map slot_generation ?slots"
    using Cons.IH [of ?states ?slots] Cons.prems(1,2) by auto
  have "map slot_generation ?slots = map slot_generation slots"
    by (simp add: map_update) (metis list_update_id map_update)
  moreover have "states' ! j = (if j \<in> set (i # ids) then slot_value (slots ! j) else states ! j)"
    if "j < length states" for j
    using IH(2) that Cons.prems(1) Cons.prems(2) [of i] by (cases "j = i") auto
  ultimately show ?case using IH by simp
qed simp

section \<open>Invariants\<close>

definition slots_below :: "u64 \<Rightarrow> 'a candidate_slot list \<Rightarrow> bool" where
  "slots_below n xs \<longleftrightarrow> (\<forall>s\<in>set xs. slot_generation s < n)"

definition cache_wf :: "source_contribution_cache \<Rightarrow> bool" where
  "cache_wf c \<longleftrightarrow> cc_next_generation c \<noteq> 0 \<and>
     slots_below (cc_next_generation c) (cc_candidates c) \<and>
     slots_below (cc_next_generation c) (cc_candidate_entities c)"

definition cu_wf ::
    "source_contribution_cache \<Rightarrow> source_contribution_cache_update \<Rightarrow> bool" where
  "cu_wf c u \<longleftrightarrow> cache_wf c \<and> cu_owner u \<and> \<not> cu_committed u \<and> \<not> cu_prepared u \<and>
     \<not> cu_owner_growth u \<and> cu_generation u \<noteq> 0 \<and> cu_generation u < cc_next_generation c \<and>
     (cu_failure u = Ok \<longrightarrow>
        tracks (cu_generation u) (cc_candidates c) (cu_changed u) \<and>
        tracks (cu_generation u) (cc_candidate_entities c) (cu_changed_entities u))"

lemma slots_below_grow:
  "slot_generation d < n \<Longrightarrow> slots_below n xs \<Longrightarrow> slots_below n (grow k d xs)"
  by (auto simp: slots_below_def grow_def resize_def dest: in_set_takeD)

lemma slots_below_update:
  "slot_generation s < n \<Longrightarrow> slots_below n xs \<Longrightarrow> slots_below n (xs[i := s])"
  using set_update_subset_insert [of xs i s] by (auto simp: slots_below_def)

lemma slots_below_write:
  assumes "slots_below n xs"
  shows "slots_below n (xs[i := (xs ! i)\<lparr>slot_value := v\<rparr>])"
proof (cases "i < length xs")
  case True
  then have "slot_generation (xs ! i) < n" using assms nth_mem by (auto simp: slots_below_def)
  then show ?thesis using assms by (intro slots_below_update) simp_all
qed (use assms in \<open>simp add: list_update_beyond\<close>)

lemma slots_below_map:
  "map slot_generation ys = map slot_generation xs \<Longrightarrow> slots_below n xs \<Longrightarrow> slots_below n ys"
proof -
  assume "map slot_generation ys = map slot_generation xs"
  then have "slot_generation ` set ys = slot_generation ` set xs" by (metis list.set_map)
  moreover assume "slots_below n xs"
  ultimately show ?thesis by (auto simp: slots_below_def) (metis image_iff)
qed

lemma slots_below_collect:
  "slots_below n xs \<Longrightarrow> slot_generation d < n \<Longrightarrow> slots_below n (snd (remap_collect g d raw ts xs))"
  by (induction ts arbitrary: raw xs) (auto split: prod.splits dest: slots_below_update simp: prod_eq_iff)

lemma slots_below_place:
  "slots_below n xs \<Longrightarrow> slot_generation d < n \<Longrightarrow> g < n \<Longrightarrow> slots_below n (snd (remap_place mem g d items xs))"
proof (induction items arbitrary: xs)
  case (Cons item items)
  then show ?case
    by (cases item) (simp add: slots_below_update slots_below_grow)
qed simp

definition contribution_of :: "source_contribution_cache \<Rightarrow> nat \<Rightarrow> source_contribution_state" where
  "contribution_of c source =
     (if source \<noteq> 0 \<and> source < length (cc_states c) then cc_states c ! source else new_contribution)"

definition entity_state_of :: "source_contribution_cache \<Rightarrow> nat \<Rightarrow> canonical_entity_construction_state" where
  "entity_state_of c entity =
     (if entity \<noteq> 0 \<and> entity < length (cc_entity_states c) then cc_entity_states c ! entity
      else new_entity_state)"


section \<open>One update\<close>

text \<open>
  The life of an update between \<open>begin_update\<close> and publication: replacements, touches,
  writes through the returned pointers and renumberings, in any order. A touch that threw
  ends the update, so only returning touches are steps.
\<close>

inductive cu_step ::
    "source_contribution_cache \<times> source_contribution_cache_update
     \<Rightarrow> source_contribution_cache \<times> source_contribution_cache_update \<Rightarrow> bool" where
  step_replace: "cu_replace mem mem' c u i = (st, c', u') \<Longrightarrow> cu_step (c, u) (c', u')"
| step_write: "cu_candidate c u i \<noteq> None \<Longrightarrow> cu_step (c, u) (cu_write c i v, u)"
| step_touch: "cu_touch_entity mem mem' c u e = (True, c', u') \<Longrightarrow> cu_step (c, u) (c', u')"
| step_write_entity: "cu_candidate_entity c u e \<noteq> None \<Longrightarrow> cu_step (c, u) (cu_write_entity c e w, u)"
| step_remap: "remap_ok base remap \<Longrightarrow> cu_remap_new_entities mem mem' c u base remap = (st, c', u') \<Longrightarrow>
     cu_step (c, u) (c', u')"

inductive_cases cu_step_cases [elim!]: "cu_step (c, u) s"

text \<open>What no step changes: everything a reader of the committed cache can see.\<close>

definition cu_frame ::
    "source_contribution_cache \<times> source_contribution_cache_update
     \<Rightarrow> source_contribution_cache \<times> source_contribution_cache_update \<Rightarrow> bool" where
  "cu_frame s t \<longleftrightarrow>
     cc_states (fst t) = cc_states (fst s) \<and> cc_entity_states (fst t) = cc_entity_states (fst s) \<and>
     cc_complete (fst t) = cc_complete (fst s) \<and>
     cc_next_generation (fst t) = cc_next_generation (fst s) \<and>
     cu_generation (snd t) = cu_generation (snd s) \<and>
     cu_full_reconstruction (snd t) = cu_full_reconstruction (snd s)"

lemma cu_step_frame: "cu_step s t \<Longrightarrow> cu_frame s t"
  by (induction rule: cu_step.induct)
    (auto simp: cu_frame_def cu_replace_def cu_touch_entity_def cu_remap_new_entities_def Let_def
      cu_write_def cu_write_entity_def split: if_splits prod.splits)

lemma cu_steps_frame: "cu_step\<^sup>*\<^sup>* s t \<Longrightarrow> cu_frame s t"
  by (induction rule: rtranclp_induct)
    (simp_all add: cu_frame_def cu_step_frame [unfolded cu_frame_def])

lemma cu_wf_failed:
  "cu_wf c u \<Longrightarrow> st \<noteq> Ok \<Longrightarrow> cu_wf c (u\<lparr>cu_failure := st\<rparr>)"
  by (simp add: cu_wf_def)

lemma cu_wf_slots:
  assumes "cu_wf c u" and c': "c' = c\<lparr>cc_candidates := xs, cc_candidate_entities := ys\<rparr>"
    and u': "u' = u\<lparr>cu_changed := ids, cu_changed_entities := ids', cu_failure := st\<rparr>"
    and "slots_below (cc_next_generation c) xs" "slots_below (cc_next_generation c) ys"
    and "st = Ok \<Longrightarrow> tracks (cu_generation u) xs ids \<and> tracks (cu_generation u) ys ids'"
  shows "cu_wf c' u'"
  using assms by (simp add: cu_wf_def cache_wf_def)

lemma cu_wf_parts:
  assumes "cu_wf c u"
  shows "cu_owner u" "\<not> cu_committed u" "\<not> cu_prepared u" "cu_generation u \<noteq> 0"
    "cu_generation u < cc_next_generation c" "0 < cc_next_generation c"
    "slots_below (cc_next_generation c) (cc_candidates c)"
    "slots_below (cc_next_generation c) (cc_candidate_entities c)"
    "cu_failure u = Ok \<Longrightarrow> tracks (cu_generation u) (cc_candidates c) (cu_changed u)"
    "cu_failure u = Ok \<Longrightarrow> tracks (cu_generation u) (cc_candidate_entities c) (cu_changed_entities u)"
  using assms by (simp_all add: cu_wf_def cache_wf_def word_neq_0_conv)

lemma was_replaced_tagged:
  "cu_owner u \<Longrightarrow> i \<noteq> 0 \<Longrightarrow> cu_was_replaced c u i \<longleftrightarrow> tagged (cu_generation u) (cc_candidates c) i \<noteq> None"
  by (auto simp: cu_was_replaced_def tagged_def)

lemma cu_replace_wf:
  assumes wf: "cu_wf c u" and run: "cu_replace mem mem' c u i = (st, c', u')"
  shows "cu_wf c' u'"
proof -
  note P = cu_wf_parts [OF wf]
  let ?g = "cu_generation u" and ?n = "cc_next_generation c"
  let ?xs = "(grow (i + 1) (new_slot new_contribution) (cc_candidates c))
       [i := \<lparr>slot_generation = ?g, slot_value = new_contribution\<rparr>]"
  have below: "slots_below ?n ?xs"
    using P by (intro slots_below_update slots_below_grow) (simp_all add: new_slot_def)
  have failed: "cu_wf c (u\<lparr>cu_failure := e\<rparr>)" if "e \<noteq> Ok" for e
    using wf that by (rule cu_wf_failed)
  have tagged_only: "cu_wf (c\<lparr>cc_candidates := ?xs\<rparr>) (u\<lparr>cu_failure := Initialization_failed\<rparr>)"
    using P below by (intro cu_wf_slots [OF wf, where xs = "?xs" and ys = "cc_candidate_entities c"
          and ids = "cu_changed u" and ids' = "cu_changed_entities u" and st = Initialization_failed]) simp_all
  have replaced: "cu_wf (c\<lparr>cc_candidates := ?xs\<rparr>) (u\<lparr>cu_changed := cu_changed u @ [i]\<rparr>)"
    if "cu_failure u = Ok" "i \<noteq> 0" "\<not> cu_was_replaced c u i"
  proof -
    have "tracks ?g ?xs (cu_changed u @ [i])"
    proof (rule tracks_snoc [OF P(9) [OF that(1)]])
      show "tagged ?g (cc_candidates c) i = None"
        using that P(1) by (simp add: was_replaced_tagged)
      show "tagged ?g ?xs j = (if j = i then Some new_contribution else tagged ?g (cc_candidates c) j)" for j
        using that P by (simp add: tagged_put tagged_grow new_slot_def)
    qed
    with that below P show ?thesis
      by (intro cu_wf_slots [OF wf, where xs = "?xs" and ys = "cc_candidate_entities c"
            and ids = "cu_changed u @ [i]" and ids' = "cu_changed_entities u" and st = Ok]) simp_all
  qed
  have "case cu_replace mem mem' c u i of (st, c', u') \<Rightarrow> cu_wf c' u'"
    unfolding cu_replace_def Let_def using wf failed tagged_only replaced
    by (simp split: if_split)
  with run show ?thesis by simp
qed

lemma cu_touch_wf:
  assumes wf: "cu_wf c u" and run: "cu_touch_entity mem mem' c u e = (True, c', u')"
  shows "cu_wf c' u'"
proof -
  note P = cu_wf_parts [OF wf]
  let ?g = "cu_generation u" and ?n = "cc_next_generation c"
  let ?ys = "grow (e + 1) (new_slot new_entity_state) (cc_candidate_entities c)"
  let ?v = "if \<not> cu_full_reconstruction u \<and> e < length (cc_entity_states c)
            then cc_entity_states c ! e else new_entity_state"
  let ?zs = "?ys[e := \<lparr>slot_generation = ?g, slot_value = ?v\<rparr>]"
  have below: "slots_below ?n ?ys" using P by (intro slots_below_grow) (simp_all add: new_slot_def)
  have same: "tagged ?g ?ys j = tagged ?g (cc_candidate_entities c) j" for j
    using P by (simp add: tagged_grow new_slot_def)
  have known: "cu_wf (c\<lparr>cc_candidate_entities := ?ys\<rparr>) u"
    using P below same by (intro cu_wf_slots [OF wf, where xs = "cc_candidates c" and ys = "?ys"
          and ids = "cu_changed u" and ids' = "cu_changed_entities u" and st = "cu_failure u"])
      (simp_all add: tracks_same [of ?g "cc_candidate_entities c"])
  have fresh: "cu_wf (c\<lparr>cc_candidate_entities := ?zs\<rparr>) (u\<lparr>cu_changed_entities := cu_changed_entities u @ [e]\<rparr>)"
    if "e \<noteq> 0" "slot_generation (?ys ! e) \<noteq> ?g"
  proof -
    have "tracks ?g ?zs (cu_changed_entities u @ [e])" if "cu_failure u = Ok"
    proof (rule tracks_snoc [OF P(10) [OF that]])
      show "tagged ?g (cc_candidate_entities c) e = None"
      proof -
        have "tagged ?g ?ys e = None"
          using \<open>slot_generation (?ys ! e) \<noteq> ?g\<close> by (simp add: tagged_def)
        then show ?thesis using same by simp
      qed
      show "tagged ?g ?zs j = (if j = e then Some ?v else tagged ?g (cc_candidate_entities c) j)" for j
        using \<open>e \<noteq> 0\<close> same by (simp add: tagged_put)
    qed
    with P below show ?thesis
      by (intro cu_wf_slots [OF wf, where xs = "cc_candidates c" and ys = "?zs" and ids = "cu_changed u"
            and ids' = "cu_changed_entities u @ [e]" and st = "cu_failure u"]) (simp_all add: slots_below_update)
  qed
  have "case cu_touch_entity mem mem' c u e of (ok, c', u') \<Rightarrow> ok \<longrightarrow> cu_wf c' u'"
    unfolding cu_touch_entity_def Let_def using known fresh by (simp split: if_split)
  with run show ?thesis by simp
qed

lemma cu_remap_wf:
  assumes wf: "cu_wf c u" and ok: "remap_ok base remap"
    and run: "cu_remap_new_entities mem mem' c u base remap = (st, c', u')"
  shows "cu_wf c' u'"
proof -
  note P = cu_wf_parts [OF wf]
  let ?g = "cu_generation u" and ?n = "cc_next_generation c" and ?d = "new_slot new_entity_state"
  obtain previous xs where col: "remap_collect ?g ?d base remap (cc_candidate_entities c) = (previous, xs)" by force
  obtain placed ys where place: "remap_place mem' ?g ?d previous xs = (placed, ys)" by force
  have d: "slot_generation ?d \<noteq> ?g" "slot_generation ?d < ?n" using P by (simp_all add: new_slot_def)
  have "slots_below ?n xs" using slots_below_collect [OF P(8) d(2), of ?g base remap] by (simp add: col)
  then have below: "slots_below ?n ys"
    using slots_below_place [OF _ d(2) P(5), of xs mem' previous] by (simp add: place)
  let ?ids = "filter (\<lambda>i. i \<noteq> 0) (map (remap_id base remap) (cu_changed_entities u))"
  have failed: "cu_wf c (u\<lparr>cu_failure := e\<rparr>)" if "e \<noteq> Ok" for e
    using wf that by (rule cu_wf_failed)
  have partial: "cu_wf (c\<lparr>cc_candidate_entities := ys\<rparr>) (u\<lparr>cu_failure := Initialization_failed\<rparr>)"
    using P below by (intro cu_wf_slots [OF wf, where xs = "cc_candidates c" and ys = ys
          and ids = "cu_changed u" and ids' = "cu_changed_entities u" and st = Initialization_failed]) simp_all
  have renumbered: "cu_wf (c\<lparr>cc_candidate_entities := ys\<rparr>) (u\<lparr>cu_changed_entities := ?ids\<rparr>)" if placed
  proof -
    have "tracks ?g ys ?ids" if "cu_failure u = Ok"
      using place \<open>placed\<close> by (intro remap_tracks [OF ok d(1) P(10) [OF that] col]) simp
    with P below show ?thesis
      by (intro cu_wf_slots [OF wf, where xs = "cc_candidates c" and ys = ys and ids = "cu_changed u"
            and ids' = "?ids" and st = "cu_failure u"]) simp_all
  qed
  have "case cu_remap_new_entities mem mem' c u base remap of (st, c', u') \<Rightarrow> cu_wf c' u'"
    unfolding cu_remap_new_entities_def Let_def col place prod.case using failed partial renumbered
    by (simp split: if_split)
  with run show ?thesis by simp
qed

lemma cu_write_wf: "cu_wf c u \<Longrightarrow> cu_candidate c u i \<noteq> None \<Longrightarrow> cu_wf (cu_write c i v) u"
  by (auto simp: cu_wf_def cache_wf_def cu_write_def slots_below_write cu_candidate_def tagged_write
      elim!: tracks_same split: if_splits)

lemma cu_write_entity_wf:
  "cu_wf c u \<Longrightarrow> cu_candidate_entity c u e \<noteq> None \<Longrightarrow> cu_wf (cu_write_entity c e w) u"
  by (auto simp: cu_wf_def cache_wf_def cu_write_entity_def slots_below_write cu_candidate_entity_def tagged_write
      elim!: tracks_same split: if_splits)

lemma cu_step_wf: "cu_step s t \<Longrightarrow> cu_wf (fst s) (snd s) \<Longrightarrow> cu_wf (fst t) (snd t)"
  by (induction rule: cu_step.induct)
    (auto intro: cu_replace_wf cu_touch_wf cu_remap_wf cu_write_wf cu_write_entity_wf)

lemma cu_steps_wf: "cu_step\<^sup>*\<^sup>* s t \<Longrightarrow> cu_wf (fst s) (snd s) \<Longrightarrow> cu_wf (fst t) (snd t)"
  by (induction rule: rtranclp_induct) (blast intro: cu_step_wf)+


section \<open>Publication and cancellation\<close>

lemma take_grow [simp]: "take (length xs) (grow n d xs) = xs"
  by (simp add: grow_def resize_def)

lemma slots_below_mono: "slots_below m xs \<Longrightarrow> m < n \<Longrightarrow> slots_below n xs"
  by (auto simp: slots_below_def)

lemma slots_below_tracks: "slots_below n xs \<Longrightarrow> tracks n xs []"
  by (rule tracks_Nil) (auto simp: slots_below_def)

lemma begin_update_wf:
  assumes "cache_wf c" "unat (cc_next_generation c) < 18446744073709551615"
    "cc_begin_update full c = (c', u)"
  shows "cu_wf c' u" "cache_wf c'"
    "cc_states c' = cc_states c" "cc_entity_states c' = cc_entity_states c" "cc_complete c' = cc_complete c"
    "cu_full_reconstruction u = full" "cc_next_generation c' = cc_next_generation c + 1"
    "cu_candidate c' u i = None" "cu_candidate_entity c' u i = None"
proof -
  let ?n = "cc_next_generation c"
  have n: "?n \<noteq> 0" and below: "slots_below ?n (cc_candidates c)" "slots_below ?n (cc_candidate_entities c)"
    using assms(1) by (simp_all add: cache_wf_def)
  have c': "c' = c\<lparr>cc_next_generation := ?n + 1\<rparr>"
    and u: "cu_owner u" "\<not> cu_committed u" "\<not> cu_prepared u" "\<not> cu_owner_growth u" "cu_generation u = ?n"
      "cu_changed u = []" "cu_changed_entities u = []" "cu_full_reconstruction u = full"
    using assms(3) n by (auto simp: cc_begin_update_def Let_def)
  have suc: "unat (?n + 1) = unat ?n + 1" using assms(2) by (simp add: unat_word_ariths)
  then have lt: "?n < ?n + 1" by (simp add: word_less_nat_alt)
  then have nz: "?n + 1 \<noteq> 0" using suc by (metis unat_0 add_is_0 one_neq_zero)
  have tr: "tracks ?n (cc_candidates c) []" "tracks ?n (cc_candidate_entities c) []"
    using below by (simp_all add: slots_below_tracks)
  show "cache_wf c'" using nz below lt by (simp add: cache_wf_def c' slots_below_mono)
  with u tr n lt show "cu_wf c' u" by (simp add: cu_wf_def c')
  show "cu_candidate c' u i = None" "cu_candidate_entity c' u i = None"
    using tr by (simp_all add: cu_candidate_def cu_candidate_entity_def u c' tracks_def)
  show "cc_states c' = cc_states c" "cc_entity_states c' = cc_entity_states c" "cc_complete c' = cc_complete c"
    "cu_full_reconstruction u = full" "cc_next_generation c' = cc_next_generation c + 1"
    by (simp_all add: c' u)
qed

text \<open>What a successful preparation leaves: grown tables that hold every changed identifier.\<close>

definition covers :: "'a \<Rightarrow> 'a list \<Rightarrow> nat list \<Rightarrow> 'a list \<Rightarrow> bool" where
  "covers d xs ids ys \<longleftrightarrow> (\<exists>n. ys = grow n d xs) \<and> (\<forall>i\<in>set ids. i < length ys)"

lemma covers_grow: "covers d xs ids (grow (maximum_id ids + 1) d xs)"
  using maximum_id_ge [of _ ids] by (auto simp: covers_def less_Suc_eq_le less_max_iff_disj)

lemma covers_same: "ids = [] \<or> maximum_id ids < length xs \<Longrightarrow> covers d xs ids xs"
proof -
  assume "ids = [] \<or> maximum_id ids < length xs"
  moreover have "xs = grow 0 d xs" by (simp add: grow_def)
  ultimately show ?thesis using maximum_id_ge [of _ ids] le_less_trans unfolding covers_def by fastforce
qed

lemma covers_if:
  "covers d xs ids (if ids \<noteq> [] \<and> length xs \<le> maximum_id ids then grow (maximum_id ids + 1) d xs else xs)"
  using covers_grow [of d xs ids] covers_same [of ids xs d] by (auto simp: not_le)

lemma cu_prepare_ok:
  assumes "cu_prepare_publish mem mem' c u = (Ok, c2, u2)"
  obtains S E where "c2 = c\<lparr>cc_states := S, cc_entity_states := E\<rparr>"
    "covers new_contribution (cc_states c) (cu_changed u) S"
    "covers new_entity_state (cc_entity_states c) (cu_changed_entities u) E"
    "u2 = u\<lparr>cu_states_size := length (cc_states c), cu_entity_states_size := length (cc_entity_states c),
            cu_owner_growth := True, cu_prepared := True\<rparr>"
    "cu_failure u = Ok"
proof -
  let ?S = "if cu_changed u \<noteq> [] \<and> length (cc_states c) \<le> maximum_id (cu_changed u)
            then grow (maximum_id (cu_changed u) + 1) new_contribution (cc_states c) else cc_states c"
  let ?E = "if cu_changed_entities u \<noteq> [] \<and> length (cc_entity_states c) \<le> maximum_id (cu_changed_entities u)
            then grow (maximum_id (cu_changed_entities u) + 1) new_entity_state (cc_entity_states c)
            else cc_entity_states c"
  have c2: "c2 = c\<lparr>cc_states := ?S, cc_entity_states := ?E\<rparr>" and ok: "cu_failure u = Ok"
    and u2: "u2 = u\<lparr>cu_states_size := length (cc_states c), cu_entity_states_size := length (cc_entity_states c),
            cu_owner_growth := True, cu_prepared := True\<rparr>"
    using assms
    by (cases "cu_changed u \<noteq> [] \<and> length (cc_states c) \<le> maximum_id (cu_changed u)";
        cases "cu_changed_entities u \<noteq> [] \<and> length (cc_entity_states c) \<le> maximum_id (cu_changed_entities u)";
        force simp: cu_prepare_publish_def Let_def split: if_split_asm)+
  show thesis by (rule that [OF c2 covers_if covers_if u2 ok])
qed

lemma swap_published:
  assumes tr: "tracks g slots ids" and cov: "covers d xs ids ys" and base: "length zs = length ys"
    and run: "swap_candidates ids zs slots = (states', slots')"
  shows "length states' = length ys" "map slot_generation slots' = map slot_generation slots"
    "i \<noteq> 0 \<Longrightarrow> i < length ys \<Longrightarrow>
       states' ! i = (case tagged g slots i of Some v \<Rightarrow> v | None \<Rightarrow> zs ! i)"
    "tagged g slots i \<noteq> None \<Longrightarrow> i \<noteq> 0 \<and> i < length ys"
proof -
  have ids: "i \<in> set ids \<longleftrightarrow> tagged g slots i \<noteq> None" for i using tr by (simp add: tracks_def)
  have bound: "i < length ys" "i < length slots" if "i \<in> set ids" for i
    using that cov ids [of i] tagged_bound [of g slots i] by (auto simp: covers_def)
  have sp: "length states' = length zs \<and>
      (\<forall>j<length zs. states' ! j = (if j \<in> set ids then slot_value (slots ! j) else zs ! j)) \<and>
      map slot_generation slots' = map slot_generation slots"
    using tr bound base run by (intro swap_candidates_spec) (auto simp: tracks_def)
  then show "length states' = length ys" "map slot_generation slots' = map slot_generation slots"
    using base by simp_all
  show "states' ! i = (case tagged g slots i of Some v \<Rightarrow> v | None \<Rightarrow> zs ! i)"
    if "i \<noteq> 0" "i < length ys" for i
    using sp base that ids [of i] by (auto simp: tagged_def split: if_splits)
  show "tagged g slots i \<noteq> None \<Longrightarrow> i \<noteq> 0 \<and> i < length ys" for i
    using bound [of i] ids [of i] tagged_bound [of g slots i] by auto
qed

lemma published_row:
  assumes cov: "covers d xs ids ys" and tr: "tracks g slots ids"
    and zs: "zs = (if full then map (\<lambda>_. d) ys else ys)"
    and run: "swap_candidates ids zs slots = (states', slots')"
  shows "(if i \<noteq> 0 \<and> i < length states' then states' ! i else d) =
     (case tagged g slots i of Some v \<Rightarrow> v
      | None \<Rightarrow> if full then d else if i \<noteq> 0 \<and> i < length xs then xs ! i else d)"
proof -
  obtain n where ys: "ys = grow n d xs" using cov by (auto simp: covers_def)
  have len: "length zs = length ys" by (simp add: zs)
  note S = swap_published [OF tr cov len run]
  show ?thesis
  proof (cases "i \<noteq> 0 \<and> i < length ys")
    case True
    have "zs ! i = (if full then d else if i < length xs then xs ! i else d)"
    proof -
      have "ys ! i = (if i < length xs then xs ! i else d)"
        using True unfolding ys by (intro nth_grow) (simp add: less_max_iff_disj)
      with True show ?thesis by (simp add: zs)
    qed
    with True S show ?thesis by (simp split: option.splits)
  next
    case False
    then have "tagged g slots i = None" using S(4) by blast
    moreover have "\<not> (i \<noteq> 0 \<and> i < length xs)" using False by (auto simp: ys less_max_iff_disj)
    ultimately show ?thesis using False S(1) by auto
  qed
qed

lemma cu_publish_exact:
  assumes wf: "cu_wf c u" and prep: "cu_prepare_publish mem mem' c u = (Ok, c2, u2)"
    and pub: "cu_publish_prepared c2 u2 = (c3, u3)"
  shows "contribution_of c3 i =
      (case cu_candidate c u i of Some v \<Rightarrow> v
       | None \<Rightarrow> if cu_full_reconstruction u then new_contribution else contribution_of c i)"
    and "entity_state_of c3 e =
      (case cu_candidate_entity c u e of Some v \<Rightarrow> v
       | None \<Rightarrow> if cu_full_reconstruction u then new_entity_state else entity_state_of c e)"
    and "cc_complete c3" "cache_wf c3" "cu_committed u3"
proof -
  note P = cu_wf_parts [OF wf]
  obtain S E where c2: "c2 = c\<lparr>cc_states := S, cc_entity_states := E\<rparr>"
    and S: "covers new_contribution (cc_states c) (cu_changed u) S"
    and E: "covers new_entity_state (cc_entity_states c) (cu_changed_entities u) E"
    and u2: "u2 = u\<lparr>cu_states_size := length (cc_states c), cu_entity_states_size := length (cc_entity_states c),
            cu_owner_growth := True, cu_prepared := True\<rparr>"
    and ok: "cu_failure u = Ok"
    using prep by (rule cu_prepare_ok)
  let ?S = "if cu_full_reconstruction u then map (\<lambda>_. new_contribution) S else S"
  let ?E = "if cu_full_reconstruction u then map (\<lambda>_. new_entity_state) E else E"
  have clear: "map (\<lambda>s. s\<lparr>sc_named := [], sc_anonymous_types := []\<rparr>) S = map (\<lambda>_. new_contribution) S"
    by (simp add: new_contribution_def)
  obtain S' X where sw: "swap_candidates (cu_changed u) ?S (cc_candidates c) = (S', X)" by force
  obtain E' Y where ew: "swap_candidates (cu_changed_entities u) ?E (cc_candidate_entities c) = (E', Y)" by force
  have c3: "c3 = c\<lparr>cc_states := S', cc_candidates := X, cc_entity_states := E', cc_candidate_entities := Y,
      cc_complete := True\<rparr>" and u3: "cu_committed u3"
    using pub P(1,2) sw ew
    by (cases "cu_full_reconstruction u"; force simp: cu_publish_prepared_def c2 u2 clear Let_def)+
  show "contribution_of c3 i = (case cu_candidate c u i of Some v \<Rightarrow> v
       | None \<Rightarrow> if cu_full_reconstruction u then new_contribution else contribution_of c i)"
    using published_row [OF S P(9) [OF ok] refl sw, of i] P(1)
    by (cases "tagged (cu_generation u) (cc_candidates c) i")
      (auto simp: contribution_of_def cu_candidate_def c3 split: if_splits)
  show "entity_state_of c3 e = (case cu_candidate_entity c u e of Some v \<Rightarrow> v
       | None \<Rightarrow> if cu_full_reconstruction u then new_entity_state else entity_state_of c e)"
    using published_row [OF E P(10) [OF ok] refl ew, of e] P(1)
    by (cases "tagged (cu_generation u) (cc_candidate_entities c) e")
      (auto simp: entity_state_of_def cu_candidate_entity_def c3 split: if_splits)
  have "map slot_generation X = map slot_generation (cc_candidates c)"
    by (rule swap_published(2) [OF P(9) [OF ok] S _ sw]) simp
  moreover have "map slot_generation Y = map slot_generation (cc_candidate_entities c)"
    by (rule swap_published(2) [OF P(10) [OF ok] E _ ew]) simp
  ultimately show "cache_wf c3"
    using P by (simp add: cache_wf_def c3 slots_below_map)
  show "cc_complete c3" "cu_committed u3" by (simp add: c3, rule u3)
qed

lemma cu_prepare_cancel:
  assumes wf: "cu_wf c u" and prep: "cu_prepare_publish mem mem' c u = (st, c2, u2)"
    and cancel: "cu_cancel c2 u2 = (c3, u3)"
  shows "c3 = c" "cu_failure u3 = Invalid_state"
proof -
  have g: "\<not> cu_owner_growth u" "\<not> cu_committed u" "cu_owner u" using wf by (simp_all add: cu_wf_def)
  have "case cu_prepare_publish mem mem' c u of (st, c2, u2) \<Rightarrow>
      fst (cu_cancel c2 u2) = c \<and> cu_failure (snd (cu_cancel c2 u2)) = Invalid_state"
    unfolding cu_prepare_publish_def cu_cancel_def Let_def using g by (simp split: if_split)
  then show "c3 = c" "cu_failure u3 = Invalid_state" using prep cancel by simp_all
qed


section \<open>Properties\<close>

lemma cu_touch_base:
  assumes wf: "cu_wf c u" and run: "cu_touch_entity mem mem' c u e = (True, c', u')"
  shows "cu_candidate_entity c' u' i =
     (if i = e then Some (case cu_candidate_entity c u e of Some v \<Rightarrow> v
        | None \<Rightarrow> if cu_full_reconstruction u then new_entity_state else entity_state_of c e)
      else cu_candidate_entity c u i)"
proof -
  note P = cu_wf_parts [OF wf]
  let ?g = "cu_generation u"
  let ?ys = "grow (e + 1) (new_slot new_entity_state) (cc_candidate_entities c)"
  let ?v = "if \<not> cu_full_reconstruction u \<and> e < length (cc_entity_states c)
            then cc_entity_states c ! e else new_entity_state"
  have e: "e \<noteq> 0" using run by (simp add: cu_touch_entity_def split: if_splits)
  have same: "tagged ?g ?ys j = tagged ?g (cc_candidate_entities c) j" for j
    using P by (simp add: tagged_grow new_slot_def)
  have v: "?v = (if cu_full_reconstruction u then new_entity_state else entity_state_of c e)"
    using e by (simp add: entity_state_of_def)
  show ?thesis
  proof (cases "slot_generation (?ys ! e) = ?g")
    case True
    then have "tagged ?g ?ys e \<noteq> None" using e by (simp add: tagged_def)
    moreover have "cc_candidate_entities c' = ?ys" "u' = u"
      using run True by (auto simp: cu_touch_entity_def Let_def split: if_splits)
    ultimately show ?thesis using P(1) same by (auto simp: cu_candidate_entity_def)
  next
    case False
    then have none: "tagged ?g (cc_candidate_entities c) e = None"
      unfolding same [symmetric] by (simp add: tagged_def)
    have "c' = c\<lparr>cc_candidate_entities := ?ys[e := \<lparr>slot_generation = ?g, slot_value = ?v\<rparr>]\<rparr>"
      "cu_owner u'" "cu_generation u' = ?g"
      using run False by (auto simp: cu_touch_entity_def Let_def split: if_splits)
    then show ?thesis
      using P(1) e none same unfolding v [symmetric]
      by (simp add: cu_candidate_entity_def tagged_put)
  qed
qed

text \<open>C32: Publication of a contribution update, whatever replacements, touches, writes and
  renumberings it made: every replaced Source has exactly its candidate contribution, every
  touched entity its candidate state, and what was not changed keeps its committed value,
  or is emptied by a full reconstruction. The cache is complete and ready for the next
  update.\<close>

theorem contribution_publish_exact:
  assumes "cache_wf c0" "unat (cc_next_generation c0) < 18446744073709551615"
    and start: "cc_begin_update full c0 = (c1, u1)" and steps: "cu_step\<^sup>*\<^sup>* (c1, u1) (c, u)"
    and prep: "cu_prepare_publish mem mem' c u = (Ok, c2, u2)"
    and pub: "cu_publish_prepared c2 u2 = (c3, u3)"
  shows "contribution_of c3 i = (case cu_candidate c u i of Some v \<Rightarrow> v
           | None \<Rightarrow> if full then new_contribution else contribution_of c0 i) \<and>
     entity_state_of c3 e = (case cu_candidate_entity c u e of Some v \<Rightarrow> v
           | None \<Rightarrow> if full then new_entity_state else entity_state_of c0 e) \<and>
     cc_complete c3 \<and> cache_wf c3"
proof -
  note B = begin_update_wf [OF assms(1,2) start]
  have wf: "cu_wf c u" using cu_steps_wf [OF steps] B(1) by simp
  have F: "cu_frame (c1, u1) (c, u)" by (rule cu_steps_frame [OF steps])
  have "contribution_of c i = contribution_of c0 i" "entity_state_of c e = entity_state_of c0 e"
    "cu_full_reconstruction u = full"
    using F B(3,4,6) by (simp_all add: cu_frame_def contribution_of_def entity_state_of_def)
  with cu_publish_exact [OF wf prep pub] show ?thesis by (simp cong: option.case_cong)
qed

text \<open>C20: Cancelling a contribution update, prepared or not and successfully or not, leaves
  the committed contributions, the entity states and the completeness of the cache as they
  were before the update began, and the update refuses every later preparation.\<close>

theorem contribution_cancel_restores:
  assumes "cache_wf c0" "unat (cc_next_generation c0) < 18446744073709551615"
    and start: "cc_begin_update full c0 = (c1, u1)" and steps: "cu_step\<^sup>*\<^sup>* (c1, u1) (c, u)"
    and prep: "cu_prepare_publish mem mem' c u = (st, c2, u2)"
    and cancel: "cu_cancel c2 u2 = (c3, u3)"
  shows "cc_states c3 = cc_states c0 \<and> cc_entity_states c3 = cc_entity_states c0 \<and>
     cc_complete c3 = cc_complete c0 \<and> cache_wf c3 \<and>
     fst (cu_prepare_publish m m' c3 u3) = Invalid_state"
proof -
  note B = begin_update_wf [OF assms(1,2) start]
  have wf: "cu_wf c u" using cu_steps_wf [OF steps] B(1) by simp
  have F: "cu_frame (c1, u1) (c, u)" by (rule cu_steps_frame [OF steps])
  have c3: "c3 = c" and u3: "cu_failure u3 = Invalid_state"
    by (rule cu_prepare_cancel [OF wf prep cancel])+
  have "cache_wf c" using wf by (simp add: cu_wf_def)
  then show ?thesis
    using F B(3,4,5) u3 by (simp add: c3 cu_frame_def cu_prepare_publish_def)
qed

text \<open>The renumbering of new entities moves each candidate entity state to its new
  identifier, drops the ones renumbered to null, keeps the rest, and renumbers the list of
  changed entities the same way.\<close>

theorem contribution_remap_exact:
  assumes wf: "cu_wf c u" and failure: "cu_failure u = Ok" and ok: "remap_ok base remap"
    and run: "cu_remap_new_entities mem mem' c u base remap = (Ok, c', u')"
  shows "(cu_candidate_entity c' u' t = Some v \<longleftrightarrow>
       t \<noteq> 0 \<and> (\<exists>i. remap_id base remap i = t \<and> cu_candidate_entity c u i = Some v)) \<and>
     (t \<in> set (cu_changed_entities u') \<longleftrightarrow> cu_candidate_entity c' u' t \<noteq> None) \<and>
     distinct (cu_changed_entities u')"
proof -
  note P = cu_wf_parts [OF wf]
  let ?g = "cu_generation u" and ?d = "new_slot new_entity_state"
  obtain previous xs where col: "remap_collect ?g ?d base remap (cc_candidate_entities c) = (previous, xs)" by force
  obtain placed ys where place: "remap_place mem' ?g ?d previous xs = (placed, ys)" by force
  have d: "slot_generation ?d \<noteq> ?g" using P by (simp add: new_slot_def)
  have "placed" and c': "cc_candidate_entities c' = ys"
    and u': "u' = u\<lparr>cu_changed_entities := filter (\<lambda>i. i \<noteq> 0) (map (remap_id base remap) (cu_changed_entities u))\<rparr>"
    using run by (auto simp: cu_remap_new_entities_def Let_def col place split: if_splits)
  then have place': "remap_place mem' ?g ?d previous xs = (True, ys)" using place by simp
  have "tracks ?g ys (cu_changed_entities u')"
    using remap_tracks [OF ok d P(10) [OF failure] col place'] by (simp add: u')
  then show ?thesis
    using remap_slots [OF ok d col place', of t v] P(1)
    by (simp add: cu_candidate_entity_def c' u' tracks_def)
qed

definition example_begun :: "source_contribution_cache \<times> source_contribution_cache_update" where
  "example_begun = cc_begin_update False new_contribution_cache"

definition example_replaced :: "status_code \<times> source_contribution_cache \<times> source_contribution_cache_update" where
  "example_replaced = cu_replace True True (fst example_begun) (snd example_begun) 3"

definition example_filled :: source_contribution_cache where
  "example_filled = cu_write (fst (snd example_replaced)) 3 \<lparr>sc_named = [], sc_anonymous_types = [7]\<rparr>"

definition example_touched :: "bool \<times> source_contribution_cache \<times> source_contribution_cache_update" where
  "example_touched = cu_touch_entity True True example_filled (snd (snd example_replaced)) 2"

definition example_contribution_prepared ::
    "status_code \<times> source_contribution_cache \<times> source_contribution_cache_update" where
  "example_contribution_prepared =
     cu_prepare_publish True True (fst (snd example_touched)) (snd (snd example_touched))"

lemma example_contribution_steps:
  "cu_step\<^sup>*\<^sup>* example_begun (fst (snd example_touched), snd (snd example_touched))"
proof -
  have r: "fst example_touched" by code_simp
  have w: "cu_candidate (fst (snd example_replaced)) (snd (snd example_replaced)) 3 \<noteq> None" by code_simp
  have "cu_step (fst example_begun, snd example_begun) (fst (snd example_replaced), snd (snd example_replaced))"
    by (rule step_replace [of True True _ _ 3 "fst example_replaced"]) (simp add: example_replaced_def)
  moreover have "cu_step (fst (snd example_replaced), snd (snd example_replaced)) (example_filled, snd (snd example_replaced))"
    unfolding example_filled_def by (rule step_write [OF w])
  moreover have "cu_step (example_filled, snd (snd example_replaced)) (fst (snd example_touched), snd (snd example_touched))"
    using r by (intro step_touch [of True True _ _ 2]) (simp add: example_touched_def prod_eq_iff)
  ultimately show ?thesis
    by (simp add: converse_rtranclp_into_rtranclp)
qed

lemma new_contribution_cache_wf:
  "cache_wf new_contribution_cache" "unat (cc_next_generation new_contribution_cache) < 18446744073709551615"
  by (simp_all add: cache_wf_def slots_below_def new_contribution_cache_def)

lemma contribution_publish_exact_witness:
  "contribution_of (fst (cu_publish_prepared (fst (snd example_contribution_prepared))
       (snd (snd example_contribution_prepared)))) 3 = \<lparr>sc_named = [], sc_anonymous_types = [7]\<rparr>"
proof -
  have ok: "fst example_contribution_prepared = Ok" by code_simp
  have cand: "cu_candidate (fst (snd example_touched)) (snd (snd example_touched)) 3 =
      Some \<lparr>sc_named = [], sc_anonymous_types = [7]\<rparr>" by code_simp
  show ?thesis
    using contribution_publish_exact [OF new_contribution_cache_wf, of False "fst example_begun" "snd example_begun"
        "fst (snd example_touched)" "snd (snd example_touched)" True True
        "fst (snd example_contribution_prepared)" "snd (snd example_contribution_prepared)" _ _ 3]
      example_contribution_steps ok cand
    by (simp add: example_begun_def example_contribution_prepared_def prod_eq_iff)
qed

lemma contribution_cancel_restores_witness:
  "cc_states (fst (cu_cancel (fst (snd example_contribution_prepared))
       (snd (snd example_contribution_prepared)))) = []"
proof -
  show ?thesis
    using contribution_cancel_restores [OF new_contribution_cache_wf, of False "fst example_begun" "snd example_begun"
        "fst (snd example_touched)" "snd (snd example_touched)" True True "fst example_contribution_prepared"
        "fst (snd example_contribution_prepared)" "snd (snd example_contribution_prepared)"]
      example_contribution_steps
    by (simp add: example_begun_def example_contribution_prepared_def prod_eq_iff new_contribution_cache_def)
qed

definition example_remapped :: "status_code \<times> source_contribution_cache \<times> source_contribution_cache_update" where
  "example_remapped =
     cu_remap_new_entities True True (fst (snd example_touched)) (snd (snd example_touched)) 2 [3, 2]"

lemma contribution_remap_exact_witness:
  "cu_candidate_entity (fst (snd example_remapped)) (snd (snd example_remapped)) 3 = Some new_entity_state"
proof -
  have wf: "cu_wf (fst (snd example_touched)) (snd (snd example_touched))"
    using cu_steps_wf [OF example_contribution_steps] begin_update_wf(1) [OF new_contribution_cache_wf, of False]
    by (simp add: example_begun_def)
  have ok: "cu_failure (snd (snd example_touched)) = Ok" "remap_ok 2 [3, 2]" "fst example_remapped = Ok"
    "cu_candidate_entity (fst (snd example_touched)) (snd (snd example_touched)) 2 = Some new_entity_state"
    "remap_id 2 [3, 2] 2 = 3"
    by code_simp+
  then show ?thesis
    using contribution_remap_exact [OF wf ok(1,2), of True True "fst (snd example_remapped)"
        "snd (snd example_remapped)" 3 new_entity_state]
    by (auto simp: example_remapped_def prod_eq_iff)
qed


section \<open>The contribution update as a two-phase participant\<close>

definition contributions_prepare ::
    "bool \<Rightarrow> bool \<Rightarrow> source_contribution_cache \<times> source_contribution_cache_update
     \<Rightarrow> status_code \<times> source_contribution_cache \<times> source_contribution_cache_update" where
  "contributions_prepare mem mem' s = cu_prepare_publish mem mem' (fst s) (snd s)"

definition contributions_view where
  "contributions_view c = (contribution_of c, entity_state_of c)"

definition contributions_candidate where
  "contributions_candidate c u =
     (\<lambda>i. case cu_candidate c u i of Some v \<Rightarrow> v
            | None \<Rightarrow> if cu_full_reconstruction u then new_contribution else contribution_of c i,
      \<lambda>e. case cu_candidate_entity c u e of Some v \<Rightarrow> v
            | None \<Rightarrow> if cu_full_reconstruction u then new_entity_state else entity_state_of c e)"

interpretation contributions_phases: two_phase "\<lambda>s. cu_wf (fst s) (snd s)" "\<lambda>s. contributions_view (fst s)"
  "\<lambda>s. contributions_candidate (fst s) (snd s)" "contributions_prepare mem mem'"
  "\<lambda>s. cu_publish_prepared (fst s) (snd s)" "\<lambda>s. cu_cancel (fst s) (snd s)"
  for mem mem'
proof
  fix s t
  assume wf: "cu_wf (fst s) (snd s)" and prep: "contributions_prepare mem mem' s = (Ok, t)"
  then have run: "cu_prepare_publish mem mem' (fst s) (snd s) = (Ok, fst t, snd t)"
    by (simp add: contributions_prepare_def)
  show "contributions_view (fst (cu_publish_prepared (fst t) (snd t))) = contributions_candidate (fst s) (snd s)"
    using cu_publish_exact(1,2) [OF wf run prod.collapse [symmetric]]
    by (simp add: contributions_view_def contributions_candidate_def fun_eq_iff)
next
  fix s t st
  assume wf: "cu_wf (fst s) (snd s)" and prep: "contributions_prepare mem mem' s = (st, t)"
  then have run: "cu_prepare_publish mem mem' (fst s) (snd s) = (st, fst t, snd t)"
    by (simp add: contributions_prepare_def)
  show "contributions_view (fst (cu_cancel (fst t) (snd t))) = contributions_view (fst s)"
    using cu_prepare_cancel(1) [OF wf run prod.collapse [symmetric]] by simp
next
  fix s :: "source_contribution_cache \<times> source_contribution_cache_update"
  assume "cu_wf (fst s) (snd s)"
  then show "contributions_view (fst (cu_cancel (fst s) (snd s))) = contributions_view (fst s)"
    by (simp add: cu_wf_def cu_cancel_def)
qed


end
