(* ===== verification/FrontendCache.thy ===== *)
theory FrontendCache
  imports Interfaces
begin

text \<open>
  The cache of Parser-visible Source interfaces and its update:
  \<^verbatim>\<open>frontend/source_frontend_cache.hpp\<close> and \<^verbatim>\<open>frontend/source_frontend_cache.cpp\<close>. The cache
  never looks inside an interface, so its type is a parameter; an owned pointer is an
  option. Source \<open>s\<close> is at slot \<open>s\<close> (element \<open>s - 1\<close>) of the table. The update holds a
  reference to its owner until it is published or cancelled: \<open>fu_owner\<close>.
\<close>

section \<open>Data and operations\<close>

record 'e source_frontend_cache =
  fc_interfaces :: "'e option list"
  fc_complete :: bool

record 'e source_frontend_cache_update =
  fu_owner :: bool
  fu_replacements :: "(nat \<times> 'e option) list"
  fu_old_size :: nat
  fu_full_reconstruction :: bool
  fu_prepared :: bool
  fu_published :: bool
  fu_failure :: status_code

definition fc_interface :: "'e source_frontend_cache \<Rightarrow> nat \<Rightarrow> 'e option" where
  "fc_interface c source =
     (if source = 0 \<or> source > length (fc_interfaces c) then None
      else fc_interfaces c ! (source - 1))"

definition fc_begin_update ::
    "bool \<Rightarrow> 'e source_frontend_cache \<Rightarrow> 'e source_frontend_cache_update" where
  "fc_begin_update full c =
     \<lparr>fu_owner = True, fu_replacements = [], fu_old_size = length (fc_interfaces c),
      fu_full_reconstruction = full, fu_prepared = False, fu_published = False, fu_failure = Ok\<rparr>"

definition fc_invalidate :: "'e source_frontend_cache \<Rightarrow> 'e source_frontend_cache" where
  "fc_invalidate c = c\<lparr>fc_interfaces := [], fc_complete := False\<rparr>"

definition fu_replace ::
    "bool \<Rightarrow> 'e source_frontend_cache_update \<Rightarrow> nat \<Rightarrow> 'e option
     \<Rightarrow> status_code \<times> 'e source_frontend_cache_update" where
  "fu_replace mem u source interface =
     (if fu_failure u \<noteq> Ok then (fu_failure u, u)
      else if source = 0 \<or> \<not> fu_owner u \<or> fu_prepared u \<or> fu_published u then (Invalid_state, u)
      else if fu_replacements u \<noteq> [] \<and> fst (last (fu_replacements u)) \<ge> source
      then (Invalid_state, u\<lparr>fu_failure := Invalid_state\<rparr>)
      else if \<not> mem then (Initialization_failed, u\<lparr>fu_failure := Initialization_failed\<rparr>)
      else (Ok, u\<lparr>fu_replacements := fu_replacements u @ [(source, interface)]\<rparr>))"

definition fu_prepare_publish ::
    "bool \<Rightarrow> nat \<Rightarrow> 'e source_frontend_cache \<Rightarrow> 'e source_frontend_cache_update
     \<Rightarrow> status_code \<times> 'e source_frontend_cache \<times> 'e source_frontend_cache_update" where
  "fu_prepare_publish mem required c u =
     (if fu_failure u \<noteq> Ok then (fu_failure u, c, u)
      else if \<not> fu_owner u \<or> fu_prepared u \<or> fu_published u then (Invalid_state, c, u)
      else
        let u1 = u\<lparr>fu_old_size := length (fc_interfaces c)\<rparr> in
        if length (fc_interfaces c) < required \<and> \<not> mem
        then (Initialization_failed, c, u1\<lparr>fu_failure := Initialization_failed\<rparr>)
        else (Ok, c\<lparr>fc_interfaces := grow required None (fc_interfaces c)\<rparr>, u1\<lparr>fu_prepared := True\<rparr>))"

fun place_interfaces :: "(nat \<times> 'e option) list \<Rightarrow> 'e option list \<Rightarrow> 'e option list" where
  "place_interfaces [] interfaces = interfaces"
| "place_interfaces ((source, interface) # items) interfaces =
     place_interfaces items
       (if source \<noteq> 0 \<and> source \<le> length interfaces
        then interfaces[source - 1 := interface] else interfaces)"

text \<open>Publication moves the interfaces out of the replacements and releases the owner.\<close>

definition fu_publish_prepared ::
    "'e source_frontend_cache \<Rightarrow> 'e source_frontend_cache_update
     \<Rightarrow> 'e source_frontend_cache \<times> 'e source_frontend_cache_update" where
  "fu_publish_prepared c u =
     (if \<not> fu_prepared u \<or> fu_published u \<or> \<not> fu_owner u then (c, u)
      else
        let base = (if fu_full_reconstruction u then map (\<lambda>_. None) (fc_interfaces c)
                    else fc_interfaces c)
        in (c\<lparr>fc_interfaces := place_interfaces (fu_replacements u) base, fc_complete := True\<rparr>,
            u\<lparr>fu_published := True, fu_prepared := False, fu_owner := False\<rparr>))"

definition fu_cancel ::
    "'e source_frontend_cache \<Rightarrow> 'e source_frontend_cache_update
     \<Rightarrow> 'e source_frontend_cache \<times> 'e source_frontend_cache_update" where
  "fu_cancel c u =
     (if \<not> fu_owner u \<or> fu_published u then (c, u)
      else
        (if fu_prepared u \<and> length (fc_interfaces c) > fu_old_size u
         then c\<lparr>fc_interfaces := take (fu_old_size u) (fc_interfaces c)\<rparr> else c,
         u\<lparr>fu_owner := False, fu_prepared := False\<rparr>))"

section \<open>Invariant\<close>

definition fu_wf :: "'e source_frontend_cache_update \<Rightarrow> bool" where
  "fu_wf u \<longleftrightarrow> fu_owner u \<and> \<not> fu_prepared u \<and> \<not> fu_published u \<and>
     sorted_wrt (<) (map fst (fu_replacements u)) \<and> 0 \<notin> set (map fst (fu_replacements u))"

lemma fc_begin_update_wf: "fu_wf (fc_begin_update full c)"
  by (simp add: fc_begin_update_def fu_wf_def)

lemma fu_replace_wf:
  assumes "fu_wf u" "fu_replace mem u source interface = (st, u')"
  shows "fu_wf u'"
proof -
  have "case fu_replace mem u source interface of (st, u') \<Rightarrow> fu_wf u'"
  proof (cases "fu_replacements u" rule: rev_cases)
    case Nil
    then show ?thesis using assms(1) by (simp add: fu_replace_def fu_wf_def)
  next
    case (snoc items item)
    then show ?thesis
      using assms(1) by (auto simp: fu_replace_def fu_wf_def sorted_wrt_append)
  qed
  with assms(2) show ?thesis by simp
qed

lemma fu_wf_distinct: "fu_wf u \<Longrightarrow> distinct (map fst (fu_replacements u))"
  by (simp add: fu_wf_def strict_sorted_iff)

lemma fu_replace_ok:
  "fu_replace mem u source interface = (Ok, u') \<Longrightarrow>
   u' = u\<lparr>fu_replacements := fu_replacements u @ [(source, interface)]\<rparr>"
  by (simp add: fu_replace_def split: if_splits)

text \<open>Replacing a list of interfaces, as a frontend generation does.\<close>

fun fu_replace_all ::
    "bool \<Rightarrow> 'e source_frontend_cache_update \<Rightarrow> (nat \<times> 'e option) list
     \<Rightarrow> status_code \<times> 'e source_frontend_cache_update" where
  "fu_replace_all mem u [] = (Ok, u)"
| "fu_replace_all mem u ((source, interface) # items) =
     (case fu_replace mem u source interface of
        (Ok, u') \<Rightarrow> fu_replace_all mem u' items
      | failed \<Rightarrow> failed)"

lemma fu_replace_all_ok:
  "fu_wf u \<Longrightarrow> fu_replace_all mem u items = (Ok, u') \<Longrightarrow>
   fu_wf u' \<and> u' = u\<lparr>fu_replacements := fu_replacements u @ items\<rparr>"
proof (induction items arbitrary: u)
  case (Cons item items)
  obtain s e where item: "item = (s, e)" by force
  obtain v where v: "fu_replace mem u s e = (Ok, v)" "fu_replace_all mem v items = (Ok, u')"
    using Cons.prems(2) by (auto simp: item split: prod.splits status_code.splits)
  have "fu_wf v" using Cons.prems(1) v(1) by (rule fu_replace_wf)
  with Cons.IH [OF _ v(2)] fu_replace_ok [OF v(1)] show ?case by (auto simp: item)
qed simp

lemma fu_replace_all_wf: "fu_wf u' \<Longrightarrow> fu_replace_all mem u' items = (st, u) \<Longrightarrow> fu_wf u"
proof (induction items arbitrary: u')
  case (Cons item items)
  obtain s e where item: "item = (s, e)" by force
  obtain st' v where v: "fu_replace mem u' s e = (st', v)" by force
  have "fu_wf v" using Cons.prems(1) v by (rule fu_replace_wf)
  then show ?case
    using Cons.IH [of v] Cons.prems(2) v by (cases st') (auto simp: item)
qed simp

lemma fu_prepare_cancel:
  "fu_wf u \<Longrightarrow> (case fu_prepare_publish mem required c u of
     (st, c1, u1) \<Rightarrow> fst (fu_cancel c1 u1) = c \<and> \<not> fu_owner (snd (fu_cancel c1 u1)))"
  by (auto simp: fu_wf_def fu_cancel_def fu_prepare_publish_def Let_def grow_def resize_def)

lemma slot_place_interfaces:
  "distinct (map fst items) \<Longrightarrow>
   length (place_interfaces items xs) = length xs \<and>
   slot (place_interfaces items xs) i =
     (if 0 < i \<and> i \<le> length xs
      then Some (case map_of items i of Some e \<Rightarrow> e | None \<Rightarrow> xs ! (i - 1)) else None)"
proof (induction items arbitrary: xs)
  case Nil
  then show ?case by (cases i) (auto simp: slot_Suc)
next
  case (Cons item items)
  obtain s e where item: "item = (s, e)" by force
  let ?xs = "if s \<noteq> 0 \<and> s \<le> length xs then xs[s - 1 := e] else xs"
  have len: "length ?xs = length xs" by simp
  have new: "map_of items s = None"
    using Cons.prems by (simp add: item map_of_eq_None_iff)
  have val: "?xs ! (i - 1) = (if i = s then e else xs ! (i - 1))" if "0 < i" "i \<le> length xs"
    using that by (auto simp: nth_list_update)
  have "length (place_interfaces items ?xs) = length ?xs \<and>
      slot (place_interfaces items ?xs) i =
        (if 0 < i \<and> i \<le> length ?xs
         then Some (case map_of items i of Some e \<Rightarrow> e | None \<Rightarrow> ?xs ! (i - 1)) else None)"
    by (rule Cons.IH) (use Cons.prems in simp)
  then show ?case
    unfolding len item place_interfaces.simps using new val by (auto split: option.splits)
qed

lemma fc_interface_slot: "fc_interface c i = (case slot (fc_interfaces c) i of None \<Rightarrow> None | Some e \<Rightarrow> e)"
  by (cases i) (auto simp: fc_interface_def slot_Suc)

lemma fc_interface_grow:
  "fc_interface (c\<lparr>fc_interfaces := grow n None (fc_interfaces c)\<rparr>) i = fc_interface c i"
  by (auto simp: fc_interface_slot slot_grow slot_None_iff slot_Some_iff split: option.splits)

section \<open>Properties\<close>

text \<open>A published frontend generation shows, for every Source, the interface replaced in
  it, and otherwise the one retained from before, or none after a full reconstruction;
  replacements beyond the prepared source count are dropped.\<close>

theorem frontend_publish_exact:
  assumes rep: "fu_replace_all mem (fc_begin_update full c) items = (Ok, u)"
    and prep: "fu_prepare_publish mem' required c u = (Ok, c1, u1)"
    and pub: "fu_publish_prepared c1 u1 = (c2, u2)"
  shows "fc_interface c2 i =
      (if i = 0 \<or> max required (length (fc_interfaces c)) < i then None
       else case map_of items i of Some e \<Rightarrow> e
         | None \<Rightarrow> if full then None else fc_interface c i) \<and>
     fc_complete c2 \<and> fst (fu_replace mem u2 j e) = Invalid_state"
proof -
  have u: "fu_wf u" "u = (fc_begin_update full c)\<lparr>fu_replacements := items\<rparr>"
    using fu_replace_all_ok [OF fc_begin_update_wf rep] by (auto simp: fc_begin_update_def)
  have c1: "c1 = c\<lparr>fc_interfaces := grow required None (fc_interfaces c)\<rparr>"
    and u1: "u1 = u\<lparr>fu_old_size := length (fc_interfaces c), fu_prepared := True\<rparr>"
    using prep by (auto simp: fu_prepare_publish_def Let_def split: if_splits)
  let ?base = "if full then map (\<lambda>_. None) (fc_interfaces c1) else fc_interfaces c1"
  have c2: "c2 = c1\<lparr>fc_interfaces := place_interfaces items ?base, fc_complete := True\<rparr>"
    and u2: "\<not> fu_owner u2" "fu_failure u2 = Ok"
    using pub u by (auto simp: fu_publish_prepared_def u1 fu_wf_def fc_begin_update_def)
  have dist: "distinct (map fst items)" using fu_wf_distinct [OF u(1)] by (simp add: u(2))
  have len: "length ?base = max required (length (fc_interfaces c))" by (simp add: c1)
  have base: "?base ! (i - 1) = (if full then None else fc_interface c i)"
    if "0 < i" "i \<le> max required (length (fc_interfaces c))"
  proof -
    have "fc_interface c i = fc_interfaces c1 ! (i - 1)"
      using that fc_interface_grow [of required c i] by (auto simp: c1 fc_interface_def max_def split: if_splits)
    with that len show ?thesis by auto
  qed
  have "fc_interface c2 i =
      (if i = 0 \<or> max required (length (fc_interfaces c)) < i then None
       else case map_of items i of Some e \<Rightarrow> e
         | None \<Rightarrow> if full then None else fc_interface c i)"
  proof -
    have shown: "fc_interface c2 i =
        (case slot (place_interfaces items ?base) i of None \<Rightarrow> None | Some e \<Rightarrow> e)"
      by (simp add: fc_interface_slot c2)
    have S: "slot (place_interfaces items ?base) i =
        (if 0 < i \<and> i \<le> max required (length (fc_interfaces c))
         then Some (case map_of items i of Some e \<Rightarrow> e | None \<Rightarrow> ?base ! (i - 1)) else None)"
      using slot_place_interfaces [OF dist, of ?base i] unfolding len by blast
    show ?thesis
    proof (cases "0 < i \<and> i \<le> max required (length (fc_interfaces c))")
      case True
      then have "(i = 0 \<or> max required (length (fc_interfaces c)) < i) = False" by auto
      moreover have "fc_interface c2 i = (case map_of items i of Some e \<Rightarrow> e | None \<Rightarrow> ?base ! (i - 1))"
        unfolding shown S using True by simp
      moreover have "?base ! (i - 1) = (if full then None else fc_interface c i)"
        using True base by blast
      ultimately show ?thesis by presburger
    next
      case False
      then show ?thesis unfolding shown S by auto
    qed
  qed
  moreover have "fst (fu_replace mem u2 j e) = Invalid_state" using u2 by (simp add: fu_replace_def)
  ultimately show ?thesis by (simp add: c2)
qed

definition example_frontend :: "nat source_frontend_cache" where
  "example_frontend = \<lparr>fc_interfaces = [Some 10, Some 20], fc_complete = False\<rparr>"

definition example_frontend_update :: "status_code \<times> nat source_frontend_cache_update" where
  "example_frontend_update =
     fu_replace_all True (fc_begin_update False example_frontend) [(2, Some 21), (3, Some 30)]"

definition example_frontend_prepared ::
    "status_code \<times> nat source_frontend_cache \<times> nat source_frontend_cache_update" where
  "example_frontend_prepared =
     fu_prepare_publish True 3 example_frontend (snd example_frontend_update)"

lemma frontend_publish_exact_witness:
  "fc_interface (fst (fu_publish_prepared (fst (snd example_frontend_prepared))
     (snd (snd example_frontend_prepared)))) 2 = Some 21"
proof -
  have "fst example_frontend_update = Ok" "fst example_frontend_prepared = Ok" by code_simp+
  then show ?thesis
    using frontend_publish_exact [of True False example_frontend "[(2, Some 21), (3, Some 30)]"
        "snd example_frontend_update" True 3 "fst (snd example_frontend_prepared)"
        "snd (snd example_frontend_prepared)" _ _ 2]
    by (simp add: example_frontend_update_def example_frontend_prepared_def prod_eq_iff)
qed

text \<open>Cancelling a frontend update restores the cache exactly, whatever was replaced and
  whether the preparation succeeded, failed or never ran.\<close>

theorem frontend_cancel_restores:
  assumes rep: "fu_replace_all mem (fc_begin_update full c) items = (st, u)"
  shows "fst (fu_cancel c u) = c \<and>
     (case fu_prepare_publish mem' required c u of
        (st', c1, u1) \<Rightarrow> fst (fu_cancel c1 u1) = c \<and> \<not> fu_owner (snd (fu_cancel c1 u1)))"
proof -
  have wf: "fu_wf u" by (rule fu_replace_all_wf [OF fc_begin_update_wf rep])
  with fu_prepare_cancel [OF wf, of c mem' required] show ?thesis
    by (simp add: fu_cancel_def fu_wf_def split: prod.splits)
qed

lemma frontend_cancel_restores_witness:
  "fst (fu_cancel example_frontend (snd example_frontend_update)) = example_frontend"
  using frontend_cancel_restores [of True False example_frontend "[(2, Some 21), (3, Some 30)]"
      "fst example_frontend_update" "snd example_frontend_update" True 3]
  by (simp add: example_frontend_update_def)

section \<open>The frontend update as a two-phase participant\<close>

text \<open>The prepared source count covers every replacement, as the frontend generation passes it.\<close>

definition frontend_active ::
    "nat \<Rightarrow> 'e source_frontend_cache \<times> 'e source_frontend_cache_update \<Rightarrow> bool" where
  "frontend_active required s \<longleftrightarrow> fu_wf (snd s) \<and>
     (\<forall>i\<in>set (map fst (fu_replacements (snd s))). i \<le> required)"

definition frontend_candidate ::
    "'e source_frontend_cache \<times> 'e source_frontend_cache_update \<Rightarrow> nat \<Rightarrow> 'e option" where
  "frontend_candidate s i =
     (case map_of (fu_replacements (snd s)) i of Some e \<Rightarrow> e
      | None \<Rightarrow> if fu_full_reconstruction (snd s) then None else fc_interface (fst s) i)"

lemma fu_publish_candidate:
  assumes act: "frontend_active required s"
    and prep: "fu_prepare_publish mem required (fst s) (snd s) = (Ok, t)"
  shows "fc_interface (fst (fu_publish_prepared (fst t) (snd t))) i = frontend_candidate s i"
proof -
  let ?c = "fst s" and ?u = "snd s" and ?n = "max required (length (fc_interfaces (fst s)))"
  have wf: "fu_wf ?u" and le: "map_of (fu_replacements ?u) j = Some e \<Longrightarrow> j \<le> required" for j e
    using act by (fastforce simp: frontend_active_def dest: map_of_SomeD)+
  have nz: "map_of (fu_replacements ?u) 0 = None" using wf by (simp add: fu_wf_def map_of_eq_None_iff)
  have t: "t = (?c\<lparr>fc_interfaces := grow required None (fc_interfaces ?c)\<rparr>,
      ?u\<lparr>fu_old_size := length (fc_interfaces ?c), fu_prepared := True\<rparr>)"
    using prep by (auto simp: fu_prepare_publish_def Let_def split: if_splits)
  let ?g = "grow required None (fc_interfaces ?c)"
  let ?base = "if fu_full_reconstruction ?u then map (\<lambda>_. None) ?g else ?g"
  have len: "length ?base = ?n" by simp
  have base: "?base ! (i - 1) = (if fu_full_reconstruction ?u then None else fc_interface ?c i)"
    if "0 < i" "i \<le> ?n"
  proof -
    have "?g ! (i - 1) = (if i - 1 < length (fc_interfaces ?c) then fc_interfaces ?c ! (i - 1) else None)"
      using that by (intro nth_grow) auto
    with that show ?thesis by (auto simp: fc_interface_def)
  qed
  have "fst (fu_publish_prepared (fst t) (snd t)) =
      ?c\<lparr>fc_interfaces := place_interfaces (fu_replacements ?u) ?base, fc_complete := True\<rparr>"
    using wf by (simp add: t fu_publish_prepared_def fu_wf_def)
  then have shown: "fc_interface (fst (fu_publish_prepared (fst t) (snd t))) i =
      (case slot (place_interfaces (fu_replacements ?u) ?base) i of None \<Rightarrow> None | Some e \<Rightarrow> e)"
    by (simp add: fc_interface_slot)
  have S: "slot (place_interfaces (fu_replacements ?u) ?base) i =
      (if 0 < i \<and> i \<le> ?n
       then Some (case map_of (fu_replacements ?u) i of Some e \<Rightarrow> e | None \<Rightarrow> ?base ! (i - 1)) else None)"
    using slot_place_interfaces [OF fu_wf_distinct [OF wf], of ?base i] unfolding len by blast
  show ?thesis
  proof (cases "0 < i \<and> i \<le> ?n")
    case True
    with base have "?base ! (i - 1) = (if fu_full_reconstruction ?u then None else fc_interface ?c i)" by blast
    then show ?thesis unfolding shown S frontend_candidate_def using True by (simp only: if_P option.case)
  next
    case False
    then have "map_of (fu_replacements ?u) i = None" using nz le [of i] by (cases "i = 0") fastforce+
    moreover have "fc_interface ?c i = None" using False by (auto simp: fc_interface_def)
    ultimately show ?thesis unfolding shown S frontend_candidate_def using False by auto
  qed
qed

interpretation frontend_phases: two_phase "frontend_active required" "\<lambda>s. fc_interface (fst s)"
  frontend_candidate "\<lambda>s. fu_prepare_publish mem required (fst s) (snd s)"
  "\<lambda>s. fu_publish_prepared (fst s) (snd s)" "\<lambda>s. fu_cancel (fst s) (snd s)"
  for mem required
proof
  fix s t
  assume "frontend_active required s" "fu_prepare_publish mem required (fst s) (snd s) = (Ok, t)"
  then show "fc_interface (fst (fu_publish_prepared (fst t) (snd t))) = frontend_candidate s"
    by (simp add: fun_eq_iff fu_publish_candidate)
next
  fix s t st
  assume "frontend_active required s" "fu_prepare_publish mem required (fst s) (snd s) = (st, t)"
  then show "fc_interface (fst (fu_cancel (fst t) (snd t))) = fc_interface (fst s)"
    by (auto simp: frontend_active_def fu_wf_def fu_cancel_def fu_prepare_publish_def Let_def
        grow_def resize_def split: if_splits)
next
  fix s :: "'a source_frontend_cache \<times> 'a source_frontend_cache_update"
  assume "frontend_active required s"
  then show "fc_interface (fst (fu_cancel (fst s) (snd s))) = fc_interface (fst s)"
    by (simp add: frontend_active_def fu_wf_def fu_cancel_def)
qed


end
