(* ===== verification/GraphTransaction.thy ===== *)
theory GraphTransaction
  imports StringRegistry SourcePublish ContributionCache FrontendCache
begin

text \<open>
  The coordinated build: \<^verbatim>\<open>graph/graph_manager.cpp\<close>, \<^verbatim>\<open>graph/graph_build_transaction.cpp\<close> and
  the commit of a sparse frontend generation in \<^verbatim>\<open>frontend/source_frontend_incremental.cpp\<close>.
  The manager owns the Source Manager, the String Registry, the contribution cache and the
  Graph; a transaction holds one update of each. The Graph and its update are the type
  parameters \<open>'g\<close> and \<open>'u\<close>, and its operations the argument \<open>G\<close>, so that this theory
  states exactly what the transaction relies on. Timings are left out.
\<close>

section \<open>Data\<close>

datatype graph_build_mode = Mode_rebuild | Mode_incremental

datatype project_state = Project_valid | Project_building | Project_error

datatype graph_build_transaction_state = Tx_active | Tx_prepared | Tx_committed | Tx_failed

type_synonym sources_pair = "source_manager \<times> source_manager_update"
type_synonym strings_pair = "string_registry \<times> string_registry_update"
type_synonym contributions_pair = "source_contribution_cache \<times> source_contribution_cache_update"

record ('g, 'u) graph_operations =
  go_initialize :: "abi_configuration \<Rightarrow> 'g \<Rightarrow> status_code \<times> 'g"
  go_begin_update :: "graph_build_mode \<Rightarrow> 'g \<Rightarrow> 'g \<times> 'u"
  go_prepare_publish :: "sources_pair \<Rightarrow> strings_pair \<Rightarrow> contributions_pair \<Rightarrow> 'g \<times> 'u
     \<Rightarrow> status_code \<times> contributions_pair \<times> ('g \<times> 'u)"
  go_retention :: "nat \<Rightarrow> 'g \<times> 'u \<Rightarrow> status_code \<times> nat list"
  go_publish_prepared :: "'g \<times> 'u \<Rightarrow> 'g \<times> 'u"
  go_cancel :: "'g \<times> 'u \<Rightarrow> 'g \<times> 'u"
  go_swap_compiled :: "'g \<Rightarrow> 'g \<Rightarrow> 'g \<times> 'g"

record 'g graph_manager =
  gm_sources :: source_manager
  gm_strings :: string_registry
  gm_contributions :: source_contribution_cache
  gm_graph :: 'g
  gm_state :: project_state

record 'u graph_build_transaction =
  gt_sources :: source_manager_update
  gt_strings :: string_registry_update
  gt_contributions :: source_contribution_cache_update
  gt_graph :: 'u
  gt_owner :: bool
  gt_state :: graph_build_transaction_state

text \<open>Which allocations of a preparation succeed.\<close>

record prepare_memory =
  pm_sources :: bool
  pm_strings :: bool
  pm_compaction :: bool
  pm_contributions :: bool
  pm_entities :: bool

section \<open>The manager\<close>

definition gm_initialize ::
    "('g, 'u) graph_operations \<Rightarrow> abi_configuration \<Rightarrow> 'g graph_manager
     \<Rightarrow> status_code \<times> 'g graph_manager" where
  "gm_initialize G abi m =
     (case sm_initialize (gm_sources m) of (st, sources) \<Rightarrow>
        let m = m\<lparr>gm_sources := sources\<rparr> in
        if st \<noteq> Ok then (st, m)
        else case sr_initialize (gm_strings m) of (st, strings) \<Rightarrow>
          let m = m\<lparr>gm_strings := strings\<rparr> in
          if st \<noteq> Ok then (st, m)
          else case cc_initialize (gm_contributions m) of (st, contributions) \<Rightarrow>
            let m = m\<lparr>gm_contributions := contributions\<rparr> in
            if st \<noteq> Ok then (st, m)
            else case go_initialize G abi (gm_graph m) of (st, graph) \<Rightarrow>
              (st, m\<lparr>gm_graph := graph, gm_state := Project_error\<rparr>))"

definition effective_mode :: "graph_build_mode \<Rightarrow> 'g graph_manager \<Rightarrow> graph_build_mode" where
  "effective_mode mode m =
     (if mode = Mode_rebuild \<or> \<not> cc_complete (gm_contributions m) then Mode_rebuild else Mode_incremental)"

text \<open>The transaction constructor begins the four updates in member order.\<close>

definition gt_new ::
    "('g, 'u) graph_operations \<Rightarrow> graph_build_mode \<Rightarrow> 'g graph_manager
     \<Rightarrow> 'g graph_manager \<times> 'u graph_build_transaction" where
  "gt_new G mode m =
     (case cc_begin_update (mode = Mode_rebuild) (gm_contributions m) of (contributions, cu) \<Rightarrow>
        case go_begin_update G mode (gm_graph m) of (graph, gu) \<Rightarrow>
          (m\<lparr>gm_contributions := contributions, gm_graph := graph\<rparr>,
           \<lparr>gt_sources = sm_begin_update (gm_sources m), gt_strings = sr_begin_update (gm_strings m),
            gt_contributions = cu, gt_graph = gu, gt_owner = True, gt_state = Tx_active\<rparr>))"

definition gm_begin_build ::
    "('g, 'u) graph_operations \<Rightarrow> graph_build_mode \<Rightarrow> 'g graph_manager
     \<Rightarrow> 'g graph_manager \<times> 'u graph_build_transaction" where
  "gm_begin_build G mode m =
     (let m = m\<lparr>gm_state := Project_building\<rparr> in gt_new G (effective_mode mode m) m)"

definition gm_complete_build :: "bool \<Rightarrow> 'g graph_manager \<Rightarrow> 'g graph_manager" where
  "gm_complete_build success m = m\<lparr>gm_state := (if success then Project_valid else Project_error)\<rparr>"

definition gm_runnable_graph :: "'g graph_manager \<Rightarrow> status_code \<times> 'g option" where
  "gm_runnable_graph m =
     (if gm_state m \<noteq> Project_valid then (Invalid_state, None) else (Ok, Some (gm_graph m)))"

text \<open>
  Loading a compiled checkpoint: \<open>read\<close> imports the file into the freshly initialized
  candidates \<open>fresh\<close>, and \<open>mem\<close> says that no allocation throws.
\<close>

definition default_abi_configuration :: abi_configuration where
  "default_abi_configuration = \<lparr>abi_target_of = Windows_x64, abi_pack = 8\<rparr>"

definition gm_load_compiled_checkpoint ::
    "('g, 'u) graph_operations \<Rightarrow> bool
     \<Rightarrow> (string_registry \<Rightarrow> 'g \<Rightarrow> status_code \<times> string_registry \<times> 'g) \<Rightarrow> 'g
     \<Rightarrow> 'g graph_manager \<Rightarrow> status_code \<times> 'g graph_manager" where
  "gm_load_compiled_checkpoint G mem read fresh m =
     (let m = m\<lparr>gm_state := Project_building\<rparr> in
      if \<not> mem then (Initialization_failed, m\<lparr>gm_state := Project_error\<rparr>)
      else
        case sr_initialize new_string_registry of (st, strings) \<Rightarrow>
          case (if st = Ok then go_initialize G default_abi_configuration fresh else (st, fresh)) of (st, graph) \<Rightarrow>
            case (if st = Ok then read strings graph else (st, strings, graph)) of (st, strings, graph) \<Rightarrow>
              if st \<noteq> Ok then (st, m\<lparr>gm_state := Project_error\<rparr>)
              else
                (Ok, m\<lparr>gm_strings := fst (sr_swap_compiled (gm_strings m) strings),
                       gm_graph := fst (go_swap_compiled G (gm_graph m) graph),
                       gm_contributions := cc_invalidate (gm_contributions m),
                       gm_state := Project_valid\<rparr>))"

definition gm_load_source_checkpoint ::
    "bool \<Rightarrow> status_code \<times> stable_source_manager_view \<Rightarrow> 'g graph_manager
     \<Rightarrow> status_code \<times> 'g graph_manager" where
  "gm_load_source_checkpoint mem opened m =
     (let m = m\<lparr>gm_state := Project_error, gm_contributions := cc_invalidate (gm_contributions m)\<rparr>
      in case sm_load_checkpoint mem opened (gm_sources m) of (st, sources) \<Rightarrow>
           (st, m\<lparr>gm_sources := sources\<rparr>))"

section \<open>The transaction\<close>

definition gt_fail ::
    "('g, 'u) graph_operations \<Rightarrow> 'g graph_manager \<Rightarrow> 'u graph_build_transaction
     \<Rightarrow> 'g graph_manager \<times> 'u graph_build_transaction" where
  "gt_fail G m t =
     (case cu_cancel (gm_contributions m) (gt_contributions t) of (contributions, cu) \<Rightarrow>
        case go_cancel G (gm_graph m, gt_graph t) of (graph, gu) \<Rightarrow>
          (let m = m\<lparr>gm_contributions := contributions, gm_graph := graph\<rparr>
           in (if gt_owner t then gm_complete_build False m else m,
               t\<lparr>gt_sources := mu_cancel (gt_sources t), gt_strings := su_cancel (gt_strings t),
                 gt_contributions := cu, gt_graph := gu, gt_state := Tx_failed\<rparr>)))"

definition gt_prepare_strings ::
    "('g, 'u) graph_operations \<Rightarrow> prepare_memory \<Rightarrow> 'g graph_manager \<Rightarrow> 'u graph_build_transaction
     \<Rightarrow> status_code \<times> 'u graph_build_transaction" where
  "gt_prepare_strings G mem m t =
     (case go_retention G (su_candidate_size (gm_strings m) (gt_strings t)) (gm_graph m, gt_graph t) of
        (st, retained) \<Rightarrow>
          if st \<noteq> Ok then (st, t)
          else if retained \<noteq> [] then
            (case su_prepare_rebuild_compaction (pm_compaction mem) (gm_strings m) (gt_strings t) retained of
               (st, su) \<Rightarrow> (st, t\<lparr>gt_strings := su\<rparr>))
          else (Ok, t))"

definition gt_prepare ::
    "('g, 'u) graph_operations \<Rightarrow> prepare_memory \<Rightarrow> 'g graph_manager \<Rightarrow> 'u graph_build_transaction
     \<Rightarrow> status_code \<times> 'g graph_manager \<times> 'u graph_build_transaction" where
  "gt_prepare G mem m t =
     (if gt_state t \<noteq> Tx_active then (Invalid_state, m, t)
      else
        case mu_prepare_publish (pm_sources mem) (gm_sources m) (gt_sources t) of (st, mu) \<Rightarrow>
          let t = t\<lparr>gt_sources := mu\<rparr> in
          if st \<noteq> Ok then (st, gt_fail G m t)
          else case su_prepare_publish (pm_strings mem) (gm_strings m) (gt_strings t) of (st, su) \<Rightarrow>
            let t = t\<lparr>gt_strings := su\<rparr> in
            if st \<noteq> Ok then (st, gt_fail G m t)
            else case go_prepare_publish G (gm_sources m, gt_sources t) (gm_strings m, gt_strings t)
                        (gm_contributions m, gt_contributions t) (gm_graph m, gt_graph t) of
                   (st, (contributions, cu), (graph, gu)) \<Rightarrow>
              let m = m\<lparr>gm_contributions := contributions, gm_graph := graph\<rparr>;
                  t = t\<lparr>gt_contributions := cu, gt_graph := gu\<rparr> in
              if st \<noteq> Ok then (st, gt_fail G m t)
              else case gt_prepare_strings G mem m t of (st, t) \<Rightarrow>
                if st \<noteq> Ok then (st, gt_fail G m t)
                else case cu_prepare_publish (pm_contributions mem) (pm_entities mem)
                            (gm_contributions m) (gt_contributions t) of (st, contributions, cu) \<Rightarrow>
                  let m = m\<lparr>gm_contributions := contributions\<rparr>; t = t\<lparr>gt_contributions := cu\<rparr> in
                  if st \<noteq> Ok then (st, gt_fail G m t)
                  else (Ok, m, t\<lparr>gt_state := Tx_prepared\<rparr>))"

definition gt_publish_prepared ::
    "('g, 'u) graph_operations \<Rightarrow> 'g graph_manager \<Rightarrow> 'u graph_build_transaction
     \<Rightarrow> 'g graph_manager \<times> 'u graph_build_transaction" where
  "gt_publish_prepared G m t =
     (case mu_publish_prepared (gm_sources m) (gt_sources t) of (sources, mu) \<Rightarrow>
        case su_publish_prepared (gm_strings m) (gt_strings t) of (strings, su) \<Rightarrow>
          case cu_publish_prepared (gm_contributions m) (gt_contributions t) of (contributions, cu) \<Rightarrow>
            case go_publish_prepared G (gm_graph m, gt_graph t) of (graph, gu) \<Rightarrow>
              (let m = m\<lparr>gm_sources := sources, gm_strings := strings,
                         gm_contributions := contributions, gm_graph := graph\<rparr>
               in (if gt_owner t then gm_complete_build True m else m,
                   t\<lparr>gt_sources := mu, gt_strings := su, gt_contributions := cu, gt_graph := gu,
                     gt_state := Tx_committed\<rparr>)))"

definition gt_commit ::
    "('g, 'u) graph_operations \<Rightarrow> prepare_memory \<Rightarrow> 'g graph_manager \<Rightarrow> 'u graph_build_transaction
     \<Rightarrow> status_code \<times> 'g graph_manager \<times> 'u graph_build_transaction" where
  "gt_commit G mem m t =
     (case gt_prepare G mem m t of (st, m, t) \<Rightarrow>
        if st \<noteq> Ok then (st, m, t) else (Ok, gt_publish_prepared G m t))"

text \<open>The destructor: a transaction that never ended fails.\<close>

definition gt_destroy ::
    "('g, 'u) graph_operations \<Rightarrow> 'g graph_manager \<Rightarrow> 'u graph_build_transaction \<Rightarrow> 'g graph_manager" where
  "gt_destroy G m t =
     (if gt_owner t \<and> (gt_state t = Tx_active \<or> gt_state t = Tx_prepared) then fst (gt_fail G m t) else m)"

text \<open>A checkpoint is written only by a committed transaction: \<open>save\<close> is the file system write.\<close>

definition gt_checkpoint ::
    "('g graph_manager \<Rightarrow> status_code) \<Rightarrow> 'g graph_manager \<Rightarrow> 'u graph_build_transaction \<Rightarrow> status_code" where
  "gt_checkpoint save m t =
     (if gt_state t \<noteq> Tx_committed \<or> \<not> gt_owner t then Invalid_state else save m)"

section \<open>The commit of a sparse frontend generation\<close>

text \<open>
  The interfaces are replaced and prepared first; the transaction then decides. An early
  return destroys the frontend update, which cancels it.
\<close>

definition generation_commit ::
    "('g, 'u) graph_operations \<Rightarrow> prepare_memory \<Rightarrow> bool \<Rightarrow> bool \<Rightarrow> (nat \<times> 'e option) list
     \<Rightarrow> 'e source_frontend_cache \<Rightarrow> 'g graph_manager \<Rightarrow> 'u graph_build_transaction
     \<Rightarrow> status_code \<times> 'e source_frontend_cache \<times> 'g graph_manager \<times> 'u graph_build_transaction" where
  "generation_commit G mem memr memp interfaces cache m t =
     (case fu_replace_all memr (fc_begin_update False cache) interfaces of (st, fu) \<Rightarrow>
        if st \<noteq> Ok then (st, fst (fu_cancel cache fu), m, t)
        else case fu_prepare_publish memp (mu_source_count (gm_sources m) (gt_sources t)) cache fu of
               (st, cache, fu) \<Rightarrow>
          if st \<noteq> Ok then (st, fst (fu_cancel cache fu), m, t)
          else case gt_commit G mem m t of (st, m, t) \<Rightarrow>
            if st \<noteq> Ok then (st, fst (fu_cancel cache fu), m, t)
            else (Ok, fst (fu_publish_prepared cache fu), m, t))"

section \<open>What the Graph promises\<close>

text \<open>
  \<open>gview\<close> is what readers of the Graph see, \<open>gactive\<close> a Graph and its update between the
  begin and the preparation. The Graph cancels like the other participants, and it uses
  the contribution update only through that update's operations.
\<close>

definition graph_participant ::
    "('g, 'u) graph_operations \<Rightarrow> ('g \<Rightarrow> 'v) \<Rightarrow> ('g \<times> 'u \<Rightarrow> bool) \<Rightarrow> bool" where
  "graph_participant G gview gactive \<longleftrightarrow>
     (\<forall>mode g. gactive (go_begin_update G mode g) \<and> gview (fst (go_begin_update G mode g)) = gview g) \<and>
     (\<forall>p. gactive p \<longrightarrow> gview (fst (go_cancel G p)) = gview (fst p)) \<and>
     (\<forall>S R C p st C' p'. gactive p \<longrightarrow> go_prepare_publish G S R C p = (st, C', p') \<longrightarrow>
        cu_step\<^sup>*\<^sup>* C C' \<and> gview (fst (go_cancel G p')) = gview (fst p))"

lemma graph_participantD:
  assumes "graph_participant G gview gactive"
  shows "gactive (go_begin_update G mode g)" "gview (fst (go_begin_update G mode g)) = gview g"
    "gactive p \<Longrightarrow> gview (fst (go_cancel G p)) = gview (fst p)"
    "gactive p \<Longrightarrow> go_prepare_publish G S R C p = (st, C', p') \<Longrightarrow> cu_step\<^sup>*\<^sup>* C C'"
    "gactive p \<Longrightarrow> go_prepare_publish G S R C p = (st, C', p') \<Longrightarrow> gview (fst (go_cancel G p')) = gview (fst p)"
  using assms unfolding graph_participant_def by blast+

section \<open>The life of a build\<close>

definition gm_wf :: "'g graph_manager \<Rightarrow> bool" where
  "gm_wf m \<longleftrightarrow> sm_wf (gm_sources m) \<and> sr_wf (gm_strings m) \<and> cache_wf (gm_contributions m) \<and>
     unat (cc_next_generation (gm_contributions m)) < 18446744073709551615"

definition tx_active ::
    "('g \<times> 'u \<Rightarrow> bool) \<Rightarrow> 'g graph_manager \<Rightarrow> 'u graph_build_transaction \<Rightarrow> bool" where
  "tx_active gactive m t \<longleftrightarrow> gt_state t = Tx_active \<and> gt_owner t \<and>
     mu_wf (gm_sources m) (gt_sources t) \<and> interning (gm_strings m, gt_strings t) \<and>
     cu_wf (gm_contributions m) (gt_contributions t) \<and> gactive (gm_graph m, gt_graph t)"

text \<open>The steps of a build: on the Sources, on the strings, and on the Graph with the
  contributions that it maintains.\<close>

inductive build_step ::
    "('g \<Rightarrow> 'v) \<Rightarrow> ('g \<times> 'u \<Rightarrow> bool) \<Rightarrow> 'g graph_manager \<times> 'u graph_build_transaction
     \<Rightarrow> 'g graph_manager \<times> 'u graph_build_transaction \<Rightarrow> bool"
  for gview :: "'g \<Rightarrow> 'v" and gactive :: "'g \<times> 'u \<Rightarrow> bool" where
  build_source: "mu_step (gm_sources m) (gt_sources t) mu \<Longrightarrow>
     build_step gview gactive (m, t) (m, t\<lparr>gt_sources := mu\<rparr>)"
| build_string: "su_intern mem (gm_strings m) (gt_strings t) v = (st, i, su) \<Longrightarrow>
     build_step gview gactive (m, t) (m, t\<lparr>gt_strings := su\<rparr>)"
| build_graph: "cu_step\<^sup>*\<^sup>* (gm_contributions m, gt_contributions t) (c, cu) \<Longrightarrow> gactive (g, gu) \<Longrightarrow>
     gview g = gview (gm_graph m) \<Longrightarrow>
     build_step gview gactive (m, t)
       (m\<lparr>gm_contributions := c, gm_graph := g\<rparr>, t\<lparr>gt_contributions := cu, gt_graph := gu\<rparr>)"

text \<open>What readers see of a manager.\<close>

definition manager_view where
  "manager_view gview m =
     (gm_sources m, gm_strings m, contributions_view (gm_contributions m),
      cc_complete (gm_contributions m), gview (gm_graph m))"

lemma contributions_view_cong:
  "cc_states c' = cc_states c \<Longrightarrow> cc_entity_states c' = cc_entity_states c \<Longrightarrow>
   contributions_view c' = contributions_view c"
  by (simp add: contributions_view_def fun_eq_iff contribution_of_def entity_state_of_def)

lemma cu_steps_views:
  "cu_step\<^sup>*\<^sup>* (c, u) (c', u') \<Longrightarrow>
   contributions_view c' = contributions_view c \<and> cc_complete c' = cc_complete c"
  using cu_steps_frame [of "(c, u)" "(c', u')"] contributions_view_cong [of c' c]
  by (simp add: cu_frame_def)

lemma su_intern_wf_any:
  assumes wf: "su_wf r u" and run: "su_intern mem r u v = (st, i, u')"
  shows "su_wf r u'"
proof (cases "st = Ok")
  case True
  with su_intern_wf [OF wf] run show ?thesis by blast
next
  case False
  have failed: "su_wf r (u\<lparr>su_failure := e\<rparr>)" for e
    using wf by (simp add: su_wf_def candidate_table_def)
  have "case su_intern mem r u v of (st, i, u') \<Rightarrow> st \<noteq> Ok \<longrightarrow> su_wf r u'"
    unfolding su_intern_def Let_def using wf failed by (simp split: if_split option.split)
  with run False show ?thesis by simp
qed

lemma build_step_active:
  "build_step gview gactive s s' \<Longrightarrow> tx_active gactive (fst s) (snd s) \<Longrightarrow>
   tx_active gactive (fst s') (snd s') \<and> manager_view gview (fst s') = manager_view gview (fst s)"
proof (induction rule: build_step.induct)
  case (build_source m t mu)
  then show ?case by (simp add: tx_active_def mu_step_wf)
next
  case (build_string mem m t v st i su)
  then have "su_wf (gm_strings m) su" "\<not> su_prepared su"
    using su_intern_wf_any su_intern_prepared
    by (auto simp: tx_active_def interning_def)
  with build_string show ?case by (simp add: tx_active_def interning_def)
next
  case (build_graph m t c cu g gu)
  then have "cu_wf c cu"
    using cu_steps_wf [OF build_graph(1)] by (simp add: tx_active_def)
  with build_graph cu_steps_views [OF build_graph(1)] show ?case
    by (simp add: tx_active_def manager_view_def)
qed

lemma build_steps_active:
  "(build_step gview gactive)\<^sup>*\<^sup>* s s' \<Longrightarrow> tx_active gactive (fst s) (snd s) \<Longrightarrow>
   tx_active gactive (fst s') (snd s') \<and> manager_view gview (fst s') = manager_view gview (fst s)"
  by (induction rule: rtranclp_induct) (auto dest: build_step_active)

lemma begin_build_active:
  assumes G: "graph_participant G gview gactive" and wf: "gm_wf m"
    and run: "gm_begin_build G mode m = (m', t)"
  shows "tx_active gactive m' t" "manager_view gview m' = manager_view gview m" "gm_state m' = Project_building"
proof -
  let ?mode = "effective_mode mode (m\<lparr>gm_state := Project_building\<rparr>)"
  obtain c cu where c: "cc_begin_update (?mode = Mode_rebuild) (gm_contributions m) = (c, cu)" by force
  obtain g gu where g: "go_begin_update G ?mode (gm_graph m) = (g, gu)" by force
  note B = begin_update_wf [OF _ _ c]
  have m': "m' = m\<lparr>gm_state := Project_building, gm_contributions := c, gm_graph := g\<rparr>"
    and t: "t = \<lparr>gt_sources = sm_begin_update (gm_sources m), gt_strings = sr_begin_update (gm_strings m),
            gt_contributions = cu, gt_graph = gu, gt_owner = True, gt_state = Tx_active\<rparr>"
    using run by (simp_all add: gm_begin_build_def gt_new_def Let_def c g)
  have W: "sm_wf (gm_sources m)" "sr_wf (gm_strings m)" "cache_wf (gm_contributions m)"
    "unat (cc_next_generation (gm_contributions m)) < 18446744073709551615"
    using wf by (simp_all add: gm_wf_def)
  have "\<not> su_prepared (sr_begin_update (gm_strings m))" by (simp add: sr_begin_update_def)
  then show "tx_active gactive m' t"
    using mu_wf_begin [OF W(1)] su_wf_begin [OF W(2)] B(1) [OF W(3,4)]
      graph_participantD(1) [OF G, of ?mode "gm_graph m"]
    by (simp add: tx_active_def m' t interning_def g)
  show "manager_view gview m' = manager_view gview m"
    using B(5) [OF W(3,4)] contributions_view_cong [OF B(3,4) [OF W(3,4)]]
      graph_participantD(2) [OF G, of ?mode "gm_graph m"]
    by (simp add: manager_view_def m' g)
  show "gm_state m' = Project_building" by (simp add: m')
qed


section \<open>Preparation\<close>

text \<open>
  A point of the preparation from which failing undoes everything: the Sources and the
  strings are untouched, and cancelling restores what readers see of the rest.
\<close>

definition restorable ::
    "('g, 'u) graph_operations \<Rightarrow> ('g \<Rightarrow> 'v) \<Rightarrow> 'g graph_manager \<Rightarrow> 'g graph_manager
     \<Rightarrow> 'u graph_build_transaction \<Rightarrow> bool" where
  "restorable G gview m0 m t \<longleftrightarrow>
     gt_owner t \<and> gm_sources m = gm_sources m0 \<and> gm_strings m = gm_strings m0 \<and>
     contributions_view (fst (cu_cancel (gm_contributions m) (gt_contributions t)))
       = contributions_view (gm_contributions m0) \<and>
     cc_complete (fst (cu_cancel (gm_contributions m) (gt_contributions t)))
       = cc_complete (gm_contributions m0) \<and>
     cache_wf (fst (cu_cancel (gm_contributions m) (gt_contributions t))) \<and>
     gview (fst (go_cancel G (gm_graph m, gt_graph t))) = gview (gm_graph m0)"

lemma gt_fail_restores:
  assumes "restorable G gview m0 m t" "gt_fail G m t = (m', t')"
  shows "manager_view gview m' = manager_view gview m0" "gm_state m' = Project_error"
    "gt_state t' = Tx_failed" "cache_wf (gm_contributions m')"
  using assms
  by (simp_all add: gt_fail_def restorable_def manager_view_def gm_complete_build_def
      split: prod.splits)
    auto

lemma cu_cancel_unprepared:
  "cu_wf c u \<Longrightarrow> fst (cu_cancel c u) = c"
  by (simp add: cu_wf_def cu_cancel_def)

text \<open>The details of a preparation that succeeds.\<close>

definition prepared_parts where
  "prepared_parts G mem m t mu su su' retained c1 cu1 g gu c cu \<longleftrightarrow>
     mu_prepare_publish (pm_sources mem) (gm_sources m) (gt_sources t) = (Ok, mu) \<and>
     su_prepare_publish (pm_strings mem) (gm_strings m) (gt_strings t) = (Ok, su) \<and>
     go_prepare_publish G (gm_sources m, mu) (gm_strings m, su)
       (gm_contributions m, gt_contributions t) (gm_graph m, gt_graph t) = (Ok, (c1, cu1), (g, gu)) \<and>
     go_retention G (su_candidate_size (gm_strings m) su) (g, gu) = (Ok, retained) \<and>
     (if retained = [] then su' = su
      else su_prepare_rebuild_compaction (pm_compaction mem) (gm_strings m) su retained = (Ok, su')) \<and>
     cu_prepare_publish (pm_contributions mem) (pm_entities mem) c1 cu1 = (Ok, c, cu)"

lemma gt_prepare_cases:
  assumes G: "graph_participant G gview gactive" and act: "tx_active gactive m t"
    and run: "gt_prepare G mem m t = (st, m', t')"
  obtains (failed) m1 t1 where "st \<noteq> Ok" "restorable G gview m m1 t1" "(m', t') = gt_fail G m1 t1"
  | (prepared) mu su su' retained c1 cu1 g gu c cu where "st = Ok"
      "prepared_parts G mem m t mu su su' retained c1 cu1 g gu c cu"
      "cu_wf c1 cu1" "cu_step\<^sup>*\<^sup>* (gm_contributions m, gt_contributions t) (c1, cu1)"
      "m' = m\<lparr>gm_contributions := c, gm_graph := g\<rparr>"
      "t' = t\<lparr>gt_sources := mu, gt_strings := su', gt_contributions := cu, gt_graph := gu,
              gt_state := Tx_prepared\<rparr>"
proof -
  have A: "gt_state t = Tx_active" "gt_owner t" "cu_wf (gm_contributions m) (gt_contributions t)"
    "gactive (gm_graph m, gt_graph t)" using act by (simp_all add: tx_active_def)
  note GD = graph_participantD [OF G]
  have cache: "cache_wf c" if "cu_wf c u" for c u using that by (simp add: cu_wf_def)
  obtain st1 mu where 1: "mu_prepare_publish (pm_sources mem) (gm_sources m) (gt_sources t) = (st1, mu)" by force
  obtain st2 su where 2: "su_prepare_publish (pm_strings mem) (gm_strings m) (gt_strings t) = (st2, su)" by force
  obtain st3 c1 cu1 g gu where 3: "go_prepare_publish G (gm_sources m, mu) (gm_strings m, su)
      (gm_contributions m, gt_contributions t) (gm_graph m, gt_graph t) = (st3, (c1, cu1), (g, gu))"
    by (metis prod.exhaust)
  have steps: "cu_step\<^sup>*\<^sup>* (gm_contributions m, gt_contributions t) (c1, cu1)"
    and restored: "gview (fst (go_cancel G (g, gu))) = gview (gm_graph m)"
    using GD(4,5) [OF A(4) 3] by simp_all
  have wf1: "cu_wf c1 cu1" using cu_steps_wf [OF steps] A(3) by simp
  note views = cu_steps_views [OF steps]
  let ?t1 = "t\<lparr>gt_sources := mu\<rparr>" and ?t2 = "t\<lparr>gt_sources := mu, gt_strings := su\<rparr>"
  let ?m3 = "m\<lparr>gm_contributions := c1, gm_graph := g\<rparr>"
    and ?t3 = "t\<lparr>gt_sources := mu, gt_strings := su, gt_contributions := cu1, gt_graph := gu\<rparr>"
  obtain st4 t4 where 4: "gt_prepare_strings G mem ?m3 ?t3 = (st4, t4)" by force
  have t4: "t4 = ?t3\<lparr>gt_strings := gt_strings t4\<rparr>"
    using 4 by (auto simp: gt_prepare_strings_def split: prod.splits if_splits)
  obtain st5 c cu where 5: "cu_prepare_publish (pm_contributions mem) (pm_entities mem) c1 cu1 = (st5, c, cu)"
    by (metis prod.exhaust)
  have fields: "gt_owner t4" "gt_contributions t4 = cu1" "gt_graph t4 = gu"
    by (subst t4; simp add: A(2))+
  have R12: "restorable G gview m m s" if "gt_owner s" "gt_contributions s = gt_contributions t" "gt_graph s = gt_graph t" for s
    using that A GD(3) [OF A(4)] cache by (simp add: restorable_def cu_cancel_unprepared)
  have R34: "restorable G gview m ?m3 s" if "gt_owner s" "gt_contributions s = cu1" "gt_graph s = gu" for s
    using that wf1 views restored cache by (simp add: restorable_def cu_cancel_unprepared)
  have R5: "restorable G gview m (?m3\<lparr>gm_contributions := c\<rparr>) (t4\<lparr>gt_contributions := cu\<rparr>)"
    using cu_prepare_cancel(1) [OF wf1 5 prod.collapse [symmetric]] wf1 views restored cache fields
    by (simp add: restorable_def)
  consider "st1 \<noteq> Ok" | "st1 = Ok" "st2 \<noteq> Ok" | "st1 = Ok" "st2 = Ok" "st3 \<noteq> Ok"
    | "st1 = Ok" "st2 = Ok" "st3 = Ok" "st4 \<noteq> Ok" | "st1 = Ok" "st2 = Ok" "st3 = Ok" "st4 = Ok" "st5 \<noteq> Ok"
    | (all) "st1 = Ok" "st2 = Ok" "st3 = Ok" "st4 = Ok" "st5 = Ok" by blast
  then show thesis
  proof cases
    case 1: 1
    then show ?thesis using failed [OF _ R12, of ?t1] run A \<open>mu_prepare_publish _ _ _ = _\<close>
      by (simp add: gt_prepare_def)
  next
    case 2: 2
    then show ?thesis
      using failed [OF _ R12, of ?t2] run A \<open>mu_prepare_publish _ _ _ = _\<close> \<open>su_prepare_publish _ _ _ = _\<close>
      by (simp add: gt_prepare_def)
  next
    case 3
    then show ?thesis
      using failed [OF _ R34, of ?t3] run A \<open>mu_prepare_publish _ _ _ = _\<close> \<open>su_prepare_publish _ _ _ = _\<close>
        \<open>go_prepare_publish _ _ _ _ _ = _\<close>
      by (simp add: gt_prepare_def)
  next
    case 4
    then show ?thesis
      using failed [OF _ R34, of t4] run A fields \<open>mu_prepare_publish _ _ _ = _\<close> \<open>su_prepare_publish _ _ _ = _\<close>
        \<open>go_prepare_publish _ _ _ _ _ = _\<close> \<open>gt_prepare_strings _ _ _ _ = _\<close>
      by (simp add: gt_prepare_def)
  next
    case 5
    then show ?thesis
      using failed [OF _ R5] run A fields \<open>mu_prepare_publish _ _ _ = _\<close> \<open>su_prepare_publish _ _ _ = _\<close>
        \<open>go_prepare_publish _ _ _ _ _ = _\<close> \<open>gt_prepare_strings _ _ _ _ = _\<close>
        \<open>cu_prepare_publish _ _ _ _ = _\<close>
      by (simp add: gt_prepare_def)
  next
    case all
    obtain retained where ret: "go_retention G (su_candidate_size (gm_strings m) su) (g, gu) = (Ok, retained)"
      and comp: "if retained = [] then gt_strings t4 = su
        else su_prepare_rebuild_compaction (pm_compaction mem) (gm_strings m) su retained = (Ok, gt_strings t4)"
      using 4 all(4) by (auto simp: gt_prepare_strings_def split: prod.splits if_splits)
    have "prepared_parts G mem m t mu su (gt_strings t4) retained c1 cu1 g gu c cu"
      unfolding prepared_parts_def using 1 2 3 5 all ret comp by simp
    moreover have "(st, m', t') = (Ok, m\<lparr>gm_contributions := c, gm_graph := g\<rparr>,
        t4\<lparr>gt_contributions := cu, gt_state := Tx_prepared\<rparr>)"
      unfolding run [symmetric] using 1 2 3 4 5 all A fields by (simp add: gt_prepare_def)
    then have "st = Ok" "m' = m\<lparr>gm_contributions := c, gm_graph := g\<rparr>"
      "t' = t4\<lparr>gt_contributions := cu, gt_state := Tx_prepared\<rparr>" unfolding prod.inject by blast+
    moreover have "t4\<lparr>gt_contributions := cu, gt_state := Tx_prepared\<rparr> =
        t\<lparr>gt_sources := mu, gt_strings := gt_strings t4, gt_contributions := cu, gt_graph := gu,
          gt_state := Tx_prepared\<rparr>"
      by (subst (1) t4) simp
    ultimately show ?thesis using prepared wf1 steps by metis
  qed
qed


section \<open>Properties\<close>

lemma prepared_strings_published:
  assumes wf: "su_wf r u"
    and comp: "if retained = [] then u' = u
      else su_prepare_rebuild_compaction mem r u retained = (Ok, u')"
    and pub: "su_publish_prepared r u' = (r', u'')"
  shows "sr_wf r'" "sr_get r' i =
      (if i < length retained \<and> retained ! i = 0 then None else su_get_for_validation r u i)"
proof -
  have r': "r' = fst (su_publish_prepared r u')" using pub by simp
  have "sr_wf r' \<and> sr_get r' i =
      (if i < length retained \<and> retained ! i = 0 then None else su_get_for_validation r u i)"
  proof (cases "retained = []")
    case True
    with comp publish_append_wf [OF wf] show ?thesis
      by (simp add: r' sr_get_slot su_get_for_validation_slot [OF wf])
  next
    case False
    with comp have run: "su_prepare_rebuild_compaction mem r u retained = (Ok, u')" by simp
    have len: "length (candidate_table r u) < length retained"
      using run by (auto simp: su_prepare_rebuild_compaction_def Let_def length_candidate_table split: if_splits)
    have "records r' = retain_table retained (candidate_table r u)"
      using compaction_table(2) [OF wf run] by (simp add: r' published_table_def)
    then have "sr_get r' i =
        (if i < length retained \<and> retained ! i = 0 then None else su_get_for_validation r u i)"
      using len by (auto simp: sr_get_slot slot_retain_table su_get_for_validation_slot [OF wf]
          slot_Some_iff slot_None_iff split: option.splits)
    with compaction_table(1) [OF wf run] show ?thesis by (simp add: r')
  qed
  then show "sr_wf r'" "sr_get r' i =
      (if i < length retained \<and> retained ! i = 0 then None else su_get_for_validation r u i)" by blast+
qed

lemma commit_failed_restores:
  assumes G: "graph_participant G gview gactive" and act: "tx_active gactive m t"
    and run: "gt_commit G mem m t = (st, m', t')" and failed: "st \<noteq> Ok"
  shows "manager_view gview m' = manager_view gview m" "gm_state m' = Project_error" "gt_state t' = Tx_failed"
proof -
  obtain st1 m1 t1 where p: "gt_prepare G mem m t = (st1, m1, t1)" by (metis prod.exhaust)
  then have eq: "st = st1" "m' = m1" "t' = t1" "st1 \<noteq> Ok"
    using run failed by (simp_all add: gt_commit_def split: if_splits)
  from G act p have "manager_view gview m1 = manager_view gview m \<and> gm_state m1 = Project_error \<and> gt_state t1 = Tx_failed"
  proof (cases rule: gt_prepare_cases)
    case (failed m2 t2)
    have "gt_fail G m2 t2 = (m1, t1)" using failed(3) by simp
    then show ?thesis using gt_fail_restores [OF failed(2)] by blast
  qed (use eq in simp)
  then show "manager_view gview m' = manager_view gview m" "gm_state m' = Project_error" "gt_state t' = Tx_failed"
    by (simp_all add: eq)
qed

lemma commit_ok_publishes:
  assumes G: "graph_participant G gview gactive" and act: "tx_active gactive m t"
    and run: "gt_commit G mem m t = (Ok, m', t')"
  shows "\<exists>mu su su' retained c1 cu1 g gu c cu.
     prepared_parts G mem m t mu su su' retained c1 cu1 g gu c cu \<and>
     sources_view (gm_sources m') = sources_candidate (gm_sources m) (gt_sources t) \<and>
     (\<forall>i. sr_get (gm_strings m') i =
        (if i < length retained \<and> retained ! i = 0 then None else su_get (gm_strings m) (gt_strings t) i)) \<and>
     contributions_view (gm_contributions m') = contributions_candidate c1 cu1 \<and>
     gm_graph m' = fst (go_publish_prepared G (g, gu)) \<and>
     cc_complete (gm_contributions m') \<and> gm_state m' = Project_valid \<and> gt_state t' = Tx_committed \<and>
     sm_wf (gm_sources m') \<and> sr_wf (gm_strings m') \<and> cache_wf (gm_contributions m')"
proof -
  obtain st1 m1 t1 where p: "gt_prepare G mem m t = (st1, m1, t1)" by (metis prod.exhaust)
  then have st1: "st1 = Ok" and pub: "gt_publish_prepared G m1 t1 = (m', t')"
    using run by (auto simp: gt_commit_def split: if_splits)
  have A: "gt_owner t" "mu_wf (gm_sources m) (gt_sources t)" "interning (gm_strings m, gt_strings t)"
    using act by (simp_all add: tx_active_def)
  from G act p show ?thesis
  proof (cases rule: gt_prepare_cases)
    case (prepared mu su su' retained c1 cu1 g gu c cu)
    have P: "mu_prepare_publish (pm_sources mem) (gm_sources m) (gt_sources t) = (Ok, mu)"
      "su_prepare_publish (pm_strings mem) (gm_strings m) (gt_strings t) = (Ok, su)"
      "if retained = [] then su' = su
       else su_prepare_rebuild_compaction (pm_compaction mem) (gm_strings m) su retained = (Ok, su')"
      "cu_prepare_publish (pm_contributions mem) (pm_entities mem) c1 cu1 = (Ok, c, cu)"
      using prepared(2) by (simp_all add: prepared_parts_def)
    obtain ms mu' where s: "mu_publish_prepared (gm_sources m) mu = (ms, mu')" by force
    obtain rs su'' where r: "su_publish_prepared (gm_strings m) su' = (rs, su'')" by force
    obtain cs cu' where cp: "cu_publish_prepared c cu = (cs, cu')" by force
    obtain gs gu' where gp: "go_publish_prepared G (g, gu) = (gs, gu')" by force
    have m': "m' = m\<lparr>gm_sources := ms, gm_strings := rs, gm_contributions := cs, gm_graph := gs,
        gm_state := Project_valid\<rparr>" and t': "gt_state t' = Tx_committed"
      using pub A(1) s r cp gp unfolding prepared(5,6)
      by (auto simp: gt_publish_prepared_def gm_complete_build_def)
    have com: "mu_commit (pm_sources mem) (gm_sources m) (gt_sources t) = (Ok, ms, mu')"
      by (simp add: mu_commit_def P(1) s)
    have suwf: "su_wf (gm_strings m) (gt_strings t)" using A(3) by (simp add: interning_def)
    have su: "su = (gt_strings t)\<lparr>su_prepared := True\<rparr>" using su_prepare_publish_Ok [OF P(2)] by simp
    have suwf': "su_wf (gm_strings m) su" unfolding su using suwf by (rule su_wf_prepare)
    have get: "su_get_for_validation (gm_strings m) su i = su_get (gm_strings m) (gt_strings t) i" for i
      using A(3) by (auto simp: su interning_def su_wf_def su_get_def su_active_def
          su_get_for_validation_def added_get_def Let_def)
    have strings: "sr_wf rs" "\<And>i. sr_get rs i =
        (if i < length retained \<and> retained ! i = 0 then None else su_get (gm_strings m) (gt_strings t) i)"
      using prepared_strings_published [OF suwf' P(3) r] unfolding get by blast+
    have "sources_view ms = sources_candidate (gm_sources m) (gt_sources t)"
      by (rule mu_commit_shows [OF A(2) com])
    moreover have "sm_wf ms" by (rule mu_commit_published(3) [OF A(2) com])
    moreover have "contributions_view cs = contributions_candidate c1 cu1"
      using cu_publish_exact(1,2) [OF prepared(3) P(4) cp]
      by (simp add: contributions_view_def contributions_candidate_def fun_eq_iff)
    moreover have "cc_complete cs" "cache_wf cs" by (rule cu_publish_exact(3,4) [OF prepared(3) P(4) cp])+
    ultimately have "prepared_parts G mem m t mu su su' retained c1 cu1 g gu c cu \<and>
      sources_view (gm_sources m') = sources_candidate (gm_sources m) (gt_sources t) \<and>
      (\<forall>i. sr_get (gm_strings m') i =
        (if i < length retained \<and> retained ! i = 0 then None else su_get (gm_strings m) (gt_strings t) i)) \<and>
      contributions_view (gm_contributions m') = contributions_candidate c1 cu1 \<and>
      gm_graph m' = fst (go_publish_prepared G (g, gu)) \<and>
      cc_complete (gm_contributions m') \<and> gm_state m' = Project_valid \<and> gt_state t' = Tx_committed \<and>
      sm_wf (gm_sources m') \<and> sr_wf (gm_strings m') \<and> cache_wf (gm_contributions m')"
      using prepared(2) strings t' gp by (simp add: m')
    then show ?thesis by blast
  qed (use st1 in simp)
qed



text \<open>A Graph that is a number: begin proposes the next one, publication installs it.\<close>

definition example_graph :: "(nat, nat) graph_operations" where
  "example_graph =
     \<lparr>go_initialize = \<lambda>abi g. (Ok, 0), go_begin_update = \<lambda>mode g. (g, g + 1),
      go_prepare_publish = \<lambda>S R C p. (if snd p > 5 then Configuration_failed else Ok, C, p),
      go_retention = \<lambda>n p. (Ok, []), go_publish_prepared = \<lambda>p. (snd p, snd p),
      go_cancel = \<lambda>p. p, go_swap_compiled = \<lambda>g h. (h, g)\<rparr>"

lemma example_graph_participant: "graph_participant example_graph id (\<lambda>_. True)"
  by (simp add: graph_participant_def example_graph_def)

definition example_manager :: "nat \<Rightarrow> nat graph_manager" where
  "example_manager n =
     \<lparr>gm_sources = new_source_manager, gm_strings = new_string_registry,
      gm_contributions = new_contribution_cache, gm_graph = n, gm_state = Project_error\<rparr>"

definition example_memory :: prepare_memory where
  "example_memory = \<lparr>pm_sources = True, pm_strings = True, pm_compaction = True,
     pm_contributions = True, pm_entities = True\<rparr>"

definition example_build :: "nat \<Rightarrow> nat graph_manager \<times> nat graph_build_transaction" where
  "example_build n = gm_begin_build example_graph Mode_incremental (example_manager n)"

definition example_built :: "nat \<Rightarrow> nat graph_build_transaction" where
  "example_built n = (snd (example_build n))\<lparr>gt_strings :=
     snd (snd (su_intern True (gm_strings (fst (example_build n))) (gt_strings (snd (example_build n))) ''a''))\<rparr>"

lemma example_manager_wf: "gm_wf (example_manager n)"
  using new_contribution_cache_wf by (simp add: gm_wf_def example_manager_def sm_wf_new sr_wf_new)

lemma example_build_steps:
  "(build_step id (\<lambda>_. True))\<^sup>*\<^sup>* (fst (example_build n), snd (example_build n))
     (fst (example_build n), example_built n)"
proof -
  let ?m = "fst (example_build n)" and ?t = "snd (example_build n)"
  obtain st i su where r: "su_intern True (gm_strings ?m) (gt_strings ?t) ''a'' = (st, i, su)"
    by (metis prod.exhaust)
  have "build_step id (\<lambda>_. True) (?m, ?t) (?m, ?t\<lparr>gt_strings := su\<rparr>)"
    by (rule build_string [OF r])
  then show ?thesis by (simp add: example_built_def r)
qed

lemma example_build_started:
  "gm_begin_build example_graph Mode_incremental (example_manager n) =
     (fst (example_build n), snd (example_build n))"
  by (simp add: example_build_def)

definition example_commit_result ::
    "nat \<Rightarrow> status_code \<times> nat graph_manager \<times> nat graph_build_transaction" where
  "example_commit_result n =
     gt_commit example_graph example_memory (fst (example_build n)) (example_built n)"

lemma example_commit_run:
  "gt_commit example_graph example_memory (fst (example_build n)) (example_built n) =
     (fst (example_commit_result n), fst (snd (example_commit_result n)), snd (snd (example_commit_result n)))"
  by (simp add: example_commit_result_def)




section \<open>Checkpoints and frontend generations\<close>



definition example_generation where
  "example_generation =
     generation_commit example_graph example_memory True True [] example_frontend
       (fst (example_build 5)) (example_built 5)"


text \<open>The Source Manager and the String Registry in one transaction, in the order the
  preparation runs them.\<close>

interpretation sources_strings: two_phase_pair
  "\<lambda>s. mu_wf (fst s) (snd s)" "\<lambda>s. sources_view (fst s)" "\<lambda>s. sources_candidate (fst s) (snd s)"
  "sources_prepare mem" sources_publish sources_cancel
  interning "\<lambda>s. sr_get (fst s)" "\<lambda>s. su_get (fst s) (snd s)"
  "registry_prepare mem'" registry_publish registry_cancel
  for mem mem'
  by unfold_locales


end
