(* ===== verification/GraphState.thy ===== *)
theory GraphState
  imports ContributionCache
begin

text \<open>
  The committed Graph: \<^verbatim>\<open>graph/type_ref.hpp\<close>, \<^verbatim>\<open>graph/compiled_state.hpp\<close>, the state of
  \<^verbatim>\<open>graph/graph.hpp\<close> and the committed half of \<^verbatim>\<open>graph/graph.cpp\<close>: initialization, the
  queries, the dependency index, and the export and import of the compiled state. Handles,
  entity ids, names and TypeRefs are \<open>nat\<close> with 0 for none. A type slot is an option, its
  \<^verbatim>\<open>unique_ptr\<close>. The overlays of the candidate are lists of generation-tagged slots.
\<close>

section \<open>Types and entities\<close>

datatype user_type_kind = Type_aggregate | Type_enumeration

record entity_entry =
  ee_kind :: entity_kind
  ee_name :: nat
  ee_type :: nat

definition entity_live :: "entity_entry \<Rightarrow> bool" where
  "entity_live e \<longleftrightarrow> ee_name e \<noteq> 0"

definition no_entity :: entity_entry where
  "no_entity = \<lparr>ee_kind = Aggregate_type, ee_name = 0, ee_type = 0\<rparr>"

record definition_range =
  dr_begin :: nat
  dr_count :: nat

definition range_valid :: "definition_range \<Rightarrow> bool" where
  "range_valid r \<longleftrightarrow> dr_begin r \<noteq> 0"

record enum_entry =
  en_scoped :: bool
  en_fixed_underlying :: bool
  en_underlying :: builtin_type

record member_record =
  mr_name :: nat
  mr_type :: nat

record type_entry =
  te_kind :: user_type_kind
  te_enumeration :: enum_entry
  te_definition :: definition_range

definition no_range :: definition_range where
  "no_range = \<lparr>dr_begin = 0, dr_count = 0\<rparr>"

definition default_type_entry :: type_entry where
  "default_type_entry =
     \<lparr>te_kind = Type_enumeration,
      te_enumeration = \<lparr>en_scoped = False, en_fixed_underlying = False, en_underlying = Integer\<rparr>,
      te_definition = no_range\<rparr>"

datatype derived_type_kind =
    Derived_pointer
  | Derived_array
  | Derived_lvalue_reference
  | Derived_rvalue_reference

record derived_type_record =
  dt_kind :: derived_type_kind
  dt_child :: nat
  dt_payload :: u64

text \<open>One entry of the TypeRef table: the tag and the field it selects.\<close>

datatype canonical_type_record =
    Canonical_builtin builtin_type
  | Canonical_named nat
  | Canonical_derived derived_type_record

text \<open>The Builder's input for members, and the construction state of a candidate type.\<close>

record type_modifier_build =
  tm_kind :: derived_type_kind
  tm_payload :: u64

record member_build =
  mb_name :: nat
  mb_builtin :: "builtin_type option"
  mb_user_type_name :: nat
  mb_modifier_offset :: nat
  mb_modifier_count :: nat

record type_build_state =
  tb_enumerators :: "enum_value_record list"
  tb_members :: "member_record list"
  tb_pending_members :: "member_build list"
  tb_pending_modifiers :: "type_modifier_build list"
  tb_definition_pending :: bool

datatype candidate_type_kind = Candidate_unchanged | Candidate_replacement | Candidate_removed

record candidate_entity =
  ce_entity :: entity_entry
  ce_retained_type :: nat

record candidate_type =
  ct_kind :: candidate_type_kind
  ct_value :: "type_entry option"
  ct_build :: "type_build_state option"

record graph =
  g_types :: "type_entry option list"
  g_free_type_slots :: "nat list"
  g_entities :: "entity_entry list"
  g_identity :: "nat list"
  g_members :: "member_record list"
  g_enum_values :: "enum_value_record list"
  g_canonical :: "canonical_type_record list"
  g_named_type_refs :: "nat list"
  g_derived_index :: "(derived_type_record, nat) umap"
  g_dependencies :: "nat list list"
  g_reverse_dependents :: "nat list list"
  g_entity_count :: nat
  g_user_type_count :: nat
  g_next_stable_id :: nat
  g_generation :: u64
  g_abi :: abi_configuration
  g_candidate_identities :: "nat candidate_slot list"
  g_candidate_entities :: "candidate_entity candidate_slot list"
  g_candidate_types :: "candidate_type candidate_slot list"
  g_next_candidate_generation :: u64

section \<open>Initialization and queries\<close>

definition all_builtins :: "builtin_type list" where
  "all_builtins =
     [Boolean, Character, Signed_character, Unsigned_character, Short_integer, Unsigned_short_integer,
      Integer, Unsigned_integer, Long_integer, Unsigned_long_integer, Long_long_integer,
      Unsigned_long_long_integer, Wide_character, Character_8, Character_16, Character_32,
      Floating, Double_floating, Long_double_floating, Void_type]"

definition g_initialize :: "bool \<Rightarrow> abi_configuration \<Rightarrow> graph \<Rightarrow> status_code \<times> graph" where
  "g_initialize mem abi g =
     (if \<not> is_supported_abi_configuration abi then (Configuration_failed, g)
      else
        let g = g\<lparr>g_types := [], g_free_type_slots := [], g_entities := [], g_identity := [],
                  g_members := [], g_enum_values := [], g_canonical := []\<rparr> in
        if \<not> mem then (Initialization_failed, g)
        else (Ok, g\<lparr>g_canonical := Canonical_builtin Void_type # map Canonical_builtin all_builtins,
                    g_named_type_refs := [], g_derived_index := [], g_dependencies := [],
                    g_reverse_dependents := [], g_candidate_identities := [], g_candidate_entities := [],
                    g_candidate_types := [], g_entity_count := 0, g_user_type_count := 0,
                    g_next_stable_id := 1, g_next_candidate_generation := 1, g_abi := abi,
                    g_generation := 0\<rparr>))"

definition g_entity :: "graph \<Rightarrow> nat \<Rightarrow> entity_entry option" where
  "g_entity g eid =
     (if eid \<noteq> 0 \<and> eid < length (g_entities g) \<and> entity_live (g_entities g ! eid)
      then Some (g_entities g ! eid) else None)"

definition g_find_id :: "graph \<Rightarrow> nat \<Rightarrow> nat" where
  "g_find_id g name = (if name \<noteq> 0 \<and> name < length (g_identity g) then g_identity g ! name else 0)"

definition g_find :: "graph \<Rightarrow> nat \<Rightarrow> entity_entry option" where
  "g_find g name =
     (if name \<noteq> 0 \<and> name < length (g_identity g) then g_entity g (g_identity g ! name) else None)"

definition g_type :: "graph \<Rightarrow> nat \<Rightarrow> type_entry option" where
  "g_type g handle =
     (if handle \<noteq> 0 \<and> handle \<le> length (g_types g) then g_types g ! (handle - 1) else None)"

definition arena_slice :: "'a list \<Rightarrow> definition_range \<Rightarrow> 'a list" where
  "arena_slice arena r =
     (let first = dr_begin r - 1; n = dr_count r in
      if length arena < first \<or> length arena - first < n then [] else take n (drop first arena))"

definition g_enum_values_of :: "graph \<Rightarrow> nat \<Rightarrow> enum_value_record list" where
  "g_enum_values_of g handle =
     (case g_type g handle of
        None \<Rightarrow> []
      | Some t \<Rightarrow>
          if te_kind t \<noteq> Type_enumeration \<or> \<not> range_valid (te_definition t) then []
          else arena_slice (g_enum_values g) (te_definition t))"

definition g_members_of :: "graph \<Rightarrow> nat \<Rightarrow> member_record list" where
  "g_members_of g handle =
     (case g_type g handle of
        None \<Rightarrow> []
      | Some t \<Rightarrow>
          if te_kind t \<noteq> Type_aggregate \<or> \<not> range_valid (te_definition t) then []
          else arena_slice (g_members g) (te_definition t))"

definition g_member :: "graph \<Rightarrow> nat \<Rightarrow> nat \<Rightarrow> member_record option" where
  "g_member g handle index = slot (g_members_of g handle) index"

fun first_member :: "nat \<Rightarrow> nat \<Rightarrow> member_record list \<Rightarrow> nat" where
  "first_member name index [] = 0"
| "first_member name index (m # ms) = (if mr_name m = name then index + 1 else first_member name (index + 1) ms)"

definition g_find_member :: "graph \<Rightarrow> nat \<Rightarrow> nat \<Rightarrow> nat" where
  "g_find_member g handle name = first_member name 0 (g_members_of g handle)"

definition table_entry :: "canonical_type_record list \<Rightarrow> nat \<Rightarrow> canonical_type_record option" where
  "table_entry table ref = (if ref \<noteq> 0 \<and> ref < length table then Some (table ! ref) else None)"

definition g_builtin :: "graph \<Rightarrow> nat \<Rightarrow> builtin_type option" where
  "g_builtin g ref = (case table_entry (g_canonical g) ref of Some (Canonical_builtin b) \<Rightarrow> Some b | _ \<Rightarrow> None)"

definition g_named :: "graph \<Rightarrow> nat \<Rightarrow> nat option" where
  "g_named g ref = (case table_entry (g_canonical g) ref of Some (Canonical_named h) \<Rightarrow> Some h | _ \<Rightarrow> None)"

definition g_derived :: "graph \<Rightarrow> nat \<Rightarrow> derived_type_record option" where
  "g_derived g ref = (case table_entry (g_canonical g) ref of Some (Canonical_derived d) \<Rightarrow> Some d | _ \<Rightarrow> None)"

definition g_derived_type_count :: "graph \<Rightarrow> nat" where
  "g_derived_type_count g = length (g_derived_index g)"

definition g_swap_compiled :: "graph \<Rightarrow> graph \<Rightarrow> graph \<times> graph" where
  "g_swap_compiled g other = (other, g)"

section \<open>The dependency index\<close>

text \<open>
  The user type a TypeRef is built on, \<open>Some 0\<close> for a builtin. The chain of modifiers is
  followed for at most as many steps as the table has entries.
\<close>

fun named_base :: "canonical_type_record list \<Rightarrow> nat \<Rightarrow> nat \<Rightarrow> nat option" where
  "named_base table 0 ref = None"
| "named_base table (Suc depth) ref =
     (case table_entry table ref of
        None \<Rightarrow> None
      | Some (Canonical_builtin b) \<Rightarrow> Some 0
      | Some (Canonical_named h) \<Rightarrow> if h = 0 then None else Some h
      | Some (Canonical_derived d) \<Rightarrow> named_base table depth (dt_child d))"

definition push_new :: "nat \<Rightarrow> nat list \<Rightarrow> nat list" where
  "push_new x xs = (if x \<in> set xs then xs else xs @ [x])"

fun member_dependencies :: "canonical_type_record list \<Rightarrow> member_record list \<Rightarrow> nat list \<Rightarrow> nat list option" where
  "member_dependencies table [] deps = Some deps"
| "member_dependencies table (m # ms) deps =
     (case named_base table (length table) (mr_type m) of
        None \<Rightarrow> None
      | Some h \<Rightarrow> member_dependencies table ms (if h \<noteq> 0 then push_new h deps else deps))"

fun add_reverse :: "nat \<Rightarrow> nat list \<Rightarrow> nat list list \<Rightarrow> nat list list option" where
  "add_reverse raw [] users = Some users"
| "add_reverse raw (d # ds) users =
     (if length users \<le> d then None else add_reverse raw ds (users[d := users ! d @ [raw]]))"

definition type_dependency_list :: "graph \<Rightarrow> type_entry option \<Rightarrow> nat list option" where
  "type_dependency_list g t =
     (case t of
        None \<Rightarrow> Some []
      | Some t \<Rightarrow>
          if te_kind t \<noteq> Type_aggregate \<or> \<not> range_valid (te_definition t) then Some []
          else
            let first = dr_begin (te_definition t) - 1; n = dr_count (te_definition t) in
            if length (g_members g) < first \<or> length (g_members g) - first < n then None
            else member_dependencies (g_canonical g) (take n (drop first (g_members g))) [])"

fun index_types ::
    "graph \<Rightarrow> nat \<Rightarrow> type_entry option list \<Rightarrow> nat list list \<Rightarrow> nat list list \<Rightarrow> (nat list list \<times> nat list list) option"
where
  "index_types g raw [] deps users = Some (deps, users)"
| "index_types g raw (t # ts) deps users =
     (case type_dependency_list g t of
        None \<Rightarrow> None
      | Some ds \<Rightarrow>
          case add_reverse raw ds users of
            None \<Rightarrow> None
          | Some users' \<Rightarrow> index_types g (raw + 1) ts (deps[raw := ds]) users')"

definition g_rebuild_dependency_index :: "bool \<Rightarrow> graph \<Rightarrow> status_code \<times> graph" where
  "g_rebuild_dependency_index mem g =
     (let none = replicate (length (g_types g) + 1) [] in
      if \<not> mem then (Initialization_failed, g\<lparr>g_dependencies := [], g_reverse_dependents := []\<rparr>)
      else
        case index_types g 1 (g_types g) none none of
          None \<Rightarrow> (Artifact_corrupt, g\<lparr>g_dependencies := none, g_reverse_dependents := none\<rparr>)
        | Some (deps, users) \<Rightarrow> (Ok, g\<lparr>g_dependencies := deps, g_reverse_dependents := users\<rparr>))"

section \<open>The compiled state\<close>

record compiled_entity_slot =
  ces_kind :: entity_kind
  ces_name :: nat
  ces_type :: nat

record compiled_enum_value =
  cev_name :: nat
  cev_bits :: u64

record compiled_type_slot =
  cts_live :: bool
  cts_record :: type_entry

record compiled_member =
  cm_name :: nat
  cm_type_ref :: nat

record compiled_canonical_type =
  cct_kind :: nat
  cct_subtype :: nat
  cct_argument :: nat
  cct_payload :: u64

record compiled_graph_state =
  cg_abi :: abi_configuration
  cg_identities :: "nat list"
  cg_entities :: "compiled_entity_slot list"
  cg_types :: "compiled_type_slot list"
  cg_enum_values :: "compiled_enum_value list"
  cg_members :: "compiled_member list"
  cg_canonical :: "compiled_canonical_type list"

fun derived_code :: "derived_type_kind \<Rightarrow> nat" where
  "derived_code Derived_pointer = 0"
| "derived_code Derived_array = 1"
| "derived_code Derived_lvalue_reference = 2"
| "derived_code Derived_rvalue_reference = 3"

definition derived_of_code :: "nat \<Rightarrow> derived_type_kind" where
  "derived_of_code n =
     (if n = 0 then Derived_pointer else if n = 1 then Derived_array
      else if n = 2 then Derived_lvalue_reference else Derived_rvalue_reference)"

fun export_canonical :: "canonical_type_record \<Rightarrow> compiled_canonical_type" where
  "export_canonical (Canonical_builtin b) =
     \<lparr>cct_kind = 0, cct_subtype = builtin_code b, cct_argument = 0, cct_payload = 0\<rparr>"
| "export_canonical (Canonical_named h) =
     \<lparr>cct_kind = 1, cct_subtype = 0, cct_argument = h, cct_payload = 0\<rparr>"
| "export_canonical (Canonical_derived d) =
     \<lparr>cct_kind = 2, cct_subtype = derived_code (dt_kind d), cct_argument = dt_child d,
      cct_payload = dt_payload d\<rparr>"

definition export_type :: "type_entry option \<Rightarrow> compiled_type_slot" where
  "export_type t =
     (case t of
        None \<Rightarrow> \<lparr>cts_live = False, cts_record = default_type_entry\<rparr>
      | Some t \<Rightarrow> \<lparr>cts_live = True, cts_record = t\<rparr>)"

definition g_export_compiled :: "graph \<Rightarrow> compiled_graph_state" where
  "g_export_compiled g =
     \<lparr>cg_abi = g_abi g,
      cg_identities = g_identity g,
      cg_entities = map (\<lambda>e. \<lparr>ces_kind = ee_kind e, ces_name = ee_name e, ces_type = ee_type e\<rparr>) (g_entities g),
      cg_types = map export_type (g_types g),
      cg_enum_values = map (\<lambda>v. \<lparr>cev_name = enum_value_name v, cev_bits = enum_value_bits v\<rparr>) (g_enum_values g),
      cg_members = map (\<lambda>m. \<lparr>cm_name = mr_name m, cm_type_ref = mr_type m\<rparr>) (g_members g),
      cg_canonical = map export_canonical (g_canonical g)\<rparr>"

section \<open>Import\<close>

definition import_enum_value :: "compiled_enum_value \<Rightarrow> enum_value_record option" where
  "import_enum_value v =
     (if cev_name v = 0 then None
      else Some \<lparr>enum_value_name = cev_name v, enum_value_bits = cev_bits v\<rparr>)"

definition import_member :: "nat \<Rightarrow> compiled_member \<Rightarrow> member_record option" where
  "import_member table_size m =
     (if cm_name m = 0 \<or> cm_type_ref m = 0 \<or> table_size \<le> cm_type_ref m then None
      else Some \<lparr>mr_name = cm_name m, mr_type = cm_type_ref m\<rparr>)"

definition import_type :: "nat \<Rightarrow> nat \<Rightarrow> compiled_type_slot \<Rightarrow> type_entry option option" where
  "import_type members enum_values source =
     (if \<not> cts_live source then Some None
      else
        let t = cts_record source; r = te_definition t;
            arena = (if te_kind t = Type_aggregate then members else enum_values) in
        if \<not> range_valid r \<and> dr_count r \<noteq> 0 then None
        else if range_valid r \<and> (arena < dr_begin r - 1 \<or> arena - (dr_begin r - 1) < dr_count r) then None
        else if te_kind t = Type_enumeration \<and> builtin_code Long_double_floating < builtin_code (en_underlying (te_enumeration t))
        then None
        else Some (Some t))"

definition import_entity :: "type_entry option list \<Rightarrow> compiled_entity_slot \<Rightarrow> entity_entry option" where
  "import_entity types source =
     (if ces_name source = 0 then Some no_entity
      else if ces_type source = 0 \<or> length types < ces_type source then None
      else
        case types ! (ces_type source - 1) of
          None \<Rightarrow> None
        | Some t \<Rightarrow>
            if (ces_kind source = Aggregate_type) \<noteq> (te_kind t = Type_aggregate) then None
            else Some \<lparr>ee_kind = ces_kind source, ee_name = ces_name source, ee_type = ces_type source\<rparr>)"

text \<open>The slot 0 of the entities holds no entity.\<close>

definition import_entities :: "type_entry option list \<Rightarrow> compiled_entity_slot list \<Rightarrow> entity_entry list option" where
  "import_entities types sources =
     (if ces_name (hd sources) \<noteq> 0 \<or> ces_type (hd sources) \<noteq> 0 then None
      else map_option (Cons no_entity) (those (map (import_entity types) (tl sources))))"

text \<open>\<open>owner\<close> records the name that an entity id was last seen under.\<close>

fun import_identities :: "entity_entry list \<Rightarrow> nat list \<Rightarrow> nat \<Rightarrow> nat list \<Rightarrow> bool" where
  "import_identities entities owner name [] \<longleftrightarrow> True"
| "import_identities entities owner name (raw # raws) \<longleftrightarrow>
     raw < length entities \<and>
     (raw \<noteq> 0 \<longrightarrow> (owner ! raw = 0 \<or> owner ! raw = name) \<and>
        (entity_live (entities ! raw) \<longrightarrow> ee_name (entities ! raw) = name)) \<and>
     import_identities entities (if raw \<noteq> 0 then owner[raw := cast_u32 name] else owner) (name + 1) raws"

text \<open>The TypeRef table with the two indexes over it, one entry at a time.\<close>

type_synonym table_state = "canonical_type_record list \<times> nat list \<times> (derived_type_record, nat) umap"

definition import_table_entry :: "nat \<Rightarrow> compiled_canonical_type \<Rightarrow> table_state \<Rightarrow> table_state option" where
  "import_table_entry types source st =
     (case st of (table, refs, derived) \<Rightarrow>
        let index = length table in
        if index = 0 then
          (if cct_kind source \<noteq> 0 \<or> cct_subtype source \<noteq> builtin_code Void_type \<or>
              cct_argument source \<noteq> 0 \<or> cct_payload source \<noteq> 0
           then None else Some (table @ [Canonical_builtin Void_type], refs, derived))
        else if index \<le> length all_builtins then
          (let expected = all_builtins ! (index - 1) in
           if cct_kind source \<noteq> 0 \<or> cct_subtype source \<noteq> builtin_code expected \<or>
              cct_argument source \<noteq> 0 \<or> cct_payload source \<noteq> 0
           then None else Some (table @ [Canonical_builtin expected], refs, derived))
        else if cct_kind source = 1 then
          (let h = cct_argument source in
           if cct_subtype source \<noteq> 0 \<or> h = 0 \<or> types < h \<or> cct_payload source \<noteq> 0 \<or> refs ! h \<noteq> 0
           then None else Some (table @ [Canonical_named h], refs[h := cast_u32 index], derived))
        else if cct_kind source = 2 then
          (if 3 < cct_subtype source \<or> cct_argument source = 0 \<or> index \<le> cct_argument source then None
           else
             let kind = derived_of_code (cct_subtype source);
                 d = \<lparr>dt_kind = kind, dt_child = cct_argument source, dt_payload = cct_payload source\<rparr> in
             if (kind = Derived_array) = (cct_payload source = 0) then None
             else if map_of derived d \<noteq> None then None
             else Some (table @ [Canonical_derived d], refs, um_emplace d (cast_u32 index) derived))
        else None)"

fun import_table :: "nat \<Rightarrow> compiled_canonical_type list \<Rightarrow> table_state \<Rightarrow> table_state option" where
  "import_table types [] st = Some st"
| "import_table types (source # sources) st =
     (case import_table_entry types source st of
        None \<Rightarrow> None
      | Some st' \<Rightarrow> import_table types sources st')"

text \<open>Which entries of the table denote a type whose user type is live.\<close>

definition entry_live :: "type_entry option list \<Rightarrow> bool list \<Rightarrow> canonical_type_record \<Rightarrow> bool" where
  "entry_live types live entry =
     (case entry of
        Canonical_builtin b \<Rightarrow> True
      | Canonical_named h \<Rightarrow> h \<noteq> 0 \<and> h \<le> length types \<and> types ! (h - 1) \<noteq> None
      | Canonical_derived d \<Rightarrow> dt_child d \<noteq> 0 \<and> dt_child d < length live \<and> live ! dt_child d)"

definition canonical_live :: "type_entry option list \<Rightarrow> canonical_type_record list \<Rightarrow> bool list" where
  "canonical_live types table =
     foldl (\<lambda>live entry. live @ [entry_live types live entry]) [False] (tl table)"

definition members_live :: "member_record list \<Rightarrow> bool list \<Rightarrow> type_entry option \<Rightarrow> bool" where
  "members_live members live t =
     (case t of
        None \<Rightarrow> True
      | Some t \<Rightarrow>
          te_kind t \<noteq> Type_aggregate \<or> \<not> range_valid (te_definition t) \<or>
          list_all (\<lambda>m. mr_type m \<noteq> 0 \<and> mr_type m < length live \<and> live ! mr_type m)
            (take (dr_count (te_definition t)) (drop (dr_begin (te_definition t) - 1) members)))"

text \<open>Everything the import reads, checked, as the committed fields of a graph.\<close>

definition import_checked :: "compiled_graph_state \<Rightarrow> graph \<Rightarrow> graph option" where
  "import_checked c g =
     (case those (map import_enum_value (cg_enum_values c)) of None \<Rightarrow> None | Some enum_values \<Rightarrow>
      case those (map (import_member (length (cg_canonical c))) (cg_members c)) of None \<Rightarrow> None | Some members \<Rightarrow>
      case those (map (import_type (length members) (length enum_values)) (cg_types c)) of None \<Rightarrow> None | Some types \<Rightarrow>
      case import_entities types (cg_entities c) of None \<Rightarrow> None | Some entities \<Rightarrow>
      if \<not> import_identities entities (replicate (length entities) 0) 0 (cg_identities c) then None else
      case import_table (length types) (cg_canonical c) ([], replicate (length types + 1) 0, []) of None \<Rightarrow> None
      | Some (table, refs, derived) \<Rightarrow>
      if \<not> list_all (\<lambda>e. entity_live e \<longrightarrow> refs ! ee_type e \<noteq> 0) entities then None else
      let live = canonical_live types table in
      if \<not> list_all (members_live members live) types then None else
      Some (g\<lparr>g_types := types,
              g_free_type_slots := filter (\<lambda>h. types ! (h - 1) = None) [1..<length types + 1],
              g_entities := entities, g_identity := cg_identities c, g_members := members,
              g_enum_values := enum_values, g_canonical := table, g_named_type_refs := refs,
              g_derived_index := derived\<rparr>))"

text \<open>
  \<open>mem\<close> says that the allocations before the state is exchanged succeed, \<open>mem_index\<close> those of
  the dependency index, which is rebuilt after it.
\<close>

definition g_import_compiled ::
    "bool \<Rightarrow> bool \<Rightarrow> compiled_graph_state \<Rightarrow> graph \<Rightarrow> status_code \<times> graph" where
  "g_import_compiled mem mem_index c g =
     (if \<not> is_supported_abi_configuration (cg_abi c) then (Artifact_corrupt, g)
      else if length (cg_canonical c) < length all_builtins + 1 \<or> cg_entities c = [] then (Artifact_corrupt, g)
      else if \<not> mem then (Initialization_failed, g)
      else
        case import_checked c g of
          None \<Rightarrow> (Artifact_corrupt, g)
        | Some g1 \<Rightarrow>
            case g_rebuild_dependency_index mem_index g1 of (st, g2) \<Rightarrow>
              if st \<noteq> Ok then (st, g2)
              else
                (Ok, g2\<lparr>g_candidate_identities := [], g_candidate_entities := [], g_candidate_types := [],
                        g_entity_count := length (filter entity_live (g_entities g2)),
                        g_user_type_count := length (filter (\<lambda>t. t \<noteq> None) (g_types g2)),
                        g_next_stable_id :=
                          (let n = cast_u32 (length (g_entities g2)) in if n = 0 then 1 else n),
                        g_next_candidate_generation := 1, g_abi := cg_abi c, g_generation := 0\<rparr>))"


section \<open>What an accepted state satisfies\<close>

lemma those_eq_Some: "those xs = Some ys \<longleftrightarrow> xs = map Some ys"
  by (induction xs arbitrary: ys) (auto split: option.splits simp: Cons_eq_map_conv)

lemma those_mapD: "those (map f xs) = Some ys \<Longrightarrow> list_all2 (\<lambda>x y. f x = Some y) xs ys"
  unfolding those_eq_Some by (auto simp: list_all2_conv_all_nth map_equality_iff list_eq_iff_nth_eq)

lemma those_mapI: "list_all2 (\<lambda>x y. f x = Some y) xs ys \<Longrightarrow> those (map f xs) = Some ys"
  unfolding those_eq_Some by (auto simp: list_all2_conv_all_nth list_eq_iff_nth_eq)

text \<open>The stages of a successful import, with their results in the graph.\<close>

lemma import_checkedD:
  assumes "import_checked c g = Some g1"
  obtains "those (map import_enum_value (cg_enum_values c)) = Some (g_enum_values g1)"
    "those (map (import_member (length (cg_canonical c))) (cg_members c)) = Some (g_members g1)"
    "those (map (import_type (length (g_members g1)) (length (g_enum_values g1))) (cg_types c)) = Some (g_types g1)"
    "import_entities (g_types g1) (cg_entities c) = Some (g_entities g1)"
    "import_identities (g_entities g1) (replicate (length (g_entities g1)) 0) 0 (cg_identities c)"
    "g_identity g1 = cg_identities c"
    "import_table (length (g_types g1)) (cg_canonical c) ([], replicate (length (g_types g1) + 1) 0, []) =
       Some (g_canonical g1, g_named_type_refs g1, g_derived_index g1)"
    "list_all (\<lambda>e. entity_live e \<longrightarrow> g_named_type_refs g1 ! ee_type e \<noteq> 0) (g_entities g1)"
    "list_all (members_live (g_members g1) (canonical_live (g_types g1) (g_canonical g1))) (g_types g1)"
    "g_free_type_slots g1 = filter (\<lambda>h. g_types g1 ! (h - 1) = None) [1..<length (g_types g1) + 1]"
  using assms unfolding import_checked_def Let_def
  by (auto split: option.splits if_splits)

text \<open>Only the committed fields of the graph matter.\<close>

lemma import_checked_graph:
  assumes "import_checked c g = Some g1"
  shows "import_checked c h = Some (h\<lparr>g_types := g_types g1, g_free_type_slots := g_free_type_slots g1,
      g_entities := g_entities g1, g_identity := g_identity g1, g_members := g_members g1,
      g_enum_values := g_enum_values g1, g_canonical := g_canonical g1,
      g_named_type_refs := g_named_type_refs g1, g_derived_index := g_derived_index g1\<rparr>)"
  using assms unfolding import_checked_def Let_def by (auto split: option.splits if_splits)

subsection \<open>The TypeRef table\<close>

lemma derived_code_of_code [simp]: "n \<le> 3 \<Longrightarrow> derived_code (derived_of_code n) = n"
  by (auto simp: derived_of_code_def)

lemma export_canonical_eq:
  "cct_kind s = 0 \<Longrightarrow> cct_subtype s = builtin_code b \<Longrightarrow> cct_argument s = 0 \<Longrightarrow> cct_payload s = 0 \<Longrightarrow>
     export_canonical (Canonical_builtin b) = s"
  "cct_kind s = 1 \<Longrightarrow> cct_subtype s = 0 \<Longrightarrow> cct_payload s = 0 \<Longrightarrow>
     export_canonical (Canonical_named (cct_argument s)) = s"
  "cct_kind s = 2 \<Longrightarrow> cct_subtype s \<le> 3 \<Longrightarrow>
     export_canonical (Canonical_derived \<lparr>dt_kind = derived_of_code (cct_subtype s), dt_child = cct_argument s,
       dt_payload = cct_payload s\<rparr>) = s"
  by (cases s; simp)+

text \<open>An accepted entry extends the table by one record, the one it was exported from.\<close>

lemma import_table_entry_source:
  assumes step: "import_table_entry types source (table, refs, derived) = Some (table', refs', derived')"
  obtains e where "table' = table @ [e]" "source = export_canonical e"
proof -
  have "\<exists>e. table' = table @ [e] \<and> export_canonical e = source"
    using step unfolding import_table_entry_def Let_def
    by (simp split: if_splits) (auto intro!: export_canonical_eq)
  with that show thesis by blast
qed

lemma import_table_source:
  "import_table types sources (table, refs, derived) = Some (table', refs', derived') \<Longrightarrow>
     table' = table @ drop (length table) table' \<and> sources = map export_canonical (drop (length table) table')"
proof (induction sources arbitrary: table refs derived)
  case (Cons source sources)
  obtain t1 r1 d1 where step: "import_table_entry types source (table, refs, derived) = Some (t1, r1, d1)"
    "import_table types sources (t1, r1, d1) = Some (table', refs', derived')"
    using Cons.prems by (auto split: option.splits)
  obtain e where e: "t1 = table @ [e]" "source = export_canonical e"
    using step(1) by (rule import_table_entry_source)
  from Cons.IH [OF step(2)] have "table' = t1 @ drop (length t1) table'" "sources = map export_canonical (drop (length t1) table')"
    by simp_all
  then show ?case unfolding e by (metis append.assoc append_Cons append_Nil append_eq_conv_conj list.simps(9))
qed simp


subsection \<open>An accepted state is the export of the graph it gives\<close>

definition export_entity :: "entity_entry \<Rightarrow> compiled_entity_slot" where
  "export_entity e = \<lparr>ces_kind = ee_kind e, ces_name = ee_name e, ces_type = ee_type e\<rparr>"

lemma import_enum_value_export:
  "import_enum_value v = Some r \<Longrightarrow>
     import_enum_value \<lparr>cev_name = enum_value_name r, cev_bits = enum_value_bits r\<rparr> = Some r"
  by (auto simp: import_enum_value_def split: if_splits)

lemma import_member_export:
  "import_member n m = Some r \<Longrightarrow> import_member n \<lparr>cm_name = mr_name r, cm_type_ref = mr_type r\<rparr> = Some r"
  by (auto simp: import_member_def split: if_splits)

lemma import_type_export: "import_type m n s = Some t \<Longrightarrow> import_type m n (export_type t) = Some t"
  by (cases t) (auto simp: import_type_def export_type_def Let_def split: if_splits)

lemma import_entity_export: "import_entity types s = Some e \<Longrightarrow> import_entity types (export_entity e) = Some e"
  by (auto simp: import_entity_def export_entity_def no_entity_def split: if_splits option.splits)

lemma those_map_again:
  assumes "those (map f xs) = Some ys" and "\<And>x y. f x = Some y \<Longrightarrow> f (h y) = Some y"
  shows "those (map f (map h ys)) = Some ys"
  using those_mapD [OF assms(1)] assms(2)
  by (intro those_mapI) (force simp: list_all2_conv_all_nth)

lemma import_entities_export:
  assumes "import_entities types sources = Some es"
  shows "import_entities types (map export_entity es) = Some es" and "es \<noteq> []"
proof -
  obtain rest where es: "es = no_entity # rest" and rest: "those (map (import_entity types) (tl sources)) = Some rest"
    using assms by (auto simp: import_entities_def split: if_splits)
  show "import_entities types (map export_entity es) = Some es" "es \<noteq> []"
    using those_map_again [OF rest import_entity_export]
    by (simp_all add: es import_entities_def, simp add: export_entity_def no_entity_def)
qed

lemma import_table_canonical:
  assumes "import_table n sources ([], refs, derived) = Some (table, refs', derived')"
  shows "sources = map export_canonical table"
  using import_table_source [OF assms] by simp

lemma import_checked_again:
  assumes g1: "import_checked c g = Some g1"
  shows "import_checked (g_export_compiled g1) g1 = Some g1"
proof -
  have canonical: "cg_canonical c = map export_canonical (g_canonical g1)"
    by (rule import_checkedD [OF g1]) (rule import_table_canonical)
  have table: "length (cg_canonical c) = length (g_canonical g1)"
    by (simp add: canonical)
  have table': "import_table (length (g_types g1)) (map export_canonical (g_canonical g1)) ([], replicate (length (g_types g1) + 1) 0, []) =
       Some (g_canonical g1, g_named_type_refs g1, g_derived_index g1)"
    unfolding canonical [symmetric] by (rule import_checkedD [OF g1])
  have enum_values: "those (map import_enum_value (cg_enum_values (g_export_compiled g1))) = Some (g_enum_values g1)"
    unfolding g_export_compiled_def compiled_graph_state.simps
    by (rule import_checkedD [OF g1]) (erule those_map_again, erule import_enum_value_export)
  have members: "those (map (import_member (length (g_canonical g1))) (cg_members (g_export_compiled g1))) = Some (g_members g1)"
    unfolding g_export_compiled_def compiled_graph_state.simps table [symmetric]
    by (rule import_checkedD [OF g1]) (erule those_map_again, erule import_member_export)
  have types: "those (map (import_type (length (g_members g1)) (length (g_enum_values g1)))
      (cg_types (g_export_compiled g1))) = Some (g_types g1)"
    unfolding g_export_compiled_def compiled_graph_state.simps
    by (rule import_checkedD [OF g1]) (erule those_map_again, erule import_type_export)
  have entities: "import_entities (g_types g1) (cg_entities (g_export_compiled g1)) = Some (g_entities g1)"
    unfolding g_export_compiled_def compiled_graph_state.simps export_entity_def [symmetric]
    by (rule import_checkedD [OF g1]) (erule import_entities_export)
  have rest: "cg_canonical (g_export_compiled g1) = map export_canonical (g_canonical g1)"
    "cg_identities (g_export_compiled g1) = g_identity g1"
    by (simp_all add: g_export_compiled_def)
  show ?thesis
    by (rule import_checkedD [OF g1])
      (simp del: replicate.simps upt_Suc
        add: import_checked_def enum_values members types entities rest table' [unfolded Suc_eq_plus1 [symmetric]] Let_def)
qed


subsection \<open>The TypeRef table is hash-consed\<close>

text \<open>
  The two indexes are exactly the inverse of the table: no user type and no modifier of the same
  TypeRef has two entries, and the modified TypeRef precedes the one it is part of.
\<close>

definition type_table_wf ::
    "nat \<Rightarrow> canonical_type_record list \<Rightarrow> nat list \<Rightarrow> (derived_type_record, nat) umap \<Rightarrow> bool"
where
  "type_table_wf types table refs derived \<longleftrightarrow>
     length refs = types + 1 \<and>
     (\<forall>i b. table_entry table i = Some (Canonical_builtin b) \<longleftrightarrow>
        i \<noteq> 0 \<and> i < length table \<and> i \<le> length all_builtins \<and> b = all_builtins ! (i - 1)) \<and>
     (\<forall>i h. table_entry table i = Some (Canonical_named h) \<longleftrightarrow>
        i \<noteq> 0 \<and> h \<noteq> 0 \<and> h \<le> types \<and> refs ! h = i) \<and>
     (\<forall>i d. table_entry table i = Some (Canonical_derived d) \<longleftrightarrow> map_of derived d = Some i) \<and>
     (\<forall>i d. table_entry table i = Some (Canonical_derived d) \<longrightarrow>
        dt_child d \<noteq> 0 \<and> dt_child d < i \<and> (dt_kind d = Derived_array \<longleftrightarrow> dt_payload d \<noteq> 0))"

lemma table_entry_append:
  "table_entry (table @ [e]) i = (if i = length table \<and> i \<noteq> 0 then Some e else table_entry table i)"
  by (auto simp: table_entry_def nth_append)

lemma table_entry_length [simp]: "table_entry table (length table) = None"
  by (simp add: table_entry_def)

lemma type_table_wf_start: "type_table_wf types [] (replicate (types + 1) 0) []"
  by (auto simp: type_table_wf_def table_entry_def simp del: replicate.simps)

lemma type_table_wf_fresh:
  assumes "type_table_wf types table refs derived" and "table \<noteq> []"
  shows "h \<noteq> 0 \<Longrightarrow> h \<le> types \<Longrightarrow> refs ! h \<noteq> length table" and "map_of derived d \<noteq> Some (length table)"
  using assms table_entry_length [of table] unfolding type_table_wf_def
  by (metis length_0_conv option.distinct(1))+

lemma type_table_wf_builtin:
  assumes wf: "type_table_wf types table refs derived" and size: "length table \<le> length all_builtins"
    and b: "length table \<noteq> 0 \<Longrightarrow> b = all_builtins ! (length table - 1)"
  shows "type_table_wf types (table @ [Canonical_builtin b]) refs derived"
proof (cases "table = []")
  case True
  with wf show ?thesis unfolding type_table_wf_def table_entry_append by (auto simp: table_entry_def)
next
  case False
  note fresh = type_table_wf_fresh [OF wf False]
  from wf size b False show ?thesis unfolding type_table_wf_def table_entry_append
    by (intro conjI) (auto simp: less_Suc_eq fresh)
qed

lemma type_table_wf_named:
  assumes wf: "type_table_wf types table refs derived" and new: "h \<noteq> 0" "h \<le> types" "refs ! h = 0"
    and size: "length all_builtins < length table"
  shows "type_table_wf types (table @ [Canonical_named h]) (refs[h := length table]) derived"
proof -
  have "table \<noteq> []" using size by auto
  note fresh = type_table_wf_fresh [OF wf this]
  have "h < length refs" using wf new(2) by (simp add: type_table_wf_def)
  then have [simp]: "refs[h := length table] ! k = (if k = h then length table else refs ! k)" for k
    by (simp add: nth_list_update)
  from wf size new \<open>table \<noteq> []\<close> show ?thesis unfolding type_table_wf_def table_entry_append
    by (intro conjI) (auto simp: less_Suc_eq fresh)
qed

lemma type_table_wf_derived:
  assumes wf: "type_table_wf types table refs derived" and new: "map_of derived d = None"
    and d: "dt_child d \<noteq> 0" "dt_child d < length table" "dt_kind d = Derived_array \<longleftrightarrow> dt_payload d \<noteq> 0"
    and size: "length all_builtins < length table"
  shows "type_table_wf types (table @ [Canonical_derived d]) refs (um_emplace d (length table) derived)"
proof -
  have "table \<noteq> []" using size by auto
  note fresh = type_table_wf_fresh [OF wf this]
  from wf size new d \<open>table \<noteq> []\<close> show ?thesis unfolding type_table_wf_def table_entry_append
    by (intro conjI) (auto simp: less_Suc_eq fresh um_emplace_def)
qed


lemma import_table_entry_wf:
  assumes step: "import_table_entry types source (table, refs, derived) = Some (table', refs', derived')"
    and wf: "type_table_wf types table refs derived" and size: "length table \<le> u32_max"
  shows "type_table_wf types table' refs' derived'"
proof -
  consider (builtin) b where "table' = table @ [Canonical_builtin b]" "refs' = refs" "derived' = derived"
      "length table \<le> length all_builtins" "length table \<noteq> 0 \<longrightarrow> b = all_builtins ! (length table - 1)"
    | (named) h where "table' = table @ [Canonical_named h]" "refs' = refs[h := length table]" "derived' = derived"
      "length all_builtins < length table" "h \<noteq> 0" "h \<le> types" "refs ! h = 0"
    | (derived) d where "table' = table @ [Canonical_derived d]" "refs' = refs" "derived' = um_emplace d (length table) derived"
      "length all_builtins < length table" "dt_child d \<noteq> 0" "dt_child d < length table"
      "dt_kind d = Derived_array \<longleftrightarrow> dt_payload d \<noteq> 0" "map_of derived d = None"
  proof (cases "length table \<le> length all_builtins")
    case True
    with step show thesis
      by (intro builtin [of "if table = [] then Void_type else all_builtins ! (length table - 1)"])
        (auto simp: import_table_entry_def Let_def split: if_splits)
  next
    case large: False
    show thesis
    proof (cases "cct_kind source = 1")
      case True
      with step large show thesis
        by (intro named [of "cct_argument source"])
          (auto simp: import_table_entry_def Let_def size split: if_splits)
    next
      case False
      with step large show thesis
        by (intro derived [of "\<lparr>dt_kind = derived_of_code (cct_subtype source), dt_child = cct_argument source,
              dt_payload = cct_payload source\<rparr>"])
          (auto simp: import_table_entry_def Let_def size split: if_splits)
    qed
  qed
  then show ?thesis
    using wf by cases (auto intro!: type_table_wf_builtin type_table_wf_named type_table_wf_derived)
qed

lemma import_table_wf:
  "import_table types sources (table, refs, derived) = Some (table', refs', derived') \<Longrightarrow>
     type_table_wf types table refs derived \<Longrightarrow> length table + length sources \<le> u32_max + 1 \<Longrightarrow>
     type_table_wf types table' refs' derived'"
proof (induction sources arbitrary: table refs derived)
  case (Cons source sources)
  obtain t1 r1 d1 where step: "import_table_entry types source (table, refs, derived) = Some (t1, r1, d1)"
    "import_table types sources (t1, r1, d1) = Some (table', refs', derived')"
    using Cons.prems(1) by (auto split: option.splits)
  obtain e where "t1 = table @ [e]" using step(1) by (rule import_table_entry_source)
  with Cons.IH [OF step(2) import_table_entry_wf [OF step(1) Cons.prems(2)]] Cons.prems(3)
  show ?case by simp
qed simp

subsection \<open>What a TypeRef denotes\<close>

datatype denoted_type =
    Denoted_builtin builtin_type
  | Denoted_user nat
  | Denoted_modified derived_type_kind u64 denoted_type

fun denote :: "canonical_type_record list \<Rightarrow> nat \<Rightarrow> nat \<Rightarrow> denoted_type option" where
  "denote table 0 ref = None"
| "denote table (Suc depth) ref =
     (case table_entry table ref of
        None \<Rightarrow> None
      | Some (Canonical_builtin b) \<Rightarrow> Some (Denoted_builtin b)
      | Some (Canonical_named h) \<Rightarrow> Some (Denoted_user h)
      | Some (Canonical_derived d) \<Rightarrow>
          map_option (Denoted_modified (dt_kind d) (dt_payload d)) (denote table depth (dt_child d)))"

fun base_user :: "denoted_type \<Rightarrow> nat" where
  "base_user (Denoted_builtin b) = 0"
| "base_user (Denoted_user h) = h"
| "base_user (Denoted_modified k p t) = base_user t"

lemma table_entry_SomeD: "table_entry table ref = Some e \<Longrightarrow> ref \<noteq> 0 \<and> ref < length table"
  by (simp add: table_entry_def split: if_splits)

lemma denote_total:
  assumes wf: "type_table_wf types table refs derived"
  shows "ref \<noteq> 0 \<Longrightarrow> ref < length table \<Longrightarrow> ref < depth \<Longrightarrow> \<exists>t. denote table depth ref = Some t"
proof (induction depth arbitrary: ref)
  case (Suc depth)
  then obtain e where e: "table_entry table ref = Some e" by (auto simp: table_entry_def)
  show ?case
  proof (cases e)
    case (Canonical_derived d)
    with e wf have "dt_child d \<noteq> 0" "dt_child d < ref" by (auto simp: type_table_wf_def)
    with Suc.IH [of "dt_child d"] Suc.prems e Canonical_derived show ?thesis by auto
  qed (simp_all add: e)
qed simp

lemma nth_all_builtins_inj:
  "i < length all_builtins \<Longrightarrow> j < length all_builtins \<Longrightarrow> all_builtins ! i = all_builtins ! j \<Longrightarrow> i = j"
proof -
  have "distinct all_builtins" by code_simp
  then show "i < length all_builtins \<Longrightarrow> j < length all_builtins \<Longrightarrow> all_builtins ! i = all_builtins ! j \<Longrightarrow> i = j"
    by (simp add: nth_eq_iff_index_eq)
qed

text \<open>In a table without repetitions no two TypeRefs denote the same type.\<close>

lemma type_table_wf_unique:
  assumes wf: "type_table_wf types table refs derived"
    and i: "table_entry table i = Some e" and j: "table_entry table j = Some e"
  shows "i = j"
proof (cases e)
  case (Canonical_builtin b)
  with wf i j have "i \<noteq> 0" "j \<noteq> 0" "i \<le> length all_builtins" "j \<le> length all_builtins"
      "all_builtins ! (i - 1) = all_builtins ! (j - 1)"
    unfolding type_table_wf_def by metis+
  with nth_all_builtins_inj [of "i - 1" "j - 1"] show ?thesis by linarith
next
  case (Canonical_named h)
  with wf i j show ?thesis unfolding type_table_wf_def by metis
next
  case (Canonical_derived d)
  with wf i j show ?thesis unfolding type_table_wf_def by (metis option.inject)
qed

lemma denote_unique:
  assumes unique: "\<And>i j e. table_entry table i = Some e \<Longrightarrow> table_entry table j = Some e \<Longrightarrow> i = j"
  shows "denote table m i = Some t \<Longrightarrow> denote table n j = Some t \<Longrightarrow> i = j"
proof (induction t arbitrary: m n i j)
  case (Denoted_builtin b)
  then have "table_entry table i = Some (Canonical_builtin b)" "table_entry table j = Some (Canonical_builtin b)"
    by (cases m; cases n; auto split: option.splits canonical_type_record.splits)+
  then show ?case by (rule unique)
next
  case (Denoted_user h)
  then have "table_entry table i = Some (Canonical_named h)" "table_entry table j = Some (Canonical_named h)"
    by (cases m; cases n; auto split: option.splits canonical_type_record.splits)+
  then show ?case by (rule unique)
next
  case (Denoted_modified k p t)
  have modified: "\<exists>c m'. table_entry table i = Some (Canonical_derived \<lparr>dt_kind = k, dt_child = c, dt_payload = p\<rparr>) \<and>
      denote table m' c = Some t" if modified: "denote table m i = Some (Denoted_modified k p t)" for m i
  proof -
    obtain d n where "table_entry table i = Some (Canonical_derived d)" "denote table n (dt_child d) = Some t"
      "k = dt_kind d" "p = dt_payload d"
      using modified by (cases m) (auto split: option.splits canonical_type_record.splits)
    then show ?thesis by (intro exI [of _ "dt_child d"] exI [of _ n]) simp
  qed
  obtain c m' where 1: "table_entry table i = Some (Canonical_derived \<lparr>dt_kind = k, dt_child = c, dt_payload = p\<rparr>)"
    "denote table m' c = Some t" using modified [OF Denoted_modified.prems(1)] by blast
  obtain c' n' where 2: "table_entry table j = Some (Canonical_derived \<lparr>dt_kind = k, dt_child = c', dt_payload = p\<rparr>)"
    "denote table n' c' = Some t" using modified [OF Denoted_modified.prems(2)] by blast
  have "c = c'" by (rule Denoted_modified.IH [OF 1(2) 2(2)])
  with 1(1) 2(1) show ?case by (intro unique) simp_all
qed

lemma denote_inj:
  assumes wf: "type_table_wf types table refs derived"
    and "denote table m i = Some t" "denote table n j = Some t"
  shows "i = j"
  by (rule denote_unique [OF _ assms(2,3)]) (rule type_table_wf_unique [OF wf])


lemma named_base_denote:
  assumes wf: "type_table_wf types table refs derived"
  shows "denote table depth ref = Some t \<Longrightarrow> named_base table depth ref = Some (base_user t)"
proof (induction depth arbitrary: ref t)
  case (Suc depth)
  then show ?case using wf
    by (auto simp: type_table_wf_def split: option.splits canonical_type_record.splits)
qed simp


section \<open>The dependency index is exact\<close>

lemma set_push_new [simp]: "set (push_new x xs) = insert x (set xs)"
  by (auto simp: push_new_def)

lemma distinct_push_new [simp]: "distinct xs \<Longrightarrow> distinct (push_new x xs)"
  by (simp add: push_new_def)

lemma member_dependencies_set:
  "member_dependencies table ms deps = Some ds \<Longrightarrow>
     set ds = set deps \<union> {h. h \<noteq> 0 \<and> (\<exists>m\<in>set ms. named_base table (length table) (mr_type m) = Some h)}"
  by (induction ms arbitrary: deps) (auto split: option.splits if_splits)

lemma member_dependencies_total:
  "\<forall>m\<in>set ms. named_base table (length table) (mr_type m) \<noteq> None \<Longrightarrow> member_dependencies table ms deps \<noteq> None"
  by (induction ms arbitrary: deps) (auto split: option.splits)

lemma add_reverse_set:
  "add_reverse raw ds users = Some users' \<Longrightarrow> length users' = length users \<and>
     (\<forall>k < length users. set (users' ! k) = set (users ! k) \<union> (if k \<in> set ds then {raw} else {}))"
proof (induction ds arbitrary: users)
  case (Cons d ds)
  then have "d < length users" and
    run: "add_reverse raw ds (users[d := users ! d @ [raw]]) = Some users'"
    by (auto split: if_splits)
  with Cons.IH [OF run] show ?case by (auto simp: nth_list_update)
qed simp

lemma add_reverse_total: "\<forall>d\<in>set ds. d < length users \<Longrightarrow> add_reverse raw ds users \<noteq> None"
  by (induction ds arbitrary: users) auto

lemma index_types_spec:
  "index_types g raw ts deps users = Some (deps', users') \<Longrightarrow>
     raw + length ts = length deps \<Longrightarrow> length users = length deps \<Longrightarrow>
     length deps' = length deps \<and> length users' = length users \<and> take raw deps' = take raw deps \<and>
     (\<forall>i < length ts. type_dependency_list g (ts ! i) = Some (deps' ! (raw + i))) \<and>
     (\<forall>k < length users. set (users' ! k) = set (users ! k) \<union> {raw + i | i. i < length ts \<and> k \<in> set (deps' ! (raw + i))})"
proof (induction ts arbitrary: raw deps users)
  case (Cons t ts)
  obtain ds users1 where ds: "type_dependency_list g t = Some ds" and users1: "add_reverse raw ds users = Some users1"
    and run: "index_types g (raw + 1) ts (deps[raw := ds]) users1 = Some (deps', users')"
    using Cons.prems(1) by (auto split: option.splits)
  note rev = add_reverse_set [OF users1]
  have IH: "length deps' = length deps" "length users' = length users" "take (raw + 1) deps' = take (raw + 1) (deps[raw := ds])"
    "\<forall>i < length ts. type_dependency_list g (ts ! i) = Some (deps' ! (raw + 1 + i))"
    "\<forall>k < length users. set (users' ! k) = set (users1 ! k) \<union> {raw + 1 + i | i. i < length ts \<and> k \<in> set (deps' ! (raw + 1 + i))}"
    using Cons.IH [OF run] Cons.prems(2,3) rev by simp_all
  have raw: "raw < length deps" using Cons.prems(2) by simp
  have here: "deps' ! raw = ds"
    using arg_cong [OF IH(3), of "\<lambda>xs. xs ! raw"] raw by simp
  have before: "take raw deps' = take raw deps"
    using arg_cong [OF IH(3), of "take raw"] by (simp add: min_def)
  have all: "type_dependency_list g ((t # ts) ! i) = Some (deps' ! (raw + i))" if "i < length (t # ts)" for i
    using that ds here IH(4) by (cases i) auto
  have users: "set (users' ! k) = set (users ! k) \<union> {raw + i | i. i < length (t # ts) \<and> k \<in> set (deps' ! (raw + i))}"
    if "k < length users" for k
  proof -
    have "{raw + i | i. i < length (t # ts) \<and> k \<in> set (deps' ! (raw + i))} =
        (if k \<in> set ds then {raw} else {}) \<union> {raw + 1 + i | i. i < length ts \<and> k \<in> set (deps' ! (raw + 1 + i))}" (is "?all = ?here \<union> ?rest")
    proof (intro equalityI subsetI)
      fix u assume "u \<in> ?all"
      then obtain i where "u = raw + i" "i < length (t # ts)" "k \<in> set (deps' ! (raw + i))" by blast
      then show "u \<in> ?here \<union> ?rest" using here by (cases i) auto
    next
      fix u assume "u \<in> ?here \<union> ?rest"
      then consider "u = raw" "k \<in> set ds" | i where "u = raw + Suc i" "i < length ts" "k \<in> set (deps' ! (raw + Suc i))"
        by (auto split: if_splits)
      then show "u \<in> ?all"
      proof cases
        case 1 then show ?thesis using here by (intro CollectI exI [of _ 0]) simp
      next
        case 2 then show ?thesis by (intro CollectI exI [of _ "Suc _"]) auto
      qed
    qed
    then show ?thesis using IH(5) rev that by auto
  qed
  show ?case using IH(1,2) before all users by blast
qed simp

lemma type_dependency_list_members:
  "type_dependency_list g (g_type g h) = Some ds \<Longrightarrow>
     member_dependencies (g_canonical g) (g_members_of g h) [] = Some ds"
  by (cases "g_type g h") (auto simp: type_dependency_list_def g_members_of_def arena_slice_def Let_def split: if_splits)

text \<open>C23: The dependency index that is rebuilt after a load holds, for every type slot, exactly the
  user types its members are built on, and its other half is its transpose: a type is listed as a
  dependent of exactly the types it depends on.\<close>

theorem dependency_index_exact:
  assumes "g_rebuild_dependency_index mem g = (Ok, g')" and "h \<noteq> 0" "h \<le> length (g_types g)"
  shows "set (g_dependencies g' ! h) =
      {d. d \<noteq> 0 \<and> (\<exists>m\<in>set (g_members_of g h). named_base (g_canonical g) (length (g_canonical g)) (mr_type m) = Some d)} \<and>
      (\<forall>d \<le> length (g_types g). h \<in> set (g_reverse_dependents g' ! d) \<longleftrightarrow> d \<in> set (g_dependencies g' ! h))"
proof (intro conjI allI impI)
  define none where "none = replicate (length (g_types g) + 1) ([] :: nat list)"
  obtain deps users where run: "index_types g 1 (g_types g) none none = Some (deps, users)"
    and g': "g_dependencies g' = deps" "g_reverse_dependents g' = users"
    using assms(1) unfolding g_rebuild_dependency_index_def Let_def none_def [symmetric]
    by (auto split: if_splits option.splits)
  have "type_dependency_list g (g_types g ! (h - 1)) = Some (deps ! (1 + (h - 1)))"
    using index_types_spec [OF run] assms(2,3) by (simp add: none_def)
  with assms(2,3) have "type_dependency_list g (g_type g h) = Some (deps ! h)" by (simp add: g_type_def)
  from member_dependencies_set [OF type_dependency_list_members [OF this]]
  show "set (g_dependencies g' ! h) =
      {d. d \<noteq> 0 \<and> (\<exists>m\<in>set (g_members_of g h). named_base (g_canonical g) (length (g_canonical g)) (mr_type m) = Some d)}"
    by (simp add: g')
  show "h \<in> set (g_reverse_dependents g' ! d) \<longleftrightarrow> d \<in> set (g_dependencies g' ! h)" if "d \<le> length (g_types g)" for d
  proof -
    have d: "d < length none" using that by (simp add: none_def)
    have "set (users ! d) = set (none ! d) \<union> {1 + i | i. i < length (g_types g) \<and> d \<in> set (deps ! (1 + i))}"
      using index_types_spec [OF run] d by (simp add: none_def)
    moreover have "none ! d = []" using that unfolding none_def by (intro nth_replicate) simp
    ultimately show ?thesis
      using assms(2,3) by (auto simp: g' intro: exI [of _ "h - 1"])
  qed
qed


section \<open>What an accepted state satisfies\<close>

lemma g_import_compiledD:
  assumes "g_import_compiled mem mi c g = (Ok, g')"
  obtains g1 g2 where "import_checked c g = Some g1" "g_rebuild_dependency_index mi g1 = (Ok, g2)"
    "is_supported_abi_configuration (cg_abi c)" "length all_builtins + 1 \<le> length (cg_canonical c)" "mem"
    "g' = g2\<lparr>g_candidate_identities := [], g_candidate_entities := [], g_candidate_types := [],
             g_entity_count := length (filter entity_live (g_entities g2)),
             g_user_type_count := length (filter (\<lambda>t. t \<noteq> None) (g_types g2)),
             g_next_stable_id := (let n = cast_u32 (length (g_entities g2)) in if n = 0 then 1 else n),
             g_next_candidate_generation := 1, g_abi := cg_abi c, g_generation := 0\<rparr>"
  using assms unfolding g_import_compiled_def
  by (auto split: if_splits option.splits prod.splits simp del: One_nat_def)

lemma g_rebuild_dependency_index_fields:
  "g_rebuild_dependency_index mem g = (st, g') \<Longrightarrow> \<exists>deps users. g' = g\<lparr>g_dependencies := deps, g_reverse_dependents := users\<rparr>"
  unfolding g_rebuild_dependency_index_def Let_def by (auto split: if_splits option.splits)

lemma g_rebuild_dependency_index_again:
  assumes run: "g_rebuild_dependency_index mem g = (Ok, g')"
    and same: "g_types h = g_types g" "g_members h = g_members g" "g_canonical h = g_canonical g"
  shows "g_rebuild_dependency_index True h =
     (Ok, h\<lparr>g_dependencies := g_dependencies g', g_reverse_dependents := g_reverse_dependents g'\<rparr>)"
proof -
  have list: "type_dependency_list h t = type_dependency_list g t" for t
    by (cases t) (simp_all add: type_dependency_list_def Let_def same)
  have "index_types h raw ts deps users = index_types g raw ts deps users" for raw ts deps users
    by (induction ts arbitrary: raw deps users) (simp_all add: list cong: option.case_cong)
  with run show ?thesis
    unfolding g_rebuild_dependency_index_def Let_def same
    by (auto split: if_splits option.splits)
qed

lemma canonical_live_nth:
  assumes "table \<noteq> []"
  shows "length (canonical_live types table) = length table"
    and "i \<noteq> 0 \<Longrightarrow> i < length table \<Longrightarrow>
      canonical_live types table ! i = entry_live types (take i (canonical_live types table)) (table ! i)"
proof -
  obtain b rest where table: "table = b # rest" using assms by (cases table) auto
  have "length (canonical_live types (b # rest)) = length rest + 1 \<and>
    (\<forall>i. i \<noteq> 0 \<longrightarrow> i < length rest + 1 \<longrightarrow>
      canonical_live types (b # rest) ! i = entry_live types (take i (canonical_live types (b # rest))) ((b # rest) ! i))"
  proof (induction rest rule: rev_induct)
    case (snoc e rest)
    have step: "canonical_live types (b # rest @ [e]) =
        canonical_live types (b # rest) @ [entry_live types (canonical_live types (b # rest)) e]"
      by (simp add: canonical_live_def)
    show ?case unfolding step using snoc by (auto simp: nth_append less_Suc_eq nth_Cons')
  qed (simp add: canonical_live_def)
  then show "length (canonical_live types table) = length table"
    "i \<noteq> 0 \<Longrightarrow> i < length table \<Longrightarrow>
      canonical_live types table ! i = entry_live types (take i (canonical_live types table)) (table ! i)"
    by (simp_all add: table)
qed

lemma type_table_wf_child:
  "type_table_wf n table refs derived \<Longrightarrow> table_entry table i = Some (Canonical_derived d) \<Longrightarrow> dt_child d \<noteq> 0 \<and> dt_child d < i"
  by (simp add: type_table_wf_def)

lemma canonical_live_denote:
  assumes wf: "type_table_wf n table refs derived" and table: "table \<noteq> []"
  shows "ref \<noteq> 0 \<Longrightarrow> ref < length table \<Longrightarrow> canonical_live types table ! ref \<Longrightarrow> denote table depth ref = Some t \<Longrightarrow>
     base_user t \<noteq> 0 \<Longrightarrow> base_user t \<le> length types \<and> types ! (base_user t - 1) \<noteq> None"
proof (induction t arbitrary: ref depth)
  case (Denoted_user h)
  then have "table ! ref = Canonical_named h"
    by (cases depth) (auto simp: table_entry_def split: option.splits canonical_type_record.splits if_splits)
  with Denoted_user.prems canonical_live_nth(2) [OF table, of ref types] show ?case by (simp add: entry_live_def)
next
  case (Denoted_modified k p t)
  then obtain d depth' where d: "table ! ref = Canonical_derived d" "denote table depth' (dt_child d) = Some t"
    by (cases depth) (auto simp: table_entry_def split: option.splits canonical_type_record.splits if_splits)
  have "dt_child d \<noteq> 0" "dt_child d < ref"
    using type_table_wf_child [OF wf, of ref d] d(1) Denoted_modified.prems(1,2) by (simp_all add: table_entry_def)
  moreover have "canonical_live types table ! dt_child d"
    using canonical_live_nth(2) [OF table, of ref types] Denoted_modified.prems(1-3) d(1) \<open>dt_child d < ref\<close>
    by (simp add: entry_live_def)
  ultimately show ?case using Denoted_modified.IH [OF _ _ _ d(2)] Denoted_modified.prems(2,5) by simp
qed simp


lemma import_checked_wf:
  assumes g1: "import_checked c g = Some g1" and size: "length (cg_canonical c) \<le> u32_max"
  shows "type_table_wf (length (g_types g1)) (g_canonical g1) (g_named_type_refs g1) (g_derived_index g1)"
    and "length (g_canonical g1) = length (cg_canonical c)"
proof -
  have table: "import_table (length (g_types g1)) (cg_canonical c) ([], replicate (length (g_types g1) + 1) 0, []) =
       Some (g_canonical g1, g_named_type_refs g1, g_derived_index g1)"
    by (rule import_checkedD [OF g1])
  from import_table_wf [OF table type_table_wf_start] size
  show "type_table_wf (length (g_types g1)) (g_canonical g1) (g_named_type_refs g1) (g_derived_index g1)" by simp
  show "length (g_canonical g1) = length (cg_canonical c)" by (simp add: import_table_canonical [OF table])
qed

text \<open>The members of a live aggregate are a slice of the arena, and their TypeRefs are live.\<close>

lemma import_checked_members:
  assumes g1: "import_checked c g = Some g1" and table: "cg_canonical c \<noteq> []"
    and t: "Some t \<in> set (g_types g1)" "te_kind t = Type_aggregate" "range_valid (te_definition t)"
  shows "dr_begin (te_definition t) - 1 \<le> length (g_members g1)"
    "dr_count (te_definition t) \<le> length (g_members g1) - (dr_begin (te_definition t) - 1)"
    "m \<in> set (take (dr_count (te_definition t)) (drop (dr_begin (te_definition t) - 1) (g_members g1))) \<Longrightarrow>
       mr_type m \<noteq> 0 \<and> mr_type m < length (g_canonical g1) \<and> canonical_live (g_types g1) (g_canonical g1) ! mr_type m"
proof -
  have "those (map (import_type (length (g_members g1)) (length (g_enum_values g1))) (cg_types c)) = Some (g_types g1)"
    by (rule import_checkedD [OF g1])
  from those_mapD [OF this] t(1) obtain s where "import_type (length (g_members g1)) (length (g_enum_values g1)) s = Some (Some t)"
    by (auto simp: list_all2_conv_all_nth in_set_conv_nth)
  with t(2,3) show "dr_begin (te_definition t) - 1 \<le> length (g_members g1)"
    "dr_count (te_definition t) \<le> length (g_members g1) - (dr_begin (te_definition t) - 1)"
    by (auto simp: import_type_def Let_def split: if_splits)
  have "import_table (length (g_types g1)) (cg_canonical c) ([], replicate (length (g_types g1) + 1) 0, []) =
       Some (g_canonical g1, g_named_type_refs g1, g_derived_index g1)"
    by (rule import_checkedD [OF g1])
  from import_table_canonical [OF this] table have nonempty: "g_canonical g1 \<noteq> []" by auto
  have "list_all (members_live (g_members g1) (canonical_live (g_types g1) (g_canonical g1))) (g_types g1)"
    by (rule import_checkedD [OF g1])
  with t have "members_live (g_members g1) (canonical_live (g_types g1) (g_canonical g1)) (Some t)"
    by (simp add: list_all_iff)
  with t show "mr_type m \<noteq> 0 \<and> mr_type m < length (g_canonical g1) \<and> canonical_live (g_types g1) (g_canonical g1) ! mr_type m"
    if "m \<in> set (take (dr_count (te_definition t)) (drop (dr_begin (te_definition t) - 1) (g_members g1)))"
    using that by (simp add: members_live_def list_all_iff canonical_live_nth(1) [OF nonempty])
qed

lemma g_members_of_cases:
  assumes "m \<in> set (g_members_of g h)"
  obtains t where "g_type g h = Some t" "Some t \<in> set (g_types g)" "te_kind t = Type_aggregate" "range_valid (te_definition t)"
    "m \<in> set (take (dr_count (te_definition t)) (drop (dr_begin (te_definition t) - 1) (g_members g)))"
proof -
  have "g_type g h = Some t \<Longrightarrow> Some t \<in> set (g_types g)" for t
    by (auto simp: g_type_def split: if_splits) (metis Suc_pred le_simps(3) nth_mem)
  with assms that show thesis
    by (cases "g_type g h") (auto simp: g_members_of_def arena_slice_def Let_def split: if_splits)
qed

text \<open>C8: Type safety of a loaded graph: every TypeRef of the table denotes a type, two TypeRefs never
  denote the same type (the table is hash-consed), and the type of every member of every live aggregate
  is built on a builtin or on a user type that is live.\<close>

theorem graph_load_type_safe:
  assumes "g_import_compiled mem mem_index c g = (Ok, g')" and "length (cg_canonical c) \<le> u32_max"
  shows "(\<forall>ref. ref \<noteq> 0 \<and> ref < length (g_canonical g') \<longrightarrow> denote (g_canonical g') (ref + 1) ref \<noteq> None) \<and>
    (\<forall>r s t. denote (g_canonical g') (r + 1) r = Some t \<and> denote (g_canonical g') (s + 1) s = Some t \<longrightarrow> r = s) \<and>
    (\<forall>h. \<forall>m\<in>set (g_members_of g' h). \<exists>t. denote (g_canonical g') (mr_type m + 1) (mr_type m) = Some t \<and>
       (base_user t = 0 \<or> g_type g' (base_user t) \<noteq> None))"
proof -
  obtain g1 g2 where g1: "import_checked c g = Some g1" and g2: "g_rebuild_dependency_index mem_index g1 = (Ok, g2)"
    and long: "length all_builtins + 1 \<le> length (cg_canonical c)" and g': "g_canonical g' = g_canonical g2"
      "g_types g' = g_types g2" "g_members g' = g_members g2"
    using assms(1) by (elim g_import_compiledD) simp
  have same: "g_canonical g' = g_canonical g1" "g_types g' = g_types g1" "g_members g' = g_members g1"
    using g_rebuild_dependency_index_fields [OF g2] by (auto simp: g')
  note wf = import_checked_wf(1) [OF g1 assms(2)]
  have table: "cg_canonical c \<noteq> []" using long by auto
  have nonempty: "g_canonical g1 \<noteq> []" using import_checked_wf(2) [OF g1 assms(2)] table by auto
  have total: "denote (g_canonical g1) (ref + 1) ref \<noteq> None" if "ref \<noteq> 0" "ref < length (g_canonical g1)" for ref
    using denote_total [OF wf, of ref "ref + 1"] that by auto
  have members: "\<exists>t. denote (g_canonical g1) (mr_type m + 1) (mr_type m) = Some t \<and> (base_user t = 0 \<or> g_type g' (base_user t) \<noteq> None)"
    if m: "m \<in> set (g_members_of g' h)" for h m
  proof -
    obtain t where t: "Some t \<in> set (g_types g1)" "te_kind t = Type_aggregate" "range_valid (te_definition t)"
      and slice: "m \<in> set (take (dr_count (te_definition t)) (drop (dr_begin (te_definition t) - 1) (g_members g1)))"
      using m by (rule g_members_of_cases) (simp add: same)
    note live = import_checked_members(3) [OF g1 table t slice]
    then obtain d where d: "denote (g_canonical g1) (mr_type m + 1) (mr_type m) = Some d" using total [of "mr_type m"] by auto
    moreover have "base_user d = 0 \<or> g_type g' (base_user d) \<noteq> None"
      using canonical_live_denote [OF wf nonempty _ _ _ d, of "g_types g1"] live by (cases "base_user d = 0") (auto simp: g_type_def same)
    ultimately show ?thesis by blast
  qed
  show ?thesis unfolding same
    using total members denote_inj [OF wf] by blast
qed


lemma import_checked_abi: "import_checked (c\<lparr>cg_abi := a\<rparr>) g = import_checked c g"
  by (cases c) (simp only: import_checked_def compiled_graph_state.simps compiled_graph_state.update_convs)

text \<open>C22: A graph that was loaded and is saved loads again as the same graph, whatever graph it is
  loaded over: the compiled state carries everything a committed graph holds, and the loader accepts
  every state it has produced.\<close>

theorem graph_save_load:
  assumes "g_import_compiled mem mem_index c g = (Ok, g')"
  shows "g_import_compiled True True (g_export_compiled g') h = (Ok, g')"
proof -
  obtain g1 g2 where g1: "import_checked c g = Some g1" and g2: "g_rebuild_dependency_index mem_index g1 = (Ok, g2)"
    and abi: "is_supported_abi_configuration (cg_abi c)" and long: "length all_builtins + 1 \<le> length (cg_canonical c)"
    and g': "g' = g2\<lparr>g_candidate_identities := [], g_candidate_entities := [], g_candidate_types := [],
             g_entity_count := length (filter entity_live (g_entities g2)),
             g_user_type_count := length (filter (\<lambda>t. t \<noteq> None) (g_types g2)),
             g_next_stable_id := (let n = cast_u32 (length (g_entities g2)) in if n = 0 then 1 else n),
             g_next_candidate_generation := 1, g_abi := cg_abi c, g_generation := 0\<rparr>"
    using assms by (rule g_import_compiledD)
  obtain deps users where g2': "g2 = g1\<lparr>g_dependencies := deps, g_reverse_dependents := users\<rparr>"
    using g_rebuild_dependency_index_fields [OF g2] by blast
  have export: "g_export_compiled g' = (g_export_compiled g1)\<lparr>cg_abi := cg_abi c\<rparr>"
    unfolding g' g2' g_export_compiled_def by simp
  have entities: "g_entities g1 \<noteq> []"
    by (rule import_checkedD [OF g1]) (erule import_entities_export(2))
  have table: "length (cg_canonical c) = length (g_canonical g1)"
    by (rule import_checkedD [OF g1]) (drule import_table_canonical, simp)
  let ?h = "h\<lparr>g_types := g_types g1, g_free_type_slots := g_free_type_slots g1,
      g_entities := g_entities g1, g_identity := g_identity g1, g_members := g_members g1,
      g_enum_values := g_enum_values g1, g_canonical := g_canonical g1,
      g_named_type_refs := g_named_type_refs g1, g_derived_index := g_derived_index g1\<rparr>"
  have again: "import_checked (g_export_compiled g') h = Some ?h"
    unfolding export import_checked_abi by (rule import_checked_graph [OF import_checked_again [OF g1]])
  have index: "g_rebuild_dependency_index True ?h = (Ok, ?h\<lparr>g_dependencies := deps, g_reverse_dependents := users\<rparr>)"
    using g_rebuild_dependency_index_again [OF g2, of ?h] by (simp add: g2')
  have fields: "cg_abi (g_export_compiled g') = cg_abi c" "length (cg_canonical (g_export_compiled g')) = length (cg_canonical c)"
    "cg_entities (g_export_compiled g') \<noteq> []"
    unfolding export by (simp_all add: g_export_compiled_def table entities)
  have "g_import_compiled True True (g_export_compiled g') h =
    (Ok, ?h\<lparr>g_dependencies := deps, g_reverse_dependents := users, g_candidate_identities := [],
       g_candidate_entities := [], g_candidate_types := [],
       g_entity_count := length (filter entity_live (g_entities g1)),
       g_user_type_count := length (filter (\<lambda>t. t \<noteq> None) (g_types g1)),
       g_next_stable_id := (let n = cast_u32 (length (g_entities g1)) in if n = 0 then 1 else n),
       g_next_candidate_generation := 1, g_abi := cg_abi c, g_generation := 0\<rparr>)"
    using abi long fields unfolding g_import_compiled_def again index by (simp add: index)
  then show ?thesis unfolding g' g2' by simp
qed

lemma index_types_total:
  "\<forall>t\<in>set ts. \<exists>ds. type_dependency_list g t = Some ds \<and> (\<forall>d\<in>set ds. d < length users) \<Longrightarrow> index_types g raw ts deps users \<noteq> None"
proof (induction ts arbitrary: raw deps users)
  case (Cons t ts)
  then obtain ds where ds: "type_dependency_list g t = Some ds" "\<forall>d\<in>set ds. d < length users" by auto
  obtain users' where users': "add_reverse raw ds users = Some users'" using add_reverse_total [OF ds(2)] by blast
  have "length users' = length users" using add_reverse_set [OF users'] by simp
  with Cons.IH [of users' "raw + 1" "deps[raw := ds]"] Cons.prems show ?case by (simp add: ds users')
qed simp

lemma named_base_user:
  assumes wf: "type_table_wf n table refs derived"
  shows "denote table depth ref = Some t \<Longrightarrow> base_user t \<le> n"
proof (induction t arbitrary: depth ref)
  case (Denoted_user h)
  then have "table_entry table ref = Some (Canonical_named h)"
    by (cases depth) (auto split: option.splits canonical_type_record.splits)
  with wf show ?case by (simp add: type_table_wf_def)
next
  case (Denoted_modified k p t)
  then obtain c depth' where "denote table depth' c = Some t"
    by (cases depth) (auto split: option.splits canonical_type_record.splits)
  with Denoted_modified.IH show ?case by simp
qed simp

text \<open>After the checks the dependency index cannot fail.\<close>

lemma import_checked_index:
  assumes g1: "import_checked c g = Some g1" and size: "length (cg_canonical c) \<le> u32_max" and table: "cg_canonical c \<noteq> []"
  shows "fst (g_rebuild_dependency_index True g1) = Ok"
proof -
  note wf = import_checked_wf(1) [OF g1 size]
  have "\<exists>ds. type_dependency_list g1 t = Some ds \<and> (\<forall>d\<in>set ds. d < length (g_types g1) + 1)" if t: "t \<in> set (g_types g1)" for t
  proof (cases "\<exists>r. t = Some r \<and> te_kind r = Type_aggregate \<and> range_valid (te_definition r)")
    case True
    then obtain r where r: "t = Some r" "te_kind r = Type_aggregate" "range_valid (te_definition r)" by blast
    let ?ms = "take (dr_count (te_definition r)) (drop (dr_begin (te_definition r) - 1) (g_members g1))"
    note slice = import_checked_members [OF g1 table t [unfolded r(1)] r(2,3)]
    have base: "\<exists>b. named_base (g_canonical g1) (length (g_canonical g1)) (mr_type m) = Some b \<and> b < length (g_types g1) + 1"
      if m: "m \<in> set ?ms" for m
    proof -
      obtain d where d: "denote (g_canonical g1) (length (g_canonical g1)) (mr_type m) = Some d"
        using denote_total [OF wf] slice(3) [OF m] by blast
      with named_base_denote [OF wf d] named_base_user [OF wf d] show ?thesis by simp
    qed
    then have "member_dependencies (g_canonical g1) ?ms [] \<noteq> None"
      by (intro member_dependencies_total) auto
    then obtain ds where ds: "member_dependencies (g_canonical g1) ?ms [] = Some ds" by blast
    then have "\<forall>d\<in>set ds. d < length (g_types g1) + 1"
      using base by (auto dest!: member_dependencies_set) fastforce
    with ds slice(1,2) r show ?thesis by (simp add: type_dependency_list_def Let_def)
  next
    case False
    then show ?thesis by (cases t) (auto simp: type_dependency_list_def)
  qed
  then have "index_types g1 1 (g_types g1) (replicate (length (g_types g1) + 1) []) (replicate (length (g_types g1) + 1) []) \<noteq> None"
    by (intro index_types_total) (simp del: replicate.simps)
  then show ?thesis by (auto simp: g_rebuild_dependency_index_def Let_def)
qed

text \<open>A load is all or nothing: a state that is refused, because its ABI is unknown, a slot of it
  is out of range, its table is not hash-consed, or memory runs out before the exchange, leaves the
  committed graph as it was. The checks are enough for the dependency index, which is built after the
  exchange, never to find the new graph inconsistent.\<close>

theorem graph_load_refused:
  assumes "g_import_compiled mem True c g = (st, g')" and "st \<noteq> Ok" and "length (cg_canonical c) \<le> u32_max"
  shows "g' = g \<and> (st = Artifact_corrupt \<or> st = Initialization_failed \<and> \<not> mem)"
proof (cases "is_supported_abi_configuration (cg_abi c) \<and> \<not> length (cg_canonical c) < length all_builtins + 1 \<and> cg_entities c \<noteq> [] \<and> mem")
  case True
  show ?thesis
  proof (cases "import_checked c g")
    case None
    with assms True show ?thesis by (simp add: g_import_compiled_def)
  next
    case (Some g1)
    have "cg_canonical c \<noteq> []" using True by auto
    from import_checked_index [OF Some assms(3) this] obtain g2 where "g_rebuild_dependency_index True g1 = (Ok, g2)"
      by (metis prod.collapse)
    with assms True Some show ?thesis by (auto simp: g_import_compiled_def)
  qed
next
  case False
  with assms show ?thesis by (auto simp: g_import_compiled_def split: if_splits)
qed


section \<open>Examples\<close>

text \<open>A list node: an aggregate with one member, a pointer to the aggregate.\<close>

definition example_compiled :: compiled_graph_state where
  "example_compiled =
     \<lparr>cg_abi = example_abi, cg_identities = [0, 1],
      cg_entities = [\<lparr>ces_kind = Aggregate_type, ces_name = 0, ces_type = 0\<rparr>,
                     \<lparr>ces_kind = Aggregate_type, ces_name = 1, ces_type = 1\<rparr>],
      cg_types = [\<lparr>cts_live = True,
                   cts_record = default_type_entry\<lparr>te_kind := Type_aggregate, te_definition := \<lparr>dr_begin = 1, dr_count = 1\<rparr>\<rparr>\<rparr>],
      cg_enum_values = [], cg_members = [\<lparr>cm_name = 2, cm_type_ref = 22\<rparr>],
      cg_canonical =
        export_canonical (Canonical_builtin Void_type) # map (export_canonical \<circ> Canonical_builtin) all_builtins @
        [\<lparr>cct_kind = 1, cct_subtype = 0, cct_argument = 1, cct_payload = 0\<rparr>,
         \<lparr>cct_kind = 2, cct_subtype = 0, cct_argument = 21, cct_payload = 0\<rparr>]\<rparr>"

definition no_graph :: graph where
  "no_graph =
     \<lparr>g_types = [], g_free_type_slots = [], g_entities = [], g_identity = [], g_members = [],
      g_enum_values = [], g_canonical = [], g_named_type_refs = [], g_derived_index = [],
      g_dependencies = [], g_reverse_dependents = [], g_entity_count = 0, g_user_type_count = 0,
      g_next_stable_id = 0, g_generation = 0, g_abi = example_abi, g_candidate_identities = [],
      g_candidate_entities = [], g_candidate_types = [], g_next_candidate_generation = 1\<rparr>"

definition example_loaded :: graph where
  "example_loaded = snd (g_import_compiled True True example_compiled no_graph)"

lemma example_loaded_run: "g_import_compiled True True example_compiled no_graph = (Ok, example_loaded)"
  unfolding example_loaded_def by code_simp

lemma example_compiled_size: "length (cg_canonical example_compiled) \<le> u32_max"
  by code_simp

lemma dependency_index_exact_witness:
  "1 \<in> set (g_reverse_dependents example_loaded ! 1) \<longleftrightarrow> 1 \<in> set (g_dependencies example_loaded ! 1)"
proof -
  have "g_rebuild_dependency_index True example_loaded = (Ok, example_loaded)"
    "1 \<le> length (g_types example_loaded)" by code_simp+
  from dependency_index_exact [OF this(1) one_neq_zero this(2)] this(2) show ?thesis by blast
qed

lemma graph_load_type_safe_witness:
  "\<exists>t. denote (g_canonical example_loaded) 23 22 = Some t \<and> (base_user t = 0 \<or> g_type example_loaded (base_user t) \<noteq> None)"
proof -
  have m: "\<lparr>mr_name = 2, mr_type = 22\<rparr> \<in> set (g_members_of example_loaded 1)" by code_simp
  show ?thesis
    using bspec [OF spec [OF conjunct2 [OF conjunct2 [OF graph_load_type_safe [OF example_loaded_run example_compiled_size]]]] m]
    by simp
qed

lemma graph_save_load_witness:
  "g_import_compiled True True (g_export_compiled example_loaded) no_graph = (Ok, example_loaded)"
  by (rule graph_save_load [OF example_loaded_run])

lemma graph_load_refused_witness:
  "g_import_compiled True True (example_compiled\<lparr>cg_identities := [0, 2]\<rparr>) no_graph = (Artifact_corrupt, no_graph)"
proof -
  have "fst (g_import_compiled True True (example_compiled\<lparr>cg_identities := [0, 2]\<rparr>) no_graph) = Artifact_corrupt"
    by code_simp
  then obtain g' where run: "g_import_compiled True True (example_compiled\<lparr>cg_identities := [0, 2]\<rparr>) no_graph = (Artifact_corrupt, g')"
    by (metis prod.collapse)
  have "length (cg_canonical (example_compiled\<lparr>cg_identities := [0, 2]\<rparr>)) \<le> u32_max" by code_simp
  from graph_load_refused [OF run _ this] run show ?thesis by simp
qed


end
