(* ===== verification/GraphCandidate.thy ===== *)
theory GraphCandidate
  imports GraphState
begin

text \<open>
  The candidate of a build, \<^verbatim>\<open>graph_update\<close> of \<^verbatim>\<open>graph/graph.cpp\<close> up to the point where it is
  prepared for publication: the overlays over the committed Graph, the replacement of a Source,
  the declarations, the TypeRefs and the queries of the candidate. The operations act on the
  Graph, the contribution cache and the two updates together, as the C++ objects do through their
  pointers. An allocation takes the next answer of a list of booleans (an empty list answers
  yes), so every point where an exception can arise is a branch. An operation returns its status
  and the state; the output references of the C++ are further components.
\<close>

section \<open>The state of a build\<close>

record graph_update =
  gu_owner :: bool
  gu_changed_identities :: "nat list"
  gu_changed_entities :: "nat list"
  gu_changed_types :: "nat list"
  gu_changed_sources :: "nat list"
  gu_claimed_free :: "nat list"
  gu_added_canonical :: "canonical_type_record list"
  gu_added_named_refs :: "(nat \<times> nat) list"
  gu_added_named_index :: "(nat, nat) umap"
  gu_added_derived_index :: "(derived_type_record, nat) umap"
  gu_next_stable_id :: nat
  gu_next_type_slot :: nat
  gu_base_generation :: u64
  gu_generation :: u64
  gu_full :: bool
  gu_failure :: status_code
  gu_prepared :: bool
  gu_committed :: bool

record build_state =
  bs_graph :: graph
  bs_cache :: source_contribution_cache
  bs_cu :: source_contribution_cache_update
  bs_update :: graph_update
  bs_memory :: "bool list"

definition g_begin_update :: "bool \<Rightarrow> graph \<Rightarrow> graph \<times> graph_update" where
  "g_begin_update full g =
     (let candidate = g_next_candidate_generation g;
          g1 = g\<lparr>g_next_candidate_generation := candidate + 1\<rparr>;
          (candidate, g2) =
            (if candidate = 0
             then (g_next_candidate_generation g1, g1\<lparr>g_next_candidate_generation := g_next_candidate_generation g1 + 1\<rparr>)
             else (candidate, g1))
      in (g2, \<lparr>gu_owner = True, gu_changed_identities = [], gu_changed_entities = [], gu_changed_types = [],
               gu_changed_sources = [], gu_claimed_free = [], gu_added_canonical = [], gu_added_named_refs = [],
               gu_added_named_index = [], gu_added_derived_index = [], gu_next_stable_id = g_next_stable_id g,
               gu_next_type_slot = (if full then 1 else cast_u32 (length (g_types g) + 1)),
               gu_base_generation = g_generation g, gu_generation = candidate, gu_full = full,
               gu_failure = Ok, gu_prepared = False, gu_committed = False\<rparr>))"

text \<open>
  \<open>on_alloc\<close> goes on after a call that may throw, \<open>and_then\<close> after a
  call that returned a status; \<open>failing\<close> is \<^verbatim>\<open>return failure = result\<close> for a result that is not ok.
\<close>

definition on_alloc ::
    "bool \<times> build_state \<Rightarrow> (build_state \<Rightarrow> status_code \<times> build_state) \<Rightarrow> status_code \<times> build_state" where
  "on_alloc r k = (case r of (returned, s) \<Rightarrow> if returned then k s else (Initialization_failed, s))"

definition and_then ::
    "status_code \<times> build_state \<Rightarrow> (build_state \<Rightarrow> status_code \<times> build_state) \<Rightarrow> status_code \<times> build_state" where
  "and_then r k = (case r of (st, s) \<Rightarrow> if st = Ok then k s else (st, s))"

definition set_failure :: "status_code \<Rightarrow> build_state \<Rightarrow> build_state" where
  "set_failure st s = s\<lparr>bs_update := (bs_update s)\<lparr>gu_failure := st\<rparr>\<rparr>"

definition failing :: "status_code \<times> build_state \<Rightarrow> status_code \<times> build_state" where
  "failing r = (case r of (st, s) \<Rightarrow> if st = Ok then (Ok, s) else (st, set_failure st s))"

definition allocate :: "build_state \<Rightarrow> bool \<times> build_state" where
  "allocate s = (case take_alloc (bs_memory s) of (ok, mem) \<Rightarrow> (ok, s\<lparr>bs_memory := mem\<rparr>))"

section \<open>The overlays\<close>

text \<open>
  The common body of the three \<^verbatim>\<open>touch_\<close> routines over a table of tagged slots: whether the
  call returned, the table, whether the index was appended to the list of changes. A slot is tagged
  before the append, so an append that throws leaves a tagged slot that the list does not hold.
\<close>

definition touch_slot ::
    "u64 \<Rightarrow> 'a \<Rightarrow> 'a \<Rightarrow> nat \<Rightarrow> 'a candidate_slot list \<Rightarrow> bool list \<Rightarrow> bool \<times> 'a candidate_slot list \<times> bool \<times> bool list"
where
  "touch_slot g d v i xs mem =
     (let (room, mem) = (if length xs \<le> i then take_alloc mem else (True, mem)) in
      if \<not> room then (False, xs, False, mem)
      else
        let xs = grow (i + 1) (new_slot d) xs in
        if slot_generation (xs ! i) = g then (True, xs, False, mem)
        else
          let xs = xs[i := \<lparr>slot_generation = g, slot_value = v\<rparr>];
              (pushed, mem) = take_alloc mem
          in (pushed, xs, pushed, mem))"

definition new_candidate_entity :: candidate_entity where
  "new_candidate_entity = \<lparr>ce_entity = no_entity, ce_retained_type = 0\<rparr>"

definition new_candidate_type :: candidate_type where
  "new_candidate_type = \<lparr>ct_kind = Candidate_unchanged, ct_value = None, ct_build = None\<rparr>"

definition touch_identity :: "nat \<Rightarrow> build_state \<Rightarrow> bool \<times> build_state" where
  "touch_identity name s =
     (let g = bs_graph s; u = bs_update s;
          v = (if name < length (g_identity g) then g_identity g ! name else 0)
      in case touch_slot (gu_generation u) 0 v name (g_candidate_identities g) (bs_memory s) of
           (returned, xs, new, mem) \<Rightarrow>
             (returned,
              s\<lparr>bs_graph := g\<lparr>g_candidate_identities := xs\<rparr>,
                bs_update := (if new then u\<lparr>gu_changed_identities := gu_changed_identities u @ [name]\<rparr> else u),
                bs_memory := mem\<rparr>))"

definition touch_entity :: "nat \<Rightarrow> build_state \<Rightarrow> bool \<times> build_state" where
  "touch_entity eid s =
     (let g = bs_graph s; u = bs_update s;
          e = (if \<not> gu_full u \<and> eid < length (g_entities g) then g_entities g ! eid else no_entity);
          v = \<lparr>ce_entity = e, ce_retained_type = (if \<not> gu_full u then ee_type e else 0)\<rparr>
      in case touch_slot (gu_generation u) new_candidate_entity v eid (g_candidate_entities g) (bs_memory s) of
           (returned, xs, new, mem) \<Rightarrow>
             (returned,
              s\<lparr>bs_graph := g\<lparr>g_candidate_entities := xs\<rparr>,
                bs_update := (if new then u\<lparr>gu_changed_entities := gu_changed_entities u @ [eid]\<rparr> else u),
                bs_memory := mem\<rparr>))"

definition touch_type :: "nat \<Rightarrow> build_state \<Rightarrow> bool \<times> build_state" where
  "touch_type handle s =
     (let g = bs_graph s; u = bs_update s
      in case touch_slot (gu_generation u) new_candidate_type new_candidate_type handle (g_candidate_types g) (bs_memory s) of
           (returned, xs, new, mem) \<Rightarrow>
             (returned,
              s\<lparr>bs_graph := g\<lparr>g_candidate_types := xs\<rparr>,
                bs_update := (if new then u\<lparr>gu_changed_types := gu_changed_types u @ [handle]\<rparr> else u),
                bs_memory := mem\<rparr>))"

text \<open>Reads and writes through the reference that a \<^verbatim>\<open>touch_\<close> routine returned.\<close>

definition identity_slot :: "nat \<Rightarrow> build_state \<Rightarrow> nat" where
  "identity_slot name s = slot_value (g_candidate_identities (bs_graph s) ! name)"

definition entity_slot :: "nat \<Rightarrow> build_state \<Rightarrow> candidate_entity" where
  "entity_slot eid s = slot_value (g_candidate_entities (bs_graph s) ! eid)"

definition type_slot :: "nat \<Rightarrow> build_state \<Rightarrow> candidate_type" where
  "type_slot handle s = slot_value (g_candidate_types (bs_graph s) ! handle)"

definition write_slot :: "nat \<Rightarrow> 'a \<Rightarrow> 'a candidate_slot list \<Rightarrow> 'a candidate_slot list" where
  "write_slot i v xs = xs[i := (xs ! i)\<lparr>slot_value := v\<rparr>]"

definition put_identity :: "nat \<Rightarrow> nat \<Rightarrow> build_state \<Rightarrow> build_state" where
  "put_identity name v s =
     s\<lparr>bs_graph := (bs_graph s)\<lparr>g_candidate_identities := write_slot name v (g_candidate_identities (bs_graph s))\<rparr>\<rparr>"

definition put_entity :: "nat \<Rightarrow> entity_entry \<Rightarrow> build_state \<Rightarrow> build_state" where
  "put_entity eid e s =
     s\<lparr>bs_graph := (bs_graph s)\<lparr>g_candidate_entities :=
         write_slot eid ((entity_slot eid s)\<lparr>ce_entity := e\<rparr>) (g_candidate_entities (bs_graph s))\<rparr>\<rparr>"

definition put_type :: "nat \<Rightarrow> candidate_type \<Rightarrow> build_state \<Rightarrow> build_state" where
  "put_type handle t s =
     s\<lparr>bs_graph := (bs_graph s)\<lparr>g_candidate_types := write_slot handle t (g_candidate_types (bs_graph s))\<rparr>\<rparr>"

text \<open>\<^verbatim>\<open>contributions->touch_entity\<close> and the construction state it refers to.\<close>

definition touch_construction :: "nat \<Rightarrow> build_state \<Rightarrow> bool \<times> build_state" where
  "touch_construction eid s =
     (let (m1, mem) = take_alloc (bs_memory s); (m2, mem) = take_alloc mem
      in case cu_touch_entity m1 m2 (bs_cache s) (bs_cu s) eid of
           (returned, c, u) \<Rightarrow> (returned, s\<lparr>bs_cache := c, bs_cu := u, bs_memory := mem\<rparr>))"

definition construction :: "nat \<Rightarrow> build_state \<Rightarrow> canonical_entity_construction_state" where
  "construction eid s = slot_value (cc_candidate_entities (bs_cache s) ! eid)"

definition put_construction :: "nat \<Rightarrow> canonical_entity_construction_state \<Rightarrow> build_state \<Rightarrow> build_state" where
  "put_construction eid a s = s\<lparr>bs_cache := cu_write_entity (bs_cache s) eid a\<rparr>"

section \<open>TypeRefs of the candidate\<close>

text \<open>
  How many of \<open>n\<close> successive appends succeed, and what is left of the answers. The appends of a new
  TypeRef are the record, then the entries of its index.
\<close>

fun take_allocs :: "nat \<Rightarrow> bool list \<Rightarrow> nat \<times> bool list" where
  "take_allocs 0 mem = (0, mem)"
| "take_allocs (Suc n) mem =
     (case take_alloc mem of (ok, mem) \<Rightarrow>
        if ok then (case take_allocs n mem of (k, mem) \<Rightarrow> (Suc k, mem)) else (0, mem))"

definition next_type_ref :: "build_state \<Rightarrow> nat" where
  "next_type_ref s = length (g_canonical (bs_graph s)) + length (gu_added_canonical (bs_update s))"

definition gu_named_type_ref :: "nat \<Rightarrow> build_state \<Rightarrow> status_code \<times> nat \<times> build_state" where
  "gu_named_type_ref handle s =
     (let g = bs_graph s; u = bs_update s in
      if handle = 0 then (Configuration_failed, 0, s)
      else if \<not> gu_full u \<and> handle < length (g_named_type_refs g) \<and> g_named_type_refs g ! handle \<noteq> 0
      then (Ok, g_named_type_refs g ! handle, s)
      else
        case map_of (gu_added_named_index u) handle of
          Some ref \<Rightarrow> (Ok, ref, s)
        | None \<Rightarrow>
            let raw = next_type_ref s in
            if u32_max < raw then (Initialization_failed, 0, set_failure Initialization_failed s)
            else
              case take_allocs 3 (bs_memory s) of (k, mem) \<Rightarrow>
                let u1 = (if 1 \<le> k then u\<lparr>gu_added_canonical := gu_added_canonical u @ [Canonical_named handle]\<rparr> else u);
                    u2 = (if 2 \<le> k then u1\<lparr>gu_added_named_refs := gu_added_named_refs u1 @ [(handle, raw)]\<rparr> else u1);
                    u3 = (if 3 \<le> k then u2\<lparr>gu_added_named_index := um_emplace handle raw (gu_added_named_index u2)\<rparr> else u2);
                    s' = s\<lparr>bs_update := u3, bs_memory := mem\<rparr>
                in if 3 \<le> k then (Ok, raw, s') else (Initialization_failed, raw, set_failure Initialization_failed s'))"

definition gu_derived_type_ref ::
    "derived_type_kind \<Rightarrow> nat \<Rightarrow> u64 \<Rightarrow> build_state \<Rightarrow> status_code \<times> nat \<times> build_state" where
  "gu_derived_type_ref kind child payload s =
     (let g = bs_graph s; u = bs_update s;
          key = \<lparr>dt_kind = kind, dt_child = child, dt_payload = payload\<rparr> in
      if child = 0 \<or> (kind \<noteq> Derived_array \<and> payload \<noteq> 0) \<or> (kind = Derived_array \<and> payload = 0)
      then (Configuration_failed, 0, set_failure Configuration_failed s)
      else
        case map_of (gu_added_derived_index u) key of
          Some ref \<Rightarrow> (Ok, ref, s)
        | None \<Rightarrow>
            if \<not> gu_full u \<and> map_of (g_derived_index g) key \<noteq> None
            then (Ok, the (map_of (g_derived_index g) key), s)
            else
              let raw = next_type_ref s in
              if u32_max < raw then (Initialization_failed, 0, set_failure Initialization_failed s)
              else
                case take_allocs 2 (bs_memory s) of (k, mem) \<Rightarrow>
                  let u1 = (if 1 \<le> k then u\<lparr>gu_added_canonical := gu_added_canonical u @ [Canonical_derived key]\<rparr> else u);
                      u2 = (if 2 \<le> k then u1\<lparr>gu_added_derived_index := um_emplace key raw (gu_added_derived_index u1)\<rparr> else u1);
                      s' = s\<lparr>bs_update := u2, bs_memory := mem\<rparr>
                  in if 2 \<le> k then (Ok, raw, s') else (Initialization_failed, raw, set_failure Initialization_failed s'))"

section \<open>Contributions\<close>

record enum_value_build =
  evb_name :: nat
  evb_value :: integral_constant

record enum_build_data =
  eb_definition_state :: enum_definition_state
  eb_scoped :: bool
  eb_explicit_underlying :: "builtin_type option"
  eb_enumerators :: "enum_value_build list"

definition new_contribution_record :: source_contribution_record where
  "new_contribution_record =
     \<lparr>cr_entity = 0, cr_name = 0, cr_kind = Enum_type, cr_state = Enum_opaque, cr_scoped = False,
      cr_fixed = False, cr_underlying = Integer, cr_definition = None\<rparr>"

definition convert_enum_value ::
    "abi_configuration \<Rightarrow> builtin_type \<Rightarrow> enum_value_build \<Rightarrow> enum_value_record option" where
  "convert_enum_value abi underlying item =
     (let v = evb_value item; width = builtin_bit_width (constant_type v) abi in
      if evb_name item = 0 \<or> \<not> is_integral (constant_type v) \<or> width = 0 \<or> 64 < width \<or>
         constant_bits v AND NOT (bit_mask width) \<noteq> 0 \<or> \<not> fits_integral v underlying abi
      then None
      else Some \<lparr>enum_value_name = evb_name item, enum_value_bits = convert_integral v underlying abi\<rparr>)"

definition enum_underlying ::
    "abi_configuration \<Rightarrow> enum_build_data \<Rightarrow> status_code \<times> builtin_type" where
  "enum_underlying abi data =
     (case eb_explicit_underlying data of
        Some t \<Rightarrow> if \<not> is_integral t then (Configuration_failed, Integer) else (Ok, t)
      | None \<Rightarrow>
          if eb_scoped data then (Ok, Integer)
          else if eb_definition_state data = Enum_opaque then (Configuration_failed, Integer)
          else
            case select_unscoped_enum_underlying (map evb_value (eb_enumerators data)) abi of
              (st, None) \<Rightarrow> (st, Integer)
            | (st, Some t) \<Rightarrow> (st, t))"

definition gu_build_contribution ::
    "bool \<Rightarrow> abi_configuration \<Rightarrow> enum_build_data \<Rightarrow> source_contribution_record
     \<Rightarrow> status_code \<times> source_contribution_record" where
  "gu_build_contribution mem abi data out =
     (let out = out\<lparr>cr_kind := Enum_type\<rparr> in
      if eb_definition_state data = Enum_opaque \<and> eb_enumerators data \<noteq> [] then (Configuration_failed, out)
      else
        case enum_underlying abi data of (st, underlying) \<Rightarrow>
          if st \<noteq> Ok then (st, out)
          else
            let filled = out\<lparr>cr_state := eb_definition_state data, cr_scoped := eb_scoped data,
                            cr_fixed := eb_explicit_underlying data \<noteq> None \<or> eb_scoped data,
                            cr_underlying := underlying\<rparr> in
            if eb_definition_state data \<noteq> Enum_defined then (Ok, filled\<lparr>cr_definition := None\<rparr>)
            else if \<not> mem then (Initialization_failed, out)
            else
              case those (map (convert_enum_value abi underlying) (eb_enumerators data)) of
                None \<Rightarrow> (Configuration_failed, out)
              | Some vs \<Rightarrow>
                  (Ok, filled\<lparr>cr_definition := Some \<lparr>payload_underlying = underlying, payload_values = vs\<rparr>\<rparr>))"

text \<open>
  The construction state of an entity counts its contributions. \<open>add_contribution\<close> refuses one that
  would break the one-definition rule; the counters are 32 bits wide.
\<close>

definition bump :: "nat \<Rightarrow> u32 \<Rightarrow> u32 list \<Rightarrow> u32 list" where
  "bump i d xs = xs[i := xs ! i + d]"

definition enum_refused :: "source_contribution_record \<Rightarrow> canonical_entity_construction_state \<Rightarrow> bool" where
  "enum_refused c a \<longleftrightarrow>
     ec_aggregate_declarations a \<noteq> 0 \<or> ec_aggregate_definitions a \<noteq> 0 \<or>
     ec_declarations a \<noteq> 0 \<and>
       (cr_scoped c \<and> ec_unscoped a \<noteq> 0 \<or> \<not> cr_scoped c \<and> ec_scoped a \<noteq> 0 \<or>
        cr_fixed c \<and> ec_nonfixed a \<noteq> 0 \<or> \<not> cr_fixed c \<and> ec_fixed a \<noteq> 0) \<or>
     cr_fixed c \<and> ec_active_fixed a \<noteq> 0 \<and> ec_underlying a ! builtin_code (cr_underlying c) = 0 \<or>
     cr_state c = Enum_defined \<and> ec_definitions a \<noteq> 0"

definition count_enum ::
    "nat \<Rightarrow> source_contribution_record \<Rightarrow> canonical_entity_construction_state \<Rightarrow> canonical_entity_construction_state" where
  "count_enum source c a =
     (let i = builtin_code (cr_underlying c);
          first = (cr_fixed c \<and> ec_underlying a ! i = 0);
          defined = (cr_state c = Enum_defined)
      in a\<lparr>ec_declarations := ec_declarations a + 1,
           ec_scoped := (if cr_scoped c then ec_scoped a + 1 else ec_scoped a),
           ec_unscoped := (if cr_scoped c then ec_unscoped a else ec_unscoped a + 1),
           ec_fixed := (if cr_fixed c then ec_fixed a + 1 else ec_fixed a),
           ec_nonfixed := (if cr_fixed c then ec_nonfixed a else ec_nonfixed a + 1),
           ec_underlying := (if cr_fixed c then bump i 1 (ec_underlying a) else ec_underlying a),
           ec_active_fixed := (if first then ec_active_fixed a + 1 else ec_active_fixed a),
           ec_active_type := (if first then cr_underlying c else ec_active_type a),
           ec_definitions := (if defined then 1 else ec_definitions a),
           ec_definition_source := (if defined then source else ec_definition_source a),
           ec_definition := (if defined then cr_definition c else ec_definition a)\<rparr>)"

definition add_contribution ::
    "nat \<Rightarrow> source_contribution_record \<Rightarrow> canonical_entity_construction_state
     \<Rightarrow> canonical_entity_construction_state option" where
  "add_contribution source c a =
     (if cr_kind c = Aggregate_type then
        (if ec_declarations a \<noteq> 0 then None
         else if cr_state c = Enum_defined then
           (if ec_aggregate_definitions a \<noteq> 0 then None
            else Some (a\<lparr>ec_aggregate_definitions := 1, ec_aggregate_definition_source := source\<rparr>))
         else Some (a\<lparr>ec_aggregate_declarations := ec_aggregate_declarations a + 1\<rparr>))
      else if enum_refused c a then None
      else Some (count_enum source c a))"

definition uncount_enum ::
    "source_contribution_record \<Rightarrow> canonical_entity_construction_state \<Rightarrow> canonical_entity_construction_state" where
  "uncount_enum c a =
     (let i = builtin_code (cr_underlying c);
          counts = (if cr_fixed c then bump i (- 1) (ec_underlying a) else ec_underlying a);
          defined = (cr_state c = Enum_defined)
      in a\<lparr>ec_declarations := ec_declarations a - 1,
           ec_scoped := (if cr_scoped c then ec_scoped a - 1 else ec_scoped a),
           ec_unscoped := (if cr_scoped c then ec_unscoped a else ec_unscoped a - 1),
           ec_fixed := (if cr_fixed c then ec_fixed a - 1 else ec_fixed a),
           ec_nonfixed := (if cr_fixed c then ec_nonfixed a else ec_nonfixed a - 1),
           ec_underlying := counts,
           ec_active_fixed := (if cr_fixed c \<and> counts ! i = 0 then ec_active_fixed a - 1 else ec_active_fixed a),
           ec_definitions := (if defined then 0 else ec_definitions a),
           ec_definition := (if defined then None else ec_definition a),
           ec_definition_source := (if defined then 0 else ec_definition_source a)\<rparr>)"

definition remove_contribution ::
    "source_contribution_record \<Rightarrow> canonical_entity_construction_state \<Rightarrow> canonical_entity_construction_state" where
  "remove_contribution c a =
     (if cr_kind c = Aggregate_type then
        (if cr_state c = Enum_defined
         then a\<lparr>ec_aggregate_definitions := 0, ec_aggregate_definition_source := 0\<rparr>
         else a\<lparr>ec_aggregate_declarations := ec_aggregate_declarations a - 1\<rparr>)
      else uncount_enum c a)"

definition gu_add_delta ::
    "nat \<Rightarrow> nat \<Rightarrow> source_contribution_record \<Rightarrow> build_state \<Rightarrow> status_code \<times> build_state" where
  "gu_add_delta source eid c s =
     on_alloc (touch_construction eid s) (\<lambda>s.
       case add_contribution source c (construction eid s) of
         None \<Rightarrow> (Configuration_failed, s)
       | Some a \<Rightarrow> (Ok, put_construction eid a s))"


section \<open>Materialization\<close>

text \<open>The candidate entry of an entity, and the type slot it is given.\<close>

definition gu_new_type_slot :: "build_state \<Rightarrow> nat \<times> build_state" where
  "gu_new_type_slot s =
     (let u = bs_update s in
      (gu_next_type_slot u, s\<lparr>bs_update := u\<lparr>gu_next_type_slot := cast_u32 (gu_next_type_slot u + 1)\<rparr>\<rparr>))"

text \<open>The free slots are claimed from the back; the claim is recorded by an append that may throw.\<close>

definition gu_claim_free_slot :: "build_state \<Rightarrow> bool \<times> nat \<times> build_state" where
  "gu_claim_free_slot s =
     (let u = bs_update s; free = g_free_type_slots (bs_graph s);
          handle = free ! (length free - 1 - length (gu_claimed_free u))
      in case allocate s of (ok, s) \<Rightarrow>
           (ok, handle, if ok then s\<lparr>bs_update := u\<lparr>gu_claimed_free := gu_claimed_free u @ [handle]\<rparr>\<rparr> else s))"

definition gu_type_slot_for :: "nat \<Rightarrow> build_state \<Rightarrow> bool \<times> nat \<times> build_state" where
  "gu_type_slot_for eid s =
     (let e = ce_entity (entity_slot eid s); u = bs_update s in
      if ee_type e \<noteq> 0 then (True, ee_type e, s)
      else
        case (if \<not> gu_full u \<and> eid \<noteq> 0 then touch_entity eid s else (True, s)) of
          (False, s) \<Rightarrow> (False, 0, s)
        | (True, s) \<Rightarrow>
            if \<not> gu_full u \<and> eid \<noteq> 0 \<and> ce_retained_type (entity_slot eid s) \<noteq> 0
            then (True, ce_retained_type (entity_slot eid s),
                  put_entity eid (e\<lparr>ee_type := ce_retained_type (entity_slot eid s)\<rparr>) s)
            else
              case (if \<not> gu_full u \<and> length (gu_claimed_free (bs_update s)) < length (g_free_type_slots (bs_graph s))
                    then gu_claim_free_slot s
                    else case gu_new_type_slot s of (h, s) \<Rightarrow> (True, h, s)) of
                (ok, h, s) \<Rightarrow> (ok, h, if ok then put_entity eid (e\<lparr>ee_type := h\<rparr>) s else s))"

definition gu_assign_type :: "nat \<Rightarrow> type_entry \<Rightarrow> build_state \<Rightarrow> status_code \<times> build_state" where
  "gu_assign_type eid t s =
     (case gu_type_slot_for eid s of (ok, handle, s) \<Rightarrow>
        if \<not> ok then (Initialization_failed, s)
        else
          on_alloc (touch_type handle s) (\<lambda>s.
            let s = put_type handle ((type_slot handle s)\<lparr>ct_kind := Candidate_replacement, ct_value := Some t\<rparr>) s
            in case gu_named_type_ref (ee_type (ce_entity (entity_slot eid s))) s of (st, ref, s) \<Rightarrow> (st, s)))"

definition no_build :: type_build_state where
  "no_build = \<lparr>tb_enumerators = [], tb_members = [], tb_pending_members = [], tb_pending_modifiers = [],
               tb_definition_pending = False\<rparr>"

text \<open>
  The members an aggregate was given earlier in the same build survive a second declaration: they are
  moved to the new construction state, which leaves the old one without them.
\<close>

definition gu_take_members :: "nat \<Rightarrow> type_build_state \<Rightarrow> build_state \<Rightarrow> type_build_state \<times> build_state" where
  "gu_take_members handle b s =
     (let slots = g_candidate_types (bs_graph s) in
      if handle = 0 \<or> length slots \<le> handle \<or> slot_generation (slots ! handle) \<noteq> gu_generation (bs_update s)
      then (b, s)
      else
        let old = type_slot handle s in
        case (ct_kind old, ct_value old, ct_build old) of
          (Candidate_replacement, Some v, Some ob) \<Rightarrow>
            if te_kind v = Type_aggregate
            then (b\<lparr>tb_members := tb_members ob, tb_pending_members := tb_pending_members ob,
                    tb_pending_modifiers := tb_pending_modifiers ob\<rparr>,
                  put_type handle
                    (old\<lparr>ct_build := Some (ob\<lparr>tb_members := [], tb_pending_members := [], tb_pending_modifiers := []\<rparr>)\<rparr>) s)
            else (b, s)
        | _ \<Rightarrow> (b, s))"

definition gu_put_build :: "nat \<Rightarrow> type_build_state \<Rightarrow> build_state \<Rightarrow> build_state" where
  "gu_put_build eid b s =
     (let handle = ee_type (ce_entity (entity_slot eid s)) in
      put_type handle ((type_slot handle s)\<lparr>ct_build := Some b\<rparr>) s)"

definition gu_remove_entity :: "nat \<Rightarrow> build_state \<Rightarrow> status_code \<times> build_state" where
  "gu_remove_entity eid s =
     (let e = ce_entity (entity_slot eid s) in
      on_alloc (if entity_live e \<and> ee_type e \<noteq> 0 then touch_type (ee_type e) s else (True, s)) (\<lambda>s.
        let s = (if entity_live e \<and> ee_type e \<noteq> 0
                 then put_type (ee_type e) ((type_slot (ee_type e) s)\<lparr>ct_kind := Candidate_removed, ct_value := None\<rparr>) s
                 else s)
        in (Ok, put_entity eid no_entity s)))"

definition aggregate_entry :: type_entry where
  "aggregate_entry = default_type_entry\<lparr>te_kind := Type_aggregate\<rparr>"

definition enumeration_entry :: "bool \<Rightarrow> bool \<Rightarrow> builtin_type \<Rightarrow> type_entry" where
  "enumeration_entry scoped fixed_underlying underlying =
     default_type_entry\<lparr>te_kind := Type_enumeration,
       te_enumeration := \<lparr>en_scoped = scoped, en_fixed_underlying = fixed_underlying, en_underlying = underlying\<rparr>\<rparr>"

definition gu_materialize_aggregate ::
    "nat \<Rightarrow> canonical_entity_construction_state \<Rightarrow> build_state \<Rightarrow> status_code \<times> build_state" where
  "gu_materialize_aggregate eid a s =
     on_alloc (allocate s) (\<lambda>s.
       let b = no_build\<lparr>tb_definition_pending := ec_aggregate_definitions a \<noteq> 0\<rparr>;
           e = ce_entity (entity_slot eid s)
       in case gu_take_members (ee_type e) b s of (b, s) \<Rightarrow>
            let s = put_entity eid (e\<lparr>ee_kind := Aggregate_type\<rparr>) s in
            and_then (gu_assign_type eid aggregate_entry s) (\<lambda>s. (Ok, gu_put_build eid b s)))"

text \<open>A defined enumeration has its payload; \<open>the\<close> is the dereference of its pointer.\<close>

definition gu_materialize_enumeration ::
    "nat \<Rightarrow> canonical_entity_construction_state \<Rightarrow> build_state \<Rightarrow> status_code \<times> build_state" where
  "gu_materialize_enumeration eid a s =
     (let defined = ec_definitions a \<noteq> 0;
          underlying = (if defined then payload_underlying (the (ec_definition a)) else ec_active_type a);
          t = enumeration_entry (ec_scoped a \<noteq> 0) (ec_fixed a \<noteq> 0) underlying
      in on_alloc (allocate s) (\<lambda>s.
           on_alloc (if defined then allocate s else (True, s)) (\<lambda>s.
             let b = no_build\<lparr>tb_definition_pending := defined,
                              tb_enumerators := (if defined then payload_values (the (ec_definition a)) else [])\<rparr>;
                 s = put_entity eid ((ce_entity (entity_slot eid s))\<lparr>ee_kind := Enum_type\<rparr>) s
             in and_then (gu_assign_type eid t s) (\<lambda>s. (Ok, gu_put_build eid b s)))))"

definition gu_materialize :: "nat \<Rightarrow> nat \<Rightarrow> build_state \<Rightarrow> status_code \<times> build_state" where
  "gu_materialize eid name s =
     on_alloc (touch_entity eid s) (\<lambda>s.
     on_alloc (touch_construction eid s) (\<lambda>s.
       let a = construction eid s in
       if ec_declarations a = 0 \<and> ec_aggregate_declarations a = 0 \<and> ec_aggregate_definitions a = 0
       then gu_remove_entity eid s
       else
         on_alloc (allocate s) (\<lambda>s.
           let s = put_entity eid ((ce_entity (entity_slot eid s))\<lparr>ee_name := name\<rparr>) s in
           on_alloc (touch_identity name s) (\<lambda>s.
             let s = put_identity name eid s in
             if ec_aggregate_declarations a \<noteq> 0 \<or> ec_aggregate_definitions a \<noteq> 0
             then gu_materialize_aggregate eid a s
             else gu_materialize_enumeration eid a s))))"

definition gu_remove_delta ::
    "nat \<Rightarrow> source_contribution_record \<Rightarrow> build_state \<Rightarrow> status_code \<times> build_state" where
  "gu_remove_delta source c s =
     (let eid = cr_entity c in
      on_alloc (touch_entity eid s) (\<lambda>s.
      on_alloc (touch_construction eid s) (\<lambda>s.
        let s = put_construction eid (remove_contribution c (construction eid s)) s
        in gu_materialize eid (ee_name (ce_entity (entity_slot eid s))) s)))"


section \<open>Replacing a Source\<close>

fun gu_remove_deltas ::
    "nat \<Rightarrow> source_contribution_record list \<Rightarrow> build_state \<Rightarrow> status_code \<times> build_state" where
  "gu_remove_deltas source [] s = (Ok, s)"
| "gu_remove_deltas source (c # cs) s =
     and_then (failing (gu_remove_delta source c s)) (gu_remove_deltas source cs)"

fun gu_remove_types :: "nat list \<Rightarrow> build_state \<Rightarrow> status_code \<times> build_state" where
  "gu_remove_types [] s = (Ok, s)"
| "gu_remove_types (handle # handles) s =
     and_then
       (failing (on_alloc (touch_type handle s) (\<lambda>s.
          (Ok, put_type handle ((type_slot handle s)\<lparr>ct_kind := Candidate_removed, ct_value := None\<rparr>) s))))
       (gu_remove_types handles)"

definition gu_usable :: "build_state \<Rightarrow> bool" where
  "gu_usable s \<longleftrightarrow> gu_owner (bs_update s) \<and> \<not> gu_prepared (bs_update s) \<and> \<not> gu_committed (bs_update s)"

definition gu_begin_source_replacement :: "nat \<Rightarrow> build_state \<Rightarrow> status_code \<times> build_state" where
  "gu_begin_source_replacement source s =
     (let u = bs_update s in
      if gu_failure u \<noteq> Ok then (gu_failure u, s)
      else if \<not> gu_usable s \<or> source = 0 then (Invalid_state, set_failure Invalid_state s)
      else if cu_was_replaced (bs_cache s) (bs_cu s) source then (Ok, s)
      else
        let previous = cu_committed_state (bs_cache s) (bs_cu s) source;
            (m1, mem) = take_alloc (bs_memory s); (m2, mem) = take_alloc mem
        in case cu_replace m1 m2 (bs_cache s) (bs_cu s) source of
             (st, c, cu) \<Rightarrow>
               let s = s\<lparr>bs_cache := c, bs_cu := cu, bs_memory := mem\<rparr> in
               if st \<noteq> Ok then (st, set_failure st s)
               else
                 failing (on_alloc (allocate s) (\<lambda>s.
                   let u = bs_update s;
                       s = s\<lparr>bs_update := u\<lparr>gu_changed_sources := gu_changed_sources u @ [source]\<rparr>\<rparr>
                   in case previous of
                        None \<Rightarrow> (Ok, s)
                      | Some p \<Rightarrow>
                          if gu_full u then (Ok, s)
                          else and_then (gu_remove_deltas source (sc_named p) s) (gu_remove_types (sc_anonymous_types p)))))"

section \<open>Declarations\<close>

text \<open>The entity of a name: its reserved identifier, or the next one.\<close>

definition gu_entity_id :: "nat \<Rightarrow> build_state \<Rightarrow> nat option \<times> build_state" where
  "gu_entity_id name s =
     (let g = bs_graph s; u = bs_update s;
          eid = (if identity_slot name s = 0 \<and> name < length (g_identity g) then g_identity g ! name
                 else identity_slot name s)
      in if eid \<noteq> 0 then (Some eid, s)
         else if gu_next_stable_id u = 0 then (None, s)
         else (Some (gu_next_stable_id u),
               put_identity name (gu_next_stable_id u)
                 (s\<lparr>bs_update := u\<lparr>gu_next_stable_id := cast_u32 (gu_next_stable_id u + 1)\<rparr>\<rparr>)))"

text \<open>\<^verbatim>\<open>candidate(source)->named.push_back\<close>, through the pointer to the tagged slot.\<close>

definition push_named :: "nat \<Rightarrow> source_contribution_record \<Rightarrow> build_state \<Rightarrow> bool \<times> build_state" where
  "push_named source c s =
     (case allocate s of (ok, s) \<Rightarrow>
        case cu_candidate (bs_cache s) (bs_cu s) source of
          None \<Rightarrow> (ok, s)
        | Some st \<Rightarrow>
            (ok, if ok then s\<lparr>bs_cache := cu_write (bs_cache s) source (st\<lparr>sc_named := sc_named st @ [c]\<rparr>)\<rparr> else s))"

definition push_anonymous :: "nat \<Rightarrow> nat \<Rightarrow> build_state \<Rightarrow> bool \<times> build_state" where
  "push_anonymous source handle s =
     (case allocate s of (ok, s) \<Rightarrow>
        case cu_candidate (bs_cache s) (bs_cu s) source of
          None \<Rightarrow> (ok, s)
        | Some st \<Rightarrow>
            (ok, if ok then s\<lparr>bs_cache := cu_write (bs_cache s) source
                               (st\<lparr>sc_anonymous_types := sc_anonymous_types st @ [handle]\<rparr>)\<rparr> else s))"

text \<open>
  What the two declarations share: the Source is begun, the name gets its entity, the contribution
  made for that entity is counted, recorded and materialized. \<open>contribute\<close> is the contribution, or the
  status with which it is refused.
\<close>

definition gu_declare ::
    "nat \<Rightarrow> nat \<Rightarrow> (nat \<Rightarrow> build_state \<Rightarrow> (status_code \<times> source_contribution_record) \<times> build_state)
     \<Rightarrow> build_state \<Rightarrow> status_code \<times> nat \<times> nat \<times> build_state"
where
  "gu_declare name source contribute s =
     (if gu_failure (bs_update s) \<noteq> Ok then (gu_failure (bs_update s), 0, 0, s)
      else if \<not> gu_usable s \<or> name = 0 \<or> source = 0 then (Invalid_state, 0, 0, s)
      else
        case failing (and_then (gu_begin_source_replacement source s) (\<lambda>s.
               on_alloc (touch_identity name s) (\<lambda>s. (Ok, s)))) of
          (st, s) \<Rightarrow>
            if st \<noteq> Ok then (st, 0, 0, s)
            else
              case gu_entity_id name s of
                (None, s) \<Rightarrow> (Initialization_failed, 0, 0, set_failure Initialization_failed s)
              | (Some eid, s) \<Rightarrow>
                  case contribute eid s of ((st, c), s) \<Rightarrow>
                    if st \<noteq> Ok then (st, 0, 0, set_failure st s)
                    else
                      case failing (and_then (gu_add_delta source eid c s) (\<lambda>s.
                             on_alloc (push_named source c s) (\<lambda>s.
                               and_then (gu_materialize eid name s) (\<lambda>s.
                                 on_alloc (touch_entity eid s) (\<lambda>s. (Ok, s)))))) of
                        (st, s) \<Rightarrow>
                          if st \<noteq> Ok then (st, 0, 0, s)
                          else (Ok, eid, ee_type (ce_entity (entity_slot eid s)), s))"

definition make_enum_contribution ::
    "nat \<Rightarrow> enum_build_data \<Rightarrow> nat \<Rightarrow> build_state \<Rightarrow> (status_code \<times> source_contribution_record) \<times> build_state" where
  "make_enum_contribution name data eid s =
     (case allocate s of (ok, s) \<Rightarrow>
        (gu_build_contribution ok (g_abi (bs_graph s)) data (new_contribution_record\<lparr>cr_entity := eid, cr_name := name\<rparr>), s))"

definition gu_declare_named_enum ::
    "nat \<Rightarrow> nat \<Rightarrow> enum_build_data \<Rightarrow> build_state \<Rightarrow> status_code \<times> nat \<times> nat \<times> build_state" where
  "gu_declare_named_enum name source data s = gu_declare name source (make_enum_contribution name data) s"

definition make_type_contribution ::
    "nat \<Rightarrow> aggregate_definition_state \<Rightarrow> nat \<Rightarrow> build_state \<Rightarrow> (status_code \<times> source_contribution_record) \<times> build_state" where
  "make_type_contribution name state eid s =
     ((Ok, new_contribution_record\<lparr>cr_entity := eid, cr_name := name, cr_kind := Aggregate_type,
             cr_state := (if state = Aggregate_defined then Enum_defined else Enum_opaque)\<rparr>), s)"

definition gu_declare_named_type ::
    "nat \<Rightarrow> nat \<Rightarrow> aggregate_definition_state \<Rightarrow> build_state \<Rightarrow> status_code \<times> nat \<times> nat \<times> build_state" where
  "gu_declare_named_type name source state s = gu_declare name source (make_type_contribution name state) s"

text \<open>
  An anonymous enumeration belongs to its Source alone. Unlike \<open>gu_assign_type\<close> it claims a free slot
  of the committed Graph in a full reconstruction too.
\<close>

definition gu_add_anonymous_enum :: "nat \<Rightarrow> enum_build_data \<Rightarrow> build_state \<Rightarrow> status_code \<times> nat \<times> build_state" where
  "gu_add_anonymous_enum source data s =
     (if gu_failure (bs_update s) \<noteq> Ok then (gu_failure (bs_update s), 0, s)
      else if \<not> gu_usable s \<or> source = 0 then (Invalid_state, 0, s)
      else
        case failing (gu_begin_source_replacement source s) of (st, s) \<Rightarrow>
          if st \<noteq> Ok then (st, 0, s)
          else
            case allocate s of (ok, s) \<Rightarrow>
            case gu_build_contribution ok (g_abi (bs_graph s)) data new_contribution_record of (st, c) \<Rightarrow>
              if st \<noteq> Ok then (st, 0, set_failure st s)
              else if eb_definition_state data \<noteq> Enum_defined
              then (Configuration_failed, 0, set_failure Configuration_failed s)
              else
                let t = enumeration_entry (eb_scoped data) (cr_fixed c) (cr_underlying c);
                    b = no_build\<lparr>tb_definition_pending := True, tb_enumerators := payload_values (the (cr_definition c))\<rparr>
                in case allocate s of (ok, s) \<Rightarrow>
                   case (if \<not> ok then (False, 0, s)
                         else if length (gu_claimed_free (bs_update s)) < length (g_free_type_slots (bs_graph s))
                         then gu_claim_free_slot s
                         else case gu_new_type_slot s of (h, s) \<Rightarrow> (True, h, s)) of
                     (ok, handle, s) \<Rightarrow>
                       case failing (on_alloc (ok, s) (\<lambda>s. on_alloc (touch_type handle s) (\<lambda>s.
                              let s = put_type handle
                                        ((type_slot handle s)\<lparr>ct_kind := Candidate_replacement, ct_value := Some t, ct_build := Some b\<rparr>) s
                              in on_alloc (push_anonymous source handle s) (\<lambda>s. (Ok, s))))) of
                         (st, s) \<Rightarrow> (st, if st = Ok then handle else 0, s))"


section \<open>Members\<close>

text \<open>One member of the input: a name not seen before, one base, and modifiers inside the input.\<close>

definition member_ok :: "nat \<Rightarrow> nat list \<Rightarrow> member_build \<Rightarrow> bool" where
  "member_ok modifiers names m \<longleftrightarrow>
     mb_name m \<noteq> 0 \<and> (mb_builtin m \<noteq> None) \<noteq> (mb_user_type_name m \<noteq> 0) \<and> mb_name m \<notin> set names \<and>
     mb_modifier_offset m \<le> modifiers \<and> mb_modifier_count m \<le> modifiers - mb_modifier_offset m"

fun build_members_ok :: "nat \<Rightarrow> nat list \<Rightarrow> member_build list \<Rightarrow> bool" where
  "build_members_ok modifiers names [] \<longleftrightarrow> True"
| "build_members_ok modifiers names (m # ms) \<longleftrightarrow> member_ok modifiers names m \<and> build_members_ok modifiers (mb_name m # names) ms"

text \<open>The single \<open>allocate\<close> stands for the copies of the members and of the modifiers.\<close>

definition gu_define_members ::
    "nat \<Rightarrow> member_build list \<Rightarrow> type_modifier_build list \<Rightarrow> build_state \<Rightarrow> status_code \<times> build_state" where
  "gu_define_members handle members modifiers s =
     (if handle = 0 then (Invalid_state, s)
      else
        failing (on_alloc (touch_type handle s) (\<lambda>s.
          let t = type_slot handle s in
          case (ct_value t, ct_build t) of
            (Some v, Some b) \<Rightarrow>
              if ct_kind t \<noteq> Candidate_replacement \<or> te_kind v \<noteq> Type_aggregate \<or> \<not> tb_definition_pending b
              then (Configuration_failed, s)
              else
                on_alloc (allocate s) (\<lambda>s.
                  if \<not> build_members_ok (length modifiers) [] members then (Configuration_failed, s)
                  else
                    (Ok, put_type handle (t\<lparr>ct_build := Some (b\<lparr>tb_pending_members := members,
                           tb_pending_modifiers := modifiers, tb_members := []\<rparr>)\<rparr>) s))
          | _ \<Rightarrow> (Configuration_failed, s))))"

section \<open>Queries of the candidate\<close>

definition overlay :: "u64 \<Rightarrow> 'a candidate_slot list \<Rightarrow> nat \<Rightarrow> 'a option" where
  "overlay g xs i = (if i < length xs \<and> slot_generation (xs ! i) = g then Some (slot_value (xs ! i)) else None)"

definition gu_find_entity :: "build_state \<Rightarrow> nat \<Rightarrow> entity_entry option" where
  "gu_find_entity s eid =
     (let g = bs_graph s; u = bs_update s in
      if eid = 0 \<or> \<not> gu_usable s then None
      else
        case overlay (gu_generation u) (g_candidate_entities g) eid of
          Some c \<Rightarrow> if entity_live (ce_entity c) then Some (ce_entity c) else None
        | None \<Rightarrow> if gu_full u then None else g_entity g eid)"

definition gu_find :: "build_state \<Rightarrow> nat \<Rightarrow> entity_entry option" where
  "gu_find s name =
     (let g = bs_graph s; u = bs_update s in
      if name = 0 \<or> \<not> gu_usable s then None
      else
        gu_find_entity s
          (case overlay (gu_generation u) (g_candidate_identities g) name of
             Some eid \<Rightarrow> eid
           | None \<Rightarrow> if name < length (g_identity g) then g_identity g ! name else 0))"

definition gu_find_type :: "build_state \<Rightarrow> nat \<Rightarrow> type_entry option" where
  "gu_find_type s handle =
     (let g = bs_graph s; u = bs_update s in
      if handle = 0 \<or> \<not> gu_usable s then None
      else
        case overlay (gu_generation u) (g_candidate_types g) handle of
          None \<Rightarrow> if gu_full u then None else g_type g handle
        | Some t \<Rightarrow>
            (case ct_kind t of
               Candidate_removed \<Rightarrow> None
             | Candidate_replacement \<Rightarrow> ct_value t
             | Candidate_unchanged \<Rightarrow> if gu_full u then None else g_type g handle))"

definition gu_enum_values :: "build_state \<Rightarrow> nat \<Rightarrow> enum_value_record list" where
  "gu_enum_values s handle =
     (let g = bs_graph s; u = bs_update s;
          committed = (if gu_full u then [] else g_enum_values_of g handle) in
      if handle = 0 \<or> \<not> gu_usable s then []
      else
        case overlay (gu_generation u) (g_candidate_types g) handle of
          None \<Rightarrow> committed
        | Some t \<Rightarrow>
            if ct_kind t = Candidate_removed then []
            else
              case (ct_kind t, ct_build t) of
                (Candidate_replacement, Some b) \<Rightarrow> tb_enumerators b
              | _ \<Rightarrow> committed)"

section \<open>The view of one Source\<close>

text \<open>\<^verbatim>\<open>source_replacement\<close>: its Source, or \<open>None\<close> when it holds no update.\<close>

type_synonym source_replacement = "nat option"

definition gu_replace_source :: "nat \<Rightarrow> build_state \<Rightarrow> status_code \<times> source_replacement \<times> build_state" where
  "gu_replace_source source s =
     (let u = bs_update s in
      if gu_failure u \<noteq> Ok then (gu_failure u, None, s)
      else if \<not> gu_usable s \<or> source = 0 then (Invalid_state, None, set_failure Invalid_state s)
      else if cu_was_replaced (bs_cache s) (bs_cu s) source
      then (Duplicate_source_replacement, None, set_failure Duplicate_source_replacement s)
      else
        case gu_begin_source_replacement source s of (st, s) \<Rightarrow>
          (st, if st = Ok then Some source else None, s))"

definition sr_add_named_enum ::
    "source_replacement \<Rightarrow> nat \<Rightarrow> enum_build_data \<Rightarrow> build_state \<Rightarrow> status_code \<times> nat \<times> nat \<times> build_state" where
  "sr_add_named_enum r name data s =
     (case r of None \<Rightarrow> (Invalid_state, 0, 0, s) | Some source \<Rightarrow> gu_declare_named_enum name source data s)"

definition sr_add_named_type ::
    "source_replacement \<Rightarrow> nat \<Rightarrow> aggregate_definition_state \<Rightarrow> build_state \<Rightarrow> status_code \<times> nat \<times> nat \<times> build_state" where
  "sr_add_named_type r name state s =
     (case r of None \<Rightarrow> (Invalid_state, 0, 0, s) | Some source \<Rightarrow> gu_declare_named_type name source state s)"

definition sr_add_anonymous_enum ::
    "source_replacement \<Rightarrow> enum_build_data \<Rightarrow> build_state \<Rightarrow> status_code \<times> nat \<times> build_state" where
  "sr_add_anonymous_enum r data s =
     (case r of None \<Rightarrow> (Invalid_state, 0, s) | Some source \<Rightarrow> gu_add_anonymous_enum source data s)"

definition sr_define_members ::
    "source_replacement \<Rightarrow> nat \<Rightarrow> member_build list \<Rightarrow> type_modifier_build list \<Rightarrow> build_state
     \<Rightarrow> status_code \<times> build_state" where
  "sr_define_members r handle members modifiers s =
     (case r of None \<Rightarrow> (Invalid_state, s) | Some source \<Rightarrow> gu_define_members handle members modifiers s)"

definition sr_builtin_type_ref :: "source_replacement \<Rightarrow> builtin_type \<Rightarrow> build_state \<Rightarrow> nat" where
  "sr_builtin_type_ref r b s =
     (if r \<noteq> None \<and> builtin_code b + 1 < length (g_canonical (bs_graph s)) then builtin_code b + 1 else 0)"

definition sr_resolve_type :: "source_replacement \<Rightarrow> nat \<Rightarrow> build_state \<Rightarrow> status_code \<times> nat \<times> build_state" where
  "sr_resolve_type r name s =
     (if r = None \<or> name = 0 then (Invalid_state, 0, s)
      else
        case gu_find s name of
          None \<Rightarrow> (Configuration_failed, 0, s)
        | Some e \<Rightarrow> gu_named_type_ref (ee_type e) s)"

definition sr_derived ::
    "source_replacement \<Rightarrow> derived_type_kind \<Rightarrow> nat \<Rightarrow> u64 \<Rightarrow> build_state \<Rightarrow> status_code \<times> nat \<times> build_state" where
  "sr_derived r kind child extent s =
     (case r of
        None \<Rightarrow> (Invalid_state, 0, s)
      | Some source \<Rightarrow> gu_derived_type_ref kind child (if kind = Derived_array then extent else 0) s)"


end
