(* ===== verification/GraphTally.thy ===== *)
theory GraphTally
  imports GraphCandidate
begin

text \<open>
  What the construction state of an entity means: the tally of its contributions. Adding a
  contribution is accepted exactly when the one-definition rule allows it, and removing one gives the
  tally of the rest, so the sparse updates of a build count what a count from scratch would.
\<close>

section \<open>The one-definition rule\<close>

definition enum_contribution :: "source_contribution_record \<Rightarrow> bool" where
  "enum_contribution c \<longleftrightarrow> cr_kind c = Enum_type"

definition defining :: "source_contribution_record \<Rightarrow> bool" where
  "defining c \<longleftrightarrow> cr_state c = Enum_defined"

text \<open>Two contributions to one entity agree.\<close>

definition compatible :: "source_contribution_record \<Rightarrow> source_contribution_record \<Rightarrow> bool" where
  "compatible c d \<longleftrightarrow>
     cr_kind c = cr_kind d \<and> (cr_kind c = Enum_type \<longrightarrow>
       cr_scoped c = cr_scoped d \<and> cr_fixed c = cr_fixed d \<and> (cr_fixed c \<longrightarrow> cr_underlying c = cr_underlying d))"

definition odr_consistent :: "source_contribution_record list \<Rightarrow> bool" where
  "odr_consistent cs \<longleftrightarrow> (\<forall>c\<in>set cs. \<forall>d\<in>set cs. compatible c d) \<and> length (filter defining cs) \<le> 1"

definition quantity :: "('a \<Rightarrow> bool) \<Rightarrow> 'a list \<Rightarrow> u32" where
  "quantity P xs = word_of_nat (length (filter P xs))"

definition tally :: "source_contribution_record list \<Rightarrow> canonical_entity_construction_state \<Rightarrow> bool" where
  "tally cs a \<longleftrightarrow>
     ec_declarations a = quantity enum_contribution cs \<and>
     ec_scoped a = quantity (\<lambda>c. enum_contribution c \<and> cr_scoped c) cs \<and>
     ec_unscoped a = quantity (\<lambda>c. enum_contribution c \<and> \<not> cr_scoped c) cs \<and>
     ec_fixed a = quantity (\<lambda>c. enum_contribution c \<and> cr_fixed c) cs \<and>
     ec_nonfixed a = quantity (\<lambda>c. enum_contribution c \<and> \<not> cr_fixed c) cs \<and>
     ec_definitions a = quantity (\<lambda>c. enum_contribution c \<and> defining c) cs \<and>
     ec_aggregate_declarations a = quantity (\<lambda>c. \<not> enum_contribution c \<and> \<not> defining c) cs \<and>
     ec_aggregate_definitions a = quantity (\<lambda>c. \<not> enum_contribution c \<and> defining c) cs \<and>
     length (ec_underlying a) = builtin_code Void_type + 1 \<and>
     (\<forall>b. ec_underlying a ! builtin_code b = quantity (\<lambda>c. enum_contribution c \<and> cr_fixed c \<and> cr_underlying c = b) cs) \<and>
     ec_active_fixed a = (if \<exists>c\<in>set cs. enum_contribution c \<and> cr_fixed c then 1 else 0) \<and>
     (\<forall>c\<in>set cs. enum_contribution c \<and> cr_fixed c \<longrightarrow> ec_active_type a = cr_underlying c) \<and>
     (\<forall>c\<in>set cs. enum_contribution c \<and> defining c \<longrightarrow> ec_definition a = cr_definition c)"

lemma enum_contribution_iff: "enum_contribution c \<longleftrightarrow> cr_kind c \<noteq> Aggregate_type"
  by (cases "cr_kind c") (simp_all add: enum_contribution_def)

lemma defining_iff: "\<not> defining c \<longleftrightarrow> cr_state c = Enum_opaque"
  by (cases "cr_state c") (simp_all add: defining_def)

lemma quantity_Nil [simp]: "quantity P [] = 0"
  by (simp add: quantity_def)

lemma quantity_Cons [simp]: "quantity P (x # xs) = (if P x then quantity P xs + 1 else quantity P xs)"
  by (simp add: quantity_def)

lemma quantity_0_iff:
  assumes "length xs \<le> u32_max"
  shows "quantity P xs = 0 \<longleftrightarrow> (\<forall>x\<in>set xs. \<not> P x)"
proof -
  have "length (filter P xs) < 2 ^ LENGTH(32)"
    using assms by (intro le_less_trans [OF length_filter_le]) (simp add: u32_max_def)
  then have "quantity P xs = 0 \<longleftrightarrow> length (filter P xs) = 0"
    unfolding quantity_def by (metis gr_zeroI nat_dvd_not_less word_of_nat_eq_0_iff dvd_0_right)
  then show ?thesis by (simp add: filter_empty_conv)
qed

lemma builtin_code_bound: "builtin_code b < builtin_code Void_type + 1"
  by (cases b) simp_all

lemma nth_bump: "i < length xs \<Longrightarrow> bump i d xs ! j = (if j = i then xs ! i + d else xs ! j)"
  by (simp add: bump_def nth_list_update)

lemma length_bump [simp]: "length (bump i d xs) = length xs"
  by (simp add: bump_def)

lemma tally_new: "tally [] new_entity_state"
proof -
  have "replicate (builtin_code Void_type + 1) (0::u32) ! builtin_code b = 0" for b
    by (rule nth_replicate [OF builtin_code_bound])
  then show ?thesis by (simp add: tally_def new_entity_state_def del: replicate.simps)
qed

section \<open>Adding and removing\<close>

lemma compatible_refl [simp]: "compatible c c"
  by (simp add: compatible_def)

lemma compatible_sym: "compatible c d \<longleftrightarrow> compatible d c"
  by (auto simp: compatible_def)

lemma compatible_trans: "compatible c d \<Longrightarrow> compatible d e \<Longrightarrow> compatible c e"
  by (simp add: compatible_def)

lemma odr_consistent_Cons:
  assumes "odr_consistent cs"
  shows "odr_consistent (c # cs) \<longleftrightarrow>
    (\<forall>d\<in>set cs. compatible c d) \<and> (defining c \<longrightarrow> (\<forall>d\<in>set cs. \<not> defining d))"
proof -
  have "length (filter defining (c # cs)) \<le> 1 \<longleftrightarrow> (defining c \<longrightarrow> (\<forall>d\<in>set cs. \<not> defining d))"
    using assms by (auto simp: odr_consistent_def filter_empty_conv)
  then show ?thesis
    using assms compatible_sym [of c] by (auto simp: odr_consistent_def)
qed

text \<open>What the counters say of the contributions they count.\<close>

lemma tally_zero:
  assumes "tally cs a" and "length cs \<le> u32_max"
  shows "ec_declarations a = 0 \<longleftrightarrow> (\<forall>d\<in>set cs. \<not> enum_contribution d)"
    "ec_scoped a = 0 \<longleftrightarrow> (\<forall>d\<in>set cs. \<not> (enum_contribution d \<and> cr_scoped d))"
    "ec_unscoped a = 0 \<longleftrightarrow> (\<forall>d\<in>set cs. \<not> (enum_contribution d \<and> \<not> cr_scoped d))"
    "ec_fixed a = 0 \<longleftrightarrow> (\<forall>d\<in>set cs. \<not> (enum_contribution d \<and> cr_fixed d))"
    "ec_nonfixed a = 0 \<longleftrightarrow> (\<forall>d\<in>set cs. \<not> (enum_contribution d \<and> \<not> cr_fixed d))"
    "ec_definitions a = 0 \<longleftrightarrow> (\<forall>d\<in>set cs. \<not> (enum_contribution d \<and> defining d))"
    "ec_aggregate_declarations a = 0 \<longleftrightarrow> (\<forall>d\<in>set cs. \<not> (\<not> enum_contribution d \<and> \<not> defining d))"
    "ec_aggregate_definitions a = 0 \<longleftrightarrow> (\<forall>d\<in>set cs. \<not> (\<not> enum_contribution d \<and> defining d))"
    "ec_underlying a ! builtin_code b = 0 \<longleftrightarrow> (\<forall>d\<in>set cs. \<not> (enum_contribution d \<and> cr_fixed d \<and> cr_underlying d = b))"
    "ec_active_fixed a = 0 \<longleftrightarrow> (\<forall>d\<in>set cs. \<not> (enum_contribution d \<and> cr_fixed d))"
  using assms unfolding tally_def by (simp_all add: quantity_0_iff)

text \<open>Consistent contributions are like any one of them.\<close>

lemma tally_zero_like:
  assumes tally: "tally cs a" and cs: "odr_consistent cs" and size: "length cs \<le> u32_max" and d: "d \<in> set cs"
  shows "ec_declarations a = 0 \<longleftrightarrow> \<not> enum_contribution d"
    "ec_scoped a = 0 \<longleftrightarrow> \<not> (enum_contribution d \<and> cr_scoped d)"
    "ec_unscoped a = 0 \<longleftrightarrow> \<not> (enum_contribution d \<and> \<not> cr_scoped d)"
    "ec_fixed a = 0 \<longleftrightarrow> \<not> (enum_contribution d \<and> cr_fixed d)"
    "ec_nonfixed a = 0 \<longleftrightarrow> \<not> (enum_contribution d \<and> \<not> cr_fixed d)"
    "ec_definitions a = 0 \<longleftrightarrow> \<not> (enum_contribution d \<and> (\<exists>e\<in>set cs. defining e))"
    "ec_aggregate_declarations a = 0 \<and> ec_aggregate_definitions a = 0 \<longleftrightarrow> enum_contribution d"
    "ec_aggregate_definitions a = 0 \<longleftrightarrow> \<not> (\<not> enum_contribution d \<and> (\<exists>e\<in>set cs. defining e))"
    "ec_underlying a ! builtin_code b = 0 \<longleftrightarrow> \<not> (enum_contribution d \<and> cr_fixed d \<and> cr_underlying d = b)"
    "ec_active_fixed a = 0 \<longleftrightarrow> \<not> (enum_contribution d \<and> cr_fixed d)"
    "odr_consistent (c # cs) \<longleftrightarrow> compatible c d \<and> (defining c \<longrightarrow> \<not> (\<exists>e\<in>set cs. defining e))"
proof -
  have like: "e \<in> set cs \<Longrightarrow> compatible d e" for e
    using cs d by (simp add: odr_consistent_def)
  then have all: "(\<forall>e\<in>set cs. compatible c e) \<longleftrightarrow> compatible c d"
    using d compatible_trans [of c d] by blast
  have kind: "e \<in> set cs \<Longrightarrow> enum_contribution e \<longleftrightarrow> enum_contribution d" for e
    using like [of e] by (auto simp: compatible_def enum_contribution_def)
  have enum: "e \<in> set cs \<Longrightarrow> enum_contribution d \<Longrightarrow> cr_scoped e = cr_scoped d \<and> cr_fixed e = cr_fixed d \<and>
      (cr_fixed d \<longrightarrow> cr_underlying e = cr_underlying d)" for e
    using like [of e] by (auto simp: compatible_def enum_contribution_def)
  note zero = tally_zero [OF tally size]
  show "ec_declarations a = 0 \<longleftrightarrow> \<not> enum_contribution d" unfolding zero using d kind by blast
  show "ec_scoped a = 0 \<longleftrightarrow> \<not> (enum_contribution d \<and> cr_scoped d)" unfolding zero using d kind enum by blast
  show "ec_unscoped a = 0 \<longleftrightarrow> \<not> (enum_contribution d \<and> \<not> cr_scoped d)" unfolding zero using d kind enum by blast
  show "ec_fixed a = 0 \<longleftrightarrow> \<not> (enum_contribution d \<and> cr_fixed d)" unfolding zero using d kind enum by blast
  show "ec_nonfixed a = 0 \<longleftrightarrow> \<not> (enum_contribution d \<and> \<not> cr_fixed d)" unfolding zero using d kind enum by blast
  show "ec_definitions a = 0 \<longleftrightarrow> \<not> (enum_contribution d \<and> (\<exists>e\<in>set cs. defining e))" unfolding zero using kind by blast
  show "ec_aggregate_declarations a = 0 \<and> ec_aggregate_definitions a = 0 \<longleftrightarrow> enum_contribution d"
    unfolding zero using d kind by blast
  show "ec_aggregate_definitions a = 0 \<longleftrightarrow> \<not> (\<not> enum_contribution d \<and> (\<exists>e\<in>set cs. defining e))" unfolding zero using kind by blast
  show "ec_underlying a ! builtin_code b = 0 \<longleftrightarrow> \<not> (enum_contribution d \<and> cr_fixed d \<and> cr_underlying d = b)"
  proof -
    have "e \<in> set cs \<Longrightarrow> (enum_contribution e \<and> cr_fixed e \<and> cr_underlying e = b) =
        (enum_contribution d \<and> cr_fixed d \<and> cr_underlying d = b)" for e
      using kind [of e] enum [of e] by auto
    then show ?thesis unfolding zero using d by blast
  qed
  show "ec_active_fixed a = 0 \<longleftrightarrow> \<not> (enum_contribution d \<and> cr_fixed d)" unfolding zero using d kind enum by blast
  show "odr_consistent (c # cs) \<longleftrightarrow> compatible c d \<and> (defining c \<longrightarrow> \<not> (\<exists>e\<in>set cs. defining e))"
    unfolding odr_consistent_Cons [OF cs] all by blast
qed

lemma add_contribution_accepts:
  assumes tally: "tally cs a" and cs: "odr_consistent cs" and size: "length cs \<le> u32_max"
  shows "add_contribution source c a \<noteq> None \<longleftrightarrow> odr_consistent (c # cs)"
proof (cases cs)
  case Nil
  then show ?thesis
    using tally_zero [OF tally size] by (simp add: add_contribution_def enum_refused_def odr_consistent_def)
next
  case (Cons d ds)
  then have "d \<in> set cs" by simp
  note zero = tally_zero_like [OF tally cs size this]
  have "ec_aggregate_declarations a \<noteq> 0 \<or> ec_aggregate_definitions a \<noteq> 0 \<longleftrightarrow> \<not> enum_contribution d"
    using zero(7) by blast
  then show ?thesis
    unfolding zero(11) compatible_def add_contribution_def enum_refused_def
    by (cases "cr_kind c"; cases "cr_kind d") (auto simp: zero(1-6,8-10) enum_contribution_def defining_def)
qed


text \<open>The fields after an accepted contribution.\<close>

lemma count_enum_fields:
  fixes source c a
  defines "a' \<equiv> count_enum source c a" and "i \<equiv> builtin_code (cr_underlying c)"
  shows "ec_declarations a' = ec_declarations a + 1"
    "ec_scoped a' = (if cr_scoped c then ec_scoped a + 1 else ec_scoped a)"
    "ec_unscoped a' = (if cr_scoped c then ec_unscoped a else ec_unscoped a + 1)"
    "ec_fixed a' = (if cr_fixed c then ec_fixed a + 1 else ec_fixed a)"
    "ec_nonfixed a' = (if cr_fixed c then ec_nonfixed a else ec_nonfixed a + 1)"
    "ec_definitions a' = (if defining c then 1 else ec_definitions a)"
    "ec_aggregate_declarations a' = ec_aggregate_declarations a"
    "ec_aggregate_definitions a' = ec_aggregate_definitions a"
    "ec_underlying a' = (if cr_fixed c then bump i 1 (ec_underlying a) else ec_underlying a)"
    "ec_active_fixed a' = (if cr_fixed c \<and> ec_underlying a ! i = 0 then ec_active_fixed a + 1 else ec_active_fixed a)"
    "ec_active_type a' = (if cr_fixed c \<and> ec_underlying a ! i = 0 then cr_underlying c else ec_active_type a)"
    "ec_definition a' = (if defining c then cr_definition c else ec_definition a)"
  unfolding a'_def i_def by (simp_all add: count_enum_def Let_def defining_def)

lemma tally_add:
  assumes tally: "tally cs a" and cs: "odr_consistent cs" and size: "length cs \<le> u32_max"
    and add: "add_contribution source c a = Some a'"
  shows "tally (c # cs) a'"
proof (cases "enum_contribution c")
  case False
  then have kind: "cr_kind c = Aggregate_type" by (simp add: enum_contribution_iff)
  show ?thesis
  proof (cases "defining c")
    case True
    with add kind have "ec_aggregate_definitions a = 0"
      and "a' = a\<lparr>ec_aggregate_definitions := 1, ec_aggregate_definition_source := source\<rparr>"
      by (simp_all add: add_contribution_def defining_def split: if_splits)
    with tally False True show ?thesis by (simp add: tally_def)
  next
    case opaque: False
    with add kind have "a' = a\<lparr>ec_aggregate_declarations := ec_aggregate_declarations a + 1\<rparr>"
      by (simp add: add_contribution_def defining_def split: if_splits)
    with tally False opaque show ?thesis by (simp add: tally_def)
  qed
next
  case True
  then have kind: "cr_kind c \<noteq> Aggregate_type" by (simp add: enum_contribution_iff)
  note zero = tally_zero [OF tally size]
  have consistent: "odr_consistent (c # cs)"
    using add_contribution_accepts [OF tally cs size, of source c] add by simp
  let ?i = "builtin_code (cr_underlying c)"
  have bound: "?i < length (ec_underlying a)" using tally builtin_code_bound by (simp add: tally_def)
  have same: "d \<in> set cs \<Longrightarrow> enum_contribution d \<and> cr_scoped d = cr_scoped c \<and> cr_fixed d = cr_fixed c \<and>
      (cr_fixed c \<longrightarrow> cr_underlying d = cr_underlying c)" for d
    using consistent True unfolding odr_consistent_Cons [OF cs] by (auto simp: compatible_def enum_contribution_def)
  have first: "ec_underlying a ! ?i = 0 \<longleftrightarrow> cs = []" if "cr_fixed c"
    unfolding zero using same that by (cases cs) auto
  have active: "ec_active_fixed a = (if cs = [] then 0 else 1)" if "cr_fixed c"
  proof -
    have "ec_active_fixed a = (if \<exists>c\<in>set cs. enum_contribution c \<and> cr_fixed c then 1 else 0)"
      using tally unfolding tally_def by blast
    with same that show ?thesis by (cases cs) auto
  qed
  have old: "d \<in> set cs \<Longrightarrow> cr_fixed c \<Longrightarrow> ec_active_type a = cr_underlying c" for d
    using tally same [of d] unfolding tally_def by metis
  have defined: "d \<in> set cs \<Longrightarrow> defining c \<Longrightarrow> \<not> defining d" for d
    using consistent unfolding odr_consistent_Cons [OF cs] by blast
  have count: "bump ?i 1 (ec_underlying a) ! builtin_code b =
      (if cr_underlying c = b then ec_underlying a ! builtin_code b + 1 else ec_underlying a ! builtin_code b)" for b
    using bound by (auto simp: nth_bump builtin_code_inj)
  have accepted: "\<not> enum_refused c a" and a': "a' = count_enum source c a"
    using add kind by (simp_all add: add_contribution_def split: if_splits)
  note f = count_enum_fields [of source c a, folded a']
  have nodef: "defining c \<Longrightarrow> ec_definitions a = 0"
    using accepted by (auto simp: enum_refused_def defining_def)
  have after: "ec_active_fixed a' = (if cr_fixed c then 1 else ec_active_fixed a)"
    using first active by (simp add: f(10))
  have after_type: "ec_active_type a' = cr_underlying c" if "cr_fixed c"
    using first [OF that] old [OF _ that] that by (cases cs) (auto simp: f(11))
  have T: "ec_declarations a = quantity enum_contribution cs"
    "ec_scoped a = quantity (\<lambda>c. enum_contribution c \<and> cr_scoped c) cs"
    "ec_unscoped a = quantity (\<lambda>c. enum_contribution c \<and> \<not> cr_scoped c) cs"
    "ec_fixed a = quantity (\<lambda>c. enum_contribution c \<and> cr_fixed c) cs"
    "ec_nonfixed a = quantity (\<lambda>c. enum_contribution c \<and> \<not> cr_fixed c) cs"
    "ec_definitions a = quantity (\<lambda>c. enum_contribution c \<and> defining c) cs"
    "ec_aggregate_declarations a = quantity (\<lambda>c. \<not> enum_contribution c \<and> \<not> defining c) cs"
    "ec_aggregate_definitions a = quantity (\<lambda>c. \<not> enum_contribution c \<and> defining c) cs"
    "length (ec_underlying a) = builtin_code Void_type + 1"
    "\<And>b. ec_underlying a ! builtin_code b = quantity (\<lambda>c. enum_contribution c \<and> cr_fixed c \<and> cr_underlying c = b) cs"
    "ec_active_fixed a = (if \<exists>c\<in>set cs. enum_contribution c \<and> cr_fixed c then 1 else 0)"
    "\<And>d. d \<in> set cs \<Longrightarrow> enum_contribution d \<Longrightarrow> defining d \<Longrightarrow> ec_definition a = cr_definition d"
    using tally unfolding tally_def by blast+
  show ?thesis
    unfolding tally_def
  proof (intro conjI allI ballI impI)
    show "ec_definitions a' = quantity (\<lambda>c. enum_contribution c \<and> defining c) (c # cs)"
      using nodef True by (simp add: f(6) T(6) [symmetric])
    show "ec_underlying a' ! builtin_code b = quantity (\<lambda>c. enum_contribution c \<and> cr_fixed c \<and> cr_underlying c = b) (c # cs)" for b
      using True count [of b] by (cases "cr_underlying c = b"; cases "cr_fixed c") (simp_all add: f(9) T(10))
    show "ec_active_fixed a' = (if \<exists>d\<in>set (c # cs). enum_contribution d \<and> cr_fixed d then 1 else 0)"
      using True by (simp add: after T(11))
    show "ec_active_type a' = cr_underlying d" if "d \<in> set (c # cs)" "enum_contribution d \<and> cr_fixed d" for d
    proof -
      have "cr_fixed c \<and> cr_underlying d = cr_underlying c" using that same [of d] by auto
      then show ?thesis using after_type by simp
    qed
    show "ec_definition a' = cr_definition d" if "d \<in> set (c # cs)" "enum_contribution d \<and> defining d" for d
    proof (cases "d = c")
      case True
      with that show ?thesis by (simp add: f(12))
    next
      case False
      with that have d: "d \<in> set cs" by simp
      moreover have "\<not> defining c" using defined [OF d] that by blast
      ultimately show ?thesis using that T(12) by (simp add: f(12))
    qed
  qed (use True in \<open>simp_all add: f(1-5,7-9) T(1-5,7-9)\<close>)
qed


lemma uncount_enum_fields:
  fixes c a
  defines "a' \<equiv> uncount_enum c a" and "i \<equiv> builtin_code (cr_underlying c)"
  shows "ec_declarations a' = ec_declarations a - 1"
    "ec_scoped a' = (if cr_scoped c then ec_scoped a - 1 else ec_scoped a)"
    "ec_unscoped a' = (if cr_scoped c then ec_unscoped a else ec_unscoped a - 1)"
    "ec_fixed a' = (if cr_fixed c then ec_fixed a - 1 else ec_fixed a)"
    "ec_nonfixed a' = (if cr_fixed c then ec_nonfixed a else ec_nonfixed a - 1)"
    "ec_definitions a' = (if defining c then 0 else ec_definitions a)"
    "ec_aggregate_declarations a' = ec_aggregate_declarations a"
    "ec_aggregate_definitions a' = ec_aggregate_definitions a"
    "ec_underlying a' = (if cr_fixed c then bump i (- 1) (ec_underlying a) else ec_underlying a)"
    "ec_active_fixed a' = (if cr_fixed c \<and> bump i (- 1) (ec_underlying a) ! i = 0 then ec_active_fixed a - 1 else ec_active_fixed a)"
    "ec_active_type a' = ec_active_type a"
    "ec_definition a' = (if defining c then None else ec_definition a)"
  unfolding a'_def i_def by (simp_all add: uncount_enum_def Let_def defining_def)

lemma tally_remove:
  assumes tally: "tally (c # cs) a" and consistent: "odr_consistent (c # cs)" and size: "length cs \<le> u32_max"
  shows "tally cs (remove_contribution c a)"
proof (cases "enum_contribution c")
  case False
  then have kind: "cr_kind c = Aggregate_type" by (simp add: enum_contribution_iff)
  have cs: "odr_consistent cs" using consistent by (auto simp: odr_consistent_def split: if_splits)
  show ?thesis
  proof (cases "defining c")
    case True
    with consistent have "\<forall>d\<in>set cs. \<not> defining d" unfolding odr_consistent_Cons [OF cs] by blast
    then have "quantity (\<lambda>d. \<not> enum_contribution d \<and> defining d) cs = 0" unfolding quantity_0_iff [OF size] by blast
    with tally kind False True show ?thesis
      by (simp add: remove_contribution_def tally_def defining_def)
  next
    case opaque: False
    with tally kind False show ?thesis
      by (simp add: remove_contribution_def tally_def defining_def)
  qed
next
  case True
  then have kind: "cr_kind c \<noteq> Aggregate_type" by (simp add: enum_contribution_iff)
  have cs: "odr_consistent cs" using consistent by (auto simp: odr_consistent_def split: if_splits)
  let ?i = "builtin_code (cr_underlying c)"
  have same: "d \<in> set cs \<Longrightarrow> enum_contribution d \<and> cr_fixed d = cr_fixed c \<and>
      (cr_fixed c \<longrightarrow> cr_underlying d = cr_underlying c)" for d
    using consistent True unfolding odr_consistent_Cons [OF cs] by (auto simp: compatible_def enum_contribution_def)
  have T: "ec_declarations a = quantity enum_contribution cs + 1"
    "ec_scoped a = (if cr_scoped c then quantity (\<lambda>c. enum_contribution c \<and> cr_scoped c) cs + 1
       else quantity (\<lambda>c. enum_contribution c \<and> cr_scoped c) cs)"
    "ec_unscoped a = (if cr_scoped c then quantity (\<lambda>c. enum_contribution c \<and> \<not> cr_scoped c) cs
       else quantity (\<lambda>c. enum_contribution c \<and> \<not> cr_scoped c) cs + 1)"
    "ec_fixed a = (if cr_fixed c then quantity (\<lambda>c. enum_contribution c \<and> cr_fixed c) cs + 1
       else quantity (\<lambda>c. enum_contribution c \<and> cr_fixed c) cs)"
    "ec_nonfixed a = (if cr_fixed c then quantity (\<lambda>c. enum_contribution c \<and> \<not> cr_fixed c) cs
       else quantity (\<lambda>c. enum_contribution c \<and> \<not> cr_fixed c) cs + 1)"
    "ec_definitions a = (if defining c then quantity (\<lambda>c. enum_contribution c \<and> defining c) cs + 1
       else quantity (\<lambda>c. enum_contribution c \<and> defining c) cs)"
    "ec_aggregate_declarations a = quantity (\<lambda>c. \<not> enum_contribution c \<and> \<not> defining c) cs"
    "ec_aggregate_definitions a = quantity (\<lambda>c. \<not> enum_contribution c \<and> defining c) cs"
    "length (ec_underlying a) = builtin_code Void_type + 1"
    "\<And>b. ec_underlying a ! builtin_code b = quantity (\<lambda>c. enum_contribution c \<and> cr_fixed c \<and> cr_underlying c = b) (c # cs)"
    "ec_active_fixed a = (if \<exists>d\<in>set (c # cs). enum_contribution d \<and> cr_fixed d then 1 else 0)"
    "\<And>d. d \<in> set cs \<Longrightarrow> enum_contribution d \<Longrightarrow> cr_fixed d \<Longrightarrow> ec_active_type a = cr_underlying d"
    "\<And>d. d \<in> set cs \<Longrightarrow> enum_contribution d \<Longrightarrow> defining d \<Longrightarrow> ec_definition a = cr_definition d"
    using tally True unfolding tally_def by simp_all
  have bound: "?i < length (ec_underlying a)" using T(9) builtin_code_bound by simp
  have count: "(if cr_fixed c then bump ?i (- 1) (ec_underlying a) else ec_underlying a) ! builtin_code b =
      quantity (\<lambda>c. enum_contribution c \<and> cr_fixed c \<and> cr_underlying c = b) cs" for b
    using bound True by (cases "cr_fixed c"; cases "cr_underlying c = b") (simp_all add: nth_bump builtin_code_inj T(10))
  have last: "bump ?i (- 1) (ec_underlying a) ! ?i = 0 \<longleftrightarrow> cs = []" if "cr_fixed c"
  proof -
    have "bump ?i (- 1) (ec_underlying a) ! ?i = quantity (\<lambda>d. enum_contribution d \<and> cr_fixed d \<and> cr_underlying d = cr_underlying c) cs"
      using count [of "cr_underlying c"] that by simp
    also have "\<dots> = 0 \<longleftrightarrow> cs = []"
      unfolding quantity_0_iff [OF size] using same that by (cases cs) auto
    finally show ?thesis .
  qed
  have nodef: "d \<in> set cs \<Longrightarrow> defining c \<Longrightarrow> \<not> defining d" for d
    using consistent unfolding odr_consistent_Cons [OF cs] by blast
  then have single: "quantity (\<lambda>c. enum_contribution c \<and> defining c) cs = 0" if "defining c"
    unfolding quantity_0_iff [OF size] using that by blast
  have a': "remove_contribution c a = uncount_enum c a" using kind by (simp add: remove_contribution_def)
  note f = uncount_enum_fields [of c a]
  show ?thesis
    unfolding tally_def a'
  proof (intro conjI allI ballI impI)
    show "ec_definitions (uncount_enum c a) = quantity (\<lambda>c. enum_contribution c \<and> defining c) cs"
      by (simp add: f(6) T(6) single)
    show "ec_underlying (uncount_enum c a) ! builtin_code b = quantity (\<lambda>c. enum_contribution c \<and> cr_fixed c \<and> cr_underlying c = b) cs" for b
      unfolding f(9) by (rule count)
    show "ec_active_fixed (uncount_enum c a) = (if \<exists>d\<in>set cs. enum_contribution d \<and> cr_fixed d then 1 else 0)"
    proof (cases "cr_fixed c")
      case True
      have "(\<exists>d\<in>set cs. enum_contribution d \<and> cr_fixed d) \<longleftrightarrow> cs \<noteq> []" using same True by (cases cs) auto
      with True last [OF True] \<open>enum_contribution c\<close> show ?thesis by (simp add: f(10) T(11))
    qed (simp add: f(10) T(11))
    show "ec_active_type (uncount_enum c a) = cr_underlying d" if "d \<in> set cs" "enum_contribution d \<and> cr_fixed d" for d
      using T(12) that by (simp add: f(11))
    show "ec_definition (uncount_enum c a) = cr_definition d" if "d \<in> set cs" "enum_contribution d \<and> defining d" for d
      using T(13) nodef that by (auto simp: f(12))
  qed (simp_all add: f(1-5,7-9) T(1-5,7-9))
qed

text \<open>The order of the contributions does not matter.\<close>

lemma quantity_mset: "mset xs = mset ys \<Longrightarrow> quantity P xs = quantity P ys"
  unfolding quantity_def by (metis mset_filter size_mset)

lemma tally_mset:
  assumes "mset cs = mset ds"
  shows "tally cs a \<longleftrightarrow> tally ds a" and "odr_consistent cs \<longleftrightarrow> odr_consistent ds"
proof -
  have sets: "set cs = set ds" using assms by (metis set_mset_mset)
  have "length (filter defining cs) = length (filter defining ds)" using assms by (metis mset_filter size_mset)
  with sets show "odr_consistent cs \<longleftrightarrow> odr_consistent ds" by (simp add: odr_consistent_def)
  show "tally cs a \<longleftrightarrow> tally ds a" unfolding tally_def by (simp only: quantity_mset [OF assms] sets)
qed


section \<open>The contributions of an entity\<close>

text \<open>What a Source contributes and what an entity's construction state is, if the update is published now.\<close>

definition contribution_now ::
    "source_contribution_cache \<Rightarrow> source_contribution_cache_update \<Rightarrow> nat \<Rightarrow> source_contribution_state" where
  "contribution_now c u source =
     (case cu_candidate c u source of
        Some v \<Rightarrow> v
      | None \<Rightarrow> if cu_full_reconstruction u then new_contribution else contribution_of c source)"

definition construction_now ::
    "source_contribution_cache \<Rightarrow> source_contribution_cache_update \<Rightarrow> nat \<Rightarrow> canonical_entity_construction_state" where
  "construction_now c u entity =
     (case cu_candidate_entity c u entity of
        Some v \<Rightarrow> v
      | None \<Rightarrow> if cu_full_reconstruction u then new_entity_state else entity_state_of c entity)"

definition source_bound :: "source_contribution_cache \<Rightarrow> nat" where
  "source_bound c = max (length (cc_states c)) (length (cc_candidates c))"

definition to_entity :: "nat \<Rightarrow> source_contribution_record list \<Rightarrow> source_contribution_record list" where
  "to_entity entity cs = filter (\<lambda>c. cr_entity c = entity) cs"

definition contributions_to ::
    "source_contribution_cache \<Rightarrow> source_contribution_cache_update \<Rightarrow> nat \<Rightarrow> source_contribution_record list" where
  "contributions_to c u entity =
     concat (map (\<lambda>s. to_entity entity (sc_named (contribution_now c u s))) [0..<source_bound c])"

text \<open>
  Every construction state is the tally of the contributions to its entity; \<open>rest\<close> are contributions
  already taken out of their Source whose removal has not been counted yet. The counts fit 32 bits.
\<close>

definition tallied ::
    "source_contribution_record list \<Rightarrow> source_contribution_cache \<Rightarrow> source_contribution_cache_update \<Rightarrow> bool" where
  "tallied rest c u \<longleftrightarrow>
     (\<forall>e. e \<noteq> 0 \<longrightarrow> tally (contributions_to c u e @ to_entity e rest) (construction_now c u e) \<and>
        odr_consistent (contributions_to c u e @ to_entity e rest) \<and>
       length (contributions_to c u e @ to_entity e rest) \<le> u32_max)"

lemma to_entity_simps [simp]:
  "to_entity e [] = []" "to_entity e (c # cs) = (if cr_entity c = e then c # to_entity e cs else to_entity e cs)"
  "to_entity e (cs @ ds) = to_entity e cs @ to_entity e ds"
  by (simp_all add: to_entity_def)

lemma contribution_now_beyond: "source_bound c \<le> s \<Longrightarrow> contribution_now c u s = new_contribution"
  by (auto simp: contribution_now_def cu_candidate_def tagged_def source_bound_def contribution_of_def)

lemma contributions_to_sum:
  assumes "source_bound c \<le> n"
  shows "mset (contributions_to c u e) = (\<Sum>s\<in>{..<n}. mset (to_entity e (sc_named (contribution_now c u s))))"
proof -
  have concat: "mset (concat (map f [0..<k])) = (\<Sum>s\<in>{..<k}. mset (f s))" for f :: "nat \<Rightarrow> source_contribution_record list" and k
    by (induction k) simp_all
  have "(\<Sum>s\<in>{..<n}. mset (to_entity e (sc_named (contribution_now c u s)))) =
      (\<Sum>s\<in>{..<source_bound c}. mset (to_entity e (sc_named (contribution_now c u s))))"
    using assms
    by (intro sum.mono_neutral_right) (auto simp: contribution_now_beyond new_contribution_def)
  then show ?thesis unfolding contributions_to_def concat by simp
qed

lemma contributions_to_same:
  assumes "\<And>s. contribution_now c' u' s = contribution_now c u s"
  shows "mset (contributions_to c' u' e) = mset (contributions_to c u e)"
  using contributions_to_sum [of c "max (source_bound c) (source_bound c')" u e]
    contributions_to_sum [of c' "max (source_bound c) (source_bound c')" u' e]
  by (simp add: assms)

lemma contributions_to_update:
  assumes "\<And>s. contribution_now c' u' s = (if s = source then v else contribution_now c u s)"
  shows "mset (contributions_to c' u' e) + mset (to_entity e (sc_named (contribution_now c u source))) =
    mset (contributions_to c u e) + mset (to_entity e (sc_named v))"
proof -
  define n where "n = max (Suc source) (max (source_bound c) (source_bound c'))"
  have split: "(\<Sum>s\<in>{..<n}. f s) = f source + (\<Sum>s\<in>{..<n} - {source}. f s)" for f :: "nat \<Rightarrow> source_contribution_record multiset"
    by (rule sum.remove) (simp_all add: n_def)
  have bounds: "source_bound c \<le> n" "source_bound c' \<le> n" by (simp_all add: n_def)
  have "mset (contributions_to c' u' e) = mset (to_entity e (sc_named v)) +
      (\<Sum>s\<in>{..<n} - {source}. mset (to_entity e (sc_named (contribution_now c u s))))"
    unfolding contributions_to_sum [OF bounds(2)] split by (simp add: assms)
  moreover have "mset (contributions_to c u e) = mset (to_entity e (sc_named (contribution_now c u source))) +
      (\<Sum>s\<in>{..<n} - {source}. mset (to_entity e (sc_named (contribution_now c u s))))"
    unfolding contributions_to_sum [OF bounds(1)] split by simp
  ultimately show ?thesis by simp
qed


section \<open>Operations that keep the contributions\<close>

abbreviation counts_wf :: "build_state \<Rightarrow> bool" where
  "counts_wf s \<equiv> cu_wf (bs_cache s) (bs_cu s)"

definition counts_kept :: "build_state \<Rightarrow> build_state \<Rightarrow> bool" where
  "counts_kept s t \<longleftrightarrow> (counts_wf s \<longrightarrow> counts_wf t \<and>
     contribution_now (bs_cache t) (bs_cu t) = contribution_now (bs_cache s) (bs_cu s) \<and>
     construction_now (bs_cache t) (bs_cu t) = construction_now (bs_cache s) (bs_cu s) \<and>
     cu_full_reconstruction (bs_cu t) = cu_full_reconstruction (bs_cu s) \<and>
     (\<forall>e. cu_candidate_entity (bs_cache s) (bs_cu s) e \<noteq> None \<longrightarrow> cu_candidate_entity (bs_cache t) (bs_cu t) e \<noteq> None) \<and>
     (\<forall>i. cu_candidate (bs_cache s) (bs_cu s) i \<noteq> None \<longrightarrow> cu_candidate (bs_cache t) (bs_cu t) i \<noteq> None)) \<and>
   gu_full (bs_update t) = gu_full (bs_update s)"

lemma counts_kept_refl [simp]: "counts_kept s s"
  by (simp add: counts_kept_def)

lemma counts_kept_trans: "counts_kept s t \<Longrightarrow> counts_kept t u \<Longrightarrow> counts_kept s u"
  by (auto simp: counts_kept_def)

lemma counts_kept_same:
  "bs_cache t = bs_cache s \<Longrightarrow> bs_cu t = bs_cu s \<Longrightarrow> gu_full (bs_update t) = gu_full (bs_update s) \<Longrightarrow> counts_kept s t"
  by (simp add: counts_kept_def)

text \<open>The parts of the state the Graph operations leave alone.\<close>

definition counts_untouched :: "build_state \<Rightarrow> build_state \<Rightarrow> bool" where
  "counts_untouched s t \<longleftrightarrow> bs_cache t = bs_cache s \<and> bs_cu t = bs_cu s \<and> gu_full (bs_update t) = gu_full (bs_update s)"

lemma untouched_kept: "counts_untouched s t \<Longrightarrow> counts_kept s t"
  by (simp add: counts_untouched_def counts_kept_same)

lemma untouched_trans: "counts_untouched s t \<Longrightarrow> counts_untouched t u \<Longrightarrow> counts_untouched s u"
  by (simp add: counts_untouched_def)

lemma untouched_simps [simp]:
  "counts_untouched s s"
  "counts_untouched s (put_identity name v s)"
  "counts_untouched s (put_entity eid e s)"
  "counts_untouched s (put_type handle t s)"
  "counts_untouched s (set_failure st s)"
  "counts_untouched s (gu_put_build eid b s)"
  "counts_untouched s (snd (allocate s))"
  "counts_untouched s (snd (touch_identity name s))"
  "counts_untouched s (snd (touch_entity eid s))"
  "counts_untouched s (snd (touch_type handle s))"
  "counts_untouched s (snd (gu_new_type_slot s))"
  "counts_untouched s (snd (gu_take_members handle b s))"
  "counts_untouched s (snd (gu_entity_id name s))"
  by (simp_all add: counts_untouched_def put_identity_def put_entity_def put_type_def set_failure_def gu_put_build_def
      allocate_def touch_identity_def touch_entity_def touch_type_def gu_new_type_slot_def gu_take_members_def
      gu_entity_id_def Let_def split: prod.splits option.splits candidate_type_kind.splits)

lemma untouched_claim [simp]: "counts_untouched s (snd (snd (gu_claim_free_slot s)))"
  by (cases "take_alloc (bs_memory s)") (simp add: counts_untouched_def gu_claim_free_slot_def allocate_def Let_def)

lemma untouched_named_ref [simp]: "counts_untouched s (snd (snd (gu_named_type_ref handle s)))"
  by (simp add: counts_untouched_def gu_named_type_ref_def set_failure_def Let_def split: prod.splits option.splits)

lemma untouched_derived_ref [simp]: "counts_untouched s (snd (snd (gu_derived_type_ref kind child payload s)))"
  by (simp add: counts_untouched_def gu_derived_type_ref_def set_failure_def Let_def split: prod.splits option.splits)


end
