(* ===== verification/GraphCount.thy ===== *)
theory GraphCount
  imports GraphTally
begin

text \<open>
  The sparse updates of a build keep the construction states right: after any sequence of replaced
  Sources and declarations, every entity's construction state is the tally of what the Sources now
  contribute to it.
\<close>

section \<open>Results of successful operations\<close>

lemma on_alloc_Ok: "on_alloc r k = (Ok, t) \<Longrightarrow> \<exists>s. r = (True, s) \<and> k s = (Ok, t)"
  by (cases r) (simp add: on_alloc_def split: if_splits)

lemma and_then_Ok: "and_then r k = (Ok, t) \<Longrightarrow> \<exists>s. r = (Ok, s) \<and> k s = (Ok, t)"
  by (cases r) (simp add: and_then_def split: if_splits)

lemma failing_Ok [simp]: "failing r = (Ok, t) \<longleftrightarrow> r = (Ok, t)"
  by (cases r) (auto simp: failing_def)

lemma on_alloc_kept:
  assumes "on_alloc r k = (Ok, t)" and "counts_kept s (snd r)" and "\<And>s'. k s' = (Ok, t) \<Longrightarrow> counts_kept s' t"
  shows "counts_kept s t"
proof -
  obtain s1 where "r = (True, s1)" "k s1 = (Ok, t)" using on_alloc_Ok [OF assms(1)] by blast
  with assms(2) assms(3) [of s1] show ?thesis by (simp add: counts_kept_trans)
qed

lemma on_alloc_untouched:
  assumes "counts_untouched s (snd r)" and "\<And>s'. counts_untouched s' (snd (k s'))"
  shows "counts_untouched s (snd (on_alloc r k))"
proof -
  obtain ok s1 where r: "r = (ok, s1)" by force
  have "counts_untouched s1 (snd (k s1))" by (rule assms(2))
  with assms(1) show ?thesis unfolding r by (auto simp: on_alloc_def intro: untouched_trans)
qed

lemma and_then_untouched:
  assumes "counts_untouched s (snd r)" and "\<And>s'. counts_untouched s' (snd (k s'))"
  shows "counts_untouched s (snd (and_then r k))"
proof -
  obtain st s1 where r: "r = (st, s1)" by force
  have "counts_untouched s1 (snd (k s1))" by (rule assms(2))
  with assms(1) show ?thesis unfolding r by (auto simp: and_then_def intro: untouched_trans)
qed

lemma untouched_step:
  "counts_untouched s t \<Longrightarrow> counts_untouched s (put_identity n v t)"
  "counts_untouched s t \<Longrightarrow> counts_untouched s (put_entity eid e t)"
  "counts_untouched s t \<Longrightarrow> counts_untouched s (put_type handle y t)"
  "counts_untouched s t \<Longrightarrow> counts_untouched s (gu_put_build eid b t)"
  "counts_untouched s t \<Longrightarrow> counts_untouched s (set_failure st t)"
  by (blast intro: untouched_trans untouched_simps)+

lemma failing_untouched: "counts_untouched s (snd r) \<Longrightarrow> counts_untouched s (snd (failing r))"
  by (cases r) (auto simp: failing_def intro: untouched_step)

text \<open>The operations on the overlays leave the contributions alone.\<close>

lemma untouched_type_slot: "counts_untouched s (snd (snd (gu_type_slot_for eid s)))"
proof -
  let ?u = "bs_update s" and ?e = "ce_entity (entity_slot eid s)"
  obtain ok1 s1 where touch: "(if \<not> gu_full ?u \<and> eid \<noteq> 0 then touch_entity eid s else (True, s)) = (ok1, s1)" by force
  have s1: "counts_untouched s s1"
    using arg_cong [OF touch, of snd] untouched_simps(9) [of s eid] by (auto split: if_splits)
  obtain ok2 h s2 where slot: "(if \<not> gu_full ?u \<and> length (gu_claimed_free (bs_update s1)) < length (g_free_type_slots (bs_graph s1))
      then gu_claim_free_slot s1 else case gu_new_type_slot s1 of (h, s) \<Rightarrow> (True, h, s)) = (ok2, h, s2)"
    by (metis prod_cases3)
  have "counts_untouched s1 s2"
    using arg_cong [OF slot, of "\<lambda>x. snd (snd x)"] untouched_claim [of s1] untouched_simps(11) [of s1]
    by (auto split: if_splits prod.splits)
  then have s2: "counts_untouched s s2" using s1 untouched_trans by blast
  show ?thesis
    unfolding gu_type_slot_for_def Let_def touch prod.case slot
    by (cases ok1) (simp_all add: s1 s2 untouched_step)
qed

lemma untouched_assign_type: "counts_untouched s (snd (gu_assign_type eid t s))"
proof -
  obtain ok h s1 where slot: "gu_type_slot_for eid s = (ok, h, s1)" by (metis prod_cases3)
  have s1: "counts_untouched s s1" using untouched_type_slot [of s eid] slot by simp
  have "counts_untouched s1 (snd (on_alloc (touch_type h s1) (\<lambda>s.
      let s = put_type h ((type_slot h s)\<lparr>ct_kind := Candidate_replacement, ct_value := Some t\<rparr>) s
      in case gu_named_type_ref (ee_type (ce_entity (entity_slot eid s))) s of (st, ref, s) \<Rightarrow> (st, s))))"
  proof (rule on_alloc_untouched)
    fix s'
    let ?s = "put_type h ((type_slot h s')\<lparr>ct_kind := Candidate_replacement, ct_value := Some t\<rparr>) s'"
    have "counts_untouched s' (snd (snd (gu_named_type_ref handle ?s)))" for handle
      using untouched_trans [OF untouched_simps(4) untouched_named_ref] by blast
    then show "counts_untouched s' (snd (let s = ?s in
        case gu_named_type_ref (ee_type (ce_entity (entity_slot eid s))) s of (st, ref, s) \<Rightarrow> (st, s)))"
      unfolding Let_def by (simp split: prod.split) (metis snd_conv)
  qed simp
  with s1 show ?thesis
    unfolding gu_assign_type_def slot by (auto intro: untouched_trans)
qed

lemma untouched_remove_entity: "counts_untouched s (snd (gu_remove_entity eid s))"
  unfolding gu_remove_entity_def Let_def
  by (rule on_alloc_untouched) (auto intro: untouched_step)

lemma untouched_materialize_aggregate: "counts_untouched s (snd (gu_materialize_aggregate eid a s))"
  unfolding gu_materialize_aggregate_def Let_def
proof (rule on_alloc_untouched)
  fix s'
  let ?h = "ee_type (ce_entity (entity_slot eid s'))" and ?b = "no_build\<lparr>tb_definition_pending := ec_aggregate_definitions a \<noteq> 0\<rparr>"
  obtain b s2 where take: "gu_take_members ?h ?b s' = (b, s2)" by force
  have "counts_untouched s' s2" using untouched_simps(12) [of s' ?h ?b] by (simp add: take)
  then show "counts_untouched s' (snd (case gu_take_members ?h ?b s' of (b, s) \<Rightarrow>
      and_then (gu_assign_type eid aggregate_entry (put_entity eid ((ce_entity (entity_slot eid s'))\<lparr>ee_kind := Aggregate_type\<rparr>) s))
        (\<lambda>s. (Ok, gu_put_build eid b s))))"
    unfolding take prod.case
    by (intro and_then_untouched untouched_trans [OF _ untouched_assign_type] untouched_step) simp_all
qed simp

lemma untouched_materialize_enumeration: "counts_untouched s (snd (gu_materialize_enumeration eid a s))"
  unfolding gu_materialize_enumeration_def Let_def
  by (intro on_alloc_untouched and_then_untouched untouched_trans [OF _ untouched_assign_type] untouched_step)
    (simp_all split: if_split)


section \<open>The construction states\<close>

lemma contribution_now_cong:
  "cu_candidate c' u' i = cu_candidate c u i \<Longrightarrow> contribution_of c' i = contribution_of c i \<Longrightarrow>
     cu_full_reconstruction u' = cu_full_reconstruction u \<Longrightarrow> contribution_now c' u' i = contribution_now c u i"
  by (simp add: contribution_now_def split: option.split)

lemma construction_now_cong:
  "cu_candidate_entity c' u' i = cu_candidate_entity c u i \<Longrightarrow> entity_state_of c' i = entity_state_of c i \<Longrightarrow>
     cu_full_reconstruction u' = cu_full_reconstruction u \<Longrightarrow> construction_now c' u' i = construction_now c u i"
  by (simp add: construction_now_def split: option.split)

lemma touch_construction_kept:
  assumes run: "touch_construction eid s = (True, t)"
  shows "counts_kept s t" and "counts_wf s \<Longrightarrow> cu_candidate_entity (bs_cache t) (bs_cu t) eid = Some (construction eid t)"
    and "counts_wf s \<Longrightarrow> construction eid t = construction_now (bs_cache s) (bs_cu s) eid"
    and "eid \<noteq> 0"
proof -
  obtain m1 mem1 where m1: "take_alloc (bs_memory s) = (m1, mem1)" by force
  obtain m2 mem2 where m2: "take_alloc mem1 = (m2, mem2)" by force
  obtain c u where touch: "cu_touch_entity m1 m2 (bs_cache s) (bs_cu s) eid = (True, c, u)"
    and t: "t = s\<lparr>bs_cache := c, bs_cu := u, bs_memory := mem2\<rparr>"
    using run by (auto simp: touch_construction_def m1 m2 split: prod.splits)
  show "eid \<noteq> 0" using touch by (simp add: cu_touch_entity_def split: if_splits)
  have frame: "cu_frame (bs_cache s, bs_cu s) (c, u)"
    by (rule cu_step_frame) (rule cu_step.step_touch [OF touch])
  have now: "contribution_now c u i = contribution_now (bs_cache s) (bs_cu s) i"
    "cu_candidate c u i = cu_candidate (bs_cache s) (bs_cu s) i" for i
  proof -
    have "cc_candidates c = cc_candidates (bs_cache s) \<and> cu_owner u = cu_owner (bs_cu s)"
      using touch by (auto simp: cu_touch_entity_def Let_def split: if_splits)
    then show "cu_candidate c u i = cu_candidate (bs_cache s) (bs_cu s) i"
      using frame by (simp add: cu_candidate_def cu_frame_def)
    then show "contribution_now c u i = contribution_now (bs_cache s) (bs_cu s) i"
      using frame by (intro contribution_now_cong) (simp_all add: cu_frame_def contribution_of_def)
  qed
  have entities: "cu_candidate_entity c u i = (if i = eid then Some (construction_now (bs_cache s) (bs_cu s) eid)
      else cu_candidate_entity (bs_cache s) (bs_cu s) i)" if "counts_wf s" for i
    using cu_touch_base [OF that touch, of i] by (simp add: construction_now_def)
  have states: "construction_now c u i = construction_now (bs_cache s) (bs_cu s) i" if "counts_wf s" for i
  proof (cases "i = eid")
    case True
    then show ?thesis by (simp add: construction_now_def [of c] entities [OF that])
  next
    case False
    then show ?thesis
      using frame by (intro construction_now_cong) (simp_all add: entities [OF that] cu_frame_def entity_state_of_def)
  qed
  show "counts_kept s t"
    using cu_touch_wf [OF _ touch] now states entities frame
    by (auto simp: counts_kept_def t cu_frame_def)
  show construction: "cu_candidate_entity (bs_cache t) (bs_cu t) eid = Some (construction eid t)" if "counts_wf s"
    using entities [OF that, of eid] by (auto simp: t construction_def cu_candidate_entity_def tagged_def split: if_splits)
  show "construction eid t = construction_now (bs_cache s) (bs_cu s) eid" if "counts_wf s"
    using construction [OF that] entities [OF that, of eid] by (simp add: t)
qed

lemma put_construction_now:
  assumes wf: "counts_wf s" and live: "cu_candidate_entity (bs_cache s) (bs_cu s) eid \<noteq> None"
  shows "counts_wf (put_construction eid a s)"
    and "contribution_now (bs_cache (put_construction eid a s)) (bs_cu s) = contribution_now (bs_cache s) (bs_cu s)"
    and "construction_now (bs_cache (put_construction eid a s)) (bs_cu s) e =
      (if e = eid then a else construction_now (bs_cache s) (bs_cu s) e)"
    and "cu_candidate (bs_cache (put_construction eid a s)) (bs_cu s) i = cu_candidate (bs_cache s) (bs_cu s) i"
    and "cu_candidate_entity (bs_cache (put_construction eid a s)) (bs_cu s) e =
      (if e = eid then Some a else cu_candidate_entity (bs_cache s) (bs_cu s) e)"
proof -
  note P = cu_wf_parts [OF wf]
  have "tagged (cu_generation (bs_cu s)) (cc_candidate_entities (bs_cache s)) eid \<noteq> None"
    using live P(1) by (simp add: cu_candidate_entity_def)
  note written = tagged_write [OF this, of a]
  show "counts_wf (put_construction eid a s)"
    using cu_write_entity_wf [OF wf live] by (simp add: put_construction_def)
  show cand: "cu_candidate (bs_cache (put_construction eid a s)) (bs_cu s) i = cu_candidate (bs_cache s) (bs_cu s) i" for i
    by (simp add: put_construction_def cu_write_entity_def cu_candidate_def)
  show "contribution_now (bs_cache (put_construction eid a s)) (bs_cu s) = contribution_now (bs_cache s) (bs_cu s)"
  proof
    have "contribution_of (bs_cache (put_construction eid a s)) i = contribution_of (bs_cache s) i" for i
      by (simp add: put_construction_def cu_write_entity_def contribution_of_def)
    then show "contribution_now (bs_cache (put_construction eid a s)) (bs_cu s) i = contribution_now (bs_cache s) (bs_cu s) i" for i
      by (intro contribution_now_cong) (simp_all add: cand)
  qed
  show ent: "cu_candidate_entity (bs_cache (put_construction eid a s)) (bs_cu s) e =
      (if e = eid then Some a else cu_candidate_entity (bs_cache s) (bs_cu s) e)" for e
    using P(1) written by (simp add: put_construction_def cu_write_entity_def cu_candidate_entity_def)
  have "entity_state_of (bs_cache (put_construction eid a s)) e = entity_state_of (bs_cache s) e" for e
    by (simp add: put_construction_def cu_write_entity_def entity_state_of_def)
  then show "construction_now (bs_cache (put_construction eid a s)) (bs_cu s) e =
      (if e = eid then a else construction_now (bs_cache s) (bs_cu s) e)"
    by (simp add: construction_now_def ent split: option.split)
qed

lemma put_construction_cu [simp]:
  "bs_cu (put_construction eid a s) = bs_cu s" "bs_update (put_construction eid a s) = bs_update s"
  "bs_graph (put_construction eid a s) = bs_graph s"
  by (simp_all add: put_construction_def)

lemma materialize_kept:
  assumes run: "gu_materialize eid name s = (Ok, t)"
  shows "counts_kept s t"
  using run unfolding gu_materialize_def
proof (rule on_alloc_kept)
  show "counts_kept s (snd (touch_entity eid s))" by (simp add: untouched_kept)
  fix s1
  assume run1: "on_alloc (touch_construction eid s1) (\<lambda>s. let a = construction eid s in
       if ec_declarations a = 0 \<and> ec_aggregate_declarations a = 0 \<and> ec_aggregate_definitions a = 0
       then gu_remove_entity eid s
       else
         on_alloc (allocate s) (\<lambda>s.
           let s = put_entity eid ((ce_entity (entity_slot eid s))\<lparr>ee_name := name\<rparr>) s in
           on_alloc (touch_identity name s) (\<lambda>s.
             let s = put_identity name eid s in
             if ec_aggregate_declarations a \<noteq> 0 \<or> ec_aggregate_definitions a \<noteq> 0
             then gu_materialize_aggregate eid a s
             else gu_materialize_enumeration eid a s))) = (Ok, t)"
  obtain s2 where s2: "touch_construction eid s1 = (True, s2)" using on_alloc_Ok [OF run1] by blast
  have rest: "counts_untouched s2 (snd (if ec_declarations a = 0 \<and> ec_aggregate_declarations a = 0 \<and> ec_aggregate_definitions a = 0
       then gu_remove_entity eid s2
       else
         on_alloc (allocate s2) (\<lambda>s.
           let s = put_entity eid ((ce_entity (entity_slot eid s))\<lparr>ee_name := name\<rparr>) s in
           on_alloc (touch_identity name s) (\<lambda>s.
             let s = put_identity name eid s in
             if ec_aggregate_declarations a \<noteq> 0 \<or> ec_aggregate_definitions a \<noteq> 0
             then gu_materialize_aggregate eid a s
             else gu_materialize_enumeration eid a s))))" for a
    unfolding Let_def
    by (auto split: if_split intro!: on_alloc_untouched untouched_remove_entity
        intro: untouched_trans [OF untouched_simps(3) untouched_simps(8)]
          untouched_trans [OF untouched_simps(2) untouched_materialize_aggregate]
          untouched_trans [OF untouched_simps(2) untouched_materialize_enumeration])
  have "counts_untouched s2 t"
    using run1 rest [of "construction eid s2"] unfolding s2 on_alloc_def [of "(True, s2)"] prod.case if_True Let_def by simp
  with touch_construction_kept(1) [OF s2] show "counts_kept s1 t"
    by (blast intro: counts_kept_trans untouched_kept)
qed


section \<open>Counting\<close>

definition counted :: "source_contribution_record list \<Rightarrow> build_state \<Rightarrow> bool" where
  "counted rest s \<longleftrightarrow> counts_wf s \<and> tallied rest (bs_cache s) (bs_cu s) \<and>
     cu_full_reconstruction (bs_cu s) = gu_full (bs_update s)"

lemma tallied_cong:
  assumes "contribution_now c' u' = contribution_now c u" "construction_now c' u' = construction_now c u"
  shows "tallied rest c' u' \<longleftrightarrow> tallied rest c u"
proof -
  have "mset (contributions_to c' u' e @ to_entity e rest) = mset (contributions_to c u e @ to_entity e rest)" for e
    using contributions_to_same [of c' u' c u e] assms(1) by simp
  note same = tally_mset [OF this] mset_eq_length [OF this]
  show ?thesis unfolding tallied_def assms(2) using same by simp
qed

lemma counted_kept: "counts_kept s t \<Longrightarrow> counted rest s \<Longrightarrow> counted rest t"
  unfolding counted_def counts_kept_def using tallied_cong [of "bs_cache t" "bs_cu t" "bs_cache s" "bs_cu s" rest] by auto

lemma counted_untouched: "counts_untouched s t \<Longrightarrow> counted rest s \<Longrightarrow> counted rest t"
  by (blast intro: counted_kept untouched_kept)

text \<open>Removing one of the contributions that were taken out.\<close>

lemma remove_delta_counted:
  assumes run: "gu_remove_delta source c s = (Ok, t)" and counted: "counted (c # rest) s"
  shows "counted rest t" and "cu_candidate (bs_cache s) (bs_cu s) i \<noteq> None \<Longrightarrow> cu_candidate (bs_cache t) (bs_cu t) i \<noteq> None"
proof -
  let ?eid = "cr_entity c"
  obtain s1 where s1: "touch_entity ?eid s = (True, s1)"
    and run1: "on_alloc (touch_construction ?eid s1) (\<lambda>s.
        let s = put_construction ?eid (remove_contribution c (construction ?eid s)) s
        in gu_materialize ?eid (ee_name (ce_entity (entity_slot ?eid s))) s) = (Ok, t)"
    using on_alloc_Ok [OF run [unfolded gu_remove_delta_def Let_def [of ?eid]]] by blast
  obtain s2 where s2: "touch_construction ?eid s1 = (True, s2)"
    and run2: "gu_materialize ?eid (ee_name (ce_entity (entity_slot ?eid
        (put_construction ?eid (remove_contribution c (construction ?eid s2)) s2))))
        (put_construction ?eid (remove_contribution c (construction ?eid s2)) s2) = (Ok, t)"
    using on_alloc_Ok [OF run1] unfolding Let_def by blast
  have c1: "counted (c # rest) s1"
    using counted_untouched [OF untouched_simps(9) counted, of ?eid] s1 by simp
  then have wf1: "counts_wf s1" by (simp add: counted_def)
  have c2: "counted (c # rest) s2" by (rule counted_kept [OF touch_construction_kept(1) [OF s2] c1])
  then have wf2: "counts_wf s2" by (simp add: counted_def)
  note live = touch_construction_kept(2) [OF s2 wf1]
  have live': "cu_candidate_entity (bs_cache s2) (bs_cu s2) ?eid \<noteq> None" using live by simp
  note put = put_construction_now [OF wf2 live', of "remove_contribution c (construction ?eid s2)"]
  have now: "construction_now (bs_cache s2) (bs_cu s2) ?eid = construction ?eid s2"
    using live by (simp add: construction_now_def)
  let ?s3 = "put_construction ?eid (remove_contribution c (construction ?eid s2)) s2"
  have "tallied rest (bs_cache ?s3) (bs_cu s2)"
    unfolding tallied_def
  proof (intro allI impI)
    fix e :: nat
    assume e: "e \<noteq> 0"
    let ?cs = "contributions_to (bs_cache s2) (bs_cu s2) e"
    have same: "mset (contributions_to (bs_cache ?s3) (bs_cu s2) e @ to_entity e rest) = mset (?cs @ to_entity e rest)"
      using contributions_to_same [of "bs_cache ?s3" "bs_cu s2" "bs_cache s2" "bs_cu s2" e] put(2) by simp
    note same = tally_mset [OF same] mset_eq_length [OF same]
    have T: "tally (?cs @ to_entity e (c # rest)) (construction_now (bs_cache s2) (bs_cu s2) e)"
      "odr_consistent (?cs @ to_entity e (c # rest))" "length (?cs @ to_entity e (c # rest)) \<le> u32_max"
      using c2 e unfolding counted_def tallied_def by blast+
    show "tally (contributions_to (bs_cache ?s3) (bs_cu s2) e @ to_entity e rest) (construction_now (bs_cache ?s3) (bs_cu s2) e) \<and>
      odr_consistent (contributions_to (bs_cache ?s3) (bs_cu s2) e @ to_entity e rest) \<and>
      length (contributions_to (bs_cache ?s3) (bs_cu s2) e @ to_entity e rest) \<le> u32_max"
    proof (cases "e = ?eid")
      case True
      have front: "mset (?cs @ to_entity e (c # rest)) = mset (c # ?cs @ to_entity e rest)" using True by simp
      have T': "tally (c # ?cs @ to_entity e rest) (construction ?eid s2)" "odr_consistent (c # ?cs @ to_entity e rest)"
        using T(1,2) unfolding tally_mset [OF front] by (simp_all add: True now)
      have "length (?cs @ to_entity e rest) \<le> u32_max" using T(3) by (simp add: True)
      then show ?thesis
        using tally_remove [OF T'] T'(2) unfolding same put(3) by (auto simp: True odr_consistent_def split: if_splits)
    next
      case False
      with T show ?thesis unfolding same put(3) by simp
    qed
  qed
  then have c3: "counted rest ?s3" using put(1) c2 by (simp add: counted_def)
  then show "counted rest t" by (rule counted_kept [OF materialize_kept [OF run2]])
  assume "cu_candidate (bs_cache s) (bs_cu s) i \<noteq> None"
  then have "cu_candidate (bs_cache s1) (bs_cu s1) i \<noteq> None"
    using untouched_simps(9) [of s ?eid] s1 by (simp add: counts_untouched_def)
  then have "cu_candidate (bs_cache ?s3) (bs_cu ?s3) i \<noteq> None"
    using touch_construction_kept(1) [OF s2] wf1 put(4) unfolding counts_kept_def put_construction_cu by metis
  then show "cu_candidate (bs_cache t) (bs_cu t) i \<noteq> None"
    using materialize_kept [OF run2] c3 unfolding counts_kept_def counted_def by blast
qed

lemma remove_deltas_counted:
  assumes "gu_remove_deltas source cs s = (Ok, t)" and "counted (cs @ rest) s"
  shows "counted rest t \<and> (cu_candidate (bs_cache s) (bs_cu s) i \<noteq> None \<longrightarrow> cu_candidate (bs_cache t) (bs_cu t) i \<noteq> None)"
  using assms
proof (induction cs arbitrary: s)
  case (Cons c cs)
  obtain s1 where s1: "gu_remove_delta source c s = (Ok, s1)" "gu_remove_deltas source cs s1 = (Ok, t)"
    using and_then_Ok [OF Cons.prems(1) [unfolded gu_remove_deltas.simps]] by auto
  note one = remove_delta_counted [OF s1(1), of "cs @ rest"]
  from Cons.IH [OF s1(2)] one(1) one(2) [of i] Cons.prems(2) show ?case by simp
qed simp

lemma untouched_remove_types: "counts_untouched s (snd (gu_remove_types hs s))"
proof (induction hs arbitrary: s)
  case (Cons h hs)
  show ?case
    unfolding gu_remove_types.simps
    by (intro and_then_untouched failing_untouched on_alloc_untouched Cons.IH) (simp_all add: untouched_step)
qed simp


section \<open>Beginning a Source\<close>

lemma cu_replace_now:
  assumes wf: "cu_wf c u" and run: "cu_replace m1 m2 c u source = (Ok, c', u')"
  shows "contribution_now c' u' i = (if i = source then new_contribution else contribution_now c u i)"
    and "construction_now c' u' = construction_now c u"
    and "cu_candidate c' u' source = Some new_contribution"
    and "cu_candidate c u source = None" and "source \<noteq> 0"
    and "cu_full_reconstruction u' = cu_full_reconstruction u"
proof -
  note P = cu_wf_parts [OF wf]
  let ?g = "cu_generation u"
  let ?xs = "(grow (source + 1) (new_slot new_contribution) (cc_candidates c))
       [source := \<lparr>slot_generation = ?g, slot_value = new_contribution\<rparr>]"
  have source: "source \<noteq> 0" "\<not> cu_was_replaced c u source"
    and c': "c' = c\<lparr>cc_candidates := ?xs\<rparr>" and u': "u' = u\<lparr>cu_changed := cu_changed u @ [source]\<rparr>"
    using run by (auto simp: cu_replace_def Let_def split: if_splits)
  show "source \<noteq> 0" "cu_full_reconstruction u' = cu_full_reconstruction u" using source u' by simp_all
  show none: "cu_candidate c u source = None"
    using source P(1) by (simp add: was_replaced_tagged cu_candidate_def)
  have cand: "cu_candidate c' u' i = (if i = source then Some new_contribution else cu_candidate c u i)" for i
    using P source by (simp add: cu_candidate_def c' u' tagged_put tagged_grow new_slot_def)
  then show "cu_candidate c' u' source = Some new_contribution" by simp
  show "contribution_now c' u' i = (if i = source then new_contribution else contribution_now c u i)" for i
    by (simp add: contribution_now_def cand, simp add: c' u' contribution_of_def split: option.split)
  show "construction_now c' u' = construction_now c u"
    by (rule ext, rule construction_now_cong) (simp_all add: c' u' cu_candidate_entity_def entity_state_of_def)
qed

lemma multiset_exchange:
  fixes a :: "'a multiset"
  assumes "a' + old = a + v" and "old + r = v + r'"
  shows "a' + r' = a + r"
proof -
  have "(a' + r') + (old + v) = (a' + old) + (v + r')" by (simp only: ac_simps)
  also have "\<dots> = (a + v) + (old + r)" by (simp only: assms)
  also have "\<dots> = (a + r) + (old + v)" by (simp only: ac_simps)
  finally show ?thesis by (rule add_right_imp_eq)
qed

text \<open>What a committed Source contributed is taken out when the Source is replaced.\<close>

lemma tallied_taken_out:
  assumes t: "tallied rest c u"
    and now: "\<And>i. contribution_now c' u' i = (if i = source then v else contribution_now c u i)"
    and states: "construction_now c' u' = construction_now c u"
    and taken: "\<And>e. mset (to_entity e (sc_named (contribution_now c u source))) + mset (to_entity e rest) =
      mset (to_entity e (sc_named v)) + mset (to_entity e rest')"
  shows "tallied rest' c' u'"
proof -
  have "mset (contributions_to c' u' e @ to_entity e rest') = mset (contributions_to c u e @ to_entity e rest)" for e
    using multiset_exchange [OF contributions_to_update [OF now, of e] taken [of e]] by simp
  note same = tally_mset [OF this] mset_eq_length [OF this]
  show ?thesis using t unfolding tallied_def states same .
qed

lemma begin_counted:
  assumes run: "gu_begin_source_replacement source s = (Ok, t)" and counted: "counted [] s"
  shows "counted [] t" and "cu_candidate (bs_cache t) (bs_cu t) source \<noteq> None"
proof -
  let ?u = "bs_update s"
  have wf: "counts_wf s" and tal: "tallied [] (bs_cache s) (bs_cu s)" and full: "cu_full_reconstruction (bs_cu s) = gu_full ?u"
    using counted by (simp_all add: counted_def)
  note P = cu_wf_parts [OF wf]
  have ok: "gu_failure ?u = Ok" "gu_usable s" "source \<noteq> 0"
    using run by (simp_all add: gu_begin_source_replacement_def Let_def split: if_splits)
  note run1 = run [unfolded gu_begin_source_replacement_def Let_def]
  have "counted [] t \<and> cu_candidate (bs_cache t) (bs_cu t) source \<noteq> None"
  proof (cases "cu_was_replaced (bs_cache s) (bs_cu s) source")
    case True
    then have "t = s" using run1 ok by simp
    with True counted ok(3) P(1) show ?thesis by (simp add: was_replaced_tagged cu_candidate_def)
  next
    case fresh: False
    obtain m1 mem1 where m1: "take_alloc (bs_memory s) = (m1, mem1)" by force
    obtain m2 mem2 where m2: "take_alloc mem1 = (m2, mem2)" by force
    obtain st c cu where rep: "cu_replace m1 m2 (bs_cache s) (bs_cu s) source = (st, c, cu)" by (metis prod_cases3)
    let ?s1 = "s\<lparr>bs_cache := c, bs_cu := cu, bs_memory := mem2\<rparr>"
    let ?previous = "cu_committed_state (bs_cache s) (bs_cu s) source"
    have st: "st = Ok" using run1 ok fresh by (auto simp: m1 m2 rep split: if_splits)
    note R = cu_replace_now [OF wf rep [unfolded st]]
    define rest where "rest = (if gu_full ?u then [] else case ?previous of None \<Rightarrow> [] | Some p \<Rightarrow> sc_named p)"
    have old: "sc_named (contribution_now (bs_cache s) (bs_cu s) source) = rest"
      using R(4,5) P(1) full
      by (simp add: contribution_now_def rest_def cu_committed_state_def contribution_of_def new_contribution_def)
    have "tallied rest c cu"
      by (rule tallied_taken_out [OF tal R(1,2)]) (simp add: old new_contribution_def)
    then have s1: "counted rest ?s1"
      using cu_replace_wf [OF wf rep] full R(6) by (simp add: counted_def)
    obtain s2 where s2: "allocate ?s1 = (True, s2)"
      and run2: "(let s = s2\<lparr>bs_update := (bs_update s2)\<lparr>gu_changed_sources := gu_changed_sources (bs_update s2) @ [source]\<rparr>\<rparr>
          in case ?previous of None \<Rightarrow> (Ok, s)
          | Some p \<Rightarrow> if gu_full (bs_update s2) then (Ok, s)
              else and_then (gu_remove_deltas source (sc_named p) s) (gu_remove_types (sc_anonymous_types p))) = (Ok, t)"
      using run1 ok fresh on_alloc_Ok [of "allocate ?s1" _ t] by (auto simp: m1 m2 rep st Let_def)
    let ?s3 = "s2\<lparr>bs_update := (bs_update s2)\<lparr>gu_changed_sources := gu_changed_sources (bs_update s2) @ [source]\<rparr>\<rparr>"
    have "counts_untouched ?s1 s2" using untouched_simps(7) [of ?s1] s2 by simp
    then have un3: "counts_untouched ?s1 ?s3" by (simp add: counts_untouched_def)
    have c3: "counted rest ?s3" by (rule counted_untouched [OF un3 s1])
    have live3: "cu_candidate (bs_cache ?s3) (bs_cu ?s3) source \<noteq> None"
      using un3 R(3) by (simp add: counts_untouched_def)
    have full3: "gu_full (bs_update s2) = gu_full ?u" using un3 by (simp add: counts_untouched_def)
    show ?thesis
    proof (cases "?previous = None \<or> gu_full ?u")
      case True
      then have "t = ?s3" "rest = []" using run2 full3 by (auto simp: Let_def rest_def split: option.splits)
      with c3 live3 show ?thesis by simp
    next
      case False
      then obtain p where p: "?previous = Some p" "\<not> gu_full ?u" by auto
      with run2 full3 have "and_then (gu_remove_deltas source (sc_named p) ?s3) (gu_remove_types (sc_anonymous_types p)) = (Ok, t)"
        by (simp add: Let_def)
      then obtain s4 where s4: "gu_remove_deltas source (sc_named p) ?s3 = (Ok, s4)" and t: "gu_remove_types (sc_anonymous_types p) s4 = (Ok, t)"
        using and_then_Ok by blast
      have un: "counts_untouched s4 t" using untouched_remove_types [of s4 "sc_anonymous_types p"] t by simp
      have s4': "counted [] s4" "cu_candidate (bs_cache s4) (bs_cu s4) source \<noteq> None"
        using remove_deltas_counted [OF s4, of "[]" source] c3 p live3 by (simp_all add: rest_def)
      then show ?thesis using counted_untouched [OF un] un by (simp add: counts_untouched_def)
    qed
  qed
  then show "counted [] t" "cu_candidate (bs_cache t) (bs_cu t) source \<noteq> None" by blast+
qed


section \<open>Declaring\<close>

text \<open>The 32-bit counters do not wrap.\<close>

definition counts_fit :: "build_state \<Rightarrow> bool" where
  "counts_fit s \<longleftrightarrow> (\<forall>e. length (contributions_to (bs_cache s) (bs_cu s) e) \<le> u32_max)"

lemma add_delta_result:
  assumes run: "gu_add_delta source eid c s = (Ok, t)" and wf: "counts_wf s"
  obtains s1 a where "touch_construction eid s = (True, s1)" "add_contribution source c (construction eid s1) = Some a"
    "t = put_construction eid a s1" "counts_wf s1" "counts_wf t"
    "contribution_now (bs_cache t) (bs_cu t) = contribution_now (bs_cache s) (bs_cu s)"
    "\<And>i. cu_candidate (bs_cache s) (bs_cu s) i \<noteq> None \<Longrightarrow> cu_candidate (bs_cache t) (bs_cu t) i \<noteq> None"
proof -
  obtain s1 where s1: "touch_construction eid s = (True, s1)"
    and run1: "(case add_contribution source c (construction eid s1) of
         None \<Rightarrow> (Configuration_failed, s1) | Some a \<Rightarrow> (Ok, put_construction eid a s1)) = (Ok, t)"
    using on_alloc_Ok [OF run [unfolded gu_add_delta_def]] by blast
  then obtain a where a: "add_contribution source c (construction eid s1) = Some a" and t: "t = put_construction eid a s1"
    by (auto split: option.splits)
  note kept = touch_construction_kept [OF s1]
  have wf1: "counts_wf s1" using kept(1) wf by (simp add: counts_kept_def)
  have live: "cu_candidate_entity (bs_cache s1) (bs_cu s1) eid \<noteq> None" using kept(2) [OF wf] by simp
  note put = put_construction_now [OF wf1 live, of a]
  show thesis
  proof (rule that [OF s1 a t wf1])
    show "counts_wf t" unfolding t using put(1) by simp
    show "contribution_now (bs_cache t) (bs_cu t) = contribution_now (bs_cache s) (bs_cu s)"
      using kept(1) wf put(2) by (simp add: t counts_kept_def)
    show "cu_candidate (bs_cache s) (bs_cu s) i \<noteq> None \<Longrightarrow> cu_candidate (bs_cache t) (bs_cu t) i \<noteq> None" for i
      using kept(1) wf put(4) unfolding counts_kept_def t put_construction_cu by metis
  qed
qed

lemma add_delta_counted:
  assumes run: "gu_add_delta source eid c s = (Ok, t)" and counted: "counted [] s"
    and c: "cr_entity c = eid" and fit: "length (contributions_to (bs_cache s) (bs_cu s) eid) < u32_max"
  shows "counted [c] t"
proof -
  have wf: "counts_wf s" using counted by (simp add: counted_def)
  obtain s1 a where s1: "touch_construction eid s = (True, s1)" and a: "add_contribution source c (construction eid s1) = Some a"
    and t: "t = put_construction eid a s1" and wf1: "counts_wf s1"
    using add_delta_result [OF run wf] by metis
  note kept = touch_construction_kept [OF s1]
  have c1: "counted [] s1" by (rule counted_kept [OF kept(1) counted])
  have live: "cu_candidate_entity (bs_cache s1) (bs_cu s1) eid \<noteq> None" using kept(2) [OF wf] by simp
  note put = put_construction_now [OF wf1 live, of a]
  have now: "construction_now (bs_cache s1) (bs_cu s1) eid = construction eid s1"
    using kept(2) [OF wf] by (simp add: construction_now_def)
  have same1: "mset (contributions_to (bs_cache s1) (bs_cu s1) e) = mset (contributions_to (bs_cache s) (bs_cu s) e)" for e
    using kept(1) wf by (intro contributions_to_same) (simp add: counts_kept_def)
  have "tallied [c] (bs_cache t) (bs_cu t)"
    unfolding tallied_def
  proof (intro allI impI)
    fix e :: nat
    assume e: "e \<noteq> 0"
    let ?cs = "contributions_to (bs_cache s1) (bs_cu s1) e"
    have T: "tally ?cs (construction_now (bs_cache s1) (bs_cu s1) e)" "odr_consistent ?cs" "length ?cs \<le> u32_max"
      using c1 e unfolding counted_def tallied_def by auto
    have same: "mset (contributions_to (bs_cache t) (bs_cu t) e) = mset ?cs"
      unfolding t put_construction_cu using put(2) by (intro contributions_to_same) simp
    show "tally (contributions_to (bs_cache t) (bs_cu t) e @ to_entity e [c]) (construction_now (bs_cache t) (bs_cu t) e) \<and>
      odr_consistent (contributions_to (bs_cache t) (bs_cu t) e @ to_entity e [c]) \<and>
      length (contributions_to (bs_cache t) (bs_cu t) e @ to_entity e [c]) \<le> u32_max"
    proof (cases "e = eid")
      case True
      have front: "mset (contributions_to (bs_cache t) (bs_cu t) e @ to_entity e [c]) = mset (c # ?cs)"
        using same c True by simp
      have "length ?cs < u32_max" using mset_eq_length [OF same1, of e] fit True by simp
      moreover have "odr_consistent (c # ?cs)" using add_contribution_accepts [OF T, of source c] a now True by simp
      ultimately show ?thesis
        using tally_add [OF T, of source c a] a now True put(3)
        unfolding tally_mset [OF front] mset_eq_length [OF front] by (simp add: t)
    next
      case False
      then have front: "mset (contributions_to (bs_cache t) (bs_cu t) e @ to_entity e [c]) = mset ?cs"
        using same c by simp
      show ?thesis
        using T put(3) [of e] False unfolding tally_mset [OF front] mset_eq_length [OF front] by (simp add: t)
    qed
  qed
  then show "counted [c] t" using put(1) c1 by (simp add: counted_def t)
qed

lemma cu_write_now:
  assumes wf: "cu_wf c u" and live: "cu_candidate c u source = Some old"
  shows "contribution_now (cu_write c source v) u i = (if i = source then v else contribution_now c u i)"
    and "construction_now (cu_write c source v) u = construction_now c u"
    and "contribution_now c u source = old"
    and "cu_candidate (cu_write c source v) u i = (if i = source then Some v else cu_candidate c u i)"
proof -
  note P = cu_wf_parts [OF wf]
  have "tagged (cu_generation u) (cc_candidates c) source \<noteq> None" using live P(1) by (simp add: cu_candidate_def)
  note written = tagged_write [OF this, of v]
  show cand: "cu_candidate (cu_write c source v) u i = (if i = source then Some v else cu_candidate c u i)" for i
    using P(1) written by (simp add: cu_candidate_def cu_write_def)
  show "contribution_now (cu_write c source v) u i = (if i = source then v else contribution_now c u i)"
    by (simp add: contribution_now_def cand, simp add: cu_write_def contribution_of_def split: option.split)
  show "construction_now (cu_write c source v) u = construction_now c u"
    by (rule ext, rule construction_now_cong) (simp_all add: cu_write_def cu_candidate_entity_def entity_state_of_def)
  show "contribution_now c u source = old" by (simp add: contribution_now_def live)
qed

lemma push_named_result:
  assumes run: "push_named source c s = (True, t)" and wf: "counts_wf s"
    and live: "cu_candidate (bs_cache s) (bs_cu s) source \<noteq> None"
  obtains v where "counts_wf t" "\<And>i. contribution_now (bs_cache t) (bs_cu t) i =
      (if i = source then v else contribution_now (bs_cache s) (bs_cu s) i)"
    "sc_named v = sc_named (contribution_now (bs_cache s) (bs_cu s) source) @ [c]"
    "construction_now (bs_cache t) (bs_cu t) = construction_now (bs_cache s) (bs_cu s)"
    "cu_full_reconstruction (bs_cu t) = cu_full_reconstruction (bs_cu s)" "gu_full (bs_update t) = gu_full (bs_update s)"
proof -
  obtain ok s1 where al: "allocate s = (ok, s1)" by force
  have un: "counts_untouched s s1" using untouched_simps(7) [of s] al by simp
  then have same: "bs_cache s1 = bs_cache s" "bs_cu s1 = bs_cu s" "gu_full (bs_update s1) = gu_full (bs_update s)"
    by (simp_all add: counts_untouched_def)
  obtain old where old: "cu_candidate (bs_cache s) (bs_cu s) source = Some old" using live by blast
  let ?v = "old\<lparr>sc_named := sc_named old @ [c]\<rparr>"
  have t: "t = s1\<lparr>bs_cache := cu_write (bs_cache s) source ?v\<rparr>"
    using run by (auto simp: push_named_def al old same split: if_splits)
  note W = cu_write_now [OF wf old]
  show thesis
    by (rule that [of ?v]) (use old cu_write_wf [OF wf, of source ?v] in \<open>simp_all add: t W same\<close>)
qed

lemma push_named_counted:
  assumes run: "push_named source c s = (True, t)" and counted: "counted (c # rest) s"
    and live: "cu_candidate (bs_cache s) (bs_cu s) source \<noteq> None"
  shows "counted rest t"
proof -
  have wf: "counts_wf s" using counted by (simp add: counted_def)
  obtain v where R: "counts_wf t" "\<And>i. contribution_now (bs_cache t) (bs_cu t) i =
      (if i = source then v else contribution_now (bs_cache s) (bs_cu s) i)"
    "sc_named v = sc_named (contribution_now (bs_cache s) (bs_cu s) source) @ [c]"
    "construction_now (bs_cache t) (bs_cu t) = construction_now (bs_cache s) (bs_cu s)"
    "cu_full_reconstruction (bs_cu t) = cu_full_reconstruction (bs_cu s)" "gu_full (bs_update t) = gu_full (bs_update s)"
    using push_named_result [OF run wf live] by metis
  have "tallied (c # rest) (bs_cache s) (bs_cu s)" using counted by (simp add: counted_def)
  then have "tallied rest (bs_cache t) (bs_cu t)"
    by (rule tallied_taken_out [OF _ R(2,4)]) (simp add: R(3))
  with R counted show ?thesis by (simp add: counted_def)
qed

lemma push_anonymous_counted:
  assumes run: "push_anonymous source h s = (True, t)" and counted: "counted rest s"
  shows "counted rest t"
proof -
  obtain ok s1 where al: "allocate s = (ok, s1)" by force
  have un: "counts_untouched s s1" using untouched_simps(7) [of s] al by simp
  have c1: "counted rest s1" by (rule counted_untouched [OF un counted])
  then have wf: "counts_wf s1" and tal: "tallied rest (bs_cache s1) (bs_cu s1)" by (simp_all add: counted_def)
  show ?thesis
  proof (cases "cu_candidate (bs_cache s1) (bs_cu s1) source")
    case None
    then have "t = s1" using run by (auto simp: push_anonymous_def al)
    with c1 show ?thesis by simp
  next
    case (Some old)
    let ?v = "old\<lparr>sc_anonymous_types := sc_anonymous_types old @ [h]\<rparr>"
    have t: "t = s1\<lparr>bs_cache := cu_write (bs_cache s1) source ?v\<rparr>"
      using run by (auto simp: push_anonymous_def al Some split: if_splits)
    note W = cu_write_now [OF wf Some]
    have "tallied rest (bs_cache t) (bs_cu t)"
      by (rule tallied_taken_out [OF tal, where v = ?v and source = source]) (simp_all add: t W)
    with c1 Some cu_write_wf [OF wf, of source ?v] show ?thesis by (simp add: counted_def t)
  qed
qed


text \<open>A successful declaration, step by step.\<close>

lemma gu_declareD:
  assumes run: "gu_declare name source contribute s = (Ok, eid, h, t)"
  obtains s0 s1 s2 s3 s4 s5 s6 c where "gu_begin_source_replacement source s = (Ok, s0)"
    "touch_identity name s0 = (True, s1)" "gu_entity_id name s1 = (Some eid, s2)"
    "contribute eid s2 = ((Ok, c), s3)" "gu_add_delta source eid c s3 = (Ok, s4)"
    "push_named source c s4 = (True, s5)" "gu_materialize eid name s5 = (Ok, s6)"
    "touch_entity eid s6 = (True, t)" "h = ee_type (ce_entity (entity_slot eid t))"
    "gu_usable s" "name \<noteq> 0" "source \<noteq> 0" "gu_failure (bs_update s) = Ok"
proof -
  have ok: "gu_failure (bs_update s) = Ok" "gu_usable s \<and> name \<noteq> 0 \<and> source \<noteq> 0"
    using run unfolding gu_declare_def by (simp_all split: if_splits)
  note run1 = run [unfolded gu_declare_def]
  obtain st1 s1 where begin1: "failing (and_then (gu_begin_source_replacement source s) (\<lambda>s.
               on_alloc (touch_identity name s) (\<lambda>s. (Ok, s)))) = (st1, s1)" by force
  have st1: "st1 = Ok" using run1 ok unfolding begin1 by (auto split: if_splits)
  obtain s0 where s0: "gu_begin_source_replacement source s = (Ok, s0)" "touch_identity name s0 = (True, s1)"
    using begin1 [unfolded st1 failing_Ok] by (blast dest: and_then_Ok on_alloc_Ok intro: prod.inject)
  obtain e s2 where e: "gu_entity_id name s1 = (e, s2)" by force
  obtain eid' where eid': "e = Some eid'" using run1 ok unfolding begin1 st1 prod.case e by (cases e) (auto split: if_splits)
  obtain st3 c s3 where c: "contribute eid' s2 = ((st3, c), s3)" by (metis prod.collapse)
  have st3: "st3 = Ok" using run1 ok unfolding begin1 st1 prod.case e eid' option.case c by (auto split: if_splits)
  obtain st6 s6 where rest: "failing (and_then (gu_add_delta source eid' c s3) (\<lambda>s.
                             on_alloc (push_named source c s) (\<lambda>s.
                               and_then (gu_materialize eid' name s) (\<lambda>s.
                                 on_alloc (touch_entity eid' s) (\<lambda>s. (Ok, s)))))) = (st6, s6)" by force
  have fin: "st6 = Ok" "eid' = eid" "s6 = t" "h = ee_type (ce_entity (entity_slot eid t))"
    using run1 ok unfolding begin1 st1 prod.case e eid' option.case c st3 rest by (auto split: if_splits)
  obtain s4 where s4: "gu_add_delta source eid c s3 = (Ok, s4)"
    and r4: "on_alloc (push_named source c s4) (\<lambda>s. and_then (gu_materialize eid name s) (\<lambda>s. on_alloc (touch_entity eid s) (\<lambda>s. (Ok, s)))) = (Ok, t)"
    using and_then_Ok [OF rest [unfolded fin(1-3) failing_Ok]] by blast
  obtain s5 where s5: "push_named source c s4 = (True, s5)"
    and r5: "and_then (gu_materialize eid name s5) (\<lambda>s. on_alloc (touch_entity eid s) (\<lambda>s. (Ok, s))) = (Ok, t)"
    using on_alloc_Ok [OF r4] by blast
  obtain s6' where s6': "gu_materialize eid name s5 = (Ok, s6')" and r6: "on_alloc (touch_entity eid s6') (\<lambda>s. (Ok, s)) = (Ok, t)"
    using and_then_Ok [OF r5] by blast
  have "touch_entity eid s6' = (True, t)" using on_alloc_Ok [OF r6] by auto
  with that s0 e c s4 s5 s6' fin ok show thesis unfolding eid' fin(2) st3 by blast
qed

lemma declare_counted:
  assumes run: "gu_declare name source contribute s = (Ok, eid, h, t)" and counted: "counted [] s" and fit: "counts_fit t"
    and contribute: "\<And>s c s'. contribute eid s = ((Ok, c), s') \<Longrightarrow> counts_untouched s s' \<and> cr_entity c = eid"
  shows "counted [] t"
proof -
  obtain s0 s1 s2 s3 s4 s5 s6 c where D: "gu_begin_source_replacement source s = (Ok, s0)"
    "touch_identity name s0 = (True, s1)" "gu_entity_id name s1 = (Some eid, s2)"
    "contribute eid s2 = ((Ok, c), s3)" "gu_add_delta source eid c s3 = (Ok, s4)"
    "push_named source c s4 = (True, s5)" "gu_materialize eid name s5 = (Ok, s6)"
    "touch_entity eid s6 = (True, t)"
    using run by (rule gu_declareD)
  note begun = begin_counted [OF D(1) counted]
  have "counts_untouched s0 s1" using untouched_simps(8) [of s0 name] D(2) by simp
  moreover have "counts_untouched s1 s2" using untouched_simps(13) [of s1 name] D(3) by simp
  moreover have "counts_untouched s2 s3" and c: "cr_entity c = eid" using contribute [OF D(4)] by blast+
  ultimately have un: "counts_untouched s0 s3" by (blast intro: untouched_trans)
  have c3: "counted [] s3" by (rule counted_untouched [OF un begun(1)])
  then have wf3: "counts_wf s3" by (simp add: counted_def)
  have live3: "cu_candidate (bs_cache s3) (bs_cu s3) source \<noteq> None" using begun(2) un by (simp add: counts_untouched_def)
  have wf4: "counts_wf s4" and now4: "contribution_now (bs_cache s4) (bs_cu s4) = contribution_now (bs_cache s3) (bs_cu s3)"
    and live4: "cu_candidate (bs_cache s4) (bs_cu s4) source \<noteq> None"
    using add_delta_result [OF D(5) wf3] live3 by metis+
  obtain v where push: "counts_wf s5" "\<And>i. contribution_now (bs_cache s5) (bs_cu s5) i =
      (if i = source then v else contribution_now (bs_cache s4) (bs_cu s4) i)"
    "sc_named v = sc_named (contribution_now (bs_cache s4) (bs_cu s4) source) @ [c]"
    using push_named_result [OF D(6) wf4 live4] by metis
  have kept: "counts_kept s5 t"
    using materialize_kept [OF D(7)] untouched_kept [of s6 t] untouched_simps(9) [of s6 eid] D(8) counts_kept_trans by auto
  have "length (contributions_to (bs_cache t) (bs_cu t) eid) = length (contributions_to (bs_cache s5) (bs_cu s5) eid)"
    using kept push(1) by (intro mset_eq_length contributions_to_same) (simp add: counts_kept_def)
  moreover have "length (contributions_to (bs_cache s5) (bs_cu s5) eid) = length (contributions_to (bs_cache s4) (bs_cu s4) eid) + 1"
    using arg_cong [OF contributions_to_update [OF push(2), of eid], of size] push(3) c by simp
  moreover have "length (contributions_to (bs_cache s4) (bs_cu s4) eid) = length (contributions_to (bs_cache s3) (bs_cu s3) eid)"
    by (intro mset_eq_length contributions_to_same) (simp add: now4)
  ultimately have "length (contributions_to (bs_cache s3) (bs_cu s3) eid) < u32_max"
    using fit unfolding counts_fit_def by (metis Suc_eq_plus1 Suc_le_eq)
  from add_delta_counted [OF D(5) c3 c this] have "counted [c] s4" .
  then have "counted [] s5" by (rule push_named_counted [OF D(6) _ live4])
  then show ?thesis by (rule counted_kept [OF kept])
qed


lemma anonymous_counted:
  assumes run: "gu_add_anonymous_enum source data s = (Ok, h, t)" and counted: "counted [] s"
  shows "counted [] t"
proof -
  have ok: "gu_failure (bs_update s) = Ok" "\<not> (\<not> gu_usable s \<or> source = 0)"
    using run unfolding gu_add_anonymous_enum_def by (simp_all split: if_splits)
  note run1 = run [unfolded gu_add_anonymous_enum_def, simplified ok if_False simp_thms]
  obtain st1 s1 where b: "failing (gu_begin_source_replacement source s) = (st1, s1)" by force
  have st1: "st1 = Ok" using run ok unfolding gu_add_anonymous_enum_def b by (auto split: if_splits)
  have c1: "counted [] s1" using begin_counted(1) [OF _ counted] b [unfolded st1 failing_Ok] by blast
  obtain m2 s2 where a2: "allocate s1 = (m2, s2)" by force
  obtain st2 c where con: "gu_build_contribution m2 (g_abi (bs_graph s2)) data new_contribution_record = (st2, c)" by force
  have st2: "st2 = Ok" "eb_definition_state data = Enum_defined"
    using run ok unfolding gu_add_anonymous_enum_def b st1 prod.case a2 con by (auto split: if_splits)
  obtain m3 s3 where a3: "allocate s2 = (m3, s3)" by force
  let ?t = "enumeration_entry (eb_scoped data) (cr_fixed c) (cr_underlying c)"
  let ?b = "no_build\<lparr>tb_definition_pending := True, tb_enumerators := payload_values (the (cr_definition c))\<rparr>"
  obtain m4 h4 s4 where slot: "(if \<not> m3 then (False, 0, s3)
       else if length (gu_claimed_free (bs_update s3)) < length (g_free_type_slots (bs_graph s3))
       then gu_claim_free_slot s3 else case gu_new_type_slot s3 of (h, s) \<Rightarrow> (True, h, s)) = (m4, h4, s4)"
    by (metis prod_cases3)
  obtain st5 s5 where last: "failing (on_alloc (m4, s4) (\<lambda>s. on_alloc (touch_type h4 s) (\<lambda>s.
        let s = put_type h4 ((type_slot h4 s)\<lparr>ct_kind := Candidate_replacement, ct_value := Some ?t, ct_build := Some ?b\<rparr>) s
        in on_alloc (push_anonymous source h4 s) (\<lambda>s. (Ok, s))))) = (st5, s5)" by force
  have st5: "st5 = Ok" "s5 = t"
    using run ok st2 unfolding gu_add_anonymous_enum_def b st1 prod.case a2 con a3 Let_def slot last [unfolded Let_def]
    by (auto split: if_splits)
  note L = last [unfolded st5 failing_Ok Let_def]
  have r5: "on_alloc (touch_type h4 s4) (\<lambda>s. on_alloc (push_anonymous source h4
        (put_type h4 ((type_slot h4 s)\<lparr>ct_kind := Candidate_replacement, ct_value := Some ?t, ct_build := Some ?b\<rparr>) s))
        (\<lambda>s. (Ok, s))) = (Ok, t)"
    using on_alloc_Ok [OF L] by (elim exE conjE) simp
  obtain s6 where s6: "touch_type h4 s4 = (True, s6)" and r6: "on_alloc (push_anonymous source h4
        (put_type h4 ((type_slot h4 s6)\<lparr>ct_kind := Candidate_replacement, ct_value := Some ?t, ct_build := Some ?b\<rparr>) s6))
        (\<lambda>s. (Ok, s)) = (Ok, t)"
    using on_alloc_Ok [OF r5] by (elim exE conjE) simp
  have "counts_untouched s1 s2" using untouched_simps(7) [of s1] a2 by simp
  moreover have "counts_untouched s2 s3" using untouched_simps(7) [of s2] a3 by simp
  moreover have "counts_untouched s3 s4"
    using arg_cong [OF slot, of "\<lambda>x. snd (snd x)"] untouched_claim [of s3] untouched_simps(11) [of s3]
    by (auto split: if_splits prod.splits)
  moreover have "counts_untouched s4 s6" using untouched_simps(10) [of s4 h4] s6 by simp
  ultimately have "counts_untouched s1 (put_type h4 ((type_slot h4 s6)\<lparr>ct_kind := Candidate_replacement, ct_value := Some ?t,
      ct_build := Some ?b\<rparr>) s6)"
    by (intro untouched_step) (blast intro: untouched_trans)
  note c6 = counted_untouched [OF this c1]
  obtain s7 where "push_anonymous source h4 (put_type h4 ((type_slot h4 s6)\<lparr>ct_kind := Candidate_replacement, ct_value := Some ?t,
      ct_build := Some ?b\<rparr>) s6) = (True, s7)" "s7 = t"
    using on_alloc_Ok [OF r6] by (elim exE conjE) simp
  from push_anonymous_counted [OF this(1) c6] this(2) show ?thesis by simp
qed

lemma define_members_untouched: "counts_untouched s (snd (gu_define_members h ms mods s))"
proof (cases "h = 0")
  case False
  have "counts_untouched s' (snd (let t = type_slot h s' in case (ct_value t, ct_build t) of
            (Some v, Some b) \<Rightarrow>
              if ct_kind t \<noteq> Candidate_replacement \<or> te_kind v \<noteq> Type_aggregate \<or> \<not> tb_definition_pending b
              then (Configuration_failed, s')
              else on_alloc (allocate s') (\<lambda>s. if \<not> build_members_ok (length mods) [] ms then (Configuration_failed, s)
                  else (Ok, put_type h (t\<lparr>ct_build := Some (b\<lparr>tb_pending_members := ms,
                           tb_pending_modifiers := mods, tb_members := []\<rparr>)\<rparr>) s))
          | _ \<Rightarrow> (Configuration_failed, s')))" for s'
    unfolding Let_def by (auto split: option.split intro!: on_alloc_untouched untouched_step)
  with False show ?thesis
    unfolding gu_define_members_def by (auto intro!: failing_untouched on_alloc_untouched)
qed (simp add: gu_define_members_def)

section \<open>The steps of a build\<close>

text \<open>What a Builder does with the candidate, as long as it succeeds.\<close>

inductive build_step :: "build_state \<Rightarrow> build_state \<Rightarrow> bool" where
  step_replace: "gu_replace_source source s = (Ok, r, t) \<Longrightarrow> build_step s t"
| step_enum: "sr_add_named_enum r name data s = (Ok, eid, h, t) \<Longrightarrow> build_step s t"
| step_type: "sr_add_named_type r name state s = (Ok, eid, h, t) \<Longrightarrow> build_step s t"
| step_anonymous: "sr_add_anonymous_enum r data s = (Ok, h, t) \<Longrightarrow> build_step s t"
| step_members: "sr_define_members r h ms mods s = (Ok, t) \<Longrightarrow> build_step s t"
| step_resolve: "sr_resolve_type r name s = (Ok, ref, t) \<Longrightarrow> build_step s t"
| step_derived: "sr_derived r kind child extent s = (Ok, ref, t) \<Longrightarrow> build_step s t"

lemma build_step_counted:
  assumes "build_step s t" and "counted [] s" and "counts_fit t"
  shows "counted [] t"
  using assms
proof (induction rule: build_step.induct)
  case (step_replace source s r t)
  then have "gu_begin_source_replacement source s = (Ok, t)"
    by (auto simp: gu_replace_source_def Let_def split: if_splits prod.splits)
  from begin_counted(1) [OF this step_replace.prems(1)] show ?case .
next
  case (step_enum r name data s eid h t)
  then obtain source where run: "gu_declare name source (make_enum_contribution name data) s = (Ok, eid, h, t)"
    by (auto simp: sr_add_named_enum_def gu_declare_named_enum_def split: option.splits)
  show ?case
  proof (rule declare_counted [OF run step_enum.prems])
    fix s c s'
    assume made: "make_enum_contribution name data eid s = ((Ok, c), s')"
    obtain ok s1 where al: "allocate s = (ok, s1)" by force
    have s1: "counts_untouched s s1" using untouched_simps(7) [of s] al by simp
    have "cr_entity (snd (gu_build_contribution m abi d out)) = cr_entity out" for m abi d out
      by (simp add: gu_build_contribution_def Let_def split: prod.split option.split)
    from this [of ok "g_abi (bs_graph s1)" data "new_contribution_record\<lparr>cr_entity := eid, cr_name := name\<rparr>"]
    show "counts_untouched s s' \<and> cr_entity c = eid"
      using made s1 by (auto simp: make_enum_contribution_def al)
  qed
next
  case (step_type r name state s eid h t)
  then obtain source where run: "gu_declare name source (make_type_contribution name state) s = (Ok, eid, h, t)"
    by (auto simp: sr_add_named_type_def gu_declare_named_type_def split: option.splits)
  show ?case
    by (rule declare_counted [OF run step_type.prems]) (auto simp: make_type_contribution_def)
next
  case (step_anonymous r data s h t)
  then show ?case by (auto simp: sr_add_anonymous_enum_def split: option.splits intro: anonymous_counted)
next
  case (step_members r h ms mods s t)
  then have "gu_define_members h ms mods s = (Ok, t)" by (auto simp: sr_define_members_def split: option.splits)
  with counted_untouched [OF define_members_untouched [of s h ms mods] step_members.prems(1)] show ?case by simp
next
  case (step_resolve r name s ref t)
  then obtain h where "gu_named_type_ref h s = (Ok, ref, t)" by (auto simp: sr_resolve_type_def split: if_splits option.splits)
  with counted_untouched [OF untouched_named_ref [of s h] step_resolve.prems(1)] show ?case by simp
next
  case (step_derived r kind child extent s ref t)
  then obtain p where "gu_derived_type_ref kind child p s = (Ok, ref, t)" by (auto simp: sr_derived_def split: option.splits)
  with counted_untouched [OF untouched_derived_ref [of s kind child p] step_derived.prems(1)] show ?case by simp
qed


section \<open>Properties\<close>

text \<open>A committed cache whose construction states are what a count of all contributions gives.\<close>

definition committed_contributions :: "source_contribution_cache \<Rightarrow> nat \<Rightarrow> source_contribution_record list" where
  "committed_contributions c e =
     concat (map (\<lambda>s. to_entity e (sc_named (contribution_of c s))) [0..<length (cc_states c)])"

definition cache_tallied :: "source_contribution_cache \<Rightarrow> bool" where
  "cache_tallied c \<longleftrightarrow>
     (\<forall>e. e \<noteq> 0 \<longrightarrow> tally (committed_contributions c e) (entity_state_of c e) \<and>
        odr_consistent (committed_contributions c e) \<and> length (committed_contributions c e) \<le> u32_max)"

lemma committed_contributions_sum:
  assumes "length (cc_states c) \<le> n"
  shows "mset (committed_contributions c e) = (\<Sum>s\<in>{..<n}. mset (to_entity e (sc_named (contribution_of c s))))"
proof -
  have concat: "mset (concat (map f [0..<k])) = (\<Sum>s\<in>{..<k}. mset (f s))" for f :: "nat \<Rightarrow> source_contribution_record list" and k
    by (induction k) simp_all
  have "(\<Sum>s\<in>{..<n}. mset (to_entity e (sc_named (contribution_of c s)))) =
      (\<Sum>s\<in>{..<length (cc_states c)}. mset (to_entity e (sc_named (contribution_of c s))))"
    using assms by (intro sum.mono_neutral_right) (auto simp: contribution_of_def new_contribution_def)
  then show ?thesis unfolding committed_contributions_def concat by simp
qed

text \<open>C18: A contribution is accepted for an entity exactly when the one-definition rule allows it beside
  the ones the entity already has: same kind of entity, and for enumerations the same scopedness, the
  same fixedness and the same fixed underlying type, with at most one definition. The construction state
  decides this from its counters alone, and the state it becomes counts the new contribution.\<close>

theorem contribution_accepted_iff:
  assumes "tally cs a" and "odr_consistent cs" and "length cs \<le> u32_max"
  shows "case add_contribution source c a of
      None \<Rightarrow> \<not> odr_consistent (c # cs)
    | Some a' \<Rightarrow> odr_consistent (c # cs) \<and> tally (c # cs) a'"
  using add_contribution_accepts [OF assms, of source c] tally_add [OF assms, of source c]
  by (auto split: option.split)



section \<open>Examples\<close>

text \<open>An incremental build over an empty graph: Source 1 adds an aggregate and an enumeration.\<close>

definition example_start :: build_state where
  "example_start =
     (case g_begin_update False (snd (g_initialize True example_abi no_graph)) of (g, gu) \<Rightarrow>
      case cc_begin_update False new_contribution_cache of (c, cu) \<Rightarrow>
        \<lparr>bs_graph = g, bs_cache = c, bs_cu = cu, bs_update = gu, bs_memory = []\<rparr>)"

definition example_replace :: "status_code \<times> source_replacement \<times> build_state" where
  "example_replace = gu_replace_source 1 example_start"

definition example_enum_data :: enum_build_data where
  "example_enum_data =
     \<lparr>eb_definition_state = Enum_defined, eb_scoped = True, eb_explicit_underlying = Some Character,
      eb_enumerators = []\<rparr>"

definition example_enum :: "status_code \<times> nat \<times> nat \<times> build_state" where
  "example_enum = sr_add_named_enum (Some 1) 4 example_enum_data (snd (snd example_replace))"

definition example_type :: "status_code \<times> nat \<times> nat \<times> build_state" where
  "example_type = sr_add_named_type (Some 1) 3 Aggregate_defined (snd (snd (snd example_enum)))"

definition example_candidate :: build_state where
  "example_candidate = snd (snd (snd example_type))"

definition example_ready :: "status_code \<times> source_contribution_cache \<times> source_contribution_cache_update" where
  "example_ready = cu_prepare_publish True True (bs_cache example_candidate) (bs_cu example_candidate)"

definition example_published :: "source_contribution_cache \<times> source_contribution_cache_update" where
  "example_published = cu_publish_prepared (fst (snd example_ready)) (snd (snd example_ready))"

lemma counts_fit_total:
  assumes "length (concat (map (\<lambda>i. sc_named (contribution_now (bs_cache s) (bs_cu s) i)) [0..<source_bound (bs_cache s)])) \<le> u32_max"
  shows "counts_fit s"
  unfolding counts_fit_def
proof
  fix e
  have "length (concat (map (\<lambda>i. to_entity e (f i)) is)) \<le> length (concat (map f is))" for f :: "nat \<Rightarrow> source_contribution_record list" and "is"
    by (induction "is") (auto simp: to_entity_def intro!: add_mono length_filter_le)
  then have "length (contributions_to (bs_cache s) (bs_cu s) e) \<le>
      length (concat (map (\<lambda>i. sc_named (contribution_now (bs_cache s) (bs_cu s) i)) [0..<source_bound (bs_cache s)]))"
    unfolding contributions_to_def .
  with assms show "length (contributions_to (bs_cache s) (bs_cu s) e) \<le> u32_max" by simp
qed

lemma example_runs:
  "fst example_replace = Ok" "fst example_enum = Ok" "fst example_type = Ok" "fst example_ready = Ok"
  "counts_fit (snd (snd example_replace))" "counts_fit (snd (snd (snd example_enum)))" "counts_fit example_candidate"
  by (code_simp, code_simp, code_simp, code_simp, rule counts_fit_total, code_simp, rule counts_fit_total, code_simp, rule counts_fit_total, code_simp)

lemma example_steps: "(\<lambda>s t. build_step s t \<and> counts_fit t)\<^sup>*\<^sup>* example_start example_candidate"
proof -
  let ?R = "\<lambda>s t. build_step s t \<and> counts_fit t"
  have "gu_replace_source 1 example_start = (Ok, fst (snd example_replace), snd (snd example_replace))"
    using example_runs(1) by (metis example_replace_def prod.collapse)
  then have 1: "?R example_start (snd (snd example_replace))" using step_replace example_runs(5) by blast
  have "sr_add_named_enum (Some 1) 4 example_enum_data (snd (snd example_replace)) =
      (Ok, fst (snd example_enum), fst (snd (snd example_enum)), snd (snd (snd example_enum)))"
    using example_runs(2) by (metis example_enum_def prod.collapse)
  then have 2: "?R (snd (snd example_replace)) (snd (snd (snd example_enum)))" using step_enum example_runs(6) by blast
  have "sr_add_named_type (Some 1) 3 Aggregate_defined (snd (snd (snd example_enum))) =
      (Ok, fst (snd example_type), fst (snd (snd example_type)), example_candidate)"
    using example_runs(3) by (metis example_type_def example_candidate_def prod.collapse)
  then have 3: "?R (snd (snd (snd example_enum))) example_candidate" using step_type example_runs(7) by blast
  show ?thesis
    by (rule converse_rtranclp_into_rtranclp [of ?R, OF 1 converse_rtranclp_into_rtranclp [of ?R, OF 2 r_into_rtranclp [of ?R, OF 3]]])
qed

lemma contribution_accepted_iff_witness:
  "add_contribution 2 (new_contribution_record\<lparr>cr_kind := Aggregate_type\<rparr>) (new_entity_state\<lparr>ec_aggregate_declarations := 1\<rparr>) \<noteq> None"
proof -
  let ?c = "new_contribution_record\<lparr>cr_kind := Aggregate_type\<rparr>"
  have one: "tally [?c] (new_entity_state\<lparr>ec_aggregate_declarations := 1\<rparr>)"
    using tally_new by (simp add: tally_def new_contribution_record_def defining_def enum_contribution_def)
  have "odr_consistent [?c]" "length [?c] \<le> u32_max"
    by (simp_all add: odr_consistent_def u32_max_def)
  from contribution_accepted_iff [OF one this, of ?c 2]
  show ?thesis by (auto simp: odr_consistent_def new_contribution_record_def defining_def split: option.splits)
qed



end
