(* ===== verification/GraphFrame.thy ===== *)
theory GraphFrame
  imports GraphCount
begin

text \<open>
  What no operation of a build does. A locale states once how a relation between build states that
  every elementary change respects is respected by the operations of the candidate, failed ones
  included; its interpretations are that the committed state is untouched and that the TypeRef tables
  stay hash-consed.
\<close>

section \<open>Elementary changes\<close>

locale build_frame =
  fixes R :: "build_state \<Rightarrow> build_state \<Rightarrow> bool"
  assumes refl: "R s s"
    and trans: "R s t \<Longrightarrow> R t u \<Longrightarrow> R s u"
    and touch_identity: "R s (snd (touch_identity name s))"
    and touch_entity: "R s (snd (touch_entity eid s))"
    and touch_type: "R s (snd (touch_type h s))"
    and put_identity: "R s (put_identity name v s)"
    and put_entity: "R s (put_entity eid e s)"
    and put_type: "R s (put_type h y s)"
    and allocate: "R s (snd (allocate s))"
    and set_failure: "st \<noteq> Ok \<Longrightarrow> R s (set_failure st s)"
    and claimed: "R s (s\<lparr>bs_update := (bs_update s)\<lparr>gu_claimed_free := hs\<rparr>\<rparr>)"
    and type_slots: "R s (s\<lparr>bs_update := (bs_update s)\<lparr>gu_next_type_slot := n\<rparr>\<rparr>)"
    and stable_ids: "R s (s\<lparr>bs_update := (bs_update s)\<lparr>gu_next_stable_id := n\<rparr>\<rparr>)"
    and sources: "R s (s\<lparr>bs_update := (bs_update s)\<lparr>gu_changed_sources := xs\<rparr>\<rparr>)"
    and named_ref: "R s (snd (snd (gu_named_type_ref h s)))"
    and touch_construction: "R s (snd (touch_construction eid s))"
    and put_construction: "R s (put_construction eid a s)"
    and replace: "cu_replace m1 m2 (bs_cache s) (bs_cu s) source = (st', c, cu) \<Longrightarrow>
      R s (s\<lparr>bs_cache := c, bs_cu := cu, bs_memory := mem\<rparr>)"
    and write_candidate: "R s (s\<lparr>bs_cache := cu_write (bs_cache s) source w\<rparr>)"
begin

lemma then_step:
  "R s t \<Longrightarrow> R s (put_identity name v t)"
  "R s t \<Longrightarrow> R s (put_entity eid e t)"
  "R s t \<Longrightarrow> R s (put_type h y t)"
  "R s t \<Longrightarrow> st \<noteq> Ok \<Longrightarrow> R s (set_failure st t)"
  "R s t \<Longrightarrow> R s (put_construction eid a t)"
  by (blast intro: trans put_identity put_entity put_type set_failure put_construction)+

lemma on_alloc:
  assumes "R s (snd r)" and "\<And>s'. R s' (snd (k s'))"
  shows "R s (snd (on_alloc r k))"
proof -
  obtain ok s1 where r: "r = (ok, s1)" by force
  have "R s1 (snd (k s1))" by (rule assms(2))
  with assms(1) show ?thesis unfolding r by (auto simp: on_alloc_def intro: trans)
qed

lemma and_then:
  assumes "R s (snd r)" and "\<And>s'. R s' (snd (k s'))"
  shows "R s (snd (and_then r k))"
proof -
  obtain st s1 where r: "r = (st, s1)" by force
  have "R s1 (snd (k s1))" by (rule assms(2))
  with assms(1) show ?thesis unfolding r by (auto simp: and_then_def intro: trans)
qed

lemma failing: "R s (snd r) \<Longrightarrow> R s (snd (failing r))"
  by (cases r) (auto simp: failing_def intro: then_step)

lemma conditional: "R s (snd a) \<Longrightarrow> R s (snd b) \<Longrightarrow> R s (snd (if c then a else b))"
  by simp

subsection \<open>Materialization\<close>

lemma new_type_slot: "R s (snd (gu_new_type_slot s))"
  by (simp add: gu_new_type_slot_def type_slots Let_def)

lemma claim_free_slot: "R s (snd (snd (gu_claim_free_slot s)))"
proof -
  obtain ok s1 where al: "allocate s = (ok, s1)" by force
  then have "R s s1" using allocate [of s] by simp
  moreover have "bs_update s1 = bs_update s" using al by (auto simp: allocate_def split: prod.splits)
  then have "R s1 (s1\<lparr>bs_update := bs_update s\<lparr>gu_claimed_free := hs\<rparr>\<rparr>)" for hs
    using claimed [of s1 hs] by simp
  ultimately show ?thesis
    unfolding gu_claim_free_slot_def Let_def al by (auto intro: trans)
qed

lemma take_members: "R s (snd (gu_take_members h b s))"
  unfolding gu_take_members_def Let_def
  by (auto split: option.splits candidate_type_kind.splits intro: refl put_type)

lemma type_slot_for: "R s (snd (snd (gu_type_slot_for eid s)))"
proof -
  let ?u = "bs_update s" and ?e = "ce_entity (entity_slot eid s)"
  obtain ok1 s1 where touch: "(if \<not> gu_full ?u \<and> eid \<noteq> 0 then touch_entity eid s else (True, s)) = (ok1, s1)" by force
  have s1: "R s s1"
    using arg_cong [OF touch, of snd] touch_entity [of s eid] refl by (auto split: if_splits)
  obtain ok2 h s2 where slot: "(if \<not> gu_full ?u \<and> length (gu_claimed_free (bs_update s1)) < length (g_free_type_slots (bs_graph s1))
      then gu_claim_free_slot s1 else case gu_new_type_slot s1 of (h, s) \<Rightarrow> (True, h, s)) = (ok2, h, s2)"
    by (metis prod_cases3)
  have "R s1 s2"
    using arg_cong [OF slot, of "\<lambda>x. snd (snd x)"] claim_free_slot [of s1] new_type_slot [of s1]
    by (auto split: if_splits prod.splits)
  then have s2: "R s s2" using s1 trans by blast
  show ?thesis
    unfolding gu_type_slot_for_def Let_def touch prod.case slot
    by (cases ok1) (simp_all add: s1 s2 then_step refl)
qed

lemma assign_type: "R s (snd (gu_assign_type eid t s))"
proof -
  obtain ok h s1 where slot: "gu_type_slot_for eid s = (ok, h, s1)" by (metis prod_cases3)
  have s1: "R s s1" using type_slot_for [of s eid] slot by simp
  have "R s1 (snd (on_alloc (touch_type h s1) (\<lambda>s.
      let s = put_type h ((type_slot h s)\<lparr>ct_kind := Candidate_replacement, ct_value := Some t\<rparr>) s
      in case gu_named_type_ref (ee_type (ce_entity (entity_slot eid s))) s of (st, ref, s) \<Rightarrow> (st, s))))"
  proof (rule on_alloc [OF touch_type])
    fix s'
    let ?s = "put_type h ((type_slot h s')\<lparr>ct_kind := Candidate_replacement, ct_value := Some t\<rparr>) s'"
    have "R s' (snd (snd (gu_named_type_ref handle ?s)))" for handle
      using trans [OF put_type named_ref] by blast
    then show "R s' (snd (let s = ?s in
        case gu_named_type_ref (ee_type (ce_entity (entity_slot eid s))) s of (st, ref, s) \<Rightarrow> (st, s)))"
      unfolding Let_def by (simp split: prod.split) (metis snd_conv)
  qed
  with s1 show ?thesis
    unfolding gu_assign_type_def slot by (auto intro: trans)
qed

lemma remove_entity: "R s (snd (gu_remove_entity eid s))"
  unfolding gu_remove_entity_def Let_def
  by (rule on_alloc) (auto intro: then_step refl touch_type)

lemma put_build: "R s t \<Longrightarrow> R s (gu_put_build eid b t)"
  unfolding gu_put_build_def Let_def by (rule then_step)

lemma materialize_aggregate: "R s (snd (gu_materialize_aggregate eid a s))"
  unfolding gu_materialize_aggregate_def Let_def
proof (rule on_alloc [OF allocate])
  fix s'
  let ?h = "ee_type (ce_entity (entity_slot eid s'))" and ?b = "no_build\<lparr>tb_definition_pending := ec_aggregate_definitions a \<noteq> 0\<rparr>"
  obtain b s2 where take: "gu_take_members ?h ?b s' = (b, s2)" by force
  have "R s' s2" using take_members [of s' ?h ?b] by (simp add: take)
  then show "R s' (snd (case gu_take_members ?h ?b s' of (b, s) \<Rightarrow>
      and_then (gu_assign_type eid aggregate_entry (put_entity eid ((ce_entity (entity_slot eid s'))\<lparr>ee_kind := Aggregate_type\<rparr>) s))
        (\<lambda>s. (Ok, gu_put_build eid b s))))"
    unfolding take prod.case
    by (intro and_then trans [OF _ assign_type] then_step) (simp_all add: put_build refl)
qed

lemma materialize_enumeration: "R s (snd (gu_materialize_enumeration eid a s))"
  unfolding gu_materialize_enumeration_def Let_def
  by (intro on_alloc and_then trans [OF _ assign_type] then_step conditional)
    (simp_all add: put_build refl allocate)

lemma materialize: "R s (snd (gu_materialize eid name s))"
  unfolding gu_materialize_def Let_def
  by (intro on_alloc touch_entity touch_construction allocate conditional remove_entity
      trans [OF put_entity touch_identity] trans [OF put_identity materialize_aggregate]
      trans [OF put_identity materialize_enumeration])

lemma remove_delta: "R s (snd (gu_remove_delta source c s))"
  unfolding gu_remove_delta_def Let_def
  by (intro on_alloc touch_entity touch_construction trans [OF put_construction materialize])

lemma remove_deltas: "R s (snd (gu_remove_deltas source cs s))"
  by (induction cs arbitrary: s) (simp_all add: refl and_then failing remove_delta)

lemma remove_types: "R s (snd (gu_remove_types hs s))"
proof (induction hs arbitrary: s)
  case (Cons h hs)
  show ?case
    unfolding gu_remove_types.simps
    by (intro and_then failing on_alloc Cons.IH touch_type) (simp add: put_type)
qed (simp add: refl)

subsection \<open>Sources and declarations\<close>

lemma begin_source_replacement: "R s (snd (gu_begin_source_replacement source s))"
proof -
  obtain m1 mem1 where m1: "take_alloc (bs_memory s) = (m1, mem1)" by force
  obtain m2 mem2 where m2: "take_alloc mem1 = (m2, mem2)" by force
  obtain st c cu where rep: "cu_replace m1 m2 (bs_cache s) (bs_cu s) source = (st, c, cu)" by (metis prod_cases3)
  let ?s1 = "s\<lparr>bs_cache := c, bs_cu := cu, bs_memory := mem2\<rparr>"
  have s1: "R s ?s1" by (rule replace [OF rep])
  have rest: "R t (snd (let u = bs_update t; s = t\<lparr>bs_update := u\<lparr>gu_changed_sources := gu_changed_sources u @ [source]\<rparr>\<rparr>
       in case p of None \<Rightarrow> (Ok, s)
          | Some p \<Rightarrow> if gu_full u then (Ok, s)
              else and_then (gu_remove_deltas source (sc_named p) s) (gu_remove_types (sc_anonymous_types p))))" for t p
    unfolding Let_def
    by (cases p) (auto intro: sources trans [OF sources] and_then remove_deltas remove_types)
  have "R s (snd (failing (on_alloc (allocate ?s1) (\<lambda>s.
       let u = bs_update s; s = s\<lparr>bs_update := u\<lparr>gu_changed_sources := gu_changed_sources u @ [source]\<rparr>\<rparr>
       in case p of None \<Rightarrow> (Ok, s)
          | Some p \<Rightarrow> if gu_full u then (Ok, s)
              else and_then (gu_remove_deltas source (sc_named p) s) (gu_remove_types (sc_anonymous_types p))))))" for p
    by (rule trans [OF s1], intro failing on_alloc allocate rest)
  then show ?thesis
    unfolding gu_begin_source_replacement_def Let_def m1 m2 prod.case rep
    by (auto intro: refl then_step s1)
qed

lemma entity_id: "R s (snd (gu_entity_id name s))"
  unfolding gu_entity_id_def Let_def by (auto intro: refl then_step stable_ids)

lemma push_named: "R s (snd (push_named source c s))"
proof -
  obtain ok s1 where al: "allocate s = (ok, s1)" by force
  then have "R s s1" using allocate [of s] by simp
  then show ?thesis
    unfolding push_named_def al by (auto split: option.split intro: trans write_candidate)
qed

lemma push_anonymous: "R s (snd (push_anonymous source h s))"
proof -
  obtain ok s1 where al: "allocate s = (ok, s1)" by force
  then have "R s s1" using allocate [of s] by simp
  then show ?thesis
    unfolding push_anonymous_def al by (auto split: option.split intro: trans write_candidate)
qed

lemma add_delta: "R s (snd (gu_add_delta source eid c s))"
  unfolding gu_add_delta_def
  by (rule on_alloc [OF touch_construction]) (auto split: option.split intro: refl put_construction)

lemma named_declaration:
  assumes contribute: "\<And>eid s. R s (snd (contribute eid s))"
  shows "R s (snd (snd (snd (gu_declare name source contribute s))))"
proof -
  have first: "R s (snd (failing (and_then (gu_begin_source_replacement source s) (\<lambda>s.
               on_alloc (touch_identity name s) (\<lambda>s. (Ok, s))))))"
    by (intro failing and_then begin_source_replacement on_alloc touch_identity) (simp add: refl)
  have last: "R s (snd (failing (and_then (gu_add_delta source eid c s) (\<lambda>s.
                             on_alloc (push_named source c s) (\<lambda>s.
                               and_then (gu_materialize eid name s) (\<lambda>s.
                                 on_alloc (touch_entity eid s) (\<lambda>s. (Ok, s))))))))" for eid c s
    by (intro failing and_then add_delta on_alloc push_named materialize touch_entity) (simp add: refl)
  obtain st1 s1 where begin1: "failing (and_then (gu_begin_source_replacement source s) (\<lambda>s.
               on_alloc (touch_identity name s) (\<lambda>s. (Ok, s)))) = (st1, s1)" by force
  have s1: "R s s1" using first by (simp add: begin1)
  obtain e s2 where e: "gu_entity_id name s1 = (e, s2)" by force
  have s2: "R s s2" using trans [OF s1 entity_id [of s1 name]] by (simp add: e)
  show ?thesis
  proof (cases e)
    case None
    show ?thesis
      unfolding gu_declare_def begin1 prod.case e None option.case by (auto intro: refl s1 s2 then_step)
  next
    case (Some eid)
    obtain st3 c s3 where c: "contribute eid s2 = ((st3, c), s3)" by (metis prod.collapse)
    have s3: "R s s3" using trans [OF s2 contribute [of s2 eid]] by (simp add: c)
    obtain st6 s6 where rest: "failing (and_then (gu_add_delta source eid c s3) (\<lambda>s.
                             on_alloc (push_named source c s) (\<lambda>s.
                               and_then (gu_materialize eid name s) (\<lambda>s.
                                 on_alloc (touch_entity eid s) (\<lambda>s. (Ok, s)))))) = (st6, s6)" by force
    have s6: "R s s6" using trans [OF s3 last [of s3 eid c]] by (simp add: rest)
    show ?thesis
      unfolding gu_declare_def begin1 prod.case e Some option.case c rest by (auto intro: refl s1 s3 s6 then_step)
  qed
qed

lemma anonymous_enum: "R s (snd (snd (gu_add_anonymous_enum source data s)))"
proof -
  obtain st1 s1 where b: "failing (gu_begin_source_replacement source s) = (st1, s1)" by force
  have s1: "R s s1" using failing [OF begin_source_replacement [of s source]] by (simp add: b)
  obtain m2 s2 where a2: "allocate s1 = (m2, s2)" by force
  have s2: "R s s2" using trans [OF s1 allocate [of s1]] by (simp add: a2)
  obtain st2 c where con: "gu_build_contribution m2 (g_abi (bs_graph s2)) data new_contribution_record = (st2, c)" by force
  obtain m3 s3 where a3: "allocate s2 = (m3, s3)" by force
  have s3: "R s s3" using trans [OF s2 allocate [of s2]] by (simp add: a3)
  let ?t = "enumeration_entry (eb_scoped data) (cr_fixed c) (cr_underlying c)"
  let ?b = "no_build\<lparr>tb_definition_pending := True, tb_enumerators := payload_values (the (cr_definition c))\<rparr>"
  obtain m4 h4 s4 where slot: "(if \<not> m3 then (False, 0, s3)
       else if length (gu_claimed_free (bs_update s3)) < length (g_free_type_slots (bs_graph s3))
       then gu_claim_free_slot s3 else case gu_new_type_slot s3 of (h, s) \<Rightarrow> (True, h, s)) = (m4, h4, s4)"
    by (metis prod_cases3)
  have "R s3 s4"
    using arg_cong [OF slot, of "\<lambda>x. snd (snd x)"] claim_free_slot [of s3] new_type_slot [of s3] refl
    by (auto split: if_splits prod.splits)
  then have s4: "R s s4" by (rule trans [OF s3])
  obtain st5 s5 where last: "failing (on_alloc (m4, s4) (\<lambda>s. on_alloc (touch_type h4 s) (\<lambda>s.
        let s = put_type h4 ((type_slot h4 s)\<lparr>ct_kind := Candidate_replacement, ct_value := Some ?t, ct_build := Some ?b\<rparr>) s
        in on_alloc (push_anonymous source h4 s) (\<lambda>s. (Ok, s))))) = (st5, s5)" by force
  have "R s (snd (failing (on_alloc (m4, s4) (\<lambda>s. on_alloc (touch_type h4 s) (\<lambda>s.
        let s = put_type h4 ((type_slot h4 s)\<lparr>ct_kind := Candidate_replacement, ct_value := Some ?t, ct_build := Some ?b\<rparr>) s
        in on_alloc (push_anonymous source h4 s) (\<lambda>s. (Ok, s)))))))"
    unfolding Let_def
    by (intro failing on_alloc touch_type trans [OF put_type push_anonymous]) (simp_all add: s4 refl)
  then have s5: "R s s5" by (simp only: last snd_conv)
  show ?thesis
    unfolding gu_add_anonymous_enum_def b prod.case a2 con a3 Let_def slot last [unfolded Let_def]
    by (auto intro: refl s1 s2 s5 then_step)
qed

lemma define_members: "R s (snd (gu_define_members h ms mods s))"
proof (cases "h = 0")
  case False
  have "R s' (snd (let t = type_slot h s' in case (ct_value t, ct_build t) of
            (Some v, Some b) \<Rightarrow>
              if ct_kind t \<noteq> Candidate_replacement \<or> te_kind v \<noteq> Type_aggregate \<or> \<not> tb_definition_pending b
              then (Configuration_failed, s')
              else on_alloc (allocate s') (\<lambda>s. if \<not> build_members_ok (length mods) [] ms then (Configuration_failed, s)
                  else (Ok, put_type h (t\<lparr>ct_build := Some (b\<lparr>tb_pending_members := ms,
                           tb_pending_modifiers := mods, tb_members := []\<rparr>)\<rparr>) s))
          | _ \<Rightarrow> (Configuration_failed, s')))" for s'
    unfolding Let_def by (auto split: option.split intro!: on_alloc allocate then_step refl)
  with False show ?thesis
    unfolding gu_define_members_def by (auto intro!: failing on_alloc touch_type)
qed (simp add: gu_define_members_def refl)

subsection \<open>The operations of a Source replacement\<close>

lemma replace_source: "R s (snd (snd (gu_replace_source source s)))"
proof -
  obtain st t where b: "gu_begin_source_replacement source s = (st, t)" by force
  have "R s t" using begin_source_replacement [of s source] by (simp add: b)
  then show ?thesis
    unfolding gu_replace_source_def Let_def b by (auto intro: refl then_step)
qed

lemma add_named_enum: "R s (snd (snd (snd (sr_add_named_enum r name data s))))"
proof -
  have "R t (snd (make_enum_contribution name data eid t))" for eid t
    using allocate [of t] unfolding make_enum_contribution_def by (cases "allocate t") simp
  then show ?thesis
    by (auto simp: sr_add_named_enum_def gu_declare_named_enum_def split: option.split intro: refl named_declaration)
qed

lemma add_named_type: "R s (snd (snd (snd (sr_add_named_type r name state s))))"
  by (auto simp: sr_add_named_type_def gu_declare_named_type_def make_type_contribution_def split: option.split
      intro!: refl named_declaration)

lemma add_anonymous_enum: "R s (snd (snd (sr_add_anonymous_enum r data s)))"
  by (auto simp: sr_add_anonymous_enum_def split: option.split intro: refl anonymous_enum)

lemma source_members: "R s (snd (sr_define_members r h ms mods s))"
  by (auto simp: sr_define_members_def split: option.split intro: refl define_members)

lemma resolve_type: "R s (snd (snd (sr_resolve_type r name s)))"
  by (auto simp: sr_resolve_type_def split: option.split intro: refl named_ref)

end

text \<open>With the modified TypeRefs, every operation a Builder has.\<close>

inductive build_action :: "build_state \<Rightarrow> build_state \<Rightarrow> bool" where
  "gu_replace_source source s = (st, r, t) \<Longrightarrow> build_action s t"
| "sr_add_named_enum r name data s = (st, eid, h, t) \<Longrightarrow> build_action s t"
| "sr_add_named_type r name state s = (st, eid, h, t) \<Longrightarrow> build_action s t"
| "sr_add_anonymous_enum r data s = (st, h, t) \<Longrightarrow> build_action s t"
| "sr_define_members r h ms mods s = (st, t) \<Longrightarrow> build_action s t"
| "sr_resolve_type r name s = (st, ref, t) \<Longrightarrow> build_action s t"
| "sr_derived r kind child extent s = (st, ref, t) \<Longrightarrow> build_action s t"

locale build_frame_derived = build_frame +
  assumes derived_ref: "R s (snd (snd (gu_derived_type_ref kind child payload s)))"
begin

lemma action: "build_action s t \<Longrightarrow> R s t"
proof (induction rule: build_action.induct)
  case (1 source s st r t)
  then show ?case using replace_source [of s source] by simp
next
  case (2 r name data s st eid h t)
  then show ?case using add_named_enum [of s r name data] by simp
next
  case (3 r name state s st eid h t)
  then show ?case using add_named_type [of s r name state] by simp
next
  case (4 r data s st h t)
  then show ?case using add_anonymous_enum [of s r data] by simp
next
  case (5 r h ms mods s st t)
  then show ?case using source_members [of s r h ms mods] by simp
next
  case (6 r name s st ref t)
  then show ?case using resolve_type [of s r name] by simp
next
  case (7 r kind child extent s st ref t)
  then show ?case
    using derived_ref [of s kind child] refl [of s] by (auto simp: sr_derived_def split: option.splits) (metis snd_conv)+
qed

lemma actions: "build_action\<^sup>*\<^sup>* s t \<Longrightarrow> R s t"
  by (induction rule: rtranclp_induct) (blast intro: refl trans action)+

end

section \<open>The committed state is untouched\<close>

text \<open>What readers see while a candidate is built, and what the candidate never changes of itself.\<close>

definition committed_graph :: "graph \<Rightarrow> graph" where
  "committed_graph g = g\<lparr>g_candidate_identities := [], g_candidate_entities := [], g_candidate_types := []\<rparr>"

definition same_commit :: "build_state \<Rightarrow> build_state \<Rightarrow> bool" where
  "same_commit s t \<longleftrightarrow>
     committed_graph (bs_graph t) = committed_graph (bs_graph s) \<and>
     cc_states (bs_cache t) = cc_states (bs_cache s) \<and> cc_entity_states (bs_cache t) = cc_entity_states (bs_cache s) \<and>
     cc_complete (bs_cache t) = cc_complete (bs_cache s) \<and>
     gu_full (bs_update t) = gu_full (bs_update s) \<and> gu_generation (bs_update t) = gu_generation (bs_update s) \<and>
     gu_owner (bs_update t) = gu_owner (bs_update s) \<and> gu_prepared (bs_update t) = gu_prepared (bs_update s) \<and>
     gu_committed (bs_update t) = gu_committed (bs_update s)"

lemma committed_graph_update [simp]:
  "committed_graph (g\<lparr>g_candidate_identities := xs\<rparr>) = committed_graph g"
  "committed_graph (g\<lparr>g_candidate_entities := ys\<rparr>) = committed_graph g"
  "committed_graph (g\<lparr>g_candidate_types := zs\<rparr>) = committed_graph g"
  by (simp_all add: committed_graph_def)

lemma cu_touch_commit:
  "cu_touch_entity m1 m2 c u e = (ok, c', u') \<Longrightarrow>
     cc_states c' = cc_states c \<and> cc_entity_states c' = cc_entity_states c \<and> cc_complete c' = cc_complete c"
  by (auto simp: cu_touch_entity_def Let_def split: if_splits)

lemma cu_replace_commit:
  "cu_replace m1 m2 c u source = (st, c', u') \<Longrightarrow>
     cc_states c' = cc_states c \<and> cc_entity_states c' = cc_entity_states c \<and> cc_complete c' = cc_complete c"
  by (auto simp: cu_replace_def Let_def split: if_splits)

lemma same_commit_touch_construction: "same_commit s (snd (touch_construction eid s))"
proof -
  obtain m1 mem1 where m1: "take_alloc (bs_memory s) = (m1, mem1)" by force
  obtain m2 mem2 where m2: "take_alloc mem1 = (m2, mem2)" by force
  obtain ok c u where touch: "cu_touch_entity m1 m2 (bs_cache s) (bs_cu s) eid = (ok, c, u)" by (metis prod_cases3)
  then show ?thesis
    using cu_touch_commit [OF touch] by (simp add: touch_construction_def m1 m2 same_commit_def)
qed

lemma same_commit_refs:
  "same_commit s (snd (snd (gu_named_type_ref h s)))"
  "same_commit s (snd (snd (gu_derived_type_ref kind child payload s)))"
  by (simp_all add: gu_named_type_ref_def gu_derived_type_ref_def same_commit_def set_failure_def Let_def
      split: prod.split option.split)

interpretation commit: build_frame_derived same_commit
proof unfold_locales
  fix s t u :: build_state
  show "same_commit s s" by (simp add: same_commit_def)
  show "same_commit s t \<Longrightarrow> same_commit t u \<Longrightarrow> same_commit s u" by (simp add: same_commit_def)
next
  fix m1 m2 source st' c cu mem and s :: build_state
  assume "cu_replace m1 m2 (bs_cache s) (bs_cu s) source = (st', c, cu)"
  from cu_replace_commit [OF this] show "same_commit s (s\<lparr>bs_cache := c, bs_cu := cu, bs_memory := mem\<rparr>)"
    by (simp add: same_commit_def)
qed (simp_all add: same_commit_touch_construction same_commit_refs,
  simp_all add: same_commit_def touch_identity_def touch_entity_def touch_type_def put_identity_def put_entity_def put_type_def
    allocate_def set_failure_def put_construction_def cu_write_entity_def cu_write_def Let_def split: prod.split)

text \<open>C4: A candidate is isolated: whatever a Builder does with it, in any order and with any failure, the
  committed Graph (its types, entities, names, members, enumerators, TypeRefs, indexes and counts) and the
  committed contributions stay as they are, so readers of the Graph see one generation until publication.\<close>

theorem candidate_isolated:
  assumes "build_action\<^sup>*\<^sup>* s t"
  shows "committed_graph (bs_graph t) = committed_graph (bs_graph s) \<and>
    cc_states (bs_cache t) = cc_states (bs_cache s) \<and> cc_entity_states (bs_cache t) = cc_entity_states (bs_cache s)"
  using commit.actions [OF assms] by (simp add: same_commit_def)


section \<open>The TypeRefs of a candidate\<close>

definition candidate_table :: "build_state \<Rightarrow> canonical_type_record list" where
  "candidate_table s = g_canonical (bs_graph s) @ gu_added_canonical (bs_update s)"

text \<open>
  Over the added part of the table the two indexes are exact, and it repeats nothing the committed
  indexes already have, unless everything is reconstructed.
\<close>

definition refs_exact ::
    "bool \<Rightarrow> canonical_type_record list \<Rightarrow> nat list \<Rightarrow> (derived_type_record, nat) umap \<Rightarrow>
     canonical_type_record list \<Rightarrow> (nat, nat) umap \<Rightarrow> (derived_type_record, nat) umap \<Rightarrow> bool"
where
  "refs_exact full canon refs derived added named_index derived_index \<longleftrightarrow>
     (\<forall>b. Canonical_builtin b \<notin> set added) \<and>
     (\<forall>h r. map_of named_index h = Some r \<longleftrightarrow> length canon \<le> r \<and> table_entry (canon @ added) r = Some (Canonical_named h)) \<and>
     (\<forall>d r. map_of derived_index d = Some r \<longleftrightarrow> length canon \<le> r \<and> table_entry (canon @ added) r = Some (Canonical_derived d)) \<and>
     (\<forall>h. \<not> full \<longrightarrow> map_of named_index h \<noteq> None \<longrightarrow> h \<noteq> 0 \<and> \<not> (h < length refs \<and> refs ! h \<noteq> 0)) \<and>
     (\<forall>d. \<not> full \<longrightarrow> map_of derived_index d \<noteq> None \<longrightarrow> map_of derived d = None)"

definition candidate_refs_wf :: "build_state \<Rightarrow> bool" where
  "candidate_refs_wf s \<longleftrightarrow>
     refs_exact (gu_full (bs_update s)) (g_canonical (bs_graph s)) (g_named_type_refs (bs_graph s)) (g_derived_index (bs_graph s))
       (gu_added_canonical (bs_update s)) (gu_added_named_index (bs_update s)) (gu_added_derived_index (bs_update s))"

definition same_refs :: "build_state \<Rightarrow> build_state \<Rightarrow> bool" where
  "same_refs s t \<longleftrightarrow>
     g_canonical (bs_graph t) = g_canonical (bs_graph s) \<and> g_named_type_refs (bs_graph t) = g_named_type_refs (bs_graph s) \<and>
     g_derived_index (bs_graph t) = g_derived_index (bs_graph s) \<and> gu_full (bs_update t) = gu_full (bs_update s) \<and>
     (g_canonical (bs_graph s) \<noteq> [] \<longrightarrow>
        (gu_failure (bs_update s) = Ok \<longrightarrow> candidate_refs_wf s) \<longrightarrow> (gu_failure (bs_update t) = Ok \<longrightarrow> candidate_refs_wf t))"

lemma table_entry_end [simp]: "table_entry (xs @ ys) (length xs + length ys) = None"
  by (simp add: table_entry_def)

lemma refs_exact_append:
  assumes "refs_exact full canon refs derived added nidx didx" and "canon \<noteq> []"
  shows "map_of nidx h \<noteq> Some (length canon + length added)" "map_of didx d \<noteq> Some (length canon + length added)"
    "table_entry (canon @ added @ [e]) r = (if r = length canon + length added then Some e else table_entry (canon @ added) r)"
proof -
  have none: "table_entry (canon @ added) (length canon + length added) = None" by (simp add: table_entry_def)
  show "map_of nidx h \<noteq> Some (length canon + length added)" "map_of didx d \<noteq> Some (length canon + length added)"
    using assms(1) none unfolding refs_exact_def by (metis option.distinct(1))+
  show "table_entry (canon @ added @ [e]) r = (if r = length canon + length added then Some e else table_entry (canon @ added) r)"
    using table_entry_append [of "canon @ added" e r] assms(2) by auto
qed

lemma refs_exact_named:
  assumes wf: "refs_exact full canon refs derived added nidx didx" and nonempty: "canon \<noteq> []"
    and new: "h \<noteq> 0" "\<not> (\<not> full \<and> h < length refs \<and> refs ! h \<noteq> 0)" "map_of nidx h = None"
  shows "refs_exact full canon refs derived (added @ [Canonical_named h]) (um_emplace h (length canon + length added) nidx) (didx)"
proof -
  note fresh = refs_exact_append [OF wf nonempty]
  note W = wf [unfolded refs_exact_def]
  have absent: "\<not> (length canon \<le> r \<and> table_entry (canon @ added) r = Some (Canonical_named h))" for r
    using W new(3) by (metis option.distinct(1))
  have index: "map_of (um_emplace h (length canon + length added) nidx) k = (if k = h then Some (length canon + length added) else map_of nidx k)" for k
    using new(3) by (simp add: um_emplace_def)
  show ?thesis
    unfolding refs_exact_def
  proof (intro conjI allI impI)
    show "Canonical_builtin b \<notin> set (added @ [Canonical_named h])" for b using W by simp
    show "map_of (um_emplace h (length canon + length added) nidx) k = Some r \<longleftrightarrow>
        length canon \<le> r \<and> table_entry (canon @ added @ [Canonical_named h]) r = Some (Canonical_named k)" for k r
      using W absent [of r] by (auto simp: index fresh(3))
    show "map_of didx e = Some r \<longleftrightarrow>
        length canon \<le> r \<and> table_entry (canon @ added @ [Canonical_named h]) r = Some (Canonical_derived e)" for e r
      using W fresh(2) [of e] by (auto simp: fresh(3))
    show "map_of (um_emplace h (length canon + length added) nidx) k \<noteq> None \<Longrightarrow> k \<noteq> 0" if "\<not> full" for k
      using W new that by (cases "k = h") (simp_all add: index)
    show "map_of (um_emplace h (length canon + length added) nidx) k \<noteq> None \<Longrightarrow> \<not> (k < length refs \<and> refs ! k \<noteq> 0)" if "\<not> full" for k
      using W new that by (cases "k = h") (simp_all add: index)
    show "map_of didx e \<noteq> None \<Longrightarrow> map_of derived e = None" if "\<not> full" for e
      using W that by blast
  qed
qed

lemma refs_exact_derived:
  assumes wf: "refs_exact full canon refs derived added nidx didx" and nonempty: "canon \<noteq> []"
    and new: "\<not> (\<not> full \<and> map_of derived d \<noteq> None)" "map_of didx d = None"
  shows "refs_exact full canon refs derived (added @ [Canonical_derived d]) (nidx) (um_emplace d (length canon + length added) didx)"
proof -
  note fresh = refs_exact_append [OF wf nonempty]
  note W = wf [unfolded refs_exact_def]
  have absent: "\<not> (length canon \<le> r \<and> table_entry (canon @ added) r = Some (Canonical_derived d))" for r
    using W new(2) by (metis option.distinct(1))
  have index: "map_of (um_emplace d (length canon + length added) didx) k = (if k = d then Some (length canon + length added) else map_of didx k)" for k
    using new(2) by (simp add: um_emplace_def)
  show ?thesis
    unfolding refs_exact_def
  proof (intro conjI allI impI)
    show "Canonical_builtin b \<notin> set (added @ [Canonical_derived d])" for b using W by simp
    show "map_of nidx k = Some r \<longleftrightarrow>
        length canon \<le> r \<and> table_entry (canon @ added @ [Canonical_derived d]) r = Some (Canonical_named k)" for k r
      using W fresh(1) [of k] by (auto simp: fresh(3))
    show "map_of (um_emplace d (length canon + length added) didx) e = Some r \<longleftrightarrow>
        length canon \<le> r \<and> table_entry (canon @ added @ [Canonical_derived d]) r = Some (Canonical_derived e)" for e r
      using W absent [of r] by (auto simp: index fresh(3))
    show "map_of nidx k \<noteq> None \<Longrightarrow> k \<noteq> 0" if "\<not> full" for k
      using W that by blast
    show "map_of nidx k \<noteq> None \<Longrightarrow> \<not> (k < length refs \<and> refs ! k \<noteq> 0)" if "\<not> full" for k
      using W that by blast
    show "map_of (um_emplace d (length canon + length added) didx) e \<noteq> None \<Longrightarrow> map_of derived e = None" if "\<not> full" for e
      using W new that by (cases "e = d") (simp_all add: index)
  qed
qed

text \<open>A change that does not touch the TypeRefs.\<close>

lemma same_refs_intro:
  assumes "g_canonical (bs_graph t) = g_canonical (bs_graph s)" "g_named_type_refs (bs_graph t) = g_named_type_refs (bs_graph s)"
    "g_derived_index (bs_graph t) = g_derived_index (bs_graph s)" "gu_full (bs_update t) = gu_full (bs_update s)"
    "gu_added_canonical (bs_update t) = gu_added_canonical (bs_update s)"
    "gu_added_named_index (bs_update t) = gu_added_named_index (bs_update s)"
    "gu_added_derived_index (bs_update t) = gu_added_derived_index (bs_update s)"
    "gu_failure (bs_update t) = Ok \<Longrightarrow> gu_failure (bs_update s) = Ok"
  shows "same_refs s t"
  using assms by (simp add: same_refs_def candidate_refs_wf_def)

lemma take_allocs_le: "take_allocs n mem = (k, mem') \<Longrightarrow> k \<le> n"
  by (induction n arbitrary: mem k) (auto split: prod.splits if_splits)

lemma same_refs_named: "same_refs s (snd (snd (gu_named_type_ref h s)))"
proof -
  let ?g = "bs_graph s" and ?u = "bs_update s" and ?raw = "next_type_ref s"
  obtain k mem where k: "take_allocs 3 (bs_memory s) = (k, mem)" by force
  have same: "same_refs s s" by (simp add: same_refs_def)
  have failed: "st \<noteq> Ok \<Longrightarrow> same_refs s (set_failure st s')" if "bs_graph s' = bs_graph s" "gu_full (bs_update s') = gu_full (bs_update s)" for st s'
    using that by (simp add: same_refs_def set_failure_def)
  show ?thesis
  proof (cases "h = 0 \<or> \<not> gu_full ?u \<and> h < length (g_named_type_refs ?g) \<and> g_named_type_refs ?g ! h \<noteq> 0 \<or>
      map_of (gu_added_named_index ?u) h \<noteq> None \<or> u32_max < ?raw")
    case True
    then have "snd (snd (gu_named_type_ref h s)) \<in> {s, set_failure Initialization_failed s}"
      by (auto simp: gu_named_type_ref_def Let_def split: option.split)
    then show ?thesis using same failed [of s] by auto
  next
    case fresh: False
    then have guards: "(h = 0) = False" "map_of (gu_added_named_index ?u) h = None" "(u32_max < ?raw) = False"
      "(\<not> gu_full ?u \<and> h < length (g_named_type_refs ?g) \<and> g_named_type_refs ?g ! h \<noteq> 0) = False"
      by blast+
    show ?thesis
    proof (cases "k = 3")
      case False
      then have "\<not> 3 \<le> k" using take_allocs_le [OF k] by simp
      then show ?thesis
        unfolding gu_named_type_ref_def Let_def guards if_False option.case k prod.case by (auto intro!: failed)
    next
      case True
      let ?u' = "?u\<lparr>gu_added_canonical := gu_added_canonical ?u @ [Canonical_named h],
          gu_added_named_refs := gu_added_named_refs ?u @ [(h, ?raw)],
          gu_added_named_index := um_emplace h ?raw (gu_added_named_index ?u)\<rparr>"
      let ?t = "s\<lparr>bs_update := ?u', bs_memory := mem\<rparr>"
      have t: "snd (snd (gu_named_type_ref h s)) = ?t"
        unfolding gu_named_type_ref_def Let_def guards if_False option.case k prod.case True by simp
      have "candidate_refs_wf ?t" if "candidate_refs_wf s" "g_canonical ?g \<noteq> []"
        using that fresh by (auto simp: candidate_refs_wf_def next_type_ref_def intro!: refs_exact_named)
      then show ?thesis unfolding t by (simp add: same_refs_def)
    qed
  qed
qed

lemma same_refs_derived: "same_refs s (snd (snd (gu_derived_type_ref kind child payload s)))"
proof -
  let ?g = "bs_graph s" and ?u = "bs_update s" and ?raw = "next_type_ref s"
  let ?key = "\<lparr>dt_kind = kind, dt_child = child, dt_payload = payload\<rparr>"
  obtain k mem where k: "take_allocs 2 (bs_memory s) = (k, mem)" by force
  have same: "same_refs s s" by (simp add: same_refs_def)
  have failed: "st \<noteq> Ok \<Longrightarrow> same_refs s (set_failure st s')" if "bs_graph s' = bs_graph s" "gu_full (bs_update s') = gu_full (bs_update s)" for st s'
    using that by (simp add: same_refs_def set_failure_def)
  let ?invalid = "child = 0 \<or> (kind \<noteq> Derived_array \<and> payload \<noteq> 0) \<or> (kind = Derived_array \<and> payload = 0)"
  show ?thesis
  proof (cases "?invalid \<or> map_of (gu_added_derived_index ?u) ?key \<noteq> None \<or>
      \<not> gu_full ?u \<and> map_of (g_derived_index ?g) ?key \<noteq> None \<or> u32_max < ?raw")
    case True
    then have "snd (snd (gu_derived_type_ref kind child payload s)) \<in>
        {s, set_failure Initialization_failed s, set_failure Configuration_failed s}"
      by (auto simp: gu_derived_type_ref_def Let_def split: option.split)
    then show ?thesis using same failed [of s] by auto
  next
    case fresh: False
    then have guards: "?invalid = False" "map_of (gu_added_derived_index ?u) ?key = None" "(u32_max < ?raw) = False"
      "(\<not> gu_full ?u \<and> map_of (g_derived_index ?g) ?key \<noteq> None) = False"
      by blast+
    show ?thesis
    proof (cases "k = 2")
      case False
      then have "\<not> 2 \<le> k" using take_allocs_le [OF k] by simp
      then show ?thesis
        unfolding gu_derived_type_ref_def Let_def guards if_False option.case k prod.case by (auto intro!: failed)
    next
      case True
      let ?u' = "?u\<lparr>gu_added_canonical := gu_added_canonical ?u @ [Canonical_derived ?key],
          gu_added_derived_index := um_emplace ?key ?raw (gu_added_derived_index ?u)\<rparr>"
      let ?t = "s\<lparr>bs_update := ?u', bs_memory := mem\<rparr>"
      have t: "snd (snd (gu_derived_type_ref kind child payload s)) = ?t"
        unfolding gu_derived_type_ref_def Let_def guards if_False option.case k prod.case True by simp
      have "candidate_refs_wf ?t" if "candidate_refs_wf s" "g_canonical ?g \<noteq> []"
        using that fresh by (auto simp: candidate_refs_wf_def next_type_ref_def intro!: refs_exact_derived)
      then show ?thesis unfolding t by (simp add: same_refs_def)
    qed
  qed
qed


interpretation refs: build_frame_derived same_refs
proof unfold_locales
  fix s t u :: build_state
  show "same_refs s s" by (simp add: same_refs_def)
  show "same_refs s t \<Longrightarrow> same_refs t u \<Longrightarrow> same_refs s u" by (simp add: same_refs_def)
  show "same_refs s (snd (touch_construction eid s))" for eid
  proof -
    obtain m1 mem1 where m1: "take_alloc (bs_memory s) = (m1, mem1)" by force
    obtain m2 mem2 where m2: "take_alloc mem1 = (m2, mem2)" by force
    obtain ok c u where touch: "cu_touch_entity m1 m2 (bs_cache s) (bs_cu s) eid = (ok, c, u)" by (metis prod_cases3)
    then show ?thesis by (intro same_refs_intro) (simp_all add: touch_construction_def m1 m2)
  qed
qed (simp_all add: same_refs_named same_refs_derived,
  auto simp: touch_identity_def touch_entity_def touch_type_def put_identity_def put_entity_def
    put_type_def allocate_def set_failure_def put_construction_def Let_def split: prod.split intro!: same_refs_intro)

lemma candidate_unique:
  assumes wf: "type_table_wf n (g_canonical (bs_graph s)) (g_named_type_refs (bs_graph s)) (g_derived_index (bs_graph s))"
    and exact: "candidate_refs_wf s" and incremental: "\<not> gu_full (bs_update s)"
    and i: "table_entry (candidate_table s) i = Some e" and j: "table_entry (candidate_table s) j = Some e"
  shows "i = j"
proof -
  let ?canon = "g_canonical (bs_graph s)" and ?added = "gu_added_canonical (bs_update s)"
  let ?refs = "g_named_type_refs (bs_graph s)"
  note X = exact [unfolded candidate_refs_wf_def refs_exact_def]
  have fresh_named: "\<not> (h < length ?refs \<and> ?refs ! h \<noteq> 0)" if "map_of (gu_added_named_index (bs_update s)) h = Some r" for h r
    using X incremental that by (metis option.distinct(1))
  have fresh_derived: "map_of (g_derived_index (bs_graph s)) d = None" if "map_of (gu_added_derived_index (bs_update s)) d = Some r" for d r
    using X incremental that by (metis option.distinct(1))
  have old: "table_entry (candidate_table s) k = table_entry ?canon k" if "k < length ?canon" for k
    using that by (simp add: candidate_table_def table_entry_def nth_append)
  have new: "e \<in> set ?added" if "length ?canon \<le> k" "table_entry (candidate_table s) k = Some e" for k
    using that by (auto simp: candidate_table_def table_entry_def nth_append split: if_splits)
  have mixed: False if a: "a < length ?canon" "table_entry (candidate_table s) a = Some e"
    and b: "length ?canon \<le> b" "table_entry (candidate_table s) b = Some e" for a b
  proof (cases e)
    case (Canonical_builtin c)
    with new [OF b] X show False by blast
  next
    case (Canonical_named h)
    with b X have idx: "map_of (gu_added_named_index (bs_update s)) h = Some b" by (simp add: candidate_table_def)
    have "table_entry ?canon a = Some (Canonical_named h)" using a old [OF a(1)] Canonical_named by simp
    then have "a \<noteq> 0 \<and> h \<noteq> 0 \<and> h \<le> n \<and> ?refs ! h = a" "length ?refs = n + 1" using wf unfolding type_table_wf_def by blast+
    with fresh_named [OF idx] show False by auto
  next
    case (Canonical_derived d)
    with b X have idx: "map_of (gu_added_derived_index (bs_update s)) d = Some b" by (simp add: candidate_table_def)
    have "table_entry ?canon a = Some (Canonical_derived d)" using a old [OF a(1)] Canonical_derived by simp
    then have "map_of (g_derived_index (bs_graph s)) d = Some a" using wf unfolding type_table_wf_def by blast
    with fresh_derived [OF idx] show False by simp
  qed
  consider (both_old) "i < length ?canon" "j < length ?canon" | (both_new) "length ?canon \<le> i" "length ?canon \<le> j"
    | (first) "i < length ?canon" "length ?canon \<le> j" | (second) "j < length ?canon" "length ?canon \<le> i" by linarith
  then show "i = j"
  proof cases
    case both_old
    with i j old type_table_wf_unique [OF wf] show ?thesis by simp
  next
    case both_new
    show ?thesis
    proof (cases e)
      case (Canonical_builtin c)
      with new [OF both_new(1) i] X show ?thesis by blast
    next
      case (Canonical_named h)
      with both_new i j X have "map_of (gu_added_named_index (bs_update s)) h = Some i"
        "map_of (gu_added_named_index (bs_update s)) h = Some j" by (simp_all add: candidate_table_def)
      then show ?thesis by simp
    next
      case (Canonical_derived d)
      with both_new i j X have "map_of (gu_added_derived_index (bs_update s)) d = Some i"
        "map_of (gu_added_derived_index (bs_update s)) d = Some j" by (simp_all add: candidate_table_def)
      then show ?thesis by simp
    qed
  qed (use mixed i j in blast)+
qed

lemma begin_update_refs:
  assumes "g_begin_update full g = (bs_graph s, bs_update s)"
  shows "candidate_refs_wf s" and "gu_full (bs_update s) = full" and "g_canonical (bs_graph s) = g_canonical g"
    and "g_named_type_refs (bs_graph s) = g_named_type_refs g" and "g_derived_index (bs_graph s) = g_derived_index g"
proof -
  have u: "bs_update s = snd (g_begin_update full g)" and g: "bs_graph s = fst (g_begin_update full g)" using assms by simp_all
  show "gu_full (bs_update s) = full" "g_canonical (bs_graph s) = g_canonical g"
    "g_named_type_refs (bs_graph s) = g_named_type_refs g" "g_derived_index (bs_graph s) = g_derived_index g"
    by (simp_all add: u g g_begin_update_def Let_def)
  have "gu_added_canonical (bs_update s) = []" "gu_added_named_index (bs_update s) = []" "gu_added_derived_index (bs_update s) = []"
    by (simp_all add: u g_begin_update_def Let_def)
  then show "candidate_refs_wf s"
    by (auto simp: candidate_refs_wf_def refs_exact_def table_entry_def)
qed


section \<open>Examples\<close>

lemma candidate_isolated_witness:
  "committed_graph (bs_graph example_candidate) = committed_graph (bs_graph example_start)"
proof -
  have step: "build_step s t \<Longrightarrow> build_action s t" for s t
    by (auto elim!: build_step.cases intro: build_action.intros)
  have "build_action\<^sup>*\<^sup>* example_start example_candidate"
    using example_steps by (rule rtranclp_mono [THEN predicate2D, rotated]) (auto intro: step)
  from candidate_isolated [OF this] show ?thesis by blast
qed

text \<open>A pointer to a pointer, asked for twice.\<close>

definition example_loaded_start :: build_state where
  "example_loaded_start =
     (case g_begin_update False example_loaded of (g, gu) \<Rightarrow>
      case cc_begin_update False new_contribution_cache of (c, cu) \<Rightarrow>
        \<lparr>bs_graph = g, bs_cache = c, bs_cu = cu, bs_update = gu, bs_memory = []\<rparr>)"

definition example_pointer :: "status_code \<times> nat \<times> build_state" where
  "example_pointer = sr_derived (Some 1) Derived_pointer 22 0 example_loaded_start"

definition example_pointer_again :: "status_code \<times> nat \<times> build_state" where
  "example_pointer_again = sr_derived (Some 1) Derived_pointer 22 0 (snd (snd example_pointer))"

text \<open>The TypeRef tables of the loaded example are hash-consed.\<close>

lemma example_loaded_wf:
  "\<exists>n. type_table_wf n (g_canonical example_loaded) (g_named_type_refs example_loaded) (g_derived_index example_loaded)"
proof -
  obtain g1 g2 where g1: "import_checked example_compiled no_graph = Some g1" "g_rebuild_dependency_index True g1 = (Ok, g2)"
    and g: "g_canonical example_loaded = g_canonical g2" "g_named_type_refs example_loaded = g_named_type_refs g2"
      "g_derived_index example_loaded = g_derived_index g2"
  proof (rule g_import_compiledD [OF example_loaded_run])
    fix g1 g2
    assume "import_checked example_compiled no_graph = Some g1" "g_rebuild_dependency_index True g1 = (Ok, g2)"
      and loaded: "example_loaded = g2\<lparr>g_candidate_identities := [], g_candidate_entities := [], g_candidate_types := [],
             g_entity_count := length (filter entity_live (g_entities g2)),
             g_user_type_count := length (filter (\<lambda>t. t \<noteq> None) (g_types g2)),
             g_next_stable_id := (let n = cast_u32 (length (g_entities g2)) in if n = 0 then 1 else n),
             g_next_candidate_generation := 1, g_abi := cg_abi example_compiled, g_generation := 0\<rparr>"
    moreover have "g_canonical example_loaded = g_canonical g2" "g_named_type_refs example_loaded = g_named_type_refs g2"
      "g_derived_index example_loaded = g_derived_index g2" by (simp_all add: loaded)
    ultimately show thesis using that by blast
  qed
  have "g_canonical g2 = g_canonical g1" "g_named_type_refs g2 = g_named_type_refs g1" "g_derived_index g2 = g_derived_index g1"
    using g_rebuild_dependency_index_fields [OF g1(2)] by auto
  then show ?thesis
    using import_checked_wf(1) [OF g1(1) example_compiled_size] by (auto simp: g)
qed



end
