(* ===== verification/GraphPublish.thy ===== *)
theory GraphPublish
  imports StringRegistry SourceManager GraphFrame "HOL-Library.List_Lexorder"
begin

text \<open>
  The end of a build: \<^verbatim>\<open>graph_update\<close> of \<^verbatim>\<open>graph/graph.cpp\<close> from the resolution of the pending
  members to \<^verbatim>\<open>cancel\<close>. A preparation resolves, validates and materializes everything that can
  fail, incremental or as a full reconstruction; publication installs it. The members of
  \<^verbatim>\<open>graph_update\<close> that only a preparation writes are the record \<open>graph_publication\<close>. The vectors a
  routine allocates are one answer at its start: an exception inside it is caught by it and leaves
  nothing that is read again. A loop or recursion that need not end is \<open>None\<close> when it does not.
\<close>

section \<open>The prepared state\<close>

record graph_publication =
  gp_type_updates :: "(nat \<times> nat list) list"
  gp_reverse_updates :: "(nat, nat list) umap"
  gp_identity :: "nat list"
  gp_entities :: "entity_entry list"
  gp_types :: "type_entry option list"
  gp_free_slots :: "nat list"
  gp_entity_count :: nat
  gp_type_count :: nat
  gp_members :: "member_record list"
  gp_enum_values :: "enum_value_record list"
  gp_canonical :: "canonical_type_record list"
  gp_named_refs :: "nat list"
  gp_derived_index :: "(derived_type_record, nat) umap"
  gp_dependencies :: "nat list list"
  gp_reverse :: "nat list list"
  gp_identity_size :: nat
  gp_entities_size :: nat
  gp_types_size :: nat
  gp_named_refs_size :: nat
  gp_dependencies_size :: nat
  gp_reverse_size :: nat
  gp_owner_growth :: bool

definition new_publication :: graph_publication where
  "new_publication =
     \<lparr>gp_type_updates = [], gp_reverse_updates = [], gp_identity = [], gp_entities = [], gp_types = [],
      gp_free_slots = [], gp_entity_count = 0, gp_type_count = 0, gp_members = [], gp_enum_values = [],
      gp_canonical = [], gp_named_refs = [], gp_derived_index = [], gp_dependencies = [], gp_reverse = [],
      gp_identity_size = 0, gp_entities_size = 0, gp_types_size = 0, gp_named_refs_size = 0,
      gp_dependencies_size = 0, gp_reverse_size = 0, gp_owner_growth = False\<rparr>"

section \<open>Pending members\<close>

text \<open>The base of a member: a builtin, or the user type of that name in the candidate.\<close>

definition gu_member_base :: "member_build \<Rightarrow> build_state \<Rightarrow> status_code \<times> nat \<times> build_state" where
  "gu_member_base m s =
     (case mb_builtin m of
        Some b \<Rightarrow>
          let raw = builtin_code b + 1 in
          if length (g_canonical (bs_graph s)) \<le> raw
          then (Configuration_failed, 0, set_failure Configuration_failed s)
          else (Ok, raw, s)
      | None \<Rightarrow>
          (case gu_find s (mb_user_type_name m) of
             None \<Rightarrow> (Configuration_failed, 0, set_failure Configuration_failed s)
           | Some e \<Rightarrow> gu_named_type_ref (ee_type e) s))"

fun gu_apply_modifiers ::
    "type_modifier_build list \<Rightarrow> nat \<Rightarrow> build_state \<Rightarrow> status_code \<times> nat \<times> build_state" where
  "gu_apply_modifiers [] ref s = (Ok, ref, s)"
| "gu_apply_modifiers (m # ms) ref s =
     (case gu_derived_type_ref (tm_kind m) ref (tm_payload m) s of (st, derived, s) \<Rightarrow>
        if st \<noteq> Ok then (st, derived, s) else gu_apply_modifiers ms derived s)"

definition gu_resolve_member ::
    "type_modifier_build list \<Rightarrow> member_build \<Rightarrow> build_state \<Rightarrow> status_code \<times> nat \<times> build_state" where
  "gu_resolve_member modifiers m s =
     (case gu_member_base m s of (st, ref, s) \<Rightarrow>
        if st \<noteq> Ok then (st, ref, s)
        else if length modifiers < mb_modifier_offset m \<or>
                length modifiers - mb_modifier_offset m < mb_modifier_count m
        then (Configuration_failed, ref, set_failure Configuration_failed s)
        else gu_apply_modifiers (take (mb_modifier_count m) (drop (mb_modifier_offset m) modifiers)) ref s)"

fun gu_resolve_members ::
    "type_modifier_build list \<Rightarrow> member_build list \<Rightarrow> member_record list \<Rightarrow> build_state
     \<Rightarrow> status_code \<times> member_record list \<times> build_state" where
  "gu_resolve_members modifiers [] resolved s = (Ok, resolved, s)"
| "gu_resolve_members modifiers (m # ms) resolved s =
     (case gu_resolve_member modifiers m s of (st, ref, s) \<Rightarrow>
        if st \<noteq> Ok then (st, resolved, s)
        else gu_resolve_members modifiers ms (resolved @ [\<lparr>mr_name = mb_name m, mr_type = ref\<rparr>]) s)"

definition gu_resolve_pending_members ::
    "type_build_state \<Rightarrow> build_state \<Rightarrow> status_code \<times> type_build_state \<times> build_state" where
  "gu_resolve_pending_members b s =
     (if tb_pending_members b = [] then (Ok, b, s)
      else case allocate s of (ok, s) \<Rightarrow>
        if \<not> ok then (Initialization_failed, b, set_failure Initialization_failed s)
        else case gu_resolve_members (tb_pending_modifiers b) (tb_pending_members b) [] s of (st, members, s) \<Rightarrow>
          if st \<noteq> Ok then (st, b, s)
          else (Ok, b\<lparr>tb_members := members, tb_pending_members := [], tb_pending_modifiers := []\<rparr>, s))"

text \<open>The loop over the changed types.\<close>

definition replaced_by :: "user_type_kind \<Rightarrow> candidate_type \<Rightarrow> bool" where
  "replaced_by kind t \<longleftrightarrow>
     ct_kind t = Candidate_replacement \<and> (case ct_value t of Some v \<Rightarrow> te_kind v = kind | None \<Rightarrow> False)"

fun gu_resolve_types :: "nat list \<Rightarrow> build_state \<Rightarrow> status_code \<times> build_state" where
  "gu_resolve_types [] s = (Ok, s)"
| "gu_resolve_types (h # hs) s =
     (let t = type_slot h s in
      if replaced_by Type_aggregate t then
        case ct_build t of
          None \<Rightarrow> (Configuration_failed, s)
        | Some b \<Rightarrow>
            case gu_resolve_pending_members b s of (st, b, s) \<Rightarrow>
              if st \<noteq> Ok then (st, s) else gu_resolve_types hs (put_type h (t\<lparr>ct_build := Some b\<rparr>) s)
      else gu_resolve_types hs s)"

section \<open>Validation of the live types\<close>

text \<open>The combined table, read through the two vectors it consists of.\<close>

definition gu_record :: "build_state \<Rightarrow> nat \<Rightarrow> canonical_type_record option" where
  "gu_record s ref =
     (let committed = g_canonical (bs_graph s); added = gu_added_canonical (bs_update s) in
      if ref = 0 then None
      else if ref < length committed then Some (committed ! ref)
      else if ref - length committed < length added then Some (added ! (ref - length committed))
      else None)"

definition committed_type :: "build_state \<Rightarrow> nat \<Rightarrow> type_entry option" where
  "committed_type s h =
     (let types = g_types (bs_graph s) in if gu_full (bs_update s) \<or> length types < h then None else types ! (h - 1))"

definition gu_type_live :: "build_state \<Rightarrow> nat \<Rightarrow> bool" where
  "gu_type_live s h \<longleftrightarrow>
     (if h = 0 then False
      else
        case overlay (gu_generation (bs_update s)) (g_candidate_types (bs_graph s)) h of
          None \<Rightarrow> committed_type s h \<noteq> None
        | Some t \<Rightarrow>
            (case ct_kind t of
               Candidate_removed \<Rightarrow> False
             | Candidate_replacement \<Rightarrow> ct_value t \<noteq> None
             | Candidate_unchanged \<Rightarrow> committed_type s h \<noteq> None))"

fun gu_ref_live :: "build_state \<Rightarrow> nat \<Rightarrow> nat \<Rightarrow> bool" where
  "gu_ref_live s 0 ref = False"
| "gu_ref_live s (Suc depth) ref =
     (case gu_record s ref of
        None \<Rightarrow> False
      | Some (Canonical_builtin b) \<Rightarrow> True
      | Some (Canonical_named h) \<Rightarrow> gu_type_live s h
      | Some (Canonical_derived d) \<Rightarrow> gu_ref_live s depth (dt_child d))"

text \<open>
  The storage a handle is validated on, and whether it is a replacement. A replacement slot
  without a value falls through to the committed storage with the flag set, as in the code.
\<close>

definition gu_validated_storage :: "build_state \<Rightarrow> nat \<Rightarrow> (type_entry \<times> bool) option" where
  "gu_validated_storage s h =
     (case overlay (gu_generation (bs_update s)) (g_candidate_types (bs_graph s)) h of
        None \<Rightarrow> map_option (\<lambda>v. (v, False)) (committed_type s h)
      | Some t \<Rightarrow>
          (case ct_kind t of
             Candidate_removed \<Rightarrow> None
           | Candidate_unchanged \<Rightarrow> map_option (\<lambda>v. (v, False)) (committed_type s h)
           | Candidate_replacement \<Rightarrow>
               (case ct_value t of
                  Some v \<Rightarrow> Some (v, True)
                | None \<Rightarrow> map_option (\<lambda>v. (v, True)) (committed_type s h))))"

definition gu_members_live :: "build_state \<Rightarrow> member_record list \<Rightarrow> bool" where
  "gu_members_live s ms \<longleftrightarrow> list_all (\<lambda>m. gu_ref_live s (next_type_ref s) (mr_type m)) ms"

definition gu_validate_handle :: "build_state \<Rightarrow> nat \<Rightarrow> status_code" where
  "gu_validate_handle s h =
     (case gu_validated_storage s h of
        None \<Rightarrow> Ok
      | Some (v, replaced) \<Rightarrow>
          if te_kind v \<noteq> Type_aggregate then Ok
          else if replaced then
            (case ct_build (type_slot h s) of
               None \<Rightarrow> Configuration_failed
             | Some b \<Rightarrow>
                 if tb_pending_members b \<noteq> [] \<or> tb_pending_modifiers b \<noteq> [] \<or> \<not> gu_members_live s (tb_members b)
                 then Configuration_failed else Ok)
          else if \<not> range_valid (te_definition v) then Ok
          else
            let first = dr_begin (te_definition v) - 1; n = dr_count (te_definition v); members = g_members (bs_graph s) in
            if length members < first \<or> length members - first < n then Configuration_failed
            else if gu_members_live s (take n (drop first members)) then Ok
            else Configuration_failed)"

text \<open>A full reconstruction validates every candidate slot that holds a type.\<close>

fun gu_validate_all :: "build_state \<Rightarrow> nat list \<Rightarrow> status_code" where
  "gu_validate_all s [] = Ok"
| "gu_validate_all s (h # hs) =
     (case overlay (gu_generation (bs_update s)) (g_candidate_types (bs_graph s)) h of
        None \<Rightarrow> gu_validate_all s hs
      | Some t \<Rightarrow>
          if ct_kind t \<noteq> Candidate_replacement \<or> ct_value t = None then gu_validate_all s hs
          else
            let st = gu_validate_handle s h in
            if st \<noteq> Ok then st else gu_validate_all s hs)"

text \<open>
  An incremental build validates what the changed types can affect: the closure of the changed
  handles under the committed reverse dependencies. The work vector is also the queue; \<open>enqueue\<close> is
  the body shared by the two insertion loops.
\<close>

fun enqueue :: "nat \<Rightarrow> nat list \<Rightarrow> nat list \<times> nat list \<Rightarrow> nat list \<times> nat list" where
  "enqueue limit [] (visited, work) = (visited, work)"
| "enqueue limit (h # hs) (visited, work) =
     (if h = 0 \<or> limit < h \<or> h \<in> set visited then enqueue limit hs (visited, work)
      else enqueue limit hs (h # visited, work @ [h]))"

definition dependents_of :: "build_state \<Rightarrow> nat \<Rightarrow> nat list" where
  "dependents_of s h =
     (let rev_deps = g_reverse_dependents (bs_graph s) in if length rev_deps \<le> h then [] else rev_deps ! h)"

definition validate_step ::
    "build_state \<Rightarrow> nat \<Rightarrow> status_code \<times> nat \<times> nat list \<times> nat list \<Rightarrow> status_code \<times> nat \<times> nat list \<times> nat list" where
  "validate_step s limit v =
     (case v of (st, position, visited, work) \<Rightarrow>
        let h = work ! position; st = gu_validate_handle s h in
        if st \<noteq> Ok then (st, position, visited, work)
        else
          case enqueue limit (dependents_of s h) (visited, work) of (visited, work) \<Rightarrow>
            (Ok, position + 1, visited, work))"

definition handle_count :: "build_state \<Rightarrow> nat" where
  "handle_count s = max (length (g_types (bs_graph s))) (length (g_candidate_types (bs_graph s)) - 1)"

definition validate_closure :: "build_state \<Rightarrow> status_code option" where
  "validate_closure s =
     (case enqueue (handle_count s) (gu_changed_types (bs_update s)) ([], []) of (visited, work) \<Rightarrow>
        map_option fst
          (while_option (\<lambda>(st, position, visited, work). st = Ok \<and> position < length work)
             (validate_step s (handle_count s)) (Ok, 0, visited, work)))"

definition gu_validate_live :: "build_state \<Rightarrow> (status_code \<times> build_state) option" where
  "gu_validate_live s =
     (case allocate s of (ok, s) \<Rightarrow>
        if \<not> ok then Some (failing (Initialization_failed, s))
        else if gu_full (bs_update s)
        then Some (failing (gu_validate_all s [1..<length (g_candidate_types (bs_graph s))], s))
        else map_option (\<lambda>st. failing (st, s)) (validate_closure s))"

section \<open>The dependency index of an incremental build\<close>

text \<open>
  The user type a member is built on, 0 for none. A chain that is longer than the table ends the
  loop without a base; a TypeRef outside the table fails.
\<close>

fun gu_base :: "build_state \<Rightarrow> nat \<Rightarrow> nat \<Rightarrow> nat option" where
  "gu_base s 0 ref = Some 0"
| "gu_base s (Suc depth) ref =
     (case gu_record s ref of
        None \<Rightarrow> None
      | Some (Canonical_builtin b) \<Rightarrow> Some 0
      | Some (Canonical_named h) \<Rightarrow> Some h
      | Some (Canonical_derived d) \<Rightarrow> gu_base s depth (dt_child d))"

fun gu_collect :: "build_state \<Rightarrow> member_record list \<Rightarrow> nat list \<Rightarrow> nat list option" where
  "gu_collect s [] deps = Some deps"
| "gu_collect s (m # ms) deps =
     (case gu_base s (next_type_ref s) (mr_type m) of
        None \<Rightarrow> None
      | Some h \<Rightarrow> gu_collect s ms (if h \<noteq> 0 then push_new h deps else deps))"

definition old_dependencies :: "build_state \<Rightarrow> nat \<Rightarrow> nat list" where
  "old_dependencies s h =
     (let deps = g_dependencies (bs_graph s) in if h < length deps then deps ! h else [])"

definition new_dependencies :: "build_state \<Rightarrow> nat \<Rightarrow> nat list option" where
  "new_dependencies s h =
     (let slots = g_candidate_types (bs_graph s); t = type_slot h s in
      if length slots \<le> h then Some (old_dependencies s h)
      else
        case (if slot_generation (slots ! h) = gu_generation (bs_update s) \<and> replaced_by Type_aggregate t
              then ct_build t else None) of
          Some b \<Rightarrow> if tb_definition_pending b then gu_collect s (tb_members b) [] else Some []
        | None \<Rightarrow>
            if slot_generation (slots ! h) \<noteq> gu_generation (bs_update s) \<or> ct_kind t = Candidate_unchanged
            then Some (old_dependencies s h) else Some [])"

text \<open>\<^verbatim>\<open>reverse_update\<close> reads the prepared list of dependents, or the committed one.\<close>

definition reverse_entry :: "build_state \<Rightarrow> (nat, nat list) umap \<Rightarrow> nat \<Rightarrow> nat list" where
  "reverse_entry s updates d = (case map_of updates d of Some users \<Rightarrow> users | None \<Rightarrow> dependents_of s d)"

fun update_dependents ::
    "build_state \<Rightarrow> nat \<Rightarrow> nat list \<Rightarrow> nat list \<Rightarrow> (nat, nat list) umap \<Rightarrow> (nat, nat list) umap" where
  "update_dependents s h deps [] updates = updates"
| "update_dependents s h deps (d # ds) updates =
     (let users = removeAll h (reverse_entry s updates d);
          users = (if d \<in> set deps \<and> h \<notin> set users then users @ [h] else users)
      in update_dependents s h deps ds (um_set d users updates))"

fun dependency_updates ::
    "build_state \<Rightarrow> nat list \<Rightarrow> (nat \<times> nat list) list \<times> (nat, nat list) umap
     \<Rightarrow> ((nat \<times> nat list) list \<times> (nat, nat list) umap) option" where
  "dependency_updates s [] st = Some st"
| "dependency_updates s (h # hs) (types, reverse) =
     (if h = 0 then dependency_updates s hs (types, reverse)
      else
        case new_dependencies s h of
          None \<Rightarrow> None
        | Some deps \<Rightarrow>
            dependency_updates s hs
              (types @ [(h, deps)],
               update_dependents s h deps (push_unique (old_dependencies s h) deps) reverse))"

definition gu_prepare_dependencies ::
    "build_state \<Rightarrow> graph_publication \<Rightarrow> status_code \<times> build_state \<times> graph_publication" where
  "gu_prepare_dependencies s p =
     (if gu_full (bs_update s) then (Ok, s, p)
      else
        let p = p\<lparr>gp_type_updates := [], gp_reverse_updates := []\<rparr> in
        case allocate s of (ok, s) \<Rightarrow>
          if \<not> ok then (Initialization_failed, set_failure Initialization_failed s, p)
          else
            case dependency_updates s (gu_changed_types (bs_update s)) ([], []) of
              None \<Rightarrow> (Configuration_failed, set_failure Configuration_failed s, p)
            | Some (types, reverse) \<Rightarrow> (Ok, s, p\<lparr>gp_type_updates := types, gp_reverse_updates := reverse\<rparr>))"

section \<open>The TypeRef table of a full reconstruction\<close>

text \<open>The liveness test of this routine does not look at the build mode.\<close>

definition rebuilt_type_live :: "build_state \<Rightarrow> nat \<Rightarrow> bool" where
  "rebuilt_type_live s h \<longleftrightarrow>
     (let types = g_types (bs_graph s); committed = h \<le> length types \<and> types ! (h - 1) \<noteq> None in
      if h = 0 then False
      else
        case overlay (gu_generation (bs_update s)) (g_candidate_types (bs_graph s)) h of
          None \<Rightarrow> committed
        | Some t \<Rightarrow>
            (case ct_kind t of
               Candidate_removed \<Rightarrow> False
             | Candidate_replacement \<Rightarrow> ct_value t \<noteq> None
             | Candidate_unchanged \<Rightarrow> committed))"

fun rebuild_named ::
    "build_state \<Rightarrow> nat list \<Rightarrow> canonical_type_record list \<times> nat list
     \<Rightarrow> (canonical_type_record list \<times> nat list) option" where
  "rebuild_named s [] st = Some st"
| "rebuild_named s (h # hs) (table, refs) =
     (if \<not> rebuilt_type_live s h then rebuild_named s hs (table, refs)
      else if u32_max < length table then None
      else rebuild_named s hs (table @ [Canonical_named h], refs[h := cast_u32 (length table)]))"

type_synonym remap_state = "canonical_type_record list \<times> (derived_type_record, nat) umap \<times> nat list"

text \<open>\<open>None\<close> stands for a recursion that is deeper than the fuel.\<close>

fun remap_type ::
    "build_state \<Rightarrow> nat list \<Rightarrow> nat \<Rightarrow> nat \<Rightarrow> remap_state \<Rightarrow> (status_code \<times> nat \<times> remap_state) option" where
  "remap_type s named 0 old st = None"
| "remap_type s named (Suc fuel) old st =
     (case st of (table, index, remap) \<Rightarrow>
      if old = 0 \<or> length remap \<le> old then Some (Configuration_failed, 0, table, index, remap)
      else if remap ! old \<noteq> 0 then Some (Ok, remap ! old, table, index, remap)
      else
        case gu_record s old of
          None \<Rightarrow> Some (Configuration_failed, 0, table, index, remap)
        | Some (Canonical_builtin b) \<Rightarrow>
            if builtin_code Void_type < builtin_code b then Some (Configuration_failed, 0, table, index, remap)
            else let out = builtin_code b + 1 in Some (Ok, out, table, index, remap[old := out])
        | Some (Canonical_named h) \<Rightarrow>
            if h = 0 \<or> length named \<le> h \<or> named ! h = 0 then Some (Configuration_failed, 0, table, index, remap)
            else Some (Ok, named ! h, table, index, remap[old := named ! h])
        | Some (Canonical_derived d) \<Rightarrow>
            (case remap_type s named fuel (dt_child d) (table, index, remap) of
               None \<Rightarrow> None
             | Some (st, child, table, index, remap) \<Rightarrow>
                 if st \<noteq> Ok then Some (st, 0, table, index, remap)
                 else
                   let key = d\<lparr>dt_child := child\<rparr> in
                   case map_of index key of
                     Some out \<Rightarrow> Some (Ok, out, table, index, remap[old := out])
                   | None \<Rightarrow>
                       if u32_max < length table then Some (Initialization_failed, 0, table, index, remap)
                       else
                         let out = cast_u32 (length table) in
                         Some (Ok, out, table @ [Canonical_derived key], um_emplace key out index, remap[old := out])))"

text \<open>The members of a candidate are renumbered in place, those before a failure included.\<close>

fun remap_members ::
    "build_state \<Rightarrow> nat list \<Rightarrow> member_record list \<Rightarrow> remap_state
     \<Rightarrow> (status_code \<times> member_record list \<times> remap_state) option" where
  "remap_members s named [] st = Some (Ok, [], st)"
| "remap_members s named (m # ms) st =
     (case remap_type s named (Suc (next_type_ref s)) (mr_type m) st of
        None \<Rightarrow> None
      | Some (r, ref, st) \<Rightarrow>
          if r \<noteq> Ok then Some (r, m # ms, st)
          else
            (case remap_members s named ms st of
               None \<Rightarrow> None
             | Some (r, ms, st) \<Rightarrow> Some (r, m\<lparr>mr_type := ref\<rparr> # ms, st)))"

fun remap_types ::
    "nat list \<Rightarrow> nat list \<Rightarrow> build_state \<Rightarrow> remap_state \<Rightarrow> (status_code \<times> build_state \<times> remap_state) option" where
  "remap_types named [] s st = Some (Ok, s, st)"
| "remap_types named (h # hs) s st =
     (case overlay (gu_generation (bs_update s)) (g_candidate_types (bs_graph s)) h of
        None \<Rightarrow> remap_types named hs s st
      | Some t \<Rightarrow>
          (case (if replaced_by Type_aggregate t then ct_build t else None) of
             None \<Rightarrow> remap_types named hs s st
           | Some b \<Rightarrow>
               (case remap_members s named (tb_members b) st of
                  None \<Rightarrow> None
                | Some (r, ms, st) \<Rightarrow>
                    let s = put_type h (t\<lparr>ct_build := Some (b\<lparr>tb_members := ms\<rparr>)\<rparr>) s in
                    if r \<noteq> Ok then Some (r, s, st) else remap_types named hs s st)))"

definition builtin_table :: "canonical_type_record list" where
  "builtin_table = Canonical_builtin Void_type # map Canonical_builtin all_builtins"

definition gu_rebuild_table ::
    "build_state \<Rightarrow> graph_publication \<Rightarrow> (status_code \<times> build_state \<times> graph_publication) option" where
  "gu_rebuild_table s p =
     (if \<not> gu_full (bs_update s) then Some (Ok, s, p)
      else
        case allocate s of (ok, s) \<Rightarrow>
          let handles = [1..<gu_next_type_slot (bs_update s)] in
          if \<not> ok then Some (Initialization_failed, set_failure Initialization_failed s, p)
          else
            case rebuild_named s handles (builtin_table, replicate (gu_next_type_slot (bs_update s)) 0) of
              None \<Rightarrow> Some (Initialization_failed, set_failure Initialization_failed s, p)
            | Some (table, named) \<Rightarrow>
                (case remap_types named handles s (table, [], replicate (next_type_ref s) 0) of
                   None \<Rightarrow> None
                 | Some (r, s, table, index, remap) \<Rightarrow>
                     if r \<noteq> Ok then Some (r, set_failure r s, p)
                     else Some (Ok, s, p\<lparr>gp_canonical := table, gp_named_refs := named, gp_derived_index := index\<rparr>)))"

section \<open>Canonical entity identifiers\<close>

text \<open>
  New entities get their final identifiers in the order of the bytes of their names. The names are
  collected from the contributions that the replaced Sources make, with the places of the
  contributions; then every name is looked up, and sorted.
\<close>

fun collect_new ::
    "nat \<Rightarrow> nat \<Rightarrow> nat \<Rightarrow> nat \<Rightarrow> source_contribution_record list \<Rightarrow> nat list \<times> (nat \<times> nat) list
     \<Rightarrow> nat list \<times> (nat \<times> nat) list" where
  "collect_new base limit source position [] st = st"
| "collect_new base limit source position (c # cs) (names, places) =
     collect_new base limit source (position + 1) cs
       (if base \<le> cr_entity c \<and> cr_entity c < limit
        then (names[cr_entity c - base := cr_name c], places @ [(source, position)])
        else (names, places))"

fun collect_new_names ::
    "nat \<Rightarrow> nat \<Rightarrow> build_state \<Rightarrow> nat list \<Rightarrow> nat list \<times> (nat \<times> nat) list
     \<Rightarrow> (nat list \<times> (nat \<times> nat) list) option" where
  "collect_new_names base limit s [] st = Some st"
| "collect_new_names base limit s (source # sources) st =
     (case cu_candidate (bs_cache s) (bs_cu s) source of
        None \<Rightarrow> None
      | Some state \<Rightarrow> collect_new_names base limit s sources (collect_new base limit source 0 (sc_named state) st))"

record id_assignment =
  ia_name :: nat
  ia_provisional :: nat
  ia_bytes :: string

fun name_assignments ::
    "string_registry \<Rightarrow> string_registry_update \<Rightarrow> nat \<Rightarrow> nat list \<Rightarrow> id_assignment list option" where
  "name_assignments r u provisional [] = Some []"
| "name_assignments r u provisional (name # names) =
     (if name = 0 then name_assignments r u (provisional + 1) names
      else
        case su_get_for_validation r u name of
          None \<Rightarrow> None
        | Some bytes \<Rightarrow>
            map_option (\<lambda>rest. \<lparr>ia_name = name, ia_provisional = cast_u32 provisional, ia_bytes = bytes\<rparr> # rest)
              (name_assignments r u (provisional + 1) names))"

text \<open>\<^verbatim>\<open>std::string_view\<close> compares the bytes as unsigned characters.\<close>

definition byte_order :: "id_assignment \<Rightarrow> nat list" where
  "byte_order a = map of_char (ia_bytes a)"

fun remap_of :: "nat \<Rightarrow> nat \<Rightarrow> id_assignment list \<Rightarrow> nat list \<Rightarrow> nat list" where
  "remap_of base index [] remap = remap"
| "remap_of base index (a # as) remap =
     remap_of base (index + 1) as (remap[ia_provisional a - base := cast_u32 (base + index)])"

text \<open>The permutation of the candidate entities: the provisional slots are taken out and put down again.\<close>

definition take_entities ::
    "nat \<Rightarrow> nat \<Rightarrow> candidate_entity candidate_slot list
     \<Rightarrow> candidate_entity candidate_slot list \<times> candidate_entity candidate_slot list" where
  "take_entities base n xs =
     (map (\<lambda>i. if i < length xs then xs ! i else new_slot new_candidate_entity) [base..<base + n],
      map (\<lambda>i. if base \<le> i \<and> i < base + n then new_slot new_candidate_entity else xs ! i) [0..<length xs])"

fun place_entities ::
    "nat \<Rightarrow> u64 \<Rightarrow> nat list \<Rightarrow> candidate_entity candidate_slot list \<Rightarrow> id_assignment list \<Rightarrow> graph \<Rightarrow> graph option" where
  "place_entities base gen remap old [] g = Some g"
| "place_entities base gen remap old (a # as) g =
     (let final = remap ! (ia_provisional a - base); candidate = old ! (ia_provisional a - base) in
      if slot_generation candidate \<noteq> gen \<or> \<not> entity_live (ce_entity (slot_value candidate)) then None
      else
        place_entities base gen remap old as
          (g\<lparr>g_candidate_entities := (grow (final + 1) (new_slot new_candidate_entity) (g_candidate_entities g))[final := candidate],
             g_candidate_identities := write_slot (ia_name a) final (g_candidate_identities g)\<rparr>))"

text \<open>The contributions of the new entities, through the pointers that were collected.\<close>

definition contribution_at :: "build_state \<Rightarrow> nat \<times> nat \<Rightarrow> source_contribution_record" where
  "contribution_at s place = sc_named (slot_value (cc_candidates (bs_cache s) ! fst place)) ! snd place"

definition put_contribution_entity :: "nat \<times> nat \<Rightarrow> nat \<Rightarrow> build_state \<Rightarrow> build_state" where
  "put_contribution_entity place eid s =
     (let state = slot_value (cc_candidates (bs_cache s) ! fst place) in
      s\<lparr>bs_cache := cu_write (bs_cache s) (fst place)
          (state\<lparr>sc_named := (sc_named state)[snd place := (contribution_at s place)\<lparr>cr_entity := eid\<rparr>]\<rparr>)\<rparr>)"

fun remap_contributions :: "nat \<Rightarrow> nat list \<Rightarrow> (nat \<times> nat) list \<Rightarrow> build_state \<Rightarrow> bool \<times> build_state" where
  "remap_contributions base remap [] s = (True, s)"
| "remap_contributions base remap (place # places) s =
     (let raw = cr_entity (contribution_at s place) in
      if raw < base \<or> base + length remap \<le> raw then (False, s)
      else if remap ! (raw - base) = 0 then (False, s)
      else remap_contributions base remap places (put_contribution_entity place (remap ! (raw - base)) s))"

definition remap_changed :: "nat \<Rightarrow> nat list \<Rightarrow> nat list \<Rightarrow> nat list" where
  "remap_changed base remap ids =
     map (\<lambda>i. if i < base then i else remap ! (i - base))
       (filter (\<lambda>i. i < base \<or> i < base + length remap \<and> remap ! (i - base) \<noteq> 0) ids)"

text \<open>The steps after the assignments are known; \<open>as\<close> is sorted.\<close>

definition apply_assignments ::
    "nat \<Rightarrow> id_assignment list \<Rightarrow> nat list \<Rightarrow> (nat \<times> nat) list \<Rightarrow> build_state \<Rightarrow> status_code \<times> build_state" where
  "apply_assignments base as remap places s =
     (let g = bs_graph s; u = bs_update s in
      case take_entities base (length remap) (g_candidate_entities g) of (old, entities) \<Rightarrow>
        case place_entities base (gu_generation u) remap old as (g\<lparr>g_candidate_entities := entities\<rparr>) of
          None \<Rightarrow> (Configuration_failed, set_failure Configuration_failed s)
        | Some g \<Rightarrow>
            (case take_alloc (bs_memory s) of (m1, mem) \<Rightarrow> case take_alloc mem of (m2, mem) \<Rightarrow>
               case cu_remap_new_entities m1 m2 (bs_cache s) (bs_cu s) base remap of (st, c, cu) \<Rightarrow>
                 let s = s\<lparr>bs_graph := g, bs_cache := c, bs_cu := cu, bs_memory := mem\<rparr> in
                 if st \<noteq> Ok then (st, set_failure st s)
                 else
                   case remap_contributions base remap places s of (ok, s) \<Rightarrow>
                     if \<not> ok then (Configuration_failed, set_failure Configuration_failed s)
                     else
                       let next = cast_u32 (base + length as); g = bs_graph s; u = bs_update s in
                       (Ok, s\<lparr>bs_graph := g\<lparr>g_candidate_entities := take next (g_candidate_entities g)\<rparr>,
                              bs_update := u\<lparr>gu_changed_entities := remap_changed base remap (gu_changed_entities u),
                                            gu_next_stable_id := next\<rparr>\<rparr>)))"

definition gu_canonicalize ::
    "string_registry \<Rightarrow> string_registry_update \<Rightarrow> build_state \<Rightarrow> status_code \<times> build_state" where
  "gu_canonicalize r su s =
     (let base = g_next_stable_id (bs_graph s); limit = gu_next_stable_id (bs_update s) in
      if limit \<le> base then (Ok, s)
      else
        case allocate s of (ok, s) \<Rightarrow>
          if \<not> ok then failing (Initialization_failed, s)
          else
            case collect_new_names base limit s (gu_changed_sources (bs_update s)) (replicate (limit - base) 0, []) of
              None \<Rightarrow> failing (Invalid_state, s)
            | Some (names, places) \<Rightarrow>
                (case name_assignments r su base names of
                   None \<Rightarrow> failing (Configuration_failed, s)
                 | Some as \<Rightarrow>
                     let as = sort_key byte_order as; remap = remap_of base 0 as (replicate (limit - base) 0) in
                     apply_assignments base as remap places s))"

section \<open>The storage of a full reconstruction\<close>

text \<open>The definitions, in the order of the handles, into compact arenas.\<close>

definition is_replacement :: "candidate_type \<Rightarrow> bool" where
  "is_replacement t \<longleftrightarrow> ct_kind t = Candidate_replacement \<and> ct_value t \<noteq> None"

fun materialize_definitions ::
    "nat list \<Rightarrow> build_state \<times> member_record list \<times> enum_value_record list
     \<Rightarrow> build_state \<times> member_record list \<times> enum_value_record list" where
  "materialize_definitions [] st = st"
| "materialize_definitions (h # hs) (s, members, enumerators) =
     (case overlay (gu_generation (bs_update s)) (g_candidate_types (bs_graph s)) h of
        None \<Rightarrow> materialize_definitions hs (s, members, enumerators)
      | Some t \<Rightarrow>
          if \<not> is_replacement t then materialize_definitions hs (s, members, enumerators)
          else
            let v = (the (ct_value t))\<lparr>te_definition := no_range\<rparr>;
                put = (\<lambda>v. put_type h (t\<lparr>ct_value := Some v\<rparr>) s) in
            case ct_build t of
              None \<Rightarrow> materialize_definitions hs (put v, members, enumerators)
            | Some b \<Rightarrow>
                if \<not> tb_definition_pending b then materialize_definitions hs (put v, members, enumerators)
                else if te_kind v = Type_aggregate then
                  materialize_definitions hs
                    (put (v\<lparr>te_definition := \<lparr>dr_begin = cast_u32 (length members + 1),
                                               dr_count = cast_u32 (length (tb_members b))\<rparr>\<rparr>),
                     members @ tb_members b, enumerators)
                else
                  materialize_definitions hs
                    (put (v\<lparr>te_definition := \<lparr>dr_begin = cast_u32 (length enumerators + 1),
                                               dr_count = cast_u32 (length (tb_enumerators b))\<rparr>\<rparr>),
                     members, enumerators @ tb_enumerators b))"

fun rebuild_identity :: "u64 \<Rightarrow> nat candidate_slot list \<Rightarrow> nat list \<Rightarrow> nat list \<Rightarrow> nat list option" where
  "rebuild_identity gen slots [] ids = Some ids"
| "rebuild_identity gen slots (name # names) ids =
     (case overlay gen slots name of
        None \<Rightarrow> None
      | Some eid \<Rightarrow> rebuild_identity gen slots names (ids[name := eid]))"

definition rebuilt_entity :: "build_state \<Rightarrow> nat \<Rightarrow> entity_entry" where
  "rebuilt_entity s eid =
     (case (if eid = 0 then None else overlay (gu_generation (bs_update s)) (g_candidate_entities (bs_graph s)) eid) of
        Some c \<Rightarrow> if entity_live (ce_entity c) then ce_entity c else no_entity
      | None \<Rightarrow> no_entity)"

text \<open>The types move out of their candidate slots; a slot without a type is free.\<close>

fun rebuild_types ::
    "nat list \<Rightarrow> build_state \<times> type_entry option list \<times> nat list
     \<Rightarrow> build_state \<times> type_entry option list \<times> nat list" where
  "rebuild_types [] st = st"
| "rebuild_types (h # hs) (s, types, free) =
     (case overlay (gu_generation (bs_update s)) (g_candidate_types (bs_graph s)) h of
        None \<Rightarrow> rebuild_types hs (s, types, free @ [h])
      | Some t \<Rightarrow>
          if \<not> is_replacement t then rebuild_types hs (s, types, free @ [h])
          else rebuild_types hs (put_type h (t\<lparr>ct_value := None\<rparr>) s, types[h - 1 := ct_value t], free))"

definition rebuilt_entities_ok :: "entity_entry list \<Rightarrow> type_entry option list \<Rightarrow> bool" where
  "rebuilt_entities_ok entities types \<longleftrightarrow>
     list_all (\<lambda>e. entity_live e \<longrightarrow> ee_type e \<noteq> 0 \<and> ee_type e \<le> length types \<and> types ! (ee_type e - 1) \<noteq> None)
       (drop 1 entities)"

definition gu_rebuild_storage ::
    "build_state \<Rightarrow> graph_publication \<Rightarrow> status_code \<times> build_state \<times> graph_publication" where
  "gu_rebuild_storage s p =
     (if \<not> gu_full (bs_update s) then (Ok, s, p)
      else
        case allocate s of (ok, s) \<Rightarrow>
          let g = bs_graph s; u = bs_update s in
          if \<not> ok then (Initialization_failed, set_failure Initialization_failed s, p)
          else
            case rebuild_identity (gu_generation u) (g_candidate_identities g) (gu_changed_identities u)
                   (grow (length (g_candidate_identities g)) 0 (g_identity g)) of
              None \<Rightarrow> (Configuration_failed, set_failure Configuration_failed s, p)
            | Some ids \<Rightarrow>
                let entities = map (rebuilt_entity s) [0..<gu_next_stable_id u] in
                case rebuild_types [1..<gu_next_type_slot u] (s, replicate (gu_next_type_slot u - 1) None, []) of
                  (s, types, free) \<Rightarrow>
                    let p = p\<lparr>gp_identity := ids, gp_entities := entities, gp_types := types, gp_free_slots := free,
                              gp_entity_count := length (filter entity_live entities),
                              gp_type_count := length (filter (\<lambda>t. t \<noteq> None) types)\<rparr> in
                    if rebuilt_entities_ok entities types then (Ok, s, p)
                    else (Configuration_failed, set_failure Configuration_failed s, p))"

text \<open>The index of the rebuilt storage is built as the committed one is when a checkpoint is loaded.\<close>

definition gu_rebuild_dependencies ::
    "build_state \<Rightarrow> graph_publication \<Rightarrow> status_code \<times> build_state \<times> graph_publication" where
  "gu_rebuild_dependencies s p =
     (if \<not> gu_full (bs_update s) then (Ok, s, p)
      else
        case allocate s of (ok, s) \<Rightarrow>
          let empty_rows = replicate (length (gp_types p) + 1) [];
              g = (bs_graph s)\<lparr>g_types := gp_types p, g_members := gp_members p, g_canonical := gp_canonical p\<rparr> in
          if \<not> ok then (Initialization_failed, set_failure Initialization_failed s, p)
          else
            case index_types g 1 (gp_types p) empty_rows empty_rows of
              None \<Rightarrow> (Configuration_failed, set_failure Configuration_failed s, p)
            | Some (deps, users) \<Rightarrow> (Ok, s, p\<lparr>gp_dependencies := deps, gp_reverse := users\<rparr>))"

text \<open>
  The string slots that survive a full reconstruction: the names of all entities there ever were, and
  the names of the members and enumerators. An incremental build answers with no list: every slot survives.
\<close>

definition candidate_identity :: "build_state \<Rightarrow> nat \<Rightarrow> nat" where
  "candidate_identity s name =
     (let g = bs_graph s;
          eid = (case overlay (gu_generation (bs_update s)) (g_candidate_identities g) name of Some eid \<Rightarrow> eid | None \<Rightarrow> 0)
      in if eid = 0 \<and> name < length (g_identity g) then g_identity g ! name else eid)"

fun mark_names :: "nat \<Rightarrow> nat list \<Rightarrow> nat list \<Rightarrow> nat list option" where
  "mark_names slots [] retained = Some retained"
| "mark_names slots (name # names) retained =
     (if name = 0 \<or> slots < name then None else mark_names slots names (retained[name := 1]))"

definition gu_retention ::
    "bool \<Rightarrow> nat \<Rightarrow> build_state \<Rightarrow> graph_publication \<Rightarrow> status_code \<times> nat list" where
  "gu_retention mem slots s p =
     (let g = bs_graph s; known = max (length (g_identity g)) (length (g_candidate_identities g)) in
      if \<not> gu_full (bs_update s) then (Ok, [])
      else if \<not> mem then (Initialization_failed, [])
      else
        case mark_names slots
               (filter (\<lambda>name. candidate_identity s name \<noteq> 0) [1..<known] @ map mr_name (gp_members p) @ map enum_value_name (gp_enum_values p))
               (replicate (slots + 1) 0) of
          None \<Rightarrow> (Configuration_failed, [])
        | Some retained \<Rightarrow> (Ok, retained))"

section \<open>Preparation\<close>

text \<open>Every name and Source that the replaced contributions mention is one of the candidate's.\<close>

definition contribution_names :: "source_contribution_record \<Rightarrow> nat list" where
  "contribution_names c =
     cr_name c # (case cr_definition c of None \<Rightarrow> [] | Some d \<Rightarrow> map enum_value_name (payload_values d))"

definition names_known :: "string_registry \<Rightarrow> string_registry_update \<Rightarrow> nat list \<Rightarrow> bool" where
  "names_known r su names \<longleftrightarrow> list_all (\<lambda>name. su_get_for_validation r su name \<noteq> None) names"

fun check_sources ::
    "source_manager \<Rightarrow> source_manager_update \<Rightarrow> string_registry \<Rightarrow> string_registry_update \<Rightarrow> build_state \<Rightarrow> nat list
     \<Rightarrow> status_code" where
  "check_sources m mu r su s [] = Ok"
| "check_sources m mu r su s (source # sources) =
     (if \<not> mu_contains_for_validation m mu source then Configuration_failed
      else
        case cu_candidate (bs_cache s) (bs_cu s) source of
          None \<Rightarrow> Invalid_state
        | Some state \<Rightarrow>
            if \<not> list_all (\<lambda>c. names_known r su (contribution_names c)) (sc_named state) then Configuration_failed
            else check_sources m mu r su s sources)"

definition definition_known :: "string_registry \<Rightarrow> string_registry_update \<Rightarrow> candidate_type \<Rightarrow> bool" where
  "definition_known r su t \<longleftrightarrow>
     (if \<not> is_replacement t then True
      else if te_kind (the (ct_value t)) = Type_aggregate then
        list_all (\<lambda>m. su_get_for_validation r su (mr_name m) \<noteq> None \<and> mr_type m \<noteq> 0) (tb_members (the (ct_build t)))
      else names_known r su (map enum_value_name (tb_enumerators (the (ct_build t)))))"

definition gu_prepare_full ::
    "build_state \<Rightarrow> graph_publication \<Rightarrow> status_code \<times> build_state \<times> graph_publication" where
  "gu_prepare_full s p =
     (case allocate s of (ok, s) \<Rightarrow>
        if \<not> ok then (Initialization_failed, set_failure Initialization_failed s, p)
        else
          case materialize_definitions [1..<gu_next_type_slot (bs_update s)] (s, [], []) of (s, members, enumerators) \<Rightarrow>
            case gu_rebuild_storage s (p\<lparr>gp_members := members, gp_enum_values := enumerators\<rparr>) of (st, s, p) \<Rightarrow>
              if st \<noteq> Ok then (st, s, p)
              else case gu_rebuild_dependencies s p of (st, s, p) \<Rightarrow>
                if st \<noteq> Ok then (st, s, p)
                else case allocate s of (ok, s) \<Rightarrow>
                  if ok then (Ok, s, p) else (Initialization_failed, set_failure Initialization_failed s, p))"

definition prepared_sizes :: "graph \<Rightarrow> graph_publication \<Rightarrow> graph_publication" where
  "prepared_sizes g p =
     p\<lparr>gp_identity_size := length (g_identity g), gp_entities_size := length (g_entities g),
       gp_types_size := length (g_types g), gp_named_refs_size := length (g_named_type_refs g),
       gp_dependencies_size := length (g_dependencies g), gp_reverse_size := length (g_reverse_dependents g),
       gp_owner_growth := True\<rparr>"

text \<open>
  The growth of the committed tables, in order: \<open>k\<close> of the six resizes are made, fewer than six when an
  allocation throws.
\<close>

definition grow_owner :: "nat \<Rightarrow> build_state \<Rightarrow> graph" where
  "grow_owner k s =
     (let g = bs_graph s; u = bs_update s; types = gu_next_type_slot u - 1;
          refs = (if gu_added_named_refs u = [] then 0 else fold max (map fst (gu_added_named_refs u)) 0 + 1)
      in g\<lparr>g_identity := (if 1 \<le> k then grow (length (g_candidate_identities g)) 0 (g_identity g) else g_identity g),
           g_entities := (if 2 \<le> k then grow (length (g_candidate_entities g)) no_entity (g_entities g) else g_entities g),
           g_types := (if 3 \<le> k then grow types None (g_types g) else g_types g),
           g_named_type_refs := (if 4 \<le> k then grow refs 0 (g_named_type_refs g) else g_named_type_refs g),
           g_dependencies := (if 5 \<le> k then grow (types + 1) [] (g_dependencies g) else g_dependencies g),
           g_reverse_dependents := (if 6 \<le> k then grow (types + 1) [] (g_reverse_dependents g) else g_reverse_dependents g)\<rparr>)"

definition gu_prepare_incremental ::
    "build_state \<Rightarrow> graph_publication \<Rightarrow> status_code \<times> build_state \<times> graph_publication" where
  "gu_prepare_incremental s p =
     (case gu_prepare_dependencies s p of (st, s, p) \<Rightarrow>
        if st \<noteq> Ok then (st, s, p)
        else
          let p = prepared_sizes (bs_graph s) p in
          case take_allocs 7 (bs_memory s) of (k, mem) \<Rightarrow>
            let s' = s\<lparr>bs_graph := grow_owner k s, bs_memory := mem\<rparr> in
            if 7 \<le> k then (Ok, s', p) else (Initialization_failed, set_failure Initialization_failed s', p))"

definition gu_prepare_storage ::
    "build_state \<Rightarrow> graph_publication \<Rightarrow> status_code \<times> build_state \<times> graph_publication" where
  "gu_prepare_storage s p =
     (case (if gu_full (bs_update s) then gu_prepare_full s p else gu_prepare_incremental s p) of (st, s, p) \<Rightarrow>
        if st \<noteq> Ok then (st, s, p)
        else (Ok, s\<lparr>bs_update := (bs_update s)\<lparr>gu_prepared := True\<rparr>\<rparr>, p))"

definition gu_prepare_checks ::
    "source_manager \<Rightarrow> source_manager_update \<Rightarrow> string_registry \<Rightarrow> string_registry_update \<Rightarrow> build_state
     \<Rightarrow> status_code \<times> build_state" where
  "gu_prepare_checks m mu r su s =
     (let u = bs_update s; st = check_sources m mu r su s (gu_changed_sources u) in
      if st \<noteq> Ok then (st, set_failure st s)
      else if \<not> list_all (\<lambda>h. definition_known r su (type_slot h s)) (gu_changed_types u)
      then (Configuration_failed, set_failure Configuration_failed s)
      else (Ok, s))"

definition gu_prepare_publish ::
    "source_manager \<Rightarrow> source_manager_update \<Rightarrow> string_registry \<Rightarrow> string_registry_update
     \<Rightarrow> build_state \<Rightarrow> graph_publication \<Rightarrow> (status_code \<times> build_state \<times> graph_publication) option" where
  "gu_prepare_publish m mu r su s p =
     (let u = bs_update s in
      if gu_failure u \<noteq> Ok then Some (gu_failure u, s, p)
      else if \<not> gu_usable s \<or> g_generation (bs_graph s) \<noteq> gu_base_generation u
      then Some (Invalid_state, set_failure Invalid_state s, p)
      else
        case gu_canonicalize r su s of (st, s) \<Rightarrow>
          if st \<noteq> Ok then Some (st, s, p)
          else case gu_resolve_types (gu_changed_types (bs_update s)) s of (st, s) \<Rightarrow>
            if st \<noteq> Ok then Some (st, s, p)
            else case gu_validate_live s of
              None \<Rightarrow> None
            | Some (st, s) \<Rightarrow>
                if st \<noteq> Ok then Some (st, s, p)
                else case gu_rebuild_table s p of
                  None \<Rightarrow> None
                | Some (st, s, p) \<Rightarrow>
                    if st \<noteq> Ok then Some (st, s, p)
                    else case gu_prepare_checks m mu r su s of (st, s) \<Rightarrow>
                      if st \<noteq> Ok then Some (st, s, p) else Some (gu_prepare_storage s p))"

section \<open>Publication and cancellation\<close>

text \<open>A full reconstruction installs the prepared storage; what it replaces is dropped with the update.\<close>

definition gu_publish_full :: "build_state \<Rightarrow> graph_publication \<Rightarrow> graph" where
  "gu_publish_full s p =
     (bs_graph s)\<lparr>g_identity := gp_identity p, g_entities := gp_entities p, g_types := gp_types p,
       g_free_type_slots := gp_free_slots p, g_members := gp_members p, g_enum_values := gp_enum_values p,
       g_canonical := gp_canonical p, g_named_type_refs := gp_named_refs p, g_derived_index := gp_derived_index p,
       g_dependencies := gp_dependencies p, g_reverse_dependents := gp_reverse p,
       g_entity_count := gp_entity_count p, g_user_type_count := gp_type_count p,
       g_next_stable_id := gu_next_stable_id (bs_update s), g_generation := 0\<rparr>"

definition publish_identity :: "graph \<Rightarrow> nat \<Rightarrow> graph" where
  "publish_identity g name =
     g\<lparr>g_identity := (g_identity g)[name := slot_value (g_candidate_identities g ! name)]\<rparr>"

definition recount :: "bool \<Rightarrow> bool \<Rightarrow> nat \<Rightarrow> nat" where
  "recount was will n = (if was = will then n else if will then n + 1 else n - 1)"

definition publish_entity :: "graph \<Rightarrow> nat \<Rightarrow> graph" where
  "publish_entity g eid =
     (let e = ce_entity (slot_value (g_candidate_entities g ! eid)) in
      g\<lparr>g_entity_count := recount (entity_live (g_entities g ! eid)) (entity_live e) (g_entity_count g),
        g_entities := (g_entities g)[eid := e]\<rparr>)"

text \<open>The definition of a replacement goes to the end of its arena; its value moves to the table.\<close>

definition publish_definition :: "type_entry \<Rightarrow> type_build_state option \<Rightarrow> graph \<Rightarrow> type_entry \<times> graph" where
  "publish_definition v build g =
     (let v = v\<lparr>te_definition := no_range\<rparr> in
      case build of
        None \<Rightarrow> (v, g)
      | Some b \<Rightarrow>
          if \<not> tb_definition_pending b then (v, g)
          else if te_kind v = Type_aggregate then
            (v\<lparr>te_definition := \<lparr>dr_begin = cast_u32 (length (g_members g) + 1), dr_count = cast_u32 (length (tb_members b))\<rparr>\<rparr>,
             g\<lparr>g_members := g_members g @ tb_members b\<rparr>)
          else
            (v\<lparr>te_definition := \<lparr>dr_begin = cast_u32 (length (g_enum_values g) + 1),
                                dr_count = cast_u32 (length (tb_enumerators b))\<rparr>\<rparr>,
             g\<lparr>g_enum_values := g_enum_values g @ tb_enumerators b\<rparr>))"

definition publish_type :: "graph \<Rightarrow> nat \<Rightarrow> graph" where
  "publish_type g h =
     (let t = slot_value (g_candidate_types g ! h); committed = g_types g ! (h - 1);
          was = (committed \<noteq> None);
          will = (ct_kind t = Candidate_replacement \<or> ct_kind t = Candidate_unchanged \<and> was);
          g = g\<lparr>g_user_type_count := recount was will (g_user_type_count g)\<rparr>;
          put = (\<lambda>t. write_slot h t (g_candidate_types g))
      in case ct_kind t of
           Candidate_unchanged \<Rightarrow> g
         | Candidate_replacement \<Rightarrow>
             (case publish_definition (the (ct_value t)) (ct_build t) g of (v, g) \<Rightarrow>
                g\<lparr>g_types := (g_types g)[h - 1 := Some v],
                  g_candidate_types := put (t\<lparr>ct_value := committed, ct_build := None\<rparr>)\<rparr>)
         | Candidate_removed \<Rightarrow>
             g\<lparr>g_types := (g_types g)[h - 1 := None], g_free_type_slots := g_free_type_slots g @ [h],
               g_candidate_types := put (t\<lparr>ct_build := None\<rparr>)\<rparr>)"

definition publish_rows :: "(nat \<times> nat list) list \<Rightarrow> nat list list \<Rightarrow> nat list list" where
  "publish_rows updates rows = fold (\<lambda>(h, row) rows. rows[h := row]) updates rows"

definition publish_refs :: "(nat \<times> nat) list \<Rightarrow> nat list \<Rightarrow> nat list" where
  "publish_refs updates refs = fold (\<lambda>(h, ref) refs. refs[h := ref]) updates refs"

definition gu_publish_incremental :: "build_state \<Rightarrow> graph_publication \<Rightarrow> graph" where
  "gu_publish_incremental s p =
     (let g = bs_graph s; u = bs_update s;
          g = g\<lparr>g_free_type_slots :=
                 take (length (g_free_type_slots g) - length (gu_claimed_free u)) (g_free_type_slots g)\<rparr>;
          g = foldl publish_identity g (gu_changed_identities u);
          g = foldl publish_entity g (gu_changed_entities u);
          g = foldl publish_type g (gu_changed_types u)
      in g\<lparr>g_canonical := g_canonical g @ gu_added_canonical u,
           g_named_type_refs := publish_refs (gu_added_named_refs u) (g_named_type_refs g),
           g_derived_index := um_merge (g_derived_index g) (gu_added_derived_index u),
           g_dependencies := publish_rows (gp_type_updates p) (g_dependencies g),
           g_reverse_dependents := publish_rows (gp_reverse_updates p) (g_reverse_dependents g),
           g_next_stable_id := gu_next_stable_id u, g_generation := g_generation g + 1\<rparr>)"

definition gu_publish_prepared :: "build_state \<Rightarrow> graph_publication \<Rightarrow> build_state \<times> graph_publication" where
  "gu_publish_prepared s p =
     (let u = (bs_update s)\<lparr>gu_committed := True\<rparr> in
      if gu_full u then (s\<lparr>bs_graph := gu_publish_full s p, bs_update := u\<rparr>, p)
      else (s\<lparr>bs_graph := gu_publish_incremental s p, bs_update := u\<rparr>, p\<lparr>gp_owner_growth := False\<rparr>))"

definition gu_rollback :: "build_state \<Rightarrow> graph_publication \<Rightarrow> build_state \<times> graph_publication" where
  "gu_rollback s p =
     (let g = bs_graph s; u = bs_update s in
      if \<not> gu_owner u \<or> \<not> gp_owner_growth p \<or> gu_committed u \<or> gu_full u then (s, p)
      else
        (s\<lparr>bs_graph := g\<lparr>g_identity := take (gp_identity_size p) (g_identity g),
             g_entities := take (gp_entities_size p) (g_entities g), g_types := take (gp_types_size p) (g_types g),
             g_named_type_refs := take (gp_named_refs_size p) (g_named_type_refs g),
             g_dependencies := take (gp_dependencies_size p) (g_dependencies g),
             g_reverse_dependents := take (gp_reverse_size p) (g_reverse_dependents g)\<rparr>\<rparr>,
         p\<lparr>gp_owner_growth := False\<rparr>))"

definition gu_cancel :: "build_state \<Rightarrow> graph_publication \<Rightarrow> build_state \<times> graph_publication" where
  "gu_cancel s p =
     (if gu_committed (bs_update s) then (s, p)
      else case gu_rollback s p of (s, p) \<Rightarrow>
        (set_failure Invalid_state (s\<lparr>bs_update := (bs_update s)\<lparr>gu_prepared := True\<rparr>\<rparr>), p))"

end
