(* ===== verification/GraphRebuild.thy ===== *)
theory GraphRebuild
  imports GraphPublish
begin

text \<open>
  The TypeRef table of a full reconstruction: it is hash-consed like a loaded one, every live type has
  its TypeRef, and the members of the candidate denote in it what they denoted in the old tables.
\<close>

section \<open>Denotation\<close>

lemma gu_record_table: "gu_record s ref = table_entry (candidate_table s) ref"
  by (auto simp: gu_record_def Let_def table_entry_def candidate_table_def nth_append)

definition denotes :: "canonical_type_record list \<Rightarrow> nat \<Rightarrow> denoted_type \<Rightarrow> bool" where
  "denotes table ref x \<longleftrightarrow> (\<exists>depth. denote table depth ref = Some x)"

lemma denotes_builtin: "table_entry table ref = Some (Canonical_builtin b) \<Longrightarrow> denotes table ref (Denoted_builtin b)"
  unfolding denotes_def by (intro exI [of _ 1]) simp

lemma denotes_named: "table_entry table ref = Some (Canonical_named h) \<Longrightarrow> denotes table ref (Denoted_user h)"
  unfolding denotes_def by (intro exI [of _ 1]) simp

lemma denotes_derived:
  assumes "table_entry table ref = Some (Canonical_derived d)" and "denotes table (dt_child d) x"
  shows "denotes table ref (Denoted_modified (dt_kind d) (dt_payload d) x)"
proof -
  obtain depth where "denote table depth (dt_child d) = Some x" using assms(2) by (auto simp: denotes_def)
  with assms(1) show ?thesis unfolding denotes_def by (intro exI [of _ "Suc depth"]) simp
qed

lemma table_entry_extend: "table_entry table ref = Some e \<Longrightarrow> table_entry (table @ ext) ref = Some e"
  by (auto simp: table_entry_def nth_append split: if_splits)

lemma denote_extend: "denote table depth ref = Some x \<Longrightarrow> denote (table @ ext) depth ref = Some x"
proof (induction depth arbitrary: ref x)
  case (Suc depth)
  then obtain e where e: "table_entry table ref = Some e" by (auto split: option.splits)
  with Suc show ?case by (auto simp: table_entry_extend split: canonical_type_record.splits)
qed simp

lemma denotes_extend: "denotes table ref x \<Longrightarrow> denotes (table @ ext) ref x"
  by (auto simp: denotes_def intro: denote_extend)

section \<open>The named TypeRefs\<close>

text \<open>
  \<open>named_exact\<close>: a table of builtins followed by one entry for each handle below \<open>limit\<close> that is live.
\<close>

definition named_exact :: "build_state \<Rightarrow> nat \<Rightarrow> nat \<Rightarrow> canonical_type_record list \<Rightarrow> nat list \<Rightarrow> bool" where
  "named_exact s n limit table refs \<longleftrightarrow>
     length refs = n \<and> type_table_wf (n - 1) table refs [] \<and> length all_builtins < length table \<and>
     (\<forall>h < n. refs ! h \<noteq> 0 \<longleftrightarrow> 0 < h \<and> h < limit \<and> rebuilt_type_live s h)"

lemma builtin_table_entry:
  "table_entry builtin_table i = Some e \<longleftrightarrow>
     i \<noteq> 0 \<and> i \<le> length all_builtins \<and> e = Canonical_builtin (all_builtins ! (i - 1))"
  by (cases i) (auto simp: table_entry_def builtin_table_def)

lemma named_exact_start:
  assumes "1 \<le> n"
  shows "named_exact s n 1 builtin_table (replicate n 0)"
proof -
  have "length builtin_table = length all_builtins + 1" by (simp add: builtin_table_def)
  then show ?thesis using assms
    by (auto simp: named_exact_def type_table_wf_def builtin_table_entry)
qed

lemma named_exact_skip:
  "named_exact s n h table refs \<Longrightarrow> \<not> rebuilt_type_live s h \<Longrightarrow> named_exact s n (Suc h) table refs"
  by (auto simp: named_exact_def less_Suc_eq)

lemma named_exact_push:
  assumes E: "named_exact s n h table refs" and h: "0 < h" "h < n" "rebuilt_type_live s h" and room: "length table \<le> u32_max"
  shows "named_exact s n (Suc h) (table @ [Canonical_named h]) (refs[h := cast_u32 (length table)])"
proof -
  have len: "length refs = n" and wf: "type_table_wf (n - 1) table refs []" and big: "length all_builtins < length table"
    and live: "\<And>k. k < n \<Longrightarrow> refs ! k \<noteq> 0 \<longleftrightarrow> 0 < k \<and> k < h \<and> rebuilt_type_live s k"
    using E by (simp_all add: named_exact_def)
  have zero: "refs ! h = 0" using live [of h] h by simp
  have fresh: "refs ! k \<noteq> length table" if "k \<noteq> 0" "k < n" for k
  proof -
    have "table \<noteq> []" "k \<le> n - 1" using big that by auto
    with type_table_wf_fresh(1) [OF wf _ that(1)] show ?thesis by blast
  qed
  note W = wf [unfolded type_table_wf_def]
  have named: "table_entry table i = Some (Canonical_named k) \<longleftrightarrow> i \<noteq> 0 \<and> k \<noteq> 0 \<and> k < n \<and> refs ! k = i" for i k
    using W h by auto
  have builtins: "table_entry table i = Some (Canonical_builtin b) \<longleftrightarrow>
      i \<noteq> 0 \<and> i < length table \<and> i \<le> length all_builtins \<and> b = all_builtins ! (i - 1)" for i b
    using W by blast
  have derived: "table_entry table i \<noteq> Some (Canonical_derived d)" for i d using W by auto
  have nonempty: "table \<noteq> []" using big by auto
  have "type_table_wf (n - 1) (table @ [Canonical_named h]) (refs[h := length table]) []"
    unfolding type_table_wf_def table_entry_append
  proof (intro conjI allI)
    show "length (refs[h := length table]) = n - 1 + 1" using len h by simp
  next
    fix i b
    show "((if i = length table \<and> i \<noteq> 0 then Some (Canonical_named h) else table_entry table i) = Some (Canonical_builtin b)) =
        (i \<noteq> 0 \<and> i < length (table @ [Canonical_named h]) \<and> i \<le> length all_builtins \<and> b = all_builtins ! (i - 1))"
      using builtins [of i b] big nonempty by (cases "i = length table") auto
  next
    fix i k
    show "((if i = length table \<and> i \<noteq> 0 then Some (Canonical_named h) else table_entry table i) = Some (Canonical_named k)) =
        (i \<noteq> 0 \<and> k \<noteq> 0 \<and> k \<le> n - 1 \<and> refs[h := length table] ! k = i)"
    proof (cases "k = h")
      case True
      then show ?thesis using h len nonempty zero named [of i h] by auto
    next
      case False
      then show ?thesis using h len nonempty named [of i k] fresh [of k] by auto
    qed
  qed (use derived in \<open>simp_all split: if_splits\<close>)
  moreover have "refs[h := length table] ! k \<noteq> 0 \<longleftrightarrow> 0 < k \<and> k < Suc h \<and> rebuilt_type_live s k" if "k < n" for k
    using live [OF that] h big len that by (auto simp: nth_list_update less_Suc_eq)
  ultimately show ?thesis using len big room by (simp add: named_exact_def)
qed

lemma rebuild_named_exact:
  "rebuild_named s [h..<n] (table, refs) = Some (table', refs') \<Longrightarrow> named_exact s n h table refs \<Longrightarrow> 0 < h \<Longrightarrow> h \<le> n \<Longrightarrow>
   named_exact s n n table' refs'"
proof (induction "n - h" arbitrary: h table refs)
  case 0
  then show ?case by simp
next
  case (Suc k)
  then have h: "h < n" and range: "[h..<n] = h # [Suc h..<n]" by (simp_all add: upt_conv_Cons)
  have k: "k = n - Suc h" using Suc.hyps(2) by simp
  show ?case
  proof (cases "rebuilt_type_live s h")
    case False
    with Suc.prems(1) have "rebuild_named s [Suc h..<n] (table, refs) = Some (table', refs')" by (simp add: range)
    from Suc.hyps(1) [OF k this named_exact_skip [OF Suc.prems(2) False]] h show ?thesis by simp
  next
    case True
    with Suc.prems(1) have room: "length table \<le> u32_max"
      and run: "rebuild_named s [Suc h..<n] (table @ [Canonical_named h], refs[h := cast_u32 (length table)]) = Some (table', refs')"
      by (simp_all add: range split: if_splits)
    from Suc.hyps(1) [OF k run named_exact_push [OF Suc.prems(2,3) h True room]] h show ?thesis by simp
  qed
qed
section \<open>The remapped TypeRefs\<close>

text \<open>
  The state of the remapping: the new table stays hash-consed, and the TypeRefs that have been remapped
  denote the same types before and after.
\<close>

definition remap_inv :: "build_state \<Rightarrow> nat list \<Rightarrow> remap_state \<Rightarrow> bool" where
  "remap_inv s named st \<longleftrightarrow>
     (case st of (table, index, remap) \<Rightarrow>
        type_table_wf (length named - 1) table named index \<and> named \<noteq> [] \<and> length all_builtins < length table \<and>
        (\<forall>i < length remap. remap ! i \<noteq> 0 \<longrightarrow> (\<exists>x. denotes (candidate_table s) i x \<and> denotes table (remap ! i) x)))"

definition payloads_ok :: "build_state \<Rightarrow> bool" where
  "payloads_ok s \<longleftrightarrow>
     (\<forall>i d. table_entry (candidate_table s) i = Some (Canonical_derived d) \<longrightarrow>
        (dt_kind d = Derived_array \<longleftrightarrow> dt_payload d \<noteq> 0))"

lemma type_table_wf_push:
  assumes wf: "type_table_wf n table refs derived" and d: "dt_child d \<noteq> 0" "dt_child d < length table"
    "dt_kind d = Derived_array \<longleftrightarrow> dt_payload d \<noteq> 0" and new: "map_of derived d = None" and big: "length all_builtins < length table"
  shows "type_table_wf n (table @ [Canonical_derived d]) refs (um_emplace d (length table) derived)"
proof -
  note W = wf [unfolded type_table_wf_def]
  have nonempty: "table \<noteq> []" using big by auto
  have fresh: "refs ! h \<noteq> length table" if "h \<noteq> 0" "h \<le> n" for h
    using type_table_wf_fresh(1) [OF wf nonempty that] .
  have index: "map_of (um_emplace d (length table) derived) e = (if e = d then Some (length table) else map_of derived e)" for e
    using new by (simp add: umap_simps)
  have unused: "table_entry table i \<noteq> Some (Canonical_derived d)" for i using W new by auto
  have unindexed: "map_of derived e \<noteq> Some (length table)" for e by (rule type_table_wf_fresh(2) [OF wf nonempty])
  show ?thesis
    unfolding type_table_wf_def table_entry_append index
    using W d big fresh unused unindexed nonempty by (auto split: if_splits)
qed

lemma denotes_entry: "denotes table ref x \<Longrightarrow> ref \<noteq> 0 \<and> ref < length table"
proof -
  assume "denotes table ref x"
  then obtain depth where "denote table depth ref = Some x" by (auto simp: denotes_def)
  then have "table_entry table ref \<noteq> None" by (cases depth) (auto split: option.splits)
  then show ?thesis by (auto simp: table_entry_def split: if_splits)
qed

lemma remap_inv_store:
  assumes "remap_inv s named (table, index, remap)" and "type_table_wf (length named - 1) (table @ ext) named index'"
    and "denotes (candidate_table s) old x" "denotes (table @ ext) out x"
  shows "remap_inv s named (table @ ext, index', remap[old := out])"
proof -
  have "\<exists>y. denotes (candidate_table s) i y \<and> denotes (table @ ext) (remap[old := out] ! i) y"
    if "i < length remap" "remap[old := out] ! i \<noteq> 0" for i
  proof (cases "i = old")
    case True
    with assms(3,4) that show ?thesis by auto
  next
    case False
    with assms(1) that obtain y where "denotes (candidate_table s) i y" "denotes table (remap ! i) y"
      by (auto simp: remap_inv_def)
    with False show ?thesis using denotes_extend by auto
  qed
  with assms(1,2) show ?thesis by (auto simp: remap_inv_def)
qed

lemma builtin_code_entry: "all_builtins ! builtin_code b = b \<and> builtin_code b < length all_builtins"
  by (cases b) (simp_all add: all_builtins_def)

lemma remap_derived:
  assumes inv: "remap_inv s named (table, index, remap)" and payloads: "payloads_ok s"
    and entry: "table_entry (candidate_table s) old = Some (Canonical_derived d)"
    and child: "denotes (candidate_table s) (dt_child d) x" "denotes table child x"
  defines "key \<equiv> d\<lparr>dt_child := child\<rparr>" and "y \<equiv> Denoted_modified (dt_kind d) (dt_payload d) x"
  shows "denotes (candidate_table s) old y"
    and "map_of index key = Some out \<Longrightarrow> remap_inv s named (table, index, remap[old := out]) \<and> denotes table out y"
    and "map_of index key = None \<Longrightarrow>
      remap_inv s named (table @ [Canonical_derived key], um_emplace key (length table) index, remap[old := length table]) \<and>
      denotes (table @ [Canonical_derived key]) (length table) y"
proof -
  have wf: "type_table_wf (length named - 1) table named index" and big: "length all_builtins < length table"
    using inv by (simp_all add: remap_inv_def)
  have fields: "dt_child key = child" "dt_kind key = dt_kind d" "dt_payload key = dt_payload d" by (simp_all add: key_def)
  show old: "denotes (candidate_table s) old y" unfolding y_def by (rule denotes_derived [OF entry child(1)])
  have modified: "table_entry T r = Some (Canonical_derived key) \<Longrightarrow> denotes T child x \<Longrightarrow> denotes T r y" for T r
    using denotes_derived [of T r key x] by (simp add: fields y_def)
  {
    assume "map_of index key = Some out"
    then have "table_entry table out = Some (Canonical_derived key)" using wf unfolding type_table_wf_def by blast
    then have out: "denotes table out y" by (rule modified [OF _ child(2)])
    with remap_inv_store [OF inv, of "[]" index old y out] wf old
    show "remap_inv s named (table, index, remap[old := out]) \<and> denotes table out y" by simp
  next
    assume new: "map_of index key = None"
    let ?T = "table @ [Canonical_derived key]"
    from payloads entry have "dt_kind key = Derived_array \<longleftrightarrow> dt_payload key \<noteq> 0" by (auto simp: payloads_ok_def fields)
    with denotes_entry [OF child(2)] type_table_wf_push [OF wf _ _ _ new big]
    have wf': "type_table_wf (length named - 1) ?T named (um_emplace key (length table) index)" by (simp add: fields)
    have "table_entry ?T (length table) = Some (Canonical_derived key)" using big by (auto simp: table_entry_append)
    then have out: "denotes ?T (length table) y" by (rule modified) (rule denotes_extend [OF child(2)])
    from remap_inv_store [OF inv wf' old out] out
    show "remap_inv s named (?T, um_emplace key (length table) index, remap[old := length table]) \<and> denotes ?T (length table) y"
      by blast
  }
qed

lemma remap_type_spec:
  "remap_type s named fuel old (table, index, remap) = Some (r, out, table', index', remap') \<Longrightarrow>
   remap_inv s named (table, index, remap) \<Longrightarrow> payloads_ok s \<Longrightarrow>
   remap_inv s named (table', index', remap') \<and> (\<exists>ext. table' = table @ ext) \<and>
   (r = Ok \<longrightarrow> (\<exists>x. denotes (candidate_table s) old x \<and> denotes table' out x))"
proof (induction fuel arbitrary: old table index remap r out table' index' remap')
  case (Suc fuel)
  note inv = Suc.prems(2) and payloads = Suc.prems(3)
  have wf: "type_table_wf (length named - 1) table named index" and big: "length all_builtins < length table"
    using inv by (simp_all add: remap_inv_def)
  note W = wf [unfolded type_table_wf_def]
  have refused: "r \<noteq> Ok \<Longrightarrow> ?case" if "(table', index', remap') = (table, index, remap)"
    using that inv by auto
  have stored: ?case if "table' = table @ ext" "remap' = remap[old := out]" "type_table_wf (length named - 1) table' named index'"
    "denotes (candidate_table s) old x" "denotes table' out x" for ext x
    using remap_inv_store [OF inv, of ext index' old x out] that by blast
  show ?case
  proof (cases "old = 0 \<or> length remap \<le> old")
    case True
    with Suc.prems(1) inv show ?thesis by auto
  next
    case in_range: False
    show ?thesis
    proof (cases "remap ! old \<noteq> 0")
      case True
      with in_range Suc.prems(1) inv show ?thesis by (auto simp: remap_inv_def)
    next
      case new: False
      show ?thesis
      proof (cases "gu_record s old")
        case None
        with in_range new Suc.prems(1) inv show ?thesis by auto
      next
        case (Some e)
        then have e: "table_entry (candidate_table s) old = Some e" by (simp add: gu_record_table)
        show ?thesis
        proof (cases e)
          case (Canonical_builtin b)
          have entry: "table_entry table (builtin_code b + 1) = Some (Canonical_builtin b)"
            using W builtin_code_entry [of b] big by auto
          have "builtin_code b \<le> builtin_code Void_type" by (cases b) simp_all
          with in_range new Suc.prems(1) Some Canonical_builtin
          have "table' = table @ []" "index' = index" "remap' = remap[old := out]" "out = builtin_code b + 1"
            by (auto split: if_splits)
          with stored [of "[]" "Denoted_builtin b"] wf entry e Canonical_builtin show ?thesis
            by (simp add: denotes_builtin)
        next
          case (Canonical_named h)
          show ?thesis
          proof (cases "h = 0 \<or> length named \<le> h \<or> named ! h = 0")
            case True
            with in_range new Suc.prems(1) Some Canonical_named inv show ?thesis by auto
          next
            case False
            then have entry: "table_entry table (named ! h) = Some (Canonical_named h)" using W by auto
            from False in_range new Suc.prems(1) Some Canonical_named
            have "table' = table @ []" "index' = index" "remap' = remap[old := out]" "out = named ! h"
              by (auto split: if_splits)
            with stored [of "[]" "Denoted_user h"] wf entry e Canonical_named show ?thesis by (simp add: denotes_named)
          qed
        next
          case (Canonical_derived d)
          obtain r1 child table1 index1 remap1 where
            rec: "remap_type s named fuel (dt_child d) (table, index, remap) = Some (r1, child, table1, index1, remap1)"
            using in_range new Suc.prems(1) Some Canonical_derived by (auto split: option.splits prod.splits)
          have IH: "remap_inv s named (table1, index1, remap1)" "\<exists>ext. table1 = table @ ext"
            "r1 = Ok \<longrightarrow> (\<exists>x. denotes (candidate_table s) (dt_child d) x \<and> denotes table1 child x)"
            using Suc.IH [OF rec inv payloads] by simp_all
          let ?key = "d\<lparr>dt_child := child\<rparr>"
          note run = Suc.prems(1) [unfolded remap_type.simps] rec Some [unfolded Canonical_derived]
          show ?thesis
          proof (cases "r1 = Ok")
            case False
            with run in_range new IH(1,2) show ?thesis by auto
          next
            case True
            then obtain x where x: "denotes (candidate_table s) (dt_child d) x" "denotes table1 child x" using IH(3) by blast
            note D = remap_derived [OF IH(1) payloads e [unfolded Canonical_derived] x]
            show ?thesis
            proof (cases "map_of index1 ?key")
              case (Some ref)
              with run True in_range new have "table' = table1" "index' = index1" "remap' = remap1[old := ref]" "out = ref"
                by auto
              with D(1) D(2) [OF Some] IH(2) show ?thesis by blast
            next
              case None
              show ?thesis
              proof (cases "u32_max < length table1")
                case True
                with None run \<open>r1 = Ok\<close> in_range new IH(1,2) show ?thesis by auto
              next
                case False
                with None run True in_range new have "table' = table1 @ [Canonical_derived ?key]"
                  "index' = um_emplace ?key (length table1) index1" "remap' = remap1[old := length table1]" "out = length table1"
                  by (auto simp: Let_def)
                with D(1) D(3) [OF None] IH(2) show ?thesis by auto
              qed
            qed
          qed
        qed
      qed
    qed
  qed
qed simp

section \<open>The members of the candidate\<close>

text \<open>Members with the same names and, over the old and the new table, the same types.\<close>

definition same_members ::
    "canonical_type_record list \<Rightarrow> canonical_type_record list \<Rightarrow> member_record list \<Rightarrow> member_record list \<Rightarrow> bool" where
  "same_members old new ms ms' \<longleftrightarrow>
     list_all2 (\<lambda>m m'. mr_name m' = mr_name m \<and> (\<exists>x. denotes old (mr_type m) x \<and> denotes new (mr_type m') x)) ms ms'"

lemma same_members_extend: "same_members old new ms ms' \<Longrightarrow> same_members old (new @ ext) ms ms'"
  unfolding same_members_def by (erule list_all2_mono) (auto intro: denotes_extend)

lemma remap_members_spec:
  "remap_members s named ms st = Some (r, ms', st') \<Longrightarrow> remap_inv s named st \<Longrightarrow> payloads_ok s \<Longrightarrow>
   remap_inv s named st' \<and> (\<exists>ext. fst st' = fst st @ ext) \<and> (r = Ok \<longrightarrow> same_members (candidate_table s) (fst st') ms ms')"
proof (induction ms arbitrary: st ms' r st')
  case Nil
  then show ?case by (simp add: same_members_def)
next
  case (Cons m ms)
  obtain table index remap where st: "st = (table, index, remap)" by (metis prod_cases3)
  obtain r1 ref table1 index1 remap1 where
    one: "remap_type s named (Suc (next_type_ref s)) (mr_type m) (table, index, remap) = Some (r1, ref, table1, index1, remap1)"
    using Cons.prems(1) by (auto simp del: remap_type.simps simp: st split: option.splits prod.splits)
  note M = remap_type_spec [OF one Cons.prems(2) [unfolded st] Cons.prems(3)]
  note run = Cons.prems(1) [unfolded st remap_members.simps one option.case prod.case]
  show ?case
  proof (cases "r1 = Ok")
    case False
    with run M st show ?thesis by auto
  next
    case True
    then obtain r2 ms2 st2 where rest: "remap_members s named ms (table1, index1, remap1) = Some (r2, ms2, st2)"
      and res: "r = r2" "ms' = m\<lparr>mr_type := ref\<rparr> # ms2" "st' = st2"
      using run by (auto split: option.splits prod.splits)
    from M have inv1: "remap_inv s named (table1, index1, remap1)" by blast
    note IH = Cons.IH [OF rest inv1 Cons.prems(3)]
    have "\<exists>ext. fst st2 = table @ ext" using IH M by auto
    moreover have "same_members (candidate_table s) (fst st2) (m # ms) ms'" if ok: "r2 = Ok"
    proof -
      obtain x where x: "denotes (candidate_table s) (mr_type m) x" "denotes table1 ref x" using M True by blast
      moreover have "denotes (fst st2) ref x" using IH x(2) denotes_extend by auto
      ultimately show ?thesis using IH ok by (auto simp: same_members_def res)
    qed
    ultimately show ?thesis using IH by (simp add: res st)
  qed
qed

text \<open>What the loop over the handles leaves in the slot of a handle.\<close>

definition candidate_slot_of :: "build_state \<Rightarrow> nat \<Rightarrow> candidate_type option" where
  "candidate_slot_of s h = overlay (gu_generation (bs_update s)) (g_candidate_types (bs_graph s)) h"

definition members_kept :: "build_state \<Rightarrow> canonical_type_record list \<Rightarrow> build_state \<Rightarrow> nat \<Rightarrow> bool" where
  "members_kept s table s' h \<longleftrightarrow>
     (\<forall>t b. candidate_slot_of s h = Some t \<longrightarrow> replaced_by Type_aggregate t \<longrightarrow> ct_build t = Some b \<longrightarrow>
        (\<exists>ms. candidate_slot_of s' h = Some (t\<lparr>ct_build := Some (b\<lparr>tb_members := ms\<rparr>)\<rparr>) \<and>
              same_members (candidate_table s) table (tb_members b) ms))"

text \<open>A state that differs in the candidate slots of some types only.\<close>

definition type_slots_changed :: "nat set \<Rightarrow> build_state \<Rightarrow> build_state \<Rightarrow> bool" where
  "type_slots_changed H s s' \<longleftrightarrow>
     (\<exists>slots. s' = s\<lparr>bs_graph := (bs_graph s)\<lparr>g_candidate_types := slots\<rparr>\<rparr>) \<and>
     (\<forall>h. h \<notin> H \<longrightarrow> candidate_slot_of s' h = candidate_slot_of s h)"

lemma type_slots_changed_fields:
  assumes "type_slots_changed H s s'"
  shows "candidate_table s' = candidate_table s" "bs_update s' = bs_update s" "next_type_ref s' = next_type_ref s"
    "payloads_ok s' = payloads_ok s" "remap_inv s' named st = remap_inv s named st"
proof -
  obtain slots where s': "s' = s\<lparr>bs_graph := (bs_graph s)\<lparr>g_candidate_types := slots\<rparr>\<rparr>"
    using assms unfolding type_slots_changed_def by blast
  show table: "candidate_table s' = candidate_table s" by (simp add: s' candidate_table_def)
  show "bs_update s' = bs_update s" "next_type_ref s' = next_type_ref s" by (simp_all add: s' next_type_ref_def)
  show "payloads_ok s' = payloads_ok s" by (simp add: payloads_ok_def table)
  show "remap_inv s' named st = remap_inv s named st" by (simp add: remap_inv_def table)
qed

lemma type_slots_changed_trans:
  "type_slots_changed H s t \<Longrightarrow> type_slots_changed K t u \<Longrightarrow> type_slots_changed (H \<union> K) s u"
proof -
  assume 1: "type_slots_changed H s t" and 2: "type_slots_changed K t u"
  obtain ts where t: "t = s\<lparr>bs_graph := (bs_graph s)\<lparr>g_candidate_types := ts\<rparr>\<rparr>" using 1 unfolding type_slots_changed_def by blast
  obtain us where u: "u = t\<lparr>bs_graph := (bs_graph t)\<lparr>g_candidate_types := us\<rparr>\<rparr>" using 2 unfolding type_slots_changed_def by blast
  have "u = s\<lparr>bs_graph := (bs_graph s)\<lparr>g_candidate_types := us\<rparr>\<rparr>" by (simp add: t u)
  with 1 2 show ?thesis unfolding type_slots_changed_def by (intro conjI) (blast, simp)
qed

lemma type_slots_changed_refl: "type_slots_changed {} s s"
  unfolding type_slots_changed_def by (intro conjI exI [of _ "g_candidate_types (bs_graph s)"]) simp_all

lemma put_type_slot:
  assumes "candidate_slot_of s h = Some t"
  shows "type_slots_changed {h} s (put_type h t' s)" "candidate_slot_of (put_type h t' s) h = Some t'"
proof -
  have h: "h < length (g_candidate_types (bs_graph s))"
    "slot_generation (g_candidate_types (bs_graph s) ! h) = gu_generation (bs_update s)"
    using assms by (simp_all add: candidate_slot_of_def overlay_def split: if_splits)
  then show "candidate_slot_of (put_type h t' s) h = Some t'"
    by (simp add: candidate_slot_of_def overlay_def put_type_def write_slot_def)
  have "candidate_slot_of (put_type h t' s) k = candidate_slot_of s k" if "k \<noteq> h" for k
    using that by (simp add: candidate_slot_of_def overlay_def put_type_def write_slot_def)
  then show "type_slots_changed {h} s (put_type h t' s)" unfolding type_slots_changed_def put_type_def by auto
qed

lemma remap_types_spec:
  "remap_types named hs s st = Some (r, s', st') \<Longrightarrow> distinct hs \<Longrightarrow> remap_inv s named st \<Longrightarrow> payloads_ok s \<Longrightarrow>
   type_slots_changed (set hs) s s' \<and> remap_inv s named st' \<and> (\<exists>ext. fst st' = fst st @ ext) \<and>
   (r = Ok \<longrightarrow> (\<forall>h\<in>set hs. members_kept s (fst st') s' h))"
proof (induction hs arbitrary: s st r s' st')
  case Nil
  then show ?case by (simp add: type_slots_changed_refl)
next
  case (Cons h hs)
  note run = Cons.prems(1) [unfolded remap_types.simps, folded candidate_slot_of_def]
  have skip: ?case if next_: "remap_types named hs s st = Some (r, s', st')"
    and none: "\<And>t. candidate_slot_of s h = Some t \<Longrightarrow> (if replaced_by Type_aggregate t then ct_build t else None) = None"
  proof -
    note IH = Cons.IH [OF next_ _ Cons.prems(3,4)]
    have "members_kept s T s' h" for T using none unfolding members_kept_def by fastforce
    moreover have "type_slots_changed (set (h # hs)) s s'"
      using IH Cons.prems(2) by (auto simp: type_slots_changed_def)
    ultimately show ?thesis using IH Cons.prems(2) by simp
  qed
  show ?case
  proof (cases "candidate_slot_of s h")
    case None
    with run skip show ?thesis by simp
  next
    case (Some t)
    show ?thesis
    proof (cases "if replaced_by Type_aggregate t then ct_build t else None")
      case None
      with run skip Some show ?thesis by simp
    next
      case (Some b)
      note slot_t = \<open>candidate_slot_of s h = Some t\<close>
      obtain r1 ms st1 where one: "remap_members s named (tb_members b) st = Some (r1, ms, st1)"
        using run slot_t Some by (auto split: option.splits prod.splits)
      let ?t = "t\<lparr>ct_build := Some (b\<lparr>tb_members := ms\<rparr>)\<rparr>"
      let ?s = "put_type h ?t s"
      note M = remap_members_spec [OF one Cons.prems(3,4)]
      note C = put_type_slot [OF slot_t, of ?t]
      note F = type_slots_changed_fields [OF C(1)]
      show ?thesis
      proof (cases "r1 = Ok")
        case False
        with run slot_t Some one have "r = r1" "s' = ?s" "st' = st1" by (auto simp: Let_def)
        with M False C(1) show ?thesis by (auto simp: type_slots_changed_def)
      next
        case True
        with run slot_t Some one have next_: "remap_types named hs ?s st1 = Some (r, s', st')" by (simp add: Let_def)
        have inv1: "remap_inv ?s named st1" and pay1: "payloads_ok ?s" using M Cons.prems(4) by (simp_all add: F)
        have distinct: "distinct hs" "h \<notin> set hs" using Cons.prems(2) by simp_all
        note IH = Cons.IH [OF next_ distinct(1) inv1 pay1, unfolded F]
        have changed: "type_slots_changed (set hs) ?s s'" using IH by blast
        have here: "candidate_slot_of s' h = Some ?t"
          using changed distinct(2) C(2) by (simp add: type_slots_changed_def)
        obtain ext where ext: "fst st' = fst st1 @ ext" using IH by blast
        have "same_members (candidate_table s) (fst st') (tb_members b) ms"
          unfolding ext using M True by (intro same_members_extend) blast
        then have "members_kept s (fst st') s' h"
          using slot_t Some here by (auto simp: members_kept_def split: if_splits)
        moreover have "members_kept s (fst st') s' k" if "r = Ok" "k \<in> set hs" for k
        proof -
          have "k \<noteq> h" using that distinct by blast
          then have "candidate_slot_of ?s k = candidate_slot_of s k" using C(1) by (simp add: type_slots_changed_def)
          with IH that show ?thesis by (simp add: members_kept_def F)
        qed
        moreover have "\<exists>e. fst st' = fst st @ e" using M ext by auto
        moreover have "type_slots_changed (set (h # hs)) s s'"
          using type_slots_changed_trans [OF C(1) changed] by simp
        ultimately show ?thesis using IH by auto
      qed
    qed
  qed
qed

section \<open>Resolution as a frame\<close>

context build_frame_derived
begin

lemma member_base: "R s (snd (snd (gu_member_base m s)))"
  by (auto simp: gu_member_base_def Let_def split: option.split intro: refl set_failure named_ref)

lemma apply_modifiers: "R s (snd (snd (gu_apply_modifiers ms ref s)))"
proof (induction ms arbitrary: ref s)
  case (Cons m ms)
  obtain st derived s1 where one: "gu_derived_type_ref (tm_kind m) ref (tm_payload m) s = (st, derived, s1)" by (metis prod_cases3)
  have "R s s1" using derived_ref [of s "tm_kind m" ref "tm_payload m"] one by simp
  with Cons.IH [where ref = derived and s = s1] one show ?case by (auto intro: trans)
qed (simp add: refl)

lemma resolve_member: "R s (snd (snd (gu_resolve_member modifiers m s)))"
proof -
  obtain st ref s1 where base: "gu_member_base m s = (st, ref, s1)" by (metis prod_cases3)
  have "R s s1" using member_base [of s m] base by simp
  then show ?thesis
    using apply_modifiers [of s1] by (auto simp: gu_resolve_member_def base intro: trans set_failure)
qed

lemma resolve_members: "R s (snd (snd (gu_resolve_members modifiers ms resolved s)))"
proof (induction ms arbitrary: resolved s)
  case (Cons m ms)
  obtain st ref s1 where one: "gu_resolve_member modifiers m s = (st, ref, s1)" by (metis prod_cases3)
  have "R s s1" using resolve_member [of s modifiers m] one by simp
  with Cons.IH [where s = s1] one show ?case by (auto intro: trans)
qed (simp add: refl)

lemma resolve_pending: "R s (snd (snd (gu_resolve_pending_members b s)))"
proof -
  obtain ok s1 where al: "allocate s = (ok, s1)" by force
  have s1: "R s s1" using allocate [of s] al by simp
  obtain st members s2 where all: "gu_resolve_members (tb_pending_modifiers b) (tb_pending_members b) [] s1 = (st, members, s2)"
    by (metis prod_cases3)
  have "R s1 s2" using resolve_members [of s1 "tb_pending_modifiers b" "tb_pending_members b" "[]"] all by simp
  then have "R s s2" using s1 trans by blast
  with s1 show ?thesis
    by (auto simp: gu_resolve_pending_members_def al all refl intro: trans set_failure)
qed

lemma resolve_types: "R s (snd (gu_resolve_types hs s))"
proof (induction hs arbitrary: s)
  case (Cons h hs)
  show ?case
  proof (cases "replaced_by Type_aggregate (type_slot h s) \<and> ct_build (type_slot h s) \<noteq> None")
    case False
    with Cons.IH [of s] show ?thesis by (auto simp: Let_def refl split: option.split)
  next
    case True
    then obtain b where b: "ct_build (type_slot h s) = Some b" by blast
    obtain st b' s1 where one: "gu_resolve_pending_members b s = (st, b', s1)" by (metis prod_cases3)
    have s1: "R s s1" using resolve_pending [of s b] one by simp
    have "R s1 (put_type h t s1)" for t by (rule put_type)
    then have "R s (put_type h t s1)" for t using s1 trans by blast
    with Cons.IH True b one s1 show ?thesis by (auto simp: Let_def intro: trans)
  qed
qed (simp add: refl)

end

text \<open>The TypeRefs that are handed out keep the rule that arrays, and only they, have an extent.\<close>

definition keeps_payloads :: "build_state \<Rightarrow> build_state \<Rightarrow> bool" where
  "keeps_payloads s t \<longleftrightarrow> (payloads_ok s \<longrightarrow> payloads_ok t)"

lemma keeps_payloads_intro:
  "candidate_table t = candidate_table s \<Longrightarrow> keeps_payloads s t"
  by (simp add: keeps_payloads_def payloads_ok_def)

lemma keeps_payloads_append:
  assumes "candidate_table t = candidate_table s \<or>
    (\<exists>e. candidate_table t = candidate_table s @ [e] \<and>
       (\<forall>d. e = Canonical_derived d \<longrightarrow> (dt_kind d = Derived_array \<longleftrightarrow> dt_payload d \<noteq> 0)))"
  shows "keeps_payloads s t"
  using assms by (auto simp: keeps_payloads_def payloads_ok_def table_entry_append split: if_splits)

lemma keeps_payloads_named: "keeps_payloads s (snd (snd (gu_named_type_ref h s)))"
proof -
  obtain k mem where k: "take_allocs 3 (bs_memory s) = (k, mem)" by force
  show ?thesis
    unfolding gu_named_type_ref_def Let_def k prod.case
    by (auto intro!: keeps_payloads_append simp: candidate_table_def set_failure_def split: option.split)
qed

lemma keeps_payloads_derived: "keeps_payloads s (snd (snd (gu_derived_type_ref kind child payload s)))"
proof -
  obtain k mem where k: "take_allocs 2 (bs_memory s) = (k, mem)" by force
  show ?thesis
    unfolding gu_derived_type_ref_def Let_def k prod.case
    by (auto intro!: keeps_payloads_append simp: candidate_table_def set_failure_def split: option.split)
qed

interpretation payloads: build_frame_derived keeps_payloads
proof unfold_locales
  fix s t u :: build_state
  show "keeps_payloads s s" by (simp add: keeps_payloads_def)
  show "keeps_payloads s t \<Longrightarrow> keeps_payloads t u \<Longrightarrow> keeps_payloads s u" by (simp add: keeps_payloads_def)
  show "keeps_payloads s (snd (touch_construction eid s))" for eid
  proof -
    obtain m1 mem1 where m1: "take_alloc (bs_memory s) = (m1, mem1)" by force
    obtain m2 mem2 where m2: "take_alloc mem1 = (m2, mem2)" by force
    obtain ok c u where touch: "cu_touch_entity m1 m2 (bs_cache s) (bs_cu s) eid = (ok, c, u)" by (metis prod_cases3)
    then show ?thesis by (intro keeps_payloads_intro) (simp add: touch_construction_def m1 m2 candidate_table_def)
  qed
qed (simp_all add: keeps_payloads_named keeps_payloads_derived,
  auto simp: touch_identity_def touch_entity_def touch_type_def put_identity_def put_entity_def put_type_def allocate_def
    set_failure_def put_construction_def candidate_table_def Let_def split: prod.split intro!: keeps_payloads_intro)

section \<open>Canonicalization as a frame\<close>

text \<open>Canonicalization writes candidate identities and entities, contributions and the counters of the update.\<close>

definition renumbered :: "build_state \<Rightarrow> build_state \<Rightarrow> bool" where
  "renumbered s t \<longleftrightarrow>
     (\<exists>names entities. bs_graph t = (bs_graph s)\<lparr>g_candidate_identities := names, g_candidate_entities := entities\<rparr>) \<and>
     (\<exists>changed next failure. bs_update t =
        (bs_update s)\<lparr>gu_changed_entities := changed, gu_next_stable_id := next, gu_failure := failure\<rparr>) \<and>
     cc_states (bs_cache t) = cc_states (bs_cache s) \<and> cc_entity_states (bs_cache t) = cc_entity_states (bs_cache s) \<and>
     cc_complete (bs_cache t) = cc_complete (bs_cache s)"

lemma place_entities_fields:
  "place_entities base gen remap old as g = Some g' \<Longrightarrow>
   \<exists>names entities. g' = g\<lparr>g_candidate_identities := names, g_candidate_entities := entities\<rparr>"
proof (induction as arbitrary: g)
  case Nil
  then show ?case
    by (intro exI [of _ "g_candidate_identities g"] exI [of _ "g_candidate_entities g"]) simp
next
  case (Cons a as)
  then obtain g1 names entities where "place_entities base gen remap old as g1 = Some g'"
    and g1: "g1 = g\<lparr>g_candidate_entities := entities, g_candidate_identities := names\<rparr>"
    by (auto simp: Let_def split: if_splits)
  with Cons.IH [of g1] show ?case by (auto simp: g1)
qed

lemma remap_contributions_fields:
  "remap_contributions base remap places s = (ok, t) \<Longrightarrow>
   bs_graph t = bs_graph s \<and> bs_update t = bs_update s \<and> bs_cu t = bs_cu s \<and> bs_memory t = bs_memory s \<and>
   cc_states (bs_cache t) = cc_states (bs_cache s) \<and>
   cc_entity_states (bs_cache t) = cc_entity_states (bs_cache s) \<and> cc_complete (bs_cache t) = cc_complete (bs_cache s)"
proof (induction places arbitrary: s)
  case (Cons place places)
  show ?case
  proof (cases "fst (remap_contributions base remap (place # places) s) = False \<and> t = s")
    case False
    with Cons.prems have
      "remap_contributions base remap places (put_contribution_entity place (remap ! (cr_entity (contribution_at s place) - base)) s) = (ok, t)"
      by (auto simp: Let_def split: if_splits)
    from Cons.IH [OF this] show ?thesis by (simp add: put_contribution_entity_def cu_write_def Let_def)
  qed simp
qed simp

lemma cu_remap_fields:
  "cu_remap_new_entities m1 m2 c u base remap = (st, c', u') \<Longrightarrow>
   cc_states c' = cc_states c \<and> cc_entity_states c' = cc_entity_states c \<and> cc_complete c' = cc_complete c"
  by (auto simp: cu_remap_new_entities_def Let_def split: if_splits prod.splits)

lemma renumberedI:
  assumes "bs_graph t = (bs_graph s)\<lparr>g_candidate_identities := names, g_candidate_entities := entities\<rparr>"
    and "bs_update t = (bs_update s)\<lparr>gu_changed_entities := changed, gu_next_stable_id := n, gu_failure := failure\<rparr>"
    and "cc_states (bs_cache t) = cc_states (bs_cache s)" "cc_entity_states (bs_cache t) = cc_entity_states (bs_cache s)"
    "cc_complete (bs_cache t) = cc_complete (bs_cache s)"
  shows "renumbered s t"
  using assms unfolding renumbered_def by blast

lemma renumbered_refl: "renumbered s s"
  by (rule renumberedI [where names = "g_candidate_identities (bs_graph s)" and entities = "g_candidate_entities (bs_graph s)" and
        changed = "gu_changed_entities (bs_update s)" and n = "gu_next_stable_id (bs_update s)" and failure = "gu_failure (bs_update s)"])
    simp_all

lemma renumbered_failure: "renumbered s t \<Longrightarrow> renumbered s (set_failure st t)"
proof -
  assume R: "renumbered s t"
  then obtain changed n failure where
    u: "bs_update t = (bs_update s)\<lparr>gu_changed_entities := changed, gu_next_stable_id := n, gu_failure := failure\<rparr>"
    unfolding renumbered_def by blast
  have "bs_update (set_failure st t) = (bs_update s)\<lparr>gu_changed_entities := changed, gu_next_stable_id := n, gu_failure := st\<rparr>"
    by (simp add: set_failure_def u)
  with R show ?thesis unfolding renumbered_def by (auto simp: set_failure_def)
qed

lemma renumbered_failing: "renumbered s t \<Longrightarrow> renumbered s (snd (failing (st, t)))"
  by (simp add: failing_def renumbered_failure)

lemma apply_assignments_renumbered: "renumbered s (snd (apply_assignments base as remap places s))"
proof -
  let ?g = "bs_graph s" and ?u = "bs_update s"
  obtain old entities where taken: "take_entities base (length remap) (g_candidate_entities ?g) = (old, entities)" by force
  show ?thesis
  proof (cases "place_entities base (gu_generation ?u) remap old as (?g\<lparr>g_candidate_entities := entities\<rparr>)")
    case None
    then show ?thesis by (simp add: apply_assignments_def Let_def taken renumbered_failure renumbered_refl)
  next
    case (Some g)
    obtain names es where g: "g = ?g\<lparr>g_candidate_identities := names, g_candidate_entities := es\<rparr>"
      using place_entities_fields [OF Some] by auto
    obtain m1 mem1 where m1: "take_alloc (bs_memory s) = (m1, mem1)" by force
    obtain m2 mem2 where m2: "take_alloc mem1 = (m2, mem2)" by force
    obtain st c cu where remapped: "cu_remap_new_entities m1 m2 (bs_cache s) (bs_cu s) base remap = (st, c, cu)" by (metis prod_cases3)
    let ?s = "s\<lparr>bs_graph := g, bs_cache := c, bs_cu := cu, bs_memory := mem2\<rparr>"
    have s1: "renumbered s ?s"
      using cu_remap_fields [OF remapped]
      by (intro renumberedI [where names = names and entities = es and changed = "gu_changed_entities ?u" and
            n = "gu_next_stable_id ?u" and failure = "gu_failure ?u"]) (simp_all add: g)
    obtain ok t where contributions: "remap_contributions base remap places ?s = (ok, t)" by force
    note C = remap_contributions_fields [OF contributions]
    have t: "renumbered s t" using s1 C unfolding renumbered_def by simp
    have "renumbered s (t\<lparr>bs_graph := (bs_graph t)\<lparr>g_candidate_entities := take n (g_candidate_entities (bs_graph t))\<rparr>,
      bs_update := (bs_update t)\<lparr>gu_changed_entities := ch, gu_next_stable_id := n\<rparr>\<rparr>)" for n ch
    proof -
      obtain ns xs where 1: "bs_graph t = ?g\<lparr>g_candidate_identities := ns, g_candidate_entities := xs\<rparr>"
        using t unfolding renumbered_def by blast
      obtain changed k failure where
        2: "bs_update t = ?u\<lparr>gu_changed_entities := changed, gu_next_stable_id := k, gu_failure := failure\<rparr>"
        using t unfolding renumbered_def by blast
      show ?thesis
        using t by (intro renumberedI [where names = ns and entities = "take n xs" and changed = ch and n = n and failure = failure])
          (simp_all add: 1 2 renumbered_def)
    qed
    then show ?thesis
      unfolding apply_assignments_def Let_def taken prod.case Some option.case m1 m2 remapped contributions
      by (auto simp: s1 t renumbered_failure Let_def)
  qed
qed

lemma canonicalize_renumbered: "renumbered s (snd (gu_canonicalize r su s))"
proof -
  obtain ok s1 where al: "allocate s = (ok, s1)" by force
  have s1: "bs_graph s1 = bs_graph s" "bs_update s1 = bs_update s" "bs_cache s1 = bs_cache s" "bs_cu s1 = bs_cu s"
    using al by (auto simp: allocate_def split: prod.splits)
  then have same: "renumbered s1 t \<Longrightarrow> renumbered s t" for t by (simp add: renumbered_def)
  show ?thesis
    unfolding gu_canonicalize_def Let_def al prod.case
    by (auto intro!: renumbered_refl same [OF renumbered_failing] same [OF apply_assignments_renumbered] split: option.split)
qed

section \<open>Validated members remap\<close>

lemma ref_live_denotes: "gu_ref_live s depth ref \<Longrightarrow> \<exists>x. denote (candidate_table s) depth ref = Some x"
  by (induction s depth ref rule: gu_ref_live.induct)
    (auto simp: gu_record_table split: option.splits canonical_type_record.splits)

lemma remap_type_total:
  "denote (candidate_table s) depth ref = Some x \<Longrightarrow> depth \<le> fuel \<Longrightarrow> remap_type s named fuel ref st \<noteq> None"
proof (induction depth arbitrary: fuel ref x st)
  case (Suc depth)
  obtain f where f: "fuel = Suc f" "depth \<le> f" using Suc.prems(2) by (cases fuel) auto
  obtain table index remap where st: "st = (table, index, remap)" by (metis prod_cases3)
  obtain e where e: "table_entry (candidate_table s) ref = Some e" using Suc.prems(1) by (auto split: option.splits)
  show ?case
  proof (cases e)
    case (Canonical_derived d)
    obtain y where "denote (candidate_table s) depth (dt_child d) = Some y"
      using Suc.prems(1) e Canonical_derived by auto
    from Suc.IH [OF this f(2), of st] e Canonical_derived show ?thesis
      by (auto simp: f st gu_record_table Let_def split: option.split prod.split)
  qed (simp_all add: f st gu_record_table e Let_def)
qed simp

definition members_denote :: "build_state \<Rightarrow> member_record list \<Rightarrow> bool" where
  "members_denote s ms \<longleftrightarrow> (\<forall>m\<in>set ms. \<exists>x. denote (candidate_table s) (next_type_ref s) (mr_type m) = Some x)"

lemma remap_members_total: "members_denote s ms \<Longrightarrow> remap_members s named ms st \<noteq> None"
proof (induction ms arbitrary: st)
  case (Cons m ms)
  obtain x where "denote (candidate_table s) (next_type_ref s) (mr_type m) = Some x"
    using Cons.prems by (auto simp: members_denote_def)
  then have "remap_type s named (Suc (next_type_ref s)) (mr_type m) st \<noteq> None" by (rule remap_type_total) simp
  moreover have "remap_members s named ms st' \<noteq> None" for st'
    using Cons.IH Cons.prems by (simp add: members_denote_def)
  ultimately obtain r ref st1 where "remap_type s named (Suc (next_type_ref s)) (mr_type m) st = Some (r, ref, st1)"
    and "remap_members s named ms st1 \<noteq> None"
    by (metis not_None_eq prod_cases3)
  then show ?case by (cases st1) (auto simp del: remap_type.simps)
qed simp

definition candidate_members_denote :: "build_state \<Rightarrow> nat \<Rightarrow> bool" where
  "candidate_members_denote s h \<longleftrightarrow>
     (\<forall>t b. candidate_slot_of s h = Some t \<longrightarrow> replaced_by Type_aggregate t \<longrightarrow> ct_build t = Some b \<longrightarrow>
        members_denote s (tb_members b))"

lemma remap_types_total:
  "\<forall>h\<in>set hs. candidate_members_denote s h \<Longrightarrow> distinct hs \<Longrightarrow> remap_types named hs s st \<noteq> None"
proof (induction hs arbitrary: s st)
  case (Cons h hs)
  show ?case
  proof (cases "\<exists>t b. candidate_slot_of s h = Some t \<and> replaced_by Type_aggregate t \<and> ct_build t = Some b")
    case False
    with Cons show ?thesis by (auto simp: candidate_slot_of_def split: option.split)
  next
    case True
    then obtain t b where t: "candidate_slot_of s h = Some t" "replaced_by Type_aggregate t" "ct_build t = Some b" by blast
    have "members_denote s (tb_members b)" using Cons.prems(1) t by (auto simp: candidate_members_denote_def)
    then obtain r ms st1 where one: "remap_members s named (tb_members b) st = Some (r, ms, st1)"
      using remap_members_total by (metis not_None_eq prod_cases3)
    let ?s = "put_type h (t\<lparr>ct_build := Some (b\<lparr>tb_members := ms\<rparr>)\<rparr>) s"
    have C: "type_slots_changed {h} s ?s" by (rule put_type_slot [OF t(1)])
    have "candidate_members_denote ?s k" if "k \<in> set hs" for k
    proof -
      have "k \<noteq> h" using that Cons.prems(2) by auto
      then have "candidate_slot_of ?s k = candidate_slot_of s k" using C by (simp add: type_slots_changed_def)
      with Cons.prems(1) that show ?thesis
        by (simp add: candidate_members_denote_def members_denote_def type_slots_changed_fields [OF C])
    qed
    then have "remap_types named hs ?s st1 \<noteq> None" using Cons.IH Cons.prems(2) by simp
    then show ?thesis
      using t one by (cases "r = Ok") (auto simp: candidate_slot_of_def Let_def)
  qed
qed simp

lemma candidate_slot_type_slot:
  "candidate_slot_of s h = Some t \<Longrightarrow> type_slot h s = t \<and> h < length (g_candidate_types (bs_graph s))"
  by (simp add: candidate_slot_of_def overlay_def type_slot_def split: if_splits)

lemma validate_handle_members:
  assumes "gu_validate_handle s h = Ok" "candidate_slot_of s h = Some t" "replaced_by Type_aggregate t" "ct_build t = Some b"
  shows "gu_members_live s (tb_members b)"
  using assms candidate_slot_type_slot [OF assms(2)]
  by (auto simp: gu_validate_handle_def gu_validated_storage_def candidate_slot_of_def replaced_by_def split: option.splits if_splits)

lemma validate_all_handle:
  "gu_validate_all s hs = Ok \<Longrightarrow> h \<in> set hs \<Longrightarrow> candidate_slot_of s h = Some t \<Longrightarrow> is_replacement t \<Longrightarrow>
   gu_validate_handle s h = Ok"
proof (induction hs)
  case (Cons k ks)
  show ?case
  proof (cases "k = h")
    case True
    with Cons.prems show ?thesis
      by (simp add: candidate_slot_of_def is_replacement_def Let_def split: if_splits)
  next
    case False
    have "gu_validate_all s ks = Ok"
      using Cons.prems(1) by (auto simp: Let_def split: option.splits if_splits)
    with Cons False show ?thesis by simp
  qed
qed simp

lemma validated_members_denote:
  assumes full: "gu_full (bs_update s)" and valid: "gu_validate_live s = Some (Ok, s1)" and h: "0 < h"
  shows "candidate_members_denote s1 h"
  unfolding candidate_members_denote_def
proof (intro allI impI)
  fix t b
  assume t: "candidate_slot_of s1 h = Some t" "replaced_by Type_aggregate t" "ct_build t = Some b"
  obtain ok s0 where al: "allocate s = (ok, s0)" by force
  have "gu_full (bs_update s0)" using full al by (auto simp: allocate_def split: prod.splits)
  with valid have all: "gu_validate_all s1 [1..<length (g_candidate_types (bs_graph s1))] = Ok"
    by (auto simp: gu_validate_live_def al failing_Ok split: if_splits)
  have "h \<in> set [1..<length (g_candidate_types (bs_graph s1))]" using candidate_slot_type_slot [OF t(1)] h by auto
  moreover have "is_replacement t" using t(2) by (auto simp: replaced_by_def is_replacement_def split: option.splits)
  ultimately have "gu_members_live s1 (tb_members b)"
    using validate_handle_members validate_all_handle [OF all] t by blast
  then show "members_denote s1 (tb_members b)"
    using ref_live_denotes by (auto simp: gu_members_live_def members_denote_def list_all_iff)
qed

section \<open>The rebuilt table\<close>

lemma rebuild_table_run:
  assumes full: "gu_full (bs_update s)" and slots: "1 \<le> gu_next_type_slot (bs_update s)" and payloads: "payloads_ok s"
    and run: "gu_rebuild_table s p = Some (Ok, s', p')"
  shows "type_table_wf (gu_next_type_slot (bs_update s) - 1) (gp_canonical p') (gp_named_refs p') (gp_derived_index p')"
    and "\<And>h. 0 < h \<Longrightarrow> h < gu_next_type_slot (bs_update s) \<Longrightarrow>
      members_kept s (gp_canonical p') s' h \<and> (gp_named_refs p' ! h \<noteq> 0 \<longleftrightarrow> rebuilt_type_live s h)"
proof -
  let ?n = "gu_next_type_slot (bs_update s)"
  obtain ok s1 where al: "allocate s = (ok, s1)" by force
  obtain mem where s1: "s1 = s\<lparr>bs_memory := mem\<rparr>" using al by (auto simp: allocate_def split: prod.splits)
  have same: "candidate_table s1 = candidate_table s" "next_type_ref s1 = next_type_ref s" "bs_update s1 = bs_update s"
    "rebuilt_type_live s1 h = rebuilt_type_live s h" "candidate_slot_of s1 h = candidate_slot_of s h" for h
    by (simp_all add: s1 candidate_table_def next_type_ref_def rebuilt_type_live_def candidate_slot_of_def)
  note run' = run [unfolded gu_rebuild_table_def Let_def al prod.case same]
  obtain table named where named: "rebuild_named s1 [1..<?n] (builtin_table, replicate ?n 0) = Some (table, named)"
    using run' full by (auto split: if_splits option.splits)
  obtain table' index remap where types: "remap_types named [1..<?n] s1 (table, [], replicate (next_type_ref s) 0) = Some (Ok, s', table', index, remap)"
    and p': "gp_canonical p' = table'" "gp_named_refs p' = named" "gp_derived_index p' = index"
    using run' full named by (auto simp: same split: if_splits option.splits)
  have exact: "named_exact s1 ?n ?n table named"
    by (rule rebuild_named_exact [OF named named_exact_start [OF slots]]) (use slots in simp_all)
  then have "remap_inv s1 named (table, [], replicate (next_type_ref s) 0)"
    using slots by (auto simp: remap_inv_def named_exact_def)
  moreover have "payloads_ok s1" using payloads by (simp add: payloads_ok_def same)
  ultimately have T: "type_slots_changed (set [1..<?n]) s1 s'" "remap_inv s1 named (table', index, remap)"
    "\<forall>h\<in>set [1..<?n]. members_kept s1 table' s' h"
    using remap_types_spec [OF types] by auto
  show "type_table_wf (?n - 1) (gp_canonical p') (gp_named_refs p') (gp_derived_index p')"
    using T(2) exact by (simp add: remap_inv_def named_exact_def p')
  fix h assume h: "0 < h" "h < ?n"
  then have "members_kept s1 table' s' h" using T(3) by simp
  then have "members_kept s (gp_canonical p') s' h" by (simp add: members_kept_def same p')
  with exact h show "members_kept s (gp_canonical p') s' h \<and> (gp_named_refs p' ! h \<noteq> 0 \<longleftrightarrow> rebuilt_type_live s h)"
    by (simp add: named_exact_def same p')
qed

lemma rebuild_table_total:
  assumes "gu_full (bs_update s)" and "gu_validate_live s = Some (Ok, s1)"
  shows "gu_rebuild_table s1 p \<noteq> None"
proof -
  obtain ok s2 where al: "allocate s1 = (ok, s2)" by force
  obtain mem where s2: "s2 = s1\<lparr>bs_memory := mem\<rparr>" using al by (auto simp: allocate_def split: prod.splits)
  have "candidate_members_denote s2 h" if "0 < h" for h
    using validated_members_denote [OF assms that]
    by (simp add: s2 candidate_members_denote_def members_denote_def candidate_slot_of_def candidate_table_def next_type_ref_def)
  then have total: "remap_types named [1..<n] s2 st \<noteq> None" for named n st by (intro remap_types_total) auto
  show ?thesis
  proof (cases "gu_full (bs_update s1) \<and> ok")
    case False
    then show ?thesis by (auto simp: gu_rebuild_table_def al)
  next
    case True
    show ?thesis
    proof (cases "rebuild_named s2 [1..<gu_next_type_slot (bs_update s2)] (builtin_table, replicate (gu_next_type_slot (bs_update s2)) 0)")
      case None
      with True show ?thesis by (simp add: gu_rebuild_table_def al Let_def)
    next
      case (Some x)
      obtain table named where x: "x = (table, named)" by force
      obtain r s3 st where "remap_types named [1..<gu_next_type_slot (bs_update s2)] s2 (table, [], replicate (next_type_ref s2) 0) = Some (r, s3, st)"
        using total by (metis not_None_eq prod_cases3)
      with True Some show ?thesis by (cases st) (simp add: gu_rebuild_table_def al Let_def x del: upt.simps)
    qed
  qed
qed

lemma same_commit_renumbered: "renumbered s t \<Longrightarrow> gu_full (bs_update t) = gu_full (bs_update s) \<and> candidate_table t = candidate_table s"
  by (auto simp: renumbered_def candidate_table_def)

lemma validate_live_state:
  "gu_validate_live s = Some (Ok, t) \<Longrightarrow> \<exists>mem. t = s\<lparr>bs_memory := mem\<rparr>"
  by (auto simp: gu_validate_live_def allocate_def failing_Ok split: prod.splits if_splits)

text \<open>C3: A full reconstruction loses no type. Once the members of the candidate have been resolved and
  validated, rebuilding the TypeRef table ends. When it succeeds, the new table is hash-consed like a loaded
  one, every live type and no other has its named TypeRef, and each member of each replaced aggregate keeps its
  name and denotes in the new table the type that it denoted over the old one.\<close>

theorem rebuild_keeps_types:
  assumes wf: "type_table_wf n (g_canonical g) (g_named_type_refs g) (g_derived_index g)"
    and start: "g_begin_update True g = (bs_graph s0, bs_update s0)" and actions: "build_action\<^sup>*\<^sup>* s0 s1"
    and canonical: "gu_canonicalize r su s1 = (Ok, s2)" and resolved: "gu_resolve_types hs s2 = (Ok, s3)"
    and valid: "gu_validate_live s3 = Some (Ok, s)" and slots: "1 \<le> gu_next_type_slot (bs_update s)"
  shows "\<exists>st s' p'. gu_rebuild_table s p = Some (st, s', p') \<and>
    (st = Ok \<longrightarrow>
       type_table_wf (gu_next_type_slot (bs_update s) - 1) (gp_canonical p') (gp_named_refs p') (gp_derived_index p') \<and>
       (\<forall>h. 0 < h \<and> h < gu_next_type_slot (bs_update s) \<longrightarrow>
          members_kept s (gp_canonical p') s' h \<and> (gp_named_refs p' ! h \<noteq> 0 \<longleftrightarrow> rebuilt_type_live s h)))"
proof -
  note g = begin_update_refs [OF start]
  have "bs_update s0 = snd (g_begin_update True g)" using start by simp
  then have "gu_added_canonical (bs_update s0) = []" by (simp add: g_begin_update_def Let_def)
  then have "candidate_table s0 = g_canonical g" using g(3) by (simp add: candidate_table_def)
  then have "payloads_ok s0" using wf by (simp add: payloads_ok_def type_table_wf_def)
  then have "payloads_ok s1" using payloads.actions [OF actions] by (simp add: keeps_payloads_def)
  moreover have R: "gu_full (bs_update s2) = gu_full (bs_update s1)" "candidate_table s2 = candidate_table s1"
    using same_commit_renumbered [OF canonicalize_renumbered [of s1 r su]] canonical by simp_all
  ultimately have "payloads_ok s2" by (simp add: payloads_ok_def)
  then have p3: "payloads_ok s3" using payloads.resolve_types [of s2 hs] resolved by (simp add: keeps_payloads_def)
  have "same_commit s0 s1" by (rule commit.actions [OF actions])
  moreover have "same_commit s2 s3" using commit.resolve_types [of s2 hs] resolved by simp
  ultimately have full3: "gu_full (bs_update s3)" using g(2) R by (simp add: same_commit_def)
  obtain mem where s: "s = s3\<lparr>bs_memory := mem\<rparr>" using validate_live_state [OF valid] by blast
  have ok: "gu_full (bs_update s)" "payloads_ok s"
    using full3 p3 by (simp_all add: s payloads_ok_def candidate_table_def)
  obtain st s' p' where run: "gu_rebuild_table s p = Some (st, s', p')"
    using rebuild_table_total [OF full3 valid] by (metis not_None_eq prod_cases3)
  show ?thesis
    using run rebuild_table_run [OF ok(1) slots ok(2)] by (intro exI conjI) auto
qed

section \<open>Examples\<close>

text \<open>The list node is declared again by its Source in a full reconstruction.\<close>

definition example_rebuild_start :: build_state where
  "example_rebuild_start =
     (case g_begin_update True example_loaded of (g, gu) \<Rightarrow>
      case cc_begin_update True new_contribution_cache of (c, cu) \<Rightarrow>
        \<lparr>bs_graph = g, bs_cache = c, bs_cu = cu, bs_update = gu, bs_memory = []\<rparr>)"

definition example_rebuild_source :: build_state where
  "example_rebuild_source = snd (snd (gu_replace_source 1 example_rebuild_start))"

definition example_rebuild_type :: build_state where
  "example_rebuild_type = snd (snd (snd (sr_add_named_type (Some 1) 1 Aggregate_defined example_rebuild_source)))"

definition example_rebuild_members :: build_state where
  "example_rebuild_members =
     snd (sr_define_members (Some 1) 1
       [\<lparr>mb_name = 2, mb_builtin = None, mb_user_type_name = 1, mb_modifier_offset = 0, mb_modifier_count = 1\<rparr>]
       [\<lparr>tm_kind = Derived_pointer, tm_payload = 0\<rparr>] example_rebuild_type)"

definition example_rebuild_resolved :: build_state where
  "example_rebuild_resolved = snd (gu_resolve_types (gu_changed_types (bs_update example_rebuild_members)) example_rebuild_members)"

lemma example_rebuild_actions: "build_action\<^sup>*\<^sup>* example_rebuild_start example_rebuild_members"
proof -
  have "build_action example_rebuild_start example_rebuild_source"
    by (rule build_action.intros(1) [of 1 _ "fst (gu_replace_source 1 example_rebuild_start)" "fst (snd (gu_replace_source 1 example_rebuild_start))"])
      (simp add: example_rebuild_source_def)
  moreover have "build_action example_rebuild_source example_rebuild_type"
    by (rule build_action.intros(3)) (auto simp: example_rebuild_type_def intro!: prod_eqI)
  moreover have "build_action example_rebuild_type example_rebuild_members"
    by (rule build_action.intros(5)) (auto simp: example_rebuild_members_def intro!: prod_eqI)
  ultimately show ?thesis by (meson converse_rtranclp_into_rtranclp rtranclp.rtrancl_refl)
qed

definition example_rebuild_validated :: build_state where
  "example_rebuild_validated = snd (the (gu_validate_live example_rebuild_resolved))"

lemma rebuild_keeps_types_witness:
  "\<exists>s' p'. gu_rebuild_table example_rebuild_validated new_publication = Some (Ok, s', p') \<and>
     members_kept example_rebuild_validated (gp_canonical p') s' 1 \<and> gp_named_refs p' ! 1 \<noteq> 0"
proof -
  obtain n where wf: "type_table_wf n (g_canonical example_loaded) (g_named_type_refs example_loaded) (g_derived_index example_loaded)"
    using example_loaded_wf by blast
  have start: "g_begin_update True example_loaded = (bs_graph example_rebuild_start, bs_update example_rebuild_start)"
    by code_simp
  have "gu_next_stable_id (bs_update example_rebuild_members) \<le> g_next_stable_id (bs_graph example_rebuild_members)" by code_simp
  then have canonical: "gu_canonicalize new_string_registry (sr_begin_update new_string_registry) example_rebuild_members =
      (Ok, example_rebuild_members)"
    by (simp add: gu_canonicalize_def)
  have "fst (gu_resolve_types (gu_changed_types (bs_update example_rebuild_members)) example_rebuild_members) = Ok" by code_simp
  then have resolved: "gu_resolve_types (gu_changed_types (bs_update example_rebuild_members)) example_rebuild_members =
      (Ok, example_rebuild_resolved)"
    by (simp add: example_rebuild_resolved_def prod_eq_iff)
  have "map_option fst (gu_validate_live example_rebuild_resolved) = Some Ok" by code_simp
  then have valid: "gu_validate_live example_rebuild_resolved = Some (Ok, example_rebuild_validated)"
    by (auto simp: example_rebuild_validated_def)
  have slots: "gu_next_type_slot (bs_update example_rebuild_validated) = 2" by code_simp
  then have "1 \<le> gu_next_type_slot (bs_update example_rebuild_validated)" by simp
  from rebuild_keeps_types [OF wf start example_rebuild_actions canonical resolved valid this, of new_publication]
  obtain st s' p' where run: "gu_rebuild_table example_rebuild_validated new_publication = Some (st, s', p')"
    and kept: "st = Ok \<Longrightarrow> members_kept example_rebuild_validated (gp_canonical p') s' 1 \<and>
      (gp_named_refs p' ! 1 \<noteq> 0 \<longleftrightarrow> rebuilt_type_live example_rebuild_validated 1)"
    by (auto simp: slots)
  have "map_option fst (gu_rebuild_table example_rebuild_validated new_publication) = Some Ok"
    "rebuilt_type_live example_rebuild_validated 1" by code_simp+
  with run kept show ?thesis by auto
qed

end
