(* ===== verification/GraphCommit.thy ===== *)
theory GraphCommit
  imports GraphRebuild
begin

text \<open>
  Publication and cancellation of a Graph update. A cancelled update leaves the committed Graph as it was,
  wherever its preparation stopped. A published one shows what the candidate showed.
\<close>

section \<open>Preparation touches no committed value\<close>

text \<open>The flags of an update, which the steps before the growth of the tables keep as well.\<close>

definition prepared_from :: "build_state \<Rightarrow> build_state \<Rightarrow> bool" where
  "prepared_from s t \<longleftrightarrow>
     committed_graph (bs_graph t) = committed_graph (bs_graph s) \<and>
     gu_full (bs_update t) = gu_full (bs_update s) \<and> gu_generation (bs_update t) = gu_generation (bs_update s) \<and>
     gu_owner (bs_update t) = gu_owner (bs_update s) \<and> gu_prepared (bs_update t) = gu_prepared (bs_update s) \<and>
     gu_committed (bs_update t) = gu_committed (bs_update s)"

lemma prepared_from_refl [simp]: "prepared_from s s"
  by (simp add: prepared_from_def)

lemma prepared_from_trans [trans]: "prepared_from s t \<Longrightarrow> prepared_from t u \<Longrightarrow> prepared_from s u"
  by (simp add: prepared_from_def)

lemma prepared_from_failure [simp]: "prepared_from s (set_failure st t) = prepared_from s t"
  by (simp add: prepared_from_def set_failure_def)

lemma prepared_from_memory [simp]: "prepared_from s (t\<lparr>bs_memory := mem\<rparr>) = prepared_from s t"
  by (simp add: prepared_from_def)

lemma prepared_from_put [simp]: "prepared_from s (put_type h t u) = prepared_from s u"
  by (simp add: prepared_from_def put_type_def)

lemma prepared_from_allocate: "allocate s = (ok, t) \<Longrightarrow> prepared_from s t"
  by (auto simp: allocate_def split: prod.splits)

lemma prepared_from_failing: "prepared_from s (snd (failing (st, t))) = prepared_from s t"
  by (simp add: failing_def)

lemma prepared_from_commit: "same_commit s t \<Longrightarrow> prepared_from s t"
  by (simp add: prepared_from_def same_commit_def)

lemma prepared_from_renumbered: "renumbered s t \<Longrightarrow> prepared_from s t"
  by (auto simp: renumbered_def prepared_from_def)

lemma prepared_from_slots: "type_slots_changed H s t \<Longrightarrow> prepared_from s t"
  by (auto simp: type_slots_changed_def prepared_from_def)

lemma validate_live_prepared: "gu_validate_live s = Some (st, t) \<Longrightarrow> prepared_from s t"
proof -
  assume run: "gu_validate_live s = Some (st, t)"
  obtain ok s1 where al: "allocate s = (ok, s1)" by force
  have "\<exists>st'. t = snd (failing (st', s1))"
    using run by (auto simp: gu_validate_live_def al split: if_splits) (metis snd_conv)+
  with prepared_from_allocate [OF al] show ?thesis by (auto simp: prepared_from_failing)
qed

lemma remap_types_prepared: "remap_types named hs s st = Some (r, t, st') \<Longrightarrow> prepared_from s t"
proof (induction hs arbitrary: s st)
  case (Cons h hs)
  then show ?case
    by (auto simp: Let_def split: option.splits prod.splits if_splits)
      (use prepared_from_trans prepared_from_put prepared_from_refl in blast)+
qed simp

lemma rebuild_table_prepared:
  assumes "gu_rebuild_table s p = Some (st, t, q)"
  shows "prepared_from s t \<and> gp_owner_growth q = gp_owner_growth p"
proof -
  obtain ok s1 where al: "allocate s = (ok, s1)" by force
  note s1 = prepared_from_allocate [OF al]
  show ?thesis
    using assms s1 unfolding gu_rebuild_table_def al
    by (auto simp: Let_def split: if_splits option.splits prod.splits dest!: remap_types_prepared intro: prepared_from_trans)
qed

lemma prepare_checks_prepared: "gu_prepare_checks m mu r su s = (st, t) \<Longrightarrow> prepared_from s t"
  by (auto simp: gu_prepare_checks_def Let_def split: if_splits)

lemma materialize_prepared: "materialize_definitions hs (s, ms, es) = (t, ms', es') \<Longrightarrow> prepared_from s t"
proof (induction hs arbitrary: s ms es)
  case (Cons h hs)
  then show ?case
    by (auto simp: Let_def split: option.splits if_splits)
      (use prepared_from_trans prepared_from_put prepared_from_refl in blast)+
qed simp

lemma rebuild_types_prepared: "rebuild_types hs (s, types, free) = (t, types', free') \<Longrightarrow> prepared_from s t"
proof (induction hs arbitrary: s types free)
  case (Cons h hs)
  then show ?case
    by (auto split: option.splits if_splits)
      (use prepared_from_trans prepared_from_put prepared_from_refl in blast)+
qed simp
lemma rebuild_storage_prepared: "gu_rebuild_storage s p = (st, t, q) \<Longrightarrow> prepared_from s t \<and> gp_owner_growth q = gp_owner_growth p"
proof -
  assume run: "gu_rebuild_storage s p = (st, t, q)"
  obtain ok s1 where al: "allocate s = (ok, s1)" by force
  note s1 = prepared_from_allocate [OF al]
  show ?thesis
    using run s1 unfolding gu_rebuild_storage_def al
    by (auto simp: Let_def split: if_splits option.splits prod.splits dest!: rebuild_types_prepared intro: prepared_from_trans)
qed

lemma rebuild_dependencies_prepared:
  "gu_rebuild_dependencies s p = (st, t, q) \<Longrightarrow> prepared_from s t \<and> gp_owner_growth q = gp_owner_growth p"
proof -
  assume run: "gu_rebuild_dependencies s p = (st, t, q)"
  obtain ok s1 where al: "allocate s = (ok, s1)" by force
  show ?thesis
    using run prepared_from_allocate [OF al] unfolding gu_rebuild_dependencies_def al
    by (auto simp: Let_def split: if_splits option.splits prod.splits)
qed

lemma prepare_dependencies_prepared:
  "gu_prepare_dependencies s p = (st, t, q) \<Longrightarrow> prepared_from s t \<and> gp_owner_growth q = gp_owner_growth p"
proof -
  assume run: "gu_prepare_dependencies s p = (st, t, q)"
  obtain ok s1 where al: "allocate s = (ok, s1)" by force
  show ?thesis
    using run prepared_from_allocate [OF al] unfolding gu_prepare_dependencies_def al
    by (auto simp: Let_def split: if_splits option.splits prod.splits)
qed

lemma prepare_full_prepared: "gu_prepare_full s p = (st, t, q) \<Longrightarrow> prepared_from s t \<and> gp_owner_growth q = gp_owner_growth p"
proof -
  assume run: "gu_prepare_full s p = (st, t, q)"
  obtain ok s1 where al: "allocate s = (ok, s1)" by force
  obtain s2 ms es where mat: "materialize_definitions [1..<gu_next_type_slot (bs_update s1)] (s1, [], []) = (s2, ms, es)"
    by (metis prod_cases3)
  obtain st3 s3 p3 where storage: "gu_rebuild_storage s2 (p\<lparr>gp_members := ms, gp_enum_values := es\<rparr>) = (st3, s3, p3)" by (metis prod_cases3)
  obtain st4 s4 p4 where deps: "gu_rebuild_dependencies s3 p3 = (st4, s4, p4)" by (metis prod_cases3)
  obtain ok5 s5 where al5: "allocate s4 = (ok5, s5)" by force
  have 1: "prepared_from s s1" by (rule prepared_from_allocate [OF al])
  have 2: "prepared_from s s2" using 1 materialize_prepared [OF mat] by (rule prepared_from_trans)
  have 3: "prepared_from s s3" "gp_owner_growth p3 = gp_owner_growth p"
    using 2 rebuild_storage_prepared [OF storage] prepared_from_trans by auto
  have 4: "prepared_from s s4" "gp_owner_growth p4 = gp_owner_growth p"
    using 3 rebuild_dependencies_prepared [OF deps] prepared_from_trans by auto
  have 5: "prepared_from s s5" using 4(1) prepared_from_allocate [OF al5] by (rule prepared_from_trans)
  have "(t, q) \<in> {(set_failure Initialization_failed s1, p), (s3, p3), (s4, p4), (s5, p4), (set_failure Initialization_failed s5, p4)}"
    using run unfolding gu_prepare_full_def al prod.case mat storage deps al5 by (auto split: if_splits)
  with 1 3 4 5 show ?thesis by auto
qed

section \<open>Cancellation\<close>

definition unchanged_by_cancel :: "graph \<Rightarrow> build_state \<Rightarrow> graph_publication \<Rightarrow> bool" where
  "unchanged_by_cancel g s p \<longleftrightarrow> committed_graph (bs_graph (fst (gu_cancel s p))) = committed_graph g"

lemma cancel_ungrown:
  "prepared_from s t \<Longrightarrow> \<not> gp_owner_growth p \<or> gu_full (bs_update t) \<Longrightarrow> unchanged_by_cancel (bs_graph s) t p"
  by (auto simp: unchanged_by_cancel_def gu_cancel_def gu_rollback_def set_failure_def prepared_from_def Let_def)

text \<open>However many of the tables have grown, cutting them back to their old sizes restores them.\<close>

lemma cancel_grown:
  assumes started: "prepared_from s t" and "bs_graph u = grow_owner k t" and "bs_update u = (bs_update t)\<lparr>gu_failure := f, gu_prepared := b\<rparr>"
    and live: "gu_owner (bs_update t)" "\<not> gu_committed (bs_update t)" "\<not> gu_full (bs_update t)"
  shows "unchanged_by_cancel (bs_graph s) u (prepared_sizes (bs_graph t) p)"
proof -
  have "committed_graph (bs_graph (fst (gu_cancel u (prepared_sizes (bs_graph t) p)))) = committed_graph (bs_graph t)"
    using assms(2,3) live
    by (simp add: gu_cancel_def gu_rollback_def set_failure_def Let_def prepared_sizes_def grow_owner_def committed_graph_def)
  with started show ?thesis by (simp add: unchanged_by_cancel_def prepared_from_def)
qed

lemma prepare_storage_cancel:
  assumes run: "gu_prepare_storage t p = (st, u, q)" and started: "prepared_from s t" and ungrown: "\<not> gp_owner_growth p"
    and live: "gu_owner (bs_update t)" "\<not> gu_committed (bs_update t)"
  shows "unchanged_by_cancel (bs_graph s) u q"
proof (cases "gu_full (bs_update t)")
  case True
  obtain st1 t1 p1 where full: "gu_prepare_full t p = (st1, t1, p1)" by (metis prod_cases3)
  have t1: "prepared_from s t1" "\<not> gp_owner_growth p1"
    using prepare_full_prepared [OF full] started ungrown prepared_from_trans by auto
  have "q = p1 \<and> (u = t1 \<or> u = t1\<lparr>bs_update := (bs_update t1)\<lparr>gu_prepared := True\<rparr>\<rparr>)"
    using run True full by (auto simp: gu_prepare_storage_def split: if_splits)
  with t1 show ?thesis
    by (auto simp: unchanged_by_cancel_def gu_cancel_def gu_rollback_def set_failure_def prepared_from_def Let_def)
next
  case False
  obtain st1 t1 p1 where deps: "gu_prepare_dependencies t p = (st1, t1, p1)" by (metis prod_cases3)
  have t1: "prepared_from t t1" "\<not> gp_owner_growth p1" using prepare_dependencies_prepared [OF deps] ungrown by simp_all
  then have from1: "prepared_from s t1" using started prepared_from_trans by blast
  obtain k mem where k: "take_allocs 7 (bs_memory t1) = (k, mem)" by force
  show ?thesis
  proof (cases "st1 = Ok")
    case False
    with run \<open>\<not> gu_full (bs_update t)\<close> deps have "u = t1" "q = p1"
      by (auto simp: gu_prepare_storage_def gu_prepare_incremental_def)
    with cancel_ungrown [OF from1] t1(2) show ?thesis by simp
  next
    case True
    let ?u = "t1\<lparr>bs_graph := grow_owner k t1, bs_memory := mem\<rparr>"
    have q: "q = prepared_sizes (bs_graph t1) p1"
      and u: "u = set_failure Initialization_failed ?u \<or> u = ?u\<lparr>bs_update := (bs_update ?u)\<lparr>gu_prepared := True\<rparr>\<rparr>"
      using run False True deps k by (auto simp: gu_prepare_storage_def gu_prepare_incremental_def Let_def split: if_splits)
    have live1: "gu_owner (bs_update t1)" "\<not> gu_committed (bs_update t1)" "\<not> gu_full (bs_update t1)"
      using t1(1) live False by (simp_all add: prepared_from_def)
    show ?thesis
      using u
    proof
      assume "u = set_failure Initialization_failed ?u"
      then show ?thesis
        unfolding q by (intro cancel_grown [OF from1 _ _ live1, where k = k and f = Initialization_failed and b = "gu_prepared (bs_update t1)"])
          (simp_all add: set_failure_def)
    next
      assume "u = ?u\<lparr>bs_update := (bs_update ?u)\<lparr>gu_prepared := True\<rparr>\<rparr>"
      then show ?thesis
        unfolding q by (intro cancel_grown [OF from1 _ _ live1, where k = k and f = "gu_failure (bs_update t1)" and b = True]) simp_all
    qed
  qed
qed

text \<open>C2: Preparing the publication of a Graph and then cancelling it, whatever the preparation did and
  wherever it failed, an allocation in the middle of the growth of the committed tables included, leaves the
  committed Graph exactly as it was.\<close>

theorem graph_cancel_restores:
  assumes run: "gu_prepare_publish m mu r su s p = Some (st, t, q)"
    and ungrown: "\<not> gp_owner_growth p" and live: "\<not> gu_committed (bs_update s)"
  shows "committed_graph (bs_graph (fst (gu_cancel t q))) = committed_graph (bs_graph s)"
proof -
  let ?done = "\<lambda>t q. unchanged_by_cancel (bs_graph s) t q"
  obtain st1 s1 where canonical: "gu_canonicalize r su s = (st1, s1)" by force
  obtain st2 s2 where resolved: "gu_resolve_types (gu_changed_types (bs_update s1)) s1 = (st2, s2)" by force
  have 1: "prepared_from s s1"
    using prepared_from_renumbered [OF canonicalize_renumbered [of s r su]] canonical by simp
  have 2: "prepared_from s s2"
    using prepared_from_trans [OF 1 prepared_from_commit [OF commit.resolve_types]] resolved by (metis snd_conv)
  have early: "?done t p" if "prepared_from s t" for t using cancel_ungrown [OF that] ungrown by blast
  note guarded = run [unfolded gu_prepare_publish_def Let_def canonical prod.case resolved]
  have "?done t q"
  proof (cases "gu_failure (bs_update s) = Ok \<and> gu_usable s \<and> g_generation (bs_graph s) = gu_base_generation (bs_update s) \<and>
      st1 = Ok \<and> st2 = Ok")
    case False
    then have "(t, q) \<in> {(s, p), (set_failure Invalid_state s, p), (s1, p), (s2, p)}" using guarded by (auto split: if_splits)
    then show ?thesis using early 1 2 by auto
  next
    case ok: True
    obtain st3 s3 where valid: "gu_validate_live s2 = Some (st3, s3)" using guarded ok by (auto split: option.splits if_splits)
    have 3: "prepared_from s s3" using 2 validate_live_prepared [OF valid] by (rule prepared_from_trans)
    show ?thesis
    proof (cases "st3 = Ok")
      case False
      with guarded ok valid have "t = s3" "q = p" by auto
      then show ?thesis using early 3 by simp
    next
      case True
      then obtain st4 s4 p4 where table: "gu_rebuild_table s3 p = Some (st4, s4, p4)"
        using guarded ok valid by (auto split: option.splits if_splits)
      have 4: "prepared_from s s4" "\<not> gp_owner_growth p4"
        using 3 rebuild_table_prepared [OF table] ungrown prepared_from_trans by auto
      obtain st5 s5 where checks: "gu_prepare_checks m mu r su s4 = (st5, s5)" by force
      have 5: "prepared_from s s5" using 4(1) prepare_checks_prepared [OF checks] by (rule prepared_from_trans)
      have live5: "gu_owner (bs_update s5)" "\<not> gu_committed (bs_update s5)"
        using 5 ok live by (auto simp: prepared_from_def gu_usable_def)
      show ?thesis
      proof (cases "st4 = Ok \<and> st5 = Ok")
        case False
        with guarded ok valid True table checks have "(t, q) = (s4, p4) \<or> (t, q) = (s5, p4)" by (auto split: if_splits)
        then show ?thesis using cancel_ungrown [OF 4(1)] cancel_ungrown [OF 5] 4(2) by auto
      next
        case both: True
        with guarded ok valid True table checks have "gu_prepare_storage s5 p4 = (st, t, q)" by simp
        from prepare_storage_cancel [OF this 5 4(2) live5] show ?thesis .
      qed
    qed
  qed
  then show ?thesis by (simp add: unchanged_by_cancel_def)
qed

section \<open>Publication\<close>

text \<open>The overlay of a table: the changed indexes are exactly the tagged ones, each listed once.\<close>

definition listed :: "u64 \<Rightarrow> 'a candidate_slot list \<Rightarrow> nat list \<Rightarrow> bool" where
  "listed gen slots ids \<longleftrightarrow> distinct ids \<and> (\<forall>i. i \<in> set ids \<longleftrightarrow> overlay gen slots i \<noteq> None)"

lemma overlay_value: "overlay gen slots i = Some x \<Longrightarrow> slot_value (slots ! i) = x \<and> i < length slots"
  by (simp add: overlay_def split: if_splits)

lemma publish_identities:
  "length (g_candidate_identities g) \<le> length (g_identity g) \<Longrightarrow>
   foldl publish_identity g names =
     g\<lparr>g_identity := map (\<lambda>i. if i \<in> set names then slot_value (g_candidate_identities g ! i) else g_identity g ! i)
         [0..<length (g_identity g)]\<rparr>"
proof (induction names arbitrary: g)
  case Nil
  then show ?case by (simp add: map_nth)
next
  case (Cons name names)
  let ?g = "publish_identity g name"
  have g: "?g = g\<lparr>g_identity := (g_identity g)[name := slot_value (g_candidate_identities g ! name)]\<rparr>"
    by (simp add: publish_identity_def)
  have "length (g_candidate_identities ?g) \<le> length (g_identity ?g)" using Cons.prems by (simp add: g)
  from Cons.IH [OF this] show ?case by (simp add: g nth_list_update)
qed

text \<open>What publication of the entities leaves alone, and the entities.\<close>

lemma publish_entities:
  "g_entities (foldl publish_entity g ids) =
     map (\<lambda>i. if i \<in> set ids then ce_entity (slot_value (g_candidate_entities g ! i)) else g_entities g ! i) [0..<length (g_entities g)] \<and>
   (\<exists>n. foldl publish_entity g ids = g\<lparr>g_entity_count := n, g_entities := g_entities (foldl publish_entity g ids)\<rparr>)"
proof (induction ids arbitrary: g)
  case Nil
  show ?case by (auto simp: map_nth intro: exI [of _ "g_entity_count g"])
next
  case (Cons eid ids)
  let ?g = "publish_entity g eid"
  obtain n where g: "?g = g\<lparr>g_entity_count := n, g_entities := (g_entities g)[eid := ce_entity (slot_value (g_candidate_entities g ! eid))]\<rparr>"
    by (simp add: publish_entity_def Let_def)
  obtain m where m: "foldl publish_entity ?g ids = ?g\<lparr>g_entity_count := m, g_entities := g_entities (foldl publish_entity ?g ids)\<rparr>"
    using Cons.IH [of ?g] by blast
  have "g_entities (foldl publish_entity ?g ids) =
     map (\<lambda>i. if i \<in> set ids then ce_entity (slot_value (g_candidate_entities ?g ! i)) else g_entities ?g ! i) [0..<length (g_entities ?g)]"
    using Cons.IH [of ?g] by blast
  also have "\<dots> = map (\<lambda>i. if i \<in> set (eid # ids) then ce_entity (slot_value (g_candidate_entities g ! i)) else g_entities g ! i)
      [0..<length (g_entities g)]"
    by (auto simp: g nth_list_update)
  finally have "g_entities (foldl publish_entity g (eid # ids)) = \<dots>" by simp
  moreover have "foldl publish_entity g (eid # ids) = g\<lparr>g_entity_count := m, g_entities := g_entities (foldl publish_entity g (eid # ids))\<rparr>"
    using m by (simp add: g)
  ultimately show ?case by blast
qed

text \<open>A type as readers see it: its entry but for the place of the definition, and what is defined there.\<close>

definition type_shape :: "type_entry \<Rightarrow> type_entry" where
  "type_shape v = v\<lparr>te_definition := no_range\<rparr>"

definition shown :: "graph \<Rightarrow> nat \<Rightarrow> type_entry option \<times> member_record list \<times> enum_value_record list" where
  "shown g h = (map_option type_shape (g_type g h), g_members_of g h, g_enum_values_of g h)"

definition defined_members :: "type_entry \<Rightarrow> type_build_state option \<Rightarrow> member_record list" where
  "defined_members v build =
     (case build of
        None \<Rightarrow> []
      | Some b \<Rightarrow> if te_kind v = Type_aggregate \<and> tb_definition_pending b then tb_members b else [])"

definition defined_enumerators :: "type_entry \<Rightarrow> type_build_state option \<Rightarrow> enum_value_record list" where
  "defined_enumerators v build =
     (case build of
        None \<Rightarrow> []
      | Some b \<Rightarrow> if te_kind v = Type_enumeration \<and> tb_definition_pending b then tb_enumerators b else [])"

definition slot_shown ::
    "graph \<Rightarrow> nat \<Rightarrow> candidate_type \<Rightarrow> type_entry option \<times> member_record list \<times> enum_value_record list" where
  "slot_shown g h t =
     (case ct_kind t of
        Candidate_unchanged \<Rightarrow> shown g h
      | Candidate_removed \<Rightarrow> (None, [], [])
      | Candidate_replacement \<Rightarrow>
          (case ct_value t of
             None \<Rightarrow> (None, [], [])
           | Some v \<Rightarrow> (Some (type_shape v), defined_members v (ct_build t), defined_enumerators v (ct_build t))))"

definition candidate_shown :: "build_state \<Rightarrow> nat \<Rightarrow> type_entry option \<times> member_record list \<times> enum_value_record list" where
  "candidate_shown s h =
     (case candidate_slot_of s h of None \<Rightarrow> shown (bs_graph s) h | Some t \<Rightarrow> slot_shown (bs_graph s) h t)"

text \<open>Definitions lie inside their arenas.\<close>

definition range_inside :: "definition_range \<Rightarrow> nat \<Rightarrow> bool" where
  "range_inside r n \<longleftrightarrow> dr_begin r - 1 + dr_count r \<le> n"

definition definitions_inside :: "graph \<Rightarrow> bool" where
  "definitions_inside g \<longleftrightarrow>
     (\<forall>h v. g_type g h = Some v \<longrightarrow> range_valid (te_definition v) \<longrightarrow>
        range_inside (te_definition v) (if te_kind v = Type_aggregate then length (g_members g) else length (g_enum_values g)))"

lemma arena_slice_append: "range_inside r (length xs) \<Longrightarrow> arena_slice (xs @ ys) r = arena_slice xs r"
  by (auto simp: arena_slice_def range_inside_def Let_def)

lemma arena_slice_end:
  "arena_slice (xs @ ys) \<lparr>dr_begin = length xs + 1, dr_count = length ys\<rparr> = ys"
  by (simp add: arena_slice_def)

lemma shown_extend:
  assumes "g_type g' k = g_type g k" and "g_members g' = g_members g @ ms" "g_enum_values g' = g_enum_values g @ es"
    and "definitions_inside g"
  shows "shown g' k = shown g k"
proof (cases "g_type g k")
  case None
  with assms(1) show ?thesis by (simp add: shown_def g_members_of_def g_enum_values_of_def)
next
  case (Some v)
  with assms(4) have inside: "range_valid (te_definition v) \<Longrightarrow>
      range_inside (te_definition v) (if te_kind v = Type_aggregate then length (g_members g) else length (g_enum_values g))"
    unfolding definitions_inside_def by blast
  have kinds: "te_kind v \<noteq> Type_enumeration \<longleftrightarrow> te_kind v = Type_aggregate" by (cases "te_kind v") simp_all
  show ?thesis
    using inside by (cases "range_valid (te_definition v)"; cases "te_kind v")
      (simp_all add: shown_def g_members_of_def g_enum_values_of_def assms(1-3) Some arena_slice_append)
qed

text \<open>What publication of the types only appends to, or leaves alone.\<close>

definition types_extended :: "graph \<Rightarrow> graph \<Rightarrow> bool" where
  "types_extended g g' \<longleftrightarrow>
     length (g_types g') = length (g_types g) \<and> (\<exists>ms. g_members g' = g_members g @ ms) \<and> (\<exists>es. g_enum_values g' = g_enum_values g @ es) \<and>
     g_entities g' = g_entities g \<and> g_identity g' = g_identity g \<and> g_canonical g' = g_canonical g \<and>
     g_candidate_identities g' = g_candidate_identities g \<and> g_candidate_entities g' = g_candidate_entities g"

lemma types_extended_refl: "types_extended g g"
  by (simp add: types_extended_def)

lemma types_extended_trans: "types_extended g h \<Longrightarrow> types_extended h k \<Longrightarrow> types_extended g k"
  by (auto simp: types_extended_def)

lemma publish_type_extended: "types_extended g (publish_type g h)"
  by (auto simp: types_extended_def publish_type_def publish_definition_def Let_def
      split: candidate_type_kind.split option.split prod.split if_splits)

lemma publish_types_extended: "types_extended g (foldl publish_type g hs)"
  by (induction hs arbitrary: g) (auto intro: types_extended_refl types_extended_trans publish_type_extended)

lemma publish_definition_types: "publish_definition v build g = (w, g') \<Longrightarrow> g_types g' = g_types g"
  by (auto simp: publish_definition_def Let_def split: option.splits if_splits)

lemma publish_type_types: "\<exists>x. g_types (publish_type g h) = (g_types g)[h - 1 := x]"
proof (cases "ct_kind (slot_value (g_candidate_types g ! h))")
  case Candidate_unchanged
  then show ?thesis by (intro exI [of _ "g_types g ! (h - 1)"]) (simp add: publish_type_def Let_def)
next
  case Candidate_replacement
  then show ?thesis using publish_definition_types
    by (fastforce simp: publish_type_def Let_def split: prod.split)
next
  case Candidate_removed
  then show ?thesis by (intro exI [of _ None]) (simp add: publish_type_def Let_def)
qed

lemma publish_type_others:
  assumes "k \<noteq> h" and "0 < h" and "h \<le> length (g_types g)"
  shows "g_type (publish_type g h) k = g_type g k" "g_candidate_types (publish_type g h) ! k = g_candidate_types g ! k"
proof -
  obtain x where "g_types (publish_type g h) = (g_types g)[h - 1 := x]" using publish_type_types by blast
  moreover have "k = 0 \<or> k - 1 \<noteq> h - 1" using assms by linarith
  ultimately show "g_type (publish_type g h) k = g_type g k" by (auto simp: g_type_def)
  show "g_candidate_types (publish_type g h) ! k = g_candidate_types g ! k"
    using assms(1) by (auto simp: publish_type_def publish_definition_def Let_def write_slot_def
        split: candidate_type_kind.split option.split prod.split if_splits)
qed

lemma publish_type_here:
  fixes g h
  defines "t \<equiv> slot_value (g_candidate_types g ! h)" and "g' \<equiv> publish_type g h"
  assumes h: "0 < h" "h \<le> length (g_types g)" and inside: "definitions_inside g"
    and some: "ct_kind t = Candidate_replacement \<Longrightarrow> ct_value t \<noteq> None"
    and sizes: "length (g_members g') < u32_max" "length (g_enum_values g') < u32_max"
  shows "shown g' h = slot_shown g h t"
    and "\<And>v. g_type g' h = Some v \<Longrightarrow> range_valid (te_definition v) \<Longrightarrow>
      range_inside (te_definition v) (if te_kind v = Type_aggregate then length (g_members g') else length (g_enum_values g'))"
proof -
  have idx: "h - 1 < length (g_types g)" using h by linarith
  have "shown g' h = slot_shown g h t \<and> (\<forall>v. g_type g' h = Some v \<longrightarrow> range_valid (te_definition v) \<longrightarrow>
      range_inside (te_definition v) (if te_kind v = Type_aggregate then length (g_members g') else length (g_enum_values g')))"
  proof (cases "ct_kind t")
    case Candidate_unchanged
    have g': "g' = g\<lparr>g_user_type_count := g_user_type_count g'\<rparr>"
      using Candidate_unchanged by (simp add: g'_def publish_type_def t_def Let_def)
    have same: "g_type g' k = g_type g k" "g_members g' = g_members g" "g_enum_values g' = g_enum_values g" for k
      by (subst g', simp add: g_type_def)+
    then have "shown g' h = shown g h" using shown_extend [of g' h g "[]" "[]"] inside by simp
    moreover have "range_valid (te_definition v) \<Longrightarrow>
        range_inside (te_definition v) (if te_kind v = Type_aggregate then length (g_members g) else length (g_enum_values g))"
      if "g_type g h = Some v" for v using inside that unfolding definitions_inside_def by blast
    ultimately show ?thesis using Candidate_unchanged unfolding same slot_shown_def by simp
  next
    case Candidate_removed
    then have "g_type g' h = None"
      using h idx by (simp add: g'_def publish_type_def t_def [symmetric] Let_def g_type_def)
    with Candidate_removed show ?thesis by (simp add: shown_def slot_shown_def g_members_of_def g_enum_values_of_def)
  next
    case Candidate_replacement
    then obtain v where v: "ct_value t = Some v" using some by blast
    obtain w g1 where def_: "publish_definition v (ct_build t) (g\<lparr>g_user_type_count := recount (g_types g ! (h - 1) \<noteq> None) True (g_user_type_count g)\<rparr>) = (w, g1)"
      by force
    have g': "g_type g' h = Some w" "g_members g' = g_members g1" "g_enum_values g' = g_enum_values g1"
    proof -
      have types: "g_types g1 = g_types g" using def_ by (auto simp: publish_definition_def Let_def split: option.splits if_splits)
      show "g_type g' h = Some w" "g_members g' = g_members g1" "g_enum_values g' = g_enum_values g1"
        using Candidate_replacement h idx types
        by (simp_all add: g'_def publish_type_def t_def [symmetric] Let_def v def_ [simplified] g_type_def)
    qed
    have "type_shape w = type_shape v" "te_kind w = te_kind v"
      using def_ by (auto simp: publish_definition_def Let_def type_shape_def split: option.splits if_splits)
    moreover have "g_members_of g' h = defined_members v (ct_build t) \<and> g_enum_values_of g' h = defined_enumerators v (ct_build t) \<and>
       (range_valid (te_definition w) \<longrightarrow> range_inside (te_definition w) (if te_kind w = Type_aggregate then length (g_members g') else length (g_enum_values g')))"
    proof (cases "ct_build t")
      case None
      with def_ have "w = v\<lparr>te_definition := no_range\<rparr>" by (simp add: publish_definition_def)
      then show ?thesis using None
        by (simp add: g_members_of_def g_enum_values_of_def g' defined_members_def defined_enumerators_def range_valid_def no_range_def)
    next
      case (Some b)
      show ?thesis
      proof (cases "tb_definition_pending b")
        case False
        with Some def_ have "w = v\<lparr>te_definition := no_range\<rparr>" by (simp add: publish_definition_def)
        then show ?thesis using Some False
          by (simp add: g_members_of_def g_enum_values_of_def g' defined_members_def defined_enumerators_def range_valid_def no_range_def)
      next
        case pending: True
        show ?thesis
        proof (cases "te_kind v")
          case Type_aggregate
          with Some pending def_ have w: "w = v\<lparr>te_definition := \<lparr>dr_begin = cast_u32 (length (g_members g) + 1), dr_count = cast_u32 (length (tb_members b))\<rparr>\<rparr>"
            and g1: "g_members g1 = g_members g @ tb_members b"
            by (auto simp: publish_definition_def Let_def)
          have "length (g_members g) + 1 \<le> u32_max" "length (tb_members b) \<le> u32_max" using sizes(1) by (simp_all add: g' g1)
          then have d: "te_definition w = \<lparr>dr_begin = length (g_members g) + 1, dr_count = length (tb_members b)\<rparr>" by (simp add: w)
          show ?thesis
            using Some pending Type_aggregate d arena_slice_end [of "g_members g" "tb_members b"]
            by (simp add: g_members_of_def g_enum_values_of_def g' g1 w defined_members_def defined_enumerators_def range_valid_def range_inside_def)
        next
          case Type_enumeration
          with Some pending def_ have w: "w = v\<lparr>te_definition := \<lparr>dr_begin = cast_u32 (length (g_enum_values g) + 1), dr_count = cast_u32 (length (tb_enumerators b))\<rparr>\<rparr>"
            and g1: "g_enum_values g1 = g_enum_values g @ tb_enumerators b"
            by (auto simp: publish_definition_def Let_def)
          have "length (g_enum_values g) + 1 \<le> u32_max" "length (tb_enumerators b) \<le> u32_max" using sizes(2) by (simp_all add: g' g1)
          then have d: "te_definition w = \<lparr>dr_begin = length (g_enum_values g) + 1, dr_count = length (tb_enumerators b)\<rparr>" by (simp add: w)
          show ?thesis
            using Some pending Type_enumeration d arena_slice_end [of "g_enum_values g" "tb_enumerators b"]
            by (simp add: g_members_of_def g_enum_values_of_def g' g1 w defined_members_def defined_enumerators_def range_valid_def range_inside_def)
        qed
      qed
    qed
    ultimately show ?thesis using Candidate_replacement v g'(1) by (simp add: shown_def slot_shown_def)
  qed
  then show "shown g' h = slot_shown g h t"
    and "\<And>v. g_type g' h = Some v \<Longrightarrow> range_valid (te_definition v) \<Longrightarrow>
      range_inside (te_definition v) (if te_kind v = Type_aggregate then length (g_members g') else length (g_enum_values g'))" by blast+
qed

lemma publish_type_inside:
  assumes h: "0 < h" "h \<le> length (g_types g)" and inside: "definitions_inside g"
    and some: "ct_kind (slot_value (g_candidate_types g ! h)) = Candidate_replacement \<Longrightarrow> ct_value (slot_value (g_candidate_types g ! h)) \<noteq> None"
    and sizes: "length (g_members (publish_type g h)) < u32_max" "length (g_enum_values (publish_type g h)) < u32_max"
  shows "definitions_inside (publish_type g h)"
  unfolding definitions_inside_def
proof (intro allI impI)
  let ?g = "publish_type g h"
  fix k v assume v: "g_type ?g k = Some v" "range_valid (te_definition v)"
  show "range_inside (te_definition v) (if te_kind v = Type_aggregate then length (g_members ?g) else length (g_enum_values ?g))"
  proof (cases "k = h")
    case True
    with v publish_type_here(2) [OF h inside some sizes] show ?thesis by blast
  next
    case False
    with v h have "g_type g k = Some v" using publish_type_others(1) by simp
    with v(2) inside have "range_inside (te_definition v) (if te_kind v = Type_aggregate then length (g_members g) else length (g_enum_values g))"
      unfolding definitions_inside_def by blast
    moreover have "length (g_members g) \<le> length (g_members ?g)" "length (g_enum_values g) \<le> length (g_enum_values ?g)"
      using publish_type_extended [of g h] by (auto simp: types_extended_def)
    ultimately show ?thesis by (simp add: range_inside_def split: if_splits)
  qed
qed

lemma publish_types_shown:
  "distinct hs \<Longrightarrow> (\<And>h. h \<in> set hs \<Longrightarrow> 0 < h \<and> h \<le> length (g_types g)) \<Longrightarrow> definitions_inside g \<Longrightarrow>
   (\<And>h. h \<in> set hs \<Longrightarrow> ct_kind (slot_value (g_candidate_types g ! h)) = Candidate_replacement \<Longrightarrow>
      ct_value (slot_value (g_candidate_types g ! h)) \<noteq> None) \<Longrightarrow>
   length (g_members (foldl publish_type g hs)) < u32_max \<Longrightarrow> length (g_enum_values (foldl publish_type g hs)) < u32_max \<Longrightarrow>
   definitions_inside (foldl publish_type g hs) \<and>
   shown (foldl publish_type g hs) k =
     (if k \<in> set hs then slot_shown g k (slot_value (g_candidate_types g ! k)) else shown g k)"
proof (induction hs arbitrary: g)
  case Nil
  then show ?case by simp
next
  case (Cons h hs)
  let ?g = "publish_type g h"
  have h: "0 < h" "h \<le> length (g_types g)" using Cons.prems(2) by simp_all
  have ext: "types_extended g ?g" by (rule publish_type_extended)
  then have len: "length (g_types ?g) = length (g_types g)" by (simp add: types_extended_def)
  have later: "types_extended ?g (foldl publish_type ?g hs)" by (rule publish_types_extended)
  then have sizes: "length (g_members ?g) < u32_max" "length (g_enum_values ?g) < u32_max"
    using Cons.prems(5,6) by (auto simp: types_extended_def)
  have some: "ct_kind (slot_value (g_candidate_types g ! h)) = Candidate_replacement \<Longrightarrow>
      ct_value (slot_value (g_candidate_types g ! h)) \<noteq> None" using Cons.prems(4) by simp
  have inside: "definitions_inside ?g" by (rule publish_type_inside [OF h Cons.prems(3) some sizes])
  have other: "g_candidate_types ?g ! j = g_candidate_types g ! j" "g_type ?g j = g_type g j" if "j \<noteq> h" for j
    using publish_type_others [OF that h] by simp_all
  have shown: "shown ?g j = shown g j" if "j \<noteq> h" for j
    using shown_extend [of ?g j g] other(2) [OF that] ext Cons.prems(3) by (auto simp: types_extended_def)
  have fresh: "h \<notin> set hs" using Cons.prems(1) by simp
  have IH: "definitions_inside (foldl publish_type ?g hs) \<and>
     shown (foldl publish_type ?g hs) k =
       (if k \<in> set hs then slot_shown ?g k (slot_value (g_candidate_types ?g ! k)) else shown ?g k)"
  proof (rule Cons.IH)
    show "distinct hs" using Cons.prems(1) by simp
    show "\<And>j. j \<in> set hs \<Longrightarrow> 0 < j \<and> j \<le> length (g_types ?g)" using Cons.prems(2) by (simp add: len)
    show "definitions_inside ?g" by (rule inside)
    show "length (g_members (foldl publish_type ?g hs)) < u32_max" "length (g_enum_values (foldl publish_type ?g hs)) < u32_max"
      using Cons.prems(5,6) by simp_all
    show "ct_value (slot_value (g_candidate_types ?g ! j)) \<noteq> None"
      if "j \<in> set hs" "ct_kind (slot_value (g_candidate_types ?g ! j)) = Candidate_replacement" for j
    proof -
      have "j \<noteq> h" using that(1) fresh by blast
      with that Cons.prems(4) other(1) show ?thesis by simp
    qed
  qed
  have "shown ?g h = slot_shown g h (slot_value (g_candidate_types g ! h))"
    by (rule publish_type_here(1) [OF h Cons.prems(3) some sizes])
  moreover have "slot_shown ?g k t = slot_shown g k t" if "k \<noteq> h" for t
    using shown [OF that] by (simp add: slot_shown_def split: candidate_type_kind.split)
  ultimately show ?case
    using IH other(1) shown fresh by (cases "k = h") auto
qed

text \<open>A candidate whose overlays are in order.\<close>

definition publishable :: "build_state \<Rightarrow> bool" where
  "publishable s \<longleftrightarrow>
     (let g = bs_graph s; u = bs_update s in
      listed (gu_generation u) (g_candidate_identities g) (gu_changed_identities u) \<and>
      listed (gu_generation u) (g_candidate_entities g) (gu_changed_entities u) \<and>
      listed (gu_generation u) (g_candidate_types g) (gu_changed_types u) \<and>
      (\<forall>h\<in>set (gu_changed_types u). 0 < h \<and> h \<le> max (length (g_types g)) (gu_next_type_slot u - 1)) \<and>
      (\<forall>h t. candidate_slot_of s h = Some t \<longrightarrow> ct_kind t = Candidate_replacement \<longrightarrow> ct_value t \<noteq> None) \<and>
      definitions_inside g)"

lemma nth_map_range: "i < n \<Longrightarrow> map f [0..<n] ! i = f i"
  by simp

lemma entity_published:
  assumes listed: "listed gen slots ids" and len: "length slots \<le> length es"
    and es': "es' = map (\<lambda>i. if i \<in> set ids then ce_entity (slot_value (slots ! i)) else es ! i) [0..<length es]"
    and es: "es = grow (length slots) no_entity old"
  shows "(if eid \<noteq> 0 \<and> eid < length es' \<and> entity_live (es' ! eid) then Some (es' ! eid) else None) =
    (if eid = 0 then None
     else case overlay gen slots eid of
       Some c \<Rightarrow> if entity_live (ce_entity c) then Some (ce_entity c) else None
     | None \<Rightarrow> if eid < length old \<and> entity_live (old ! eid) then Some (old ! eid) else None)"
proof (cases "overlay gen slots eid")
  case (Some c)
  then have "eid \<in> set ids" using listed by (simp add: listed_def)
  with overlay_value [OF Some] len Some show ?thesis by (simp add: es')
next
  case None
  then have "eid \<notin> set ids" using listed by (simp add: listed_def)
  moreover have "eid < length es \<Longrightarrow> \<not> eid < length old \<Longrightarrow> es ! eid = no_entity" by (simp add: es nth_grow)
  moreover have "\<not> entity_live no_entity" by (simp add: entity_live_def no_entity_def)
  moreover have "eid < length old \<Longrightarrow> eid < length es \<and> es ! eid = old ! eid" by (simp add: es)
  ultimately show ?thesis using None by (cases "eid < length old") (auto simp: es')
qed

text \<open>The graph after an incremental publication, table by table.\<close>

lemma publish_incremental_tables:
  fixes s p
  defines "g \<equiv> bs_graph s" and "u \<equiv> bs_update s" and "g' \<equiv> gu_publish_incremental s p"
  assumes "length (g_candidate_identities g) \<le> length (g_identity g)"
  shows "g_identity g' = map (\<lambda>i. if i \<in> set (gu_changed_identities u) then slot_value (g_candidate_identities g ! i) else g_identity g ! i)
      [0..<length (g_identity g)]"
    and "g_entities g' = map (\<lambda>i. if i \<in> set (gu_changed_entities u) then ce_entity (slot_value (g_candidate_entities g ! i)) else g_entities g ! i)
      [0..<length (g_entities g)]"
    and "\<exists>g2. g_types g2 = g_types g \<and> g_members g2 = g_members g \<and> g_enum_values g2 = g_enum_values g \<and>
      g_candidate_types g2 = g_candidate_types g \<and>
      g_types g' = g_types (foldl publish_type g2 (gu_changed_types u)) \<and>
      g_members g' = g_members (foldl publish_type g2 (gu_changed_types u)) \<and>
      g_enum_values g' = g_enum_values (foldl publish_type g2 (gu_changed_types u))"
proof -
  let ?g0 = "g\<lparr>g_free_type_slots := take (length (g_free_type_slots g) - length (gu_claimed_free u)) (g_free_type_slots g)\<rparr>"
  let ?g1 = "foldl publish_identity ?g0 (gu_changed_identities u)"
  let ?g2 = "foldl publish_entity ?g1 (gu_changed_entities u)"
  let ?g3 = "foldl publish_type ?g2 (gu_changed_types u)"
  have "length (g_candidate_identities ?g0) \<le> length (g_identity ?g0)" using assms by simp
  note 1 = publish_identities [OF this, of "gu_changed_identities u"]
  obtain n where 2: "?g2 = ?g1\<lparr>g_entity_count := n, g_entities := g_entities ?g2\<rparr>" using publish_entities by blast
  have ents: "g_entities ?g2 = map (\<lambda>i. if i \<in> set (gu_changed_entities u) then ce_entity (slot_value (g_candidate_entities ?g1 ! i))
      else g_entities ?g1 ! i) [0..<length (g_entities ?g1)]" using publish_entities by blast
  have 3: "types_extended ?g2 ?g3" by (rule publish_types_extended)
  have g': "g_identity g' = g_identity ?g3" "g_entities g' = g_entities ?g3" "g_types g' = g_types ?g3"
    "g_members g' = g_members ?g3" "g_enum_values g' = g_enum_values ?g3"
    by (simp_all add: g'_def gu_publish_incremental_def Let_def g_def u_def)
  have fields1: "g_entities ?g1 = g_entities g" "g_candidate_entities ?g1 = g_candidate_entities g" "g_types ?g1 = g_types g"
    "g_members ?g1 = g_members g" "g_enum_values ?g1 = g_enum_values g" "g_candidate_types ?g1 = g_candidate_types g"
    by (simp_all add: 1)
  have fields2: "g_identity ?g2 = g_identity ?g1" "g_types ?g2 = g_types ?g1" "g_members ?g2 = g_members ?g1"
    "g_enum_values ?g2 = g_enum_values ?g1" "g_candidate_types ?g2 = g_candidate_types ?g1"
    by (subst 2, simp)+
  show "g_identity g' = map (\<lambda>i. if i \<in> set (gu_changed_identities u) then slot_value (g_candidate_identities g ! i) else g_identity g ! i)
      [0..<length (g_identity g)]"
    using 3 by (simp add: g' types_extended_def fields2(1)) (simp add: 1)
  show "g_entities g' = map (\<lambda>i. if i \<in> set (gu_changed_entities u) then ce_entity (slot_value (g_candidate_entities g ! i)) else g_entities g ! i)
      [0..<length (g_entities g)]"
    using 3 ents by (simp add: g' types_extended_def fields1)
  show "\<exists>g2. g_types g2 = g_types g \<and> g_members g2 = g_members g \<and> g_enum_values g2 = g_enum_values g \<and>
      g_candidate_types g2 = g_candidate_types g \<and>
      g_types g' = g_types (foldl publish_type g2 (gu_changed_types u)) \<and>
      g_members g' = g_members (foldl publish_type g2 (gu_changed_types u)) \<and>
      g_enum_values g' = g_enum_values (foldl publish_type g2 (gu_changed_types u))"
    by (intro exI [of _ ?g2]) (simp add: g' fields1 fields2)
qed

lemma shown_cong:
  "g_types g' = g_types g \<Longrightarrow> g_members g' = g_members g \<Longrightarrow> g_enum_values g' = g_enum_values g \<Longrightarrow> shown g' h = shown g h"
  by (simp add: shown_def g_type_def g_members_of_def g_enum_values_of_def split: option.split)

text \<open>What the three queries of the published Graph return.\<close>

lemma publish_incremental_shows:
  assumes prepared: "gu_prepare_storage s p = (Ok, t, q)" and incremental: "\<not> gu_full (bs_update s)"
    and ready: "publishable s" "gu_usable s" and published: "gu_publish_prepared t q = (v, q')"
    and sizes: "length (g_members (bs_graph v)) < u32_max" "length (g_enum_values (bs_graph v)) < u32_max"
  shows "g_entity (bs_graph v) eid = gu_find_entity s eid" and "g_find (bs_graph v) name = gu_find s name"
    and "shown (bs_graph v) h = candidate_shown s h"
proof -
  let ?g = "bs_graph s" and ?u = "bs_update s"
  note P = ready(1) [unfolded publishable_def Let_def]
  have usable: "gu_owner ?u" "\<not> gu_prepared ?u" "\<not> gu_committed ?u" using ready(2) by (simp_all add: gu_usable_def)
  obtain st1 s1 p1 where deps: "gu_prepare_dependencies s p = (st1, s1, p1)" by (metis prod_cases3)
  obtain k mem where k: "take_allocs 7 (bs_memory s1) = (k, mem)" by force
  obtain mem1 where s1: "st1 = Ok \<Longrightarrow> s1 = s\<lparr>bs_memory := mem1\<rparr>"
    using deps incremental by (auto simp: gu_prepare_dependencies_def allocate_def Let_def split: prod.splits if_splits option.splits)
  have ok: "st1 = Ok" "7 \<le> k" and t: "t = s1\<lparr>bs_graph := grow_owner k s1, bs_memory := mem, bs_update := (bs_update s1)\<lparr>gu_prepared := True\<rparr>\<rparr>"
    using prepared incremental deps k by (auto simp: gu_prepare_storage_def gu_prepare_incremental_def Let_def split: if_splits)
  note s1 = s1 [OF ok(1)]
  have tg: "bs_graph t = grow_owner k s" and tu: "bs_update t = ?u\<lparr>gu_prepared := True\<rparr>"
    by (simp_all add: t s1 grow_owner_def Let_def)
  let ?G = "grow_owner k s"
  have G: "g_identity ?G = grow (length (g_candidate_identities ?g)) 0 (g_identity ?g)"
    "g_entities ?G = grow (length (g_candidate_entities ?g)) no_entity (g_entities ?g)"
    "g_types ?G = grow (gu_next_type_slot ?u - 1) None (g_types ?g)"
    "g_members ?G = g_members ?g" "g_enum_values ?G = g_enum_values ?g" "g_candidate_types ?G = g_candidate_types ?g"
    "g_candidate_identities ?G = g_candidate_identities ?g" "g_candidate_entities ?G = g_candidate_entities ?g"
    using ok(2) by (simp_all add: grow_owner_def Let_def)
  have v: "bs_graph v = gu_publish_incremental t q"
    using published incremental by (auto simp: gu_publish_prepared_def tu Let_def)
  have "length (g_candidate_identities (bs_graph t)) \<le> length (g_identity (bs_graph t))" by (simp add: tg G)
  note T = publish_incremental_tables [OF this, of q, folded v]
  have ids: "g_identity (bs_graph v) = map (\<lambda>i. if i \<in> set (gu_changed_identities ?u) then slot_value (g_candidate_identities ?g ! i)
      else g_identity ?G ! i) [0..<length (g_identity ?G)]"
    using T(1) by (simp add: tg tu G)
  have ents: "g_entities (bs_graph v) = map (\<lambda>i. if i \<in> set (gu_changed_entities ?u) then ce_entity (slot_value (g_candidate_entities ?g ! i))
      else g_entities ?G ! i) [0..<length (g_entities ?G)]"
    using T(2) by (simp add: tg tu G)
  have listed: "listed (gu_generation ?u) (g_candidate_identities ?g) (gu_changed_identities ?u)"
    "listed (gu_generation ?u) (g_candidate_entities ?g) (gu_changed_entities ?u)"
    "listed (gu_generation ?u) (g_candidate_types ?g) (gu_changed_types ?u)" using P by blast+
  have entity: "g_entity (bs_graph v) i = gu_find_entity s i" for i
    using entity_published [OF listed(2) _ ents G(2), of i]
    by (simp add: g_entity_def gu_find_entity_def ready(2) incremental Let_def G(2) split: option.splits)
  then show "g_entity (bs_graph v) eid = gu_find_entity s eid" .
  show "g_find (bs_graph v) name = gu_find s name"
  proof (cases "name = 0")
    case False
    let ?eid = "case overlay (gu_generation ?u) (g_candidate_identities ?g) name of
        Some eid \<Rightarrow> eid | None \<Rightarrow> if name < length (g_identity ?g) then g_identity ?g ! name else 0"
    have find: "gu_find s name = gu_find_entity s ?eid" using False ready(2) by (simp add: gu_find_def Let_def)
    show ?thesis
    proof (cases "name < length (g_identity ?G)")
      case True
      have "g_identity (bs_graph v) ! name = ?eid"
      proof (cases "overlay (gu_generation ?u) (g_candidate_identities ?g) name")
        case None
        then have "name \<notin> set (gu_changed_identities ?u)" using listed(1) by (simp add: listed_def)
        with None True show ?thesis by (simp add: ids) (simp add: G(1) nth_grow)
      next
        case (Some eid)
        then have "name \<in> set (gu_changed_identities ?u)" using listed(1) by (simp add: listed_def)
        with Some True overlay_value [OF Some] show ?thesis by (simp add: ids)
      qed
      moreover have "length (g_identity (bs_graph v)) = length (g_identity ?G)" by (simp add: ids)
      ultimately show ?thesis using False True entity by (simp add: g_find_def find)
    next
      case outside: False
      then have "overlay (gu_generation ?u) (g_candidate_identities ?g) name = None" by (auto simp: overlay_def G(1) less_max_iff_disj)
      moreover have "\<not> name < length (g_identity ?g)" using outside by (auto simp: G(1) less_max_iff_disj)
      ultimately have "gu_find s name = None" by (simp add: find gu_find_entity_def)
      moreover have "\<not> name < length (g_identity (bs_graph v))" using outside by (simp add: ids)
      ultimately show ?thesis by (simp add: g_find_def)
    qed
  qed (simp add: g_find_def gu_find_def)
  obtain g2 where g2: "g_types g2 = g_types ?G" "g_members g2 = g_members ?g" "g_enum_values g2 = g_enum_values ?g"
    "g_candidate_types g2 = g_candidate_types ?g"
    and result: "g_types (bs_graph v) = g_types (foldl publish_type g2 (gu_changed_types ?u))"
      "g_members (bs_graph v) = g_members (foldl publish_type g2 (gu_changed_types ?u))"
      "g_enum_values (bs_graph v) = g_enum_values (foldl publish_type g2 (gu_changed_types ?u))"
    using T(3) by (auto simp: tg tu G)
  have type2: "g_type g2 i = g_type ?g i" for i
  proof (cases "i \<le> length (g_types ?g)")
    case True
    then show ?thesis by (auto simp: g_type_def g2 G(3))
  next
    case False
    then have "grow (gu_next_type_slot ?u - 1) None (g_types ?g) ! (i - 1) = None" if "i \<le> length (g_types ?G)"
    proof -
      have "i \<le> gu_next_type_slot ?u - 1" using that False by (auto simp: G(3) le_max_iff_disj)
      then have "i - 1 < gu_next_type_slot ?u - 1" "\<not> i - 1 < length (g_types ?g)" using False by linarith+
      then show ?thesis by (simp add: nth_grow)
    qed
    with False show ?thesis by (auto simp: g_type_def g2 G(3))
  qed
  have same: "shown g2 i = shown ?g i" for i
    by (simp add: shown_def g_members_of_def g_enum_values_of_def type2 g2 split: option.split)
  have inside: "definitions_inside g2" using P unfolding definitions_inside_def type2 g2 by blast
  have filled: "ct_value (slot_value (g_candidate_types g2 ! i)) \<noteq> None"
    if i: "i \<in> set (gu_changed_types ?u)" "ct_kind (slot_value (g_candidate_types g2 ! i)) = Candidate_replacement" for i
  proof -
    obtain c where c: "candidate_slot_of s i = Some c" using listed(3) i(1) by (auto simp: listed_def candidate_slot_of_def)
    then have "slot_value (g_candidate_types ?g ! i) = c" using overlay_value [OF c [unfolded candidate_slot_of_def]] by simp
    with c P i(2) show ?thesis unfolding g2 by blast
  qed
  have handles: "0 < i \<and> i \<le> length (g_types g2)" if "i \<in> set (gu_changed_types ?u)" for i
    using P that by (auto simp: g2 G(3) max.commute)
  have distinct: "distinct (gu_changed_types ?u)" using listed(3) by (simp add: listed_def)
  have small: "length (g_members (foldl publish_type g2 (gu_changed_types ?u))) < u32_max"
    "length (g_enum_values (foldl publish_type g2 (gu_changed_types ?u))) < u32_max"
    using sizes unfolding result .
  note published_types = conjunct2 [OF publish_types_shown [OF distinct handles inside filled small]]
  have "shown (bs_graph v) h = shown (foldl publish_type g2 (gu_changed_types ?u)) h" by (rule shown_cong [OF result])
  also have "\<dots> = (if h \<in> set (gu_changed_types ?u) then slot_shown g2 h (slot_value (g_candidate_types g2 ! h)) else shown g2 h)"
    by (rule published_types)
  also have "\<dots> = candidate_shown s h"
  proof (cases "candidate_slot_of s h")
    case None
    then have "h \<notin> set (gu_changed_types ?u)" using listed(3) by (simp add: listed_def candidate_slot_of_def)
    with None show ?thesis by (simp add: candidate_shown_def same)
  next
    case (Some c)
    then have "h \<in> set (gu_changed_types ?u)" using listed(3) by (simp add: listed_def candidate_slot_of_def)
    moreover have "slot_value (g_candidate_types ?g ! h) = c" using overlay_value [OF Some [unfolded candidate_slot_of_def]] by simp
    ultimately show ?thesis using Some
      by (simp add: candidate_shown_def same g2 slot_shown_def split: candidate_type_kind.split)
  qed
  finally show "shown (bs_graph v) h = candidate_shown s h" .
qed

text \<open>C1: An incremental publication makes readers see exactly what the candidate showed. Every entity, every
  name and every type, with the members or enumerators that are defined for it, is after publication what the
  candidate's own queries returned before; nothing else changes.\<close>

theorem graph_publish_shows_candidate:
  assumes prepared: "gu_prepare_storage s p = (Ok, t, q)" and incremental: "\<not> gu_full (bs_update s)"
    and ready: "publishable s" "gu_usable s" and published: "gu_publish_prepared t q = (v, q')"
    and sizes: "length (g_members (bs_graph v)) < u32_max" "length (g_enum_values (bs_graph v)) < u32_max"
  shows "g_entity (bs_graph v) eid = gu_find_entity s eid \<and> g_find (bs_graph v) name = gu_find s name \<and>
    shown (bs_graph v) h = candidate_shown s h"
  using publish_incremental_shows [OF assms] by blast

section \<open>Examples\<close>

text \<open>The quantifiers of \<open>publishable\<close> range over the tables.\<close>

lemma listed_code:
  "listed gen slots ids \<longleftrightarrow> distinct ids \<and> list_all (\<lambda>i. i < length slots) ids \<and>
     list_all (\<lambda>i. slot_generation (slots ! i) = gen \<longleftrightarrow> i \<in> set ids) [0..<length slots]"
  by (auto simp: listed_def overlay_def list_all_iff)

lemma slots_filled_code:
  "(\<forall>h t. candidate_slot_of s h = Some t \<longrightarrow> ct_kind t = Candidate_replacement \<longrightarrow> ct_value t \<noteq> None) \<longleftrightarrow>
     list_all (\<lambda>h. case candidate_slot_of s h of None \<Rightarrow> True | Some t \<Rightarrow> ct_kind t = Candidate_replacement \<longrightarrow> ct_value t \<noteq> None)
       [0..<length (g_candidate_types (bs_graph s))]"
proof -
  have "candidate_slot_of s h = Some t \<Longrightarrow> h < length (g_candidate_types (bs_graph s))" for h t
    by (simp add: candidate_slot_of_def overlay_def split: if_splits)
  then show ?thesis by (fastforce simp: list_all_iff split: option.splits)
qed

lemma definitions_inside_code:
  "definitions_inside g \<longleftrightarrow>
     list_all (\<lambda>t. case t of None \<Rightarrow> True | Some v \<Rightarrow> range_valid (te_definition v) \<longrightarrow>
        range_inside (te_definition v) (if te_kind v = Type_aggregate then length (g_members g) else length (g_enum_values g))) (g_types g)"
proof -
  have "(\<exists>h. g_type g h = Some v) \<longleftrightarrow> Some v \<in> set (g_types g)" for v
  proof
    assume "\<exists>h. g_type g h = Some v"
    then show "Some v \<in> set (g_types g)" by (auto simp: g_type_def split: if_splits) (metis Suc_pred Suc_le_lessD nth_mem)
  next
    assume "Some v \<in> set (g_types g)"
    then obtain i where "i < length (g_types g)" "g_types g ! i = Some v" by (auto simp: in_set_conv_nth)
    then show "\<exists>h. g_type g h = Some v" by (intro exI [of _ "Suc i"]) (simp add: g_type_def)
  qed
  then show ?thesis unfolding definitions_inside_def list_all_iff by (fastforce split: option.splits)
qed

text \<open>The list node gets a second member; its Source is the only one that is replaced.\<close>

definition example_update_source :: build_state where
  "example_update_source = snd (snd (gu_replace_source 1 example_loaded_start))"

definition example_update_type :: build_state where
  "example_update_type = snd (snd (snd (sr_add_named_type (Some 1) 1 Aggregate_defined example_update_source)))"

definition example_update_members :: build_state where
  "example_update_members =
     snd (sr_define_members (Some 1) 1
       [\<lparr>mb_name = 2, mb_builtin = None, mb_user_type_name = 1, mb_modifier_offset = 0, mb_modifier_count = 1\<rparr>,
        \<lparr>mb_name = 1, mb_builtin = Some Integer, mb_user_type_name = 0, mb_modifier_offset = 0, mb_modifier_count = 0\<rparr>]
       [\<lparr>tm_kind = Derived_pointer, tm_payload = 0\<rparr>] example_update_type)"

definition example_update_resolved :: build_state where
  "example_update_resolved = snd (gu_resolve_types (gu_changed_types (bs_update example_update_members)) example_update_members)"

definition example_update_prepared :: "status_code \<times> build_state \<times> graph_publication" where
  "example_update_prepared = gu_prepare_storage example_update_resolved new_publication"

definition example_update_published :: "build_state \<times> graph_publication" where
  "example_update_published = gu_publish_prepared (fst (snd example_update_prepared)) (snd (snd example_update_prepared))"

lemma example_update_publishable: "publishable example_update_resolved"
  unfolding publishable_def listed_code slots_filled_code definitions_inside_code by code_simp

lemma graph_publish_shows_candidate_witness:
  "shown (bs_graph (fst example_update_published)) 1 = candidate_shown example_update_resolved 1 \<and>
   fst (snd (candidate_shown example_update_resolved 1)) = [\<lparr>mr_name = 2, mr_type = 22\<rparr>, \<lparr>mr_name = 1, mr_type = 7\<rparr>]"
proof
  have "fst example_update_prepared = Ok" by code_simp
  then have prepared: "gu_prepare_storage example_update_resolved new_publication =
      (Ok, fst (snd example_update_prepared), snd (snd example_update_prepared))"
    by (metis example_update_prepared_def prod.collapse)
  have published: "gu_publish_prepared (fst (snd example_update_prepared)) (snd (snd example_update_prepared)) =
      (fst example_update_published, snd example_update_published)"
    by (simp add: example_update_published_def)
  have flags: "\<not> gu_full (bs_update example_update_resolved)" "gu_usable example_update_resolved" by code_simp+
  have sizes: "length (g_members (bs_graph (fst example_update_published))) < u32_max"
    "length (g_enum_values (bs_graph (fst example_update_published))) < u32_max" by code_simp+
  show "shown (bs_graph (fst example_update_published)) 1 = candidate_shown example_update_resolved 1"
    using graph_publish_shows_candidate [OF prepared flags(1) example_update_publishable flags(2) published sizes] by blast
  show "fst (snd (candidate_shown example_update_resolved 1)) = [\<lparr>mr_name = 2, mr_type = 22\<rparr>, \<lparr>mr_name = 1, mr_type = 7\<rparr>]"
    by code_simp
qed

text \<open>The Source and the strings of the node, and a whole preparation.\<close>

definition example_node_source :: source_manager_update where
  "example_node_source = snd (mu_add True new_source_manager (sm_begin_update new_source_manager) ''node'' Role_source)"

definition example_node_strings :: string_registry_update where
  "example_node_strings =
     snd (snd (su_intern True new_string_registry
       (snd (snd (su_intern True new_string_registry (sr_begin_update new_string_registry) ''node''))) ''next''))"

definition example_update_run :: "(status_code \<times> build_state \<times> graph_publication) option" where
  "example_update_run =
     gu_prepare_publish new_source_manager example_node_source new_string_registry example_node_strings
       example_update_members new_publication"

lemma graph_cancel_restores_witness:
  "map_option fst example_update_run = Some Ok \<and>
   committed_graph (bs_graph (fst (gu_cancel (fst (snd (the example_update_run))) (snd (snd (the example_update_run)))))) =
   committed_graph (bs_graph example_update_members)"
proof
  show ok: "map_option fst example_update_run = Some Ok" by code_simp
  then obtain t q where run: "example_update_run = Some (Ok, t, q)" by auto
  have "\<not> gp_owner_growth new_publication" "\<not> gu_committed (bs_update example_update_members)" by code_simp+
  then have "committed_graph (bs_graph (fst (gu_cancel t q))) = committed_graph (bs_graph example_update_members)"
    by (rule graph_cancel_restores [OF run [unfolded example_update_run_def]])
  then show "committed_graph (bs_graph (fst (gu_cancel (fst (snd (the example_update_run))) (snd (snd (the example_update_run)))))) =
   committed_graph (bs_graph example_update_members)"
    unfolding run option.sel fst_conv snd_conv .
qed

end
