(* ===== verification/Lexer.thy ===== *)
theory Lexer
  imports Prelude
begin

text \<open>
  The lexer: \<^verbatim>\<open>parser/token.hpp\<close>, \<^verbatim>\<open>parser/lexer.hpp\<close> and \<^verbatim>\<open>parser/lexer.cpp\<close>. The index
  loop over the Source bytes is a recursion over the bytes that are left, with the index of
  the first of them. A rejected Source is an offset and a length, the range of the
  diagnostic. Offsets are \<open>nat\<close>: the size check makes every 32-bit cast the identity, and
  the casts are kept as \<open>cast_u32\<close>.
\<close>

section \<open>Tokens\<close>

datatype parser_token_kind =
    Tk_eof
  | Tk_identifier
  | Tk_integer_literal
  | Tk_keyword_namespace
  | Tk_keyword_enum
  | Tk_keyword_class
  | Tk_keyword_struct
  | Tk_string_literal
  | Tk_punctuation

datatype parser_punctuation =
    P_none
  | P_left_brace
  | P_right_brace
  | P_semicolon
  | P_colon
  | P_comma
  | P_equal
  | P_plus
  | P_minus
  | P_hash
  | P_ampersand
  | P_asterisk
  | P_left_bracket
  | P_right_bracket

record parser_token =
  token_offset :: nat
  token_length :: nat
  token_kind :: parser_token_kind
  token_punctuation :: parser_punctuation
  token_flags :: nat

record directive_span =
  directive_token_begin :: nat
  directive_token_end :: nat

section \<open>Character classes\<close>

definition identifier_start :: "char \<Rightarrow> bool" where
  "identifier_start c \<longleftrightarrow>
     (let v = of_char c :: nat in (97 \<le> v \<and> v \<le> 122) \<or> (65 \<le> v \<and> v \<le> 90) \<or> v = 95)"

definition decimal_digit :: "char \<Rightarrow> bool" where
  "decimal_digit c \<longleftrightarrow> (let v = of_char c :: nat in 48 \<le> v \<and> v \<le> 57)"

definition identifier_kind :: "string \<Rightarrow> parser_token_kind" where
  "identifier_kind text =
     (if text = ''namespace'' then Tk_keyword_namespace
      else if text = ''enum'' then Tk_keyword_enum
      else if text = ''class'' then Tk_keyword_class
      else if text = ''struct'' then Tk_keyword_struct
      else Tk_identifier)"

definition punctuation_of :: "char \<Rightarrow> parser_punctuation option" where
  "punctuation_of c =
     (if c = CHR ''{'' then Some P_left_brace
      else if c = CHR ''}'' then Some P_right_brace
      else if c = CHR '';'' then Some P_semicolon
      else if c = CHR '':'' then Some P_colon
      else if c = CHR '','' then Some P_comma
      else if c = CHR ''='' then Some P_equal
      else if c = CHR ''+'' then Some P_plus
      else if c = CHR ''-'' then Some P_minus
      else if c = CHR ''#'' then Some P_hash
      else if c = CHR ''&'' then Some P_ampersand
      else if c = CHR ''*'' then Some P_asterisk
      else if c = CHR ''['' then Some P_left_bracket
      else if c = CHR '']'' then Some P_right_bracket
      else None)"

abbreviation newline :: char where "newline \<equiv> CHR 0x0A"

definition blank :: "char \<Rightarrow> bool" where
  "blank c \<longleftrightarrow> c = CHR '' '' \<or> c = CHR 0x09 \<or> c = CHR 0x0D"

section \<open>Scanning\<close>

text \<open>
  The body of a block comment: the new line-start flag, the bytes it takes with its
  terminator, and the bytes after it. \<open>None\<close> is a comment that does not end.
\<close>

fun block_comment :: "bool \<Rightarrow> char list \<Rightarrow> (bool \<times> nat \<times> char list) option" where
  "block_comment line_start (a # b # rest) =
     (if a = CHR ''*'' \<and> b = CHR ''/'' then Some (line_start, 2, rest)
      else case block_comment (line_start \<or> a = newline) (b # rest) of
             None \<Rightarrow> None
           | Some (ls, n, rest') \<Rightarrow> Some (ls, n + 1, rest'))"
| "block_comment line_start _ = None"

text \<open>
  One token whose first byte is \<open>c\<close> at \<open>start\<close>: its kind, punctuation and text, or the range
  of the rejection. The bytes after the text are left.
\<close>

definition lex_token ::
    "nat \<Rightarrow> char \<Rightarrow> char list
     \<Rightarrow> (nat \<times> nat) + (parser_token_kind \<times> parser_punctuation \<times> char list)" where
  "lex_token start c rest =
     (if identifier_start c then
        (let text = c # takeWhile (\<lambda>d. identifier_start d \<or> decimal_digit d) rest
         in Inr (identifier_kind text, P_none, text))
      else if decimal_digit c then
        Inr (Tk_integer_literal, P_none, c # takeWhile decimal_digit rest)
      else if c = CHR 0x22 then
        (let body = takeWhile (\<lambda>d. d \<noteq> CHR 0x22 \<and> d \<noteq> newline) rest in
         case drop (length body) rest of
           [] \<Rightarrow> Inl (start, length body + 1)
         | d # _ \<Rightarrow> if d \<noteq> CHR 0x22 then Inl (start, length body + 1)
                    else Inr (Tk_string_literal, P_none, c # body @ [d]))
      else
        case punctuation_of c of
          None \<Rightarrow> Inl (start, 1)
        | Some p \<Rightarrow> Inr (Tk_punctuation, p, [c]))"

record lex_state =
  lx_line_start :: bool
  lx_directive_open :: bool
  lx_directive_begin :: nat
  lx_output :: "parser_token list"
  lx_directives :: "directive_span list"

definition close_directive :: "bool \<Rightarrow> lex_state \<Rightarrow> lex_state" where
  "close_directive want s =
     (if lx_directive_open s \<and> want
      then s\<lparr>lx_directives := lx_directives s @
               [\<lparr>directive_token_begin = lx_directive_begin s,
                 directive_token_end = cast_u32 (length (lx_output s))\<rparr>]\<rparr>
      else s)"

definition push_token ::
    "bool \<Rightarrow> nat \<Rightarrow> parser_token_kind \<times> parser_punctuation \<times> char list \<Rightarrow> lex_state \<Rightarrow> lex_state" where
  "push_token want start lexeme s =
     (case lexeme of (kind, punctuation, text) \<Rightarrow>
        let token = \<lparr>token_offset = cast_u32 start, token_length = cast_u32 (length text),
                     token_kind = kind, token_punctuation = punctuation,
                     token_flags = (if lx_line_start s then 1 else 0)\<rparr>;
            s = s\<lparr>lx_line_start := False\<rparr>;
            s = (if punctuation = P_hash \<and> token_flags token \<noteq> 0 \<and> want
                 then s\<lparr>lx_directive_begin := cast_u32 (length (lx_output s)), lx_directive_open := True\<rparr>
                 else s)
        in s\<lparr>lx_output := lx_output s @ [token]\<rparr>)"

lemma block_comment_length:
  "block_comment ls xs = Some (ls', n, r) \<Longrightarrow> length xs = n + length r \<and> 2 \<le> n"
  by (induction ls xs arbitrary: ls' n r rule: block_comment.induct)
    (auto split: if_splits option.splits)

text \<open>The loop; \<open>want\<close> says whether the caller asked for the directives.\<close>

function lex_loop :: "bool \<Rightarrow> nat \<Rightarrow> char list \<Rightarrow> lex_state \<Rightarrow> (nat \<times> nat) option \<times> lex_state" where
  "lex_loop want index [] s = (None, s)"
| "lex_loop want index (c # rest) s =
     (if blank c then lex_loop want (index + 1) rest s
      else if c = newline then
        lex_loop want (index + 1) rest
          ((close_directive want s)\<lparr>lx_directive_open := False, lx_line_start := True\<rparr>)
      else if c = CHR ''/'' \<and> rest \<noteq> [] \<and> hd rest = CHR ''/'' then
        (let body = takeWhile (\<lambda>d. d \<noteq> newline) (tl rest) in
         lex_loop want (index + 2 + length body) (drop (length body) (tl rest)) s)
      else if c = CHR ''/'' \<and> rest \<noteq> [] \<and> hd rest = CHR ''*'' then
        (case block_comment (lx_line_start s) (tl rest) of
           None \<Rightarrow> (Some (index, length (c # rest)), s)
         | Some (line_start, n, rest') \<Rightarrow>
             lex_loop want (index + 2 + n) rest' (s\<lparr>lx_line_start := line_start\<rparr>))
      else
        case lex_token index c rest of
          Inl failed \<Rightarrow> (Some failed, s)
        | Inr (kind, punctuation, text) \<Rightarrow>
            lex_loop want (index + length text) (drop (length text - 1) rest)
              (push_token want index (kind, punctuation, text) s))"
  by pat_completeness auto
termination
  by (relation "measure (\<lambda>(want, index, src, s). length src)")
    (auto dest: block_comment_length simp: neq_Nil_conv)

definition initial_lex_state :: lex_state where
  "initial_lex_state =
     \<lparr>lx_line_start = True, lx_directive_open = False, lx_directive_begin = 0,
      lx_output = [], lx_directives = []\<rparr>"

text \<open>
  The whole routine, for the bytes of a Source. \<open>mem\<close> says that no append to the outputs
  throws, \<open>emitted\<close> that the diagnostic could be emitted. The result is the status, the
  tokens, the directives, and the range of the diagnostic of a rejection.
\<close>

definition lex_source ::
    "bool \<Rightarrow> bool \<Rightarrow> bool \<Rightarrow> char list
     \<Rightarrow> status_code \<times> parser_token list \<times> directive_span list \<times> (nat \<times> nat) option" where
  "lex_source mem emitted want src =
     (let failed = (\<lambda>where_failed out dirs. if emitted then (Configuration_failed, out, dirs, Some where_failed)
                                     else (Initialization_failed, out, dirs, None)) in
      if length src > u32_max then failed (0, 0) [] []
      else if \<not> mem then (Initialization_failed, [], [], None)
      else
        case lex_loop want 0 src initial_lex_state of
          (Some where_failed, s) \<Rightarrow> failed where_failed (lx_output s) (lx_directives s)
        | (None, s) \<Rightarrow>
            (Ok,
             lx_output s @ [\<lparr>token_offset = cast_u32 (length src), token_length = 0,
                            token_kind = Tk_eof, token_punctuation = P_none, token_flags = 0\<rparr>],
             lx_directives (close_directive want s), None))"

section \<open>The lexical grammar\<close>

text \<open>
  The reference: one piece of white space or one comment, \<open>trivium u rest\<close>, a run of them,
  and a token text, each with what follows it, because an identifier, an integer and a line
  comment extend as far as they can.
\<close>

fun no_close :: "char list \<Rightarrow> bool" where
  "no_close (a # b # r) \<longleftrightarrow> \<not> (a = CHR ''*'' \<and> b = CHR ''/'') \<and> no_close (b # r)"
| "no_close _ \<longleftrightarrow> True"

inductive trivium :: "char list \<Rightarrow> char list \<Rightarrow> bool" where
  white: "blank c \<or> c = newline \<Longrightarrow> trivium [c] rest"
| line_comment: "newline \<notin> set body \<Longrightarrow> rest = [] \<or> hd rest = newline \<Longrightarrow>
     trivium (CHR ''/'' # CHR ''/'' # body) rest"
| block_comment: "no_close body \<Longrightarrow>
     trivium (CHR ''/'' # CHR ''*'' # body @ [CHR ''*'', CHR ''/'']) rest"

inductive trivia :: "char list \<Rightarrow> char list \<Rightarrow> bool" for tail :: "char list" where
  trivia_Nil: "trivia tail []"
| trivia_step: "trivium u (g @ tail) \<Longrightarrow> trivia tail g \<Longrightarrow> trivia tail (u @ g)"

definition word_char :: "char \<Rightarrow> bool" where
  "word_char c \<longleftrightarrow> identifier_start c \<or> decimal_digit c"

inductive lexeme :: "parser_token_kind \<Rightarrow> parser_punctuation \<Rightarrow> char list \<Rightarrow> char list \<Rightarrow> bool" where
  word: "identifier_start c \<Longrightarrow> list_all word_char cs \<Longrightarrow> rest = [] \<or> \<not> word_char (hd rest) \<Longrightarrow>
     lexeme (identifier_kind (c # cs)) P_none (c # cs) rest"
| number: "decimal_digit c \<Longrightarrow> list_all decimal_digit cs \<Longrightarrow> rest = [] \<or> \<not> decimal_digit (hd rest) \<Longrightarrow>
     lexeme Tk_integer_literal P_none (c # cs) rest"
| quoted: "list_all (\<lambda>d. d \<noteq> CHR 0x22 \<and> d \<noteq> newline) body \<Longrightarrow>
     lexeme Tk_string_literal P_none (CHR 0x22 # body @ [CHR 0x22]) rest"
| sign: "punctuation_of c = Some p \<Longrightarrow> lexeme Tk_punctuation p [c] rest"

text \<open>
  A token list lays out the bytes from index \<open>i\<close>: trivia, a token, trivia, a token, and so
  on, with nothing left over. Bit 0 of the flags says that a line begins before the token.
\<close>

fun layout :: "bool \<Rightarrow> nat \<Rightarrow> char list \<Rightarrow> parser_token list \<Rightarrow> bool" where
  "layout line_start i src [] \<longleftrightarrow> trivia [] src"
| "layout line_start i src (t # ts) \<longleftrightarrow>
     (\<exists>g l r. src = g @ l @ r \<and> trivia (l @ r) g \<and> lexeme (token_kind t) (token_punctuation t) l r \<and>
        token_offset t = i + length g \<and> token_length t = length l \<and>
        token_flags t = (if line_start \<or> newline \<in> set g then 1 else 0) \<and>
        layout False (i + length g + length l) r ts)"

lemma layout_skip:
  assumes "trivium u src" "layout (ls \<or> newline \<in> set u) (i + length u) src ts"
  shows "layout ls i (u @ src) ts"
proof (cases ts)
  case Nil
  with assms trivia_step [of u src "[]"] show ?thesis by simp
next
  case (Cons t ts')
  with assms(2) obtain g l r where g: "src = g @ l @ r" "trivia (l @ r) g"
    "lexeme (token_kind t) (token_punctuation t) l r" "token_offset t = i + length u + length g"
    "token_length t = length l"
    "token_flags t = (if (ls \<or> newline \<in> set u) \<or> newline \<in> set g then 1 else 0)"
    "layout False (i + length u + length g + length l) r ts'" by auto
  have "trivia (l @ r) (u @ g)" using assms(1) g(1,2) trivia_step by simp
  with g show ?thesis
    unfolding Cons layout.simps
    by - (rule exI [of _ "u @ g"], rule exI [of _ l], rule exI [of _ r], simp add: add.assoc)
qed

section \<open>The scanners follow the grammar\<close>

lemma block_comment_Some:
  "block_comment ls xs = Some (ls', n, r) \<Longrightarrow>
   \<exists>body. xs = body @ CHR ''*'' # CHR ''/'' # r \<and> no_close body \<and> n = length body + 2 \<and>
     (ls' \<longleftrightarrow> ls \<or> newline \<in> set body)"
proof (induction ls xs arbitrary: ls' n r rule: block_comment.induct)
  case (1 ls a b rest)
  show ?case
  proof (cases "a = CHR ''*'' \<and> b = CHR ''/''")
    case True
    with 1 show ?thesis by (intro exI [of _ "[]"]) auto
  next
    case False
    then obtain n' where n': "block_comment (ls \<or> a = newline) (b # rest) = Some (ls', n', r)" "n = n' + 1"
      using 1 by (auto split: option.splits)
    from 1(1) [OF False n'(1)] obtain body where body:
      "b # rest = body @ CHR ''*'' # CHR ''/'' # r" "no_close body" "n' = length body + 2"
      "ls' \<longleftrightarrow> (ls \<or> a = newline) \<or> newline \<in> set body" by blast
    have "no_close (a # body)" using body(1,2) False by (cases body) auto
    with body n' show ?thesis by (intro exI [of _ "a # body"]) auto
  qed
qed auto

lemma block_comment_body:
  "no_close body \<Longrightarrow> block_comment ls (body @ CHR ''*'' # CHR ''/'' # r) =
     Some (ls \<or> newline \<in> set body, length body + 2, r)"
proof (induction body arbitrary: ls rule: no_close.induct)
  case (1 a b body)
  then show ?case by (auto simp: disj_assoc)
qed auto

lemma lex_token_sound:
  assumes "lex_token start c rest = Inr (kind, p, text)"
  shows "lexeme kind p text (drop (length text - 1) rest) \<and> c # rest = text @ drop (length text - 1) rest"
proof -
  let ?w = "\<lambda>d. identifier_start d \<or> decimal_digit d"
  have w: "?w = word_char" by (simp add: fun_eq_iff word_char_def)
  consider "identifier_start c" | "\<not> identifier_start c" "decimal_digit c"
    | "\<not> identifier_start c" "\<not> decimal_digit c" "c = CHR 0x22"
    | "\<not> identifier_start c" "\<not> decimal_digit c" "c \<noteq> CHR 0x22" by blast
  then show ?thesis
  proof cases
    case 1
    then have t: "kind = identifier_kind text" "p = P_none" "text = c # takeWhile word_char rest"
      using assms by (auto simp: lex_token_def Let_def w)
    show ?thesis
      unfolding t by (simp add: drop_takeWhile lexeme.word [OF 1 list_all_takeWhile dropWhile_stop])
  next
    case 2
    then have t: "kind = Tk_integer_literal" "p = P_none" "text = c # takeWhile decimal_digit rest"
      using assms by (auto simp: lex_token_def)
    show ?thesis
      unfolding t by (simp add: drop_takeWhile lexeme.number [OF 2(2) list_all_takeWhile dropWhile_stop])
  next
    case 3
    let ?q = "\<lambda>d. d \<noteq> CHR 0x22 \<and> d \<noteq> newline"
    obtain r where r: "dropWhile ?q rest = CHR 0x22 # r" "kind = Tk_string_literal" "p = P_none"
      "text = c # takeWhile ?q rest @ [CHR 0x22]"
      using assms 3 by (auto simp: lex_token_def Let_def drop_takeWhile split: list.splits if_splits)
    have rest: "rest = takeWhile ?q rest @ CHR 0x22 # r" using takeWhile_dropWhile_id [of ?q rest] r(1) by simp
    have "drop (length text - 1) rest = drop (length (takeWhile ?q rest) + 1) (takeWhile ?q rest @ CHR 0x22 # r)"
      using rest r(4) by simp
    then have "drop (length text - 1) rest = r" by simp
    then show ?thesis
      unfolding r(2,3,4) using rest quoted [OF list_all_takeWhile [of ?q rest], of r] 3 by simp
  next
    case 4
    then show ?thesis
      using assms by (auto simp: lex_token_def sign split: option.splits)
  qed
qed


section \<open>The loop follows the grammar\<close>

lemma close_directive_same [simp]:
  "lx_output (close_directive want s) = lx_output s"
  "lx_line_start (close_directive want s) = lx_line_start s"
  by (simp_all add: close_directive_def)

lemma push_token_line_start [simp]: "lx_line_start (push_token want i x s) = False"
  by (simp add: push_token_def Let_def split: prod.splits)

lemma push_token_output:
  "lx_output (push_token want i (k, p, l) s) = lx_output s @
     [\<lparr>token_offset = cast_u32 i, token_length = cast_u32 (length l), token_kind = k,
       token_punctuation = p, token_flags = (if lx_line_start s then 1 else 0)\<rparr>]"
  by (simp add: push_token_def Let_def)

lemma char_classes:
  "\<not> identifier_start (CHR 0x22)" "\<not> decimal_digit (CHR 0x22)" "\<not> identifier_start (CHR ''/'')"
  "\<not> decimal_digit (CHR ''/'')" "\<not> identifier_start newline" "\<not> decimal_digit newline"
  "blank c \<Longrightarrow> \<not> identifier_start c" "blank c \<Longrightarrow> \<not> decimal_digit c"
  "punctuation_of c = Some p \<Longrightarrow> \<not> identifier_start c \<and> \<not> decimal_digit c \<and> c \<noteq> CHR 0x22"
  by (auto simp: identifier_start_def decimal_digit_def blank_def punctuation_of_def Let_def
      split: if_splits)

lemma lexeme_first:
  assumes "lexeme k p l rest"
  obtains c cs where "l = c # cs" "\<not> blank c" "c \<noteq> newline" "c \<noteq> CHR ''/''"
    "lex_token i c (cs @ rest) = Inr (k, p, l)"
  using assms
proof cases
  case (word c cs)
  have w: "(\<lambda>d. identifier_start d \<or> decimal_digit d) = word_char" by (simp add: fun_eq_iff word_char_def)
  show thesis
  proof (rule that [of c cs])
    show "lex_token i c (cs @ rest) = Inr (k, p, l)"
      using word by (simp add: lex_token_def w takeWhile_eq_all Let_def)
  qed (use word char_classes in auto)
next
  case (number c cs)
  have n: "\<not> identifier_start c"
    using number(4) by (auto simp: identifier_start_def decimal_digit_def Let_def)
  show thesis
  proof (rule that [of c cs])
    show "lex_token i c (cs @ rest) = Inr (k, p, l)"
      using number n by (simp add: lex_token_def takeWhile_eq_all)
  qed (use number char_classes in auto)
next
  case (quoted body)
  have tw: "takeWhile (\<lambda>d. d \<noteq> CHR 0x22 \<and> d \<noteq> newline) (body @ CHR 0x22 # rest) = body"
    using quoted(4) by (intro takeWhile_eq_all) auto
  show thesis
  proof (rule that [of "CHR 0x22" "body @ [CHR 0x22]"])
    show "lex_token i (CHR 0x22) ((body @ [CHR 0x22]) @ rest) = Inr (k, p, l)"
      using quoted tw char_classes by (simp add: lex_token_def)
  qed (use quoted in \<open>auto simp: blank_def\<close>)
next
  case (sign c)
  show thesis
  proof (rule that [of c "[]"])
    show "lex_token i c ([] @ rest) = Inr (k, p, l)"
      using sign char_classes(9) [OF sign(3)] by (simp add: lex_token_def)
  qed (use sign in \<open>auto simp: punctuation_of_def blank_def split: if_splits\<close>)
qed

lemma lex_loop_lexeme:
  assumes "lexeme k p l rest"
  shows "lex_loop want i (l @ rest) s = lex_loop want (i + length l) rest (push_token want i (k, p, l) s)"
proof -
  obtain c cs where "l = c # cs" "\<not> blank c" "c \<noteq> newline" "c \<noteq> CHR ''/''"
    "lex_token i c (cs @ rest) = Inr (k, p, l)"
    using assms by (rule lexeme_first)
  then show ?thesis by simp
qed

lemma lex_loop_trivium:
  assumes "trivium u rest"
  shows "\<exists>s'. lex_loop want i (u @ rest) s = lex_loop want (i + length u) rest s' \<and>
     lx_output s' = lx_output s \<and> (lx_line_start s' \<longleftrightarrow> lx_line_start s \<or> newline \<in> set u)"
  using assms
proof cases
  case (white c)
  show ?thesis
  proof (cases "blank c")
    case True
    then have "c \<noteq> newline" by (auto simp: blank_def)
    with True white show ?thesis by (intro exI [of _ s]) simp
  next
    case False
    with white have "u = [newline]" "\<not> blank newline" by (auto simp: blank_def)
    then show ?thesis
      by (intro exI [of _ "(close_directive want s)\<lparr>lx_directive_open := False, lx_line_start := True\<rparr>"]) simp
  qed
next
  case (line_comment body)
  have "takeWhile (\<lambda>d. d \<noteq> newline) (body @ rest) = body"
    using line_comment by (intro takeWhile_eq_all) (auto simp: list_all_iff)
  then show ?thesis
    using line_comment by (intro exI [of _ s]) (simp add: blank_def)
next
  case (block_comment body)
  have "Lexer.block_comment (lx_line_start s) (body @ CHR ''*'' # CHR ''/'' # rest) =
      Some (lx_line_start s \<or> newline \<in> set body, length body + 2, rest)"
    by (rule block_comment_body) (rule block_comment)
  then show ?thesis
    using block_comment
    by (intro exI [of _ "s\<lparr>lx_line_start := lx_line_start s \<or> newline \<in> set body\<rparr>"]) (simp add: blank_def)
qed

lemma lex_loop_trivia:
  assumes "trivia tail g"
  shows "\<exists>s'. lex_loop want i (g @ tail) s = lex_loop want (i + length g) tail s' \<and>
     lx_output s' = lx_output s \<and> (lx_line_start s' \<longleftrightarrow> lx_line_start s \<or> newline \<in> set g)"
  using assms
proof (induction arbitrary: i s)
  case (trivia_step u g)
  obtain s1 where s1: "lex_loop want i (u @ g @ tail) s = lex_loop want (i + length u) (g @ tail) s1"
    "lx_output s1 = lx_output s" "lx_line_start s1 \<longleftrightarrow> lx_line_start s \<or> newline \<in> set u"
    using lex_loop_trivium [OF trivia_step(1), of want i s] by auto
  obtain s2 where "lex_loop want (i + length u) (g @ tail) s1 = lex_loop want (i + length u + length g) tail s2"
    "lx_output s2 = lx_output s1" "lx_line_start s2 \<longleftrightarrow> lx_line_start s1 \<or> newline \<in> set g"
    using trivia_step.IH [of "i + length u" s1] by auto
  with s1 show ?case by (intro exI [of _ s2]) (auto simp: add.assoc)
qed auto

text \<open>Every source with a layout is accepted, with that layout.\<close>

lemma lex_loop_complete:
  "layout (lx_line_start s) i src ts \<Longrightarrow> i + length src \<le> u32_max \<Longrightarrow>
   \<exists>s'. lex_loop want i src s = (None, s') \<and> lx_output s' = lx_output s @ ts"
proof (induction ts arbitrary: i src s)
  case Nil
  then obtain s' where "lex_loop want i (src @ []) s = lex_loop want (i + length src) [] s'"
    "lx_output s' = lx_output s"
    using lex_loop_trivia [of "[]" src want i s] by auto
  then show ?case by auto
next
  case (Cons t ts)
  from Cons.prems(1) obtain g l r where g: "src = g @ l @ r" "trivia (l @ r) g"
    "lexeme (token_kind t) (token_punctuation t) l r" "token_offset t = i + length g"
    "token_length t = length l" "token_flags t = (if lx_line_start s \<or> newline \<in> set g then 1 else 0)"
    "layout False (i + length g + length l) r ts" by auto
  obtain s1 where s1: "lex_loop want i src s = lex_loop want (i + length g) (l @ r) s1"
    "lx_output s1 = lx_output s" "lx_line_start s1 \<longleftrightarrow> lx_line_start s \<or> newline \<in> set g"
    using lex_loop_trivia [OF g(2), of want i s] g(1) by auto
  let ?s2 = "push_token want (i + length g) (token_kind t, token_punctuation t, l) s1"
  have "lx_output ?s2 = lx_output s @ [t]"
    using g s1 Cons.prems(2) by (cases t) (simp add: push_token_output)
  moreover obtain s' where "lex_loop want (i + length g + length l) r ?s2 = (None, s')"
    "lx_output s' = lx_output ?s2 @ ts"
    using Cons.IH [of ?s2 "i + length g + length l" r] g Cons.prems(2) by auto
  ultimately show ?case
    using s1(1) lex_loop_lexeme [OF g(3), of want "i + length g" s1] by auto
qed

text \<open>Every accepted source has a layout: the returned tokens.\<close>

lemma lex_loop_sound:
  "lex_loop want i src s = (None, s') \<Longrightarrow> i + length src \<le> u32_max \<Longrightarrow>
   \<exists>ts. lx_output s' = lx_output s @ ts \<and> layout (lx_line_start s) i src ts"
proof (induction "length src" arbitrary: i src s rule: less_induct)
  case less
  have skip: ?case if u: "trivium u rest" "src = u @ rest" "u \<noteq> []" for u rest
  proof -
    obtain s1 where s1: "lex_loop want i src s = lex_loop want (i + length u) rest s1"
      "lx_output s1 = lx_output s" "lx_line_start s1 \<longleftrightarrow> lx_line_start s \<or> newline \<in> set u"
      using lex_loop_trivium [OF u(1), of want i s] u(2) by auto
    obtain ts where "lx_output s' = lx_output s1 @ ts" "layout (lx_line_start s1) (i + length u) rest ts"
      using less(1) [of rest "i + length u" s1] less(2,3) s1(1) u by auto
    with s1 show ?thesis using layout_skip [OF u(1)] u(2) by auto
  qed
  show ?case
  proof (cases src)
    case Nil
    with less(2) show ?thesis using trivia_Nil by (intro exI [of _ "[]"]) auto
  next
    case (Cons c rest)
    consider "blank c \<or> c = newline" | "\<not> blank c" "c \<noteq> newline" "c = CHR ''/''" "rest \<noteq> []" "hd rest = CHR ''/''"
      | "\<not> blank c" "c \<noteq> newline" "c = CHR ''/''" "rest \<noteq> []" "hd rest = CHR ''*''"
      | (token) "\<not> blank c" "c \<noteq> newline"
        "\<not> (c = CHR ''/'' \<and> rest \<noteq> [] \<and> (hd rest = CHR ''/'' \<or> hd rest = CHR ''*''))" by blast
    then show ?thesis
    proof cases
      case 1
      then show ?thesis using skip [OF trivium.white, of c rest] Cons by simp
    next
      case 2
      then obtain rest' where rest: "rest = CHR ''/'' # rest'" by (cases rest) auto
      let ?b = "takeWhile (\<lambda>d. d \<noteq> newline) rest'" and ?r = "dropWhile (\<lambda>d. d \<noteq> newline) rest'"
      have "trivium (CHR ''/'' # CHR ''/'' # ?b) ?r"
        using dropWhile_stop [of "\<lambda>d. d \<noteq> newline" rest']
        by (intro trivium.line_comment) (auto dest: set_takeWhileD)
      then show ?thesis by (rule skip) (simp_all add: Cons 2 rest)
    next
      case 3
      then obtain rest' where rest: "rest = CHR ''*'' # rest'" by (cases rest) auto
      obtain ls n r where b: "Lexer.block_comment (lx_line_start s) rest' = Some (ls, n, r)"
        using less(2) 3 by (auto simp: Cons rest blank_def split: option.splits)
      obtain body where body: "rest' = body @ CHR ''*'' # CHR ''/'' # r" "no_close body"
        using block_comment_Some [OF b] by blast
      have "trivium (CHR ''/'' # CHR ''*'' # body @ [CHR ''*'', CHR ''/'']) r"
        using body(2) by (rule trivium.block_comment)
      then show ?thesis by (rule skip) (simp_all add: Cons 3 rest body(1))
    next
      case token
      then obtain k p tx where tok: "lex_token i c rest = Inr (k, p, tx)"
        using less(2) by (auto simp: Cons split: sum.splits)
      let ?r = "drop (length tx - 1) rest"
      have L: "lexeme k p tx ?r" "c # rest = tx @ ?r" using lex_token_sound [OF tok] by auto
      then have ne: "tx \<noteq> []" by (auto elim: lexeme.cases)
      have len: "length src = length tx + length ?r" using L(2) Cons by (metis length_append)
      have run: "lex_loop want i src s = lex_loop want (i + length tx) ?r (push_token want i (k, p, tx) s)"
        using lex_loop_lexeme [OF L(1), of want i s] L(2) Cons by simp
      obtain ts where ts: "lx_output s' = lx_output (push_token want i (k, p, tx) s) @ ts"
        "layout False (i + length tx) ?r ts"
        using less(1) [of ?r "i + length tx" "push_token want i (k, p, tx) s"] less(2,3) run len ne by auto
      let ?t = "\<lparr>token_offset = i, token_length = length tx, token_kind = k, token_punctuation = p,
          token_flags = (if lx_line_start s then 1 else 0)\<rparr>"
      have "lx_output s' = lx_output s @ ?t # ts"
        using ts(1) less(3) len by (simp add: push_token_output)
      moreover have "layout (lx_line_start s) i src (?t # ts)"
        unfolding layout.simps
        by (rule exI [of _ "[]"], rule exI [of _ tx], rule exI [of _ ?r])
          (use L ts(2) Cons trivia_Nil in simp)
      ultimately show ?thesis by blast
    qed
  qed
qed


section \<open>Rejections and directives\<close>

lemma lex_token_length:
  assumes "lex_token i c rest = Inr (k, p, l)"
  shows "i + length l + length (drop (length l - 1) rest) = i + length (c # rest)"
proof -
  have "c # rest = l @ drop (length l - 1) rest" using lex_token_sound [OF assms] by blast
  then have "length (c # rest) = length l + length (drop (length l - 1) rest)" by (metis length_append)
  then show ?thesis by linarith
qed

lemma lex_token_failed:
  "lex_token start c rest = Inl (a, n) \<Longrightarrow> a = start \<and> 0 < n \<and> n \<le> Suc (length rest)"
  using length_takeWhile_le [of "\<lambda>d. d \<noteq> CHR 0x22 \<and> d \<noteq> newline" rest]
  by (auto simp: lex_token_def Let_def split: if_splits option.splits list.splits)

lemma lex_loop_failed:
  "lex_loop want i src s = (Some (a, n), s') \<Longrightarrow> i \<le> a \<and> 0 < n \<and> a + n \<le> i + length src"
proof (induction want i src s arbitrary: s' rule: lex_loop.induct)
  case (2 want i c rest s)
  consider "blank c \<or> c = newline" | "\<not> blank c" "c \<noteq> newline" "c = CHR ''/''" "rest \<noteq> []" "hd rest = CHR ''/''"
    | "\<not> blank c" "c \<noteq> newline" "c = CHR ''/''" "rest \<noteq> []" "hd rest = CHR ''*''"
    | (token) "\<not> blank c" "c \<noteq> newline"
      "\<not> (c = CHR ''/'' \<and> rest \<noteq> [] \<and> hd rest = CHR ''/'')" "\<not> (c = CHR ''/'' \<and> rest \<noteq> [] \<and> hd rest = CHR ''*'')" by blast
  then show ?case
  proof cases
    case 1
    with 2 show ?thesis by (cases "blank c") fastforce+
  next
    case c2: 2
    let ?b = "takeWhile (\<lambda>d. d \<noteq> newline) (tl rest)"
    have "lex_loop want (i + 2 + length ?b) (drop (length ?b) (tl rest)) s = (Some (a, n), s')"
      using 2(6) c2 by (simp add: Let_def)
    with 2(3) [OF c2(1,2) _ refl] c2
    have "i + 2 + length ?b \<le> a \<and> 0 < n \<and> a + n \<le> i + 2 + length ?b + length (drop (length ?b) (tl rest))"
      by blast
    moreover have "length ?b \<le> length (tl rest)" by (rule length_takeWhile_le)
    ultimately show ?thesis using c2(4) by (cases rest) auto
  next
    case c3: 3
    show ?thesis
    proof (cases "block_comment (lx_line_start s) (tl rest)")
      case None
      with 2(6) c3 show ?thesis by auto
    next
      case (Some x)
      obtain ls m r where x: "x = (ls, m, r)" by (cases x) auto
      have run: "lex_loop want (i + 2 + m) r (s\<lparr>lx_line_start := ls\<rparr>) = (Some (a, n), s')"
        using 2(6) c3 Some by (simp add: x)
      have not2: "\<not> (c = CHR ''/'' \<and> rest \<noteq> [] \<and> hd rest = CHR ''/'')" using c3 by simp
      have "i + 2 + m \<le> a \<and> 0 < n \<and> a + n \<le> i + 2 + m + length r"
        by (rule 2(4) [OF c3(1,2) not2 conjI [OF c3(3) conjI [OF c3(4,5)]] Some [unfolded x] refl refl run])
      moreover have "length (tl rest) = m + length r" using block_comment_length [of _ "tl rest"] Some x by auto
      ultimately show ?thesis using c3(4) by (cases rest) auto
    qed
  next
    case token
    show ?thesis
    proof (cases "lex_token i c rest")
      case (Inl e)
      with 2(6) token lex_token_failed [of i c rest a n] show ?thesis by auto
    next
      case (Inr x)
      obtain k p l where x: "x = (k, p, l)" by (cases x) auto
      have run: "lex_loop want (i + length l) (drop (length l - 1) rest) (push_token want i (k, p, l) s) = (Some (a, n), s')"
        using 2(6) token Inr by (simp add: x)
      have "i + length l \<le> a \<and> 0 < n \<and> a + n \<le> i + length l + length (drop (length l - 1) rest)"
        by (rule 2(5) [OF token(1,2,3,4) Inr [unfolded x] refl refl run])
      then show ?thesis unfolding lex_token_length [OF Inr [unfolded x]] by simp
    qed
  qed
qed simp

definition line_hash :: "parser_token \<Rightarrow> bool" where
  "line_hash t \<longleftrightarrow> token_punctuation t = P_hash \<and> token_flags t \<noteq> 0"

definition span_of :: "parser_token list \<Rightarrow> directive_span \<Rightarrow> bool" where
  "span_of ts d \<longleftrightarrow> directive_token_begin d < directive_token_end d \<and>
     directive_token_end d \<le> length ts \<and> line_hash (ts ! directive_token_begin d)"

definition before :: "directive_span \<Rightarrow> directive_span \<Rightarrow> bool" where
  "before d d' \<longleftrightarrow> directive_token_end d \<le> directive_token_begin d'"

definition spans_ok :: "nat \<Rightarrow> lex_state \<Rightarrow> bool" where
  "spans_ok i s \<longleftrightarrow> length (lx_output s) \<le> i \<and> sorted_wrt before (lx_directives s) \<and>
     (\<forall>d\<in>set (lx_directives s). span_of (lx_output s) d) \<and>
     (lx_directive_open s \<longrightarrow>
        lx_directive_begin s < length (lx_output s) \<and> line_hash (lx_output s ! lx_directive_begin s) \<and>
        (\<forall>d\<in>set (lx_directives s). directive_token_end d \<le> lx_directive_begin s))"

lemma spans_ok_close:
  assumes "spans_ok i s" "i \<le> u32_max"
  shows "sorted_wrt before (lx_directives (close_directive want s)) \<and>
     (\<forall>d\<in>set (lx_directives (close_directive want s)). span_of (lx_output s) d)"
  using assms by (auto simp: spans_ok_def close_directive_def sorted_wrt_append before_def span_of_def)

lemma spans_ok_newline:
  "spans_ok i s \<Longrightarrow> i < u32_max \<Longrightarrow>
   spans_ok (i + 1) ((close_directive want s)\<lparr>lx_directive_open := False, lx_line_start := b\<rparr>)"
  using spans_ok_close [of i s want] by (simp add: spans_ok_def)

lemma spans_ok_later: "spans_ok i s \<Longrightarrow> i \<le> j \<Longrightarrow> spans_ok j s"
  by (simp add: spans_ok_def)

lemma spans_ok_skip: "spans_ok i s \<Longrightarrow> i \<le> j \<Longrightarrow> spans_ok j (s\<lparr>lx_line_start := b\<rparr>)"
  by (auto simp: spans_ok_def)

lemma span_of_snoc: "span_of ts d \<Longrightarrow> span_of (ts @ us) d"
  by (auto simp: span_of_def nth_append)

lemma spans_ok_push:
  assumes ok: "spans_ok i s" and i: "i \<le> u32_max" and l: "l \<noteq> []"
  shows "spans_ok (i + length l) (push_token want i (k, p, l) s)"
proof -
  let ?t = "\<lparr>token_offset = cast_u32 i, token_length = cast_u32 (length l), token_kind = k,
       token_punctuation = p, token_flags = (if lx_line_start s then 1 else 0)\<rparr>"
  let ?s = "push_token want i (k, p, l) s"
  have out: "lx_output ?s = lx_output s @ [?t]" by (rule push_token_output)
  have dirs: "lx_directives ?s = lx_directives s" by (simp add: push_token_def Let_def)
  have len: "length (lx_output s) \<le> i" using ok by (simp add: spans_ok_def)
  have n: "1 \<le> length l" using l by (cases l) simp_all
  have room: "Suc (length (lx_output s)) \<le> i + length l" using len n by linarith
  have spans: "\<forall>d\<in>set (lx_directives s). span_of (lx_output s @ [?t]) d"
    using ok by (auto simp: spans_ok_def intro: span_of_snoc)
  show ?thesis
  proof (cases "p = P_hash \<and> lx_line_start s \<and> want")
    case True
    then have "lx_directive_open ?s" and bg: "lx_directive_begin ?s = length (lx_output s)"
      using len i by (simp_all add: push_token_def Let_def)
    have ht: "line_hash ?t" using True by (simp add: line_hash_def)
    have "lx_directive_begin ?s < length (lx_output ?s) \<and> line_hash (lx_output ?s ! lx_directive_begin ?s)"
      unfolding out bg using ht by simp
    moreover have "\<forall>d\<in>set (lx_directives s). directive_token_end d \<le> length (lx_output s)"
      using ok by (simp add: spans_ok_def span_of_def)
    moreover have "sorted_wrt before (lx_directives s)" using ok by (simp add: spans_ok_def)
    moreover have "length (lx_output ?s) \<le> i + length l" unfolding out using room by simp
    ultimately show ?thesis
      unfolding spans_ok_def dirs bg using spans out by simp
  next
    case False
    then have "lx_directive_open ?s = lx_directive_open s" "lx_directive_begin ?s = lx_directive_begin s"
      by (auto simp: push_token_def Let_def)
    then show ?thesis
      using ok spans room by (auto simp: spans_ok_def out dirs nth_append)
  qed
qed

lemma lex_loop_spans:
  "lex_loop want i src s = (None, s') \<Longrightarrow> i + length src \<le> u32_max \<Longrightarrow> spans_ok i s \<Longrightarrow>
   spans_ok (i + length src) s'"
proof (induction want i src s arbitrary: s' rule: lex_loop.induct)
  case (2 want i c rest s)
  consider "blank c" | "\<not> blank c" "c = newline"
    | "\<not> blank c" "c \<noteq> newline" "c = CHR ''/''" "rest \<noteq> []" "hd rest = CHR ''/''"
    | "\<not> blank c" "c \<noteq> newline" "c = CHR ''/''" "rest \<noteq> []" "hd rest = CHR ''*''"
    | (token) "\<not> blank c" "c \<noteq> newline"
      "\<not> (c = CHR ''/'' \<and> rest \<noteq> [] \<and> hd rest = CHR ''/'')" "\<not> (c = CHR ''/'' \<and> rest \<noteq> [] \<and> hd rest = CHR ''*'')" by blast
  then show ?case
  proof cases
    case 1
    have "spans_ok (i + 1) s" using 2(8) by (rule spans_ok_later) simp
    with 2(1) [OF 1, of s'] 2(6,7) 1 show ?thesis by simp
  next
    case c: 2
    have "spans_ok (i + 1) ((close_directive want s)\<lparr>lx_directive_open := False, lx_line_start := True\<rparr>)"
      using 2(7,8) by (intro spans_ok_newline) simp_all
    with 2(2) [OF c, of s'] 2(6,7) c show ?thesis by simp
  next
    case c: 3
    let ?b = "takeWhile (\<lambda>d. d \<noteq> newline) (tl rest)"
    have run: "lex_loop want (i + 2 + length ?b) (drop (length ?b) (tl rest)) s = (None, s')"
      using 2(6) c by (simp add: Let_def)
    have len: "i + 2 + length ?b + length (drop (length ?b) (tl rest)) = i + length (c # rest)"
      using length_takeWhile_le [of "\<lambda>d. d \<noteq> newline" "tl rest"] c(4) by (cases rest) auto
    have "spans_ok (i + 2 + length ?b) s" using 2(8) by (rule spans_ok_later) simp
    then show ?thesis
      using 2(3) [OF c(1,2) conjI [OF c(3) conjI [OF c(4,5)]] refl run] 2(7) unfolding len by blast
  next
    case c: 4
    obtain ls m r where b: "block_comment (lx_line_start s) (tl rest) = Some (ls, m, r)"
      using 2(6) c by (auto split: option.splits)
    have run: "lex_loop want (i + 2 + m) r (s\<lparr>lx_line_start := ls\<rparr>) = (None, s')"
      using 2(6) c b by simp
    have not: "\<not> (c = CHR ''/'' \<and> rest \<noteq> [] \<and> hd rest = CHR ''/'')" using c by simp
    have len: "i + 2 + m + length r = i + length (c # rest)"
      using block_comment_length [OF b] c(4) by (cases rest) auto
    have "spans_ok (i + 2 + m) (s\<lparr>lx_line_start := ls\<rparr>)" using 2(8) by (rule spans_ok_skip) simp
    then show ?thesis
      using 2(4) [OF c(1,2) not conjI [OF c(3) conjI [OF c(4,5)]] b refl refl run] 2(7) unfolding len by blast
  next
    case token
    obtain k p l where tok: "lex_token i c rest = Inr (k, p, l)"
      using 2(6) token by (auto split: sum.splits)
    have run: "lex_loop want (i + length l) (drop (length l - 1) rest) (push_token want i (k, p, l) s) = (None, s')"
      using 2(6) token tok by simp
    have L: "c # rest = l @ drop (length l - 1) rest" "lexeme k p l (drop (length l - 1) rest)"
      using lex_token_sound [OF tok] by auto
    then have ne: "l \<noteq> []" by (auto elim: lexeme.cases)
    note len = lex_token_length [OF tok]
    have "spans_ok (i + length l) (push_token want i (k, p, l) s)"
      using 2(7,8) ne by (intro spans_ok_push) simp_all
    then show ?thesis
      using 2(5) [OF token(1,2,3,4) tok refl refl run] 2(7) unfolding len by blast
  qed
qed simp


section \<open>The routine\<close>

definition eof_token :: "nat \<Rightarrow> parser_token" where
  "eof_token at_end = \<lparr>token_offset = at_end, token_length = 0, token_kind = Tk_eof,
     token_punctuation = P_none, token_flags = 0\<rparr>"

lemma lex_source_run:
  assumes "length src \<le> u32_max"
  shows "lex_source True emitted want src =
    (case lex_loop want 0 src initial_lex_state of
       (Some failed, s) \<Rightarrow>
         if emitted then (Configuration_failed, lx_output s, lx_directives s, Some failed)
         else (Initialization_failed, lx_output s, lx_directives s, None)
     | (None, s) \<Rightarrow> (Ok, lx_output s @ [eof_token (length src)],
                        lx_directives (close_directive want s), None))"
  using assms by (simp add: lex_source_def eof_token_def Let_def split: prod.split option.split)

lemma initial_lex_state_simps [simp]:
  "lx_line_start initial_lex_state" "lx_output initial_lex_state = []"
  by (simp_all add: initial_lex_state_def)

lemma spans_ok_initial: "spans_ok 0 initial_lex_state"
  by (simp add: spans_ok_def initial_lex_state_def)

lemma lex_source_layout:
  assumes "length src \<le> u32_max"
  shows "(\<exists>dirs diag. lex_source True emitted want src = (Ok, out, dirs, diag)) \<longleftrightarrow>
    (\<exists>ts. layout True 0 src ts \<and> out = ts @ [eof_token (length src)])"
    (is "?accepted \<longleftrightarrow> ?layout")
proof
  assume ?accepted
  then obtain s where s: "lex_loop want 0 src initial_lex_state = (None, s)"
    "out = lx_output s @ [eof_token (length src)]"
    by (auto simp: lex_source_run [OF assms] split: prod.splits option.splits if_splits)
  from lex_loop_sound [OF s(1)] assms s(2) show ?layout by auto
next
  assume ?layout
  then obtain ts where ts: "layout True 0 src ts" "out = ts @ [eof_token (length src)]" by blast
  obtain s where "lex_loop want 0 src initial_lex_state = (None, s)" "lx_output s = ts"
    using lex_loop_complete [of initial_lex_state 0 src ts want] ts(1) assms by auto
  with ts(2) show ?accepted by (simp add: lex_source_run [OF assms])
qed

text \<open>C16: a Source is accepted exactly when it has a layout of tokens under the reference
  grammar, and the tokens returned are that layout followed by the end token at the end of
  the Source: kinds, punctuation, offsets, lengths and line-start flags. The layout of a
  Source is therefore unique.
\<close>

theorem lex_source_accepts_layout:
  assumes "length src \<le> u32_max"
  shows "(\<exists>dirs diag. lex_source True emitted want src = (Ok, out, dirs, diag)) \<longleftrightarrow>
    (\<exists>ts. layout True 0 src ts \<and> out = ts @ [eof_token (length src)])"
  by (rule lex_source_layout [OF assms])

theorem lex_source_accepts_layout_witness:
  "\<exists>ts. layout True 0 ''#ab/*x*/=12'' ts \<and>
     ts @ [eof_token 11] = fst (snd (lex_source True True True ''#ab/*x*/=12'')) \<and> length ts = 4"
proof -
  have short: "length ''#ab/*x*/=12'' \<le> u32_max" by code_simp
  obtain s out dirs diag where run: "lex_source True True True ''#ab/*x*/=12'' = (s, out, dirs, diag)"
    by (metis prod.exhaust)
  have "fst (lex_source True True True ''#ab/*x*/=12'') = Ok" by code_simp
  moreover have "length (fst (snd (lex_source True True True ''#ab/*x*/=12''))) = 5" by code_simp
  ultimately show ?thesis
    using lex_source_accepts_layout [OF short, of True True out] unfolding run by (auto simp: eval_nat_numeral)
qed

text \<open>C34: a Source is rejected with a diagnostic range inside it, at least one byte long, and
  only if it has no layout. A rejection that cannot be emitted is an initialization failure
  without a range.
\<close>

theorem lex_source_rejects:
  assumes "length src \<le> u32_max" "lex_source True emitted want src = (status, out, dirs, diag)"
    "status \<noteq> Ok"
  shows "(\<forall>ts. \<not> layout True 0 src ts) \<and>
    (if emitted then status = Configuration_failed \<and>
        (\<exists>a n. diag = Some (a, n) \<and> 0 < n \<and> a + n \<le> length src)
     else status = Initialization_failed \<and> diag = None)"
proof -
  obtain a n s where s: "lex_loop want 0 src initial_lex_state = (Some (a, n), s)"
    using assms(2,3) by (auto simp: lex_source_run [OF assms(1)] split: prod.splits option.splits)
  have "\<not> layout True 0 src ts" for ts
    using lex_loop_complete [of initial_lex_state 0 src ts want] s assms(1) by auto
  moreover have "0 < n \<and> a + n \<le> length src" using lex_loop_failed [OF s] by simp
  ultimately show ?thesis
    using assms(2) by (auto simp: lex_source_run [OF assms(1)] s)
qed

theorem lex_source_rejects_witness:
  "\<not> layout True 0 ''ab /*'' [] \<and> snd (snd (snd (lex_source True True True ''ab /*''))) = Some (3, 2)"
proof -
  obtain s out dirs diag where run: "lex_source True True True ''ab /*'' = (s, out, dirs, diag)"
    by (metis prod.exhaust)
  have "fst (lex_source True True True ''ab /*'') = Configuration_failed" by code_simp
  then have "s \<noteq> Ok" unfolding run by simp
  moreover have "length ''ab /*'' \<le> u32_max" by code_simp
  moreover have "snd (snd (snd (lex_source True True True ''ab /*''))) = Some (3, 2)" by code_simp
  ultimately show ?thesis using lex_source_rejects [OF _ run] by blast
qed

text \<open>When a Source is accepted the directive spans are non-empty, disjoint and in
  the order of the tokens, end inside the tokens, and each begins at a hash sign that is the first
  token of its line.
\<close>

theorem lex_source_directives:
  assumes "length src \<le> u32_max" "lex_source True emitted want src = (Ok, out, dirs, diag)"
  shows "sorted_wrt (\<lambda>d d'. directive_token_end d \<le> directive_token_begin d') dirs \<and>
    (\<forall>d\<in>set dirs. directive_token_begin d < directive_token_end d \<and>
       directive_token_end d < length out \<and>
       token_punctuation (out ! directive_token_begin d) = P_hash \<and>
       token_flags (out ! directive_token_begin d) \<noteq> 0)"
proof -
  obtain s where s: "lex_loop want 0 src initial_lex_state = (None, s)"
    "out = lx_output s @ [eof_token (length src)]" "dirs = lx_directives (close_directive want s)"
    using assms(2) by (auto simp: lex_source_run [OF assms(1)] split: prod.splits option.splits if_splits)
  have "spans_ok (length src) s"
    using lex_loop_spans [OF s(1)] assms(1) spans_ok_initial by simp
  then have ok: "sorted_wrt before dirs" "\<forall>d\<in>set dirs. span_of (lx_output s) d"
    using spans_ok_close assms(1) unfolding s(3) by blast+
  have "before = (\<lambda>d d'. directive_token_end d \<le> directive_token_begin d')"
    by (simp add: fun_eq_iff before_def)
  with ok show ?thesis
    by (auto simp: span_of_def line_hash_def s(2) nth_append)
qed

theorem lex_source_directives_witness:
  "sorted_wrt (\<lambda>d d'. directive_token_end d \<le> directive_token_begin d')
     (fst (snd (snd (lex_source True True True (''#a b'' @ [newline] @ ''#c''))))) \<and>
   length (fst (snd (snd (lex_source True True True (''#a b'' @ [newline] @ ''#c''))))) = 2"
proof -
  obtain s out dirs diag where run: "lex_source True True True (''#a b'' @ [newline] @ ''#c'') = (s, out, dirs, diag)"
    by (metis prod.exhaust)
  have "fst (lex_source True True True (''#a b'' @ [newline] @ ''#c'')) = Ok" by code_simp
  then have ok: "s = Ok" unfolding run by simp
  have "length (''#a b'' @ [newline] @ ''#c'') \<le> u32_max" by code_simp
  then have "sorted_wrt (\<lambda>d d'. directive_token_end d \<le> directive_token_begin d') dirs"
    using lex_source_directives [OF _ run [unfolded ok]] by blast
  moreover have "length (fst (snd (snd (lex_source True True True (''#a b'' @ [newline] @ ''#c''))))) = 2" by code_simp
  ultimately show ?thesis unfolding run by simp
qed

text \<open>
  A line break inside a block comment begins a line but does not close the directive before
  it: when a directive follows on that line, the span of the first one is lost.
\<close>

lemma comment_drops_directive:
  "fst (snd (snd (lex_source True True True (''#a/*'' @ [newline] @ ''*/#b'')))) =
     [\<lparr>directive_token_begin = 2, directive_token_end = 4\<rparr>]"
  by code_simp


end
