(* ===== verification/JsonText.thy ===== *)
theory JsonText
  imports Prelude
begin

text \<open>
  The text layer of the JSON component: \<^verbatim>\<open>json/json_ascii.hpp\<close>,
  \<^verbatim>\<open>json/json_unicode.hpp\<close> and \<^verbatim>\<open>json/json_escape.hpp\<close>. A buffer is the string it
  holds, and appends do not run out of memory. Code points and bytes are \<open>nat\<close>: the shifts
  of the code stay below 2 to the 21, so no 32-bit value wraps.
\<close>

unbundle bit_operations_syntax

section \<open>ASCII classes\<close>

definition json_is_whitespace :: "char \<Rightarrow> bool" where
  "json_is_whitespace c \<longleftrightarrow> c = CHR '' '' \<or> c = CHR 0x09 \<or> c = CHR 0x0D \<or> c = CHR 0x0A"

definition json_is_digit :: "char \<Rightarrow> bool" where
  "json_is_digit c \<longleftrightarrow> (let v = of_char c :: nat in 48 \<le> v \<and> v \<le> 57)"

definition json_hex_value :: "char \<Rightarrow> int" where
  "json_hex_value c =
     (let v = of_char c :: int in
      if 48 \<le> v \<and> v \<le> 57 then v - 48
      else if 97 \<le> v \<and> v \<le> 102 then v - 97 + 10
      else if 65 \<le> v \<and> v \<le> 70 then v - 65 + 10
      else - 1)"

section \<open>UTF-8\<close>

definition json_append_utf8 :: "string \<Rightarrow> nat \<Rightarrow> string option" where
  "json_append_utf8 buffer cp =
     (if cp \<le> 0x7f then Some (buffer @ [char_of cp])
      else if cp \<le> 0x7ff then
        Some (buffer @ [char_of (0xc0 OR drop_bit 6 cp), char_of (0x80 OR (cp AND 0x3f))])
      else if 0xd800 \<le> cp \<and> cp \<le> 0xdfff then None
      else if cp \<le> 0xffff then
        Some (buffer @ [char_of (0xe0 OR drop_bit 12 cp), char_of (0x80 OR (drop_bit 6 cp AND 0x3f)),
          char_of (0x80 OR (cp AND 0x3f))])
      else if cp \<le> 0x10ffff then
        Some (buffer @ [char_of (0xf0 OR drop_bit 18 cp), char_of (0x80 OR (drop_bit 12 cp AND 0x3f)),
          char_of (0x80 OR (drop_bit 6 cp AND 0x3f)), char_of (0x80 OR (cp AND 0x3f))])
      else None)"

text \<open>The count, first bits and minimum that a lead byte announces.\<close>

definition utf8_lead :: "nat \<Rightarrow> (nat \<times> nat \<times> nat) option" where
  "utf8_lead first =
     (if 0xc2 \<le> first \<and> first \<le> 0xdf then Some (2, first AND 0x1f, 0x80)
      else if 0xe0 \<le> first \<and> first \<le> 0xef then Some (3, first AND 0x0f, 0x800)
      else if 0xf0 \<le> first \<and> first \<le> 0xf4 then Some (4, first AND 0x07, 0x10000)
      else None)"

fun utf8_continue :: "nat \<Rightarrow> nat \<Rightarrow> char list \<Rightarrow> nat option" where
  "utf8_continue 0 val bytes = Some val"
| "utf8_continue (Suc n) val [] = None"
| "utf8_continue (Suc n) val (c # bytes) =
     (let byte = of_char c :: nat in
      if byte AND 0xc0 \<noteq> 0x80 then None
      else utf8_continue n (push_bit 6 val OR (byte AND 0x3f)) bytes)"

lemma utf8_continue_code [code]:
  "utf8_continue n val bytes =
     (if n = 0 then Some val
      else case bytes of
             [] \<Rightarrow> None
           | c # bytes' \<Rightarrow>
               let byte = of_char c :: nat in
               if byte AND 0xc0 \<noteq> 0x80 then None
               else utf8_continue (n - 1) (push_bit 6 val OR (byte AND 0x3f)) bytes')"
  by (cases n; cases bytes) (simp_all add: Let_def)

function json_valid_utf8 :: "char list \<Rightarrow> bool" where
  "json_valid_utf8 [] \<longleftrightarrow> True"
| "json_valid_utf8 (c # rest) \<longleftrightarrow>
     (let first = of_char c :: nat in
      if first \<le> 0x7f then json_valid_utf8 rest
      else case utf8_lead first of
             None \<Rightarrow> False
           | Some (n, val, minimum) \<Rightarrow>
               if length (c # rest) < n then False
               else case utf8_continue (n - 1) val rest of
                      None \<Rightarrow> False
                    | Some val' \<Rightarrow>
                        if val' < minimum \<or> 0x10ffff < val' \<or> (0xd800 \<le> val' \<and> val' \<le> 0xdfff) then False
                        else json_valid_utf8 (drop (n - 1) rest))"
  by pat_completeness auto
termination
  by (relation "measure length") auto

section \<open>Escapes\<close>

definition hex_digit :: "nat \<Rightarrow> char" where
  "hex_digit n = ''0123456789abcdef'' ! n"

primrec json_append_escaped :: "string \<Rightarrow> string \<Rightarrow> string" where
  "json_append_escaped buffer [] = buffer"
| "json_append_escaped buffer (c # rest) = json_append_escaped
     (if c = CHR 0x22 then buffer @ [CHR 0x5C, CHR 0x22]
      else if c = CHR 0x5C then buffer @ [CHR 0x5C, CHR 0x5C]
      else if c = CHR 0x08 then buffer @ [CHR 0x5C, CHR ''b'']
      else if c = CHR 0x0C then buffer @ [CHR 0x5C, CHR ''f'']
      else if c = CHR 0x0A then buffer @ [CHR 0x5C, CHR ''n'']
      else if c = CHR 0x0D then buffer @ [CHR 0x5C, CHR ''r'']
      else if c = CHR 0x09 then buffer @ [CHR 0x5C, CHR ''t'']
      else if (of_char c :: nat) < 0x20 then
        buffer @ [CHR 0x5C, CHR ''u'', CHR ''0'', CHR ''0'',
          hex_digit (drop_bit 4 (of_char c)), hex_digit (of_char c AND 0x0f)]
      else buffer @ [c]) rest"

section \<open>The reference encoding\<close>

definition scalar_value :: "nat \<Rightarrow> bool" where
  "scalar_value cp \<longleftrightarrow> cp \<le> 0x10ffff \<and> \<not> (0xd800 \<le> cp \<and> cp \<le> 0xdfff)"

definition utf8 :: "nat \<Rightarrow> char list" where
  "utf8 cp = map char_of
     (if cp < 0x80 then [cp]
      else if cp < 0x800 then [192 + cp div 64, 128 + cp mod 64]
      else if cp < 0x10000 then [224 + cp div 4096, 128 + cp div 64 mod 64, 128 + cp mod 64]
      else [240 + cp div 262144, 128 + cp div 4096 mod 64, 128 + cp div 64 mod 64, 128 + cp mod 64])"

lemma or_tag:
  "x < 64 \<Longrightarrow> 0x80 OR x = 128 + (x::nat)"
  "x < 32 \<Longrightarrow> 0xc0 OR x = 192 + (x::nat)"
  "x < 16 \<Longrightarrow> 0xe0 OR x = 224 + (x::nat)"
  "x < 8 \<Longrightarrow> 0xf0 OR x = 240 + (x::nat)"
proof -
  have "\<forall>x<64. 0x80 OR x = 128 + (x::nat)" "\<forall>x<32. 0xc0 OR x = 192 + (x::nat)"
    "\<forall>x<16. 0xe0 OR x = 224 + (x::nat)" "\<forall>x<8. 0xf0 OR x = 240 + (x::nat)"
    by code_simp+
  then show "x < 64 \<Longrightarrow> 0x80 OR x = 128 + (x::nat)" "x < 32 \<Longrightarrow> 0xc0 OR x = 192 + (x::nat)"
    "x < 16 \<Longrightarrow> 0xe0 OR x = 224 + (x::nat)" "x < 8 \<Longrightarrow> 0xf0 OR x = 240 + (x::nat)" by blast+
qed

lemma and_low:
  "x AND 0x3f = (x::nat) mod 64" "x AND 0x1f = x mod 32" "x AND 0x0f = x mod 16" "x AND 0x07 = x mod 8"
  using take_bit_eq_mask [of 6 x] take_bit_eq_mask [of 5 x] take_bit_eq_mask [of 4 x] take_bit_eq_mask [of 3 x]
  by (simp_all add: take_bit_eq_mod mask_eq_exp_minus_1)

lemma drop_bit_div: "drop_bit 6 x = (x::nat) div 64" "drop_bit 12 x = x div 4096" "drop_bit 18 x = x div 262144"
  by (simp_all add: drop_bit_eq_div)

lemma json_append_utf8_spec:
  "json_append_utf8 buffer cp = (if scalar_value cp then Some (buffer @ utf8 cp) else None)"
proof -
  have d: "cp \<le> 0x7ff \<Longrightarrow> cp div 64 < 32" "cp \<le> 0xffff \<Longrightarrow> cp div 4096 < 16"
    "cp \<le> 0x10ffff \<Longrightarrow> cp div 262144 < 8" by linarith+
  show ?thesis
    by (auto simp: json_append_utf8_def scalar_value_def utf8_def and_low drop_bit_div or_tag d)
qed

lemma continuation_byte:
  assumes "b < 256"
  shows "b AND 0xc0 = 0x80 \<longleftrightarrow> b div 64 = (2::nat)"
proof -
  have mask: "(0xc0::nat) = push_bit 6 (mask 2)" by (simp add: push_bit_eq_mult mask_eq_exp_minus_1)
  have "b AND push_bit 6 (mask 2) = push_bit 6 (take_bit 2 (drop_bit 6 b))"
    by (rule bit_eqI) (auto simp: bit_simps)
  also have "\<dots> = b div 64 mod 4 * 64" by (simp add: push_bit_eq_mult take_bit_eq_mod drop_bit_eq_div)
  finally have "b AND 0xc0 = b div 64 mod 4 * 64" unfolding mask .
  moreover have "b div 64 < 4" using assms by linarith
  ultimately show ?thesis by auto
qed

lemma div_mod_parts:
  "cp div 64 * 64 + cp mod 64 = (cp::nat)"
  "(cp div 4096 * 64 + cp div 64 mod 64) * 64 + cp mod 64 = cp"
  "((cp div 262144 * 64 + cp div 4096 mod 64) * 64 + cp div 64 mod 64) * 64 + cp mod 64 = cp"
proof -
  have d: "cp div 4096 = cp div 64 div 64" "cp div 262144 = cp div 64 div 64 div 64"
    by (simp_all add: div_mult2_eq [symmetric])
  show "cp div 64 * 64 + cp mod 64 = cp"
    "(cp div 4096 * 64 + cp div 64 mod 64) * 64 + cp mod 64 = cp"
    "((cp div 262144 * 64 + cp div 4096 mod 64) * 64 + cp div 64 mod 64) * 64 + cp mod 64 = cp"
    unfolding d by (simp_all only: div_mult_mod_eq)
qed

lemma push_or_bits:
  assumes "y < 2 ^ n"
  shows "push_bit n v OR y = v * 2 ^ n + (y::nat)"
proof -
  have "push_bit n v AND y = 0"
  proof (rule bit_eqI)
    fix k
    have "\<not> bit y k" if "n \<le> k"
    proof -
      have "(2::nat) ^ n \<le> 2 ^ k" using that by (intro power_increasing) simp_all
      with assms have "y div 2 ^ k = 0" by (intro div_less) linarith
      then show ?thesis by (simp add: bit_iff_odd)
    qed
    then show "bit (push_bit n v AND y) k = bit 0 k" by (auto simp: bit_and_iff bit_push_bit_iff not_le)
  qed
  then show ?thesis by (simp add: disjunctive_add_eq_or [symmetric] push_bit_eq_mult)
qed

lemma push_or: "y < 64 \<Longrightarrow> push_bit 6 v OR y = v * 64 + (y::nat)"
  using push_or_bits [of y 6 v] by simp

lemma of_char_less: "(of_char c :: nat) < 256"
  using of_char_mod_256 [of c, where 'a = nat] mod_less_divisor [of 256 "of_char c :: nat"] by simp

lemma utf8_continue_tail:
  "x < 64 \<Longrightarrow> utf8_continue (Suc n) v (char_of (128 + x) # s) = utf8_continue n (v * 64 + x) s"
proof -
  assume x: "x < 64"
  then have "(128 + x) div 64 = 2" "(128 + x) mod 64 = x"
    using mod_mult_self3 [of 2 64 x] by simp_all
  with x show ?thesis by (simp add: continuation_byte Let_def and_low push_or)
qed

lemma utf8_continue_Suc:
  assumes "utf8_continue (Suc n) v s = Some v'"
  obtains x s' where "s = char_of (128 + x) # s'" "x < 64" "utf8_continue n (v * 64 + x) s' = Some v'"
proof -
  obtain c s' where s: "s = c # s'" using assms by (cases s) auto
  let ?b = "of_char c :: nat"
  have b: "?b div 64 = 2" "utf8_continue n (v * 64 + ?b mod 64) s' = Some v'"
    using assms by (auto simp: s continuation_byte of_char_less Let_def and_low push_or split: if_splits)
  have "c = char_of (128 + ?b mod 64)"
  proof -
    have "?b = 128 + ?b mod 64" using b(1) div_mult_mod_eq [of ?b 64] by linarith
    then show ?thesis by (metis char_of_char)
  qed
  with b(2) s show thesis by (intro that [of "?b mod 64" s']) auto
qed

lemma utf8_cases:
  obtains (one) "cp < 0x80" | (two) "0x80 \<le> cp" "cp < 0x800" | (three) "0x800 \<le> cp" "cp < 0x10000"
    | (four) "0x10000 \<le> (cp::nat)"
  by linarith

lemma lead_mod:
  "x < 32 \<Longrightarrow> (192 + x) mod 32 = (x::nat)" "x < 16 \<Longrightarrow> (224 + x) mod 16 = (x::nat)"
  "x < 5 \<Longrightarrow> (240 + x) mod 8 = (x::nat)"
  using mod_mult_self3 [of 6 32 x] mod_mult_self3 [of 14 16 x] mod_mult_self3 [of 30 8 x] by simp_all

lemma json_valid_utf8_lead:
  assumes "utf8_lead first = Some (Suc (length t), v, m)" "first < 256"
    "utf8_continue (length t) v (t @ s) = Some v'" "m \<le> v'" "scalar_value v'"
  shows "json_valid_utf8 (char_of first # t @ s) = json_valid_utf8 s"
proof -
  have "\<not> first \<le> 0x7f" using assms(1) by (auto simp: utf8_lead_def split: if_splits)
  moreover have "of_char (char_of first :: char) = first" using assms(2) by simp
  moreover have "(v' < m \<or> 0x10ffff < v' \<or> (0xd800 \<le> v' \<and> v' \<le> 0xdfff)) = False"
    using assms(4,5) by (auto simp: scalar_value_def)
  ultimately show ?thesis
    unfolding json_valid_utf8.simps Let_def using assms(1,3) by (simp del: de_Morgan_disj)
qed

text \<open>The validator takes one encoded scalar value and goes on.\<close>

lemma json_valid_utf8_scalar:
  assumes "scalar_value cp"
  shows "json_valid_utf8 (utf8 cp @ s) = json_valid_utf8 s"
proof (cases cp rule: utf8_cases)
  case one
  then show ?thesis by (simp add: utf8_def)
next
  case two
  let ?t = "[char_of (128 + cp mod 64)]"
  have "2 \<le> cp div 64" "cp div 64 < 32" using two by linarith+
  then have "utf8_lead (192 + cp div 64) = Some (Suc (length ?t), cp div 64, 0x80)" "192 + cp div 64 < 256"
    by (simp_all add: utf8_lead_def and_low lead_mod)
  moreover have "utf8_continue (length ?t) (cp div 64) (?t @ s) = Some cp"
    using div_mod_parts(1) [of cp] by (simp add: utf8_continue_tail del: utf8_continue.simps(3))
  ultimately have "json_valid_utf8 (char_of (192 + cp div 64) # ?t @ s) = json_valid_utf8 s"
    using assms two by (intro json_valid_utf8_lead)
  with two show ?thesis by (simp add: utf8_def)
next
  case three
  let ?t = "[char_of (128 + cp div 64 mod 64), char_of (128 + cp mod 64)]"
  have "cp div 4096 < 16" using three by linarith
  then have "utf8_lead (224 + cp div 4096) = Some (Suc (length ?t), cp div 4096, 0x800)" "224 + cp div 4096 < 256"
    by (simp_all add: utf8_lead_def and_low lead_mod)
  moreover have "utf8_continue (length ?t) (cp div 4096) (?t @ s) = Some cp"
    using div_mod_parts(2) [of cp] by (simp add: utf8_continue_tail del: utf8_continue.simps(3))
  ultimately have "json_valid_utf8 (char_of (224 + cp div 4096) # ?t @ s) = json_valid_utf8 s"
    using assms three by (intro json_valid_utf8_lead)
  with three show ?thesis by (simp add: utf8_def)
next
  case four
  let ?t = "[char_of (128 + cp div 4096 mod 64), char_of (128 + cp div 64 mod 64), char_of (128 + cp mod 64)]"
  have "cp div 262144 < 5" using four assms unfolding scalar_value_def by linarith
  then have "utf8_lead (240 + cp div 262144) = Some (Suc (length ?t), cp div 262144, 0x10000)"
    "240 + cp div 262144 < 256"
    by (simp_all add: utf8_lead_def and_low lead_mod)
  moreover have "utf8_continue (length ?t) (cp div 262144) (?t @ s) = Some cp"
    using div_mod_parts(3) [of cp] by (simp add: utf8_continue_tail del: utf8_continue.simps(3))
  ultimately have "json_valid_utf8 (char_of (240 + cp div 262144) # ?t @ s) = json_valid_utf8 s"
    using assms four by (intro json_valid_utf8_lead)
  with four show ?thesis by (simp add: utf8_def)
qed


lemma char_of_of_char: "(of_char c :: nat) = n \<Longrightarrow> c = char_of n"
  by (metis char_of_char)

lemma digits64:
  assumes "x < 64" "y < 64" "z < 64"
  shows "(v * 64 + x) div 64 = v" "(v * 64 + x) mod 64 = (x::nat)"
    "((v * 64 + x) * 64 + y) div 4096 = v" "(((v * 64 + x) * 64 + y) * 64 + z) div 262144 = v"
    "(((v * 64 + x) * 64 + y) * 64 + z) div 4096 mod 64 = x"
proof -
  have one: "(v * 64 + x) div 64 = v" if "x < 64" for v x :: nat using that by simp
  have d: "n div 4096 = n div 64 div 64" "n div 262144 = n div 64 div 64 div 64" for n :: nat
    by (simp_all add: div_mult2_eq [symmetric])
  show "(v * 64 + x) div 64 = v" "(v * 64 + x) mod 64 = x" using assms by simp_all
  show "((v * 64 + x) * 64 + y) div 4096 = v" "(((v * 64 + x) * 64 + y) * 64 + z) div 262144 = v"
    "(((v * 64 + x) * 64 + y) * 64 + z) div 4096 mod 64 = x"
    unfolding d one [OF assms(3)] one [OF assms(2)] one [OF assms(1)] using assms(1) by simp_all
qed

lemma utf8_multi:
  assumes "x < 64"
  shows "0x80 \<le> v * 64 + x \<Longrightarrow> v < 32 \<Longrightarrow>
      utf8 (v * 64 + x) = map char_of [192 + v, 128 + x]"
    "y < 64 \<Longrightarrow> 0x800 \<le> (v * 64 + x) * 64 + y \<Longrightarrow> v < 16 \<Longrightarrow>
      utf8 ((v * 64 + x) * 64 + y) = map char_of [224 + v, 128 + x, 128 + y]"
    "y < 64 \<Longrightarrow> z < 64 \<Longrightarrow> 0x10000 \<le> ((v * 64 + x) * 64 + y) * 64 + z \<Longrightarrow>
      utf8 (((v * 64 + x) * 64 + y) * 64 + z) = map char_of [240 + v, 128 + x, 128 + y, 128 + z]"
proof -
  note dg = digits64 [OF assms]
  show "utf8 (v * 64 + x) = map char_of [192 + v, 128 + x]" if "0x80 \<le> v * 64 + x" "v < 32"
  proof -
    have "v * 64 + x < 0x800" using that assms by linarith
    then show ?thesis using that assms unfolding utf8_def by (simp add: dg(1,2) [of 0 0])
  qed
  show "utf8 ((v * 64 + x) * 64 + y) = map char_of [224 + v, 128 + x, 128 + y]"
    if "y < 64" "0x800 \<le> (v * 64 + x) * 64 + y" "v < 16"
  proof -
    let ?cp = "(v * 64 + x) * 64 + y"
    have "v * 64 + x < 1024" using that(3) assms by linarith
    moreover have "u < 1024 \<Longrightarrow> u * 64 + y < 0x10000" for u using that(1) by linarith
    ultimately have "?cp < 0x10000" by blast
    moreover have "?cp div 4096 = v" "?cp div 64 mod 64 = x" "?cp mod 64 = y"
      using dg(3) [of y 0 v] digits64(1,2) [of y 0 0 "v * 64 + x"] that(1) assms by simp_all
    ultimately show ?thesis using that unfolding utf8_def by simp
  qed
  show "utf8 (((v * 64 + x) * 64 + y) * 64 + z) = map char_of [240 + v, 128 + x, 128 + y, 128 + z]"
    if "y < 64" "z < 64" "0x10000 \<le> ((v * 64 + x) * 64 + y) * 64 + z"
  proof -
    let ?cp = "((v * 64 + x) * 64 + y) * 64 + z"
    have "?cp div 262144 = v" "?cp div 4096 mod 64 = x" "?cp div 64 mod 64 = y" "?cp mod 64 = z"
      using dg(4,5) [OF that(1,2), of v] digits64(1,2) [OF that(2) that(1) assms, of "(v * 64 + x) * 64 + y"]
        digits64(2) [OF that(1) that(2) assms, of "v * 64 + x"] by (simp_all only:)
    then show ?thesis using that unfolding utf8_def by simp
  qed
qed

lemma byte_parts:
  "0xc2 \<le> b \<Longrightarrow> b \<le> 0xdf \<Longrightarrow> b = 192 + b mod 32 \<and> 2 \<le> b mod 32"
  "0xe0 \<le> b \<Longrightarrow> b \<le> 0xef \<Longrightarrow> b = 224 + b mod (16::nat)"
  "0xf0 \<le> b \<Longrightarrow> b \<le> 0xf4 \<Longrightarrow> b = 240 + b mod (8::nat)"
proof -
  show "0xc2 \<le> b \<Longrightarrow> b \<le> 0xdf \<Longrightarrow> b = 192 + b mod 32 \<and> 2 \<le> b mod 32"
    using lead_mod(1) [of "b - 192"] by auto
  show "0xe0 \<le> b \<Longrightarrow> b \<le> 0xef \<Longrightarrow> b = 224 + b mod (16::nat)"
    using lead_mod(2) [of "b - 224"] by auto
  show "0xf0 \<le> b \<Longrightarrow> b \<le> 0xf4 \<Longrightarrow> b = 240 + b mod (8::nat)"
    using lead_mod(3) [of "b - 240"] by auto
qed

text \<open>A valid text that is not empty begins with the encoding of a scalar value.\<close>

lemma json_valid_utf8_first:
  assumes "json_valid_utf8 (c # r)"
  obtains cp s where "scalar_value cp" "c # r = utf8 cp @ s" "json_valid_utf8 s"
proof (cases "(of_char c :: nat) \<le> 0x7f")
  case True
  show thesis
  proof (rule that [of "of_char c" r])
    show "c # r = utf8 (of_char c) @ r" using True by (simp add: utf8_def)
    show "json_valid_utf8 r" using assms True by simp
  qed (use True in \<open>simp add: scalar_value_def\<close>)
next
  case False
  let ?b = "of_char c :: nat"
  obtain n v m where lead: "utf8_lead ?b = Some (n, v, m)" using assms False by (auto simp: Let_def split: option.splits)
  obtain v' where cont: "utf8_continue (n - 1) v r = Some v'" "m \<le> v'" "v' \<le> 0x10ffff"
    "\<not> (0xd800 \<le> v' \<and> v' \<le> 0xdfff)" "json_valid_utf8 (drop (n - 1) r)"
    using assms False lead by (auto simp: Let_def not_less split: option.splits if_splits)
  have sc: "scalar_value v'" using cont(3,4) by (simp add: scalar_value_def)
  consider (two) "0xc2 \<le> ?b" "?b \<le> 0xdf" "n = 2" "v = ?b mod 32" "m = 0x80"
    | (three) "0xe0 \<le> ?b" "?b \<le> 0xef" "n = 3" "v = ?b mod 16" "m = 0x800"
    | (four) "0xf0 \<le> ?b" "?b \<le> 0xf4" "n = 4" "v = ?b mod 8" "m = 0x10000"
    using lead by (auto simp: utf8_lead_def and_low split: if_splits)
  then show thesis
  proof cases
    case two
    have "utf8_continue (Suc 0) v r = Some v'" using cont(1) two(3) by simp
    then obtain x s where x: "r = char_of (128 + x) # s" "x < 64" "v' = v * 64 + x"
      by (rule utf8_continue_Suc) simp
    have v: "c = char_of (192 + v)" using char_of_of_char byte_parts(1) [OF two(1,2)] two(4) by metis
    have "v < 32" using two(4) by simp
    then have "utf8 v' = [c, char_of (128 + x)]"
      using utf8_multi(1) [OF x(2), of v] cont(2) two(5) by (simp add: x(3) v)
    then show thesis using that [OF sc, of s] cont(5) two(3) by (simp add: x(1))
  next
    case three
    have "utf8_continue (Suc (Suc 0)) v r = Some v'" using cont(1) three(3) by (simp add: eval_nat_numeral)
    then obtain x s1 where x: "r = char_of (128 + x) # s1" "x < 64" "utf8_continue (Suc 0) (v * 64 + x) s1 = Some v'"
      by (rule utf8_continue_Suc)
    from x(3) obtain y s where y: "s1 = char_of (128 + y) # s" "y < 64" "v' = (v * 64 + x) * 64 + y"
      by (rule utf8_continue_Suc) simp
    have v: "c = char_of (224 + v)" using char_of_of_char byte_parts(2) [OF three(1,2)] three(4) by metis
    have "v < 16" using three(4) by simp
    then have "utf8 v' = [c, char_of (128 + x), char_of (128 + y)]"
      using utf8_multi(2) [OF x(2), of y v] y(2) cont(2) three(5) by (simp add: y(3) v)
    then show thesis using that [OF sc, of s] cont(5) three(3) by (simp add: x(1) y(1) eval_nat_numeral)
  next
    case four
    have "utf8_continue (Suc (Suc (Suc 0))) v r = Some v'" using cont(1) four(3) by (simp add: eval_nat_numeral)
    then obtain x s1 where x: "r = char_of (128 + x) # s1" "x < 64"
      "utf8_continue (Suc (Suc 0)) (v * 64 + x) s1 = Some v'"
      by (rule utf8_continue_Suc)
    from x(3) obtain y s2 where y: "s1 = char_of (128 + y) # s2" "y < 64"
      "utf8_continue (Suc 0) ((v * 64 + x) * 64 + y) s2 = Some v'"
      by (rule utf8_continue_Suc)
    from y(3) obtain z s where z: "s2 = char_of (128 + z) # s" "z < 64" "v' = ((v * 64 + x) * 64 + y) * 64 + z"
      by (rule utf8_continue_Suc) simp
    have v: "c = char_of (240 + v)" using char_of_of_char byte_parts(3) [OF four(1,2)] four(4) by metis
    then have "utf8 v' = [c, char_of (128 + x), char_of (128 + y), char_of (128 + z)]"
      using utf8_multi(3) [OF x(2), of y z v] y(2) z(2) cont(2) four(5) by (simp add: z(3) v)
    then show thesis using that [OF sc, of s] cont(5) four(3) by (simp add: x(1) y(1) z(1) eval_nat_numeral)
  qed
qed


section \<open>What the validator accepts\<close>

lemma json_valid_utf8_concat:
  "list_all scalar_value cps \<Longrightarrow> json_valid_utf8 (concat (map utf8 cps) @ s) = json_valid_utf8 s"
  by (induction cps) (simp_all add: json_valid_utf8_scalar)

lemma utf8_not_Nil [simp]: "utf8 cp \<noteq> []"
  by (simp add: utf8_def)

lemma json_valid_utf8_decode:
  "json_valid_utf8 s \<Longrightarrow> \<exists>cps. list_all scalar_value cps \<and> s = concat (map utf8 cps)"
proof (induction "length s" arbitrary: s rule: less_induct)
  case less
  show ?case
  proof (cases s)
    case Nil
    then show ?thesis by (intro exI [of _ "[]"]) simp
  next
    case (Cons c r)
    obtain cp s' where cp: "scalar_value cp" "c # r = utf8 cp @ s'" "json_valid_utf8 s'"
      using less(2) unfolding Cons by (rule json_valid_utf8_first)
    have "0 < length (utf8 cp)" by simp
    then have "length s' < length s" using arg_cong [OF cp(2), of length] Cons by (simp del: length_greater_0_conv)
    from less(1) [OF this cp(3)] obtain cps where "list_all scalar_value cps" "s' = concat (map utf8 cps)" by blast
    with cp Cons show ?thesis by (intro exI [of _ "cp # cps"]) simp
  qed
qed

text \<open>C39: the validator accepts exactly the byte sequences that encode a sequence of Unicode
  scalar values, each in its shortest form.\<close>

theorem json_valid_utf8_exact:
  "json_valid_utf8 s \<longleftrightarrow> (\<exists>cps. list_all scalar_value cps \<and> s = concat (map utf8 cps))"
proof
  show "json_valid_utf8 s \<Longrightarrow> \<exists>cps. list_all scalar_value cps \<and> s = concat (map utf8 cps)"
    by (rule json_valid_utf8_decode)
  assume "\<exists>cps. list_all scalar_value cps \<and> s = concat (map utf8 cps)"
  then obtain cps where "list_all scalar_value cps" "s = concat (map utf8 cps)" by blast
  with json_valid_utf8_concat [of cps "[]"] show "json_valid_utf8 s" by simp
qed

lemma json_valid_utf8_append:
  assumes "json_valid_utf8 s"
  shows "json_valid_utf8 (s @ t) = json_valid_utf8 t"
  using json_valid_utf8_decode [OF assms] json_valid_utf8_concat by auto

lemma json_append_utf8_valid:
  "json_append_utf8 b cp = Some b' \<Longrightarrow> json_valid_utf8 b \<Longrightarrow> json_valid_utf8 b'"
  using json_valid_utf8_scalar [of cp "[]"]
  by (auto simp: json_append_utf8_spec json_valid_utf8_append split: if_splits)

lemma utf8_ascii:
  assumes "c \<in> set (utf8 cp)" "(of_char c :: nat) < 0x80" "scalar_value cp"
  shows "utf8 cp = [c]"
proof (cases "cp < 0x80")
  case True
  with assms(1) show ?thesis by (simp add: utf8_def)
next
  case False
  have "of_char (char_of n :: char) = n" if "n < 256" for n :: nat using that by simp
  moreover have "cp div 262144 < 5" using assms(3) unfolding scalar_value_def by linarith
  moreover have "cp < 0x800 \<Longrightarrow> cp div 64 < 32" "cp < 0x10000 \<Longrightarrow> cp div 4096 < 16" by linarith+
  moreover have "x < 64 \<Longrightarrow> 128 + x < 256" "x < 32 \<Longrightarrow> 192 + x < 256" "x < 16 \<Longrightarrow> 224 + x < 256"
    "x < 5 \<Longrightarrow> 240 + x < 256" for x :: nat by linarith+
  ultimately have "\<forall>d\<in>set (utf8 cp). 0x80 \<le> (of_char d :: nat)"
    using False unfolding utf8_def by auto
  with assms(1,2) show ?thesis by auto
qed

text \<open>An ASCII byte is a boundary of the encoding.\<close>

lemma json_valid_utf8_ascii:
  assumes "(of_char c :: nat) < 0x80"
  shows "json_valid_utf8 (a @ c # b) \<longleftrightarrow> json_valid_utf8 a \<and> json_valid_utf8 b"
proof
  show "json_valid_utf8 (a @ c # b)" if "json_valid_utf8 a \<and> json_valid_utf8 b"
    using that assms by (simp add: json_valid_utf8_append)
  show "json_valid_utf8 (a @ c # b) \<Longrightarrow> json_valid_utf8 a \<and> json_valid_utf8 b"
  proof (induction "length a" arbitrary: a rule: less_induct)
    case less
    show ?case
    proof (cases a)
      case Nil
      with less(2) assms show ?thesis by simp
    next
      case (Cons x a')
      obtain cp s where cp: "scalar_value cp" "x # a' @ c # b = utf8 cp @ s" "json_valid_utf8 s"
        using less(2) json_valid_utf8_first [of x "a' @ c # b"] unfolding Cons append_Cons by blast
      consider (inside) t where "x # a' = utf8 cp @ t" "s = t @ c # b"
        | (across) t where "utf8 cp = (x # a') @ c # t"
      proof -
        from cp(2) have "(x # a') @ (c # b) = utf8 cp @ s" by simp
        then consider t where "x # a' = utf8 cp @ t" "t @ c # b = s"
          | t where "(x # a') @ t = utf8 cp" "c # b = t @ s"
          unfolding append_eq_append_conv2 by blast
        then show thesis
        proof cases
          case 2
          then show thesis
          proof (cases t)
            case Nil
            with 2 show thesis using inside [of "[]"] by simp
          next
            case (Cons d t')
            with 2 show thesis using across [of t'] by simp
          qed
        qed (use inside in simp)
      qed
      then show ?thesis
      proof cases
        case inside
        have "length t < length a" using arg_cong [OF inside(1), of length] Cons
          using utf8_not_Nil [of cp] by (cases "utf8 cp") (auto simp del: utf8_not_Nil)
        with less(1) [of t] cp(3) inside(2) have "json_valid_utf8 t \<and> json_valid_utf8 b" by simp
        with inside(1) cp(1) Cons show ?thesis by (simp add: json_valid_utf8_scalar)
      next
        case across
        with utf8_ascii [of c cp] assms cp(1) show ?thesis by simp
      qed
    qed
  qed
qed

lemma json_append_escaped_append:
  "json_append_escaped b s = b @ json_append_escaped [] s"
proof (induction s arbitrary: b)
  case (Cons c s)
  show ?case unfolding json_append_escaped.simps
    by (subst Cons, subst (2) Cons) simp
qed simp


end
