(* ===== verification/JsonParser.thy ===== *)
theory JsonParser
  imports JsonText
begin

text \<open>
  The event parser: \<^verbatim>\<open>json/json_error.hpp\<close>, \<^verbatim>\<open>json/json_parser.hpp\<close> and
  \<^verbatim>\<open>json/json_parser.cpp\<close>. The parser's position is the pair of an offset and the bytes
  from it; the callbacks of the handler are the list of events in their order, also of a
  parse that fails. The conversion of a fractional number is the parameter \<open>convert\<close>, a
  documented function of the C++ library; an integer is read by its decimal value and the
  64-bit range. A parse is fuelled; \<open>json_parse\<close> chooses the fuel, which is shown to be
  enough.
\<close>

section \<open>Errors and events\<close>

datatype json_error_code =
    Je_none
  | Je_unexpected_end
  | Je_unexpected_token
  | Je_expected_object_key
  | Je_expected_colon
  | Je_expected_comma_or_end
  | Je_invalid_string
  | Je_invalid_escape
  | Je_invalid_unicode
  | Je_invalid_number
  | Je_trailing_characters
  | Je_allocation_failed

record json_error =
  json_code :: json_error_code
  json_offset :: nat

definition json_ok :: "json_error \<Rightarrow> bool" where
  "json_ok e \<longleftrightarrow> json_code e = Je_none"

definition json_fail :: "json_error_code \<Rightarrow> nat \<Rightarrow> json_error" where
  "json_fail code at = \<lparr>json_code = code, json_offset = at\<rparr>"

datatype 'd json_event =
    Ev_location nat
  | Ev_object_begin
  | Ev_object_end
  | Ev_array_begin
  | Ev_array_end
  | Ev_key string
  | Ev_string string
  | Ev_integer int
  | Ev_number 'd
  | Ev_boolean bool
  | Ev_null

type_synonym cursor = "nat \<times> char list"

section \<open>Strings\<close>

definition json_whitespace :: "cursor \<Rightarrow> cursor" where
  "json_whitespace at =
     (case at of (pos, rest) \<Rightarrow>
        (pos + length (takeWhile json_is_whitespace rest), dropWhile json_is_whitespace rest))"

text \<open>Reading \<open>n\<close> hexadecimal digits into \<open>code\<close>.\<close>

fun hex_digits :: "nat \<Rightarrow> nat \<Rightarrow> cursor \<Rightarrow> json_error + (nat \<times> cursor)" where
  "hex_digits 0 code (pos, rest) = Inr (code, pos, rest)"
| "hex_digits (Suc n) code (pos, []) = Inl (json_fail Je_invalid_unicode pos)"
| "hex_digits (Suc n) code (pos, c # rest) =
     (let v = json_hex_value c in
      if v < 0 then Inl (json_fail Je_invalid_unicode pos)
      else hex_digits n (push_bit 4 code OR nat v) (pos + 1, rest))"

lemma hex_digits_code [code]:
  "hex_digits n code at =
     (if n = 0 then Inr (code, at)
      else case snd at of
             [] \<Rightarrow> Inl (json_fail Je_invalid_unicode (fst at))
           | c # rest \<Rightarrow>
               let v = json_hex_value c in
               if v < 0 then Inl (json_fail Je_invalid_unicode (fst at))
               else hex_digits (n - 1) (push_bit 4 code OR nat v) (fst at + 1, rest))"
  by (cases n; cases "(n, code, at)" rule: hex_digits.cases) (simp_all add: Let_def)

text \<open>The escape \<open>\u\<close>; the cursor stands after the letter.\<close>

definition append_code :: "nat \<Rightarrow> string \<Rightarrow> nat \<Rightarrow> cursor \<Rightarrow> json_error + (string \<times> cursor)" where
  "append_code unicode_offset buffer code at =
     (case json_append_utf8 buffer code of
        None \<Rightarrow> Inl (json_fail Je_allocation_failed unicode_offset)
      | Some buffer' \<Rightarrow> Inr (buffer', at))"

definition unicode_escape :: "cursor \<Rightarrow> string \<Rightarrow> json_error + (string \<times> cursor)" where
  "unicode_escape at buffer =
     (case at of (pos, rest) \<Rightarrow>
        let unicode_offset = pos - 2 in
        if length rest < 4 then Inl (json_fail Je_invalid_unicode unicode_offset)
        else
          case hex_digits 4 0 (pos, rest) of
            Inl e \<Rightarrow> Inl e
          | Inr (code, pos, rest) \<Rightarrow>
              if 0xd800 \<le> code \<and> code \<le> 0xdbff then
                if length rest < 6 \<or> rest ! 0 \<noteq> CHR 0x5C \<or> rest ! 1 \<noteq> CHR ''u''
                then Inl (json_fail Je_invalid_unicode unicode_offset)
                else
                  case hex_digits 4 0 (pos + 2, drop 2 rest) of
                    Inl e \<Rightarrow> Inl e
                  | Inr (low, at) \<Rightarrow>
                      if low < 0xdc00 \<or> 0xdfff < low
                      then Inl (json_fail Je_invalid_unicode unicode_offset)
                      else append_code unicode_offset buffer (0x10000 + push_bit 10 (code - 0xd800) + (low - 0xdc00)) at
              else if 0xdc00 \<le> code \<and> code \<le> 0xdfff
              then Inl (json_fail Je_invalid_unicode unicode_offset)
              else append_code unicode_offset buffer code (pos, rest))"

text \<open>One escape; the cursor stands after the escaped character \<open>e\<close>.\<close>

definition parse_escape :: "char \<Rightarrow> cursor \<Rightarrow> string \<Rightarrow> json_error + (string \<times> cursor)" where
  "parse_escape e at buffer =
     (if e = CHR 0x22 \<or> e = CHR 0x5C \<or> e = CHR ''/'' then Inr (buffer @ [e], at)
      else if e = CHR ''b'' then Inr (buffer @ [CHR 0x08], at)
      else if e = CHR ''f'' then Inr (buffer @ [CHR 0x0C], at)
      else if e = CHR ''n'' then Inr (buffer @ [CHR 0x0A], at)
      else if e = CHR ''r'' then Inr (buffer @ [CHR 0x0D], at)
      else if e = CHR ''t'' then Inr (buffer @ [CHR 0x09], at)
      else if e = CHR ''u'' then unicode_escape at buffer
      else Inl (json_fail Je_invalid_escape (fst at - 1)))"

lemma hex_digits_length:
  "hex_digits n code at = Inr (v, at') \<Longrightarrow>
     length (snd at) = n + length (snd at') \<and> fst at' = fst at + n"
  by (induction n code at rule: hex_digits.induct) (auto simp: Let_def split: if_splits)

lemma append_code_cursor: "append_code off buffer code at = Inr (b, at') \<Longrightarrow> at' = at"
  by (auto simp: append_code_def split: option.splits)

lemma unicode_escape_length:
  assumes "unicode_escape at buffer = Inr (b, at')"
  shows "length (snd at') < length (snd at) \<and> fst at' + length (snd at') = fst at + length (snd at)"
proof -
  obtain pos rest where at: "at = (pos, rest)" by (cases at)
  note run = assms [unfolded at unicode_escape_def prod.case Let_def]
  have enough: "\<not> length rest < 4" using run by (simp split: if_split_asm)
  note run = run [unfolded if_not_P [OF enough]]
  obtain x where hx: "hex_digits 4 0 (pos, rest) = Inr x"
    using run by (cases "hex_digits 4 0 (pos, rest)") simp_all
  obtain code pos1 rest1 where x: "x = (code, pos1, rest1)" by (cases x) auto
  note h = hx [unfolded x]
  note run = run [unfolded h sum.case prod.case]
  have l: "length rest = 4 + length rest1" "pos1 = pos + 4" using hex_digits_length [OF h] by auto
  show ?thesis
  proof (cases "0xd800 \<le> code \<and> code \<le> 0xdbff")
    case True
    note run = run [unfolded if_P [OF True]]
    have pair: "\<not> (length rest1 < 6 \<or> rest1 ! 0 \<noteq> CHR 0x5C \<or> rest1 ! 1 \<noteq> CHR ''u'')"
      by (rule notI) (use run in \<open>simp only: if_True sum.distinct\<close>)
    note run = run [unfolded if_not_P [OF pair]]
    obtain x where h2: "hex_digits 4 0 (pos1 + 2, drop 2 rest1) = Inr x"
      using run by (cases "hex_digits 4 0 (pos1 + 2, drop 2 rest1)") simp_all
    obtain low at2 where x: "x = (low, at2)" by (cases x)
    have "at' = at2" using run by (simp only: h2 x sum.case prod.case) (simp split: if_split_asm add: append_code_cursor)
    with hex_digits_length [OF h2 [unfolded x]] pair l show ?thesis by (auto simp: at)
  next
    case False
    have "at' = (pos1, rest1)"
      using run [unfolded if_not_P [OF False]] by (auto dest: append_code_cursor simp del: of_nat_le_iff split: if_split_asm)
    with l show ?thesis by (auto simp: at)
  qed
qed

lemma parse_escape_length:
  "parse_escape e at buffer = Inr (b, at') \<Longrightarrow>
     length (snd at') \<le> length (snd at) \<and> fst at' + length (snd at') = fst at + length (snd at)"
  by (auto simp: parse_escape_def dest: unicode_escape_length split: if_splits)

text \<open>
  The loop over the bytes of a string that begins at \<open>start\<close>. \<open>raw\<close> is the segment from
  \<open>raw_start\<close> to the position, which is copied when an escape or the end is reached.
\<close>

function string_loop ::
    "nat \<Rightarrow> cursor \<Rightarrow> nat \<Rightarrow> char list \<Rightarrow> string \<Rightarrow> json_error + (string \<times> cursor)" where
  "string_loop start (pos, []) raw_start raw buffer = Inl (json_fail Je_unexpected_end start)"
| "string_loop start (pos, c # rest) raw_start raw buffer =
     (if c = CHR 0x22 then
        if \<not> json_valid_utf8 raw then Inl (json_fail Je_invalid_unicode raw_start)
        else Inr (buffer @ raw, pos + 1, rest)
      else if (of_char c :: nat) < 0x20 then Inl (json_fail Je_invalid_string pos)
      else if c \<noteq> CHR 0x5C then string_loop start (pos + 1, rest) raw_start (raw @ [c]) buffer
      else if \<not> json_valid_utf8 raw then Inl (json_fail Je_invalid_unicode raw_start)
      else
        case rest of
          [] \<Rightarrow> Inl (json_fail Je_unexpected_end (pos + 1))
        | e # rest' \<Rightarrow>
            case parse_escape e (pos + 2, rest') (buffer @ raw) of
              Inl err \<Rightarrow> Inl err
            | Inr (buffer', at) \<Rightarrow> string_loop start at (fst at) [] buffer')"
  by pat_completeness auto
termination
  by (relation "measure (\<lambda>(start, at, raw_start, raw, buffer). length (snd at))")
    (auto dest: parse_escape_length)

text \<open>The cursor stands at the opening quote.\<close>

definition json_parse_string :: "cursor \<Rightarrow> json_error + (string \<times> cursor)" where
  "json_parse_string at =
     (case at of (pos, rest) \<Rightarrow> string_loop pos (pos + 1, tl rest) (pos + 1) [] [])"

section \<open>The string scanner\<close>

lemma json_hex_value_range: "json_hex_value c < 16"
  by (simp add: json_hex_value_def Let_def)

lemma push_or4: "y < 16 \<Longrightarrow> push_bit 4 v OR y = v * 16 + (y::nat)"
  using push_or_bits [of y 4 v] by simp

lemma hex_digits_bound:
  "hex_digits n code at = Inr (v, at') \<Longrightarrow> v < 16 ^ n * (code + 1)"
proof (induction n code at rule: hex_digits.induct)
  case (3 n code pos c rest)
  let ?v = "nat (json_hex_value c)"
  have small: "?v < 16" using json_hex_value_range [of c] by simp
  have "hex_digits n (code * 16 + ?v) (pos + 1, rest) = Inr (v, at')"
    using 3(2) by (simp add: Let_def push_or4 [OF small] split: if_split_asm)
  then have "v < 16 ^ n * (code * 16 + ?v + 1)"
    using 3(1) [OF refl] 3(2) by (simp add: Let_def push_or4 [OF small] split: if_split_asm)
  also have "\<dots> \<le> 16 ^ n * (16 * (code + 1))" using small by (intro mult_le_mono2) simp
  finally show ?case by (simp add: algebra_simps)
qed auto

lemma hex_digits_error:
  "hex_digits n code at = Inl e \<Longrightarrow>
     json_offset e \<le> fst at + length (snd at) \<and> json_code e = Je_invalid_unicode"
  by (induction n code at rule: hex_digits.induct) (auto simp: json_fail_def Let_def split: if_split_asm)

lemma surrogate_pair_scalar:
  assumes "0xd800 \<le> code" "code \<le> 0xdbff" "0xdc00 \<le> low" "low \<le> 0xdfff"
  shows "scalar_value (0x10000 + push_bit 10 (code - 0xd800) + (low - 0xdc00))"
  using assms by (auto simp: scalar_value_def push_bit_eq_mult)

text \<open>What one escape yields: the buffer stays valid, a failure is a syntax error inside the text.\<close>

lemma append_code_scalar:
  "scalar_value code \<Longrightarrow> append_code off buffer code at = Inr (buffer @ utf8 code, at)"
  by (simp add: append_code_def json_append_utf8_spec)

lemma unicode_escape_cases:
  assumes "2 \<le> fst at"
  obtains (error) e where "unicode_escape at buffer = Inl e" "json_code e = Je_invalid_unicode"
      "json_offset e \<le> fst at + length (snd at)"
    | (code) cp at' where "unicode_escape at buffer = Inr (buffer @ utf8 cp, at')" "scalar_value cp"
proof -
  obtain pos rest where at: "at = (pos, rest)" by (cases at)
  note run = unicode_escape_def [of "(pos, rest)" buffer, unfolded prod.case Let_def]
  let ?fail = "Inl (json_fail Je_invalid_unicode (pos - 2)) :: json_error + (string \<times> cursor)"
  have failed: thesis if "unicode_escape (pos, rest) buffer = ?fail"
    by (rule error) (use that at in \<open>auto simp: json_fail_def\<close>)
  show thesis
  proof (cases "length rest < 4")
    case True
    with run failed show thesis by simp
  next
    case False
    note run = run [unfolded if_not_P [OF False]]
    show thesis
    proof (cases "hex_digits 4 0 (pos, rest)")
      case (Inl e)
      show thesis
        by (rule error [of e]) (use run Inl hex_digits_error [OF Inl] in \<open>auto simp: at\<close>)
    next
      case (Inr x)
      obtain code pos1 rest1 where x: "x = (code, pos1, rest1)" by (cases x) auto
      note h = Inr [unfolded x]
      note run = run [unfolded h sum.case prod.case]
      have l: "length rest = 4 + length rest1" "pos1 = pos + 4" using hex_digits_length [OF h] by auto
      have c: "code < 0x10000" using hex_digits_bound [OF h] by simp
      show thesis
      proof (cases "0xd800 \<le> code \<and> code \<le> 0xdbff")
        case True
        note run = run [unfolded if_P [OF True]]
        show thesis
        proof (cases "length rest1 < 6 \<or> rest1 ! 0 \<noteq> CHR 0x5C \<or> rest1 ! 1 \<noteq> CHR ''u''")
          case True
          from failed run [unfolded if_P [OF True]] show thesis by blast
        next
          case pair: False
          note run = run [unfolded if_not_P [OF pair]]
          show thesis
          proof (cases "hex_digits 4 0 (pos1 + 2, drop 2 rest1)")
            case (Inl e)
            have "json_offset e \<le> pos + length rest"
              using hex_digits_error [OF Inl] l pair by auto
            with hex_digits_error [OF Inl] run Inl error [of e] show thesis by (simp add: at)
          next
            case (Inr y)
            obtain low at2 where y: "y = (low, at2)" by (cases y)
            note run = run [unfolded Inr [unfolded y] sum.case prod.case]
            show thesis
            proof (cases "low < 0xdc00 \<or> 0xdfff < low")
              case True
              from failed run [unfolded if_P [OF True]] show thesis by blast
            next
              case low: False
              have "scalar_value (0x10000 + push_bit 10 (code - 0xd800) + (low - 0xdc00))"
                using True low by (intro surrogate_pair_scalar) auto
              with code [of _ at2] run [unfolded if_not_P [OF low]] append_code_scalar show thesis
                by (auto simp only: at)
            qed
          qed
        qed
      next
        case high: False
        note run = run [unfolded if_not_P [OF high]]
        show thesis
        proof (cases "0xdc00 \<le> code \<and> code \<le> 0xdfff")
          case True
          from failed run [unfolded if_P [OF True]] show thesis by blast
        next
          case False
          have "scalar_value code" using c high False by (auto simp: scalar_value_def)
          with code [of code "(pos1, rest1)"] run [unfolded if_not_P [OF False]] append_code_scalar show thesis
            by (auto simp only: at)
        qed
      qed
    qed
  qed
qed

lemma parse_escape_ascii:
  assumes "c \<in> {CHR 0x22, CHR 0x5C, CHR ''/'', CHR ''b'', CHR ''f'', CHR ''n'', CHR ''r'', CHR ''t''}"
  shows "\<exists>d. parse_escape c at buffer = Inr (buffer @ [d], at) \<and> (of_char d :: nat) < 0x80"
  using assms by (elim insertE emptyE) (simp_all add: parse_escape_def)

lemma parse_escape_cases:
  assumes "2 \<le> fst at"
  obtains (error) e where "parse_escape c at buffer = Inl e"
      "json_code e = Je_invalid_unicode \<or> json_code e = Je_invalid_escape"
      "json_offset e \<le> fst at + length (snd at)"
    | (appended) cps at' where "parse_escape c at buffer = Inr (buffer @ concat (map utf8 cps), at')"
      "list_all scalar_value cps"
proof -
  have ascii: thesis if "parse_escape c at buffer = Inr (buffer @ [d], at)" "(of_char d :: nat) < 0x80" for d
    by (rule appended [of "[of_char d]" at]) (use that in \<open>simp_all add: utf8_def scalar_value_def\<close>)
  consider (plain) "c \<in> {CHR 0x22, CHR 0x5C, CHR ''/'', CHR ''b'', CHR ''f'', CHR ''n'', CHR ''r'', CHR ''t''}"
    | (unicode) "c = CHR ''u''"
    | (other) "parse_escape c at buffer = Inl (json_fail Je_invalid_escape (fst at - 1))"
    unfolding parse_escape_def by (simp only: insert_iff empty_iff) argo
  then show thesis
  proof cases
    case plain
    with parse_escape_ascii ascii show thesis by blast
  next
    case unicode
    then have run: "parse_escape c at buffer = unicode_escape at buffer" by (simp add: parse_escape_def)
    from assms show thesis
    proof (cases rule: unicode_escape_cases [where buffer = buffer])
      case (error e)
      with that(1) [of e] run show thesis by simp
    next
      case (code cp at')
      with that(2) [of "[cp]" at'] run show thesis by simp
    qed
  next
    case other
    with error show thesis by (simp add: json_fail_def)
  qed
qed

lemma string_loop_length:
  "string_loop start at raw_start raw buffer = Inr (b, at') \<Longrightarrow>
     length (snd at') < length (snd at) \<and> fst at' + length (snd at') = fst at + length (snd at)"
proof (induction start at raw_start raw buffer rule: string_loop.induct)
  case (2 start pos c rest raw_start raw buffer)
  show ?case
  proof (cases "c = CHR 0x22 \<or> (of_char c :: nat) < 0x20 \<or> c \<noteq> CHR 0x5C")
    case True
    with 2 show ?thesis by (auto split: if_splits)
  next
    case False
    then obtain e r b1 at1 where r: "rest = e # r" "parse_escape e (pos + 2, r) (buffer @ raw) = Inr (b1, at1)"
      "json_valid_utf8 raw"
      using 2(3) by (auto split: if_splits list.splits sum.splits)
    have "string_loop start at1 (fst at1) [] b1 = Inr (b, at')" using 2(3) False r by simp
    then have "length (snd at') < length (snd at1) \<and> fst at' + length (snd at') = fst at1 + length (snd at1)"
      using 2(2) [of e r "(b1, at1)" b1 at1] False r by simp
    with parse_escape_length [OF r(2)] r(1) show ?thesis by simp
  qed
qed simp

text \<open>The text of a string is valid UTF-8.\<close>

lemma string_loop_valid:
  "string_loop start at raw_start raw buffer = Inr (b, at') \<Longrightarrow> 1 \<le> fst at \<Longrightarrow> json_valid_utf8 buffer \<Longrightarrow>
     json_valid_utf8 b"
proof (induction start at raw_start raw buffer rule: string_loop.induct)
  case (2 start pos c rest raw_start raw buffer)
  show ?case
  proof (cases "c = CHR 0x22 \<or> (of_char c :: nat) < 0x20 \<or> c \<noteq> CHR 0x5C")
    case True
    with 2 show ?thesis by (auto simp: json_valid_utf8_append split: if_splits)
  next
    case False
    then obtain e r b1 at1 where r: "rest = e # r" "parse_escape e (pos + 2, r) (buffer @ raw) = Inr (b1, at1)"
      "json_valid_utf8 raw"
      using 2(3) by (auto split: if_splits list.splits sum.splits)
    have run: "string_loop start at1 (fst at1) [] b1 = Inr (b, at')" using 2(3) False r by simp
    have "2 \<le> fst (pos + 2, r)" by simp
    then have "json_valid_utf8 b1"
    proof (cases rule: parse_escape_cases [where c = e and buffer = "buffer @ raw"])
      case (appended cps at')
      with r(2,3) 2(5) json_valid_utf8_concat [of cps "[]"] show ?thesis
        by (auto simp: json_valid_utf8_append)
    qed (use r(2) in simp_all)
    moreover have "1 \<le> fst at1" using parse_escape_length [OF r(2)] by simp
    ultimately show ?thesis using 2(2) [of e r "(b1, at1)" b1 at1] False r run by simp
  qed
qed simp


text \<open>A failure is a syntax error with an offset inside the text.\<close>

definition syntax_error :: "nat \<Rightarrow> json_error \<Rightarrow> bool" where
  "syntax_error limit e \<longleftrightarrow> json_offset e \<le> limit \<and> json_code e \<noteq> Je_none \<and> json_code e \<noteq> Je_allocation_failed"

lemma syntax_error_fail [simp]:
  "syntax_error limit (json_fail code at) \<longleftrightarrow> at \<le> limit \<and> code \<noteq> Je_none \<and> code \<noteq> Je_allocation_failed"
  by (simp add: syntax_error_def json_fail_def)

lemma string_loop_error:
  "string_loop start at raw_start raw buffer = Inl e \<Longrightarrow> start < fst at \<Longrightarrow> raw_start \<le> fst at \<Longrightarrow>
     syntax_error (fst at + length (snd at)) e"
proof (induction start at raw_start raw buffer rule: string_loop.induct)
  case (2 start pos c rest raw_start raw buffer)
  show ?case
  proof (cases "c = CHR 0x22 \<or> (of_char c :: nat) < 0x20 \<or> c \<noteq> CHR 0x5C")
    case True
    with 2 show ?thesis by (auto split: if_splits)
  next
    case False
    show ?thesis
    proof (cases "json_valid_utf8 raw \<and> rest \<noteq> []")
      case refused: False
      with 2(3-5) False show ?thesis by (cases rest) (auto split: if_splits)
    next
      case True
      then obtain x r where r: "rest = x # r" by (cases rest) auto
      have "2 \<le> fst (pos + 2, r)" by simp
      then show ?thesis
      proof (cases rule: parse_escape_cases [where c = x and buffer = "buffer @ raw"])
        case (error err)
        with 2(3) False True r show ?thesis by (auto simp: syntax_error_def)
      next
        case (appended cps at')
        have run: "string_loop start at' (fst at') [] (buffer @ raw @ concat (map utf8 cps)) = Inl e"
          using 2(3) False True r appended(1) by simp
        note l = parse_escape_length [OF appended(1)]
        have "syntax_error (fst at' + length (snd at')) e"
          using 2(2) [OF _ _ _ _ r appended(1) refl] False True run l 2(4) r by simp
        with l r show ?thesis by simp
      qed
    qed
  qed
qed (auto simp: syntax_error_def json_fail_def)

text \<open>
  The two directions of the escapes: what \<^verbatim>\<open>json_append_escaped\<close> writes for a valid text,
  the scanner reads back.
\<close>

lemma hex_value_digit: "h < 16 \<Longrightarrow> json_hex_value (hex_digit h) = int h"
proof -
  have "list_all (\<lambda>h. json_hex_value (hex_digit h) = int h) [0..<16]" by code_simp
  then show "h < 16 \<Longrightarrow> json_hex_value (hex_digit h) = int h" by (simp add: list_all_iff)
qed

lemma hex_digit_step:
  "json_hex_value c = int h \<Longrightarrow> h < 16 \<Longrightarrow>
     hex_digits (Suc n) code (pos, c # rest) = hex_digits n (code * 16 + h) (pos + 1, rest)"
  by (simp add: Let_def push_or4)

lemma control_escape:
  assumes "(of_char c :: nat) < 0x20"
  shows "parse_escape (CHR ''u'') (pos, CHR ''0'' # CHR ''0'' # hex_digit (drop_bit 4 (of_char c)) #
      hex_digit (of_char c AND 0x0f) # rest) buffer = Inr (buffer @ [c], pos + 4, rest)"
proof -
  let ?n = "of_char c :: nat"
  have small: "?n div 16 < 16" "?n mod 16 < 16" using assms by simp_all
  have v: "json_hex_value (hex_digit (drop_bit 4 ?n)) = int (?n div 16)"
    "json_hex_value (hex_digit (?n AND 0x0f)) = int (?n mod 16)"
    using small by (simp_all add: drop_bit_eq_div and_low hex_value_digit)
  have four: "4 = Suc (Suc (Suc (Suc 0)))" by simp
  have zero: "json_hex_value (CHR ''0'') = int 0" by (simp add: json_hex_value_def)
  have "hex_digits (Suc (Suc (Suc (Suc 0)))) 0 (pos, CHR ''0'' # CHR ''0'' # hex_digit (drop_bit 4 ?n) #
      hex_digit (?n AND 0x0f) # rest) = Inr ((((0 * 16 + 0) * 16 + 0) * 16 + ?n div 16) * 16 + ?n mod 16, pos + 1 + 1 + 1 + 1, rest)"
    by (simp only: hex_digit_step [OF zero] hex_digit_step [OF v(1) small(1)]
        hex_digit_step [OF v(2) small(2)] hex_digits.simps(1) zero_less_numeral)
  then have h: "hex_digits 4 0 (pos, CHR ''0'' # CHR ''0'' # hex_digit (drop_bit 4 ?n) #
      hex_digit (?n AND 0x0f) # rest) = Inr (?n, pos + 4, rest)"
    unfolding four by (simp del: hex_digits.simps)
  have "json_append_utf8 buffer ?n = Some (buffer @ [c])" using assms by (simp add: json_append_utf8_def)
  then show ?thesis
    using assms by (simp add: parse_escape_def unicode_escape_def append_code_def h)
qed


lemma escaped_Cons: "json_append_escaped [] (c # s) = json_append_escaped [] [c] @ json_append_escaped [] s"
  using json_append_escaped_append [of "json_append_escaped [] [c]" s] by simp

text \<open>The three shapes of an escaped character.\<close>

lemma escaped_char_cases:
  obtains (plain) "json_append_escaped [] [c] = [c]" "c \<noteq> CHR 0x22" "c \<noteq> CHR 0x5C" "\<not> (of_char c :: nat) < 0x20"
  | (letter) e where "json_append_escaped [] [c] = [CHR 0x5C, e]" "(of_char c :: nat) < 0x80"
      "\<And>at b. parse_escape e at b = Inr (b @ [c], at)"
  | (control) h l where "json_append_escaped [] [c] = [CHR 0x5C, CHR ''u'', CHR ''0'', CHR ''0'', h, l]"
      "(of_char c :: nat) < 0x80"
      "\<And>pos rest b. parse_escape (CHR ''u'') (pos, CHR ''0'' # CHR ''0'' # h # l # rest) b = Inr (b @ [c], pos + 4, rest)"
proof -
  let ?named = "{CHR 0x22, CHR 0x5C, CHR 0x08, CHR 0x0C, CHR 0x0A, CHR 0x0D, CHR 0x09}"
  show thesis
  proof (cases "c \<in> ?named")
    case True
    then have "\<exists>e. json_append_escaped [] [c] = [CHR 0x5C, e] \<and> (of_char c :: nat) < 0x80 \<and>
        (\<forall>at b. parse_escape e at b = Inr (b @ [c], at))"
      by (elim insertE emptyE) (simp_all add: parse_escape_def)
    with letter show thesis by blast
  next
    case False
    show thesis
    proof (cases "(of_char c :: nat) < 0x20")
      case True
      with False have "json_append_escaped [] [c] = [CHR 0x5C, CHR ''u'', CHR ''0'', CHR ''0'',
          hex_digit (drop_bit 4 (of_char c)), hex_digit (of_char c AND 0x0f)]" by simp
      with control control_escape [OF True] True show thesis by simp
    next
      case high: False
      with False have "json_append_escaped [] [c] = [c]" by simp
      with plain False high show thesis by simp
    qed
  qed
qed

lemma string_loop_escaped:
  "json_valid_utf8 (raw @ s) \<Longrightarrow>
     string_loop start (pos, json_append_escaped [] s @ CHR 0x22 # rest) raw_start raw buffer =
       Inr (buffer @ raw @ s, pos + length (json_append_escaped [] s) + 1, rest)"
proof (induction s arbitrary: raw pos raw_start buffer)
  case (Cons c s)
  show ?case
  proof (cases c rule: escaped_char_cases)
    case plain
    have "json_valid_utf8 ((raw @ [c]) @ s)" using Cons.prems by simp
    from Cons.IH [OF this, of "pos + 1" raw_start buffer] show ?thesis
      by (simp add: escaped_Cons [of c s] plain del: json_append_escaped.simps(2))
  next
    case (letter e)
    have v: "json_valid_utf8 raw" "json_valid_utf8 ([] @ s)"
      using Cons.prems json_valid_utf8_ascii [OF letter(2)] by auto
    from Cons.IH [OF v(2), of "pos + 2" "pos + 2" "buffer @ raw @ [c]"] show ?thesis
      by (simp add: escaped_Cons [of c s] letter v(1) del: json_append_escaped.simps(2))
  next
    case (control h l)
    have v: "json_valid_utf8 raw" "json_valid_utf8 ([] @ s)"
      using Cons.prems json_valid_utf8_ascii [OF control(2)] by auto
    from Cons.IH [OF v(2), of "pos + 6" "pos + 6" "buffer @ raw @ [c]"] show ?thesis
      by (simp add: escaped_Cons [of c s] control v(1) add.commute [of pos] del: json_append_escaped.simps(2))
  qed
qed simp

text \<open>A valid text, escaped and quoted, is read back by the string scanner whatever
  follows it: the scanner returns the text and stops after the closing quote.\<close>

theorem json_string_roundtrip:
  assumes "json_valid_utf8 s"
  shows "json_parse_string (pos, json_append_escaped [CHR 0x22] s @ CHR 0x22 # rest) =
    Inr (s, pos + length (json_append_escaped [CHR 0x22] s) + 1, rest)"
  using string_loop_escaped [of "[]" s pos "pos + 1" rest "pos + 1" "[]"] assms
  by (simp add: json_parse_string_def json_append_escaped_append [of "[CHR 0x22]"])

theorem json_string_roundtrip_witness:
  "json_parse_string (3, json_append_escaped [CHR 0x22] [CHR ''a'', CHR 0x01, CHR 0xC3, CHR 0xA9, CHR 0x22] @ '','') =
     Inl (json_fail Je_unexpected_end 3) \<and>
   json_parse_string (3, json_append_escaped [CHR 0x22] [CHR ''a'', CHR 0x01, CHR 0xC3, CHR 0xA9, CHR 0x22]
     @ CHR 0x22 # '','') = Inr ([CHR ''a'', CHR 0x01, CHR 0xC3, CHR 0xA9, CHR 0x22], 16, '','')"
proof
  show "json_parse_string (3, json_append_escaped [CHR 0x22] [CHR ''a'', CHR 0x01, CHR 0xC3, CHR 0xA9, CHR 0x22] @ '','') =
     Inl (json_fail Je_unexpected_end 3)" by code_simp
  have "json_valid_utf8 [CHR ''a'', CHR 0x01, CHR 0xC3, CHR 0xA9, CHR 0x22]"
    "length (json_append_escaped [CHR 0x22] [CHR ''a'', CHR 0x01, CHR 0xC3, CHR 0xA9, CHR 0x22]) = 12" by code_simp+
  with json_string_roundtrip [of "[CHR ''a'', CHR 0x01, CHR 0xC3, CHR 0xA9, CHR 0x22]" 3 "'',''"]
  show "json_parse_string (3, json_append_escaped [CHR 0x22] [CHR ''a'', CHR 0x01, CHR 0xC3, CHR 0xA9, CHR 0x22]
     @ CHR 0x22 # '','') = Inr ([CHR ''a'', CHR 0x01, CHR 0xC3, CHR 0xA9, CHR 0x22], 16, '','')" by simp
qed


section \<open>Numbers and literals\<close>

definition skip_digits :: "cursor \<Rightarrow> cursor" where
  "skip_digits at =
     (case at of (pos, rest) \<Rightarrow>
        (pos + length (takeWhile json_is_digit rest), dropWhile json_is_digit rest))"

definition digit_next :: "cursor \<Rightarrow> bool" where
  "digit_next at \<longleftrightarrow> snd at \<noteq> [] \<and> json_is_digit (hd (snd at))"

definition advance :: "cursor \<Rightarrow> cursor" where
  "advance at = (fst at + 1, tl (snd at))"

definition number_integer :: "nat \<Rightarrow> cursor \<Rightarrow> json_error + cursor" where
  "number_integer start at =
     (if snd at = [] then Inl (json_fail Je_invalid_number start)
      else if hd (snd at) = CHR ''0'' then
        (let at = advance at in
         if digit_next at then Inl (json_fail Je_invalid_number (fst at)) else Inr at)
      else if (of_char (hd (snd at)) :: nat) < 49 \<or> 57 < (of_char (hd (snd at)) :: nat)
      then Inl (json_fail Je_invalid_number (fst at))
      else Inr (skip_digits at))"

definition number_fraction :: "cursor \<Rightarrow> json_error + (bool \<times> cursor)" where
  "number_fraction at =
     (if snd at \<noteq> [] \<and> hd (snd at) = CHR ''.'' then
        (let at = advance at in
         if \<not> digit_next at then Inl (json_fail Je_invalid_number (fst at))
         else Inr (True, skip_digits at))
      else Inr (False, at))"

definition number_exponent :: "bool \<Rightarrow> cursor \<Rightarrow> json_error + (bool \<times> cursor)" where
  "number_exponent floating at =
     (if snd at \<noteq> [] \<and> (hd (snd at) = CHR ''e'' \<or> hd (snd at) = CHR ''E'') then
        (let at = advance at;
             at = (if snd at \<noteq> [] \<and> (hd (snd at) = CHR ''+'' \<or> hd (snd at) = CHR ''-'')
                   then advance at else at) in
         if \<not> digit_next at then Inl (json_fail Je_invalid_number (fst at))
         else Inr (True, skip_digits at))
      else Inr (floating, at))"

text \<open>\<^verbatim>\<open>std::from_chars\<close> on an optional sign and decimal digits.\<close>

definition decimal_value :: "char list \<Rightarrow> int" where
  "decimal_value ds = foldl (\<lambda>v c. v * 10 + (of_char c - 48)) 0 ds"

definition int64_of_text :: "char list \<Rightarrow> int option" where
  "int64_of_text text =
     (let v = (if text \<noteq> [] \<and> hd text = CHR ''-'' then - decimal_value (tl text) else decimal_value text) in
      if - (2 ^ 63) \<le> v \<and> v < 2 ^ 63 then Some v else None)"

definition json_parse_number ::
    "(char list \<Rightarrow> 'd option) \<Rightarrow> cursor \<Rightarrow> json_error + ('d json_event \<times> cursor)" where
  "json_parse_number convert at =
     (let start = fst at;
          begin_at = (if hd (snd at) = CHR ''-'' then advance at else at) in
      case number_integer start begin_at of
        Inl e \<Rightarrow> Inl e
      | Inr at1 \<Rightarrow>
          case number_fraction at1 of
            Inl e \<Rightarrow> Inl e
          | Inr (floating, at2) \<Rightarrow>
              case number_exponent floating at2 of
                Inl e \<Rightarrow> Inl e
              | Inr (floating, at3) \<Rightarrow>
                  let text = take (fst at3 - start) (snd at) in
                  if floating then
                    (case convert text of
                       None \<Rightarrow> Inl (json_fail Je_invalid_number start)
                     | Some v \<Rightarrow> Inr (Ev_number v, at3))
                  else
                    (case int64_of_text text of
                       None \<Rightarrow> Inl (json_fail Je_invalid_number start)
                     | Some v \<Rightarrow> Inr (Ev_integer v, at3)))"

definition consume_literal :: "string \<Rightarrow> cursor \<Rightarrow> json_error + cursor" where
  "consume_literal literal at =
     (if take (length literal) (snd at) \<noteq> literal then Inl (json_fail Je_unexpected_token (fst at))
      else Inr (fst at + length literal, drop (length literal) (snd at)))"

section \<open>Values\<close>

text \<open>
  The events of a parse and its end: the error, or the position after it. \<open>None\<close> is
  a parse that ran out of fuel.
\<close>

type_synonym 'd outcome = "('d json_event list \<times> (json_error + cursor)) option"

definition emit :: "'d json_event list \<Rightarrow> 'd outcome \<Rightarrow> 'd outcome" where
  "emit evs m = map_option (\<lambda>(evs', r). (evs @ evs', r)) m"

definition and_then :: "'d outcome \<Rightarrow> (cursor \<Rightarrow> 'd outcome) \<Rightarrow> 'd outcome" where
  "and_then m f =
     (case m of
        None \<Rightarrow> None
      | Some (evs, Inl e) \<Rightarrow> Some (evs, Inl e)
      | Some (evs, Inr at) \<Rightarrow> emit evs (f at))"

definition scalar :: "json_error + ('d json_event \<times> cursor) \<Rightarrow> 'd outcome" where
  "scalar r = (case r of Inl e \<Rightarrow> Some ([], Inl e) | Inr (ev, at) \<Rightarrow> Some ([ev], Inr at))"

definition literal_event :: "string \<Rightarrow> 'd json_event \<Rightarrow> cursor \<Rightarrow> 'd outcome" where
  "literal_event literal ev at = scalar (map_sum id (\<lambda>at. (ev, at)) (consume_literal literal at))"

abbreviation stop :: "json_error_code \<Rightarrow> nat \<Rightarrow> 'd outcome" where
  "stop code at \<equiv> Some ([], Inl (json_fail code at))"

text \<open>
  The loops of an object and of an array, for the parser \<open>val\<close> of the values inside; the
  values of a document of nesting depth \<open>n\<close> are parsed with fuel \<open>n\<close>.
\<close>

primrec object_loop :: "(cursor \<Rightarrow> 'd outcome) \<Rightarrow> nat \<Rightarrow> cursor \<Rightarrow> 'd outcome" where
  "object_loop val 0 at = None"
| "object_loop val (Suc n) at =
     (let at = json_whitespace at in
      if snd at = [] then stop Je_unexpected_end (fst at)
      else if hd (snd at) \<noteq> CHR 0x22 then stop Je_expected_object_key (fst at)
      else
        case json_parse_string at of
          Inl e \<Rightarrow> Some ([], Inl e)
        | Inr (key, key_end) \<Rightarrow>
            emit [Ev_location (fst at), Ev_key key]
              (let at = json_whitespace key_end in
               if snd at = [] then stop Je_unexpected_end (fst at)
               else if hd (snd at) \<noteq> CHR '':'' then stop Je_expected_colon (fst at)
               else and_then (val (advance at)) (\<lambda>at.
                 let at = json_whitespace at in
                 if snd at = [] then stop Je_unexpected_end (fst at)
                 else if hd (snd at) = CHR ''}''
                 then Some ([Ev_location (fst at), Ev_object_end], Inr (advance at))
                 else if hd (snd at) \<noteq> CHR '','' then stop Je_expected_comma_or_end (fst at)
                 else object_loop val n (advance at))))"

definition parse_object :: "(cursor \<Rightarrow> 'd outcome) \<Rightarrow> nat \<Rightarrow> cursor \<Rightarrow> 'd outcome" where
  "parse_object val n at =
     emit [Ev_object_begin]
       (let at = json_whitespace (advance at) in
        if snd at \<noteq> [] \<and> hd (snd at) = CHR ''}''
        then Some ([Ev_location (fst at), Ev_object_end], Inr (advance at))
        else object_loop val n at)"

primrec array_loop :: "(cursor \<Rightarrow> 'd outcome) \<Rightarrow> nat \<Rightarrow> cursor \<Rightarrow> 'd outcome" where
  "array_loop val 0 at = None"
| "array_loop val (Suc n) at =
     and_then (val at) (\<lambda>at.
       let at = json_whitespace at in
       if snd at = [] then stop Je_unexpected_end (fst at)
       else if hd (snd at) = CHR '']''
       then Some ([Ev_location (fst at), Ev_array_end], Inr (advance at))
       else if hd (snd at) \<noteq> CHR '','' then stop Je_expected_comma_or_end (fst at)
       else array_loop val n (advance at))"

definition parse_array :: "(cursor \<Rightarrow> 'd outcome) \<Rightarrow> nat \<Rightarrow> cursor \<Rightarrow> 'd outcome" where
  "parse_array val n at =
     emit [Ev_array_begin]
       (let at = json_whitespace (advance at) in
        if snd at \<noteq> [] \<and> hd (snd at) = CHR '']''
        then Some ([Ev_location (fst at), Ev_array_end], Inr (advance at))
        else array_loop val n at)"

primrec parse_value :: "(char list \<Rightarrow> 'd option) \<Rightarrow> nat \<Rightarrow> cursor \<Rightarrow> 'd outcome" where
  "parse_value convert 0 at = None"
| "parse_value convert (Suc n) at =
     (let at = json_whitespace at in
      if snd at = [] then stop Je_unexpected_end (fst at)
      else emit [Ev_location (fst at)]
        (let c = hd (snd at) in
         if c = CHR ''{'' then parse_object (parse_value convert n) n at
         else if c = CHR ''['' then parse_array (parse_value convert n) n at
         else if c = CHR 0x22 then scalar (map_sum id (\<lambda>(s, at). (Ev_string s, at)) (json_parse_string at))
         else if c = CHR ''t'' then literal_event ''true'' (Ev_boolean True) at
         else if c = CHR ''f'' then literal_event ''false'' (Ev_boolean False) at
         else if c = CHR ''n'' then literal_event ''null'' Ev_null at
         else if c = CHR ''-'' \<or> json_is_digit c then scalar (json_parse_number convert at)
         else stop Je_unexpected_token (fst at)))"

text \<open>The parse of a document: its events, and the error of a document that is refused.\<close>

definition json_parse ::
    "(char list \<Rightarrow> 'd option) \<Rightarrow> char list \<Rightarrow> ('d json_event list \<times> json_error option) option" where
  "json_parse convert input =
     (let at = json_whitespace (0, input) in
      case parse_value convert (length input + 1) at of
        None \<Rightarrow> None
      | Some (evs, Inl e) \<Rightarrow> Some (evs, Some e)
      | Some (evs, Inr at) \<Rightarrow>
          (let at = json_whitespace at in
           if snd at \<noteq> [] then Some (evs, Some (json_fail Je_trailing_characters (fst at)))
           else Some (evs, None)))"


section \<open>Documents\<close>

text \<open>The documents a parse stands for, and the events of each, locations left out.\<close>

datatype 'd json_tree =
    J_object "(string \<times> 'd json_tree) list"
  | J_array "'d json_tree list"
  | J_string string
  | J_integer int
  | J_number 'd
  | J_boolean bool
  | J_null

fun tree_events :: "'d json_tree \<Rightarrow> 'd json_event list" where
  "tree_events (J_object ms) =
     Ev_object_begin # concat (map (\<lambda>(k, t). Ev_key k # tree_events t) ms) @ [Ev_object_end]"
| "tree_events (J_array ts) = Ev_array_begin # concat (map tree_events ts) @ [Ev_array_end]"
| "tree_events (J_string s) = [Ev_string s]"
| "tree_events (J_integer v) = [Ev_integer v]"
| "tree_events (J_number d) = [Ev_number d]"
| "tree_events (J_boolean b) = [Ev_boolean b]"
| "tree_events J_null = [Ev_null]"

definition int64 :: "int \<Rightarrow> bool" where
  "int64 v \<longleftrightarrow> - (2 ^ 63) \<le> v \<and> v < 2 ^ 63"

fun tree_ok :: "'d json_tree \<Rightarrow> bool" where
  "tree_ok (J_object ms) \<longleftrightarrow> (\<forall>(k, t)\<in>set ms. json_valid_utf8 k \<and> tree_ok t)"
| "tree_ok (J_array ts) \<longleftrightarrow> (\<forall>t\<in>set ts. tree_ok t)"
| "tree_ok (J_string s) \<longleftrightarrow> json_valid_utf8 s"
| "tree_ok (J_integer v) \<longleftrightarrow> int64 v"
| "tree_ok (J_number d) \<longleftrightarrow> True"
| "tree_ok (J_boolean b) \<longleftrightarrow> True"
| "tree_ok J_null \<longleftrightarrow> True"

definition without_locations :: "'d json_event list \<Rightarrow> 'd json_event list" where
  "without_locations evs = filter (\<lambda>ev. case ev of Ev_location _ \<Rightarrow> False | _ \<Rightarrow> True) evs"

lemma without_locations_simps [simp]:
  "without_locations [] = []"
  "without_locations (Ev_location n # evs) = without_locations evs"
  "without_locations (Ev_object_begin # evs) = Ev_object_begin # without_locations evs"
  "without_locations (Ev_object_end # evs) = Ev_object_end # without_locations evs"
  "without_locations (Ev_array_begin # evs) = Ev_array_begin # without_locations evs"
  "without_locations (Ev_array_end # evs) = Ev_array_end # without_locations evs"
  "without_locations (Ev_key k # evs) = Ev_key k # without_locations evs"
  "without_locations (Ev_string s # evs) = Ev_string s # without_locations evs"
  "without_locations (Ev_integer v # evs) = Ev_integer v # without_locations evs"
  "without_locations (Ev_number d # evs) = Ev_number d # without_locations evs"
  "without_locations (Ev_boolean b # evs) = Ev_boolean b # without_locations evs"
  "without_locations (Ev_null # evs) = Ev_null # without_locations evs"
  "without_locations (evs @ evs') = without_locations evs @ without_locations evs'"
  by (simp_all add: without_locations_def)

section \<open>What a parse does to the position\<close>

definition text_end :: "cursor \<Rightarrow> nat" where
  "text_end at = fst at + length (snd at)"

definition within :: "cursor \<Rightarrow> cursor \<Rightarrow> bool" where
  "within at at' \<longleftrightarrow> text_end at' = text_end at \<and> length (snd at') \<le> length (snd at)"

lemma within_refl [simp]: "within at at"
  by (simp add: within_def)

lemma within_trans [trans]: "within a b \<Longrightarrow> within b c \<Longrightarrow> within a c"
  by (simp add: within_def)

lemma skip_while:
  "length (takeWhile P xs) + length (dropWhile P xs) = length xs"
  "length (dropWhile P xs) \<le> length xs"
  by (metis length_append takeWhile_dropWhile_id) (rule length_dropWhile_le)

lemma within_whitespace [simp]: "within at (json_whitespace at)"
  using skip_while [of json_is_whitespace "snd at"]
  by (cases at) (simp add: within_def text_end_def json_whitespace_def length_dropWhile_le)

lemma within_skip_digits [simp]: "within at (skip_digits at)"
  using skip_while [of json_is_digit "snd at"]
  by (cases at) (simp add: within_def text_end_def skip_digits_def length_dropWhile_le)

lemma within_advance: "snd at \<noteq> [] \<Longrightarrow> within at (advance at) \<and> length (snd (advance at)) < length (snd at)"
  by (cases "snd at") (simp_all add: within_def text_end_def advance_def)

lemma fst_text_end [simp]: "fst at \<le> text_end at"
  by (simp add: text_end_def)

lemma within_end: "within at at' \<Longrightarrow> fst at' \<le> text_end at"
  by (simp add: within_def text_end_def)

lemma json_parse_string_spec:
  assumes "snd at \<noteq> []"
  shows "case json_parse_string at of
      Inl e \<Rightarrow> syntax_error (text_end at) e
    | Inr (s, at') \<Rightarrow> json_valid_utf8 s \<and> within at at' \<and> length (snd at') < length (snd at)"
proof -
  obtain pos c rest where at: "at = (pos, c # rest)" using assms by (cases at; cases "snd at") auto
  show ?thesis
  proof (cases "string_loop pos (pos + 1, rest) (pos + 1) [] []")
    case (Inl e)
    with string_loop_error [OF Inl] show ?thesis by (simp add: json_parse_string_def at text_end_def)
  next
    case (Inr x)
    obtain s at' where x: "x = (s, at')" by (cases x)
    with Inr string_loop_valid [OF Inr [unfolded x]] string_loop_length [OF Inr [unfolded x]] show ?thesis
      by (simp add: json_parse_string_def at text_end_def within_def)
  qed
qed

lemma number_integer_spec:
  assumes "start \<le> text_end at"
  shows "case number_integer start at of
      Inl e \<Rightarrow> syntax_error (text_end at) e
    | Inr at' \<Rightarrow> within at at' \<and> length (snd at') < length (snd at)"
proof -
  obtain pos rest where at: "at = (pos, rest)" by (cases at)
  show ?thesis
  proof (cases rest)
    case Nil
    with assms show ?thesis by (simp add: number_integer_def at)
  next
    case (Cons c r)
    have a: "within at (advance at)" "length (snd (advance at)) < length (snd at)"
      using within_advance [of at] by (simp_all add: at Cons)
    show ?thesis
    proof (cases "c = CHR ''0''")
      case True
      with a within_end [OF a(1)] show ?thesis by (simp add: number_integer_def Let_def at Cons)
    next
      case False
      have "json_is_digit c \<Longrightarrow> length (snd (skip_digits at)) < length (snd at)"
        using length_dropWhile_le [of json_is_digit r] by (simp add: skip_digits_def at Cons)
      with False within_skip_digits [of at] show ?thesis
        by (auto simp: number_integer_def Let_def at Cons json_is_digit_def text_end_def)
    qed
  qed
qed

lemma number_fraction_spec:
  "case number_fraction at of
     Inl e \<Rightarrow> syntax_error (text_end at) e
   | Inr (_, at') \<Rightarrow> within at at'"
proof (cases "snd at \<noteq> [] \<and> hd (snd at) = CHR ''.''")
  case True
  with within_advance [of at] have a: "within at (advance at)" by blast
  with True within_end [OF a] within_trans [OF a within_skip_digits] show ?thesis
    by (simp add: number_fraction_def Let_def)
qed (auto simp: number_fraction_def)

lemma number_exponent_spec:
  "case number_exponent floating at of
     Inl e \<Rightarrow> syntax_error (text_end at) e
   | Inr (_, at') \<Rightarrow> within at at'"
proof (cases "snd at \<noteq> [] \<and> (hd (snd at) = CHR ''e'' \<or> hd (snd at) = CHR ''E'')")
  case True
  let ?s = "if snd (advance at) \<noteq> [] \<and> (hd (snd (advance at)) = CHR ''+'' \<or> hd (snd (advance at)) = CHR ''-'')
      then advance (advance at) else advance at"
  have a: "within at (advance at)" using True within_advance [of at] by blast
  then have s: "within at ?s" using within_trans [OF a] within_advance [of "advance at"] by simp
  have "number_exponent floating at =
      (if \<not> digit_next ?s then Inl (json_fail Je_invalid_number (fst ?s)) else Inr (True, skip_digits ?s))"
    unfolding number_exponent_def Let_def by (rule if_P [OF True])
  with within_end [OF s] within_trans [OF s within_skip_digits] show ?thesis
    by (simp split: if_split)
qed (auto simp: number_exponent_def)

lemma json_parse_number_spec:
  assumes "snd at \<noteq> []"
  shows "case json_parse_number convert at of
      Inl e \<Rightarrow> syntax_error (text_end at) e
    | Inr (ev, at') \<Rightarrow> within at at' \<and> length (snd at') < length (snd at) \<and>
        (\<exists>t. tree_ok t \<and> tree_events t = [ev] \<and> without_locations [ev] = [ev])"
proof -
  obtain b0 where b0: "b0 = (if hd (snd at) = CHR ''-'' then advance at else at)" by blast
  have b: "within at b0" using assms within_advance [of at] by (simp add: b0)
  then have start: "fst at \<le> text_end b0" by (simp add: within_def text_end_def)
  note run = json_parse_number_def [of convert at, unfolded Let_def, folded b0]
  note i = number_integer_spec [OF start]
  show ?thesis
  proof (cases "number_integer (fst at) b0")
    case (Inl e)
    with i b show ?thesis by (simp add: run within_def)
  next
    case i1: (Inr at1)
    have w1: "within at at1" "length (snd at1) < length (snd at)"
      using i i1 b by (simp_all add: within_def)
    show ?thesis
    proof (cases "number_fraction at1")
      case (Inl e)
      with number_fraction_spec [of at1] w1 i1 show ?thesis by (simp add: run within_def)
    next
      case (Inr x)
      obtain f at2 where x: "x = (f, at2)" by (cases x)
      note i2 = Inr [unfolded x]
      have w2: "within at at2" "length (snd at2) < length (snd at)"
        using number_fraction_spec [of at1] i2 w1 by (auto simp: within_def)
      show ?thesis
      proof (cases "number_exponent f at2")
        case (Inl e)
        with number_exponent_spec [where floating = f and at = at2] w2 i1 i2 show ?thesis
          by (simp add: run within_def)
      next
        case (Inr y)
        obtain g at3 where y: "y = (g, at3)" by (cases y)
        note i3 = Inr [unfolded y]
        have w3: "within at at3" "length (snd at3) < length (snd at)"
          using number_exponent_spec [where floating = f and at = at2] i3 w2 by (auto simp: within_def)
        let ?t = "take (fst at3 - fst at) (snd at)"
        have "\<exists>t. tree_ok t \<and> tree_events t = [Ev_integer v] \<and> without_locations [Ev_integer v] = [Ev_integer v]"
          if "int64_of_text ?t = Some v" for v
          by (rule exI [of _ "J_integer v"]) (use that in \<open>auto simp: int64_of_text_def int64_def Let_def split: if_splits\<close>)
        moreover have "\<exists>t. tree_ok t \<and> tree_events t = [Ev_number d] \<and> without_locations [Ev_number d] = [Ev_number d]" for d
          by (rule exI [of _ "J_number d"]) simp
        ultimately show ?thesis
          using i1 i2 i3 w3 by (auto simp add: run split: option.split)
      qed
    qed
  qed
qed


section \<open>What a parse yields\<close>

text \<open>
  A run over the text that ends at \<open>limit\<close> either stops with a syntax error inside it, or
  leaves fewer than \<open>l\<close> bytes and events that satisfy \<open>P\<close>.
\<close>

definition yields :: "nat \<Rightarrow> nat \<Rightarrow> ('d json_event list \<Rightarrow> bool) \<Rightarrow> 'd outcome \<Rightarrow> bool" where
  "yields limit l P m \<longleftrightarrow>
     (case m of
        None \<Rightarrow> False
      | Some (evs, Inl e) \<Rightarrow> syntax_error limit e
      | Some (evs, Inr at) \<Rightarrow> text_end at = limit \<and> length (snd at) < l \<and> P (without_locations evs))"

lemma yields_stop [simp]:
  "yields limit l P (Some (evs, Inl e)) \<longleftrightarrow> syntax_error limit e"
  "yields limit l P (Some (evs, Inr at)) \<longleftrightarrow>
     text_end at = limit \<and> length (snd at) < l \<and> P (without_locations evs)"
  by (simp_all add: yields_def)

lemma yields_emit:
  assumes "yields limit l (\<lambda>evs'. P (without_locations evs @ evs')) m"
  shows "yields limit l P (emit evs m)"
  using assms by (auto simp: yields_def emit_def split: option.splits sum.splits)

lemma yields_and_then:
  assumes "yields limit l Q m"
    "\<And>evs at. text_end at = limit \<Longrightarrow> length (snd at) < l \<Longrightarrow> Q evs \<Longrightarrow>
       yields limit l' (\<lambda>evs'. P (evs @ evs')) (f at)"
  shows "yields limit l' P (and_then m f)"
proof -
  consider (error) evs e where "m = Some (evs, Inl e)" "syntax_error limit e"
    | (parsed) evs at where "m = Some (evs, Inr at)" "text_end at = limit" "length (snd at) < l"
        "Q (without_locations evs)"
  proof (cases m)
    case None
    with assms(1) show ?thesis by (simp add: yields_def)
  next
    case (Some x)
    obtain evs r where x: "x = (evs, r)" by (cases x)
    show ?thesis
      using assms(1) error [of evs] parsed [of evs] unfolding Some x by (cases r) simp_all
  qed
  then show ?thesis
  proof cases
    case error
    then show ?thesis by (simp add: and_then_def)
  next
    case parsed
    then show ?thesis using assms(2) by (simp add: and_then_def yields_emit)
  qed
qed

lemma yields_mono:
  "yields limit l P m \<Longrightarrow> l \<le> l' \<Longrightarrow> (\<And>evs. P evs \<Longrightarrow> Q evs) \<Longrightarrow> yields limit l' Q m"
  by (auto simp: yields_def split: option.splits sum.splits)

definition is_value :: "'d json_event list \<Rightarrow> bool" where
  "is_value evs \<longleftrightarrow> (\<exists>t. tree_ok t \<and> evs = tree_events t)"

definition is_members :: "'d json_event list \<Rightarrow> bool" where
  "is_members evs \<longleftrightarrow> (\<exists>ms. (\<forall>(k, t)\<in>set ms. json_valid_utf8 k \<and> tree_ok t) \<and>
     evs = concat (map (\<lambda>(k, t). Ev_key k # tree_events t) ms) @ [Ev_object_end])"

definition is_elements :: "'d json_event list \<Rightarrow> bool" where
  "is_elements evs \<longleftrightarrow> (\<exists>ts. (\<forall>t\<in>set ts. tree_ok t) \<and> evs = concat (map tree_events ts) @ [Ev_array_end])"

lemma is_membersI:
  "is_members [Ev_object_end]"
  "json_valid_utf8 k \<Longrightarrow> is_value evs \<Longrightarrow> is_members evs' \<Longrightarrow> is_members (Ev_key k # evs @ evs')"
proof -
  show "is_members [Ev_object_end]" unfolding is_members_def by (rule exI [of _ "[]"]) simp
  assume k: "json_valid_utf8 k" and "is_value evs" "is_members evs'"
  then obtain t ms where "tree_ok t" "evs = tree_events t"
    "\<forall>(k, t)\<in>set ms. json_valid_utf8 k \<and> tree_ok t"
    "evs' = concat (map (\<lambda>(k, t). Ev_key k # tree_events t) ms) @ [Ev_object_end]"
    unfolding is_value_def is_members_def by blast
  with k show "is_members (Ev_key k # evs @ evs')"
    unfolding is_members_def by (intro exI [of _ "(k, t) # ms"]) simp
qed

lemma is_elementsI:
  "is_elements [Ev_array_end]"
  "is_value evs \<Longrightarrow> is_elements evs' \<Longrightarrow> is_elements (evs @ evs')"
proof -
  show "is_elements [Ev_array_end]" unfolding is_elements_def by (rule exI [of _ "[]"]) simp
  assume "is_value evs" "is_elements evs'"
  then obtain t ts where "tree_ok t" "evs = tree_events t" "\<forall>t\<in>set ts. tree_ok t"
    "evs' = concat (map tree_events ts) @ [Ev_array_end]"
    unfolding is_value_def is_elements_def by blast
  then show "is_elements (evs @ evs')"
    unfolding is_elements_def by (intro exI [of _ "t # ts"]) simp
qed

lemma is_value_containers:
  "is_members evs \<Longrightarrow> is_value (Ev_object_begin # evs)"
  "is_elements evs \<Longrightarrow> is_value (Ev_array_begin # evs)"
proof -
  show "is_value (Ev_object_begin # evs)" if members: "is_members evs"
  proof -
    obtain ms where "\<forall>(k, t)\<in>set ms. json_valid_utf8 k \<and> tree_ok t"
      "evs = concat (map (\<lambda>(k, t). Ev_key k # tree_events t) ms) @ [Ev_object_end]"
      using members unfolding is_members_def by blast
    then show ?thesis unfolding is_value_def by (intro exI [of _ "J_object ms"]) simp
  qed
  show "is_value (Ev_array_begin # evs)" if elements: "is_elements evs"
  proof -
    obtain ts where "\<forall>t\<in>set ts. tree_ok t" "evs = concat (map tree_events ts) @ [Ev_array_end]"
      using elements unfolding is_elements_def by blast
    then show ?thesis unfolding is_value_def by (intro exI [of _ "J_array ts"]) simp
  qed
qed

lemma is_value_scalars:
  "json_valid_utf8 s \<Longrightarrow> is_value [Ev_string s]" "is_value [Ev_boolean b]" "is_value [Ev_null]"
  unfolding is_value_def
  by (rule exI [of _ "J_string s"], simp) (rule exI [of _ "J_boolean b"], simp, rule exI [of _ J_null], simp)

section \<open>The loops and the values\<close>

definition parses_values :: "nat \<Rightarrow> (cursor \<Rightarrow> 'd outcome) \<Rightarrow> bool" where
  "parses_values n val \<longleftrightarrow>
     (\<forall>at. length (snd at) < n \<longrightarrow> yields (text_end at) (length (snd at)) is_value (val at))"

lemma parses_valuesD:
  "parses_values n val \<Longrightarrow> length (snd at) < n \<Longrightarrow> text_end at = limit \<Longrightarrow>
     yields limit (length (snd at)) is_value (val at)"
  unfolding parses_values_def by blast

lemma text_end_whitespace [simp]:
  "text_end (json_whitespace at) = text_end at"
  "length (snd (json_whitespace at)) \<le> length (snd at)"
  "fst (json_whitespace at) \<le> text_end at"
  using within_whitespace [of at] within_end [OF within_whitespace [of at]] by (simp_all add: within_def)

lemma text_end_advance:
  "snd at \<noteq> [] \<Longrightarrow> text_end (advance at) = text_end at"
  "snd at \<noteq> [] \<Longrightarrow> length (snd (advance at)) < length (snd at)"
  using within_advance [of at] by (simp_all add: within_def)

text \<open>What follows an element: the end of the container, or a comma and the rest.\<close>

lemma yields_tail:
  assumes "P [ev]" "without_locations [ev] = [ev]" "text_end at = limit" "length (snd at) \<le> l"
    "\<And>at'. text_end at' = limit \<Longrightarrow> length (snd at') < length (snd at) \<Longrightarrow> yields limit l P (next_at at')"
  shows "yields limit l P
     (let at = json_whitespace at in
      if snd at = [] then stop Je_unexpected_end (fst at)
      else if hd (snd at) = c then Some ([Ev_location (fst at), ev], Inr (advance at))
      else if hd (snd at) \<noteq> CHR '','' then stop Je_expected_comma_or_end (fst at)
      else next_at (advance at))"
proof -
  obtain w where w: "w = json_whitespace at" by blast
  have le: "text_end w = limit" "length (snd w) \<le> length (snd at)" "fst w \<le> limit"
    using assms(3) text_end_whitespace [of at] unfolding w by linarith+
  show ?thesis
  proof (cases "snd w = []")
    case True
    with le show ?thesis by (simp add: w [symmetric])
  next
    case False
    have a: "text_end (advance w) = limit" "length (snd (advance w)) < length (snd at)"
      using text_end_advance [OF False] le by simp_all
    with False le assms(1,2,4) assms(5) [OF a] show ?thesis by (simp add: w [symmetric])
  qed
qed

lemma object_loop_yields:
  fixes val :: "cursor \<Rightarrow> 'd outcome"
  assumes "parses_values n val"
  shows "length (snd at) < k \<Longrightarrow> k \<le> n \<Longrightarrow> text_end at = limit \<Longrightarrow>
    yields limit (length (snd at)) is_members (object_loop val k at)"
proof (induction k arbitrary: at)
  case (Suc k)
  obtain w where w: "w = json_whitespace at" by blast
  have le: "text_end w = limit" "length (snd w) \<le> length (snd at)" "fst w \<le> limit"
    using Suc.prems(3) text_end_whitespace [of at] unfolding w by simp_all
  show ?case
  proof (cases "snd w \<noteq> [] \<and> hd (snd w) = CHR 0x22")
    case False
    with le show ?thesis by (auto simp: w [symmetric])
  next
    case True
    show ?thesis
    proof (cases "json_parse_string w")
      case (Inl e)
      with json_parse_string_spec [of w] True le show ?thesis by (simp add: w [symmetric])
    next
      case (Inr x)
      obtain key key_end where x: "x = (key, key_end)" by (cases x)
      obtain v where v: "v = json_whitespace key_end" by blast
      have k: "json_valid_utf8 key" "text_end key_end = limit" "length (snd key_end) < length (snd at)"
        using json_parse_string_spec [of w] True Inr x le by (auto simp: within_def)
      then have lv: "text_end v = limit" "length (snd v) < length (snd at)" "fst v \<le> limit"
        using text_end_whitespace [of key_end] unfolding v by linarith+
      have "yields limit (length (snd at)) (\<lambda>evs. is_members (Ev_key key # evs))
        (if snd v = [] then stop Je_unexpected_end (fst v)
         else if hd (snd v) \<noteq> CHR '':'' then stop Je_expected_colon (fst v)
         else and_then (val (advance v)) (\<lambda>at.
           let at = json_whitespace at in
           if snd at = [] then stop Je_unexpected_end (fst at)
           else if hd (snd at) = CHR ''}''
           then Some ([Ev_location (fst at), Ev_object_end], Inr (advance at))
           else if hd (snd at) \<noteq> CHR '','' then stop Je_expected_comma_or_end (fst at)
           else object_loop val k (advance at)))"
      proof (cases "snd v \<noteq> [] \<and> hd (snd v) = CHR '':''")
        case False
        with lv show ?thesis by auto
      next
        case colon: True
        have a: "text_end (advance v) = limit" "length (snd (advance v)) < length (snd v)"
          using text_end_advance colon lv by auto
        have vals: "yields limit (length (snd (advance v))) is_value (val (advance v))"
          by (rule parses_valuesD [OF assms]) (use a lv Suc.prems in simp_all)
        have "yields limit (length (snd at)) (\<lambda>evs. is_members (Ev_key key # evs))
          (and_then (val (advance v)) (\<lambda>at.
           let at = json_whitespace at in
           if snd at = [] then stop Je_unexpected_end (fst at)
           else if hd (snd at) = CHR ''}''
           then Some ([Ev_location (fst at), Ev_object_end], Inr (advance at))
           else if hd (snd at) \<noteq> CHR '','' then stop Je_expected_comma_or_end (fst at)
           else object_loop val k (advance at)))"
        proof (rule yields_and_then [OF vals])
          fix evs :: "'d json_event list" and at1 :: cursor
          assume at1: "text_end at1 = limit" "length (snd at1) < length (snd (advance v))" "is_value evs"
          show "yields limit (length (snd at)) (\<lambda>evs'. is_members (Ev_key key # evs @ evs'))
            (let at = json_whitespace at1 in
             if snd at = [] then stop Je_unexpected_end (fst at)
             else if hd (snd at) = CHR ''}''
             then Some ([Ev_location (fst at), Ev_object_end], Inr (advance at))
             else if hd (snd at) \<noteq> CHR '','' then stop Je_expected_comma_or_end (fst at)
             else object_loop val k (advance at))"
          proof (rule yields_tail)
            show "is_members (Ev_key key # evs @ [Ev_object_end])"
              by (rule is_membersI(2) [OF k(1) at1(3) is_membersI(1)])
            fix at' :: cursor
            assume at': "text_end at' = limit" "length (snd at') < length (snd at1)"
            have "yields limit (length (snd at')) is_members (object_loop val k at')"
              using at' at1 a lv Suc.prems by (intro Suc.IH) simp_all
            then show "yields limit (length (snd at)) (\<lambda>evs'. is_members (Ev_key key # evs @ evs'))
                (object_loop val k at')"
              by (rule yields_mono) (use at' at1 a lv is_membersI(2) [OF k(1) at1(3)] in simp_all)
          qed (use at1 a lv in simp_all)
        qed
        then show ?thesis using colon by simp
      qed
      then show ?thesis
        using True Inr x by (auto simp: w [symmetric] v [symmetric] Let_def intro!: yields_emit)
    qed
  qed
qed simp

lemma array_loop_yields:
  fixes val :: "cursor \<Rightarrow> 'd outcome"
  assumes "parses_values n val"
  shows "length (snd at) < k \<Longrightarrow> k \<le> n \<Longrightarrow> text_end at = limit \<Longrightarrow>
    yields limit (length (snd at)) is_elements (array_loop val k at)"
proof (induction k arbitrary: at)
  case (Suc k)
  have vals: "yields limit (length (snd at)) is_value (val at)"
    by (rule parses_valuesD [OF assms]) (use Suc.prems in simp_all)
  show ?case
    unfolding array_loop.simps
  proof (rule yields_and_then [OF vals])
    fix evs :: "'d json_event list" and at1 :: cursor
    assume at1: "text_end at1 = limit" "length (snd at1) < length (snd at)" "is_value evs"
    show "yields limit (length (snd at)) (\<lambda>evs'. is_elements (evs @ evs'))
      (let at = json_whitespace at1 in
       if snd at = [] then stop Je_unexpected_end (fst at)
       else if hd (snd at) = CHR '']''
       then Some ([Ev_location (fst at), Ev_array_end], Inr (advance at))
       else if hd (snd at) \<noteq> CHR '','' then stop Je_expected_comma_or_end (fst at)
       else array_loop val k (advance at))"
    proof (rule yields_tail)
      show "is_elements (evs @ [Ev_array_end])" by (rule is_elementsI(2) [OF at1(3) is_elementsI(1)])
      fix at' :: cursor
      assume at': "text_end at' = limit" "length (snd at') < length (snd at1)"
      have "yields limit (length (snd at')) is_elements (array_loop val k at')"
        using at' at1 Suc.prems by (intro Suc.IH) simp_all
      then show "yields limit (length (snd at)) (\<lambda>evs'. is_elements (evs @ evs')) (array_loop val k at')"
        by (rule yields_mono) (use at' at1 is_elementsI(2) [OF at1(3)] in simp_all)
    qed (use at1 in simp_all)
  qed
qed simp

lemma parse_object_yields:
  assumes "parses_values n val" "snd at \<noteq> []" "length (snd at) \<le> n" "text_end at = limit"
  shows "yields limit (length (snd at)) is_value (parse_object val n at)"
proof -
  obtain w where w: "w = json_whitespace (advance at)" by blast
  have le: "text_end w = limit" "length (snd w) < length (snd at)" "fst w \<le> limit"
    using text_end_whitespace [of "advance at"] text_end_advance [OF assms(2)] assms(4) unfolding w by linarith+
  have "yields limit (length (snd at)) is_members
    (if snd w \<noteq> [] \<and> hd (snd w) = CHR ''}'' then Some ([Ev_location (fst w), Ev_object_end], Inr (advance w))
     else object_loop val n w)"
  proof (cases "snd w \<noteq> [] \<and> hd (snd w) = CHR ''}''")
    case True
    with text_end_advance [of w] le show ?thesis by (simp add: is_membersI(1))
  next
    case False
    have "yields limit (length (snd w)) is_members (object_loop val n w)"
      using assms le by (intro object_loop_yields [OF assms(1)]) simp_all
    then have "yields limit (length (snd at)) is_members (object_loop val n w)"
      by (rule yields_mono) (use le in simp_all)
    then show ?thesis using False by (simp only: if_False)
  qed
  then have "yields limit (length (snd at)) (\<lambda>evs. is_value (Ev_object_begin # evs))
    (if snd w \<noteq> [] \<and> hd (snd w) = CHR ''}'' then Some ([Ev_location (fst w), Ev_object_end], Inr (advance w))
     else object_loop val n w)"
    by (rule yields_mono) (simp_all add: is_value_containers)
  then show ?thesis unfolding parse_object_def w Let_def by (intro yields_emit) simp
qed

lemma parse_array_yields:
  assumes "parses_values n val" "snd at \<noteq> []" "length (snd at) \<le> n" "text_end at = limit"
  shows "yields limit (length (snd at)) is_value (parse_array val n at)"
proof -
  obtain w where w: "w = json_whitespace (advance at)" by blast
  have le: "text_end w = limit" "length (snd w) < length (snd at)" "fst w \<le> limit"
    using text_end_whitespace [of "advance at"] text_end_advance [OF assms(2)] assms(4) unfolding w by linarith+
  have "yields limit (length (snd at)) is_elements
    (if snd w \<noteq> [] \<and> hd (snd w) = CHR '']'' then Some ([Ev_location (fst w), Ev_array_end], Inr (advance w))
     else array_loop val n w)"
  proof (cases "snd w \<noteq> [] \<and> hd (snd w) = CHR '']''")
    case True
    with text_end_advance [of w] le show ?thesis by (simp add: is_elementsI(1))
  next
    case False
    have "yields limit (length (snd w)) is_elements (array_loop val n w)"
      using assms le by (intro array_loop_yields [OF assms(1)]) simp_all
    then have "yields limit (length (snd at)) is_elements (array_loop val n w)"
      by (rule yields_mono) (use le in simp_all)
    then show ?thesis using False by (simp only: if_False)
  qed
  then have "yields limit (length (snd at)) (\<lambda>evs. is_value (Ev_array_begin # evs))
    (if snd w \<noteq> [] \<and> hd (snd w) = CHR '']'' then Some ([Ev_location (fst w), Ev_array_end], Inr (advance w))
     else array_loop val n w)"
    by (rule yields_mono) (simp_all add: is_value_containers)
  then show ?thesis unfolding parse_array_def w Let_def by (intro yields_emit) simp
qed

lemma consume_literal_spec:
  assumes "literal \<noteq> []"
  shows "case consume_literal literal at of
      Inl e \<Rightarrow> syntax_error (text_end at) e
    | Inr at' \<Rightarrow> text_end at' = text_end at \<and> length (snd at') < length (snd at)"
proof (cases "take (length literal) (snd at) = literal")
  case True
  then have "length literal \<le> length (snd at)" by (metis length_take min.cobounded1 min.absorb_iff2 min_def)
  moreover have "0 < length literal" using assms by simp
  ultimately show ?thesis using True by (simp add: consume_literal_def text_end_def del: length_greater_0_conv)
next
  case False
  then show ?thesis by (simp add: consume_literal_def)
qed

lemma literal_yields:
  assumes "literal \<noteq> []" "is_value [ev]" "without_locations [ev] = [ev]" "text_end at = limit"
  shows "yields limit (length (snd at)) is_value (literal_event literal ev at)"
  using consume_literal_spec [OF assms(1), of at] assms(2-4)
  by (cases "consume_literal literal at") (simp_all add: literal_event_def scalar_def)

text \<open>With more fuel than bytes every parse of a value ends, in a value or in a syntax error.\<close>

lemma parse_value_yields:
  fixes convert :: "char list \<Rightarrow> 'd option"
  shows "parses_values n (parse_value convert n)"
proof (induction n)
  case 0
  show ?case by (simp add: parses_values_def)
next
  case (Suc n)
  show ?case
    unfolding parses_values_def
  proof (intro allI impI)
    fix at :: cursor
    assume len: "length (snd at) < Suc n"
    obtain w where w: "w = json_whitespace at" by blast
    have le: "text_end w = text_end at" "length (snd w) \<le> length (snd at)" "fst w \<le> text_end at"
      unfolding w by simp_all
    let ?body = "let c = hd (snd w) in
         if c = CHR ''{'' then parse_object (parse_value convert n) n w
         else if c = CHR ''['' then parse_array (parse_value convert n) n w
         else if c = CHR 0x22 then scalar (map_sum id (\<lambda>(s, at). (Ev_string s, at)) (json_parse_string w))
         else if c = CHR ''t'' then literal_event ''true'' (Ev_boolean True) w
         else if c = CHR ''f'' then literal_event ''false'' (Ev_boolean False) w
         else if c = CHR ''n'' then literal_event ''null'' Ev_null w
         else if c = CHR ''-'' \<or> json_is_digit c then scalar (json_parse_number convert w)
         else stop Je_unexpected_token (fst w)"
    show "yields (text_end at) (length (snd at)) is_value (parse_value convert (Suc n) at)"
    proof (cases "snd w = []")
      case True
      with le show ?thesis by (simp add: w [symmetric])
    next
      case False
      have containers: "yields (text_end at) (length (snd w)) is_value (parse_object (parse_value convert n) n w)"
        "yields (text_end at) (length (snd w)) is_value (parse_array (parse_value convert n) n w)"
        using Suc False le len by (auto intro!: parse_object_yields parse_array_yields)
      have string: "yields (text_end at) (length (snd w)) is_value
          (scalar (map_sum id (\<lambda>(s, at). (Ev_string s, at)) (json_parse_string w)) :: 'd outcome)"
        using json_parse_string_spec [OF False] le
        by (cases "json_parse_string w") (auto simp: scalar_def within_def is_value_scalars)
      have number: "yields (text_end at) (length (snd w)) is_value (scalar (json_parse_number convert w))"
        using json_parse_number_spec [OF False, of convert] le
        by (cases "json_parse_number convert w") (auto simp: scalar_def within_def is_value_def, metis)
      have literals: "yields (text_end at) (length (snd w)) is_value (literal_event ''true'' (Ev_boolean True) w :: 'd outcome)"
        "yields (text_end at) (length (snd w)) is_value (literal_event ''false'' (Ev_boolean False) w :: 'd outcome)"
        "yields (text_end at) (length (snd w)) is_value (literal_event ''null'' Ev_null w :: 'd outcome)"
        using le by (simp_all add: literal_yields is_value_scalars)
      have "yields (text_end at) (length (snd w)) is_value ?body"
        using containers string number literals le by (simp add: Let_def split: if_split)
      then have "yields (text_end at) (length (snd at)) (\<lambda>evs. is_value (without_locations [Ev_location (fst w)] @ evs)) ?body"
        by (rule yields_mono) (use le in simp_all)
      then show ?thesis
        using False unfolding parse_value.simps Let_def w [symmetric] by (simp only: if_False yields_emit)
    qed
  qed
qed


section \<open>The whole document\<close>

text \<open>C40: every parse ends within the chosen fuel, on any input: a document is accepted only
  with the events of exactly one JSON value, whose texts and keys are valid UTF-8 and whose
  integers fit 64 bits, and is refused only with a syntax error at an offset inside the input,
  never with an allocation failure.\<close>

theorem json_parse_outcome:
  "\<exists>evs result. json_parse convert input = Some (evs, result) \<and>
     (case result of
        None \<Rightarrow> \<exists>t. tree_ok t \<and> without_locations evs = tree_events t
      | Some e \<Rightarrow> syntax_error (length input) e)"
proof -
  obtain w where w: "w = json_whitespace (0, input)" by blast
  have le: "text_end w = length input" "length (snd w) \<le> length input"
    using text_end_whitespace [of "(0, input)"] unfolding w by (simp_all add: text_end_def)
  have "yields (length input) (length (snd w)) is_value (parse_value convert (length input + 1) w)"
    by (rule parses_valuesD [OF parse_value_yields]) (use le in simp_all)
  then consider (error) evs e where "parse_value convert (length input + 1) w = Some (evs, Inl e)"
      "syntax_error (length input) e"
    | (parsed) evs at where "parse_value convert (length input + 1) w = Some (evs, Inr at)"
      "text_end at = length input" "is_value (without_locations evs)"
    by (cases "parse_value convert (length input + 1) w")
      (auto simp: yields_def split: prod.splits sum.splits)
  then show ?thesis
  proof cases
    case error
    then show ?thesis by (simp add: json_parse_def w [symmetric])
  next
    case parsed
    then show ?thesis
      using text_end_whitespace(3) [of at] by (auto simp: json_parse_def w [symmetric] Let_def is_value_def)
  qed
qed


end
