(* ===== verification/JsonWriter.thy ===== *)
theory JsonWriter
  imports JsonParser
begin

text \<open>
  The writer: \<^verbatim>\<open>json/json_writer.hpp\<close> and \<^verbatim>\<open>json/json_writer.cpp\<close>. The container stack is
  a list with the innermost frame first, and the buffer the writer refers to is part of its
  state. Each call returns what the C++ method returns and the writer after it. The text of
  a \<open>double\<close> is the parameter \<open>number_text\<close>, \<open>None\<close> for a value that is not finite.
\<close>

section \<open>State\<close>

datatype json_container = C_object | C_array

record json_frame =
  jf_type :: json_container
  jf_first :: bool
  jf_awaiting_value :: bool

record json_writer =
  jw_output :: string
  jw_stack :: "json_frame list"
  jw_root_written :: bool
  jw_valid :: bool

definition new_json_writer :: json_writer where
  "new_json_writer = \<lparr>jw_output = [], jw_stack = [], jw_root_written = False, jw_valid = True\<rparr>"

definition new_frame :: "json_container \<Rightarrow> json_frame" where
  "new_frame c = \<lparr>jf_type = c, jf_first = True, jf_awaiting_value = False\<rparr>"

definition jw_invalid :: "json_writer \<Rightarrow> bool \<times> json_writer" where
  "jw_invalid w = (False, w\<lparr>jw_valid := False\<rparr>)"

definition jw_append :: "string \<Rightarrow> json_writer \<Rightarrow> json_writer" where
  "jw_append s w = w\<lparr>jw_output := jw_output w @ s\<rparr>"

definition jw_top :: "(json_frame \<Rightarrow> json_frame) \<Rightarrow> json_writer \<Rightarrow> json_writer" where
  "jw_top f w = w\<lparr>jw_stack := f (hd (jw_stack w)) # tl (jw_stack w)\<rparr>"

section \<open>Operations\<close>

definition before_value :: "json_writer \<Rightarrow> bool \<times> json_writer" where
  "before_value w =
     (if \<not> jw_valid w then (False, w)
      else if jw_stack w = [] then
        (if jw_root_written w then jw_invalid w else (True, w\<lparr>jw_root_written := True\<rparr>))
      else
        let frame = hd (jw_stack w) in
        if jf_type frame = C_object then
          (if \<not> jf_awaiting_value frame then jw_invalid w
           else (True, jw_top (\<lambda>f. f\<lparr>jf_awaiting_value := False\<rparr>) w))
        else
          (True, jw_top (\<lambda>f. f\<lparr>jf_first := False\<rparr>)
             (if \<not> jf_first frame then jw_append '','' w else w)))"

definition begin_container :: "json_container \<Rightarrow> string \<Rightarrow> json_writer \<Rightarrow> bool \<times> json_writer" where
  "begin_container c mark w =
     (case before_value w of (ok, w) \<Rightarrow>
        if \<not> ok then jw_invalid w
        else let w = jw_append mark w in (True, w\<lparr>jw_stack := new_frame c # jw_stack w\<rparr>))"

definition jw_begin_object :: "json_writer \<Rightarrow> bool \<times> json_writer" where
  "jw_begin_object w = begin_container C_object ''{'' w"

definition jw_end_object :: "json_writer \<Rightarrow> bool \<times> json_writer" where
  "jw_end_object w =
     (if \<not> jw_valid w \<or> jw_stack w = [] \<or> jf_type (hd (jw_stack w)) \<noteq> C_object \<or>
         jf_awaiting_value (hd (jw_stack w))
      then jw_invalid w
      else (True, jw_append ''}'' (w\<lparr>jw_stack := tl (jw_stack w)\<rparr>)))"

definition jw_begin_array :: "json_writer \<Rightarrow> bool \<times> json_writer" where
  "jw_begin_array w = begin_container C_array ''['' w"

definition jw_end_array :: "json_writer \<Rightarrow> bool \<times> json_writer" where
  "jw_end_array w =
     (if \<not> jw_valid w \<or> jw_stack w = [] \<or> jf_type (hd (jw_stack w)) \<noteq> C_array
      then jw_invalid w
      else (True, jw_append '']'' (w\<lparr>jw_stack := tl (jw_stack w)\<rparr>)))"

definition jw_quoted :: "string \<Rightarrow> json_writer \<Rightarrow> bool \<times> json_writer" where
  "jw_quoted s w =
     (if \<not> json_valid_utf8 s then jw_invalid w
      else (True, w\<lparr>jw_output := json_append_escaped (jw_output w @ [CHR 0x22]) s @ [CHR 0x22]\<rparr>))"

definition jw_key :: "string \<Rightarrow> json_writer \<Rightarrow> bool \<times> json_writer" where
  "jw_key name w =
     (if \<not> jw_valid w \<or> jw_stack w = [] \<or> jf_type (hd (jw_stack w)) \<noteq> C_object \<or>
         jf_awaiting_value (hd (jw_stack w))
      then jw_invalid w
      else
        let w = jw_top (\<lambda>f. f\<lparr>jf_first := False\<rparr>)
                  (if \<not> jf_first (hd (jw_stack w)) then jw_append '','' w else w) in
        case jw_quoted name w of (ok, w) \<Rightarrow>
          if \<not> ok then jw_invalid w
          else (True, jw_top (\<lambda>f. f\<lparr>jf_awaiting_value := True\<rparr>) (jw_append '':'' w)))"

definition jw_string :: "string \<Rightarrow> json_writer \<Rightarrow> bool \<times> json_writer" where
  "jw_string s w = (case before_value w of (ok, w) \<Rightarrow> if ok then jw_quoted s w else (False, w))"

text \<open>\<^verbatim>\<open>std::to_chars\<close> of an integer: an optional sign and the decimal digits.\<close>

fun decimal_text :: "nat \<Rightarrow> string" where
  "decimal_text n =
     (if n < 10 then [char_of (48 + n)] else decimal_text (n div 10) @ [char_of (48 + n mod 10)])"

declare decimal_text.simps [simp del]

definition integer_text :: "int \<Rightarrow> string" where
  "integer_text v = (if v < 0 then CHR ''-'' # decimal_text (nat (- v)) else decimal_text (nat v))"

definition plain_value :: "string \<Rightarrow> json_writer \<Rightarrow> bool \<times> json_writer" where
  "plain_value s w = (case before_value w of (ok, w) \<Rightarrow> if ok then (True, jw_append s w) else (False, w))"

definition jw_integer :: "int \<Rightarrow> json_writer \<Rightarrow> bool \<times> json_writer" where
  "jw_integer v w = plain_value (integer_text v) w"

definition jw_number :: "('d \<Rightarrow> string option) \<Rightarrow> 'd \<Rightarrow> json_writer \<Rightarrow> bool \<times> json_writer" where
  "jw_number number_text d w =
     (case before_value w of (ok, w) \<Rightarrow>
        if \<not> ok then jw_invalid w
        else case number_text d of None \<Rightarrow> jw_invalid w | Some s \<Rightarrow> (True, jw_append s w))"

definition jw_boolean :: "bool \<Rightarrow> json_writer \<Rightarrow> bool \<times> json_writer" where
  "jw_boolean b w = plain_value (if b then ''true'' else ''false'') w"

definition jw_null :: "json_writer \<Rightarrow> bool \<times> json_writer" where
  "jw_null w = plain_value ''null'' w"

definition jw_complete :: "json_writer \<Rightarrow> bool" where
  "jw_complete w \<longleftrightarrow> jw_valid w \<and> jw_root_written w \<and> jw_stack w = []"

text \<open>
  A call is named by the event it stands for; a sequence of calls ignores the results, as a
  caller may. A location is not a call.
\<close>

fun jw_call :: "('d \<Rightarrow> string option) \<Rightarrow> 'd json_event \<Rightarrow> json_writer \<Rightarrow> bool \<times> json_writer" where
  "jw_call number_text Ev_object_begin w = jw_begin_object w"
| "jw_call number_text Ev_object_end w = jw_end_object w"
| "jw_call number_text Ev_array_begin w = jw_begin_array w"
| "jw_call number_text Ev_array_end w = jw_end_array w"
| "jw_call number_text (Ev_key k) w = jw_key k w"
| "jw_call number_text (Ev_string s) w = jw_string s w"
| "jw_call number_text (Ev_integer v) w = jw_integer v w"
| "jw_call number_text (Ev_number d) w = jw_number number_text d w"
| "jw_call number_text (Ev_boolean b) w = jw_boolean b w"
| "jw_call number_text Ev_null w = jw_null w"
| "jw_call number_text (Ev_location _) w = (True, w)"

definition jw_run :: "('d \<Rightarrow> string option) \<Rightarrow> 'd json_event list \<Rightarrow> json_writer" where
  "jw_run number_text calls = foldl (\<lambda>w c. snd (jw_call number_text c w)) new_json_writer calls"

section \<open>The text of a document\<close>

definition quoted_text :: "string \<Rightarrow> string" where
  "quoted_text s = CHR 0x22 # json_append_escaped [] s @ [CHR 0x22]"

fun comma_list :: "string list \<Rightarrow> string" where
  "comma_list [] = []"
| "comma_list [x] = x"
| "comma_list (x # xs) = x @ CHR '','' # comma_list xs"

fun tree_text :: "('d \<Rightarrow> string option) \<Rightarrow> 'd json_tree \<Rightarrow> string" where
  "tree_text nt (J_object ms) =
     CHR ''{'' # comma_list (map (\<lambda>(k, t). quoted_text k @ CHR '':'' # tree_text nt t) ms) @ ''}''"
| "tree_text nt (J_array ts) = CHR ''['' # comma_list (map (tree_text nt) ts) @ '']''"
| "tree_text nt (J_string s) = quoted_text s"
| "tree_text nt (J_integer v) = integer_text v"
| "tree_text nt (J_number d) = (case nt d of None \<Rightarrow> [] | Some s \<Rightarrow> s)"
| "tree_text nt (J_boolean b) = (if b then ''true'' else ''false'')"
| "tree_text nt J_null = ''null''"

lemma comma_list_snoc:
  "comma_list (xs @ [x]) = comma_list xs @ (if xs = [] then [] else '','') @ x"
proof (induction xs rule: comma_list.induct)
  case (3 x y ys)
  then show ?case by simp
qed auto

section \<open>Where a writer stands\<close>

text \<open>
  A valid writer stands inside a document: inside a chain of containers, the innermost
  first, each with the members it has and the key of the one in progress, and at a spot
  where the next call applies.
\<close>

datatype 'd json_context =
    In_object "(string \<times> 'd json_tree) list" string
  | In_array "'d json_tree list"

datatype 'd json_spot =
    At_root
  | At_done "'d json_tree"
  | At_object "(string \<times> 'd json_tree) list"
  | At_key "(string \<times> 'd json_tree) list" string
  | At_array "'d json_tree list"

definition members_text :: "('d \<Rightarrow> string option) \<Rightarrow> (string \<times> 'd json_tree) list \<Rightarrow> string" where
  "members_text nt ms = comma_list (map (\<lambda>(k, t). quoted_text k @ CHR '':'' # tree_text nt t) ms)"

definition members_events :: "(string \<times> 'd json_tree) list \<Rightarrow> 'd json_event list" where
  "members_events ms = concat (map (\<lambda>(k, t). Ev_key k # tree_events t) ms)"

definition members_ok :: "(string \<times> 'd json_tree) list \<Rightarrow> bool" where
  "members_ok ms \<longleftrightarrow> (\<forall>(k, t)\<in>set ms. json_valid_utf8 k \<and> tree_ok t)"

abbreviation comma_after :: "'a list \<Rightarrow> string" where
  "comma_after xs \<equiv> (if xs = [] then [] else '','')"

primrec context_text :: "('d \<Rightarrow> string option) \<Rightarrow> 'd json_context \<Rightarrow> string" where
  "context_text nt (In_object ms k) =
     CHR ''{'' # members_text nt ms @ comma_after ms @ quoted_text k @ '':''"
| "context_text nt (In_array ts) = CHR ''['' # comma_list (map (tree_text nt) ts) @ comma_after ts"

primrec context_events :: "'d json_context \<Rightarrow> 'd json_event list" where
  "context_events (In_object ms k) = Ev_object_begin # members_events ms @ [Ev_key k]"
| "context_events (In_array ts) = Ev_array_begin # concat (map tree_events ts)"

primrec context_frame :: "'d json_context \<Rightarrow> json_frame" where
  "context_frame (In_object ms k) = \<lparr>jf_type = C_object, jf_first = False, jf_awaiting_value = False\<rparr>"
| "context_frame (In_array ts) = \<lparr>jf_type = C_array, jf_first = False, jf_awaiting_value = False\<rparr>"

primrec context_ok :: "'d json_context \<Rightarrow> bool" where
  "context_ok (In_object ms k) \<longleftrightarrow> members_ok ms \<and> json_valid_utf8 k"
| "context_ok (In_array ts) \<longleftrightarrow> (\<forall>t\<in>set ts. tree_ok t)"

primrec spot_text :: "('d \<Rightarrow> string option) \<Rightarrow> 'd json_spot \<Rightarrow> string" where
  "spot_text nt At_root = []"
| "spot_text nt (At_done t) = tree_text nt t"
| "spot_text nt (At_object ms) = CHR ''{'' # members_text nt ms"
| "spot_text nt (At_key ms k) = context_text nt (In_object ms k)"
| "spot_text nt (At_array ts) = CHR ''['' # comma_list (map (tree_text nt) ts)"

primrec spot_events :: "'d json_spot \<Rightarrow> 'd json_event list" where
  "spot_events At_root = []"
| "spot_events (At_done t) = tree_events t"
| "spot_events (At_object ms) = Ev_object_begin # members_events ms"
| "spot_events (At_key ms k) = context_events (In_object ms k)"
| "spot_events (At_array ts) = Ev_array_begin # concat (map tree_events ts)"

primrec spot_frames :: "'d json_spot \<Rightarrow> json_frame list" where
  "spot_frames At_root = []"
| "spot_frames (At_done t) = []"
| "spot_frames (At_object ms) = [\<lparr>jf_type = C_object, jf_first = (ms = []), jf_awaiting_value = False\<rparr>]"
| "spot_frames (At_key ms k) = [\<lparr>jf_type = C_object, jf_first = False, jf_awaiting_value = True\<rparr>]"
| "spot_frames (At_array ts) = [\<lparr>jf_type = C_array, jf_first = (ts = []), jf_awaiting_value = False\<rparr>]"

primrec spot_ok :: "'d json_spot \<Rightarrow> bool" where
  "spot_ok At_root \<longleftrightarrow> True"
| "spot_ok (At_done t) \<longleftrightarrow> tree_ok t"
| "spot_ok (At_object ms) \<longleftrightarrow> members_ok ms"
| "spot_ok (At_key ms k) \<longleftrightarrow> members_ok ms \<and> json_valid_utf8 k"
| "spot_ok (At_array ts) \<longleftrightarrow> (\<forall>t\<in>set ts. tree_ok t)"

definition path_text :: "('d \<Rightarrow> string option) \<Rightarrow> 'd json_context list \<Rightarrow> string" where
  "path_text nt ctxs = concat (map (context_text nt) (rev ctxs))"

definition path_events :: "'d json_context list \<Rightarrow> 'd json_event list" where
  "path_events ctxs = concat (map context_events (rev ctxs))"

lemma path_simps [simp]:
  "path_text nt [] = []" "path_text nt (c # ctxs) = path_text nt ctxs @ context_text nt c"
  "path_events [] = []" "path_events (c # ctxs) = path_events ctxs @ context_events c"
  by (simp_all add: path_text_def path_events_def)

text \<open>The writer before a call, and the writer when a value is due.\<close>

definition writes ::
    "('d \<Rightarrow> string option) \<Rightarrow> json_writer \<Rightarrow> 'd json_event list \<Rightarrow> 'd json_context list \<Rightarrow> 'd json_spot \<Rightarrow> bool" where
  "writes nt w evs ctxs spot \<longleftrightarrow>
     jw_valid w \<and> jw_stack w = spot_frames spot @ map context_frame ctxs \<and>
     jw_output w = path_text nt ctxs @ spot_text nt spot \<and> evs = path_events ctxs @ spot_events spot \<and>
     jw_root_written w = (spot \<noteq> At_root) \<and> (spot_frames spot = [] \<longrightarrow> ctxs = []) \<and>
     list_all context_ok ctxs \<and> spot_ok spot"

definition value_due ::
    "('d \<Rightarrow> string option) \<Rightarrow> json_writer \<Rightarrow> 'd json_event list \<Rightarrow> 'd json_context list \<Rightarrow> bool" where
  "value_due nt w evs ctxs \<longleftrightarrow>
     jw_valid w \<and> jw_stack w = map context_frame ctxs \<and> jw_output w = path_text nt ctxs \<and>
     evs = path_events ctxs \<and> jw_root_written w \<and> list_all context_ok ctxs"

definition follows :: "('d \<Rightarrow> string option) \<Rightarrow> 'd json_event list \<Rightarrow> json_writer \<Rightarrow> bool" where
  "follows nt evs w \<longleftrightarrow> \<not> jw_valid w \<or> (\<exists>ctxs spot. writes nt w evs ctxs spot)"

lemma followsI: "writes nt w evs ctxs spot \<Longrightarrow> follows nt evs w"
  by (auto simp: follows_def)

lemma follows_invalid [simp]: "follows nt evs (snd (jw_invalid w))" "\<not> jw_valid w \<Longrightarrow> follows nt evs w"
  by (simp_all add: follows_def jw_invalid_def)

lemma before_value_invalid: "\<not> jw_valid w \<Longrightarrow> before_value w = (False, w)"
  by (simp add: before_value_def)

lemma before_value_cases:
  assumes "writes nt w evs ctxs spot"
  obtains (refused) w' where "before_value w = (False, w')" "\<not> jw_valid w'"
  | (due) w' ctxs' where "before_value w = (True, w')" "value_due nt w' evs ctxs'"
proof (cases spot)
  case At_root
  with assms show thesis
    by (intro due [of "w\<lparr>jw_root_written := True\<rparr>" "[]"]) (simp_all add: before_value_def writes_def value_due_def)
next
  case (At_done t)
  with assms show thesis
    by (intro refused [of "w\<lparr>jw_valid := False\<rparr>"]) (simp_all add: before_value_def writes_def jw_invalid_def)
next
  case (At_object ms)
  with assms show thesis
    by (intro refused [of "w\<lparr>jw_valid := False\<rparr>"]) (simp_all add: before_value_def writes_def jw_invalid_def)
next
  case (At_key ms k)
  with assms show thesis
    by (intro due [of "jw_top (\<lambda>f. f\<lparr>jf_awaiting_value := False\<rparr>) w" "In_object ms k # ctxs"])
      (simp_all add: before_value_def writes_def value_due_def jw_top_def)
next
  case (At_array ts)
  with assms show thesis
    by (intro due [of "jw_top (\<lambda>f. f\<lparr>jf_first := False\<rparr>) (if ts = [] then w else jw_append '','' w)" "In_array ts # ctxs"])
      (simp_all add: before_value_def writes_def value_due_def jw_top_def jw_append_def)
qed

lemma members_snoc:
  "members_text nt (ms @ [(k, t)]) = members_text nt ms @ comma_after ms @ quoted_text k @ CHR '':'' # tree_text nt t"
  "members_events (ms @ [(k, t)]) = members_events ms @ Ev_key k # tree_events t"
  "members_ok (ms @ [(k, t)]) \<longleftrightarrow> members_ok ms \<and> json_valid_utf8 k \<and> tree_ok t"
  by (auto simp: members_text_def members_events_def members_ok_def comma_list_snoc)

text \<open>The text of a value, written when one is due, completes it.\<close>

lemma value_due_text:
  assumes "value_due nt w evs ctxs" "tree_ok t"
  shows "follows nt (evs @ tree_events t) (jw_append (tree_text nt t) w)"
proof (cases ctxs)
  case Nil
  with assms show ?thesis
    by (intro followsI [of nt _ _ "[]" "At_done t"]) (simp add: writes_def value_due_def jw_append_def)
next
  case (Cons c cs)
  show ?thesis
  proof (cases c)
    case (In_object ms k)
    with Cons assms show ?thesis
      by (intro followsI [of nt _ _ cs "At_object (ms @ [(k, t)])"])
        (simp add: writes_def value_due_def jw_append_def members_snoc)
  next
    case (In_array ts)
    with Cons assms show ?thesis
      by (intro followsI [of nt _ _ cs "At_array (ts @ [t])"])
        (auto simp: writes_def value_due_def jw_append_def comma_list_snoc)
  qed
qed


section \<open>Every call keeps the writer inside a document\<close>

text \<open>A call that writes one value, through \<open>put\<close> once the value is allowed.\<close>

lemma value_call:
  assumes "follows nt evs w"
    "\<And>w'. \<not> jw_valid w' \<Longrightarrow> \<not> jw_valid (snd (fail_with w'))"
    "\<And>w' ctxs. value_due nt w' evs ctxs \<Longrightarrow> follows nt (evs @ [ev]) (snd (put w'))"
  shows "follows nt (evs @ [ev]) (snd (case before_value w of (ok, w) \<Rightarrow> if ok then put w else fail_with w))"
proof (cases "jw_valid w")
  case False
  with assms(2) [of w] show ?thesis by (simp add: before_value_invalid)
next
  case True
  then obtain ctxs spot where "writes nt w evs ctxs spot" using assms(1) by (auto simp: follows_def)
  then show ?thesis
  proof (cases rule: before_value_cases)
    case (refused w')
    with assms(2) [of w'] show ?thesis by simp
  next
    case (due w' ctxs')
    with assms(3) show ?thesis by simp
  qed
qed

lemma plain_value_follows:
  assumes "follows nt evs w" "tree_ok t" "tree_events t = [ev]" "tree_text nt t = s"
  shows "follows nt (evs @ [ev]) (snd (plain_value s w))"
  unfolding plain_value_def
proof (rule value_call [OF assms(1)])
  show "follows nt (evs @ [ev]) (snd (True, jw_append s w'))" if "value_due nt w' evs ctxs" for w' ctxs
    using value_due_text [OF that assms(2)] assms(3,4) by simp
qed simp

lemma escaped_quoted: "json_append_escaped (b @ [CHR 0x22]) s @ [CHR 0x22] = b @ quoted_text s"
  by (simp add: quoted_text_def json_append_escaped_append [of "b @ [CHR 0x22]"])

lemma jw_string_follows:
  assumes "follows nt evs w"
  shows "follows nt (evs @ [Ev_string s]) (snd (jw_string s w))"
  unfolding jw_string_def
proof (rule value_call [OF assms])
  show "follows nt (evs @ [Ev_string s]) (snd (jw_quoted s w'))" if "value_due nt w' evs ctxs" for w' ctxs
  proof (cases "json_valid_utf8 s")
    case True
    then have "snd (jw_quoted s w') = jw_append (tree_text nt (J_string s)) w'"
      by (simp add: jw_quoted_def jw_append_def escaped_quoted)
    with value_due_text [OF that, of "J_string s"] True show ?thesis by simp
  qed (simp add: jw_quoted_def)
qed simp

lemma jw_number_follows:
  assumes "follows nt evs w"
  shows "follows nt (evs @ [Ev_number d]) (snd (jw_number nt d w))"
proof -
  let ?put = "\<lambda>w. case nt d of None \<Rightarrow> jw_invalid w | Some s \<Rightarrow> (True, jw_append s w)"
  have "jw_number nt d w = (case before_value w of (ok, w) \<Rightarrow> if ok then ?put w else jw_invalid w)"
    by (simp add: jw_number_def split: prod.split)
  moreover have "follows nt (evs @ [Ev_number d])
      (snd (case before_value w of (ok, w) \<Rightarrow> if ok then ?put w else jw_invalid w))"
  proof (rule value_call [OF assms])
    show "follows nt (evs @ [Ev_number d]) (snd (?put w'))" if "value_due nt w' evs ctxs" for w' ctxs
      using value_due_text [OF that, of "J_number d"] by (cases "nt d") simp_all
  qed (simp add: jw_invalid_def)
  ultimately show ?thesis by simp
qed

lemma begin_container_follows:
  assumes "follows nt evs w"
    "c = C_object \<and> mark = ''{'' \<and> ev = Ev_object_begin \<or> c = C_array \<and> mark = ''['' \<and> ev = Ev_array_begin"
  shows "follows nt (evs @ [ev]) (snd (begin_container c mark w))"
proof -
  let ?put = "\<lambda>w. let w = jw_append mark w in (True, w\<lparr>jw_stack := new_frame c # jw_stack w\<rparr>)"
  have "begin_container c mark w = (case before_value w of (ok, w) \<Rightarrow> if ok then ?put w else jw_invalid w)"
    by (simp add: begin_container_def split: prod.split)
  moreover have "follows nt (evs @ [ev])
      (snd (case before_value w of (ok, w) \<Rightarrow> if ok then ?put w else jw_invalid w))"
  proof (rule value_call [OF assms(1)])
    show "follows nt (evs @ [ev]) (snd (?put w'))" if "value_due nt w' evs ctxs" for w' ctxs
      using that assms(2)
      by (intro followsI [of nt _ _ ctxs "if c = C_object then At_object [] else At_array []"])
        (auto simp: writes_def value_due_def jw_append_def new_frame_def members_text_def
          members_events_def members_ok_def Let_def)
  qed (simp add: jw_invalid_def)
  ultimately show ?thesis by simp
qed

lemma end_object_follows:
  assumes "follows nt evs w"
  shows "follows nt (evs @ [Ev_object_end]) (snd (jw_end_object w))"
proof (cases "jw_valid w \<and> jw_stack w \<noteq> [] \<and> jf_type (hd (jw_stack w)) = C_object \<and>
    \<not> jf_awaiting_value (hd (jw_stack w))")
  case False
  then show ?thesis by (auto simp: jw_end_object_def)
next
  case True
  then obtain ctxs spot where at: "writes nt w evs ctxs spot" using assms by (auto simp: follows_def)
  then obtain ms where spot: "spot = At_object ms" using True by (cases spot) (auto simp: writes_def)
  let ?w = "w\<lparr>jw_stack := tl (jw_stack w), jw_output := path_text nt ctxs\<rparr>"
  have due: "value_due nt ?w (path_events ctxs) ctxs" using at by (simp add: writes_def value_due_def spot)
  have tree: "tree_events (J_object ms) = Ev_object_begin # members_events ms @ [Ev_object_end]"
    "tree_text nt (J_object ms) = CHR ''{'' # members_text nt ms @ ''}''"
    by (simp_all add: members_events_def members_text_def)
  have "snd (jw_end_object w) = jw_append (tree_text nt (J_object ms)) ?w"
    using True at unfolding tree by (simp add: jw_end_object_def jw_append_def writes_def spot)
  moreover have "evs @ [Ev_object_end] = path_events ctxs @ tree_events (J_object ms)"
    using at unfolding tree by (simp add: writes_def spot)
  moreover have "tree_ok (J_object ms)" using at by (simp add: writes_def spot members_ok_def)
  ultimately show ?thesis using value_due_text [OF due] by metis
qed

lemma end_array_follows:
  assumes "follows nt evs w"
  shows "follows nt (evs @ [Ev_array_end]) (snd (jw_end_array w))"
proof (cases "jw_valid w \<and> jw_stack w \<noteq> [] \<and> jf_type (hd (jw_stack w)) = C_array")
  case False
  then show ?thesis by (auto simp: jw_end_array_def)
next
  case True
  then obtain ctxs spot where at: "writes nt w evs ctxs spot" using assms by (auto simp: follows_def)
  then obtain ts where spot: "spot = At_array ts" using True by (cases spot) (auto simp: writes_def)
  let ?w = "w\<lparr>jw_stack := tl (jw_stack w), jw_output := path_text nt ctxs\<rparr>"
  have due: "value_due nt ?w (path_events ctxs) ctxs" using at by (simp add: writes_def value_due_def spot)
  have "snd (jw_end_array w) = jw_append (tree_text nt (J_array ts)) ?w"
    using True at by (simp add: jw_end_array_def jw_append_def writes_def spot)
  moreover have "evs @ [Ev_array_end] = path_events ctxs @ tree_events (J_array ts)"
    using at by (simp add: writes_def spot)
  moreover have "tree_ok (J_array ts)" using at by (simp add: writes_def spot)
  ultimately show ?thesis using value_due_text [OF due] by metis
qed

lemma key_follows:
  assumes "follows nt evs w"
  shows "follows nt (evs @ [Ev_key k]) (snd (jw_key k w))"
proof (cases "jw_valid w \<and> jw_stack w \<noteq> [] \<and> jf_type (hd (jw_stack w)) = C_object \<and>
    \<not> jf_awaiting_value (hd (jw_stack w))")
  case False
  then show ?thesis by (auto simp: jw_key_def)
next
  case True
  then obtain ctxs spot where at: "writes nt w evs ctxs spot" using assms by (auto simp: follows_def)
  then obtain ms where spot: "spot = At_object ms" using True by (cases spot) (auto simp: writes_def)
  show ?thesis
  proof (cases "json_valid_utf8 k")
    case False
    with True show ?thesis by (simp add: jw_key_def jw_quoted_def jw_invalid_def Let_def follows_def)
  next
    case valid: True
    with True at show ?thesis
      by (intro followsI [of nt _ _ ctxs "At_key ms k"])
        (auto simp: jw_key_def jw_quoted_def writes_def spot jw_top_def jw_append_def escaped_quoted
          [of "_ @ _", simplified] escaped_quoted Let_def)
  qed
qed

lemma jw_call_follows:
  assumes "follows nt evs w" "case c of Ev_integer v \<Rightarrow> int64 v | Ev_location _ \<Rightarrow> False | _ \<Rightarrow> True"
  shows "follows nt (evs @ [c]) (snd (jw_call nt c w))"
proof (cases c)
  case (Ev_boolean b)
  show ?thesis
    unfolding Ev_boolean jw_call.simps jw_boolean_def
    by (rule plain_value_follows [where t = "J_boolean b"]) (use assms in simp_all)
next
  case (Ev_integer v)
  with assms show ?thesis
    by (auto simp: jw_integer_def intro: plain_value_follows [where t = "J_integer v"])
next
  case Ev_null
  show ?thesis
    unfolding Ev_null jw_call.simps jw_null_def
    by (rule plain_value_follows [where t = J_null]) (use assms in simp_all)
qed (use assms in \<open>simp_all add: jw_begin_object_def jw_begin_array_def begin_container_follows
      end_object_follows end_array_follows key_follows jw_string_follows jw_number_follows\<close>)

definition calls_typed :: "'d json_event list \<Rightarrow> bool" where
  "calls_typed calls \<longleftrightarrow>
     list_all (\<lambda>c. case c of Ev_integer v \<Rightarrow> int64 v | Ev_location _ \<Rightarrow> False | _ \<Rightarrow> True) calls"

lemma jw_run_follows: "calls_typed calls \<Longrightarrow> follows nt calls (jw_run nt calls)"
proof (induction calls rule: rev_induct)
  case Nil
  show ?case
    unfolding jw_run_def
    by (rule followsI [of nt _ _ "[]" At_root]) (simp add: writes_def new_json_writer_def)
next
  case (snoc c calls)
  then have "follows nt calls (jw_run nt calls)"
    "case c of Ev_integer v \<Rightarrow> int64 v | Ev_location _ \<Rightarrow> False | _ \<Rightarrow> True"
    by (simp_all add: calls_typed_def)
  then show ?case using jw_call_follows [of nt calls "jw_run nt calls" c] by (simp add: jw_run_def)
qed

text \<open>A complete writer holds the text of one document, whose events are the calls.\<close>

lemma complete_document:
  assumes "calls_typed calls" "jw_complete (jw_run nt calls)"
  obtains t where "tree_ok t" "calls = tree_events t" "jw_output (jw_run nt calls) = tree_text nt t"
proof -
  obtain ctxs spot where at: "writes nt (jw_run nt calls) calls ctxs spot"
    using jw_run_follows [OF assms(1), of nt] assms(2) by (auto simp: follows_def jw_complete_def)
  obtain w where w: "w = jw_run nt calls" by blast
  have "spot_frames spot = []" "spot \<noteq> At_root" and out: "ctxs = []" "spot_ok spot" "calls = spot_events spot"
    "jw_output w = spot_text nt spot"
    using at assms(2) unfolding w [symmetric] writes_def jw_complete_def by auto
  then obtain t where "spot = At_done t" by (cases spot) simp_all
  with out that show thesis unfolding w by simp
qed


section \<open>Reading a written document\<close>

definition stops :: "char list \<Rightarrow> bool" where
  "stops r \<longleftrightarrow> r = [] \<or> hd r \<in> {CHR '','', CHR ''}'', CHR '']''}"

lemma stops_not:
  "stops r \<Longrightarrow> r = [] \<or> \<not> json_is_digit (hd r)"
  "stops r \<Longrightarrow> r = [] \<or> hd r \<noteq> CHR ''.''" "stops r \<Longrightarrow> r = [] \<or> hd r \<noteq> CHR ''e'' \<and> hd r \<noteq> CHR ''E''"
  by (auto simp: stops_def json_is_digit_def)

lemma skip_digits_text:
  "list_all json_is_digit ds \<Longrightarrow> r = [] \<or> \<not> json_is_digit (hd r) \<Longrightarrow>
     skip_digits (pos, ds @ r) = (pos + length ds, r)"
  by (simp add: skip_digits_def drop_takeWhile [symmetric] takeWhile_eq_all)

lemma decimal_digit_char:
  assumes "n < 10"
  shows "json_is_digit (char_of (48 + n))" "of_char (char_of (48 + n) :: char) = 48 + n"
    "(of_char (char_of (48 + n) :: char) :: int) = 48 + int n"
proof -
  show *: "of_char (char_of (48 + n) :: char) = 48 + n" using assms by simp
  then show "json_is_digit (char_of (48 + n))" using assms by (simp add: json_is_digit_def Let_def)
  show "(of_char (char_of (48 + n) :: char) :: int) = 48 + int n"
    by (metis * of_nat_of_char of_nat_add of_nat_numeral)
qed

lemma decimal_value_snoc: "decimal_value (ds @ [c]) = decimal_value ds * 10 + (of_char c - 48)"
  by (simp add: decimal_value_def)

lemma decimal_text_spec:
  "list_all json_is_digit (decimal_text n) \<and> decimal_text n \<noteq> [] \<and> decimal_value (decimal_text n) = int n"
proof (induction n rule: decimal_text.induct)
  case (1 n)
  show ?case
  proof (cases "n < 10")
    case True
    then show ?thesis
      using decimal_digit_char [OF True] by (simp add: decimal_text.simps [of n] decimal_value_def)
  next
    case False
    have "int n = int (n div 10) * 10 + int (n mod 10)"
      by (metis div_mult_mod_eq of_nat_add of_nat_mult of_nat_numeral)
    with False 1 decimal_digit_char [of "n mod 10"] show ?thesis
      by (simp add: decimal_text.simps [of n] decimal_value_snoc)
  qed
qed

lemma decimal_text_first:
  "0 < n \<Longrightarrow> 49 \<le> (of_char (hd (decimal_text n)) :: nat) \<and>
     (of_char (hd (decimal_text n)) :: nat) \<le> 57"
proof (induction n rule: decimal_text.induct)
  case (1 n)
  show ?case
  proof (cases "n < 10")
    case True
    then have "of_char (char_of (48 + n) :: char) = 48 + n" by (rule decimal_digit_char)
    with True 1(2) show ?thesis by (simp add: decimal_text.simps [of n])
  next
    case False
    have "decimal_text (n div 10) \<noteq> []" using decimal_text_spec by blast
    with False 1(1) show ?thesis by (simp add: decimal_text.simps [of n])
  qed
qed

lemma number_integer_text:
  assumes "stops r"
  shows "number_integer start (pos, decimal_text n @ r) = Inr (pos + length (decimal_text n), r)"
proof (cases "n = 0")
  case True
  have "decimal_text 0 = ''0''" by code_simp
  with True stops_not(1) [OF assms] show ?thesis
    by (auto simp: number_integer_def advance_def digit_next_def Let_def)
next
  case False
  have ds: "list_all json_is_digit (decimal_text n)" "decimal_text n \<noteq> []" using decimal_text_spec by auto
  have "hd (decimal_text n) \<noteq> CHR ''0''" using decimal_text_first [of n] False by auto
  with ds decimal_text_first [of n] False skip_digits_text [OF ds(1) stops_not(1) [OF assms]] show ?thesis
    by (simp add: number_integer_def)
qed

lemma int64_of_integer_text: "int64 v \<Longrightarrow> int64_of_text (integer_text v) = Some v"
proof -
  assume v: "int64 v"
  have "decimal_text (nat v) \<noteq> []" "list_all json_is_digit (decimal_text (nat v))" using decimal_text_spec by auto
  then have "hd (decimal_text (nat v)) \<noteq> CHR ''-''"
    by (cases "decimal_text (nat v)") (auto simp: json_is_digit_def)
  with v show ?thesis
    using decimal_text_spec [of "nat v"] decimal_text_spec [of "nat (- v)"]
    by (auto simp: int64_of_text_def integer_text_def int64_def Let_def)
qed

lemma json_parse_integer_text:
  assumes "int64 v" "stops r"
  shows "json_parse_number convert (pos, integer_text v @ r) =
    Inr (Ev_integer v, pos + length (integer_text v), r)"
proof -
  let ?n = "if v < 0 then nat (- v) else nat v"
  let ?p = "if v < 0 then pos + 1 else pos"
  have ds: "decimal_text ?n \<noteq> []" "list_all json_is_digit (decimal_text ?n)" using decimal_text_spec by auto
  then have "hd (decimal_text ?n) \<noteq> CHR ''-''"
    by (cases "decimal_text ?n") (auto simp: json_is_digit_def)
  then have first: "(if hd (integer_text v @ r) = CHR ''-'' then advance (pos, integer_text v @ r)
      else (pos, integer_text v @ r)) = (?p, decimal_text ?n @ r)"
    using ds(1) by (auto simp: integer_text_def advance_def)
  have len: "?p + length (decimal_text ?n) = pos + length (integer_text v)" by (simp add: integer_text_def)
  have "number_fraction (q, r) = Inr (False, q, r)" "number_exponent False (q, r) = Inr (False, q, r)" for q
    using stops_not(2,3) [OF assms(2)] by (auto simp: number_fraction_def number_exponent_def)
  then show ?thesis
    using number_integer_text [OF assms(2), of pos ?p ?n] int64_of_integer_text [OF assms(1)] len
    unfolding json_parse_number_def Let_def fst_conv snd_conv first by simp
qed


section \<open>Round trip\<close>

definition reads :: "('d \<Rightarrow> string option) \<Rightarrow> (cursor \<Rightarrow> 'd outcome) \<Rightarrow> 'd json_tree \<Rightarrow> bool" where
  "reads nt val t \<longleftrightarrow>
     (\<forall>pos r. stops r \<longrightarrow>
        (\<exists>evs. val (pos, tree_text nt t @ r) = Some (evs, Inr (pos + length (tree_text nt t), r)) \<and>
          without_locations evs = tree_events t))"

lemma readsD:
  "reads nt val t \<Longrightarrow> stops r \<Longrightarrow>
     \<exists>evs. val (pos, tree_text nt t @ r) = Some (evs, Inr (pos + length (tree_text nt t), r)) \<and>
       without_locations evs = tree_events t"
  by (auto simp: reads_def)

lemma json_whitespace_none: "\<not> json_is_whitespace c \<Longrightarrow> json_whitespace (pos, c # r) = (pos, c # r)"
  by (simp add: json_whitespace_def)

lemma not_whitespace [simp]:
  "\<not> json_is_whitespace (CHR 0x22)" "\<not> json_is_whitespace (CHR ''{'')" "\<not> json_is_whitespace (CHR ''['')"
  "\<not> json_is_whitespace (CHR '':'')" "\<not> json_is_whitespace (CHR '','')" "\<not> json_is_whitespace (CHR ''}'')"
  "\<not> json_is_whitespace (CHR '']'')" "\<not> json_is_whitespace (CHR ''-'')" "\<not> json_is_whitespace (CHR ''t'')"
  "\<not> json_is_whitespace (CHR ''f'')" "\<not> json_is_whitespace (CHR ''n'')"
  "json_is_digit c \<Longrightarrow> \<not> json_is_whitespace c"
  by (auto simp: json_is_whitespace_def json_is_digit_def)

lemma json_parse_quoted:
  assumes "json_valid_utf8 s"
  shows "json_parse_string (pos, quoted_text s @ r) = Inr (s, pos + length (quoted_text s), r)"
  using string_loop_escaped [of "[]" s pos "pos + 1" r "pos + 1" "[]"] assms
  by (simp add: json_parse_string_def quoted_text_def)

lemma quoted_text_Cons: "\<exists>u. quoted_text s = CHR 0x22 # u"
  by (simp add: quoted_text_def)

lemma whitespace_quoted: "json_whitespace (pos, quoted_text s @ r) = (pos, quoted_text s @ r)"
  by (simp add: quoted_text_def json_whitespace_none)

lemma stops_Cons [simp]: "stops (c # r) \<longleftrightarrow> c = CHR '','' \<or> c = CHR ''}'' \<or> c = CHR '']''" "stops []"
  by (auto simp: stops_def)

lemma object_loop_reads:
  assumes "ms \<noteq> []" "\<forall>(k, t)\<in>set ms. json_valid_utf8 k \<and> reads nt val t" "length ms \<le> n"
  shows "\<exists>evs. object_loop val n (pos, members_text nt ms @ CHR ''}'' # r) =
      Some (evs, Inr (pos + length (members_text nt ms) + 1, r)) \<and>
      without_locations evs = members_events ms @ [Ev_object_end]"
  using assms
proof (induction ms arbitrary: n pos)
  case (Cons m ms)
  obtain k t where m: "m = (k, t)" by (cases m)
  obtain n' where n: "n = Suc n'" using Cons.prems(3) by (cases n) auto
  let ?tail = "if ms = [] then CHR ''}'' # r else CHR '','' # members_text nt ms @ CHR ''}'' # r"
  have tx: "members_text nt (m # ms) @ CHR ''}'' # r = quoted_text k @ CHR '':'' # tree_text nt t @ ?tail"
    by (cases ms) (auto simp: members_text_def m)
  let ?kend = "pos + length (quoted_text k)"
  have k: "json_parse_string (pos, quoted_text k @ CHR '':'' # tree_text nt t @ ?tail) =
      Inr (k, ?kend, CHR '':'' # tree_text nt t @ ?tail)"
    using Cons.prems(2) by (intro json_parse_quoted) (simp add: m)
  have "stops ?tail" by simp
  moreover have "reads nt val t" using Cons.prems(2) by (simp add: m)
  ultimately obtain evs where evs: "val (?kend + 1, tree_text nt t @ ?tail) =
      Some (evs, Inr (?kend + 1 + length (tree_text nt t), ?tail))" "without_locations evs = tree_events t"
    using readsD by blast
  show ?case
  proof (cases "ms = []")
    case True
    with k evs show ?thesis
      unfolding tx n
      by (simp add: whitespace_quoted json_whitespace_none advance_def and_then_def emit_def
          quoted_text_def [of k] members_events_def members_text_def m)
  next
    case False
    obtain evs' where evs': "object_loop val n' (?kend + 1 + length (tree_text nt t) + 1, members_text nt ms @ CHR ''}'' # r) =
        Some (evs', Inr (?kend + 1 + length (tree_text nt t) + 1 + length (members_text nt ms) + 1, r))"
      "without_locations evs' = members_events ms @ [Ev_object_end]"
      using Cons.IH [OF False, of n' "?kend + 1 + length (tree_text nt t) + 1"] Cons.prems(2,3)
      by (auto simp: n)
    have "length (members_text nt (m # ms)) = length (quoted_text k) + 1 + length (tree_text nt t) + 1 + length (members_text nt ms)"
      using False by (cases ms) (simp_all add: members_text_def m)
    with False k evs evs' show ?thesis
      unfolding tx n
      by (simp add: whitespace_quoted json_whitespace_none advance_def and_then_def emit_def
          quoted_text_def [of k] members_events_def m add.assoc)
  qed
qed simp

lemma array_loop_reads:
  assumes "ts \<noteq> []" "\<forall>t\<in>set ts. reads nt val t" "length ts \<le> n"
  shows "\<exists>evs. array_loop val n (pos, comma_list (map (tree_text nt) ts) @ CHR '']'' # r) =
      Some (evs, Inr (pos + length (comma_list (map (tree_text nt) ts)) + 1, r)) \<and>
      without_locations evs = concat (map tree_events ts) @ [Ev_array_end]"
  using assms
proof (induction ts arbitrary: n pos)
  case (Cons t ts)
  obtain n' where n: "n = Suc n'" using Cons.prems(3) by (cases n) auto
  let ?rest = "comma_list (map (tree_text nt) ts)"
  let ?tail = "if ts = [] then CHR '']'' # r else CHR '','' # ?rest @ CHR '']'' # r"
  have tx: "comma_list (map (tree_text nt) (t # ts)) @ CHR '']'' # r = tree_text nt t @ ?tail"
    by (cases ts) auto
  have "stops ?tail" by simp
  moreover have "reads nt val t" using Cons.prems(2) by simp
  ultimately obtain evs where evs: "val (pos, tree_text nt t @ ?tail) =
      Some (evs, Inr (pos + length (tree_text nt t), ?tail))" "without_locations evs = tree_events t"
    using readsD by blast
  show ?case
  proof (cases "ts = []")
    case True
    with evs show ?thesis
      unfolding tx n by (simp add: json_whitespace_none advance_def and_then_def emit_def)
  next
    case False
    obtain evs' where evs': "array_loop val n' (pos + length (tree_text nt t) + 1, ?rest @ CHR '']'' # r) =
        Some (evs', Inr (pos + length (tree_text nt t) + 1 + length ?rest + 1, r))"
      "without_locations evs' = concat (map tree_events ts) @ [Ev_array_end]"
      using Cons.IH [OF False, of n' "pos + length (tree_text nt t) + 1"] Cons.prems(2,3) by (auto simp: n)
    have "length (comma_list (map (tree_text nt) (t # ts))) = length (tree_text nt t) + 1 + length ?rest"
      using False by (cases ts) simp_all
    with False evs evs' show ?thesis
      unfolding tx n by (simp add: json_whitespace_none advance_def and_then_def emit_def add.assoc)
  qed
qed simp


lemma comma_list_lengths:
  "(\<forall>x\<in>set xs. x \<noteq> []) \<Longrightarrow> length xs \<le> length (comma_list xs)"
  "x \<in> set xs \<Longrightarrow> length x \<le> length (comma_list xs)"
proof -
  show "(\<forall>x\<in>set xs. x \<noteq> []) \<Longrightarrow> length xs \<le> length (comma_list xs)"
  proof (induction xs rule: comma_list.induct)
    case (2 x)
    then show ?case by (cases x) simp_all
  qed auto
  show "x \<in> set xs \<Longrightarrow> length x \<le> length (comma_list xs)"
    by (induction xs rule: comma_list.induct) auto
qed

definition number_free :: "'d json_tree \<Rightarrow> bool" where
  "number_free t \<longleftrightarrow> (\<forall>d. Ev_number d \<notin> set (tree_events t))"

lemma integer_text_first:
  "integer_text v = c # u \<Longrightarrow> c = CHR ''-'' \<or> json_is_digit c" "integer_text v \<noteq> []"
  using decimal_text_spec [of "nat v"] by (auto simp: integer_text_def split: if_splits)

lemma tree_text_not_Nil: "tree_ok t \<Longrightarrow> number_free t \<Longrightarrow> tree_text nt t \<noteq> []"
  by (cases t) (auto simp: number_free_def quoted_text_def integer_text_first)

declare parse_value.simps(2) [simp del]

lemma parse_value_step:
  assumes "\<not> json_is_whitespace c"
  shows "parse_value convert (Suc n) (pos, c # u) = emit [Ev_location pos]
     (let at = (pos, c # u) in
         if c = CHR ''{'' then parse_object (parse_value convert n) n at
         else if c = CHR ''['' then parse_array (parse_value convert n) n at
         else if c = CHR 0x22 then scalar (map_sum id (\<lambda>(s, at). (Ev_string s, at)) (json_parse_string at))
         else if c = CHR ''t'' then literal_event ''true'' (Ev_boolean True) at
         else if c = CHR ''f'' then literal_event ''false'' (Ev_boolean False) at
         else if c = CHR ''n'' then literal_event ''null'' Ev_null at
         else if c = CHR ''-'' \<or> json_is_digit c then scalar (json_parse_number convert at)
         else stop Je_unexpected_token (fst at))"
  by (simp add: parse_value.simps(2) json_whitespace_none [OF assms] Let_def)

lemma tree_text_first:
  assumes "tree_ok t" "number_free t"
  obtains c u where "tree_text nt t = c # u" "\<not> json_is_whitespace c" "c \<noteq> CHR '']''"
proof -
  obtain c u where c: "tree_text nt t = c # u" using tree_text_not_Nil [OF assms, of nt] by (cases "tree_text nt t") auto
  have "c \<in> {CHR ''{'', CHR ''['', CHR 0x22, CHR ''t'', CHR ''f'', CHR ''n'', CHR ''-''} \<or> json_is_digit c"
    using c assms(2) integer_text_first(1) [of _ c u]
    by (cases t) (auto simp: number_free_def quoted_text_def split: if_splits)
  then have "\<not> json_is_whitespace c" "c \<noteq> CHR '']''" by (auto simp: json_is_digit_def)
  with c that show thesis by blast
qed

lemma quoted_text_step:
  "json_valid_utf8 s \<Longrightarrow> parse_value convert (Suc n) (pos, quoted_text s @ r) =
     emit [Ev_location pos] (scalar (Inr (Ev_string s, pos + length (quoted_text s), r)))"
proof -
  assume "json_valid_utf8 s"
  from json_parse_quoted [OF this, of pos r] show ?thesis
    unfolding quoted_text_def append_Cons by (simp add: parse_value_step)
qed

lemma integer_text_step:
  assumes "int64 v" "stops r"
  shows "parse_value convert (Suc n) (pos, integer_text v @ r) =
     emit [Ev_location pos] (scalar (Inr (Ev_integer v, pos + length (integer_text v), r)))"
proof -
  obtain c u where c: "integer_text v = c # u" using integer_text_first(2) [of v] by (cases "integer_text v") auto
  have d: "c = CHR ''-'' \<or> json_is_digit c" using integer_text_first(1) [OF c] .
  then have "\<not> json_is_whitespace c" "c \<noteq> CHR ''{''" "c \<noteq> CHR ''[''" "c \<noteq> CHR 0x22" "c \<noteq> CHR ''t''"
    "c \<noteq> CHR ''f''" "c \<noteq> CHR ''n''" by (auto simp: json_is_digit_def)
  with d json_parse_integer_text [OF assms, of convert pos] show ?thesis
    unfolding c append_Cons by (simp add: parse_value_step Let_def)
qed

lemma literal_reads:
  "literal_event literal ev (pos, literal @ r) = Some ([ev], Inr (pos + length literal, r))"
  by (simp add: literal_event_def consume_literal_def scalar_def)

lemma number_free_members:
  "number_free (J_object ms) \<Longrightarrow> (k, t) \<in> set ms \<Longrightarrow> number_free t"
  "number_free (J_array ts) \<Longrightarrow> t \<in> set ts \<Longrightarrow> number_free t"
  by (auto simp: number_free_def)

text \<open>With fuel for its text a document is read back, whatever stops it.\<close>

lemma parse_value_reads:
  fixes convert :: "char list \<Rightarrow> 'd option"
  shows "tree_ok t \<Longrightarrow> number_free t \<Longrightarrow> length (tree_text nt t) < n \<Longrightarrow> reads nt (parse_value convert n) t"
proof (induction t arbitrary: n rule: tree_events.induct)
  case (1 ms)
  obtain n' where n: "n = Suc n'" using 1(4) by (cases n) auto
  have child: "json_valid_utf8 k" "tree_ok t" "number_free t" "length (tree_text nt t) < n'"
    "tree_text nt t \<noteq> []" if "(k, t) \<in> set ms" for k t
  proof -
    show "json_valid_utf8 k" and ok: "tree_ok t" using 1(2) that by auto
    show nf: "number_free t" using number_free_members(1) [OF 1(3) that] .
    from tree_text_not_Nil [OF ok nf] show "tree_text nt t \<noteq> []" .
    have "quoted_text k @ CHR '':'' # tree_text nt t \<in> set (map (\<lambda>(k, t). quoted_text k @ CHR '':'' # tree_text nt t) ms)"
      using that by force
    from comma_list_lengths(2) [OF this] show "length (tree_text nt t) < n'" using 1(4) by (simp add: n)
  qed
  have "\<forall>x\<in>set (map (\<lambda>(k, t). quoted_text k @ CHR '':'' # tree_text nt t) ms). x \<noteq> []" by auto
  from comma_list_lengths(1) [OF this] have many: "length ms \<le> n'" using 1(4) by (simp add: n)
  have vals: "\<forall>(k, t)\<in>set ms. json_valid_utf8 k \<and> reads nt (parse_value convert n') t"
  proof (rule ballI, clarify)
    fix k t
    assume m: "(k, t) \<in> set ms"
    show "json_valid_utf8 k \<and> reads nt (parse_value convert n') t"
      using child(1) [OF m] 1(1) [OF m refl child(2,3,4) [OF m]] by blast
  qed
  show ?case
    unfolding reads_def
  proof (intro allI impI)
    fix pos and r :: "char list"
    assume "stops r"
    show "\<exists>evs. parse_value convert n (pos, tree_text nt (J_object ms) @ r) =
        Some (evs, Inr (pos + length (tree_text nt (J_object ms)), r)) \<and>
        without_locations evs = tree_events (J_object ms)"
    proof (cases "ms = []")
      case True
      then show ?thesis
        by (simp add: n parse_value_step parse_object_def json_whitespace_none advance_def emit_def)
    next
      case False
      obtain evs where evs: "object_loop (parse_value convert n') n' (pos + 1, members_text nt ms @ CHR ''}'' # r) =
          Some (evs, Inr (pos + 1 + length (members_text nt ms) + 1, r))"
        "without_locations evs = members_events ms @ [Ev_object_end]"
        using object_loop_reads [OF False vals many] by blast
      obtain k t ms' where "ms = (k, t) # ms'" using False by (cases ms) auto
      then obtain u where u: "members_text nt ms = CHR 0x22 # u"
        by (cases ms') (auto simp: members_text_def quoted_text_def)
      have tx: "tree_text nt (J_object ms) = CHR ''{'' # members_text nt ms @ ''}''"
        "tree_events (J_object ms) = Ev_object_begin # members_events ms @ [Ev_object_end]"
        by (simp_all add: members_text_def members_events_def)
      show ?thesis
        using evs unfolding tx n
        by (simp add: parse_value_step parse_object_def json_whitespace_none advance_def emit_def u)
    qed
  qed
next
  case (2 ts)
  obtain n' where n: "n = Suc n'" using 2(4) by (cases n) auto
  have child: "tree_ok t" "number_free t" "length (tree_text nt t) < n'" "tree_text nt t \<noteq> []"
    if "t \<in> set ts" for t
  proof -
    show ok: "tree_ok t" using 2(2) that by simp
    show nf: "number_free t" using number_free_members(2) [OF 2(3) that] .
    from tree_text_not_Nil [OF ok nf] show "tree_text nt t \<noteq> []" .
    have "tree_text nt t \<in> set (map (tree_text nt) ts)" using that by simp
    from comma_list_lengths(2) [OF this] show "length (tree_text nt t) < n'" using 2(4) by (simp add: n)
  qed
  have "\<forall>x\<in>set (map (tree_text nt) ts). x \<noteq> []" using child(4) by auto
  from comma_list_lengths(1) [OF this] have many: "length ts \<le> n'" using 2(4) by (simp add: n)
  have vals: "\<forall>t\<in>set ts. reads nt (parse_value convert n') t"
    using 2(1) [OF _ child(1,2,3)] by blast
  show ?case
    unfolding reads_def
  proof (intro allI impI)
    fix pos and r :: "char list"
    assume "stops r"
    show "\<exists>evs. parse_value convert n (pos, tree_text nt (J_array ts) @ r) =
        Some (evs, Inr (pos + length (tree_text nt (J_array ts)), r)) \<and>
        without_locations evs = tree_events (J_array ts)"
    proof (cases ts)
      case Nil
      then show ?thesis
        by (simp add: n parse_value_step parse_array_def json_whitespace_none advance_def emit_def)
    next
      case (Cons t ts')
      obtain evs where evs: "array_loop (parse_value convert n') n'
          (pos + 1, comma_list (map (tree_text nt) ts) @ CHR '']'' # r) =
          Some (evs, Inr (pos + 1 + length (comma_list (map (tree_text nt) ts)) + 1, r))"
        "without_locations evs = concat (map tree_events ts) @ [Ev_array_end]"
        using array_loop_reads [OF _ vals many, of "pos + 1" r] Cons by blast
      obtain c u where c: "tree_text nt t = c # u" "\<not> json_is_whitespace c" "c \<noteq> CHR '']''"
        using tree_text_first child(1,2) [of t] Cons by (metis list.set_intros(1))
      obtain u' where u: "comma_list (map (tree_text nt) ts) = c # u'" using c Cons by (cases ts') simp_all
      have "tree_text nt (J_array ts) = CHR ''['' # comma_list (map (tree_text nt) ts) @ '']''" by simp
      then show ?thesis
        using evs c(2,3) unfolding n
        by (simp add: parse_value_step parse_array_def json_whitespace_none advance_def emit_def u
            del: tree_text.simps)
    qed
  qed
next
  case (3 s)
  then show ?case
    by (cases n) (auto simp: reads_def quoted_text_step scalar_def emit_def)
next
  case (4 v)
  then show ?case
    by (cases n) (auto simp: reads_def integer_text_step scalar_def emit_def)
next
  case (6 b)
  then show ?case
    by (cases n) (auto simp: reads_def parse_value_step emit_def literal_reads [of "''true''", simplified]
        literal_reads [of "''false''", simplified])
next
  case 7
  then show ?case
    by (cases n) (auto simp: reads_def parse_value_step emit_def literal_reads [of "''null''", simplified])
qed (simp add: number_free_def)




section \<open>A refused call\<close>

lemma before_value_result: "before_value w = (ok, w') \<Longrightarrow> \<not> ok \<Longrightarrow> \<not> jw_valid w'"
  by (auto simp: before_value_def jw_invalid_def Let_def split: if_splits)

lemma jw_call_refused: "\<not> fst (jw_call nt c w) \<Longrightarrow> \<not> jw_valid (snd (jw_call nt c w))"
  by (cases c) (auto simp: jw_begin_object_def jw_begin_array_def begin_container_def jw_end_object_def
      jw_end_array_def jw_key_def jw_quoted_def jw_string_def jw_integer_def jw_boolean_def jw_null_def
      plain_value_def jw_number_def jw_invalid_def Let_def dest: before_value_result
      split: prod.splits if_splits option.splits)

lemma jw_call_invalid: "\<not> jw_valid w \<Longrightarrow> \<not> jw_valid (snd (jw_call nt c w))"
  by (cases c) (simp_all add: before_value_invalid jw_begin_object_def jw_begin_array_def begin_container_def
      jw_end_object_def jw_end_array_def jw_key_def jw_string_def jw_integer_def jw_boolean_def jw_null_def
      plain_value_def jw_number_def jw_invalid_def)

text \<open>A call that is refused, for its place, its text or its value, is final: no further
  calls make the document complete.\<close>

theorem json_writer_refusal_final:
  assumes "\<not> fst (jw_call number_text c w)"
  shows "\<not> jw_complete (foldl (\<lambda>w c. snd (jw_call number_text c w)) (snd (jw_call number_text c w)) later)"
proof -
  have "\<not> jw_valid v \<Longrightarrow> \<not> jw_valid (foldl (\<lambda>w c. snd (jw_call number_text c w)) v later)" for v
    by (induction later arbitrary: v) (simp_all add: jw_call_invalid)
  with jw_call_refused [OF assms] show ?thesis by (simp add: jw_complete_def)
qed

theorem json_writer_refusal_final_witness:
  "\<not> jw_complete (foldl (\<lambda>w c. snd (jw_call (\<lambda>_ :: int. None) c w))
      (snd (jw_call (\<lambda>_. None) (Ev_string [CHR 0xFF] :: int json_event) new_json_writer)) [Ev_null])"
proof (rule json_writer_refusal_final)
  show "\<not> fst (jw_call (\<lambda>_. None) (Ev_string [CHR 0xFF] :: int json_event) new_json_writer)" by code_simp
qed


end
