(* ===== verification/SourceEnvironment.thy ===== *)
theory SourceEnvironment
  imports BuiltinType
begin

text \<open>
  The names a Parser sees from included Sources: \<^verbatim>\<open>parser/source_environment.hpp\<close> and
  \<^verbatim>\<open>parser/source_environment.cpp\<close>. A storage is immutable once it is initialized and an import
  must be initialized, so the pointers between storages form a finite tree of values, and a storage
  holds its imports. The \<^verbatim>\<open>string_view\<close>s into the spelling arena, whose capacity is reserved before
  the first one is taken, are the spellings. A null pointer is \<open>None\<close>.
\<close>

section \<open>Storages\<close>

type_synonym scope_key = "string \<times> string"

record source_constant_binding =
  cb_scope_name :: string
  cb_name :: string
  cb_value :: integral_constant

record source_type_binding =
  tb_scope_name :: string
  tb_name :: string
  tb_canonical_name :: string

datatype source_environment_storage =
  Environment_storage
    (es_constants: "(scope_key, integral_constant) umap")
    (es_types: "(scope_key, string) umap")
    (es_imports: "source_environment_storage list")
    (es_initialized: bool)

definition new_environment_storage :: source_environment_storage where
  "new_environment_storage = Environment_storage [] [] [] False"

definition spelling_bytes :: "source_constant_binding list \<Rightarrow> source_type_binding list \<Rightarrow> nat" where
  "spelling_bytes constants types =
     sum_list (map (\<lambda>b. length (cb_scope_name b) + length (cb_name b)) constants) +
     sum_list (map (\<lambda>b. length (tb_scope_name b) + length (tb_name b) + length (tb_canonical_name b)) types)"

text \<open>The three loops of \<^verbatim>\<open>initialize\<close>; \<open>None\<close> is \<^verbatim>\<open>reject()\<close>.\<close>

fun add_imports ::
    "source_environment_storage option list \<Rightarrow> source_environment_storage list \<Rightarrow> source_environment_storage list option" where
  "add_imports [] imports = Some imports"
| "add_imports (None # items) imports = None"
| "add_imports (Some item # items) imports =
     (if \<not> es_initialized item then None else add_imports items (imports @ [item]))"

fun add_constants ::
    "source_constant_binding list \<Rightarrow> (scope_key, integral_constant) umap \<Rightarrow> (scope_key, integral_constant) umap option" where
  "add_constants [] constants = Some constants"
| "add_constants (b # bindings) constants =
     (if cb_name b = [] \<or> \<not> is_integral (constant_type (cb_value b)) then None
      else
        let key = (cb_scope_name b, cb_name b) in
        case map_of constants key of
          Some found \<Rightarrow>
            if constant_type found \<noteq> constant_type (cb_value b) \<or> constant_bits found \<noteq> constant_bits (cb_value b)
            then None else add_constants bindings constants
        | None \<Rightarrow> add_constants bindings (um_emplace key (cb_value b) constants))"

fun add_types ::
    "source_type_binding list \<Rightarrow> (scope_key, string) umap \<Rightarrow> (scope_key, string) umap option" where
  "add_types [] types = Some types"
| "add_types (b # bindings) types =
     (if tb_name b = [] \<or> tb_canonical_name b = [] then None
      else
        let key = (tb_scope_name b, tb_name b) in
        case map_of types key of
          Some found \<Rightarrow> if found \<noteq> tb_canonical_name b then None else add_types bindings types
        | None \<Rightarrow> add_types bindings (um_emplace key (tb_canonical_name b) types))"

definition es_initialize ::
    "bool \<Rightarrow> source_constant_binding list \<Rightarrow> source_type_binding list \<Rightarrow> source_environment_storage option list
     \<Rightarrow> source_environment_storage \<Rightarrow> status_code \<times> source_environment_storage" where
  "es_initialize mem constant_bindings type_bindings imported s =
     (if es_initialized s then (Configuration_failed, s)
      else if \<not> mem \<or> spelling_bytes constant_bindings type_bindings > 18446744073709551615
      then (Initialization_failed, new_environment_storage)
      else
        case add_imports imported (es_imports s) of
          None \<Rightarrow> (Configuration_failed, new_environment_storage)
        | Some imports \<Rightarrow>
        case add_constants constant_bindings (es_constants s) of
          None \<Rightarrow> (Configuration_failed, new_environment_storage)
        | Some constants \<Rightarrow>
        case add_types type_bindings (es_types s) of
          None \<Rightarrow> (Configuration_failed, new_environment_storage)
        | Some types \<Rightarrow> (Ok, Environment_storage constants types imports True))"

section \<open>Lookup\<close>

text \<open>
  The two recursive searches are the same code on the two tables; \<open>table\<close> selects one.
\<close>

fun find_recursive ::
    "(source_environment_storage \<Rightarrow> (scope_key, 'v) umap) \<Rightarrow> scope_key \<Rightarrow> source_environment_storage \<Rightarrow> 'v option"
  and find_imported ::
    "(source_environment_storage \<Rightarrow> (scope_key, 'v) umap) \<Rightarrow> scope_key \<Rightarrow> source_environment_storage list \<Rightarrow> 'v option"
where
  "find_recursive table key (Environment_storage constants types imports initialized) =
     (case map_of (table (Environment_storage constants types imports initialized)) key of
        Some v \<Rightarrow> Some v
      | None \<Rightarrow> find_imported table key imports)"
| "find_imported table key [] = None"
| "find_imported table key (i # imports) =
     (case find_recursive table key i of Some v \<Rightarrow> Some v | None \<Rightarrow> find_imported table key imports)"

definition find_constant_recursive :: "string \<Rightarrow> string \<Rightarrow> source_environment_storage \<Rightarrow> integral_constant option" where
  "find_constant_recursive scope name s = find_recursive es_constants (scope, name) s"

definition find_type_recursive :: "string \<Rightarrow> string \<Rightarrow> source_environment_storage \<Rightarrow> string option" where
  "find_type_recursive scope name s = find_recursive es_types (scope, name) s"

record source_environment_import =
  ei_visible_from :: nat
  ei_storage :: "source_environment_storage option"

record source_environment =
  se_single :: "source_environment_storage option"
  se_dependencies :: "source_environment_storage option list"
  se_positional_imports :: "source_environment_import list"

definition single_environment :: "source_environment_storage \<Rightarrow> source_environment" where
  "single_environment s = \<lparr>se_single = Some s, se_dependencies = [], se_positional_imports = []\<rparr>"

definition dependency_environment :: "source_environment_storage option list \<Rightarrow> source_environment" where
  "dependency_environment ds = \<lparr>se_single = None, se_dependencies = ds, se_positional_imports = []\<rparr>"

definition positional_environment :: "source_environment_import list \<Rightarrow> source_environment" where
  "positional_environment is = \<lparr>se_single = None, se_dependencies = [], se_positional_imports = is\<rparr>"

fun find_in_dependencies ::
    "(source_environment_storage \<Rightarrow> 'v option) \<Rightarrow> source_environment_storage option list \<Rightarrow> 'v option" where
  "find_in_dependencies search [] = None"
| "find_in_dependencies search (d # ds) =
     (case (case d of None \<Rightarrow> None | Some s \<Rightarrow> search s) of
        Some v \<Rightarrow> Some v | None \<Rightarrow> find_in_dependencies search ds)"

fun find_in_positional ::
    "(source_environment_storage \<Rightarrow> 'v option) \<Rightarrow> nat \<Rightarrow> source_environment_import list \<Rightarrow> 'v option" where
  "find_in_positional search offset [] = None"
| "find_in_positional search offset (i # is) =
     (case (if ei_visible_from i \<le> offset
            then case ei_storage i of None \<Rightarrow> None | Some s \<Rightarrow> search s else None) of
        Some v \<Rightarrow> Some v | None \<Rightarrow> find_in_positional search offset is)"

text \<open>
  The common body of the two lookups that take an offset: the single storage, the dependencies, the
  imports visible at the offset. The status is ok exactly when a value is returned.
\<close>

definition find_exact ::
    "(source_environment_storage \<Rightarrow> 'v option) \<Rightarrow> source_environment \<Rightarrow> string \<Rightarrow> nat \<Rightarrow> 'v option" where
  "find_exact search env name offset =
     (if name = [] then None
      else
        case (case se_single env of None \<Rightarrow> None | Some s \<Rightarrow> search s) of
          Some v \<Rightarrow> Some v
        | None \<Rightarrow>
            (case find_in_dependencies search (se_dependencies env) of
               Some v \<Rightarrow> Some v
             | None \<Rightarrow> find_in_positional search offset (se_positional_imports env)))"

definition find_constant_exact ::
    "source_environment \<Rightarrow> string \<Rightarrow> string \<Rightarrow> nat \<Rightarrow> status_code \<times> integral_constant option" where
  "find_constant_exact env scope name offset =
     (case find_exact (find_constant_recursive scope name) env name offset of
        Some v \<Rightarrow> (Ok, Some v) | None \<Rightarrow> (Configuration_failed, None))"

definition find_constant_anywhere ::
    "source_environment \<Rightarrow> string \<Rightarrow> string \<Rightarrow> status_code \<times> integral_constant option" where
  "find_constant_anywhere env scope name = find_constant_exact env scope name u32_max"

definition find_type_exact ::
    "source_environment \<Rightarrow> string \<Rightarrow> string \<Rightarrow> nat \<Rightarrow> status_code \<times> string option" where
  "find_type_exact env scope name offset =
     (case find_exact (find_type_recursive scope name) env name offset of
        Some v \<Rightarrow> (Ok, Some v) | None \<Rightarrow> (Configuration_failed, None))"

definition find_type_anywhere ::
    "source_environment \<Rightarrow> string \<Rightarrow> string \<Rightarrow> status_code \<times> string option" where
  "find_type_anywhere env scope name = find_type_exact env scope name u32_max"

section \<open>What a storage and an environment show\<close>

text \<open>The storages a search visits, in its order, and the first binding among them.\<close>

fun all_storages :: "source_environment_storage \<Rightarrow> source_environment_storage list" where
  "all_storages (Environment_storage constants types imports initialized) =
     Environment_storage constants types imports initialized # concat (map all_storages imports)"

fun first_some :: "('a \<Rightarrow> 'b option) \<Rightarrow> 'a list \<Rightarrow> 'b option" where
  "first_some f [] = None"
| "first_some f (x # xs) = (case f x of Some v \<Rightarrow> Some v | None \<Rightarrow> first_some f xs)"

lemma first_some_append:
  "first_some f (xs @ ys) = (case first_some f xs of Some v \<Rightarrow> Some v | None \<Rightarrow> first_some f ys)"
  by (induction xs) (auto split: option.split)

definition optional_storages :: "source_environment_storage option \<Rightarrow> source_environment_storage list" where
  "optional_storages d = (case d of None \<Rightarrow> [] | Some s \<Rightarrow> all_storages s)"

definition visible_storages :: "source_environment \<Rightarrow> nat \<Rightarrow> source_environment_storage list" where
  "visible_storages env offset =
     optional_storages (se_single env) @ concat (map optional_storages (se_dependencies env)) @
     concat (map (optional_storages \<circ> ei_storage)
       (filter (\<lambda>i. ei_visible_from i \<le> offset) (se_positional_imports env)))"

lemma find_recursive_first:
  "find_recursive table key s = first_some (\<lambda>s. map_of (table s) key) (all_storages s)"
  "find_imported table key ims = first_some (\<lambda>s. map_of (table s) key) (concat (map all_storages ims))"
  by (induction table key s and table key ims rule: find_recursive_find_imported.induct)
    (simp_all add: first_some_append split: option.split)

lemma find_optional:
  "(case d of None \<Rightarrow> None | Some s \<Rightarrow> find_recursive table key s) =
     first_some (\<lambda>s. map_of (table s) key) (optional_storages d)"
  by (simp add: optional_storages_def find_recursive_first split: option.split)

lemma find_in_dependencies_first:
  "find_in_dependencies (find_recursive table key) ds =
     first_some (\<lambda>s. map_of (table s) key) (concat (map optional_storages ds))"
  by (induction ds) (auto simp: find_optional first_some_append split: option.split)

lemma find_in_positional_first:
  "find_in_positional (find_recursive table key) offset items =
     first_some (\<lambda>s. map_of (table s) key)
       (concat (map (optional_storages \<circ> ei_storage) (filter (\<lambda>i. ei_visible_from i \<le> offset) items)))"
  by (induction items) (auto simp: find_optional first_some_append split: option.split)

lemma find_exact_first:
  "find_exact (find_recursive table key) env name offset =
     (if name = [] then None else first_some (\<lambda>s. map_of (table s) key) (visible_storages env offset))"
  by (simp add: find_exact_def visible_storages_def find_optional find_in_dependencies_first
      find_in_positional_first first_some_append split: option.split)

text \<open>C37: A lookup returns the first binding among the storages visible at the offset: the single storage and
  what it imports, the dependencies in order, then the includes that stand at or before the offset.\<close>

theorem environment_lookup_first:
  "find_constant_exact env scope name offset =
     (case if name = [] then None
           else first_some (\<lambda>s. map_of (es_constants s) (scope, name)) (visible_storages env offset)
      of Some v \<Rightarrow> (Ok, Some v) | None \<Rightarrow> (Configuration_failed, None)) \<and>
   find_type_exact env scope name offset =
     (case if name = [] then None
           else first_some (\<lambda>s. map_of (es_types s) (scope, name)) (visible_storages env offset)
      of Some v \<Rightarrow> (Ok, Some v) | None \<Rightarrow> (Configuration_failed, None))"
  by (simp add: find_constant_exact_def find_type_exact_def find_constant_recursive_def [abs_def]
      find_type_recursive_def [abs_def] find_exact_first eta_contract_eq)

section \<open>Which interfaces are accepted\<close>

definition constant_entries :: "source_constant_binding list \<Rightarrow> (scope_key \<times> integral_constant) list" where
  "constant_entries = map (\<lambda>b. ((cb_scope_name b, cb_name b), cb_value b))"

definition type_entries :: "source_type_binding list \<Rightarrow> (scope_key \<times> string) list" where
  "type_entries = map (\<lambda>b. ((tb_scope_name b, tb_name b), tb_canonical_name b))"

text \<open>No name is bound to two things.\<close>

definition single_valued_entries :: "('k \<times> 'v) list \<Rightarrow> bool" where
  "single_valued_entries es \<longleftrightarrow> (\<forall>(k, v) \<in> set es. map_of es k = Some v)"

definition interface_acceptable ::
    "source_constant_binding list \<Rightarrow> source_type_binding list \<Rightarrow> source_environment_storage option list \<Rightarrow> bool" where
  "interface_acceptable constants types imported \<longleftrightarrow>
     list_all (\<lambda>d. case d of None \<Rightarrow> False | Some s \<Rightarrow> es_initialized s) imported \<and>
     list_all (\<lambda>b. cb_name b \<noteq> [] \<and> is_integral (constant_type (cb_value b))) constants \<and>
     list_all (\<lambda>b. tb_name b \<noteq> [] \<and> tb_canonical_name b \<noteq> []) types \<and>
     single_valued_entries (constant_entries constants) \<and> single_valued_entries (type_entries types) \<and>
     spelling_bytes constants types \<le> 18446744073709551615"

lemma add_imports_None:
  "add_imports items acc = None \<longleftrightarrow>
     \<not> list_all (\<lambda>d. case d of None \<Rightarrow> False | Some s \<Rightarrow> es_initialized s) items"
  by (induction items acc rule: add_imports.induct) auto

lemma add_imports_iff:
  "add_imports items acc = Some imports \<longleftrightarrow>
     list_all (\<lambda>d. case d of None \<Rightarrow> False | Some s \<Rightarrow> es_initialized s) items \<and> imports = acc @ map the items"
  by (induction items acc rule: add_imports.induct) auto

text \<open>The two tables are filled alike: an entry that is there already must agree.\<close>

definition extends_table :: "('k \<times> 'v) list \<Rightarrow> ('k, 'v) umap \<Rightarrow> ('k, 'v) umap \<Rightarrow> bool" where
  "extends_table es m m' \<longleftrightarrow>
     map_of m' = (\<lambda>k. case map_of m k of Some v \<Rightarrow> Some v | None \<Rightarrow> map_of es k)"

definition agrees_table :: "('k \<times> 'v) list \<Rightarrow> ('k, 'v) umap \<Rightarrow> bool" where
  "agrees_table es m \<longleftrightarrow>
     (\<forall>(k, v) \<in> set es. (case map_of m k of Some w \<Rightarrow> Some w | None \<Rightarrow> map_of es k) = Some v)"

lemma agrees_Cons_old:
  assumes "map_of m k = Some w"
  shows "agrees_table ((k, v) # es) m \<longleftrightarrow> w = v \<and> agrees_table es m"
proof -
  have "(case map_of m j of None \<Rightarrow> map_of ((k, v) # es) j | Some w \<Rightarrow> Some w) =
      (case map_of m j of None \<Rightarrow> map_of es j | Some w \<Rightarrow> Some w)" for j
    using assms by (cases "j = k") (auto split: option.split)
  then show ?thesis using assms by (simp add: agrees_table_def)
qed

lemma agrees_Cons_new:
  assumes "map_of m k = None"
  shows "agrees_table ((k, v) # es) m \<longleftrightarrow> agrees_table es (um_emplace k v m)"
proof -
  have "(case map_of m j of None \<Rightarrow> map_of ((k, v) # es) j | Some w \<Rightarrow> Some w) =
      (case map_of (um_emplace k v m) j of None \<Rightarrow> map_of es j | Some w \<Rightarrow> Some w)" for j
    using assms by (cases "j = k") (auto simp: um_lookup_emplace split: option.split)
  then show ?thesis using assms by (simp add: agrees_table_def um_lookup_emplace)
qed

lemma extends_Cons_old: "map_of m k = Some w \<Longrightarrow> extends_table ((k, v) # es) m m' \<longleftrightarrow> extends_table es m m'"
  unfolding extends_table_def fun_eq_iff by (intro arg_cong [of _ _ All] ext) (auto split: option.split)

lemma extends_Cons_new:
  "map_of m k = None \<Longrightarrow> extends_table ((k, v) # es) m m' \<longleftrightarrow> extends_table es (um_emplace k v m) m'"
  by (auto simp: extends_table_def fun_eq_iff um_lookup_emplace split: option.split)

lemmas table_Cons = agrees_Cons_old agrees_Cons_new extends_Cons_old extends_Cons_new

lemma add_constants_exact:
  "case add_constants bs m of
     None \<Rightarrow> \<not> (list_all (\<lambda>b. cb_name b \<noteq> [] \<and> is_integral (constant_type (cb_value b))) bs \<and>
       agrees_table (constant_entries bs) m)
   | Some m' \<Rightarrow> list_all (\<lambda>b. cb_name b \<noteq> [] \<and> is_integral (constant_type (cb_value b))) bs \<and>
       agrees_table (constant_entries bs) m \<and> extends_table (constant_entries bs) m m'"
proof (induction bs m rule: add_constants.induct)
  case (1 m)
  show ?case by (simp add: constant_entries_def agrees_table_def extends_table_def fun_eq_iff split: option.split)
next
  case (2 b bs m)
  let ?k = "(cb_scope_name b, cb_name b)"
  have entries: "constant_entries (b # bs) = (?k, cb_value b) # constant_entries bs" by (simp add: constant_entries_def)
  have eq: "v = w \<longleftrightarrow> constant_type v = constant_type w \<and> constant_bits v = constant_bits w" for v w :: integral_constant
    by (cases v; cases w) simp
  consider "cb_name b = [] \<or> \<not> is_integral (constant_type (cb_value b))"
    | w where "cb_name b \<noteq> []" "is_integral (constant_type (cb_value b))" "map_of m ?k = Some w"
    | "cb_name b \<noteq> []" "is_integral (constant_type (cb_value b))" "map_of m ?k = None" by blast
  then show ?case
  proof cases
    case 1
    then show ?thesis by auto
  next
    case 2
    then show ?thesis
      using "2.IH"(2) [OF _ refl 2(3)] eq [of w "cb_value b"] unfolding entries
      by (cases "w = cb_value b") (auto simp: table_Cons Let_def split: option.split)
  next
    case 3
    then show ?thesis
      using "2.IH"(1) [OF _ refl 3(3)] unfolding entries
      by (auto simp: table_Cons Let_def split: option.split_asm option.split)
  qed
qed

lemma add_types_exact:
  "case add_types bs m of
     None \<Rightarrow> \<not> (list_all (\<lambda>b. tb_name b \<noteq> [] \<and> tb_canonical_name b \<noteq> []) bs \<and> agrees_table (type_entries bs) m)
   | Some m' \<Rightarrow> list_all (\<lambda>b. tb_name b \<noteq> [] \<and> tb_canonical_name b \<noteq> []) bs \<and>
       agrees_table (type_entries bs) m \<and> extends_table (type_entries bs) m m'"
proof (induction bs m rule: add_types.induct)
  case (1 m)
  show ?case by (simp add: type_entries_def agrees_table_def extends_table_def fun_eq_iff split: option.split)
next
  case (2 b bs m)
  let ?k = "(tb_scope_name b, tb_name b)"
  have entries: "type_entries (b # bs) = (?k, tb_canonical_name b) # type_entries bs" by (simp add: type_entries_def)
  consider "tb_name b = [] \<or> tb_canonical_name b = []"
    | w where "tb_name b \<noteq> []" "tb_canonical_name b \<noteq> []" "map_of m ?k = Some w"
    | "tb_name b \<noteq> []" "tb_canonical_name b \<noteq> []" "map_of m ?k = None" by blast
  then show ?case
  proof cases
    case 1
    then show ?thesis by auto
  next
    case 2
    then show ?thesis
      using "2.IH"(2) [OF _ refl 2(3)] unfolding entries
      by (cases "w = tb_canonical_name b") (auto simp: table_Cons Let_def split: option.split)
  next
    case 3
    then show ?thesis
      using "2.IH"(1) [OF _ refl 3(3)] unfolding entries
      by (auto simp: table_Cons Let_def split: option.split_asm option.split)
  qed
qed

lemma agrees_table_Nil: "agrees_table es [] \<longleftrightarrow> single_valued_entries es"
  by (simp add: agrees_table_def single_valued_entries_def)

lemma extends_table_Nil: "extends_table es [] m \<longleftrightarrow> map_of m = map_of es"
  by (simp add: extends_table_def)


end
