(* ===== verification/SourceContext.thy ===== *)
theory SourceContext
  imports ContributionCache Lexer SourceEnvironment
begin

text \<open>
  The result of parsing one Source: \<^verbatim>\<open>parser/source_facts.hpp\<close>, \<^verbatim>\<open>parser/source_context.hpp\<close> and
  \<^verbatim>\<open>parser/source_context.cpp\<close>, and the interface that the frontend exports from it
  (\<^verbatim>\<open>build_interface\<close> of \<^verbatim>\<open>frontend/source_frontend_generation.cpp\<close>). A context holds its spellings
  in an arena of bytes. Its diagnostics are the descriptors with their ranges.
\<close>

section \<open>Facts\<close>

record source_text_range =
  range_offset :: nat
  range_length :: nat

record source_name_ref =
  ref_offset :: nat
  ref_length :: nat

definition no_text_range :: source_text_range where
  "no_text_range = \<lparr>range_offset = 0, range_length = 0\<rparr>"

definition no_name :: source_name_ref where
  "no_name = \<lparr>ref_offset = 0, ref_length = 0\<rparr>"

record enum_value_source_fact =
  evf_name :: source_name_ref
  evf_value :: integral_constant
  evf_name_range :: source_text_range
  evf_expression_range :: source_text_range

record enum_declaration_source_fact =
  edf_canonical_name :: source_name_ref
  edf_scope_name :: source_name_ref
  edf_anonymous :: bool
  edf_scoped :: bool
  edf_definition_state :: enum_definition_state
  edf_explicit_underlying :: "builtin_type option"
  edf_enumerator_offset :: nat
  edf_enumerator_count :: nat
  edf_declaration_range :: source_text_range
  edf_name_range :: source_text_range
  edf_underlying_range :: source_text_range

record aggregate_declaration_source_fact =
  adf_canonical_name :: source_name_ref
  adf_scope_name :: source_name_ref
  adf_definition_state :: aggregate_definition_state
  adf_member_offset :: nat
  adf_member_count :: nat
  adf_declaration_range :: source_text_range
  adf_name_range :: source_text_range

datatype source_type_modifier_kind =
    Modifier_pointer
  | Modifier_array
  | Modifier_lvalue_reference
  | Modifier_rvalue_reference

record source_type_modifier =
  smf_kind :: source_type_modifier_kind
  smf_payload :: u64
  smf_range :: source_text_range

record member_declaration_source_fact =
  mdf_name :: source_name_ref
  mdf_type_name :: source_name_ref
  mdf_builtin :: "builtin_type option"
  mdf_modifier_offset :: nat
  mdf_modifier_count :: nat
  mdf_declaration_range :: source_text_range
  mdf_name_range :: source_text_range
  mdf_type_range :: source_text_range

section \<open>The context\<close>

datatype parser_diagnostic =
    Parser_invalid_source
  | Parser_invalid_enum_forward_declaration
  | Parser_anonymous_opaque_enum
  | Parser_invalid_enum_underlying
  | Parser_expected_enumerator_identifier
  | Parser_expected_semicolon
  | Parser_invalid_enumerator_expression
  | Parser_duplicate_enumerator
  | Parser_initialization_failed

record source_context =
  sx_tokens :: "parser_token list"
  sx_enum_values :: "enum_value_source_fact list"
  sx_enums :: "enum_declaration_source_fact list"
  sx_aggregates :: "aggregate_declaration_source_fact list"
  sx_aggregate_members :: "member_declaration_source_fact list"
  sx_type_modifiers :: "source_type_modifier list"
  sx_diagnostics :: "(parser_diagnostic \<times> source_text_range) list"
  sx_names :: string

definition new_source_context :: source_context where
  "new_source_context =
     \<lparr>sx_tokens = [], sx_enum_values = [], sx_enums = [], sx_aggregates = [], sx_aggregate_members = [],
      sx_type_modifiers = [], sx_diagnostics = [], sx_names = []\<rparr>"

definition sx_reset :: "source_context \<Rightarrow> source_context" where
  "sx_reset c =
     c\<lparr>sx_names := [], sx_tokens := [], sx_enum_values := [], sx_enums := [], sx_aggregates := [],
       sx_aggregate_members := [], sx_type_modifiers := [], sx_diagnostics := []\<rparr>"

definition sx_store_name :: "bool \<Rightarrow> string \<Rightarrow> source_context \<Rightarrow> status_code \<times> source_name_ref \<times> source_context" where
  "sx_store_name mem name c =
     (if name = [] then (Configuration_failed, no_name, c)
      else if length name > u32_max \<or> length (sx_names c) > u32_max - length name
      then (Initialization_failed, no_name, c)
      else if \<not> mem then (Initialization_failed, no_name, c)
      else (Ok, \<lparr>ref_offset = cast_u32 (length (sx_names c)), ref_length = cast_u32 (length name)\<rparr>,
            c\<lparr>sx_names := sx_names c @ name\<rparr>))"

definition sx_resolve_name :: "source_context \<Rightarrow> source_name_ref \<Rightarrow> status_code \<times> string" where
  "sx_resolve_name c r =
     (let e = ref_offset r + ref_length r in
      if ref_length r = 0 \<or> e > length (sx_names c) then (Configuration_failed, [])
      else (Ok, take (ref_length r) (drop (ref_offset r) (sx_names c))))"

text \<open>A slice of one of the fact vectors, empty when it does not lie inside it.\<close>

definition fact_slice :: "nat \<Rightarrow> nat \<Rightarrow> 'a list \<Rightarrow> 'a list" where
  "fact_slice offset n xs =
     (if n = 0 then [] else if offset + n > length xs then [] else take n (drop offset xs))"

definition sx_enumerators :: "source_context \<Rightarrow> enum_declaration_source_fact \<Rightarrow> enum_value_source_fact list" where
  "sx_enumerators c d = fact_slice (edf_enumerator_offset d) (edf_enumerator_count d) (sx_enum_values c)"

definition sx_members :: "source_context \<Rightarrow> aggregate_declaration_source_fact \<Rightarrow> member_declaration_source_fact list" where
  "sx_members c d = fact_slice (adf_member_offset d) (adf_member_count d) (sx_aggregate_members c)"

definition sx_modifiers :: "source_context \<Rightarrow> member_declaration_source_fact \<Rightarrow> source_type_modifier list" where
  "sx_modifiers c m = fact_slice (mdf_modifier_offset m) (mdf_modifier_count m) (sx_type_modifiers c)"

section \<open>The exported interface\<close>

text \<open>\<^verbatim>\<open>rfind("::")\<close>: the index of the last separator.\<close>

fun rfind_separator :: "string \<Rightarrow> nat option" where
  "rfind_separator (a # b # r) =
     (case rfind_separator (b # r) of
        Some i \<Rightarrow> Some (i + 1)
      | None \<Rightarrow> if a = CHR '':'' \<and> b = CHR '':'' then Some 0 else None)"
| "rfind_separator _ = None"

definition local_name :: "string \<Rightarrow> string" where
  "local_name canonical =
     (case rfind_separator canonical of None \<Rightarrow> canonical | Some i \<Rightarrow> drop (i + 2) canonical)"

definition scope_of_fact :: "source_context \<Rightarrow> source_name_ref \<Rightarrow> string option" where
  "scope_of_fact c r =
     (if ref_length r = 0 then Some []
      else case sx_resolve_name c r of (st, scope) \<Rightarrow> if st = Ok then Some scope else None)"

fun value_bindings ::
    "source_context \<Rightarrow> string \<Rightarrow> enum_value_source_fact list \<Rightarrow> source_constant_binding list option" where
  "value_bindings c scope [] = Some []"
| "value_bindings c scope (v # vs) =
     (case sx_resolve_name c (evf_name v) of (st, name) \<Rightarrow>
        if st \<noteq> Ok then None
        else map_option (\<lambda>bs. \<lparr>cb_scope_name = scope, cb_name = name, cb_value = evf_value v\<rparr> # bs)
               (value_bindings c scope vs))"

fun enum_bindings ::
    "source_context \<Rightarrow> enum_declaration_source_fact list
     \<Rightarrow> (source_constant_binding list \<times> source_type_binding list) option" where
  "enum_bindings c [] = Some ([], [])"
| "enum_bindings c (d # ds) =
     (case scope_of_fact c (edf_scope_name d) of
        None \<Rightarrow> None
      | Some scope \<Rightarrow>
      case (if edf_anonymous d then (Ok, []) else sx_resolve_name c (edf_canonical_name d)) of
        (st, canonical) \<Rightarrow>
          if st \<noteq> Ok then None
          else
            let own = (if edf_anonymous d then []
                       else [\<lparr>tb_scope_name = scope, tb_name = local_name canonical, tb_canonical_name = canonical\<rparr>])
            in case value_bindings c (if edf_scoped d then canonical else scope) (sx_enumerators c d) of
                 None \<Rightarrow> None
               | Some vals \<Rightarrow>
                   map_option (\<lambda>(cs, ts). (vals @ cs, own @ ts)) (enum_bindings c ds))"

fun aggregate_bindings ::
    "source_context \<Rightarrow> aggregate_declaration_source_fact list \<Rightarrow> source_type_binding list option" where
  "aggregate_bindings c [] = Some []"
| "aggregate_bindings c (d # ds) =
     (case scope_of_fact c (adf_scope_name d) of
        None \<Rightarrow> None
      | Some scope \<Rightarrow>
      case sx_resolve_name c (adf_canonical_name d) of (st, canonical) \<Rightarrow>
        if st \<noteq> Ok then None
        else map_option (\<lambda>ts. \<lparr>tb_scope_name = scope, tb_name = local_name canonical, tb_canonical_name = canonical\<rparr> # ts)
               (aggregate_bindings c ds))"

text \<open>\<open>mem\<close> says that the binding vectors can be allocated, \<open>mem_storage\<close> that the storage can.\<close>

definition build_interface ::
    "bool \<Rightarrow> bool \<Rightarrow> source_context \<Rightarrow> source_environment_storage option list \<Rightarrow> source_environment_storage
     \<Rightarrow> status_code \<times> source_environment_storage" where
  "build_interface mem mem_storage c imports s =
     (if \<not> mem then (Initialization_failed, s)
      else
        case enum_bindings c (sx_enums c) of
          None \<Rightarrow> (Configuration_failed, s)
        | Some (constants, types) \<Rightarrow>
        case aggregate_bindings c (sx_aggregates c) of
          None \<Rightarrow> (Configuration_failed, s)
        | Some others \<Rightarrow> es_initialize mem_storage constants (types @ others) imports s)"

end
