(* ===== verification/Parser.thy ===== *)
theory Parser
  imports SourceContext
begin

text \<open>
  The native parser: \<^verbatim>\<open>parser/parser.hpp\<close> and \<^verbatim>\<open>parser/parser.cpp\<close>. The tokens that are left
  replace the position, so \<^verbatim>\<open>peek()\<close> is the first of them; \<open>parse_in_range\<close> in
  \<^verbatim>\<open>ParserTotal\<close> shows that there is one whenever the code reads it. A routine takes the state
  and returns the status of a failure or its result, with the state. Each routine that can run out of
  memory takes an answer of the list \<open>ps_memory\<close>. The bytes of the Source and the environment are
  arguments.
\<close>

section \<open>State\<close>

record parser_state =
  ps_context :: source_context
  ps_rest :: "parser_token list"
  ps_scope :: string
  ps_constants :: "(string, integral_constant) umap"
  ps_types :: "string list"
  ps_memory :: "bool list"

type_synonym 'a parse = "parser_state \<Rightarrow> (status_code + 'a) \<times> parser_state"

definition finish :: "'a \<Rightarrow> 'a parse" where
  "finish x s = (Inr x, s)"

definition and_then_parse :: "'a parse \<Rightarrow> ('a \<Rightarrow> 'b parse) \<Rightarrow> 'b parse" where
  "and_then_parse m f s = (case m s of (Inl st, s) \<Rightarrow> (Inl st, s) | (Inr x, s) \<Rightarrow> f x s)"

definition no_token :: parser_token where
  "no_token = \<lparr>token_offset = 0, token_length = 0, token_kind = Tk_eof, token_punctuation = P_none, token_flags = 0\<rparr>"

definition peek :: "parser_state \<Rightarrow> parser_token" where
  "peek s = (case ps_rest s of [] \<Rightarrow> no_token | t # _ \<Rightarrow> t)"

definition ps_advance :: "parser_state \<Rightarrow> parser_state" where
  "ps_advance s = s\<lparr>ps_rest := tl (ps_rest s)\<rparr>"

definition take_punctuation :: "parser_punctuation \<Rightarrow> parser_state \<Rightarrow> bool \<times> parser_state" where
  "take_punctuation p s = (if token_punctuation (peek s) \<noteq> p then (False, s) else (True, ps_advance s))"

definition take_kind :: "parser_token_kind \<Rightarrow> parser_state \<Rightarrow> bool \<times> parser_state" where
  "take_kind k s = (if token_kind (peek s) \<noteq> k then (False, s) else (True, ps_advance s))"

definition token_text :: "string \<Rightarrow> parser_token \<Rightarrow> string" where
  "token_text src t = take (token_length t) (drop (token_offset t) src)"

definition ps_allocate :: "parser_state \<Rightarrow> bool \<times> parser_state" where
  "ps_allocate s = (case take_alloc (ps_memory s) of (ok, mem) \<Rightarrow> (ok, s\<lparr>ps_memory := mem\<rparr>))"

definition update_context :: "(source_context \<Rightarrow> source_context) \<Rightarrow> parser_state \<Rightarrow> parser_state" where
  "update_context f s = s\<lparr>ps_context := f (ps_context s)\<rparr>"

text \<open>An append inside the \<^verbatim>\<open>try\<close> block of \<^verbatim>\<open>parse_unit\<close>.\<close>

definition push :: "(source_context \<Rightarrow> source_context) \<Rightarrow> unit parse" where
  "push f s =
     (case ps_allocate s of (ok, s) \<Rightarrow>
        if ok then (Inr (), update_context f s) else (Inl Initialization_failed, s))"

definition fail_at :: "parser_diagnostic \<Rightarrow> nat \<Rightarrow> nat \<Rightarrow> 'a parse" where
  "fail_at d offset n s =
     (case ps_allocate s of (ok, s) \<Rightarrow>
        if ok
        then (Inl Configuration_failed,
              update_context (\<lambda>c. c\<lparr>sx_diagnostics := sx_diagnostics c @ [(d, \<lparr>range_offset = offset, range_length = n\<rparr>)]\<rparr>) s)
        else (Inl Initialization_failed, s))"

definition fail_token :: "parser_diagnostic \<Rightarrow> parser_token \<Rightarrow> 'a parse" where
  "fail_token d t = fail_at d (token_offset t) (token_length t)"

definition fail_peek :: "parser_diagnostic \<Rightarrow> 'a parse" where
  "fail_peek d s = fail_token d (peek s) s"

definition token_range :: "parser_token \<Rightarrow> source_text_range" where
  "token_range t = \<lparr>range_offset = token_offset t, range_length = token_length t\<rparr>"

text \<open>32-bit subtraction, as the ranges compute their lengths.\<close>

definition sub_u32 :: "nat \<Rightarrow> nat \<Rightarrow> nat" where
  "sub_u32 a b = cast_u32 (a + 4294967296 - b)"

section \<open>Names\<close>

definition store_name :: "string \<Rightarrow> source_name_ref parse" where
  "store_name name s =
     (case ps_allocate s of (ok, s) \<Rightarrow>
        case sx_store_name ok name (ps_context s) of (st, r, c) \<Rightarrow>
          (if st = Ok then Inr r else Inl st, s\<lparr>ps_context := c\<rparr>))"

definition qualified_name :: "string \<Rightarrow> string \<Rightarrow> string" where
  "qualified_name scope local = (if scope = [] then local else scope @ ''::'' @ local)"

definition store_qualified :: "string \<Rightarrow> source_name_ref parse" where
  "store_qualified local s =
     (case ps_allocate s of (ok, s) \<Rightarrow>
        if ok then store_name (qualified_name (ps_scope s) local) s else (Inl Initialization_failed, s))"

definition register_local_type :: "string \<Rightarrow> unit parse" where
  "register_local_type local s =
     (case ps_allocate s of (ok, s) \<Rightarrow>
        if ok then (Inr (), s\<lparr>ps_types := List.insert (qualified_name (ps_scope s) local) (ps_types s)\<rparr>)
        else (Inl Initialization_failed, s))"

definition parent_scope :: "string \<Rightarrow> string" where
  "parent_scope scope = (case rfind_separator scope of None \<Rightarrow> [] | Some i \<Rightarrow> take i scope)"

lemma rfind_separator_bound: "rfind_separator xs = Some i \<Longrightarrow> i + 2 \<le> length xs"
  by (induction xs arbitrary: i rule: rfind_separator.induct) (auto split: option.splits if_splits)

lemma length_parent_scope [termination_simp]: "scope \<noteq> [] \<Longrightarrow> length (parent_scope scope) < length scope"
  by (auto simp: parent_scope_def split: option.split dest: rfind_separator_bound)

text \<open>
  The scopes from the current one outwards. An allocation that fails ends the search without a result,
  as the \<^verbatim>\<open>catch\<close> clauses of \<^verbatim>\<open>lookup_type\<close> do.
\<close>

function lookup_type_from ::
    "source_environment \<Rightarrow> string \<Rightarrow> nat \<Rightarrow> string \<Rightarrow> parser_state \<Rightarrow> string option \<times> parser_state" where
  "lookup_type_from env name offset scope s =
     (case ps_allocate s of (ok, s) \<Rightarrow>
        if \<not> ok then (None, s)
        else
          let candidate = (if scope = [] then name else scope @ ''::'' @ name) in
          if candidate \<in> set (ps_types s) then (Some candidate, s)
          else
            case find_type_exact env scope name offset of (st, imported) \<Rightarrow>
              if st = Ok then
                (case ps_allocate s of (ok, s) \<Rightarrow> if ok then (imported, s) else (None, s))
              else if scope = [] then (None, s)
              else lookup_type_from env name offset (parent_scope scope) s)"
  by pat_completeness auto
termination
  by (relation "measure (\<lambda>(env, name, offset, scope, s). length scope)") (auto intro: length_parent_scope)

definition lookup_type :: "source_environment \<Rightarrow> string \<Rightarrow> nat \<Rightarrow> parser_state \<Rightarrow> string option \<times> parser_state" where
  "lookup_type env name offset s = lookup_type_from env name offset (ps_scope s) s"

function lookup_constant_from :: "source_environment \<Rightarrow> string \<Rightarrow> nat \<Rightarrow> string \<Rightarrow> integral_constant option" where
  "lookup_constant_from env name offset scope =
     (case find_constant_exact env scope name offset of (st, v) \<Rightarrow>
        if st = Ok then v
        else if scope = [] then None
        else lookup_constant_from env name offset (parent_scope scope))"
  by pat_completeness auto
termination
  by (relation "measure (\<lambda>(env, name, offset, scope). length scope)") (auto intro: length_parent_scope)

definition lookup_constant :: "source_environment \<Rightarrow> string \<Rightarrow> nat \<Rightarrow> parser_state \<Rightarrow> integral_constant option" where
  "lookup_constant env name offset s =
     (case map_of (ps_constants s) name of
        Some v \<Rightarrow> Some v
      | None \<Rightarrow> lookup_constant_from env name offset (ps_scope s))"

declare lookup_type_from.simps [simp del] lookup_constant_from.simps [simp del]

section \<open>Underlying types and numbers\<close>

definition extend_range :: "source_text_range \<Rightarrow> parser_token \<Rightarrow> source_text_range" where
  "extend_range r t = r\<lparr>range_length := sub_u32 (token_offset t + token_length t) (range_offset r)\<rparr>"

definition peek_word :: "string \<Rightarrow> string \<Rightarrow> parser_state \<Rightarrow> bool" where
  "peek_word src w s \<longleftrightarrow> token_kind (peek s) = Tk_identifier \<and> token_text src (peek s) = w"

text \<open>The words after \<^verbatim>\<open>unsigned\<close>; \<open>r\<close> is the range read so far.\<close>

definition parse_unsigned :: "string \<Rightarrow> source_text_range \<Rightarrow> (builtin_type \<times> source_text_range) parse" where
  "parse_unsigned src r s =
     (let r1 = extend_range r (peek s) in
      if token_kind (peek s) \<noteq> Tk_identifier then finish (Unsigned_integer, r) s
      else if token_text src (peek s) = ''char'' then finish (Unsigned_character, r1) (ps_advance s)
      else if token_text src (peek s) = ''short'' then finish (Unsigned_short_integer, r1) (ps_advance s)
      else if token_text src (peek s) = ''int'' then finish (Unsigned_integer, r1) (ps_advance s)
      else if token_text src (peek s) = ''long'' then
        (let s = ps_advance s in
         if peek_word src ''long'' s
         then finish (Unsigned_long_long_integer, extend_range r1 (peek s)) (ps_advance s)
         else finish (Unsigned_long_integer, r1) s)
      else fail_peek Parser_invalid_enum_underlying s)"

definition parse_underlying :: "string \<Rightarrow> (builtin_type \<times> source_text_range) parse" where
  "parse_underlying src s =
     (if token_kind (peek s) \<noteq> Tk_identifier then fail_peek Parser_invalid_enum_underlying s
      else
        let t = peek s; r = token_range t; s = ps_advance s in
        if token_text src t = ''char'' then finish (Character, r) s
        else if token_text src t = ''short'' then finish (Short_integer, r) s
        else if token_text src t = ''int'' then finish (Integer, r) s
        else if token_text src t = ''long'' then
          (if peek_word src ''long'' s
           then finish (Long_long_integer, extend_range r (peek s)) (ps_advance s)
           else finish (Long_integer, r) s)
        else if token_text src t = ''unsigned'' then parse_unsigned src r s
        else fail_token Parser_invalid_enum_underlying t s)"

text \<open>\<^verbatim>\<open>std::from_chars\<close> over a whole spelling into \<^verbatim>\<open>uint64_t\<close>, \<open>None\<close> being an error or a rest.\<close>

fun digits_value :: "string \<Rightarrow> nat \<Rightarrow> nat option" where
  "digits_value [] n = Some n"
| "digits_value (c # cs) n =
     (if decimal_digit c then digits_value cs (10 * n + (of_char c - 48)) else None)"

definition from_chars_u64 :: "string \<Rightarrow> u64 option" where
  "from_chars_u64 spelling =
     (if spelling = [] then None
      else case digits_value spelling 0 of
        None \<Rightarrow> None
      | Some n \<Rightarrow> if n > 18446744073709551615 then None else Some (of_nat n))"

definition parse_number :: "string \<Rightarrow> integral_constant parse" where
  "parse_number src s =
     (case take_punctuation P_minus s of (negative, s) \<Rightarrow>
        if token_kind (peek s) \<noteq> Tk_integer_literal then fail_peek Parser_invalid_enumerator_expression s
        else
          let t = peek s; s = ps_advance s in
          case from_chars_u64 (token_text src t) of
            None \<Rightarrow> fail_token Parser_invalid_enumerator_expression t s
          | Some v \<Rightarrow>
              if negative then
                (if v > push_bit 63 1 then fail_token Parser_invalid_enumerator_expression t s
                 else finish \<lparr>constant_type = Long_long_integer, constant_bits = 0 - v\<rparr> s)
              else
                finish \<lparr>constant_type = (if v \<le> 9223372036854775807 then Long_long_integer
                                         else Unsigned_long_long_integer),
                        constant_bits = v\<rparr> s)"

section \<open>Expressions\<close>

definition parse_primary :: "string \<Rightarrow> source_environment \<Rightarrow> integral_constant parse" where
  "parse_primary src env s =
     (if token_kind (peek s) = Tk_integer_literal \<or> token_punctuation (peek s) = P_minus then parse_number src s
      else if token_kind (peek s) = Tk_identifier then
        (let t = peek s; s = ps_advance s in
         case lookup_constant env (token_text src t) (token_offset t) s of
           Some v \<Rightarrow> finish v s
         | None \<Rightarrow> fail_token Parser_invalid_enumerator_expression t s)
      else fail_peek Parser_invalid_enumerator_expression s)"

text \<open>The sum of two constants with the overflow checks of the loop; \<open>None\<close> is an overflow.\<close>

definition add_constant :: "integral_constant \<Rightarrow> integral_constant \<Rightarrow> integral_constant option" where
  "add_constant left right =
     (if constant_type left = Unsigned_long_long_integer \<or> constant_type right = Unsigned_long_long_integer then
        (if 18446744073709551615 - constant_bits left < constant_bits right then None
         else Some \<lparr>constant_type = Unsigned_long_long_integer,
                    constant_bits = constant_bits left + constant_bits right\<rparr>)
      else
        let l = sint (constant_bits left); r = sint (constant_bits right) in
        if (r > 0 \<and> l > 9223372036854775807 - r) \<or> (r < 0 \<and> l < -9223372036854775808 - r) then None
        else Some \<lparr>constant_type = Long_long_integer, constant_bits = word_of_int (l + r)\<rparr>)"

lemma length_advance [simp]: "length (ps_rest (ps_advance s)) = length (ps_rest s) - 1"
  by (simp add: ps_advance_def)

lemma take_punctuation_shorter:
  "take_punctuation p s = (True, s') \<Longrightarrow> p \<noteq> P_none \<Longrightarrow> length (ps_rest s') < length (ps_rest s)"
  by (cases "ps_rest s") (auto simp: take_punctuation_def peek_def no_token_def ps_advance_def split: if_splits)

lemma ps_allocate_rest: "ps_allocate s = (ok, s') \<Longrightarrow> ps_rest s' = ps_rest s"
  by (auto simp: ps_allocate_def split: prod.splits)

lemma fail_at_rest: "fail_at d i n s = (r, s') \<Longrightarrow> ps_rest s' = ps_rest s"
  by (auto simp: fail_at_def update_context_def split: prod.splits if_splits dest: ps_allocate_rest)

lemma parse_number_rest: "parse_number src s = (r, s') \<Longrightarrow> length (ps_rest s') \<le> length (ps_rest s)"
  by (auto simp: parse_number_def Let_def finish_def fail_token_def fail_peek_def take_punctuation_def
      split: if_splits option.splits dest!: fail_at_rest)

lemma parse_primary_rest: "parse_primary src env s = (r, s') \<Longrightarrow> length (ps_rest s') \<le> length (ps_rest s)"
  by (auto simp: parse_primary_def Let_def finish_def fail_token_def fail_peek_def
      split: if_splits option.splits dest!: fail_at_rest parse_number_rest)

function parse_sum :: "string \<Rightarrow> source_environment \<Rightarrow> integral_constant \<Rightarrow> integral_constant parse" where
  "parse_sum src env left s =
     (case take_punctuation P_plus s of (taken, s) \<Rightarrow>
        if \<not> taken then finish left s
        else
          case parse_primary src env s of
            (Inl st, s) \<Rightarrow> (Inl st, s)
          | (Inr right, s) \<Rightarrow>
              (case add_constant left right of
                 None \<Rightarrow> fail_peek Parser_invalid_enumerator_expression s
               | Some v \<Rightarrow> parse_sum src env v s))"
  by pat_completeness auto
termination
  by (relation "measure (\<lambda>(src, env, left, s). length (ps_rest s))")
    (auto dest!: take_punctuation_shorter [OF sym] parse_primary_rest [OF sym])

declare parse_sum.simps [simp del]

definition parse_expression :: "string \<Rightarrow> source_environment \<Rightarrow> integral_constant parse" where
  "parse_expression src env = and_then_parse (parse_primary src env) (parse_sum src env)"

definition increment_constant :: "integral_constant \<Rightarrow> parser_token \<Rightarrow> integral_constant parse" where
  "increment_constant v location s =
     (if (if constant_type v = Unsigned_long_long_integer then constant_bits v = 18446744073709551615
          else constant_bits v = 9223372036854775807)
      then fail_token Parser_invalid_enumerator_expression location s
      else finish (v\<lparr>constant_bits := constant_bits v + 1\<rparr>) s)"

section \<open>Enumerations\<close>

definition peek_offset :: "parser_state \<Rightarrow> nat" where
  "peek_offset s = token_offset (peek s)"

text \<open>The initializer of an enumerator: its value and the range of its expression.\<close>

definition parse_initializer ::
    "string \<Rightarrow> source_environment \<Rightarrow> parser_token \<Rightarrow> integral_constant
     \<Rightarrow> (integral_constant \<times> source_text_range) parse" where
  "parse_initializer src env name nxt s =
     (case take_punctuation P_equal s of (taken, s) \<Rightarrow>
        if \<not> taken then finish (nxt, token_range name) s
        else
          let start = peek_offset s in
          and_then_parse (parse_expression src env)
            (\<lambda>v s. finish (v, \<lparr>range_offset = start, range_length = sub_u32 (peek_offset s) start\<rparr>) s) s)"

text \<open>What follows an enumerator: the value the next one starts from.\<close>

definition parse_separator :: "parser_token \<Rightarrow> integral_constant \<Rightarrow> integral_constant \<Rightarrow> integral_constant parse" where
  "parse_separator name nxt v s =
     (case take_punctuation P_comma s of (comma, s) \<Rightarrow>
        if \<not> comma then
          (if token_punctuation (peek s) \<noteq> P_right_brace then fail_peek Parser_invalid_source s
           else finish nxt s)
        else if token_punctuation (peek s) = P_right_brace then finish nxt s
        else increment_constant v name s)"

definition keep_constant :: "string \<Rightarrow> integral_constant \<Rightarrow> unit parse" where
  "keep_constant name v s =
     (case ps_allocate s of (ok, s) \<Rightarrow>
        if ok then (Inr (), s\<lparr>ps_constants := um_emplace name v (ps_constants s)\<rparr>)
        else (Inl Initialization_failed, s))"

text \<open>One iteration of the enumerator loop, the value for the next one being the result.\<close>

definition parse_enumerator :: "string \<Rightarrow> source_environment \<Rightarrow> integral_constant \<Rightarrow> integral_constant parse" where
  "parse_enumerator src env nxt s =
     (if token_kind (peek s) \<noteq> Tk_identifier then fail_peek Parser_expected_enumerator_identifier s
      else
        let name = peek s; s = ps_advance s in
        if map_of (ps_constants s) (token_text src name) \<noteq> None
        then fail_token Parser_duplicate_enumerator name s
        else
          and_then_parse (store_name (token_text src name)) (\<lambda>stored.
          and_then_parse (parse_initializer src env name nxt) (\<lambda>(v, expression).
          and_then_parse (keep_constant (token_text src name) v) (\<lambda>_.
          and_then_parse (push (\<lambda>c. c\<lparr>sx_enum_values := sx_enum_values c @
              [\<lparr>evf_name = stored, evf_value = v, evf_name_range = token_range name,
                evf_expression_range = expression\<rparr>]\<rparr>)) (\<lambda>_.
          parse_separator name nxt v)))) s)"

lemma and_then_parse_rest:
  assumes "and_then_parse m f s = (r, s')"
    and "\<And>r s'. m s = (r, s') \<Longrightarrow> length (ps_rest s') \<le> n"
    and "\<And>x t r s'. f x t = (r, s') \<Longrightarrow> length (ps_rest t) \<le> n \<Longrightarrow> length (ps_rest s') \<le> n"
  shows "length (ps_rest s') \<le> n"
  using assms by (auto simp: and_then_parse_def split: prod.splits sum.splits)

lemma take_punctuation_rest: "take_punctuation p s = (b, s') \<Longrightarrow> length (ps_rest s') \<le> length (ps_rest s)"
  by (auto simp: take_punctuation_def split: if_splits)

lemma finish_rest: "finish x s = (r, s') \<Longrightarrow> ps_rest s' = ps_rest s"
  by (simp add: finish_def)

lemma fail_token_rest: "fail_token d t s = (r, s') \<Longrightarrow> ps_rest s' = ps_rest s"
  by (auto simp: fail_token_def dest: fail_at_rest)

lemma fail_peek_rest: "fail_peek d s = (r, s') \<Longrightarrow> ps_rest s' = ps_rest s"
  by (auto simp: fail_peek_def dest: fail_token_rest)

lemma push_rest: "push f s = (r, s') \<Longrightarrow> ps_rest s' = ps_rest s"
  by (auto simp: push_def update_context_def split: prod.splits if_splits dest: ps_allocate_rest)

lemma keep_constant_rest: "keep_constant n v s = (r, s') \<Longrightarrow> ps_rest s' = ps_rest s"
  by (auto simp: keep_constant_def split: prod.splits if_splits dest: ps_allocate_rest)

lemma store_name_rest: "store_name n s = (r, s') \<Longrightarrow> ps_rest s' = ps_rest s"
  by (auto simp: store_name_def split: prod.splits dest: ps_allocate_rest)

lemma fail_not_Inr [simp]: "fail_token d t s \<noteq> (Inr x, s')" "fail_peek d s \<noteq> (Inr x, s')"
  by (auto simp: fail_peek_def fail_token_def fail_at_def split: prod.splits)

lemmas parse_rest = finish_rest fail_token_rest fail_peek_rest push_rest keep_constant_rest store_name_rest

lemma parse_sum_rest: "parse_sum src env v s = (r, s') \<Longrightarrow> length (ps_rest s') \<le> length (ps_rest s)"
proof (induction src env v s arbitrary: r s' rule: parse_sum.induct)
  case (1 src env v s)
  obtain taken s1 where t: "take_punctuation P_plus s = (taken, s1)" by force
  obtain p s2 where p: "parse_primary src env s1 = (p, s2)" by force
  have le: "length (ps_rest s1) \<le> length (ps_rest s)" "length (ps_rest s2) \<le> length (ps_rest s1)"
    using take_punctuation_rest [OF t] parse_primary_rest [OF p] .
  show ?case
  proof (cases "\<exists>right w. taken \<and> p = Inr right \<and> add_constant v right = Some w")
    case True
    then obtain right w where "taken" "p = Inr right" "add_constant v right = Some w" by blast
    note step = this
    have "parse_sum src env w s2 = (r, s')"
      using "1.prems" step t p by (subst (asm) parse_sum.simps) simp
    with "1.IH" [OF t [symmetric], of "Inr right" s2 right w r s'] step p le show ?thesis by simp
  next
    case False
    with "1.prems" t p le show ?thesis
      by (subst (asm) parse_sum.simps) (auto split: if_splits sum.splits option.splits dest: parse_rest)
  qed
qed

lemma parse_expression_rest:
  assumes "parse_expression src env s = (r, s')" "length (ps_rest s) \<le> n"
  shows "length (ps_rest s') \<le> n"
proof (rule and_then_parse_rest [OF assms(1) [unfolded parse_expression_def]])
  show "\<And>r s'. parse_primary src env s = (r, s') \<Longrightarrow> length (ps_rest s') \<le> n"
    using assms(2) by (auto dest: parse_primary_rest)
qed (auto dest: parse_sum_rest)

lemma parse_initializer_rest:
  assumes "parse_initializer src env name nxt s = (r, s')"
  shows "length (ps_rest s') \<le> length (ps_rest s)"
  using assms
  by (auto simp: parse_initializer_def Let_def split: prod.splits if_splits
      dest!: take_punctuation_rest parse_rest elim!: and_then_parse_rest parse_expression_rest)

lemma parse_separator_rest: "parse_separator name nxt v s = (r, s') \<Longrightarrow> length (ps_rest s') \<le> length (ps_rest s)"
  by (auto simp: parse_separator_def increment_constant_def split: prod.splits if_splits
      dest!: take_punctuation_rest parse_rest)

lemma parse_enumerator_rest:
  assumes "parse_enumerator src env nxt s = (r, s')"
  shows "length (ps_rest s') \<le> length (ps_rest s) \<and> (\<forall>v. r = Inr v \<longrightarrow> length (ps_rest s') < length (ps_rest s))"
proof (cases "token_kind (peek s) = Tk_identifier")
  case False
  with assms show ?thesis by (cases r) (auto simp: parse_enumerator_def dest: parse_rest)
next
  case True
  then have ne: "ps_rest s \<noteq> []" by (auto simp: peek_def no_token_def)
  let ?n = "length (ps_rest (ps_advance s))"
  show ?thesis
  proof (cases "map_of (ps_constants (ps_advance s)) (token_text src (peek s)) = None")
    case False
    with True assms show ?thesis by (cases r) (auto simp: parse_enumerator_def Let_def dest: parse_rest)
  next
    case None: True
    have "length (ps_rest s') \<le> ?n"
      using assms True None unfolding parse_enumerator_def Let_def
      by (auto simp: split_beta elim!: and_then_parse_rest
          dest!: parse_rest parse_initializer_rest parse_separator_rest split: prod.splits)
    with ne show ?thesis by (auto simp: neq_Nil_conv)
  qed
qed

function enumerator_loop ::
    "string \<Rightarrow> source_environment \<Rightarrow> integral_constant \<Rightarrow> nat \<Rightarrow> nat parse" where
  "enumerator_loop src env nxt n s =
     (case take_punctuation P_right_brace s of (closed, s) \<Rightarrow>
        if closed then finish n s
        else
          case parse_enumerator src env nxt s of
            (Inl st, s) \<Rightarrow> (Inl st, s)
          | (Inr nxt, s) \<Rightarrow> enumerator_loop src env nxt (cast_u32 (n + 1)) s)"
  by pat_completeness auto
termination
  by (relation "measure (\<lambda>(src, env, nxt, n, s). length (ps_rest s))")
    (auto dest!: parse_enumerator_rest [OF sym] take_punctuation_rest [OF sym])

declare enumerator_loop.simps [simp del]

definition parse_optional_underlying ::
    "string \<Rightarrow> (builtin_type option \<times> source_text_range) parse" where
  "parse_optional_underlying src s =
     (case take_punctuation P_colon s of (colon, s) \<Rightarrow>
        if colon then and_then_parse (parse_underlying src) (\<lambda>(t, r). finish (Some t, r)) s
        else finish (None, no_text_range) s)"

definition store_scope :: "source_name_ref parse" where
  "store_scope s = (if ps_scope s = [] then finish no_name s else store_name (ps_scope s) s)"

definition declare_type :: "string \<Rightarrow> source_name_ref parse" where
  "declare_type local =
     and_then_parse (store_qualified local) (\<lambda>r.
     and_then_parse (register_local_type local) (\<lambda>_. finish r))"

text \<open>The end of a declaration: its range reaches to the next token.\<close>

definition enum_done :: "enum_declaration_source_fact \<Rightarrow> unit parse" where
  "enum_done decl s =
     push (\<lambda>c. c\<lparr>sx_enums := sx_enums c @
       [decl\<lparr>edf_declaration_range :=
          (edf_declaration_range decl)\<lparr>range_length :=
             sub_u32 (peek_offset s) (range_offset (edf_declaration_range decl))\<rparr>\<rparr>]\<rparr>) s"

definition parse_enum_rest ::
    "string \<Rightarrow> source_environment \<Rightarrow> parser_token \<Rightarrow> enum_declaration_source_fact \<Rightarrow> unit parse" where
  "parse_enum_rest src env declaration decl s =
     (case take_punctuation P_semicolon s of (semicolon, s) \<Rightarrow>
        if semicolon then
          (if edf_anonymous decl then fail_token Parser_anonymous_opaque_enum declaration s
           else if \<not> edf_scoped decl \<and> edf_explicit_underlying decl = None
           then fail_token Parser_invalid_enum_forward_declaration declaration s
           else enum_done (decl\<lparr>edf_definition_state := Enum_opaque\<rparr>) s)
        else
          case take_punctuation P_left_brace s of (opened, s) \<Rightarrow>
            if \<not> opened then fail_peek Parser_invalid_source s
            else
              and_then_parse
                (enumerator_loop src env \<lparr>constant_type = Long_long_integer, constant_bits = 0\<rparr> 0)
                (\<lambda>n s. case take_punctuation P_semicolon s of (semicolon, s) \<Rightarrow>
                   if \<not> semicolon then fail_peek Parser_expected_semicolon s
                   else enum_done (decl\<lparr>edf_enumerator_count := n\<rparr>) s)
                (s\<lparr>ps_constants := []\<rparr>))"

definition parse_enum :: "string \<Rightarrow> source_environment \<Rightarrow> unit parse" where
  "parse_enum src env s =
     (let declaration = peek s; s = ps_advance s in
      case take_kind Tk_keyword_class s of (scoped, s) \<Rightarrow>
        let named = (token_kind (peek s) = Tk_identifier);
            name = (if named then peek s else no_token);
            s = (if named then ps_advance s else s);
            anonymous = (token_length name = 0)
        in and_then_parse (parse_optional_underlying src) (\<lambda>(underlying, underlying_range).
           and_then_parse store_scope (\<lambda>scope_name.
           and_then_parse (if anonymous then finish no_name else declare_type (token_text src name)) (\<lambda>canonical s.
             parse_enum_rest src env declaration
               \<lparr>edf_canonical_name = canonical, edf_scope_name = scope_name, edf_anonymous = anonymous,
                edf_scoped = scoped, edf_definition_state = Enum_defined,
                edf_explicit_underlying = underlying,
                edf_enumerator_offset = cast_u32 (length (sx_enum_values (ps_context s))),
                edf_enumerator_count = 0,
                edf_declaration_range = \<lparr>range_offset = token_offset declaration, range_length = 0\<rparr>,
                edf_name_range = token_range name, edf_underlying_range = underlying_range\<rparr> s))) s)"

section \<open>Aggregates\<close>

definition push_modifier ::
    "source_type_modifier_kind \<Rightarrow> u64 \<Rightarrow> source_text_range \<Rightarrow> unit parse" where
  "push_modifier kind payload r =
     push (\<lambda>c. c\<lparr>sx_type_modifiers := sx_type_modifiers c @
       [\<lparr>smf_kind = kind, smf_payload = payload, smf_range = r\<rparr>]\<rparr>)"

definition count_modifier :: "member_declaration_source_fact \<Rightarrow> member_declaration_source_fact" where
  "count_modifier m = m\<lparr>mdf_modifier_count := cast_u32 (mdf_modifier_count m + 1)\<rparr>"

definition extend_type_range :: "nat \<Rightarrow> member_declaration_source_fact \<Rightarrow> member_declaration_source_fact" where
  "extend_type_range e m =
     m\<lparr>mdf_type_range := (mdf_type_range m)\<lparr>range_length := sub_u32 e (range_offset (mdf_type_range m))\<rparr>\<rparr>"

lemma push_modifier_rest: "push_modifier k p r s = (x, s') \<Longrightarrow> ps_rest s' = ps_rest s"
  by (auto simp: push_modifier_def dest: push_rest)

lemma peek_some: "token_punctuation (peek s) = p \<Longrightarrow> p \<noteq> P_none \<Longrightarrow> ps_rest s \<noteq> []"
  by (auto simp: peek_def no_token_def)

function pointer_loop :: "member_declaration_source_fact \<Rightarrow> member_declaration_source_fact parse" where
  "pointer_loop m s =
     (if token_punctuation (peek s) \<noteq> P_asterisk then finish m s
      else
        let t = peek s in
        case push_modifier Modifier_pointer 0 (token_range t) (ps_advance s) of
          (Inl st, s) \<Rightarrow> (Inl st, s)
        | (Inr _, s) \<Rightarrow> pointer_loop (extend_type_range (token_offset t + token_length t) (count_modifier m)) s)"
  by pat_completeness auto
termination
  by (relation "measure (\<lambda>(m, s). length (ps_rest s))")
    (auto dest!: push_modifier_rest [OF sym] peek_some simp: neq_Nil_conv)

declare pointer_loop.simps [simp del]

definition parse_reference :: "member_declaration_source_fact \<Rightarrow> member_declaration_source_fact parse" where
  "parse_reference m s =
     (if token_punctuation (peek s) \<noteq> P_ampersand then finish m s
      else
        let first = peek s; s = ps_advance s;
            rvalue = (token_punctuation (peek s) = P_ampersand);
            r = (if rvalue then extend_range (token_range first) (peek s) else token_range first);
            s = (if rvalue then ps_advance s else s)
        in and_then_parse
             (push_modifier (if rvalue then Modifier_rvalue_reference else Modifier_lvalue_reference) 0 r)
             (\<lambda>_. finish (extend_type_range (range_offset r + range_length r) (count_modifier m))) s)"

definition after_reference :: "member_declaration_source_fact \<Rightarrow> parser_state \<Rightarrow> bool" where
  "after_reference m s \<longleftrightarrow>
     (let existing = sx_modifiers (ps_context s) m in
      existing \<noteq> [] \<and>
      (smf_kind (last existing) = Modifier_lvalue_reference \<or> smf_kind (last existing) = Modifier_rvalue_reference))"

text \<open>One array extent after its bracket \<open>opened\<close>.\<close>

definition parse_extent ::
    "string \<Rightarrow> parser_token \<Rightarrow> member_declaration_source_fact \<Rightarrow> member_declaration_source_fact parse" where
  "parse_extent src opened m s =
     (if token_kind (peek s) \<noteq> Tk_integer_literal then fail_peek Parser_invalid_source s
      else
        let extent_token = peek s; s = ps_advance s in
        case from_chars_u64 (token_text src extent_token) of
          None \<Rightarrow> fail_token Parser_invalid_source extent_token s
        | Some extent \<Rightarrow>
            if extent = 0 \<or> token_punctuation (peek s) \<noteq> P_right_bracket
            then fail_token Parser_invalid_source extent_token s
            else
              let closed = peek s; s = ps_advance s;
                  n = sub_u32 (token_offset closed + token_length closed) (token_offset opened)
              in if after_reference m s then fail_at Parser_invalid_source (token_offset opened) n s
                 else and_then_parse
                        (push_modifier Modifier_array extent \<lparr>range_offset = token_offset opened, range_length = n\<rparr>)
                        (\<lambda>_. finish (count_modifier m)) s)"

lemma parse_extent_rest:
  assumes "parse_extent src opened m s = (r, s')"
  shows "length (ps_rest s') \<le> length (ps_rest s)"
  using assms unfolding parse_extent_def Let_def
  by (auto split: if_splits option.splits dest!: parse_rest fail_at_rest push_modifier_rest elim!: and_then_parse_rest)

function extent_loop :: "string \<Rightarrow> member_declaration_source_fact \<Rightarrow> member_declaration_source_fact parse" where
  "extent_loop src m s =
     (let opened = peek s in
      case take_punctuation P_left_bracket s of (taken, s) \<Rightarrow>
        if \<not> taken then finish m s
        else
          case parse_extent src opened m s of
            (Inl st, s) \<Rightarrow> (Inl st, s)
          | (Inr m, s) \<Rightarrow> extent_loop src m s)"
  by pat_completeness auto
termination
  by (relation "measure (\<lambda>(src, m, s). length (ps_rest s))")
    (auto dest!: parse_extent_rest [OF sym] take_punctuation_shorter [OF sym])

declare extent_loop.simps [simp del]

text \<open>The base type of a member: \<^verbatim>\<open>int\<close> or a type in scope.\<close>

definition parse_member_type ::
    "string \<Rightarrow> source_environment \<Rightarrow> parser_token \<Rightarrow> member_declaration_source_fact
     \<Rightarrow> member_declaration_source_fact parse" where
  "parse_member_type src env start m s =
     (if token_text src start = ''int'' then finish (m\<lparr>mdf_builtin := Some Integer\<rparr>) s
      else
        case lookup_type env (token_text src start) (token_offset start) s of
          (None, s) \<Rightarrow> fail_token Parser_invalid_source start s
        | (Some canonical, s) \<Rightarrow>
            and_then_parse (store_name canonical) (\<lambda>r. finish (m\<lparr>mdf_type_name := r\<rparr>)) s)"

definition parse_member_name ::
    "string \<Rightarrow> member_declaration_source_fact \<Rightarrow> member_declaration_source_fact parse" where
  "parse_member_name src m s =
     (if token_kind (peek s) \<noteq> Tk_identifier then fail_peek Parser_invalid_source s
      else
        let t = peek s in
        and_then_parse (store_name (token_text src t))
          (\<lambda>r. finish (m\<lparr>mdf_name := r, mdf_name_range := token_range t\<rparr>)) (ps_advance s))"

definition member_done :: "parser_token \<Rightarrow> member_declaration_source_fact \<Rightarrow> unit parse" where
  "member_done start m s =
     (case take_punctuation P_semicolon s of (semicolon, s) \<Rightarrow>
        if \<not> semicolon then fail_peek Parser_expected_semicolon s
        else
          push (\<lambda>c. c\<lparr>sx_aggregate_members := sx_aggregate_members c @
            [m\<lparr>mdf_declaration_range := \<lparr>range_offset = token_offset start,
                range_length = sub_u32 (peek_offset s) (token_offset start)\<rparr>\<rparr>]\<rparr>) s)"

text \<open>One iteration of the member loop.\<close>

definition parse_member :: "string \<Rightarrow> source_environment \<Rightarrow> unit parse" where
  "parse_member src env s =
     (let start = peek s in
      if token_kind start \<noteq> Tk_identifier then fail_token Parser_invalid_source start s
      else
        and_then_parse (parse_member_type src env start
          \<lparr>mdf_name = no_name, mdf_type_name = no_name, mdf_builtin = None,
           mdf_modifier_offset = cast_u32 (length (sx_type_modifiers (ps_context s))), mdf_modifier_count = 0,
           mdf_declaration_range = no_text_range, mdf_name_range = no_text_range, mdf_type_range = token_range start\<rparr>) (\<lambda>m.
        and_then_parse (pointer_loop m) (\<lambda>m.
        and_then_parse (parse_reference m) (\<lambda>m.
        and_then_parse (parse_member_name src m) (\<lambda>m.
        and_then_parse (extent_loop src m) (\<lambda>m.
        member_done start m))))) (ps_advance s))"


lemma pointer_loop_rest: "pointer_loop m s = (r, s') \<Longrightarrow> length (ps_rest s') \<le> length (ps_rest s)"
proof (induction m s arbitrary: r s' rule: pointer_loop.induct)
  case (1 m s)
  obtain x s1 where p: "push_modifier Modifier_pointer 0 (token_range (peek s)) (ps_advance s) = (x, s1)" by force
  show ?case
  proof (cases "token_punctuation (peek s) = P_asterisk \<and> (\<exists>u. x = Inr u)")
    case True
    then obtain u where x: "x = Inr u" by blast
    from "1.prems" p True x have
      "pointer_loop (extend_type_range (token_offset (peek s) + token_length (peek s)) (count_modifier m)) s1 = (r, s')"
      by (subst (asm) pointer_loop.simps) (simp add: Let_def)
    with "1.IH" [OF _ refl p [symmetric] x] True show ?thesis
      using push_modifier_rest [OF p] by simp
  next
    case False
    with "1.prems" p show ?thesis
      by (subst (asm) pointer_loop.simps)
        (auto simp: Let_def split: if_splits sum.splits dest: parse_rest dest!: push_modifier_rest)
  qed
qed

lemma parse_reference_rest: "parse_reference m s = (r, s') \<Longrightarrow> length (ps_rest s') \<le> length (ps_rest s)"
  by (auto simp: parse_reference_def Let_def split: if_splits
      dest!: parse_rest push_modifier_rest elim!: and_then_parse_rest)

lemma extent_loop_rest: "extent_loop src m s = (r, s') \<Longrightarrow> length (ps_rest s') \<le> length (ps_rest s)"
proof (induction src m s arbitrary: r s' rule: extent_loop.induct)
  case (1 src m s)
  obtain taken s1 where t: "take_punctuation P_left_bracket s = (taken, s1)" by force
  obtain x s2 where x: "parse_extent src (peek s) m s1 = (x, s2)" by force
  have le: "length (ps_rest s1) \<le> length (ps_rest s)" "length (ps_rest s2) \<le> length (ps_rest s1)"
    using take_punctuation_rest [OF t] parse_extent_rest [OF x] .
  show ?case
  proof (cases "taken \<and> (\<exists>m'. x = Inr m')")
    case True
    then obtain m' where m': "x = Inr m'" by blast
    from "1.prems" t x True m' have "extent_loop src m' s2 = (r, s')"
      by (subst (asm) extent_loop.simps) (simp add: Let_def)
    with "1.IH" [OF refl t [symmetric], of x s2 m'] True m' x le show ?thesis by simp
  next
    case False
    with "1.prems" t x le show ?thesis
      by (subst (asm) extent_loop.simps) (auto simp: Let_def split: if_splits sum.splits dest: parse_rest)
  qed
qed

lemma lookup_type_rest: "lookup_type env name offset s = (r, s') \<Longrightarrow> ps_rest s' = ps_rest s"
proof -
  have "ps_rest (snd (lookup_type_from env name offset scope s)) = ps_rest s" for scope
  proof (induction env name offset scope s rule: lookup_type_from.induct)
    case (1 env name offset scope s)
    obtain ok s1 where a: "ps_allocate s = (ok, s1)" by force
    obtain ok2 s2 where b: "ps_allocate s1 = (ok2, s2)" by force
    obtain st v where f: "find_type_exact env scope name offset = (st, v)" by force
    note IH = "1.IH" [OF a [symmetric] _ refl _ f [symmetric]]
    show ?case
      using IH ps_allocate_rest [OF a] ps_allocate_rest [OF b]
      by (subst lookup_type_from.simps) (auto simp: a b f Let_def)
  qed
  then show "lookup_type env name offset s = (r, s') \<Longrightarrow> ps_rest s' = ps_rest s"
    unfolding lookup_type_def by (metis snd_conv)
qed

lemma parse_member_type_rest: "parse_member_type src env t m s = (r, s') \<Longrightarrow> length (ps_rest s') \<le> length (ps_rest s)"
  by (auto simp: parse_member_type_def split: if_splits prod.splits option.splits
      dest!: parse_rest lookup_type_rest elim!: and_then_parse_rest)

lemma parse_member_name_rest: "parse_member_name src m s = (r, s') \<Longrightarrow> length (ps_rest s') \<le> length (ps_rest s)"
  by (auto simp: parse_member_name_def Let_def split: if_splits
      dest!: parse_rest elim!: and_then_parse_rest)

lemma member_done_rest: "member_done t m s = (r, s') \<Longrightarrow> length (ps_rest s') \<le> length (ps_rest s)"
  by (auto simp: member_done_def split: if_splits prod.splits dest!: parse_rest dest: take_punctuation_rest)

lemma parse_member_rest:
  assumes "parse_member src env s = (r, s')"
  shows "length (ps_rest s') \<le> length (ps_rest s) \<and> (\<forall>u. r = Inr u \<longrightarrow> length (ps_rest s') < length (ps_rest s))"
proof (cases "token_kind (peek s) = Tk_identifier")
  case False
  with assms show ?thesis by (cases r) (auto simp: parse_member_def Let_def dest: parse_rest)
next
  case True
  then have ne: "ps_rest s \<noteq> []" by (auto simp: peek_def no_token_def)
  have "length (ps_rest s') \<le> length (ps_rest (ps_advance s))"
    using assms True unfolding parse_member_def Let_def
    by (auto elim!: and_then_parse_rest dest!: parse_member_type_rest pointer_loop_rest parse_reference_rest
        parse_member_name_rest extent_loop_rest member_done_rest)
  with ne show ?thesis by (auto simp: neq_Nil_conv)
qed

function member_loop :: "string \<Rightarrow> source_environment \<Rightarrow> nat \<Rightarrow> nat parse" where
  "member_loop src env n s =
     (case take_punctuation P_right_brace s of (closed, s) \<Rightarrow>
        if closed then finish n s
        else
          case parse_member src env s of
            (Inl st, s) \<Rightarrow> (Inl st, s)
          | (Inr _, s) \<Rightarrow> member_loop src env (cast_u32 (n + 1)) s)"
  by pat_completeness auto
termination
  by (relation "measure (\<lambda>(src, env, n, s). length (ps_rest s))")
    (auto dest!: parse_member_rest [OF sym] take_punctuation_rest [OF sym])

declare member_loop.simps [simp del]

definition aggregate_done :: "parser_token \<Rightarrow> aggregate_declaration_source_fact \<Rightarrow> unit parse" where
  "aggregate_done declaration decl s =
     push (\<lambda>c. c\<lparr>sx_aggregates := sx_aggregates c @
       [decl\<lparr>adf_declaration_range :=
          (adf_declaration_range decl)\<lparr>range_length := sub_u32 (peek_offset s) (token_offset declaration)\<rparr>\<rparr>]\<rparr>) s"

definition parse_struct_rest ::
    "string \<Rightarrow> source_environment \<Rightarrow> parser_token \<Rightarrow> aggregate_declaration_source_fact \<Rightarrow> unit parse" where
  "parse_struct_rest src env declaration decl s =
     (case take_punctuation P_semicolon s of (semicolon, s) \<Rightarrow>
        if semicolon then aggregate_done declaration (decl\<lparr>adf_definition_state := Aggregate_declared\<rparr>) s
        else
          case take_punctuation P_left_brace s of (opened, s) \<Rightarrow>
            if \<not> opened then fail_peek Parser_invalid_source s
            else
              let decl = decl\<lparr>adf_member_offset := cast_u32 (length (sx_aggregate_members (ps_context s)))\<rparr> in
              and_then_parse (member_loop src env 0)
                (\<lambda>n s. case take_punctuation P_semicolon s of (semicolon, s) \<Rightarrow>
                   if \<not> semicolon then fail_peek Parser_expected_semicolon s
                   else aggregate_done declaration
                          (decl\<lparr>adf_member_count := n, adf_definition_state := Aggregate_defined\<rparr>) s) s)"

definition parse_struct :: "string \<Rightarrow> source_environment \<Rightarrow> unit parse" where
  "parse_struct src env s =
     (let declaration = peek s; s = ps_advance s in
      if token_kind (peek s) \<noteq> Tk_identifier then fail_peek Parser_invalid_source s
      else
        let name = peek s in
        and_then_parse (declare_type (token_text src name)) (\<lambda>canonical.
        and_then_parse store_scope (\<lambda>scope_name.
          parse_struct_rest src env declaration
            \<lparr>adf_canonical_name = canonical, adf_scope_name = scope_name,
             adf_definition_state = Aggregate_declared, adf_member_offset = 0, adf_member_count = 0,
             adf_declaration_range = \<lparr>range_offset = token_offset declaration, range_length = 0\<rparr>,
             adf_name_range = token_range name\<rparr>)) (ps_advance s))"

section \<open>Namespaces and the unit\<close>

text \<open>
  The recursion of \<^verbatim>\<open>parse_unit\<close> and \<^verbatim>\<open>parse_namespace\<close> on fuel. \<open>None\<close> is running out of it, which
  \<open>parse_fuel_enough\<close> in \<^verbatim>\<open>ParserTotal\<close> excludes for the fuel that the entry points give.
\<close>

definition enter_scope :: "string \<Rightarrow> parser_state \<Rightarrow> bool \<times> parser_state" where
  "enter_scope local s =
     (case ps_allocate s of (ok, s) \<Rightarrow>
        if ok then (True, s\<lparr>ps_scope := qualified_name (ps_scope s) local\<rparr>) else (False, s))"

fun parse_unit :: "nat \<Rightarrow> string \<Rightarrow> source_environment \<Rightarrow> bool \<Rightarrow> parser_state \<Rightarrow> ((status_code + unit) \<times> parser_state) option"
  and parse_namespace :: "nat \<Rightarrow> string \<Rightarrow> source_environment \<Rightarrow> parser_state \<Rightarrow> ((status_code + unit) \<times> parser_state) option"
where
  "parse_unit 0 src env nested s = None"
| "parse_unit (Suc n) src env nested s =
     (if token_kind (peek s) = Tk_eof \<or> nested \<and> token_punctuation (peek s) = P_right_brace then Some (Inr (), s)
      else
        case (if token_kind (peek s) = Tk_keyword_enum then Some (parse_enum src env s)
              else if token_kind (peek s) = Tk_keyword_struct then Some (parse_struct src env s)
              else if token_kind (peek s) = Tk_keyword_namespace then parse_namespace n src env s
              else Some (fail_peek Parser_invalid_source s)) of
          None \<Rightarrow> None
        | Some (Inl st, s) \<Rightarrow> Some (Inl st, s)
        | Some (Inr _, s) \<Rightarrow> parse_unit n src env nested s)"
| "parse_namespace 0 src env s = None"
| "parse_namespace (Suc n) src env s =
     (let declaration = peek s; s = ps_advance s in
      if token_kind (peek s) \<noteq> Tk_identifier then Some (fail_token Parser_invalid_source declaration s)
      else
        let previous_scope_size = length (ps_scope s) in
        case enter_scope (token_text src (peek s)) s of (ok, s) \<Rightarrow>
          if \<not> ok then Some (Inl Initialization_failed, s)
          else
            case take_punctuation P_left_brace (ps_advance s) of (opened, s) \<Rightarrow>
              if \<not> opened then Some (fail_peek Parser_invalid_source s)
              else
                case parse_unit n src env True s of
                  None \<Rightarrow> None
                | Some (Inl st, s) \<Rightarrow> Some (Inl st, s)
                | Some (Inr _, s) \<Rightarrow>
                    (case take_punctuation P_right_brace s of (closed, s) \<Rightarrow>
                       if \<not> closed then Some (fail_peek Parser_invalid_source s)
                       else Some (Inr (), s\<lparr>ps_scope := take previous_scope_size (ps_scope s)\<rparr>)))"

definition initial_parser_state :: "source_context \<Rightarrow> parser_token list \<Rightarrow> bool list \<Rightarrow> parser_state" where
  "initial_parser_state c ts mem =
     \<lparr>ps_context = c, ps_rest = ts, ps_scope = [], ps_constants = [], ps_types = [], ps_memory = mem\<rparr>"

definition unit_fuel :: "parser_token list \<Rightarrow> nat" where
  "unit_fuel ts = 2 * length ts + 2"

definition emit_initialization_failure_if_needed ::
    "status_code \<Rightarrow> bool list \<Rightarrow> source_context \<Rightarrow> source_context" where
  "emit_initialization_failure_if_needed st mem c =
     (if st \<noteq> Initialization_failed \<or> sx_diagnostics c \<noteq> [] then c
      else if fst (take_alloc mem) then c\<lparr>sx_diagnostics := [(Parser_initialization_failed, no_text_range)]\<rparr>
      else c)"

definition parse_tokens_of ::
    "string \<Rightarrow> source_environment \<Rightarrow> parser_token list \<Rightarrow> bool list \<Rightarrow> source_context
     \<Rightarrow> (status_code \<times> source_context) option" where
  "parse_tokens_of src env ts mem c =
     (case parse_unit (unit_fuel ts) src env False (initial_parser_state c ts mem) of
        None \<Rightarrow> None
      | Some (r, s) \<Rightarrow>
          let st = (case r of Inl st \<Rightarrow> st | Inr _ \<Rightarrow> Ok) in
          Some (st, emit_initialization_failure_if_needed st (ps_memory s) (ps_context s)))"

definition parse_source_tokens ::
    "string \<Rightarrow> parser_token list \<Rightarrow> source_environment \<Rightarrow> bool list \<Rightarrow> source_context
     \<Rightarrow> (status_code \<times> source_context) option" where
  "parse_source_tokens src ts env mem c =
     (let c = sx_reset c in
      if ts = [] \<or> token_kind (last ts) \<noteq> Tk_eof
      then Some (Configuration_failed, emit_initialization_failure_if_needed Configuration_failed mem c)
      else parse_tokens_of src env ts mem c)"

text \<open>\<open>lex_mem\<close> and \<open>emitted\<close> are the answers that \<^verbatim>\<open>lex_source\<close> takes.\<close>

definition parse_source ::
    "bool \<Rightarrow> bool \<Rightarrow> string \<Rightarrow> source_environment \<Rightarrow> bool list \<Rightarrow> source_context
     \<Rightarrow> (status_code \<times> source_context) option" where
  "parse_source lex_mem emitted src env mem c =
     (let c = sx_reset c in
      case lex_source lex_mem emitted False src of (st, ts, _, diag) \<Rightarrow>
        let c = c\<lparr>sx_tokens := ts,
                  sx_diagnostics := (case diag of None \<Rightarrow> []
                                     | Some (i, n) \<Rightarrow> [(Parser_invalid_source, \<lparr>range_offset = i, range_length = n\<rparr>)])\<rparr>
        in if st \<noteq> Ok then Some (st, c) else parse_tokens_of src env ts mem c)"


end
