(* ===== verification/ParserGrammar.thy ===== *)
theory ParserGrammar
  imports Parser "HOL-Library.Sublist"
begin

text \<open>
  The reference for the parser: the grammar of declarations with its static semantics, over tokens. A
  derivation says what a list of tokens declares, with integers for the values of enumerators, lists of
  names for scopes, and sets for the types declared so far. Nothing in it depends on the position of a
  parser, its arenas or its error paths.
\<close>

section \<open>Meanings\<close>

record enum_meaning =
  em_name :: "string option"
  em_scope :: string
  em_scoped :: bool
  em_state :: enum_definition_state
  em_underlying :: "builtin_type option"
  em_values :: "(string \<times> integral_constant) list"

record member_meaning =
  mm_name :: string
  mm_type :: "builtin_type + string"
  mm_modifiers :: "(source_type_modifier_kind \<times> u64) list"

record aggregate_meaning =
  ag_name :: string
  ag_scope :: string
  ag_state :: aggregate_definition_state
  ag_members :: "member_meaning list"

text \<open>The declarations of a Source: its enumerations and its aggregates, each in their order.\<close>

type_synonym unit_meaning = "enum_meaning list \<times> aggregate_meaning list"

section \<open>Scopes\<close>

fun join :: "string list \<Rightarrow> string" where
  "join [] = []"
| "join [x] = x"
| "join (x # y # zs) = x @ ''::'' @ join (y # zs)"

definition qualify :: "string list \<Rightarrow> string \<Rightarrow> string" where
  "qualify scope name = join (scope @ [name])"

text \<open>The enclosing scopes, the innermost first.\<close>

definition enclosing :: "string list \<Rightarrow> string list list" where
  "enclosing scope = map (\<lambda>n. take n scope) (rev [0..<length scope + 1])"

definition constant_in_scope ::
    "source_environment \<Rightarrow> string list \<Rightarrow> (string \<times> integral_constant) list \<Rightarrow> string \<Rightarrow> nat \<Rightarrow> integral_constant option" where
  "constant_in_scope env scope own name offset =
     (case map_of own name of
        Some v \<Rightarrow> Some v
      | None \<Rightarrow> first_some (\<lambda>sc. snd (find_constant_exact env (join sc) name offset)) (enclosing scope))"

definition type_in_scope ::
    "source_environment \<Rightarrow> string list \<Rightarrow> string set \<Rightarrow> string \<Rightarrow> nat \<Rightarrow> string option" where
  "type_in_scope env scope types name offset =
     first_some (\<lambda>sc. if qualify sc name \<in> types then Some (qualify sc name)
                      else snd (find_type_exact env (join sc) name offset)) (enclosing scope)"

section \<open>Constants\<close>

abbreviation unsigned_constant :: "integral_constant \<Rightarrow> bool" where
  "unsigned_constant v \<equiv> constant_type v = Unsigned_long_long_integer"

definition constant_int :: "integral_constant \<Rightarrow> int" where
  "constant_int v = (if unsigned_constant v then uint (constant_bits v) else sint (constant_bits v))"

definition signed_literal :: "int \<Rightarrow> integral_constant" where
  "signed_literal n = \<lparr>constant_type = Long_long_integer, constant_bits = word_of_int n\<rparr>"

definition unsigned_literal :: "int \<Rightarrow> integral_constant" where
  "unsigned_literal n = \<lparr>constant_type = Unsigned_long_long_integer, constant_bits = word_of_int n\<rparr>"

text \<open>
  The sum of two constants. With an unsigned operand the other one is taken modulo \<open>2 ^ 64\<close>, as C++
  converts it; a sum out of the range of the result type is an error.
\<close>

definition sum_constants :: "integral_constant \<Rightarrow> integral_constant \<Rightarrow> integral_constant option" where
  "sum_constants v w =
     (if unsigned_constant v \<or> unsigned_constant w then
        (let n = constant_int v mod 2 ^ 64 + constant_int w mod 2 ^ 64 in
         if n < 2 ^ 64 then Some (unsigned_literal n) else None)
      else
        (let n = constant_int v + constant_int w in
         if - (2 ^ 63) \<le> n \<and> n < 2 ^ 63 then Some (signed_literal n) else None))"

definition successor_constant :: "integral_constant \<Rightarrow> integral_constant option" where
  "successor_constant v =
     (if constant_int v + 1 < (if unsigned_constant v then 2 ^ 64 else 2 ^ 63)
      then Some (v\<lparr>constant_bits := word_of_int (constant_int v + 1)\<rparr>) else None)"

section \<open>Tokens and expressions\<close>

abbreviation sign_token :: "parser_punctuation \<Rightarrow> parser_token \<Rightarrow> bool" where
  "sign_token p t \<equiv> token_punctuation t = p"

abbreviation identifier_token :: "parser_token \<Rightarrow> bool" where
  "identifier_token t \<equiv> token_kind t = Tk_identifier"

definition underlying_words :: "(string list \<times> builtin_type) list" where
  "underlying_words =
     [([''char''], Character), ([''short''], Short_integer), ([''int''], Integer), ([''long''], Long_integer),
      ([''long'', ''long''], Long_long_integer), ([''unsigned''], Unsigned_integer),
      ([''unsigned'', ''char''], Unsigned_character), ([''unsigned'', ''short''], Unsigned_short_integer),
      ([''unsigned'', ''int''], Unsigned_integer), ([''unsigned'', ''long''], Unsigned_long_integer),
      ([''unsigned'', ''long'', ''long''], Unsigned_long_long_integer)]"

definition underlying_type :: "string \<Rightarrow> parser_token list \<Rightarrow> builtin_type \<Rightarrow> bool" where
  "underlying_type src ts t \<longleftrightarrow>
     list_all identifier_token ts \<and> (map (token_text src) ts, t) \<in> set underlying_words"

inductive operand ::
    "string \<Rightarrow> (string \<Rightarrow> nat \<Rightarrow> integral_constant option) \<Rightarrow> parser_token list \<Rightarrow> integral_constant \<Rightarrow> bool"
  for src look where
  small: "token_kind t = Tk_integer_literal \<Longrightarrow> from_chars_u64 (token_text src t) = Some n \<Longrightarrow> uint n < 2 ^ 63 \<Longrightarrow>
     operand src look [t] (signed_literal (uint n))"
| large: "token_kind t = Tk_integer_literal \<Longrightarrow> from_chars_u64 (token_text src t) = Some n \<Longrightarrow> 2 ^ 63 \<le> uint n \<Longrightarrow>
     operand src look [t] (unsigned_literal (uint n))"
| negative: "sign_token P_minus m \<Longrightarrow> token_kind t = Tk_integer_literal \<Longrightarrow>
     from_chars_u64 (token_text src t) = Some n \<Longrightarrow> uint n \<le> 2 ^ 63 \<Longrightarrow>
     operand src look [m, t] (signed_literal (- uint n))"
| named: "identifier_token t \<Longrightarrow> look (token_text src t) (token_offset t) = Some v \<Longrightarrow> operand src look [t] v"

inductive sum_expression ::
    "string \<Rightarrow> (string \<Rightarrow> nat \<Rightarrow> integral_constant option) \<Rightarrow> parser_token list \<Rightarrow> integral_constant \<Rightarrow> bool"
  for src look where
  operand: "operand src look ts v \<Longrightarrow> sum_expression src look ts v"
| added: "sum_expression src look ts v \<Longrightarrow> sign_token P_plus p \<Longrightarrow> operand src look us w \<Longrightarrow>
     sum_constants v w = Some x \<Longrightarrow> sum_expression src look (ts @ p # us) x"

section \<open>Enumerations\<close>

text \<open>The value of an enumerator: its expression, or the value \<open>nxt\<close> carried over.\<close>

inductive initializer ::
    "string \<Rightarrow> (string \<Rightarrow> nat \<Rightarrow> integral_constant option) \<Rightarrow> integral_constant \<Rightarrow> parser_token list \<Rightarrow> integral_constant \<Rightarrow> bool"
  for src look nxt where
  implicit: "initializer src look nxt [] nxt"
| explicit: "sign_token P_equal e \<Longrightarrow> sum_expression src look ts v \<Longrightarrow> initializer src look nxt (e # ts) v"

text \<open>
  Between an enumerator of value \<open>v\<close> and the token \<open>t\<close> after it: nothing or a comma before the closing
  brace, else a comma, the next value being the successor of \<open>v\<close>.
\<close>

inductive separator ::
    "integral_constant \<Rightarrow> integral_constant \<Rightarrow> parser_token list \<Rightarrow> parser_token \<Rightarrow> integral_constant \<Rightarrow> bool" where
  no_comma: "sign_token P_right_brace t \<Longrightarrow> separator nxt v [] t nxt"
| last_comma: "sign_token P_comma c \<Longrightarrow> sign_token P_right_brace t \<Longrightarrow> separator nxt v [c] t nxt"
| comma: "sign_token P_comma c \<Longrightarrow> \<not> sign_token P_right_brace t \<Longrightarrow> successor_constant v = Some w \<Longrightarrow>
     separator nxt v [c] t w"

inductive enumerators ::
    "string \<Rightarrow> source_environment \<Rightarrow> string list \<Rightarrow> (string \<times> integral_constant) list \<Rightarrow> integral_constant
     \<Rightarrow> parser_token list \<Rightarrow> (string \<times> integral_constant) list \<Rightarrow> bool"
  for src env scope where
  close: "sign_token P_right_brace t \<Longrightarrow> enumerators src env scope own nxt [t] []"
| item: "identifier_token name \<Longrightarrow> token_text src name \<notin> fst ` set own \<Longrightarrow>
     initializer src (constant_in_scope env scope own) nxt us v \<Longrightarrow> separator nxt v sep t nxt' \<Longrightarrow>
     enumerators src env scope (own @ [(token_text src name, v)]) nxt' (t # ts) vs \<Longrightarrow>
     enumerators src env scope own nxt (name # us @ sep @ t # ts) ((token_text src name, v) # vs)"

inductive optional_class :: "parser_token list \<Rightarrow> bool \<Rightarrow> bool" where
  "optional_class [] False"
| "token_kind t = Tk_keyword_class \<Longrightarrow> optional_class [t] True"

inductive optional_name :: "string \<Rightarrow> parser_token list \<Rightarrow> string option \<Rightarrow> bool" for src where
  "optional_name src [] None"
| "identifier_token t \<Longrightarrow> optional_name src [t] (Some (token_text src t))"

inductive optional_underlying :: "string \<Rightarrow> parser_token list \<Rightarrow> builtin_type option \<Rightarrow> bool" for src where
  "optional_underlying src [] None"
| "sign_token P_colon c \<Longrightarrow> underlying_type src us t \<Longrightarrow> optional_underlying src (c # us) (Some t)"

text \<open>A body: a semicolon for an opaque declaration that may be one, or the enumerators.\<close>

inductive enum_body ::
    "string \<Rightarrow> source_environment \<Rightarrow> string list \<Rightarrow> bool \<Rightarrow> parser_token list \<Rightarrow> enum_definition_state
     \<Rightarrow> (string \<times> integral_constant) list \<Rightarrow> bool"
  for src env scope may_be_opaque where
  opaque: "may_be_opaque \<Longrightarrow> sign_token P_semicolon t \<Longrightarrow> enum_body src env scope may_be_opaque [t] Enum_opaque []"
| defined: "sign_token P_left_brace b \<Longrightarrow> enumerators src env scope [] (signed_literal 0) ts vs \<Longrightarrow>
     sign_token P_semicolon t \<Longrightarrow> enum_body src env scope may_be_opaque (b # ts @ [t]) Enum_defined vs"

inductive enum_declaration ::
    "string \<Rightarrow> source_environment \<Rightarrow> string list \<Rightarrow> parser_token list \<Rightarrow> enum_meaning \<Rightarrow> bool"
  for src env scope where
  "token_kind k = Tk_keyword_enum \<Longrightarrow> optional_class cs scoped \<Longrightarrow> optional_name src ns name \<Longrightarrow>
   optional_underlying src us underlying \<Longrightarrow>
   enum_body src env scope (name \<noteq> None \<and> (scoped \<or> underlying \<noteq> None)) bs state vs \<Longrightarrow>
   enum_declaration src env scope (k # cs @ ns @ us @ bs)
     \<lparr>em_name = map_option (qualify scope) name, em_scope = join scope, em_scoped = scoped, em_state = state,
      em_underlying = underlying, em_values = vs\<rparr>"

section \<open>Aggregates\<close>

inductive base_type ::
    "string \<Rightarrow> source_environment \<Rightarrow> string list \<Rightarrow> string set \<Rightarrow> parser_token \<Rightarrow> builtin_type + string \<Rightarrow> bool"
  for src env scope types where
  "identifier_token t \<Longrightarrow> token_text src t = ''int'' \<Longrightarrow> base_type src env scope types t (Inl Integer)"
| "identifier_token t \<Longrightarrow> token_text src t \<noteq> ''int'' \<Longrightarrow>
   type_in_scope env scope types (token_text src t) (token_offset t) = Some c \<Longrightarrow> c \<noteq> [] \<Longrightarrow>
   base_type src env scope types t (Inr c)"

inductive reference_modifier :: "parser_token list \<Rightarrow> (source_type_modifier_kind \<times> u64) list \<Rightarrow> bool" where
  "reference_modifier [] []"
| "sign_token P_ampersand a \<Longrightarrow> reference_modifier [a] [(Modifier_lvalue_reference, 0)]"
| "sign_token P_ampersand a \<Longrightarrow> sign_token P_ampersand b \<Longrightarrow> reference_modifier [a, b] [(Modifier_rvalue_reference, 0)]"

inductive array_modifiers :: "string \<Rightarrow> parser_token list \<Rightarrow> (source_type_modifier_kind \<times> u64) list \<Rightarrow> bool" for src where
  "array_modifiers src [] []"
| "sign_token P_left_bracket a \<Longrightarrow> token_kind t = Tk_integer_literal \<Longrightarrow>
   from_chars_u64 (token_text src t) = Some n \<Longrightarrow> n \<noteq> 0 \<Longrightarrow> sign_token P_right_bracket b \<Longrightarrow>
   array_modifiers src ts ms \<Longrightarrow> array_modifiers src (a # t # b # ts) ((Modifier_array, n) # ms)"

inductive member_declaration ::
    "string \<Rightarrow> source_environment \<Rightarrow> string list \<Rightarrow> string set \<Rightarrow> parser_token list \<Rightarrow> member_meaning \<Rightarrow> bool"
  for src env scope types where
  "base_type src env scope types b base \<Longrightarrow> list_all (sign_token P_asterisk) ps \<Longrightarrow>
   reference_modifier rs refs \<Longrightarrow> identifier_token name \<Longrightarrow> array_modifiers src as arrays \<Longrightarrow>
   refs = [] \<or> arrays = [] \<Longrightarrow> sign_token P_semicolon t \<Longrightarrow>
   member_declaration src env scope types (b # ps @ rs @ name # as @ [t])
     \<lparr>mm_name = token_text src name, mm_type = base,
      mm_modifiers = map (\<lambda>_. (Modifier_pointer, 0)) ps @ refs @ arrays\<rparr>"

inductive member_declarations ::
    "string \<Rightarrow> source_environment \<Rightarrow> string list \<Rightarrow> string set \<Rightarrow> parser_token list \<Rightarrow> member_meaning list \<Rightarrow> bool"
  for src env scope types where
  "sign_token P_right_brace t \<Longrightarrow> member_declarations src env scope types [t] []"
| "member_declaration src env scope types ts m \<Longrightarrow> member_declarations src env scope types us ms \<Longrightarrow>
   member_declarations src env scope types (ts @ us) (m # ms)"

inductive struct_declaration ::
    "string \<Rightarrow> source_environment \<Rightarrow> string list \<Rightarrow> string set \<Rightarrow> parser_token list \<Rightarrow> string set \<Rightarrow> aggregate_meaning \<Rightarrow> bool"
  for src env scope types where
  "token_kind k = Tk_keyword_struct \<Longrightarrow> identifier_token name \<Longrightarrow> sign_token P_semicolon t \<Longrightarrow>
   struct_declaration src env scope types [k, name, t] (insert (qualify scope (token_text src name)) types)
     \<lparr>ag_name = qualify scope (token_text src name), ag_scope = join scope, ag_state = Aggregate_declared, ag_members = []\<rparr>"
| "token_kind k = Tk_keyword_struct \<Longrightarrow> identifier_token name \<Longrightarrow> sign_token P_left_brace b \<Longrightarrow>
   types' = insert (qualify scope (token_text src name)) types \<Longrightarrow>
   member_declarations src env scope types' ms members \<Longrightarrow> sign_token P_semicolon t \<Longrightarrow>
   struct_declaration src env scope types (k # name # b # ms @ [t]) types'
     \<lparr>ag_name = qualify scope (token_text src name), ag_scope = join scope, ag_state = Aggregate_defined, ag_members = members\<rparr>"

section \<open>Units\<close>

definition join_meanings :: "unit_meaning \<Rightarrow> unit_meaning \<Rightarrow> unit_meaning" where
  "join_meanings a b = (fst a @ fst b, snd a @ snd b)"

definition declared_types :: "enum_meaning \<Rightarrow> string set \<Rightarrow> string set" where
  "declared_types m types = (case em_name m of None \<Rightarrow> types | Some name \<Rightarrow> insert name types)"

inductive declarations ::
    "string \<Rightarrow> source_environment \<Rightarrow> string list \<Rightarrow> string set \<Rightarrow> parser_token list \<Rightarrow> string set \<Rightarrow> unit_meaning \<Rightarrow> bool"
  and declared ::
    "string \<Rightarrow> source_environment \<Rightarrow> string list \<Rightarrow> string set \<Rightarrow> parser_token list \<Rightarrow> string set \<Rightarrow> unit_meaning \<Rightarrow> bool"
  for src env where
  none: "declarations src env scope types [] types ([], [])"
| more: "declared src env scope types ts types' a \<Longrightarrow> declarations src env scope types' us types'' b \<Longrightarrow>
     declarations src env scope types (ts @ us) types'' (join_meanings a b)"
| enumeration: "enum_declaration src env scope ts m \<Longrightarrow>
     declared src env scope types ts
       (declared_types m types) ([m], [])"
| aggregate: "struct_declaration src env scope types ts types' m \<Longrightarrow>
     declared src env scope types ts types' ([], [m])"
| scope: "token_kind k = Tk_keyword_namespace \<Longrightarrow> identifier_token name \<Longrightarrow> sign_token P_left_brace l \<Longrightarrow>
     declarations src env (scope @ [token_text src name]) types ts types' a \<Longrightarrow> sign_token P_right_brace r \<Longrightarrow>
     declared src env scope types (k # name # l # ts @ [r]) types' a"

section \<open>The arithmetic of the parser\<close>

lemma sint_mod_64 [simp]: "sint (w :: u64) mod 18446744073709551616 = uint w"
  using uint_sint [of w] by (simp add: take_bit_eq_mod)

lemma uint_less_64: "uint (w :: u64) < 18446744073709551616"
  using uint_lt2p [of w] by simp

lemma uint_mod_64 [simp]: "uint (w :: u64) mod 18446744073709551616 = uint w"
  using uint_less_64 by (simp add: mod_pos_pos_trivial)

lemma sint_bounds_64: "- 9223372036854775808 \<le> sint (w :: u64)" "sint (w :: u64) < 9223372036854775808"
  using sint_greater_eq [of w] sint_less [of w] by simp_all

lemma add_constant_sum: "add_constant v w = sum_constants v w"
proof (cases "unsigned_constant v \<or> unsigned_constant w")
  case True
  let ?v = "constant_bits v" and ?w = "constant_bits w"
  have mod: "constant_int x mod 18446744073709551616 = uint (constant_bits x)" for x by (simp add: constant_int_def)
  have "(18446744073709551615 - ?v < ?w) \<longleftrightarrow> \<not> uint ?v + uint ?w < 2 ^ 64"
  proof -
    have "uint (18446744073709551615 - ?v) = 18446744073709551615 - uint ?v"
    proof -
      have "(18446744073709551615 - uint ?v) mod 18446744073709551616 = 18446744073709551615 - uint ?v"
        using uint_less_64 [of ?v] uint_ge_0 [of ?v] by (intro mod_pos_pos_trivial) linarith+
      then show ?thesis by (simp add: uint_word_ariths(2))
    qed
    moreover have "(2 :: int) ^ 64 = 18446744073709551616" by simp
    ultimately show ?thesis unfolding word_less_def by linarith
  qed
  moreover have "word_of_int (uint ?v + uint ?w) = ?v + ?w" by simp
  ultimately show ?thesis
    using True by (simp add: add_constant_def sum_constants_def mod unsigned_literal_def Let_def)
next
  case False
  then show ?thesis
    using sint_bounds_64 [of "constant_bits v"] sint_bounds_64 [of "constant_bits w"]
    by (auto simp: add_constant_def sum_constants_def constant_int_def signed_literal_def Let_def)
qed

lemma increment_constant_successor:
  "increment_constant v t s =
     (case successor_constant v of
        None \<Rightarrow> fail_token Parser_invalid_enumerator_expression t s
      | Some w \<Rightarrow> finish w s)"
proof (cases "unsigned_constant v")
  case True
  have "constant_bits v = 18446744073709551615 \<longleftrightarrow> \<not> uint (constant_bits v) + 1 < 2 ^ 64"
  proof -
    have "constant_bits v = 18446744073709551615 \<longleftrightarrow> uint (constant_bits v) = uint (18446744073709551615 :: u64)"
      by (rule word_uint_eq_iff)
    moreover have "uint (18446744073709551615 :: u64) = 18446744073709551615" by simp
    moreover have "(2 :: int) ^ 64 = 18446744073709551616" by simp
    ultimately show ?thesis using uint_less_64 [of "constant_bits v"] by linarith
  qed
  moreover have "word_of_int (uint (constant_bits v) + 1) = constant_bits v + 1" by simp
  ultimately show ?thesis
    using True by (simp add: increment_constant_def successor_constant_def constant_int_def)
next
  case False
  have "constant_bits v = 9223372036854775807 \<longleftrightarrow> \<not> sint (constant_bits v) + 1 < 2 ^ 63"
  proof -
    have "constant_bits v = 9223372036854775807 \<longleftrightarrow> sint (constant_bits v) = sint (9223372036854775807 :: u64)"
      by (rule iffI) (simp, rule signed_word_eqI, assumption)
    moreover have "sint (9223372036854775807 :: u64) = 9223372036854775807" by simp
    moreover have "(2 :: int) ^ 63 = 9223372036854775808" by simp
    ultimately show ?thesis using sint_bounds_64 [of "constant_bits v"] by linarith
  qed
  moreover have "word_of_int (sint (constant_bits v) + 1) = constant_bits v + 1" by simp
  ultimately show ?thesis
    using False by (simp add: increment_constant_def successor_constant_def constant_int_def)
qed

section \<open>The scopes of the parser\<close>

definition plain_name :: "string \<Rightarrow> bool" where
  "plain_name x \<longleftrightarrow> x \<noteq> [] \<and> CHR '':'' \<notin> set x"

lemma rfind_separator_none: "CHR '':'' \<notin> set x \<Longrightarrow> rfind_separator x = None"
  by (induction x rule: rfind_separator.induct) auto

lemma rfind_separator_last:
  assumes "plain_name x"
  shows "rfind_separator (a @ CHR '':'' # CHR '':'' # x) = Some (length a)"
proof -
  have tail: "rfind_separator (CHR '':'' # x) = None" "rfind_separator (CHR '':'' # CHR '':'' # x) = Some 0"
    using assms rfind_separator_none [of x] by (auto simp: plain_name_def neq_Nil_conv split: option.split)
  have step: "rfind_separator (c # d # r) = map_option Suc (rfind_separator (d # r))" if "rfind_separator (d # r) \<noteq> None" for c d r
    using that by (auto split: option.split)
  show ?thesis
  proof (induction a)
    case (Cons c a)
    then show ?case by (cases a) (simp_all add: step tail)
  qed (simp add: tail)
qed

lemma join_snoc: "scope \<noteq> [] \<Longrightarrow> join (scope @ [x]) = join scope @ ''::'' @ x"
  by (induction scope rule: join.induct) auto

lemma join_empty: "list_all plain_name scope \<Longrightarrow> join scope = [] \<longleftrightarrow> scope = []"
  by (induction scope rule: join.induct) (auto simp: plain_name_def)

lemma qualified_join:
  "list_all plain_name scope \<Longrightarrow> qualified_name (join scope) x = qualify scope x"
  by (cases "scope = []") (simp_all add: qualified_name_def qualify_def join_snoc join_empty)

lemma parent_scope_join:
  assumes "list_all plain_name scope" "scope \<noteq> []"
  shows "parent_scope (join scope) = join (butlast scope)"
proof -
  obtain front x where s: "scope = front @ [x]" using assms(2) by (metis append_butlast_last_id)
  show ?thesis
  proof (cases "front = []")
    case True
    then show ?thesis using assms(1) by (simp add: s parent_scope_def plain_name_def rfind_separator_none)
  next
    case False
    with assms(1) show ?thesis
      by (simp add: s parent_scope_def join_snoc rfind_separator_last)
  qed
qed

lemma enclosing_Nil [simp]: "enclosing [] = [[]]"
  by (simp add: enclosing_def)

lemma enclosing_step: "scope \<noteq> [] \<Longrightarrow> enclosing scope = scope # enclosing (butlast scope)"
proof (rule rev_exhaust [of scope])
  fix front x assume "scope = front @ [x]"
  then show "enclosing scope = scope # enclosing (butlast scope)"
    by (auto simp: enclosing_def intro!: map_cong)
qed simp

lemma lookup_constant_enclosing:
  "list_all plain_name scope \<Longrightarrow>
   lookup_constant_from env name offset (join scope) =
     first_some (\<lambda>sc. snd (find_constant_exact env (join sc) name offset)) (enclosing scope)"
proof (induction scope rule: rev_induct)
  case Nil
  show ?case
    by (subst lookup_constant_from.simps) (auto simp: find_constant_exact_def split: option.splits)
next
  case (snoc x front)
  have scope: "front @ [x] \<noteq> []" "parent_scope (join (front @ [x])) = join front" "join (front @ [x]) \<noteq> []"
    "list_all plain_name front"
    using snoc.prems parent_scope_join [OF snoc.prems] join_empty [OF snoc.prems] by auto
  show ?case
    using snoc.IH [OF scope(4)] scope
    by (subst lookup_constant_from.simps)
      (auto simp: enclosing_step find_constant_exact_def split: option.splits)
qed


text \<open>The search for a type: an allocation that fails gives no result, otherwise it is the one in scope.\<close>

lemma lookup_type_step:
  assumes "ps_allocate s = (ok, s1)" "find_type_exact env scope name offset = (st, v)" "ps_allocate s1 = (ok2, s2)"
  shows "lookup_type_from env name offset scope s =
     (if \<not> ok then (None, s1)
      else if qualified_name scope name \<in> set (ps_types s1) then (Some (qualified_name scope name), s1)
      else if st = Ok then (if ok2 then v else None, s2)
      else if scope = [] then (None, s1)
      else lookup_type_from env name offset (parent_scope scope) s1)"
  using assms by (subst lookup_type_from.simps) (simp add: qualified_name_def Let_def)

lemma ps_allocate_memory: "ps_allocate s = (ok, s') \<Longrightarrow> \<exists>mem. s' = s\<lparr>ps_memory := mem\<rparr>"
  by (auto simp: ps_allocate_def split: prod.splits)

lemma ps_allocate_Nil: "ps_memory s = [] \<Longrightarrow> ps_allocate s = (True, s)"
  by (simp add: ps_allocate_def)

lemma type_in_scope_step:
  "type_in_scope env scope types name offset =
     (if qualify scope name \<in> types then Some (qualify scope name)
      else case snd (find_type_exact env (join scope) name offset) of
        Some c \<Rightarrow> Some c
      | None \<Rightarrow> if scope = [] then None else type_in_scope env (butlast scope) types name offset)"
  by (cases "scope = []") (simp_all add: type_in_scope_def enclosing_step split: option.split)

lemma find_type_exact_status: "find_type_exact env scope name offset = (st, v) \<Longrightarrow> st = Ok \<longleftrightarrow> v \<noteq> None"
proof -
  have "fst (find_type_exact env scope name offset) = Ok \<longleftrightarrow> snd (find_type_exact env scope name offset) \<noteq> None"
    by (simp add: find_type_exact_def split: option.split)
  then show "find_type_exact env scope name offset = (st, v) \<Longrightarrow> st = Ok \<longleftrightarrow> v \<noteq> None" by simp
qed

lemma lookup_type_join:
  assumes "list_all plain_name scope" "set (ps_types s) = types"
    and "lookup_type_from env name offset (join scope) s = (r, s')"
  shows "(\<exists>mem. s' = s\<lparr>ps_memory := mem\<rparr>) \<and>
    (r \<noteq> None \<or> ps_memory s = [] \<longrightarrow> r = type_in_scope env scope types name offset) \<and>
    (ps_memory s = [] \<longrightarrow> s' = s)"
  using assms
proof (induction scope arbitrary: s s' rule: length_induct)
  case (1 scope)
  obtain ok s1 where a: "ps_allocate s = (ok, s1)" by force
  obtain st v where f: "find_type_exact env (join scope) name offset = (st, v)" by force
  obtain ok2 s2 where b: "ps_allocate s1 = (ok2, s2)" by force
  obtain m1 m2 where same: "s1 = s\<lparr>ps_memory := m1\<rparr>" "s2 = s\<lparr>ps_memory := m2\<rparr>"
    using ps_allocate_memory [OF a] ps_allocate_memory [OF b] by auto
  have types: "set (ps_types s1) = types" using "1.prems"(2) same(1) by simp
  have mem: "ps_memory s = [] \<Longrightarrow> ok \<and> s1 = s \<and> ok2 \<and> s2 = s"
    using a b by (auto simp: ps_allocate_Nil)
  note step = lookup_type_step [OF a f b] type_in_scope_step [of env scope types name offset]
  show ?case
  proof (cases "ok \<and> qualify scope name \<notin> types \<and> st \<noteq> Ok \<and> scope \<noteq> []")
    case True
    have "lookup_type_from env name offset (join (butlast scope)) s1 = (r, s')"
      using "1.prems"(3) True types unfolding step(1)
      by (simp add: qualified_join [OF "1.prems"(1)] join_empty [OF "1.prems"(1)] parent_scope_join [OF "1.prems"(1)])
    moreover have "list_all plain_name (butlast scope)" using "1.prems"(1) by (auto simp: list_all_iff dest: in_set_butlastD)
    moreover have "length (butlast scope) < length scope" using True by simp
    ultimately have rest: "(\<exists>mem. s' = s1\<lparr>ps_memory := mem\<rparr>) \<and>
      (r \<noteq> None \<or> ps_memory s1 = [] \<longrightarrow> r = type_in_scope env (butlast scope) types name offset) \<and>
      (ps_memory s1 = [] \<longrightarrow> s' = s1)"
      using "1.IH" types by blast
    have scope: "type_in_scope env scope types name offset = type_in_scope env (butlast scope) types name offset"
      using True find_type_exact_status [OF f] by (simp add: step(2) f)
    have "\<exists>m. s' = s\<lparr>ps_memory := m\<rparr>" using rest same(1) by auto
    moreover have "ps_memory s = [] \<Longrightarrow> s1 = s" using mem by blast
    ultimately show ?thesis using rest unfolding scope by (cases "ps_memory s = []") auto
  next
    case False
    have "ok2 = False \<Longrightarrow> ps_memory s \<noteq> []" using mem by blast
    with False show ?thesis
      using "1.prems"(3) types mem same find_type_exact_status [OF f] unfolding step
      by (auto simp: qualified_join [OF "1.prems"(1)] join_empty [OF "1.prems"(1)] f split: if_splits option.splits)
  qed
qed

end
