(* ===== verification/ParserSound.thy ===== *)
theory ParserSound
  imports ParserGrammar
begin

text \<open>
  What the parser accepts is derivable: every routine that returns a result has read a list of tokens
  with a derivation in the grammar of \<^verbatim>\<open>ParserGrammar\<close>, whatever its allocations answered, and the facts
  it has stored show the meaning of that derivation.
\<close>

section \<open>Tokens that are read\<close>

text \<open>What the lexer guarantees of a token.\<close>

definition token_wf :: "string \<Rightarrow> parser_token \<Rightarrow> bool" where
  "token_wf src t \<longleftrightarrow>
     (token_punctuation t \<noteq> P_none \<longrightarrow> token_kind t = Tk_punctuation) \<and>
     (identifier_token t \<longrightarrow> token_length t \<noteq> 0 \<and> plain_name (token_text src t))"

text \<open>\<open>reads s ts t\<close>: from \<open>s\<close> to \<open>t\<close> the tokens \<open>ts\<close> are read and the scope is kept; \<open>moves\<close> also keeps
  the local names, \<open>rests\<close> also the context.\<close>

definition reads :: "parser_state \<Rightarrow> parser_token list \<Rightarrow> parser_state \<Rightarrow> bool" where
  "reads s ts t \<longleftrightarrow> ps_rest s = ts @ ps_rest t \<and> ps_scope t = ps_scope s"

definition moves :: "parser_state \<Rightarrow> parser_token list \<Rightarrow> parser_state \<Rightarrow> bool" where
  "moves s ts t \<longleftrightarrow> reads s ts t \<and> ps_types t = ps_types s \<and> ps_constants t = ps_constants s"

definition rests :: "parser_state \<Rightarrow> parser_token list \<Rightarrow> parser_state \<Rightarrow> bool" where
  "rests s ts t \<longleftrightarrow> moves s ts t \<and> ps_context t = ps_context s"

lemma reads_trans: "reads s ts t \<Longrightarrow> reads t us u \<Longrightarrow> reads s (ts @ us) u"
  by (simp add: reads_def)

lemma moves_trans: "moves s ts t \<Longrightarrow> moves t us u \<Longrightarrow> moves s (ts @ us) u"
  by (auto simp: moves_def intro: reads_trans)

lemma rests_trans: "rests s ts t \<Longrightarrow> rests t us u \<Longrightarrow> rests s (ts @ us) u"
  by (auto simp: rests_def intro: moves_trans)

lemma rests_refl [simp]: "rests s [] s"
  by (simp add: rests_def moves_def reads_def)

lemma rests_moves: "rests s ts t \<Longrightarrow> moves s ts t"
  by (simp add: rests_def)

lemma moves_reads: "moves s ts t \<Longrightarrow> reads s ts t"
  by (simp add: moves_def)

lemma peek_rest: "peek s \<noteq> no_token \<Longrightarrow> ps_rest s = peek s # tl (ps_rest s)"
  by (cases "ps_rest s") (auto simp: peek_def)

lemma peek_token:
  "token_kind (peek s) \<noteq> Tk_eof \<Longrightarrow> peek s \<noteq> no_token"
  "token_punctuation (peek s) = p \<Longrightarrow> p \<noteq> P_none \<Longrightarrow> peek s \<noteq> no_token"
  by (auto simp: no_token_def)

lemma advance_rests: "peek s \<noteq> no_token \<Longrightarrow> rests s [peek s] (ps_advance s)"
  using peek_rest [of s] by (simp add: rests_def moves_def reads_def ps_advance_def)

lemma take_punctuation_True:
  "take_punctuation p s = (True, t) \<Longrightarrow> p \<noteq> P_none \<Longrightarrow> rests s [peek s] t \<and> sign_token p (peek s)"
  using peek_token(2) [of s p] by (auto simp: take_punctuation_def split: if_splits intro!: advance_rests)

lemma take_punctuation_False: "take_punctuation p s = (False, t) \<Longrightarrow> t = s \<and> \<not> sign_token p (peek s)"
  by (auto simp: take_punctuation_def split: if_splits)

lemma take_kind_True:
  "take_kind k s = (True, t) \<Longrightarrow> k \<noteq> Tk_eof \<Longrightarrow> rests s [peek s] t \<and> token_kind (peek s) = k"
  by (auto simp: take_kind_def split: if_splits intro!: advance_rests dest: peek_token(1))

lemma take_kind_False: "take_kind k s = (False, t) \<Longrightarrow> t = s \<and> token_kind (peek s) \<noteq> k"
  by (auto simp: take_kind_def split: if_splits)

lemma and_then_parse_InrE:
  assumes "and_then_parse m f s = (Inr y, u)"
  obtains x t where "m s = (Inr x, t)" "f x t = (Inr y, u)"
  using assms by (auto simp: and_then_parse_def split: prod.splits sum.splits)

lemma fail_never [simp]:
  "fail_at d i n s \<noteq> (Inr x, t)" "(Inr x, t) \<noteq> fail_at d i n s" "(Inr x, t) \<noteq> fail_token d k s" "(Inr x, t) \<noteq> fail_peek d s"
  by (auto simp: fail_peek_def fail_token_def fail_at_def split: prod.splits)

lemma finish_Inr [simp]: "finish x s = (r, t) \<longleftrightarrow> r = Inr x \<and> t = s"
  by (auto simp: finish_def)

section \<open>Expressions\<close>

text \<open>The names an expression sees.\<close>

abbreviation sees :: "source_environment \<Rightarrow> parser_state \<Rightarrow> string \<Rightarrow> nat \<Rightarrow> integral_constant option" where
  "sees env s name offset \<equiv> lookup_constant env name offset s"

lemma sees_cong: "ps_constants t = ps_constants s \<Longrightarrow> ps_scope t = ps_scope s \<Longrightarrow> sees env t = sees env s"
  by (simp add: lookup_constant_def fun_eq_iff split: option.split)

lemma sees_in_scope:
  "list_all plain_name scope \<Longrightarrow> ps_scope s = join scope \<Longrightarrow> map_of (ps_constants s) = map_of own \<Longrightarrow>
   sees env s = constant_in_scope env scope own"
  by (simp add: lookup_constant_def constant_in_scope_def lookup_constant_enclosing fun_eq_iff split: option.split)

lemma parse_underlying_sound:
  assumes "parse_underlying src s = (Inr (t, r), s')"
  shows "\<exists>us. underlying_type src us t \<and> rests s us s'"
proof -
  let ?s1 = "ps_advance s" and ?s2 = "ps_advance (ps_advance s)" and ?s3 = "ps_advance (ps_advance (ps_advance s))"
  let ?a = "peek s" and ?b = "peek ?s1" and ?c = "peek ?s2" and ?w = "token_text src"
  have a: "identifier_token ?a" using assms by (auto simp: parse_underlying_def split: if_splits)
  have one: "rests u [peek u] (ps_advance u)" if "identifier_token (peek u)" for u
    using that by (intro advance_rests peek_token(1)) simp
  have "s' = ?s1 \<and> ([?w ?a], t) \<in> set underlying_words
      \<or> s' = ?s2 \<and> identifier_token ?b \<and> ([?w ?a, ?w ?b], t) \<in> set underlying_words
      \<or> s' = ?s3 \<and> identifier_token ?b \<and> identifier_token ?c \<and> ([?w ?a, ?w ?b, ?w ?c], t) \<in> set underlying_words"
    using assms unfolding parse_underlying_def parse_unsigned_def peek_word_def underlying_words_def Let_def
    by (simp split: if_splits)
  then consider "s' = ?s1" "([?w ?a], t) \<in> set underlying_words"
    | "s' = ?s2" "identifier_token ?b" "([?w ?a, ?w ?b], t) \<in> set underlying_words"
    | "s' = ?s3" "identifier_token ?b" "identifier_token ?c" "([?w ?a, ?w ?b, ?w ?c], t) \<in> set underlying_words"
    by blast
  then show ?thesis
  proof cases
    case 1
    then show ?thesis using one [OF a] a by (intro exI [of _ "[?a]"]) (simp add: underlying_type_def)
  next
    case 2
    then show ?thesis using rests_trans [OF one [OF a] one [OF 2(2)]] a
      by (intro exI [of _ "[?a, ?b]"]) (simp add: underlying_type_def)
  next
    case 3
    then show ?thesis using rests_trans [OF rests_trans [OF one [OF a] one [OF 3(2)]] one [OF 3(3)]] a
      by (intro exI [of _ "[?a, ?b, ?c]"]) (simp add: underlying_type_def)
  qed
qed

lemma parse_number_sound:
  assumes "parse_number src s = (Inr v, s')"
  shows "\<exists>ts. operand src look ts v \<and> rests s ts s'"
proof -
  obtain neg s1 where m: "take_punctuation P_minus s = (neg, s1)" by force
  let ?t = "peek s1"
  from assms m obtain n where t: "token_kind ?t = Tk_integer_literal" "from_chars_u64 (token_text src ?t) = Some n"
    and s': "s' = ps_advance s1"
    and v: "if neg then n \<le> push_bit 63 1 \<and> v = \<lparr>constant_type = Long_long_integer, constant_bits = 0 - n\<rparr>
      else v = \<lparr>constant_type = (if n \<le> 9223372036854775807 then Long_long_integer else Unsigned_long_long_integer),
        constant_bits = n\<rparr>"
    by (auto simp: parse_number_def Let_def not_less split: if_splits option.splits)
  have s1: "rests s1 [?t] s'" using t(1) unfolding s' by (intro advance_rests peek_token(1)) simp
  show ?thesis
  proof (cases neg)
    case True
    have "uint n \<le> 2 ^ 63" using True v by (simp add: word_le_def push_bit_eq_mult)
    moreover have "v = signed_literal (- uint n)" using True v by (simp add: signed_literal_def)
    ultimately show ?thesis
      using take_punctuation_True [of P_minus s s1] m True operand.negative [OF _ t, of "peek s" look]
        rests_trans [OF _ s1, of s "[peek s]"] by (intro exI [of _ "[peek s, ?t]"]) auto
  next
    case False
    have le: "n \<le> 9223372036854775807 \<longleftrightarrow> uint n < 2 ^ 63" by (auto simp: word_le_def)
    have "operand src look [?t] v"
      using False v operand.small [OF t] operand.large [OF t]
      by (auto simp: le signed_literal_def unsigned_literal_def not_less)
    moreover have "rests s [?t] s'" using take_punctuation_False [of P_minus s s1] m s1 False by simp
    ultimately show ?thesis by blast
  qed
qed

lemma parse_primary_sound:
  assumes "parse_primary src env s = (Inr v, s')"
  shows "\<exists>ts. operand src (sees env s) ts v \<and> rests s ts s'"
proof (cases "token_kind (peek s) = Tk_integer_literal \<or> token_punctuation (peek s) = P_minus")
  case True
  with assms show ?thesis by (intro parse_number_sound) (simp add: parse_primary_def)
next
  case False
  with assms have t: "identifier_token (peek s)" and s': "s' = ps_advance s"
    and v: "lookup_constant env (token_text src (peek s)) (token_offset (peek s)) (ps_advance s) = Some v"
    by (auto simp: parse_primary_def Let_def split: if_splits option.splits)
  have r: "rests s [peek s] s'" using t unfolding s' by (intro advance_rests peek_token(1)) simp
  have "sees env (ps_advance s) = sees env s" by (rule sees_cong) (simp_all add: ps_advance_def)
  with v t have "operand src (sees env s) [peek s] v" by (intro operand.named) (simp_all add: fun_eq_iff)
  with r show ?thesis by blast
qed

lemma parse_sum_sound:
  assumes "parse_sum src env v s = (Inr x, s')" "sum_expression src (sees env s) ts v"
  shows "\<exists>us. sum_expression src (sees env s) (ts @ us) x \<and> rests s us s'"
  using assms
proof (induction src env v s arbitrary: ts x s' rule: parse_sum.induct)
  case (1 src env v s)
  obtain taken s1 where t: "take_punctuation P_plus s = (taken, s1)" by force
  show ?case
  proof (cases taken)
    case False
    with "1.prems" take_punctuation_False [of P_plus s s1] t show ?thesis
      by (subst (asm) parse_sum.simps) (auto intro: exI [of _ "[]"])
  next
    case True
    obtain p s2 where p: "parse_primary src env s1 = (p, s2)" by force
    from "1.prems"(1) t True p obtain w y where w: "p = Inr w" "add_constant v w = Some y" "parse_sum src env y s2 = (Inr x, s')"
      by (subst (asm) parse_sum.simps) (auto split: sum.splits option.splits)
    have plus: "rests s [peek s] s1" "sign_token P_plus (peek s)"
      using take_punctuation_True [of P_plus s s1] t True by simp_all
    obtain us where us: "operand src (sees env s1) us w" "rests s1 us s2"
      using parse_primary_sound [OF p [unfolded w(1)]] by blast
    have eq: "sees env s1 = sees env s" "sees env s2 = sees env s"
      using plus(1) us(2) by (auto intro!: sees_cong simp: rests_def moves_def reads_def)
    have "sum_expression src (sees env s2) (ts @ peek s # us) y"
      using "1.prems"(2) plus(2) us(1) w(2) by (simp add: eq add_constant_sum sum_expression.added)
    from "1.IH" [OF t [symmetric] _ _ w(1) w(2) w(3) this] True p w(1)
    obtain vs where "sum_expression src (sees env s2) ((ts @ peek s # us) @ vs) x" "rests s2 vs s'" by auto
    moreover have "rests s (peek s # us @ vs) s'"
      using rests_trans [OF rests_trans [OF plus(1) us(2)] \<open>rests s2 vs s'\<close>] by simp
    ultimately show ?thesis unfolding eq by (intro exI [of _ "peek s # us @ vs"]) simp
  qed
qed

lemma parse_expression_sound:
  assumes "parse_expression src env s = (Inr x, s')"
  shows "\<exists>ts. sum_expression src (sees env s) ts x \<and> rests s ts s'"
proof -
  from assms obtain v t where v: "parse_primary src env s = (Inr v, t)" "parse_sum src env v t = (Inr x, s')"
    unfolding parse_expression_def by (rule and_then_parse_InrE)
  from parse_primary_sound [OF v(1)] obtain ts where ts: "operand src (sees env s) ts v" "rests s ts t" by blast
  have eq: "sees env t = sees env s" using ts(2) by (auto intro!: sees_cong simp: rests_def moves_def reads_def)
  from parse_sum_sound [OF v(2), unfolded eq, OF sum_expression.operand [OF ts(1)]] ts(2)
  show ?thesis by (meson rests_trans)
qed

section \<open>Stored names and what facts show\<close>

definition resolves :: "source_context \<Rightarrow> source_name_ref \<Rightarrow> string \<Rightarrow> bool" where
  "resolves c r n \<longleftrightarrow> sx_resolve_name c r = (Ok, n)"

text \<open>Nothing that is stored is changed later.\<close>

definition context_extends :: "source_context \<Rightarrow> source_context \<Rightarrow> bool" where
  "context_extends c d \<longleftrightarrow>
     prefix (sx_names c) (sx_names d) \<and> prefix (sx_enum_values c) (sx_enum_values d) \<and>
     prefix (sx_aggregate_members c) (sx_aggregate_members d) \<and> prefix (sx_type_modifiers c) (sx_type_modifiers d)"

lemma context_extends_refl [simp]: "context_extends c c"
  by (simp add: context_extends_def)

lemma context_extends_trans: "context_extends c d \<Longrightarrow> context_extends d e \<Longrightarrow> context_extends c e"
  by (auto simp: context_extends_def)

definition value_shown :: "source_context \<Rightarrow> enum_value_source_fact \<Rightarrow> string \<times> integral_constant \<Rightarrow> bool" where
  "value_shown c f v \<longleftrightarrow> resolves c (evf_name f) (fst v) \<and> evf_value f = snd v"

definition scope_shown :: "source_context \<Rightarrow> source_name_ref \<Rightarrow> string \<Rightarrow> bool" where
  "scope_shown c r scope \<longleftrightarrow> (if scope = [] then r = no_name else resolves c r scope)"

definition enum_shown :: "source_context \<Rightarrow> enum_declaration_source_fact \<Rightarrow> enum_meaning \<Rightarrow> bool" where
  "enum_shown c f m \<longleftrightarrow>
     (case em_name m of
        None \<Rightarrow> edf_anonymous f \<and> edf_canonical_name f = no_name
      | Some n \<Rightarrow> \<not> edf_anonymous f \<and> resolves c (edf_canonical_name f) n) \<and>
     scope_shown c (edf_scope_name f) (em_scope m) \<and> edf_scoped f = em_scoped m \<and>
     edf_definition_state f = em_state m \<and> edf_explicit_underlying f = em_underlying m \<and>
     edf_enumerator_count f = length (em_values m) \<and>
     list_all2 (value_shown c) (sx_enumerators c f) (em_values m)"

definition member_shown :: "source_context \<Rightarrow> member_declaration_source_fact \<Rightarrow> member_meaning \<Rightarrow> bool" where
  "member_shown c f m \<longleftrightarrow>
     resolves c (mdf_name f) (mm_name m) \<and>
     (case mm_type m of
        Inl b \<Rightarrow> mdf_builtin f = Some b \<and> mdf_type_name f = no_name
      | Inr n \<Rightarrow> mdf_builtin f = None \<and> resolves c (mdf_type_name f) n) \<and>
     mdf_modifier_count f = length (mm_modifiers m) \<and>
     map (\<lambda>x. (smf_kind x, smf_payload x)) (sx_modifiers c f) = mm_modifiers m"

definition aggregate_shown :: "source_context \<Rightarrow> aggregate_declaration_source_fact \<Rightarrow> aggregate_meaning \<Rightarrow> bool" where
  "aggregate_shown c f m \<longleftrightarrow>
     resolves c (adf_canonical_name f) (ag_name m) \<and> scope_shown c (adf_scope_name f) (ag_scope m) \<and>
     adf_definition_state f = ag_state m \<and> adf_member_count f = length (ag_members m) \<and>
     list_all2 (member_shown c) (sx_members c f) (ag_members m)"

text \<open>A context shows the declarations of a unit: fact by fact, in their order.\<close>

definition context_shows :: "source_context \<Rightarrow> unit_meaning \<Rightarrow> bool" where
  "context_shows c m \<longleftrightarrow>
     list_all2 (enum_shown c) (sx_enums c) (fst m) \<and> list_all2 (aggregate_shown c) (sx_aggregates c) (snd m)"

lemma resolves_mono: "resolves c r n \<Longrightarrow> context_extends c d \<Longrightarrow> resolves d r n"
  by (auto simp: resolves_def sx_resolve_name_def context_extends_def prefix_def Let_def split: if_splits)

lemma scope_shown_mono: "scope_shown c r n \<Longrightarrow> context_extends c d \<Longrightarrow> scope_shown d r n"
  by (auto simp: scope_shown_def intro: resolves_mono split: if_splits)

lemma fact_slice_mono:
  "length (fact_slice i n xs) = n \<Longrightarrow> prefix xs ys \<Longrightarrow> fact_slice i n ys = fact_slice i n xs"
  by (auto simp: fact_slice_def prefix_def split: if_splits)

lemma fact_slice_end: "fact_slice (length xs) (length ys) (xs @ ys) = ys"
  by (simp add: fact_slice_def)

lemma value_shown_mono: "value_shown c f v \<Longrightarrow> context_extends c d \<Longrightarrow> value_shown d f v"
  by (auto simp: value_shown_def intro: resolves_mono)

lemma list_all2_weaken: "list_all2 P xs ys \<Longrightarrow> (\<And>x y. P x y \<Longrightarrow> Q x y) \<Longrightarrow> list_all2 Q xs ys"
  by (auto intro: list_all2_mono)

lemma enum_shown_mono:
  assumes "enum_shown c f m" "context_extends c d"
  shows "enum_shown d f m"
proof -
  have "sx_enumerators d f = sx_enumerators c f"
    using assms unfolding enum_shown_def sx_enumerators_def
    by (intro fact_slice_mono) (auto simp: context_extends_def dest: list_all2_lengthD)
  with assms show ?thesis
    by (auto simp: enum_shown_def intro: resolves_mono scope_shown_mono value_shown_mono
        elim!: list_all2_weaken split: option.splits)
qed

lemma member_shown_mono:
  assumes "member_shown c f m" "context_extends c d"
  shows "member_shown d f m"
proof -
  have "sx_modifiers d f = sx_modifiers c f"
    using assms unfolding member_shown_def sx_modifiers_def
    by (intro fact_slice_mono) (auto simp: context_extends_def dest: arg_cong [where f = length])
  with assms show ?thesis by (auto simp: member_shown_def intro: resolves_mono split: sum.splits)
qed

lemma aggregate_shown_mono:
  assumes "aggregate_shown c f m" "context_extends c d"
  shows "aggregate_shown d f m"
proof -
  have "sx_members d f = sx_members c f"
    using assms unfolding aggregate_shown_def sx_members_def
    by (intro fact_slice_mono) (auto simp: context_extends_def dest: list_all2_lengthD)
  with assms show ?thesis
    by (auto simp: aggregate_shown_def intro: resolves_mono scope_shown_mono member_shown_mono elim!: list_all2_weaken)
qed

text \<open>A name is stored at the end of the arena.\<close>

definition add_names :: "string \<Rightarrow> source_context \<Rightarrow> source_context" where
  "add_names n c = c\<lparr>sx_names := sx_names c @ n\<rparr>"

lemma store_name_sound:
  assumes "store_name n s = (Inr r, s')"
  shows "moves s [] s' \<and> ps_context s' = add_names n (ps_context s) \<and> n \<noteq> [] \<and>
    length (sx_names (ps_context s) @ n) \<le> u32_max \<and> resolves (ps_context s') r n"
proof -
  obtain ok t where a: "ps_allocate s = (ok, t)" by force
  obtain mem where t: "t = s\<lparr>ps_memory := mem\<rparr>" using ps_allocate_memory [OF a] by blast
  obtain st r' c where st: "sx_store_name ok n (ps_context t) = (st, r', c)" by (metis prod_cases3)
  from assms have ok: "st = Ok" "r = r'" "s' = t\<lparr>ps_context := c\<rparr>"
    by (auto simp: store_name_def a st split: if_splits)
  have le: "n \<noteq> []" "length (sx_names (ps_context s)) + length n \<le> u32_max"
    and c: "c = add_names n (ps_context s)"
    and r': "r' = \<lparr>ref_offset = length (sx_names (ps_context s)), ref_length = length n\<rparr>"
    using st ok(1) by (auto simp: sx_store_name_def t add_names_def split: if_splits)
  show ?thesis
    using le by (simp add: ok t c r' moves_def reads_def resolves_def sx_resolve_name_def add_names_def)
qed

lemma resolves_add_names [simp, intro]: "resolves c r n \<Longrightarrow> resolves (add_names m c) r n"
  by (erule resolves_mono) (simp add: context_extends_def add_names_def)

lemma push_sound:
  assumes "push f s = (Inr u, s')"
  shows "moves s [] s' \<and> ps_context s' = f (ps_context s)"
proof -
  obtain ok t where a: "ps_allocate s = (ok, t)" by force
  obtain mem where "t = s\<lparr>ps_memory := mem\<rparr>" using ps_allocate_memory [OF a] by blast
  with assms a show ?thesis
    by (auto simp: push_def update_context_def moves_def reads_def split: if_splits)
qed

section \<open>Enumerators\<close>

lemma moves_refl [simp]: "moves s [] s"
  by (simp add: moves_def reads_def)

lemma parse_initializer_sound:
  assumes "parse_initializer src env name nxt s = (Inr (v, r), s')"
  shows "\<exists>us. initializer src (sees env s) nxt us v \<and> rests s us s'"
proof -
  obtain taken s1 where t: "take_punctuation P_equal s = (taken, s1)" by force
  show ?thesis
  proof (cases taken)
    case False
    with assms t take_punctuation_False [of P_equal s s1] show ?thesis
      by (auto simp: parse_initializer_def intro!: exI [of _ "[]"] initializer.implicit)
  next
    case True
    have eq: "rests s [peek s] s1" "sign_token P_equal (peek s)"
      using take_punctuation_True [of P_equal s s1] t True by simp_all
    from assms t True obtain s2 where x: "parse_expression src env s1 = (Inr v, s2)" "s' = s2"
      by (auto simp: parse_initializer_def Let_def elim!: and_then_parse_InrE)
    from parse_expression_sound [OF x(1)] obtain ts where
      ts: "sum_expression src (sees env s1) ts v" "rests s1 ts s2" by blast
    have "sees env s1 = sees env s" using eq(1) by (auto intro!: sees_cong simp: rests_def moves_def reads_def)
    with ts have "initializer src (sees env s) nxt (peek s # ts) v" by (simp add: initializer.explicit eq(2))
    moreover have "rests s (peek s # ts) s'" using rests_trans [OF eq(1) ts(2)] x(2) by simp
    ultimately show ?thesis by blast
  qed
qed

lemma parse_separator_sound:
  assumes "parse_separator name nxt v s = (Inr w, s')"
  shows "\<exists>sep. separator nxt v sep (peek s') w \<and> rests s sep s'"
proof -
  obtain taken s1 where t: "take_punctuation P_comma s = (taken, s1)" by force
  show ?thesis
  proof (cases taken)
    case False
    with assms t take_punctuation_False [of P_comma s s1] show ?thesis
      by (intro exI [of _ "[]"]) (auto simp: parse_separator_def split: if_splits intro: separator.no_comma)
  next
    case True
    have r: "rests s [peek s] s1" "sign_token P_comma (peek s)"
      using take_punctuation_True [of P_comma s s1] t True by simp_all
    with assms t True show ?thesis
      by (intro exI [of _ "[peek s]"])
        (auto simp: parse_separator_def increment_constant_successor split: if_splits option.splits
          intro: separator.last_comma separator.comma)
  qed
qed

lemma keep_constant_sound:
  assumes "keep_constant n v s = (Inr u, s')" "map_of (ps_constants s) n = None"
  shows "reads s [] s' \<and> ps_types s' = ps_types s \<and> ps_context s' = ps_context s \<and>
    map_of (ps_constants s') = (map_of (ps_constants s))(n \<mapsto> v)"
proof -
  obtain ok t where a: "ps_allocate s = (ok, t)" by force
  obtain mem where "t = s\<lparr>ps_memory := mem\<rparr>" using ps_allocate_memory [OF a] by blast
  with assms a show ?thesis
    by (auto simp: keep_constant_def reads_def um_lookup_emplace fun_eq_iff split: if_splits)
qed

definition add_value :: "enum_value_source_fact \<Rightarrow> source_context \<Rightarrow> source_context" where
  "add_value f c = c\<lparr>sx_enum_values := sx_enum_values c @ [f]\<rparr>"

lemma parse_enumerator_sound:
  assumes "parse_enumerator src env nxt s = (Inr nxt', s')"
  shows "\<exists>us v sep f. identifier_token (peek s) \<and>
    map_of (ps_constants s) (token_text src (peek s)) = None \<and>
    initializer src (sees env s) nxt us v \<and> separator nxt v sep (peek s') nxt' \<and>
    reads s (peek s # us @ sep) s' \<and> ps_types s' = ps_types s \<and>
    map_of (ps_constants s') = (map_of (ps_constants s))(token_text src (peek s) \<mapsto> v) \<and>
    ps_context s' = add_value f (add_names (token_text src (peek s)) (ps_context s)) \<and>
    length (sx_names (ps_context s')) \<le> u32_max \<and>
    value_shown (ps_context s') f (token_text src (peek s), v)"
proof -
  let ?t = "peek s" let ?n = "token_text src ?t" let ?s = "ps_advance s"
  have id: "identifier_token ?t" and fresh: "map_of (ps_constants ?s) ?n = None"
    using assms by (auto simp: parse_enumerator_def Let_def split: if_splits)
  have r0: "rests s [?t] ?s" using id by (intro advance_rests peek_token(1)) simp
  from assms id fresh obtain stored s1 v r s2 s3 s4 where
    run: "store_name ?n ?s = (Inr stored, s1)" "parse_initializer src env ?t nxt s1 = (Inr (v, r), s2)"
      "keep_constant ?n v s2 = (Inr (), s3)"
      "push (add_value \<lparr>evf_name = stored, evf_value = v, evf_name_range = token_range ?t, evf_expression_range = r\<rparr>) s3 =
        (Inr (), s4)"
      "parse_separator ?t nxt v s4 = (Inr nxt', s')"
    unfolding parse_enumerator_def Let_def add_value_def [abs_def]
    by (auto elim!: and_then_parse_InrE)
  note name = store_name_sound [OF run(1)]
  obtain us where us: "initializer src (sees env s1) nxt us v" "rests s1 us s2"
    using parse_initializer_sound [OF run(2)] by blast
  have "ps_constants s2 = ps_constants s" using r0 name us(2) by (simp add: rests_def moves_def)
  with fresh have k: "reads s2 [] s3 \<and> ps_types s3 = ps_types s2 \<and> ps_context s3 = ps_context s2 \<and>
      map_of (ps_constants s3) = (map_of (ps_constants s2))(?n \<mapsto> v)"
    using r0 by (intro keep_constant_sound [OF run(3)]) (simp add: rests_def moves_def)
  note p = push_sound [OF run(4)]
  obtain sep where sep: "separator nxt v sep (peek s') nxt'" "rests s4 sep s'"
    using parse_separator_sound [OF run(5)] by blast
  have "reads s (?t # us @ sep) s'"
    using r0 name us(2) k p sep(2) by (auto simp: rests_def moves_def reads_def)
  moreover have "sees env s1 = sees env s" using r0 name by (auto intro!: sees_cong simp: rests_def moves_def reads_def)
  moreover have "ps_types s' = ps_types s" "map_of (ps_constants s') = (map_of (ps_constants s))(?n \<mapsto> v)"
    using r0 name us(2) k p sep(2) by (auto simp: rests_def moves_def)
  moreover have c: "ps_context s' = add_value \<lparr>evf_name = stored, evf_value = v, evf_name_range = token_range ?t,
      evf_expression_range = r\<rparr> (add_names ?n (ps_context s))"
    using r0 name us(2) k p sep(2) by (auto simp: rests_def moves_def)
  moreover have "context_extends (ps_context s1) (ps_context s')"
    using r0 name by (simp add: c rests_def add_value_def context_extends_def)
  then have "value_shown (ps_context s') \<lparr>evf_name = stored, evf_value = v, evf_name_range = token_range ?t,
      evf_expression_range = r\<rparr> (?n, v)"
    using name by (auto simp: value_shown_def intro: resolves_mono)
  moreover have "length (sx_names (ps_context s')) \<le> u32_max"
    using name r0 by (simp add: c add_value_def add_names_def rests_def)
  ultimately show ?thesis using id fresh r0 us(1) sep(1)
    by (intro exI [of _ us] exI [of _ v] exI [of _ sep] exI conjI) (auto simp: rests_def moves_def)
qed

definition add_values :: "enum_value_source_fact list \<Rightarrow> source_context \<Rightarrow> source_context" where
  "add_values fs c = c\<lparr>sx_enum_values := sx_enum_values c @ fs\<rparr>"

lemma map_of_snoc_new: "map_of own n = None \<Longrightarrow> map_of (own @ [(n, v)]) = (map_of own)(n \<mapsto> v)"
  by (auto simp: map_add_def fun_eq_iff split: option.split)

definition names_of :: "(string \<times> 'a) list \<Rightarrow> string" where
  "names_of vs = concat (map fst vs)"

lemma enumerator_loop_sound:
  assumes "enumerator_loop src env nxt n s = (Inr k, s')"
    and "list_all plain_name scope" "ps_scope s = join scope" "map_of (ps_constants s) = map_of own"
    and "n + length (ps_rest s) \<le> u32_max"
  shows "\<exists>ts vs fs. enumerators src env scope own nxt ts vs \<and> reads s ts s' \<and> ps_types s' = ps_types s \<and>
    ps_context s' = add_values fs (add_names (names_of vs) (ps_context s)) \<and>
    (vs \<noteq> [] \<longrightarrow> length (sx_names (ps_context s')) \<le> u32_max) \<and>
    list_all2 (value_shown (ps_context s')) fs vs \<and> k = n + length vs"
  using assms
proof (induction src env nxt n s arbitrary: own k s' rule: enumerator_loop.induct)
  case (1 src env nxt n s)
  obtain closed s1 where t: "take_punctuation P_right_brace s = (closed, s1)" by force
  show ?case
  proof (cases closed)
    case True
    have r: "rests s [peek s] s1" "sign_token P_right_brace (peek s)"
      using take_punctuation_True [of P_right_brace s s1] t True by simp_all
    with "1.prems"(1) True t have "k = n" "s' = s1" by (auto simp: enumerator_loop.simps)
    with r show ?thesis
      by (intro exI [of _ "[peek s]"] exI [of _ "[]"])
        (auto simp: rests_def moves_def add_values_def add_names_def names_of_def intro: enumerators.close)
  next
    case False
    then have s1: "s1 = s" using take_punctuation_False [of P_right_brace s s1] t by simp
    obtain p s2 where p: "parse_enumerator src env nxt s = (p, s2)" by force
    from "1.prems"(1) t False p s1 obtain nxt' where
      nxt': "p = Inr nxt'" "enumerator_loop src env nxt' (cast_u32 (n + 1)) s2 = (Inr k, s')"
      by (subst (asm) enumerator_loop.simps) (auto split: sum.splits)
    let ?n = "token_text src (peek s)"
    obtain us v sep f where e: "identifier_token (peek s)" "map_of (ps_constants s) ?n = None"
      "initializer src (sees env s) nxt us v" "separator nxt v sep (peek s2) nxt'" "reads s (peek s # us @ sep) s2"
      "ps_types s2 = ps_types s" "map_of (ps_constants s2) = (map_of (ps_constants s))(?n \<mapsto> v)"
      "ps_context s2 = add_value f (add_names ?n (ps_context s))" "length (sx_names (ps_context s2)) \<le> u32_max"
      "value_shown (ps_context s2) f (?n, v)"
      using parse_enumerator_sound [OF p [unfolded nxt'(1)]] by blast
    let ?own = "own @ [(?n, v)]"
    have new: "map_of own ?n = None" using e(2) "1.prems"(4) by simp
    have own: "map_of (ps_constants s2) = map_of ?own"
      using e(7) "1.prems"(4) map_of_snoc_new [OF new, of v] by (simp del: map_of_append)
    have scope2: "ps_scope s2 = join scope" using e(5) "1.prems"(3) by (simp add: reads_def)
    have len: "n + 1 + length (ps_rest s2) \<le> u32_max" using e(5) "1.prems"(5) by (simp add: reads_def)
    then have cast: "cast_u32 (n + 1) = n + 1" by simp
    from "1.IH" [OF t [symmetric] _ _ nxt' "1.prems"(2) scope2 own] p False s1 nxt'(1) len cast
    obtain ts vs fs where rest: "enumerators src env scope ?own nxt' ts vs" "reads s2 ts s'" "ps_types s' = ps_types s2"
      "ps_context s' = add_values fs (add_names (names_of vs) (ps_context s2))"
      "vs \<noteq> [] \<longrightarrow> length (sx_names (ps_context s')) \<le> u32_max"
      "list_all2 (value_shown (ps_context s')) fs vs" "k = n + 1 + length vs" by auto
    from rest(1,2) obtain ts' where ts: "ts = peek s2 # ts'"
      by (cases ts) (auto elim: enumerators.cases simp: reads_def peek_def)
    have init: "initializer src (constant_in_scope env scope own) nxt us v"
      using e(3) by (simp add: sees_in_scope [OF "1.prems"(2,3,4)])
    have "enumerators src env scope own nxt (peek s # us @ sep @ ts) ((?n, v) # vs)"
      using enumerators.item [OF e(1) _ init e(4) rest(1) [unfolded ts]] new ts by (simp add: map_of_eq_None_iff)
    moreover have "reads s (peek s # us @ sep @ ts) s'" using reads_trans [OF e(5) rest(2)] by simp
    moreover have "ps_types s' = ps_types s" using rest(3) e(6) by simp
    moreover have c: "ps_context s' = add_values (f # fs) (add_names (names_of ((?n, v) # vs)) (ps_context s))"
      by (simp add: rest(4) e(8) add_value_def add_values_def add_names_def names_of_def)
    moreover have "value_shown (ps_context s') f (?n, v)"
      using e(10) by (rule value_shown_mono)
        (simp add: rest(4) e(8) context_extends_def add_value_def add_values_def add_names_def)
    moreover have "length (sx_names (ps_context s')) \<le> u32_max"
      using rest(5) e(9) by (cases "vs = []") (simp_all add: rest(4) add_values_def add_names_def names_of_def)
    ultimately show ?thesis using rest(6,7)
      by (intro exI [of _ "peek s # us @ sep @ ts"] exI [of _ "(?n, v) # vs"] exI [of _ "f # fs"]) simp
  qed
qed

section \<open>Enumeration declarations\<close>

text \<open>Room for what is left to be read, so that no 32-bit count wraps.\<close>

definition room :: "parser_state \<Rightarrow> bool" where
  "room s \<longleftrightarrow>
     length (sx_names (ps_context s)) \<le> u32_max \<and>
     length (sx_enum_values (ps_context s)) + length (ps_rest s) \<le> u32_max \<and>
     length (sx_aggregate_members (ps_context s)) + length (ps_rest s) \<le> u32_max \<and>
     length (sx_type_modifiers (ps_context s)) + length (ps_rest s) \<le> u32_max"

definition in_scope :: "string list \<Rightarrow> parser_state \<Rightarrow> bool" where
  "in_scope scope s \<longleftrightarrow> list_all plain_name scope \<and> ps_scope s = join scope"

lemma in_scope_reads: "in_scope scope s \<Longrightarrow> reads s ts t \<Longrightarrow> in_scope scope t"
  by (simp add: in_scope_def reads_def)

definition add_enum :: "enum_declaration_source_fact \<Rightarrow> source_context \<Rightarrow> source_context" where
  "add_enum f c = c\<lparr>sx_enums := sx_enums c @ [f]\<rparr>"

lemma enum_done_sound:
  assumes "enum_done f s = (Inr u, s')"
  shows "moves s [] s' \<and> (\<exists>r. ps_context s' = add_enum (f\<lparr>edf_declaration_range := r\<rparr>) (ps_context s))"
  using push_sound [OF assms [unfolded enum_done_def]] by (auto simp: add_enum_def)

lemma parse_enum_rest_sound:
  assumes run: "parse_enum_rest src env d f s = (Inr u, s')" and scope: "in_scope scope s" and room: "room s"
    and f: "edf_enumerator_count f = 0" "edf_definition_state f = Enum_defined"
  shows "\<exists>bs state vs fs r.
    enum_body src env scope (\<not> edf_anonymous f \<and> (edf_scoped f \<or> edf_explicit_underlying f \<noteq> None)) bs state vs \<and>
    reads s bs s' \<and> ps_types s' = ps_types s \<and>
    ps_context s' = add_enum (f\<lparr>edf_definition_state := state, edf_enumerator_count := length vs, edf_declaration_range := r\<rparr>)
      (add_values fs (add_names (names_of vs) (ps_context s))) \<and>
    list_all2 (value_shown (ps_context s')) fs vs \<and> length (sx_names (ps_context s')) \<le> u32_max"
proof -
  obtain semicolon s1 where t: "take_punctuation P_semicolon s = (semicolon, s1)" by force
  show ?thesis
  proof (cases semicolon)
    case True
    have r: "rests s [peek s] s1" "sign_token P_semicolon (peek s)"
      using take_punctuation_True [of P_semicolon s s1] t True by simp_all
    from run t True have opaque: "\<not> edf_anonymous f \<and> (edf_scoped f \<or> edf_explicit_underlying f \<noteq> None)"
      and fin: "enum_done (f\<lparr>edf_definition_state := Enum_opaque\<rparr>) s1 = (Inr u, s')"
      by (auto simp: parse_enum_rest_def split: if_splits)
    from enum_done_sound [OF fin] obtain x where "moves s1 [] s'"
      "ps_context s' = add_enum (f\<lparr>edf_definition_state := Enum_opaque, edf_declaration_range := x\<rparr>) (ps_context s1)" by auto
    with r opaque f room show ?thesis
      by (intro exI [of _ "[peek s]"] exI [of _ Enum_opaque] exI [of _ "[]"] exI [of _ x])
        (auto simp: rests_def moves_def reads_def add_values_def add_names_def names_of_def add_enum_def room_def
          intro: enum_body.opaque)
  next
    case False
    then have s1: "s1 = s" using take_punctuation_False [of P_semicolon s s1] t by simp
    obtain opened s2 where b: "take_punctuation P_left_brace s = (opened, s2)" by force
    have opened: opened using run t False b s1 by (auto simp: parse_enum_rest_def split: if_splits)
    have l: "rests s [peek s] s2" "sign_token P_left_brace (peek s)"
      using take_punctuation_True [of P_left_brace s s2] b opened by simp_all
    from run t False b s1 opened obtain n s3 s4 where
      loop: "enumerator_loop src env \<lparr>constant_type = Long_long_integer, constant_bits = 0\<rparr> 0 (s2\<lparr>ps_constants := []\<rparr>) = (Inr n, s3)"
      and semi: "take_punctuation P_semicolon s3 = (True, s4)"
      and fin: "enum_done (f\<lparr>edf_enumerator_count := n\<rparr>) s4 = (Inr u, s')"
      by (auto simp: parse_enum_rest_def split: prod.splits if_splits elim!: and_then_parse_InrE)
    have start: "\<lparr>constant_type = Long_long_integer, constant_bits = 0\<rparr> = signed_literal 0" by (simp add: signed_literal_def)
    have "0 + length (ps_rest (s2\<lparr>ps_constants := []\<rparr>)) \<le> u32_max"
      using room l by (simp add: room_def rests_def moves_def reads_def)
    from enumerator_loop_sound [OF loop [unfolded start], of scope "[]", OF _ _ _ this] scope l(1)
    obtain ts vs fs where e: "enumerators src env scope [] (signed_literal 0) ts vs" "reads s2 ts s3" "ps_types s3 = ps_types s2"
      "ps_context s3 = add_values fs (add_names (names_of vs) (ps_context s2))"
      "vs \<noteq> [] \<longrightarrow> length (sx_names (ps_context s3)) \<le> u32_max"
      "list_all2 (value_shown (ps_context s3)) fs vs" "n = length vs"
      by (auto simp: in_scope_def rests_def moves_def reads_def)
    have s: "rests s3 [peek s3] s4" "sign_token P_semicolon (peek s3)"
      using take_punctuation_True [of P_semicolon s3 s4] semi by simp_all
    from enum_done_sound [OF fin] obtain x where x: "moves s4 [] s'"
      "ps_context s' = add_enum (f\<lparr>edf_enumerator_count := n, edf_declaration_range := x\<rparr>) (ps_context s4)" by auto
    have body: "enum_body src env scope (\<not> edf_anonymous f \<and> (edf_scoped f \<or> edf_explicit_underlying f \<noteq> None))
        (peek s # ts @ [peek s3]) Enum_defined vs"
      by (rule enum_body.defined [OF l(2) e(1) s(2)])
    have c: "ps_context s' = add_enum (f\<lparr>edf_definition_state := Enum_defined, edf_enumerator_count := length vs, edf_declaration_range := x\<rparr>)
      (add_values fs (add_names (names_of vs) (ps_context s)))"
    proof -
      have "f\<lparr>edf_definition_state := Enum_defined\<rparr> = f" using f(2) by (cases f) simp
      then show ?thesis using x(2) s(1) e(4,7) l(1) by (simp add: rests_def)
    qed
    have "list_all2 (value_shown (ps_context s')) fs vs"
      using e(6) by (rule list_all2_weaken) (erule value_shown_mono, use x(2) s(1) in \<open>simp add: rests_def add_enum_def context_extends_def\<close>)
    moreover have "length (sx_names (ps_context s')) \<le> u32_max"
      using e(4,5) room l(1) by (cases "vs = []") (simp_all add: c add_enum_def add_values_def add_names_def names_of_def room_def rests_def)
    moreover have "reads s (peek s # ts @ [peek s3]) s'" "ps_types s' = ps_types s"
      using l(1) e(2,3) s(1) x(1) by (simp_all add: rests_def moves_def reads_def)
    ultimately show ?thesis using body c by blast
  qed
qed

lemma store_scope_sound:
  assumes "store_scope s = (Inr r, s')" "length (sx_names (ps_context s)) \<le> u32_max"
  shows "moves s [] s' \<and> ps_context s' = add_names (ps_scope s) (ps_context s) \<and>
    length (sx_names (ps_context s')) \<le> u32_max \<and> scope_shown (ps_context s') r (ps_scope s)"
proof (cases "ps_scope s = []")
  case True
  with assms show ?thesis by (auto simp: store_scope_def add_names_def scope_shown_def)
next
  case False
  with assms store_name_sound [of "ps_scope s" s r s'] show ?thesis
    by (auto simp: store_scope_def add_names_def scope_shown_def)
qed

lemma register_local_type_sound:
  assumes "register_local_type n s = (Inr u, s')"
  shows "reads s [] s' \<and> ps_context s' = ps_context s \<and> ps_constants s' = ps_constants s \<and>
    set (ps_types s') = insert (qualified_name (ps_scope s) n) (set (ps_types s))"
proof -
  obtain ok t where a: "ps_allocate s = (ok, t)" by force
  obtain mem where "t = s\<lparr>ps_memory := mem\<rparr>" using ps_allocate_memory [OF a] by blast
  with assms a show ?thesis by (auto simp: register_local_type_def reads_def split: if_splits)
qed

lemma declare_type_sound:
  assumes run: "declare_type n s = (Inr r, s')" and scope: "in_scope scope s"
  shows "reads s [] s' \<and> ps_context s' = add_names (qualify scope n) (ps_context s) \<and>
    length (sx_names (ps_context s')) \<le> u32_max \<and> resolves (ps_context s') r (qualify scope n) \<and>
    set (ps_types s') = insert (qualify scope n) (set (ps_types s))"
proof -
  obtain ok t where a: "ps_allocate s = (ok, t)" by force
  obtain mem where t: "t = s\<lparr>ps_memory := mem\<rparr>" using ps_allocate_memory [OF a] by blast
  have q: "qualified_name (ps_scope s) n = qualify scope n" using scope by (simp add: in_scope_def qualified_join)
  from run a obtain s1 where s1: "store_name (qualify scope n) t = (Inr r, s1)" "register_local_type n s1 = (Inr (), s')"
    by (auto simp: declare_type_def store_qualified_def t q split: if_splits elim!: and_then_parse_InrE)
  from store_name_sound [OF s1(1)] register_local_type_sound [OF s1(2)] show ?thesis
    using q by (auto simp: t moves_def reads_def add_names_def)
qed

definition enum_spelling :: "enum_meaning \<Rightarrow> string" where
  "enum_spelling m = em_scope m @ (case em_name m of None \<Rightarrow> [] | Some n \<Rightarrow> n) @ names_of (em_values m)"

lemma parse_optional_underlying_sound:
  assumes "parse_optional_underlying src s = (Inr (t, r), s')"
  shows "\<exists>us. optional_underlying src us t \<and> rests s us s'"
proof -
  obtain colon s1 where c: "take_punctuation P_colon s = (colon, s1)" by force
  show ?thesis
  proof (cases colon)
    case False
    with assms c take_punctuation_False [of P_colon s s1] show ?thesis
      by (auto simp: parse_optional_underlying_def intro!: exI [of _ "[]"] optional_underlying.intros)
  next
    case True
    have r: "rests s [peek s] s1" "sign_token P_colon (peek s)"
      using take_punctuation_True [of P_colon s s1] c True by simp_all
    from assms c True obtain b where "parse_underlying src s1 = (Inr (b, r), s')" "t = Some b"
      by (auto simp: parse_optional_underlying_def elim!: and_then_parse_InrE)
    with parse_underlying_sound [OF this(1)] show ?thesis
      using optional_underlying.intros(2) [OF r(2)] rests_trans [OF r(1)] by fastforce
  qed
qed

lemma peek_in: "peek s \<noteq> no_token \<Longrightarrow> peek s \<in> set (ps_rest s)"
  by (cases "ps_rest s") (auto simp: peek_def)

lemma parse_enum_sound:
  assumes run: "parse_enum src env s = (Inr u, s')" and scope: "in_scope scope s" and room: "room s"
    and kind: "token_kind (peek s) = Tk_keyword_enum" and wf: "\<forall>t \<in> set (ps_rest s). token_wf src t"
  shows "\<exists>ts m f fs. enum_declaration src env scope ts m \<and> reads s ts s' \<and>
    set (ps_types s') = declared_types m (set (ps_types s)) \<and>
    ps_context s' = add_enum f (add_values fs (add_names (enum_spelling m) (ps_context s))) \<and>
    length fs = length (em_values m) \<and> length (sx_names (ps_context s')) \<le> u32_max \<and> enum_shown (ps_context s') f m"
proof -
  let ?s1 = "ps_advance s"
  have k: "rests s [peek s] ?s1" using kind by (intro advance_rests peek_token(1)) simp
  obtain scoped s2 where cls: "take_kind Tk_keyword_class ?s1 = (scoped, s2)" by force
  obtain cs where cs: "optional_class cs scoped" "rests ?s1 cs s2"
  proof (cases scoped)
    case True
    then show ?thesis using that [of "[peek ?s1]"] True take_kind_True [of Tk_keyword_class ?s1 s2] cls optional_class.intros(2) by simp
  next
    case False
    then show ?thesis using that [of "[]"] False take_kind_False [of Tk_keyword_class ?s1 s2] cls optional_class.intros(1) by simp
  qed
  let ?named = "identifier_token (peek s2)"
  let ?name = "if ?named then peek s2 else no_token" and ?s3 = "if ?named then ps_advance s2 else s2"
  define name where "name = (if ?named then Some (token_text src (peek s2)) else None)"
  define ns where "ns = (if ?named then [peek s2] else [])"
  have ns: "optional_name src ns name" "rests s2 ns ?s3"
    using optional_name.intros advance_rests [of s2] peek_token(1) [of s2] by (auto simp: ns_def name_def)
  have pre: "rests s (peek s # cs @ ns) ?s3" using rests_trans [OF rests_trans [OF k cs(2)] ns(2)] by simp
  have "peek s2 \<in> set (ps_rest s)" if ?named
    using that rests_trans [OF k cs(2)] peek_in [OF peek_token(1), of s2] by (auto simp: rests_def moves_def reads_def)
  then have anonymous: "token_length ?name = 0 \<longleftrightarrow> name = None"
    using wf by (auto simp: name_def token_wf_def no_token_def)
  have spelt: "name \<noteq> None \<Longrightarrow> name = Some (token_text src ?name)" by (simp add: name_def split: if_splits)
  from run cls obtain underlying ur s4 scope_name s5 canonical s6 where
    u: "parse_optional_underlying src ?s3 = (Inr (underlying, ur), s4)"
    and sn: "store_scope s4 = (Inr scope_name, s5)"
    and cn: "(if name = None then finish no_name else declare_type (token_text src ?name)) s5 = (Inr canonical, s6)"
    and rest: "parse_enum_rest src env (peek s)
      \<lparr>edf_canonical_name = canonical, edf_scope_name = scope_name, edf_anonymous = (name = None),
       edf_scoped = scoped, edf_definition_state = Enum_defined, edf_explicit_underlying = underlying,
       edf_enumerator_offset = cast_u32 (length (sx_enum_values (ps_context s6))), edf_enumerator_count = 0,
       edf_declaration_range = \<lparr>range_offset = token_offset (peek s), range_length = 0\<rparr>,
       edf_name_range = token_range ?name, edf_underlying_range = ur\<rparr> s6 = (Inr u, s')"
    unfolding parse_enum_def Let_def by (auto simp: anonymous elim!: and_then_parse_InrE)
  obtain us where us: "optional_underlying src us underlying" "rests ?s3 us s4"
    using parse_optional_underlying_sound [OF u] by blast
  have r4: "rests s (peek s # cs @ ns @ us) s4" using rests_trans [OF pre us(2)] by simp
  have sc4: "ps_scope s4 = join scope" "length (sx_names (ps_context s4)) \<le> u32_max" "in_scope scope s4"
    using r4 scope room by (auto simp: rests_def moves_def reads_def in_scope_def room_def)
  note s5 = store_scope_sound [OF sn sc4(2), unfolded sc4(1)]
  have sc5: "in_scope scope s5" using sc4(3) s5 by (blast intro: in_scope_reads moves_reads)
  let ?q = "case map_option (qualify scope) name of None \<Rightarrow> [] | Some n \<Rightarrow> n"
  have s6: "reads s5 [] s6 \<and> ps_context s6 = add_names ?q (ps_context s5) \<and>
      length (sx_names (ps_context s6)) \<le> u32_max \<and>
      (case map_option (qualify scope) name of None \<Rightarrow> canonical = no_name | Some n \<Rightarrow> resolves (ps_context s6) canonical n) \<and>
      set (ps_types s6) = (case map_option (qualify scope) name of None \<Rightarrow> set (ps_types s5) | Some n \<Rightarrow> insert n (set (ps_types s5)))"
  proof (cases name)
    case None
    with cn s5 show ?thesis by (auto simp: add_names_def reads_def)
  next
    case (Some n)
    with spelt have "n = token_text src ?name" by simp
    with cn Some have "declare_type n s5 = (Inr canonical, s6)" by simp
    from declare_type_sound [OF this sc5] show ?thesis unfolding Some by auto
  qed
  have sc6: "in_scope scope s6" using sc5 s6 by (blast intro: in_scope_reads)
  have room6: "room s6" using room r4 s5 s6 by (auto simp: room_def rests_def moves_def reads_def add_names_def)
  from parse_enum_rest_sound [OF rest sc6 room6]
  obtain bs state vs fs r where body: "enum_body src env scope (name \<noteq> None \<and> (scoped \<or> underlying \<noteq> None)) bs state vs"
    and r6: "reads s6 bs s'" "ps_types s' = ps_types s6"
    and c: "ps_context s' = add_enum
      \<lparr>edf_canonical_name = canonical, edf_scope_name = scope_name, edf_anonymous = (name = None),
       edf_scoped = scoped, edf_definition_state = state, edf_explicit_underlying = underlying,
       edf_enumerator_offset = cast_u32 (length (sx_enum_values (ps_context s6))), edf_enumerator_count = length vs,
       edf_declaration_range = r, edf_name_range = token_range ?name, edf_underlying_range = ur\<rparr>
      (add_values fs (add_names (names_of vs) (ps_context s6)))" (is "_ = add_enum ?f _")
    and vs: "list_all2 (value_shown (ps_context s')) fs vs" "length (sx_names (ps_context s')) \<le> u32_max"
    by auto
  let ?m = "\<lparr>em_name = map_option (qualify scope) name, em_scope = join scope, em_scoped = scoped, em_state = state,
    em_underlying = underlying, em_values = vs\<rparr>"
  have "enum_declaration src env scope (peek s # cs @ ns @ us @ bs) ?m"
    by (rule enum_declaration.intros [OF kind cs(1) ns(1) us(1) body])
  moreover have "reads s (peek s # cs @ ns @ us @ bs) s'"
    using r4 s5 s6 r6(1) by (auto simp: rests_def moves_def reads_def)
  moreover have "set (ps_types s') = declared_types ?m (set (ps_types s))"
    using r4 s5 s6 r6(2) by (auto simp: rests_def moves_def declared_types_def split: option.splits)
  moreover have "ps_context s' = add_enum ?f (add_values fs (add_names (enum_spelling ?m) (ps_context s)))"
    using c r4 s5 s6 by (simp add: rests_def enum_spelling_def add_names_def)
  moreover have "length fs = length vs" using vs(1) by (rule list_all2_lengthD)
  moreover have "enum_shown (ps_context s') ?f ?m"
  proof -
    have ext: "context_extends (ps_context s6) (ps_context s')" "context_extends (ps_context s5) (ps_context s')"
      using s6 by (simp_all add: c context_extends_def add_enum_def add_values_def add_names_def)
    have "sx_enumerators (ps_context s') ?f = fs"
      using room6 list_all2_lengthD [OF vs(1)]
      by (auto simp: c sx_enumerators_def add_enum_def add_values_def add_names_def room_def fact_slice_def)
    then show ?thesis
      using vs(1) s5 s6 ext by (auto simp: enum_shown_def intro: scope_shown_mono resolves_mono split: option.splits)
  qed
  ultimately show ?thesis using vs(2) by (metis enum_meaning.select_convs(6))
qed

section \<open>Members\<close>

definition add_modifiers :: "source_type_modifier list \<Rightarrow> source_context \<Rightarrow> source_context" where
  "add_modifiers ms c = c\<lparr>sx_type_modifiers := sx_type_modifiers c @ ms\<rparr>"

lemma add_modifiers_Nil [simp]: "add_modifiers [] c = c"
  by (simp add: add_modifiers_def)

lemma add_modifiers_add [simp]: "add_modifiers ns (add_modifiers ms c) = add_modifiers (ms @ ns) c"
  by (simp add: add_modifiers_def)

definition modifier_meaning :: "source_type_modifier \<Rightarrow> source_type_modifier_kind \<times> u64" where
  "modifier_meaning x = (smf_kind x, smf_payload x)"

lemma push_modifier_sound:
  assumes "push_modifier k p r s = (Inr u, s')"
  shows "moves s [] s' \<and> ps_context s' = add_modifiers [\<lparr>smf_kind = k, smf_payload = p, smf_range = r\<rparr>] (ps_context s)"
  using push_sound [OF assms [unfolded push_modifier_def]] by (simp add: add_modifiers_def)

text \<open>The parts of a member that the modifier loops leave as they are.\<close>

definition same_member :: "member_declaration_source_fact \<Rightarrow> member_declaration_source_fact \<Rightarrow> bool" where
  "same_member m m' \<longleftrightarrow>
     mdf_name m' = mdf_name m \<and> mdf_type_name m' = mdf_type_name m \<and> mdf_builtin m' = mdf_builtin m \<and>
     mdf_modifier_offset m' = mdf_modifier_offset m"

lemma same_member_simps [simp]:
  "same_member m m" "same_member m (count_modifier n) \<longleftrightarrow> same_member m n"
  "same_member m (extend_type_range e n) \<longleftrightarrow> same_member m n"
  by (simp_all add: same_member_def count_modifier_def extend_type_range_def)

lemma mdf_modifier_count_simps [simp]:
  "mdf_modifier_count (count_modifier m) = cast_u32 (mdf_modifier_count m + 1)"
  "mdf_modifier_count (extend_type_range e m) = mdf_modifier_count m"
  by (simp_all add: count_modifier_def extend_type_range_def)

lemma same_member_trans: "same_member a b \<Longrightarrow> same_member b c \<Longrightarrow> same_member a c"
  by (simp add: same_member_def)

text \<open>
  A step over the modifiers of a member: it reads \<open>ts\<close>, appends \<open>ms\<close> and counts them, when the count
  does not wrap.
\<close>

definition modifies ::
    "parser_state \<Rightarrow> parser_token list \<Rightarrow> parser_state \<Rightarrow> source_type_modifier list
     \<Rightarrow> member_declaration_source_fact \<Rightarrow> member_declaration_source_fact \<Rightarrow> bool" where
  "modifies s ts t ms m m' \<longleftrightarrow>
     moves s ts t \<and> ps_context t = add_modifiers ms (ps_context s) \<and> same_member m m' \<and> length ms \<le> length ts \<and>
     (mdf_modifier_count m + length (ps_rest s) \<le> u32_max \<longrightarrow>
        mdf_modifier_count m' = mdf_modifier_count m + length ms)"

lemma modifies_trans:
  "modifies s ts t ms m m' \<Longrightarrow> modifies t us u ns m' m'' \<Longrightarrow> modifies s (ts @ us) u (ms @ ns) m m''"
  by (auto simp: modifies_def moves_def reads_def dest: same_member_trans)

lemma modifies_Nil: "modifies s [] s [] m m"
  by (simp add: modifies_def)

lemma push_modifier_modifies:
  assumes "rests s ts t" "ts \<noteq> []" "push_modifier k p r t = (Inr u, t')"
  shows "modifies s ts t' [\<lparr>smf_kind = k, smf_payload = p, smf_range = r\<rparr>] m (count_modifier m)"
proof -
  have "1 \<le> length ts" using assms(2) by (cases ts) auto
  moreover have "length ts \<le> length (ps_rest s)" using assms(1) by (simp add: rests_def moves_def reads_def)
  ultimately show ?thesis
    using assms(1) push_modifier_sound [OF assms(3)]
    by (auto simp: modifies_def rests_def moves_def reads_def)
qed

lemma modifies_extend: "modifies s ts t ms m (extend_type_range e m') \<longleftrightarrow> modifies s ts t ms m m'"
  by (simp add: modifies_def)

lemma modifies_extend2: "modifies s ts t ms (extend_type_range e m) m' \<longleftrightarrow> modifies s ts t ms m m'"
  by (simp add: modifies_def) (simp add: extend_type_range_def same_member_def)

lemma pointer_loop_sound:
  assumes "pointer_loop m s = (Inr m', s')"
  shows "\<exists>ps ms. list_all (sign_token P_asterisk) ps \<and> modifies s ps s' ms m m' \<and>
    map modifier_meaning ms = map (\<lambda>_. (Modifier_pointer, 0)) ps"
  using assms
proof (induction m s arbitrary: m' s' rule: pointer_loop.induct)
  case (1 m s)
  show ?case
  proof (cases "sign_token P_asterisk (peek s)")
    case False
    with "1.prems" show ?thesis
      by (auto simp: pointer_loop.simps [of m s] modifies_Nil intro!: exI [of _ "[]"])
  next
    case True
    obtain x s1 where p: "push_modifier Modifier_pointer 0 (token_range (peek s)) (ps_advance s) = (x, s1)" by force
    let ?m = "extend_type_range (token_offset (peek s) + token_length (peek s)) (count_modifier m)"
    from "1.prems" True p obtain u where x: "x = Inr u" "pointer_loop ?m s1 = (Inr m', s')"
      by (subst (asm) pointer_loop.simps) (auto simp: Let_def split: sum.splits)
    have "rests s [peek s] (ps_advance s)" by (intro advance_rests peek_token(2) [OF True]) simp
    from push_modifier_modifies [OF this _ p [unfolded x(1)], of m]
    have one: "modifies s [peek s] s1 [\<lparr>smf_kind = Modifier_pointer, smf_payload = 0, smf_range = token_range (peek s)\<rparr>] m ?m"
      by (simp add: modifies_extend)
    from "1.IH" [OF _ refl p [symmetric] x] True obtain ps ms where
      rest: "list_all (sign_token P_asterisk) ps" "modifies s1 ps s' ms ?m m'"
        "map modifier_meaning ms = map (\<lambda>_. (Modifier_pointer, 0)) ps" by auto
    from modifies_trans [OF one rest(2)] rest(1,3) True show ?thesis
      by (intro exI [of _ "peek s # ps"] exI [of _ "_ # ms"]) (auto simp: modifier_meaning_def [abs_def])
  qed
qed

lemma parse_reference_sound:
  assumes "parse_reference m s = (Inr m', s')"
  shows "\<exists>rs ms. reference_modifier rs (map modifier_meaning ms) \<and> modifies s rs s' ms m m'"
proof (cases "sign_token P_ampersand (peek s)")
  case False
  with assms show ?thesis
    by (intro exI [of _ "[]"]) (simp add: parse_reference_def modifies_Nil reference_modifier.intros)
next
  case True
  let ?s1 = "ps_advance s"
  have one: "rests s [peek s] ?s1" by (intro advance_rests peek_token(2) [OF True]) simp
  show ?thesis
  proof (cases "sign_token P_ampersand (peek ?s1)")
    case rvalue: True
    have "rests ?s1 [peek ?s1] (ps_advance ?s1)" by (intro advance_rests peek_token(2) [OF rvalue]) simp
    with one have two: "rests s [peek s, peek ?s1] (ps_advance ?s1)" using rests_trans by fastforce
    from assms True rvalue obtain r u e where p: "push_modifier Modifier_rvalue_reference 0 r (ps_advance ?s1) = (Inr u, s')"
      and m': "m' = extend_type_range e (count_modifier m)"
      by (auto simp: parse_reference_def Let_def elim!: and_then_parse_InrE)
    from push_modifier_modifies [OF two _ p, of m] show ?thesis
      unfolding m' modifies_extend
      by (intro exI conjI) (auto simp: modifier_meaning_def True rvalue intro: reference_modifier.intros)
  next
    case lvalue: False
    from assms True lvalue obtain r u e where p: "push_modifier Modifier_lvalue_reference 0 r ?s1 = (Inr u, s')"
      and m': "m' = extend_type_range e (count_modifier m)"
      by (auto simp: parse_reference_def Let_def elim!: and_then_parse_InrE)
    from push_modifier_modifies [OF one _ p, of m] show ?thesis
      unfolding m' modifies_extend
      by (intro exI conjI) (auto simp: modifier_meaning_def True intro: reference_modifier.intros)
  qed
qed

lemma parse_extent_sound:
  assumes "parse_extent src opened m s = (Inr m', s')" "rests s0 [opened] s"
  shows "\<exists>t n b x. token_kind t = Tk_integer_literal \<and> from_chars_u64 (token_text src t) = Some n \<and> n \<noteq> 0 \<and>
    sign_token P_right_bracket b \<and> modifies s0 [opened, t, b] s' [x] m m' \<and> modifier_meaning x = (Modifier_array, n) \<and>
    \<not> after_reference m s"
proof -
  let ?s1 = "ps_advance s" let ?s2 = "ps_advance ?s1"
  from assms(1) obtain n r u where t: "token_kind (peek s) = Tk_integer_literal" "from_chars_u64 (token_text src (peek s)) = Some n" "n \<noteq> 0"
    and b: "sign_token P_right_bracket (peek ?s1)" and a: "\<not> after_reference m ?s2"
    and p: "push_modifier Modifier_array n r ?s2 = (Inr u, s')" and m': "m' = count_modifier m"
    by (auto simp: parse_extent_def Let_def split: if_splits option.splits elim!: and_then_parse_InrE)
  have "rests s [peek s] ?s1" using t(1) by (intro advance_rests peek_token(1)) simp
  moreover have "rests ?s1 [peek ?s1] ?s2" by (intro advance_rests peek_token(2) [OF b]) simp
  ultimately have two: "rests s [peek s, peek ?s1] ?s2" using rests_trans by fastforce
  with assms(2) have three: "rests s0 [opened, peek s, peek ?s1] ?s2" using rests_trans by fastforce
  have "\<not> after_reference m s" using a two by (simp add: after_reference_def rests_def)
  with push_modifier_modifies [OF three _ p, of m] t b show ?thesis
    unfolding m' by (intro exI conjI) (auto simp: modifier_meaning_def)
qed

text \<open>The extents are only read when the modifiers before them do not end in a reference.\<close>

lemma extent_loop_sound:
  assumes "extent_loop src m s = (Inr m', s')"
  shows "\<exists>as ms. array_modifiers src as (map modifier_meaning ms) \<and> modifies s as s' ms m m' \<and>
    (ms \<noteq> [] \<longrightarrow> \<not> after_reference m s)"
  using assms
proof (induction src m s arbitrary: m' s' rule: extent_loop.induct)
  case (1 src m s)
  obtain taken s1 where t: "take_punctuation P_left_bracket s = (taken, s1)" by force
  show ?case
  proof (cases taken)
    case False
    with "1.prems" t take_punctuation_False [of P_left_bracket s s1] show ?thesis
      by (auto simp: extent_loop.simps [of src m s] Let_def modifies_Nil array_modifiers.intros intro!: exI [of _ "[]"])
  next
    case True
    have l: "rests s [peek s] s1" "sign_token P_left_bracket (peek s)"
      using take_punctuation_True [of P_left_bracket s s1] t True by simp_all
    obtain x s2 where x: "parse_extent src (peek s) m s1 = (x, s2)" by force
    from "1.prems" t True x obtain m1 where m1: "x = Inr m1" "extent_loop src m1 s2 = (Inr m', s')"
      by (subst (asm) extent_loop.simps) (auto simp: Let_def split: sum.splits)
    from parse_extent_sound [OF x [unfolded m1(1)] l(1)] obtain e n b y where
      e: "token_kind e = Tk_integer_literal" "from_chars_u64 (token_text src e) = Some n" "n \<noteq> 0"
        "sign_token P_right_bracket b" "modifies s [peek s, e, b] s2 [y] m m1" "modifier_meaning y = (Modifier_array, n)"
        "\<not> after_reference m s1" by blast
    from "1.IH" [OF refl t [symmetric] _ x [symmetric] m1] True obtain as ms where
      rest: "array_modifiers src as (map modifier_meaning ms)" "modifies s2 as s' ms m1 m'" by blast
    have "array_modifiers src (peek s # e # b # as) ((Modifier_array, n) # map modifier_meaning ms)"
      by (rule array_modifiers.intros(2) [OF l(2) e(1-4) rest(1)])
    moreover have "\<not> after_reference m s" using e(7) l(1) by (simp add: after_reference_def rests_def)
    ultimately show ?thesis
      using modifies_trans [OF e(5) rest(2)] e(6) by (intro exI [of _ "peek s # e # b # as"] exI [of _ "y # ms"]) simp
  qed
qed

end
