(* ===== verification/ParserMembers.thy ===== *)
theory ParserMembers
  imports ParserSound
begin

text \<open>
  What the parser accepts is derivable, continued: the members of aggregates, the aggregates, the
  namespaces and the whole unit.
\<close>

section \<open>One member\<close>

lemma modifies_shown:
  assumes "modifies s ts t ms m m'" "mdf_modifier_offset m = length (sx_type_modifiers (ps_context s))"
    "mdf_modifier_count m = 0" "length (sx_type_modifiers (ps_context s)) + length (ps_rest s) \<le> u32_max"
  shows "sx_modifiers (ps_context t) m' = ms \<and> mdf_modifier_count m' = length ms"
  using assms by (auto simp: modifies_def same_member_def sx_modifiers_def add_modifiers_def fact_slice_def)

lemma parse_member_type_sound:
  assumes run: "parse_member_type src env start m s = (Inr m', s')" and scope: "in_scope scope s"
    and id: "identifier_token start" and le: "length (sx_names (ps_context s)) \<le> u32_max"
  shows "\<exists>base. base_type src env scope (set (ps_types s)) start base \<and> moves s [] s' \<and>
    ps_context s' = add_names (case base of Inl _ \<Rightarrow> [] | Inr c \<Rightarrow> c) (ps_context s) \<and>
    length (sx_names (ps_context s')) \<le> u32_max \<and>
    (case base of Inl b \<Rightarrow> m' = m\<lparr>mdf_builtin := Some b\<rparr>
     | Inr c \<Rightarrow> \<exists>r. m' = m\<lparr>mdf_type_name := r\<rparr> \<and> resolves (ps_context s') r c)"
proof (cases "token_text src start = ''int''")
  case True
  with run id le show ?thesis
    by (intro exI [of _ "Inl Integer"])
      (auto simp: parse_member_type_def add_names_def intro: base_type.intros(1))
next
  case False
  obtain x s1 where l: "lookup_type env (token_text src start) (token_offset start) s = (x, s1)" by force
  from run False l obtain c r where c: "x = Some c" "store_name c s1 = (Inr r, s')" "m' = m\<lparr>mdf_type_name := r\<rparr>"
    by (auto simp: parse_member_type_def split: option.splits elim!: and_then_parse_InrE)
  have "lookup_type_from env (token_text src start) (token_offset start) (join scope) s = (Some c, s1)"
    using l c(1) scope by (simp add: lookup_type_def in_scope_def)
  from lookup_type_join [OF _ refl this] scope obtain mem where
    "s1 = s\<lparr>ps_memory := mem\<rparr>" and t: "type_in_scope env scope (set (ps_types s)) (token_text src start) (token_offset start) = Some c"
    by (auto simp: in_scope_def)
  with store_name_sound [OF c(2)] c(3) show ?thesis
    by (intro exI [of _ "Inr c"])
      (auto simp: moves_def reads_def add_names_def intro: base_type.intros(2) [OF id False t])
qed

lemma parse_member_name_sound:
  assumes "parse_member_name src m s = (Inr m', s')"
  shows "identifier_token (peek s) \<and> moves s [peek s] s' \<and> ps_context s' = add_names (token_text src (peek s)) (ps_context s) \<and>
    length (sx_names (ps_context s')) \<le> u32_max \<and>
    (\<exists>r x. m' = m\<lparr>mdf_name := r, mdf_name_range := x\<rparr> \<and> resolves (ps_context s') r (token_text src (peek s)))"
proof -
  from assms obtain r where id: "identifier_token (peek s)" and n: "store_name (token_text src (peek s)) (ps_advance s) = (Inr r, s')"
    and m': "m' = m\<lparr>mdf_name := r, mdf_name_range := token_range (peek s)\<rparr>"
    by (auto simp: parse_member_name_def Let_def split: if_splits elim!: and_then_parse_InrE)
  have "rests s [peek s] (ps_advance s)" using id by (intro advance_rests peek_token(1)) simp
  with store_name_sound [OF n] id m' show ?thesis by (auto simp: rests_def moves_def reads_def add_names_def)
qed

definition add_members :: "member_declaration_source_fact list \<Rightarrow> source_context \<Rightarrow> source_context" where
  "add_members fs c = c\<lparr>sx_aggregate_members := sx_aggregate_members c @ fs\<rparr>"

lemma member_done_sound:
  assumes "member_done start m s = (Inr u, s')"
  shows "sign_token P_semicolon (peek s) \<and> moves s [peek s] s' \<and>
    (\<exists>r. ps_context s' = add_members [m\<lparr>mdf_declaration_range := r\<rparr>] (ps_context s))"
proof -
  obtain semicolon s1 where t: "take_punctuation P_semicolon s = (semicolon, s1)" by force
  with assms have ok: semicolon by (auto simp: member_done_def split: if_splits)
  with t have r: "rests s [peek s] s1" "sign_token P_semicolon (peek s)" using take_punctuation_True [of P_semicolon s s1] by simp_all
  have "push (\<lambda>c. c\<lparr>sx_aggregate_members := sx_aggregate_members c @
            [m\<lparr>mdf_declaration_range := \<lparr>range_offset = token_offset start,
                range_length = sub_u32 (peek_offset s1) (token_offset start)\<rparr>\<rparr>]\<rparr>) s1 = (Inr u, s')"
    using assms t ok by (simp add: member_done_def)
  from push_sound [OF this] r show ?thesis
    by (auto simp: add_members_def rests_def moves_def reads_def)
qed

definition member_spelling :: "member_meaning \<Rightarrow> string" where
  "member_spelling m = (case mm_type m of Inl _ \<Rightarrow> [] | Inr n \<Rightarrow> n) @ mm_name m"

lemma member_no_array_of_reference:
  assumes "modifies s2 ps s3 ms1 m1 m2" "reference_modifier rs (map modifier_meaning ms2)" "modifies s3 rs s4 ms2 m2 m3"
    and "mdf_modifier_offset m1 = length (sx_type_modifiers (ps_context s2))" "mdf_modifier_count m1 = 0"
      "length (sx_type_modifiers (ps_context s2)) + length (ps_rest s2) \<le> u32_max"
    and "m4 = m3\<lparr>mdf_name := nr, mdf_name_range := nx\<rparr>" "ps_context s5 = add_names nm (ps_context s4)"
    and "ms3 \<noteq> [] \<longrightarrow> \<not> after_reference m4 s5"
  shows "ms2 = [] \<or> ms3 = []"
proof (rule ccontr)
  assume *: "\<not> (ms2 = [] \<or> ms3 = [])"
  have "sx_modifiers (ps_context s4) m3 = ms1 @ ms2"
    using modifies_shown [OF modifies_trans [OF assms(1,3)] assms(4-6)] by simp
  then have shown: "sx_modifiers (ps_context s5) m4 = ms1 @ ms2"
    by (simp add: assms(7,8) sx_modifiers_def add_names_def)
  have "smf_kind (last ms2) = Modifier_lvalue_reference \<or> smf_kind (last ms2) = Modifier_rvalue_reference"
    using assms(2) * by (auto simp: modifier_meaning_def elim!: reference_modifier.cases)
  with * shown have "after_reference m4 s5" by (simp add: after_reference_def Let_def)
  with assms(9) * show False by blast
qed

lemma parse_member_sound:
  assumes run: "parse_member src env s = (Inr u, s')" and scope: "in_scope scope s" and room: "room s"
  shows "\<exists>ts m f ms. member_declaration src env scope (set (ps_types s)) ts m \<and> moves s ts s' \<and>
    ps_context s' = add_members [f] (add_modifiers ms (add_names (member_spelling m) (ps_context s))) \<and>
    length ms < length ts \<and> length (sx_names (ps_context s')) \<le> u32_max \<and> member_shown (ps_context s') f m"
proof -
  let ?start = "peek s" and ?s1 = "ps_advance s"
  let ?m = "\<lparr>mdf_name = no_name, mdf_type_name = no_name, mdf_builtin = None,
    mdf_modifier_offset = length (sx_type_modifiers (ps_context s)), mdf_modifier_count = 0,
    mdf_declaration_range = no_text_range, mdf_name_range = no_text_range, mdf_type_range = token_range ?start\<rparr>"
  have le: "length (sx_names (ps_context s)) \<le> u32_max" "length (sx_type_modifiers (ps_context s)) + length (ps_rest s) \<le> u32_max"
    using room by (simp_all add: room_def)
  then have off: "cast_u32 (length (sx_type_modifiers (ps_context s))) = length (sx_type_modifiers (ps_context s))" by simp
  from run have id: "identifier_token ?start" by (auto simp: parse_member_def Let_def split: if_splits)
  with run off obtain m1 s2 m2 s3 m3 s4 m4 s5 m5 s6 where
    st: "parse_member_type src env ?start ?m ?s1 = (Inr m1, s2)" "pointer_loop m1 s2 = (Inr m2, s3)"
      "parse_reference m2 s3 = (Inr m3, s4)" "parse_member_name src m3 s4 = (Inr m4, s5)"
      "extent_loop src m4 s5 = (Inr m5, s6)" "member_done ?start m5 s6 = (Inr u, s')"
    unfolding parse_member_def Let_def by (auto elim!: and_then_parse_InrE)
  have a: "rests s [?start] ?s1" using id by (intro advance_rests peek_token(1)) simp
  have sc1: "in_scope scope ?s1" using scope a by (blast intro: in_scope_reads moves_reads rests_moves)
  have "length (sx_names (ps_context ?s1)) \<le> u32_max" using le a by (simp add: rests_def)
  from parse_member_type_sound [OF st(1) sc1 id this] obtain base where
    bt: "base_type src env scope (set (ps_types ?s1)) ?start base" "moves ?s1 [] s2"
    "ps_context s2 = add_names (case base of Inl _ \<Rightarrow> [] | Inr c \<Rightarrow> c) (ps_context ?s1)"
    "length (sx_names (ps_context s2)) \<le> u32_max"
    "case base of Inl b \<Rightarrow> m1 = ?m\<lparr>mdf_builtin := Some b\<rparr>
      | Inr c \<Rightarrow> \<exists>r. m1 = ?m\<lparr>mdf_type_name := r\<rparr> \<and> resolves (ps_context s2) r c" by blast
  have base: "base_type src env scope (set (ps_types s)) ?start base" "moves s [?start] s2"
    "ps_context s2 = add_names (case base of Inl _ \<Rightarrow> [] | Inr c \<Rightarrow> c) (ps_context s)"
    using bt(1-3) a moves_trans [OF rests_moves [OF a] bt(2)] by (auto simp: rests_def moves_def)
  have m1: "mdf_modifier_offset m1 = length (sx_type_modifiers (ps_context s2))" "mdf_modifier_count m1 = 0"
    using base(3) bt(5) by (auto simp: add_names_def split: sum.splits)
  have le2: "length (sx_type_modifiers (ps_context s2)) + length (ps_rest s2) \<le> u32_max"
    using le base(2,3) by (simp add: moves_def reads_def add_names_def)
  obtain ps ms1 where p: "list_all (sign_token P_asterisk) ps" "modifies s2 ps s3 ms1 m1 m2"
    "map modifier_meaning ms1 = map (\<lambda>_. (Modifier_pointer, 0)) ps" using pointer_loop_sound [OF st(2)] by blast
  obtain rs ms2 where r: "reference_modifier rs (map modifier_meaning ms2)" "modifies s3 rs s4 ms2 m2 m3"
    using parse_reference_sound [OF st(3)] by blast
  note n = parse_member_name_sound [OF st(4)]
  obtain as ms3 where e: "array_modifiers src as (map modifier_meaning ms3)" "modifies s5 as s6 ms3 m4 m5"
    "ms3 \<noteq> [] \<longrightarrow> \<not> after_reference m4 s5" using extent_loop_sound [OF st(5)] by blast
  note d = member_done_sound [OF st(6)]
  let ?nm = "token_text src (peek s4)"
  obtain nr nx where m4: "m4 = m3\<lparr>mdf_name := nr, mdf_name_range := nx\<rparr>" "resolves (ps_context s5) nr ?nm" using n by blast
  have refs: "ms2 = [] \<or> ms3 = []"
    using member_no_array_of_reference [OF p(2) r m1 le2 m4(1) _ e(3)] n by blast
  have total: "modifies s2 (ps @ rs) s4 (ms1 @ ms2) m1 m3" by (rule modifies_trans [OF p(2) r(2)])
  obtain x where c: "ps_context s' = add_members [m5\<lparr>mdf_declaration_range := x\<rparr>] (ps_context s6)" using d by blast
  let ?mm = "\<lparr>mm_name = ?nm, mm_type = base, mm_modifiers = map (\<lambda>_. (Modifier_pointer, 0)) ps @ map modifier_meaning ms2 @ map modifier_meaning ms3\<rparr>"
  let ?ts = "?start # ps @ rs @ peek s4 # as @ [peek s6]"
  have "member_declaration src env scope (set (ps_types s)) ?ts ?mm"
    by (rule member_declaration.intros [OF base(1) p(1) r(1) _ e(1)]) (use n d refs in auto)
  moreover have mv: "moves s ?ts s'"
    using base(2) total n e(2) d by (auto simp: modifies_def moves_def reads_def)
  moreover have ctx: "ps_context s' = add_members [m5\<lparr>mdf_declaration_range := x\<rparr>]
      (add_modifiers (ms1 @ ms2 @ ms3) (add_names (member_spelling ?mm) (ps_context s)))"
    using c e(2) n total base(3) by (simp add: modifies_def member_spelling_def add_modifiers_def add_names_def)
  moreover have "length (ms1 @ ms2 @ ms3) < length ?ts"
    using p(2) r(2) e(2) by (simp add: modifies_def)
  moreover have "sx_names (ps_context s') = sx_names (ps_context s5)"
    using e(2) by (simp add: c modifies_def add_members_def add_modifiers_def)
  then have "length (sx_names (ps_context s')) = length (sx_names (ps_context s5))" by (rule arg_cong)
  then have "length (sx_names (ps_context s')) \<le> u32_max" using conjunct1 [OF conjunct2 [OF conjunct2 [OF conjunct2 [OF n]]]] by simp
  moreover have "member_shown (ps_context s') (m5\<lparr>mdf_declaration_range := x\<rparr>) ?mm"
  proof -
    have m5: "same_member m4 m5" "mdf_modifier_count m5 = length (ms1 @ ms2 @ ms3)"
      "mdf_modifier_offset m5 = length (sx_type_modifiers (ps_context s))"
    proof -
      note e2 = e(2) [unfolded modifies_def] and tot = total [unfolded modifies_def]
      have len: "length (ps @ rs) + length (ps_rest s4) = length (ps_rest s2)" "ps_rest s4 = peek s4 # ps_rest s5"
        using tot n by (simp_all add: moves_def reads_def)
      have c4: "mdf_modifier_count m4 = length (ms1 @ ms2)"
        using tot m1 le2 m4(1) by simp
      show "same_member m4 m5" using e2 by simp
      show "mdf_modifier_count m5 = length (ms1 @ ms2 @ ms3)"
        using e2 c4 le2 tot len by simp
      show "mdf_modifier_offset m5 = length (sx_type_modifiers (ps_context s))"
        using e2 tot m1(1) base(3) by (simp add: same_member_def m4(1) add_names_def)
    qed
    have "sx_modifiers (ps_context s') (m5\<lparr>mdf_declaration_range := x\<rparr>) = ms1 @ ms2 @ ms3"
      using m5(2,3) by (auto simp: ctx sx_modifiers_def add_members_def add_modifiers_def add_names_def fact_slice_def)
    moreover have ext: "context_extends (ps_context s5) (ps_context s')" "context_extends (ps_context s2) (ps_context s')"
      using c e(2) n total by (simp_all add: modifies_def context_extends_def add_members_def add_modifiers_def add_names_def)
    moreover have "resolves (ps_context s') (mdf_name m5) ?nm"
      using m5(1) m4 ext(1) by (auto simp: same_member_def intro: resolves_mono)
    moreover have "mdf_builtin m5 = mdf_builtin m1" "mdf_type_name m5 = mdf_type_name m1"
      using m5(1) m4(1) total by (simp_all add: modifies_def same_member_def)
    ultimately show ?thesis
      using m5(2) bt(5) p(3) by (auto simp: member_shown_def modifier_meaning_def [abs_def] intro: resolves_mono dest: arg_cong [of _ _ length] split: sum.splits)
  qed
  ultimately show ?thesis by blast
qed

section \<open>Aggregates\<close>

definition members_spelling :: "member_meaning list \<Rightarrow> string" where
  "members_spelling ms = concat (map member_spelling ms)"

lemma room_moves:
  assumes "room s" "moves s ts t" "length (sx_names (ps_context t)) \<le> u32_max"
    "length (sx_enum_values (ps_context t)) \<le> length (sx_enum_values (ps_context s)) + length ts"
    "length (sx_aggregate_members (ps_context t)) \<le> length (sx_aggregate_members (ps_context s)) + length ts"
    "length (sx_type_modifiers (ps_context t)) \<le> length (sx_type_modifiers (ps_context s)) + length ts"
  shows "room t"
  using assms by (simp add: room_def moves_def reads_def)

lemma member_loop_sound:
  assumes "member_loop src env n s = (Inr k, s')" "in_scope scope s" "room s" "n + length (ps_rest s) \<le> u32_max"
  shows "\<exists>ts ms fs xs. member_declarations src env scope (set (ps_types s)) ts ms \<and> moves s ts s' \<and>
    ps_context s' = add_members fs (add_modifiers xs (add_names (members_spelling ms) (ps_context s))) \<and>
    length xs \<le> length ts \<and> length fs < length ts \<and> length (sx_names (ps_context s')) \<le> u32_max \<and>
    list_all2 (member_shown (ps_context s')) fs ms \<and> k = n + length ms"
  using assms
proof (induction src env n s arbitrary: k s' rule: member_loop.induct)
  case (1 src env n s)
  obtain closed s1 where t: "take_punctuation P_right_brace s = (closed, s1)" by force
  show ?case
  proof (cases closed)
    case True
    have r: "rests s [peek s] s1" "sign_token P_right_brace (peek s)"
      using take_punctuation_True [of P_right_brace s s1] t True by simp_all
    with "1.prems"(1) True t have "k = n" "s' = s1" by (auto simp: member_loop.simps)
    with r "1.prems"(3) show ?thesis
      by (intro exI [of _ "[peek s]"] exI [of _ "[]"])
        (auto simp: rests_def moves_def add_members_def add_names_def members_spelling_def room_def intro: member_declarations.intros)
  next
    case False
    then have s1: "s1 = s" using take_punctuation_False [of P_right_brace s s1] t by simp
    obtain p s2 where p: "parse_member src env s = (p, s2)" by force
    from "1.prems"(1) t False p s1 obtain u where
      nxt: "p = Inr u" "member_loop src env (cast_u32 (n + 1)) s2 = (Inr k, s')"
      by (subst (asm) member_loop.simps) (auto split: sum.splits)
    obtain ts m f xs where m: "member_declaration src env scope (set (ps_types s)) ts m" "moves s ts s2"
      "ps_context s2 = add_members [f] (add_modifiers xs (add_names (member_spelling m) (ps_context s)))"
      "length xs < length ts" "length (sx_names (ps_context s2)) \<le> u32_max" "member_shown (ps_context s2) f m"
      using parse_member_sound [OF p [unfolded nxt(1)] "1.prems"(2,3)] by blast
    have sc2: "in_scope scope s2" using "1.prems"(2) m(2) by (blast intro: in_scope_reads moves_reads)
    have ctx2: "sx_enum_values (ps_context s2) = sx_enum_values (ps_context s)"
      "length (sx_aggregate_members (ps_context s2)) = length (sx_aggregate_members (ps_context s)) + 1"
      "length (sx_type_modifiers (ps_context s2)) = length (sx_type_modifiers (ps_context s)) + length xs"
      by (simp_all add: m(3) add_members_def add_modifiers_def add_names_def)
    have room2: "room s2" by (rule room_moves [OF "1.prems"(3) m(2,5)]) (use ctx2 m(4) in simp_all)
    have len: "n + 1 + length (ps_rest s2) \<le> u32_max"
      using m(2,4) "1.prems"(4) by (simp add: moves_def reads_def)
    then have cast: "cast_u32 (n + 1) = n + 1" by simp
    have types: "ps_types s2 = ps_types s" using m(2) by (simp add: moves_def)
    from "1.IH" [OF t [symmetric] _ _ nxt sc2 room2] p False s1 nxt(1) len cast
    obtain us ms fs ys where rest: "member_declarations src env scope (set (ps_types s)) us ms" "moves s2 us s'"
      "ps_context s' = add_members fs (add_modifiers ys (add_names (members_spelling ms) (ps_context s2)))"
      "length ys \<le> length us" "length fs < length us" "length (sx_names (ps_context s')) \<le> u32_max"
      "list_all2 (member_shown (ps_context s')) fs ms" "k = n + 1 + length ms" by (auto simp: types)
    have "member_shown (ps_context s') f m"
      by (rule member_shown_mono [OF m(6)]) (simp add: rest(3) context_extends_def add_members_def add_modifiers_def add_names_def)
    moreover have "ps_context s' = add_members (f # fs) (add_modifiers (xs @ ys) (add_names (members_spelling (m # ms)) (ps_context s)))"
      by (simp add: rest(3) m(3) add_members_def add_modifiers_def add_names_def members_spelling_def)
    moreover have "member_declarations src env scope (set (ps_types s)) (ts @ us) (m # ms)"
      by (rule member_declarations.intros(2) [OF m(1) rest(1)])
    moreover have "moves s (ts @ us) s'" by (rule moves_trans [OF m(2) rest(2)])
    moreover have "length (xs @ ys) \<le> length (ts @ us)" "length (f # fs) < length (ts @ us)"
      using m(4) rest(4,5) by simp_all
    moreover have "k = n + length (m # ms)" using rest(8) by simp
    ultimately show ?thesis using rest(6,7)
      by (intro exI [of _ "ts @ us"] exI [of _ "m # ms"] exI [of _ "f # fs"] exI [of _ "xs @ ys"]) simp
  qed
qed

definition add_aggregate :: "aggregate_declaration_source_fact \<Rightarrow> source_context \<Rightarrow> source_context" where
  "add_aggregate f c = c\<lparr>sx_aggregates := sx_aggregates c @ [f]\<rparr>"

lemma aggregate_done_sound:
  assumes "aggregate_done d f s = (Inr u, s')"
  shows "moves s [] s' \<and> (\<exists>r. ps_context s' = add_aggregate (f\<lparr>adf_declaration_range := r\<rparr>) (ps_context s))"
  using push_sound [OF assms [unfolded aggregate_done_def]] by (auto simp: add_aggregate_def)

text \<open>The declaration after its name: a semicolon or the members.\<close>

definition struct_body ::
    "string \<Rightarrow> source_environment \<Rightarrow> string list \<Rightarrow> string set \<Rightarrow> parser_token list \<Rightarrow> aggregate_definition_state
     \<Rightarrow> member_meaning list \<Rightarrow> bool" where
  "struct_body src env scope types bs state ms \<longleftrightarrow>
     (state = Aggregate_declared \<and> ms = [] \<and> (\<exists>t. bs = [t] \<and> sign_token P_semicolon t)) \<or>
     (state = Aggregate_defined \<and> (\<exists>b ts t. bs = b # ts @ [t] \<and> sign_token P_left_brace b \<and>
        member_declarations src env scope types ts ms \<and> sign_token P_semicolon t))"

lemma parse_struct_rest_sound:
  assumes run: "parse_struct_rest src env d f s = (Inr u, s')" and scope: "in_scope scope s" and room: "room s"
    and f: "adf_member_count f = 0" "adf_member_offset f = 0"
  shows "\<exists>bs state ms g fs xs. struct_body src env scope (set (ps_types s)) bs state ms \<and> moves s bs s' \<and>
    ps_context s' = add_aggregate g (add_members fs (add_modifiers xs (add_names (members_spelling ms) (ps_context s)))) \<and>
    length xs \<le> length bs \<and> length fs \<le> length bs \<and> length (sx_names (ps_context s')) \<le> u32_max \<and>
    adf_canonical_name g = adf_canonical_name f \<and> adf_scope_name g = adf_scope_name f \<and> adf_definition_state g = state \<and>
    adf_member_count g = length ms \<and> list_all2 (member_shown (ps_context s')) (sx_members (ps_context s') g) ms"
proof -
  obtain semicolon s1 where t: "take_punctuation P_semicolon s = (semicolon, s1)" by force
  show ?thesis
  proof (cases semicolon)
    case True
    have r: "rests s [peek s] s1" "sign_token P_semicolon (peek s)"
      using take_punctuation_True [of P_semicolon s s1] t True by simp_all
    from run t True have fin: "aggregate_done d (f\<lparr>adf_definition_state := Aggregate_declared\<rparr>) s1 = (Inr u, s')"
      by (simp add: parse_struct_rest_def)
    from aggregate_done_sound [OF fin] obtain x where x: "moves s1 [] s'"
      "ps_context s' = add_aggregate (f\<lparr>adf_definition_state := Aggregate_declared, adf_declaration_range := x\<rparr>) (ps_context s1)" by auto
    have "moves s [peek s] s'" using r(1) x(1) by (simp add: rests_def moves_def reads_def)
    with r x(2) f room show ?thesis
      by (intro exI [of _ "[peek s]"] exI [of _ Aggregate_declared] exI [of _ "[]"]
          exI [of _ "f\<lparr>adf_definition_state := Aggregate_declared, adf_declaration_range := x\<rparr>"])
        (auto simp: struct_body_def rests_def add_members_def add_names_def members_spelling_def add_aggregate_def room_def
          sx_members_def fact_slice_def)
  next
    case False
    then have s1: "s1 = s" using take_punctuation_False [of P_semicolon s s1] t by simp
    obtain opened s2 where b: "take_punctuation P_left_brace s = (opened, s2)" by force
    have opened: opened using run t False b s1 by (auto simp: parse_struct_rest_def split: if_splits)
    have l: "rests s [peek s] s2" "sign_token P_left_brace (peek s)"
      using take_punctuation_True [of P_left_brace s s2] b opened by simp_all
    have off: "cast_u32 (length (sx_aggregate_members (ps_context s2))) = length (sx_aggregate_members (ps_context s))"
      using room l(1) by (simp add: room_def rests_def)
    let ?f = "f\<lparr>adf_member_offset := length (sx_aggregate_members (ps_context s))\<rparr>"
    from run t False b s1 opened off obtain n s3 s4 where
      loop: "member_loop src env 0 s2 = (Inr n, s3)" and semi: "take_punctuation P_semicolon s3 = (True, s4)"
      and fin: "aggregate_done d (?f\<lparr>adf_member_count := n, adf_definition_state := Aggregate_defined\<rparr>) s4 = (Inr u, s')"
      by (auto simp: parse_struct_rest_def Let_def split: prod.splits if_splits elim!: and_then_parse_InrE)
    have sc2: "in_scope scope s2" using scope l(1) by (blast intro: in_scope_reads moves_reads rests_moves)
    have room2: "room s2" using room l(1) by (simp add: room_def rests_def moves_def reads_def)
    then have "0 + length (ps_rest s2) \<le> u32_max" by (simp add: room_def)
    from member_loop_sound [OF loop sc2 room2 this] obtain ts ms fs xs where
      m: "member_declarations src env scope (set (ps_types s2)) ts ms" "moves s2 ts s3"
      "ps_context s3 = add_members fs (add_modifiers xs (add_names (members_spelling ms) (ps_context s2)))"
      "length xs \<le> length ts" "length fs < length ts" "length (sx_names (ps_context s3)) \<le> u32_max"
      "list_all2 (member_shown (ps_context s3)) fs ms" "n = length ms" by auto
    have s: "rests s3 [peek s3] s4" "sign_token P_semicolon (peek s3)"
      using take_punctuation_True [of P_semicolon s3 s4] semi by simp_all
    from aggregate_done_sound [OF fin] obtain x where x: "moves s4 [] s'"
      "ps_context s' = add_aggregate (?f\<lparr>adf_member_count := n, adf_definition_state := Aggregate_defined, adf_declaration_range := x\<rparr>) (ps_context s4)"
      (is "_ = add_aggregate ?g _") by auto
    have ctx: "ps_context s' = add_aggregate ?g (add_members fs (add_modifiers xs (add_names (members_spelling ms) (ps_context s))))"
      using x(2) s(1) m(3) l(1) by (simp add: rests_def)
    have "struct_body src env scope (set (ps_types s)) (peek s # ts @ [peek s3]) Aggregate_defined ms"
      using l m(1) s(2) by (simp add: struct_body_def rests_def moves_def)
    moreover have "moves s (peek s # ts @ [peek s3]) s'"
      using l(1) m(2) s(1) x(1) by (simp add: rests_def moves_def reads_def)
    moreover have "length (sx_names (ps_context s')) \<le> u32_max"
      using m(6) by (simp add: x(2) s(1) [unfolded rests_def] add_aggregate_def)
    moreover have "list_all2 (member_shown (ps_context s')) fs ms"
      using m(7) by (rule list_all2_weaken)
        (erule member_shown_mono, simp add: x(2) s(1) [unfolded rests_def] add_aggregate_def context_extends_def)
    moreover have "sx_members (ps_context s') ?g = fs"
      using list_all2_lengthD [OF m(7)] m(8)
      by (auto simp: ctx sx_members_def add_aggregate_def add_members_def add_modifiers_def add_names_def fact_slice_def)
    ultimately show ?thesis using ctx m(4,5,8)
      by (intro exI [of _ "peek s # ts @ [peek s3]"] exI [of _ Aggregate_defined] exI [of _ ms] exI [of _ ?g] exI [of _ fs] exI [of _ xs]) simp
  qed
qed

definition aggregate_spelling :: "aggregate_meaning \<Rightarrow> string" where
  "aggregate_spelling m = ag_name m @ ag_scope m @ members_spelling (ag_members m)"

lemma parse_struct_sound:
  assumes run: "parse_struct src env s = (Inr u, s')" and scope: "in_scope scope s" and room: "room s"
    and kind: "token_kind (peek s) = Tk_keyword_struct"
  shows "\<exists>ts m f fs xs. struct_declaration src env scope (set (ps_types s)) ts (set (ps_types s')) m \<and> reads s ts s' \<and>
    ps_context s' = add_aggregate f (add_members fs (add_modifiers xs (add_names (aggregate_spelling m) (ps_context s)))) \<and>
    length xs \<le> length ts \<and> length fs \<le> length ts \<and> length (sx_names (ps_context s')) \<le> u32_max \<and>
    aggregate_shown (ps_context s') f m"
proof -
  let ?s1 = "ps_advance s" let ?name = "peek ?s1" let ?q = "qualify scope (token_text src ?name)"
  from run have id: "identifier_token ?name" by (auto simp: parse_struct_def Let_def split: if_splits)
  with run obtain r s3 q s4 where
    d: "declare_type (token_text src ?name) (ps_advance ?s1) = (Inr r, s3)" and sn: "store_scope s3 = (Inr q, s4)"
    and rest: "parse_struct_rest src env (peek s)
      \<lparr>adf_canonical_name = r, adf_scope_name = q, adf_definition_state = Aggregate_declared, adf_member_offset = 0,
       adf_member_count = 0, adf_declaration_range = \<lparr>range_offset = token_offset (peek s), range_length = 0\<rparr>,
       adf_name_range = token_range ?name\<rparr> s4 = (Inr u, s')" (is "parse_struct_rest _ _ _ ?f _ = _")
    unfolding parse_struct_def Let_def by (auto elim!: and_then_parse_InrE)
  have "rests s [peek s] ?s1" using kind by (intro advance_rests peek_token(1)) simp
  moreover have "rests ?s1 [?name] (ps_advance ?s1)" using id by (intro advance_rests peek_token(1)) simp
  ultimately have two: "rests s [peek s, ?name] (ps_advance ?s1)" using rests_trans by fastforce
  have "in_scope scope (ps_advance ?s1)" using scope two by (blast intro: in_scope_reads moves_reads rests_moves)
  note d = declare_type_sound [OF d this]
  from d have le3: "length (sx_names (ps_context s3)) \<le> u32_max" by (elim conjE)
  have sc3: "in_scope scope s3" using scope two d by (simp add: in_scope_def rests_def moves_def reads_def)
  note sn = store_scope_sound [OF sn le3]
  have sc4: "in_scope scope s4" using sc3 sn by (blast intro: in_scope_reads moves_reads)
  have le4: "length (sx_names (ps_context s4)) \<le> u32_max" using sn by (elim conjE)
  have room4: "room s4"
    using room le4 two d sn by (simp add: room_def rests_def moves_def reads_def add_names_def)
  from parse_struct_rest_sound [OF rest sc4 room4] obtain bs state ms g fs xs where
    b: "struct_body src env scope (set (ps_types s4)) bs state ms" "moves s4 bs s'"
    "ps_context s' = add_aggregate g (add_members fs (add_modifiers xs (add_names (members_spelling ms) (ps_context s4))))"
    "length xs \<le> length bs" "length fs \<le> length bs" "length (sx_names (ps_context s')) \<le> u32_max"
    "adf_canonical_name g = r" "adf_scope_name g = q" "adf_definition_state g = state"
    "adf_member_count g = length ms" "list_all2 (member_shown (ps_context s')) (sx_members (ps_context s') g) ms" by auto
  let ?m = "\<lparr>ag_name = ?q, ag_scope = join scope, ag_state = state, ag_members = ms\<rparr>"
  have types: "set (ps_types s') = insert ?q (set (ps_types s))" "set (ps_types s4) = insert ?q (set (ps_types s))"
    using two d sn b(2) by (auto simp: rests_def moves_def)
  have "struct_declaration src env scope (set (ps_types s)) (peek s # ?name # bs) (set (ps_types s')) ?m"
    using b(1) struct_declaration.intros [OF kind id] unfolding types struct_body_def by auto
  moreover have "reads s (peek s # ?name # bs) s'"
    using two d sn b(2) by (simp add: rests_def moves_def reads_def)
  moreover have scn: "ps_scope s3 = join scope" using sc3 by (simp add: in_scope_def)
  moreover have "ps_context s' = add_aggregate g (add_members fs (add_modifiers xs (add_names (aggregate_spelling ?m) (ps_context s))))"
    using b(3) d sn two scn by (simp add: rests_def aggregate_spelling_def add_names_def)
  moreover have "aggregate_shown (ps_context s') g ?m"
  proof -
    have ext: "context_extends (ps_context s4) (ps_context s')" "context_extends (ps_context s3) (ps_context s')"
      using sn by (simp_all add: b(3) context_extends_def add_aggregate_def add_members_def add_modifiers_def add_names_def)
    have "resolves (ps_context s3) r ?q" using d by (elim conjE)
    moreover have "scope_shown (ps_context s4) q (join scope)" using sn unfolding scn by (elim conjE)
    ultimately show ?thesis
      using b(7-11) ext by (auto simp: aggregate_shown_def intro: resolves_mono scope_shown_mono)
  qed
  ultimately show ?thesis using b(4,5,6)
    by (intro exI [of _ "peek s # ?name # bs"] exI [of _ ?m] exI [of _ g] exI [of _ fs] exI [of _ xs]) simp
qed

section \<open>Units\<close>

definition unit_bytes :: "unit_meaning \<Rightarrow> nat" where
  "unit_bytes m = sum_list (map (length \<circ> enum_spelling) (fst m)) + sum_list (map (length \<circ> aggregate_spelling) (snd m))"

lemma unit_bytes_join: "unit_bytes (join_meanings a b) = unit_bytes a + unit_bytes b"
  by (simp add: unit_bytes_def join_meanings_def)

text \<open>From one context to a later one: the facts in between show a meaning.\<close>

definition shows_more :: "source_context \<Rightarrow> source_context \<Rightarrow> unit_meaning \<Rightarrow> bool" where
  "shows_more c d m \<longleftrightarrow>
     context_extends c d \<and> length (sx_names d) = length (sx_names c) + unit_bytes m \<and>
     (\<exists>es as. sx_enums d = sx_enums c @ es \<and> sx_aggregates d = sx_aggregates c @ as \<and>
        list_all2 (enum_shown d) es (fst m) \<and> list_all2 (aggregate_shown d) as (snd m))"

lemma shows_more_refl: "shows_more c c ([], [])"
  by (simp add: shows_more_def unit_bytes_def)

lemma shows_more_trans:
  assumes "shows_more c d a" "shows_more d e b"
  shows "shows_more c e (join_meanings a b)"
proof -
  obtain es as where a: "sx_enums d = sx_enums c @ es" "sx_aggregates d = sx_aggregates c @ as"
    "list_all2 (enum_shown d) es (fst a)" "list_all2 (aggregate_shown d) as (snd a)"
    using assms(1) by (auto simp: shows_more_def)
  obtain es' as' where b: "sx_enums e = sx_enums d @ es'" "sx_aggregates e = sx_aggregates d @ as'"
    "list_all2 (enum_shown e) es' (fst b)" "list_all2 (aggregate_shown e) as' (snd b)"
    using assms(2) by (auto simp: shows_more_def)
  have ext: "context_extends d e" using assms(2) by (simp add: shows_more_def)
  have "list_all2 (enum_shown e) es (fst a)" "list_all2 (aggregate_shown e) as (snd a)"
    using a(3,4) ext by (auto elim!: list_all2_weaken intro: enum_shown_mono aggregate_shown_mono)
  with a(1,2) b assms show ?thesis
    by (auto simp: shows_more_def join_meanings_def unit_bytes_def intro: context_extends_trans list_all2_appendI)
qed

text \<open>What a routine that reads declarations has done when it returns.\<close>

definition unit_read ::
    "string \<Rightarrow> parser_state \<Rightarrow> parser_token list \<Rightarrow> parser_state \<Rightarrow> unit_meaning \<Rightarrow> bool" where
  "unit_read src s ts t m \<longleftrightarrow>
     reads s ts t \<and> room t \<and> (\<forall>x \<in> set (ps_rest t). token_wf src x) \<and> shows_more (ps_context s) (ps_context t) m"

lemma unit_read_trans:
  "unit_read src s ts t a \<Longrightarrow> unit_read src t us u b \<Longrightarrow> unit_read src s (ts @ us) u (join_meanings a b)"
  by (auto simp: unit_read_def intro: reads_trans shows_more_trans)

lemma room_reads:
  assumes "room s" "reads s ts t" "length (sx_names (ps_context t)) \<le> u32_max"
    "length (sx_enum_values (ps_context t)) \<le> length (sx_enum_values (ps_context s)) + length ts"
    "length (sx_aggregate_members (ps_context t)) \<le> length (sx_aggregate_members (ps_context s)) + length ts"
    "length (sx_type_modifiers (ps_context t)) \<le> length (sx_type_modifiers (ps_context s)) + length ts"
  shows "room t"
  using assms by (simp add: room_def reads_def)

lemma enumerators_length: "enumerators src env scope own nxt ts vs \<Longrightarrow> length vs < length ts"
  by (induction rule: enumerators.induct) auto

lemma enum_declaration_length: "enum_declaration src env scope ts m \<Longrightarrow> length (em_values m) \<le> length ts"
  by (auto elim!: enum_declaration.cases enum_body.cases dest!: enumerators_length)

lemma parse_enum_read:
  assumes "parse_enum src env s = (Inr u, s')" "in_scope scope s" "room s"
    "token_kind (peek s) = Tk_keyword_enum" "\<forall>t \<in> set (ps_rest s). token_wf src t"
  shows "\<exists>ts m. declared src env scope (set (ps_types s)) ts (set (ps_types s')) m \<and> unit_read src s ts s' m"
proof -
  obtain ts m f fs where e: "enum_declaration src env scope ts m" "reads s ts s'"
    "set (ps_types s') = declared_types m (set (ps_types s))"
    "ps_context s' = add_enum f (add_values fs (add_names (enum_spelling m) (ps_context s)))"
    "length fs = length (em_values m)" "length (sx_names (ps_context s')) \<le> u32_max" "enum_shown (ps_context s') f m"
    using parse_enum_sound [OF assms] by blast
  have "room s'"
    by (rule room_reads [OF assms(3) e(2,6)])
      (use e(5) enum_declaration_length [OF e(1)] in \<open>simp_all add: e(4) add_enum_def add_values_def add_names_def\<close>)
  moreover have "shows_more (ps_context s) (ps_context s') ([m], [])"
    using e(7) by (simp add: shows_more_def e(4) unit_bytes_def context_extends_def add_enum_def add_values_def add_names_def)
  moreover have "declared src env scope (set (ps_types s)) ts (set (ps_types s')) ([m], [])"
    unfolding e(3) by (rule declarations_declared.intros(3) [OF e(1)])
  ultimately show ?thesis using e(2) assms(5) by (intro exI conjI) (auto simp: unit_read_def reads_def)
qed

lemma parse_struct_read:
  assumes "parse_struct src env s = (Inr u, s')" "in_scope scope s" "room s"
    "token_kind (peek s) = Tk_keyword_struct" "\<forall>t \<in> set (ps_rest s). token_wf src t"
  shows "\<exists>ts m. declared src env scope (set (ps_types s)) ts (set (ps_types s')) m \<and> unit_read src s ts s' m"
proof -
  obtain ts m f fs xs where e: "struct_declaration src env scope (set (ps_types s)) ts (set (ps_types s')) m" "reads s ts s'"
    "ps_context s' = add_aggregate f (add_members fs (add_modifiers xs (add_names (aggregate_spelling m) (ps_context s))))"
    "length xs \<le> length ts" "length fs \<le> length ts" "length (sx_names (ps_context s')) \<le> u32_max" "aggregate_shown (ps_context s') f m"
    using parse_struct_sound [OF assms(1-4)] by blast
  have "room s'"
    by (rule room_reads [OF assms(3) e(2,6)])
      (use e(4,5) in \<open>simp_all add: e(3) add_aggregate_def add_members_def add_modifiers_def add_names_def\<close>)
  moreover have "shows_more (ps_context s) (ps_context s') ([], [m])"
    using e(7) by (simp add: shows_more_def e(3) unit_bytes_def context_extends_def add_aggregate_def add_members_def
        add_modifiers_def add_names_def)
  ultimately show ?thesis using e(1,2) assms(5) declarations_declared.intros(4) [OF e(1)]
    by (intro exI conjI) (auto simp: unit_read_def reads_def)
qed

lemma enter_scope_True:
  assumes "enter_scope x s = (True, t)" "in_scope scope s" "plain_name x"
  shows "in_scope (scope @ [x]) t \<and> ps_rest t = ps_rest s \<and> ps_context t = ps_context s \<and> ps_types t = ps_types s \<and>
    take (length (ps_scope s)) (ps_scope t) = ps_scope s"
proof -
  obtain ok u where a: "ps_allocate s = (ok, u)" by force
  obtain mem where u: "u = s\<lparr>ps_memory := mem\<rparr>" using ps_allocate_memory [OF a] by blast
  with assms(1) a have t: "t = u\<lparr>ps_scope := qualified_name (ps_scope s) x\<rparr>"
    by (auto simp: enter_scope_def split: if_splits)
  have "take (length (ps_scope s)) (qualified_name (ps_scope s) x) = ps_scope s"
    by (simp add: qualified_name_def)
  with assms(2,3) show ?thesis by (simp add: t u in_scope_def qualified_join qualify_def)
qed

lemma unit_read_scope:
  assumes "unit_read src s ts t m" "in_scope scope s"
  shows "in_scope scope t \<and> room t \<and> (\<forall>x \<in> set (ps_rest t). token_wf src x)"
  using assms by (auto simp: unit_read_def intro: in_scope_reads)

lemma parse_namespace_step:
  assumes run: "parse_namespace (Suc n) src env s = Some (Inr u, s')" and scope: "in_scope scope s" "room s"
    and wf: "\<forall>t \<in> set (ps_rest s). token_wf src t" and kind: "token_kind (peek s) = Tk_keyword_namespace"
    and inner: "\<And>u t t' sc. parse_unit n src env True t = Some (Inr u, t') \<Longrightarrow> in_scope sc t \<Longrightarrow> room t \<Longrightarrow>
      \<forall>x \<in> set (ps_rest t). token_wf src x \<Longrightarrow>
      \<exists>ts m. declarations src env sc (set (ps_types t)) ts (set (ps_types t')) m \<and> unit_read src t ts t' m"
  shows "\<exists>ts m. declared src env scope (set (ps_types s)) ts (set (ps_types s')) m \<and> unit_read src s ts s' m"
proof -
  let ?s1 = "ps_advance s" let ?name = "peek ?s1"
  from run obtain s2 s3 s4 s5 v where id: "identifier_token ?name"
    and enter: "enter_scope (token_text src ?name) ?s1 = (True, s2)"
    and lb: "take_punctuation P_left_brace (ps_advance s2) = (True, s3)"
    and unit: "parse_unit n src env True s3 = Some (Inr v, s4)"
    and rb: "take_punctuation P_right_brace s4 = (True, s5)"
    and s': "s' = s5\<lparr>ps_scope := take (length (ps_scope ?s1)) (ps_scope s5)\<rparr>"
    by (auto simp: Let_def split: if_splits prod.splits option.splits sum.splits)
  have k: "rests s [peek s] ?s1" using kind by (intro advance_rests peek_token(1)) simp
  have i: "rests ?s1 [?name] (ps_advance ?s1)" using id by (intro advance_rests peek_token(1)) simp
  have "?name \<in> set (ps_rest s)" using k i by (simp add: rests_def moves_def reads_def)
  with wf id have plain: "plain_name (token_text src ?name)" by (simp add: token_wf_def)
  have "in_scope scope ?s1" using scope(1) k by (blast intro: in_scope_reads moves_reads rests_moves)
  note e = enter_scope_True [OF enter this plain]
  have "ps_rest s2 = ?name # ps_rest (ps_advance ?s1)" using e i by (simp add: rests_def moves_def reads_def)
  then have a: "ps_rest (ps_advance s2) = ps_rest (ps_advance ?s1)" by (simp add: ps_advance_def)
  have l: "rests (ps_advance s2) [peek (ps_advance s2)] s3" "sign_token P_left_brace (peek (ps_advance s2))"
    using take_punctuation_True [OF lb] by simp_all
  have rest3: "ps_rest s = peek s # ?name # peek (ps_advance s2) # ps_rest s3"
    using k i a l(1) by (simp add: rests_def moves_def reads_def)
  have ctx3: "ps_context s3 = ps_context s" "ps_types s3 = ps_types s" "ps_scope s3 = ps_scope s2"
    using k e l(1) by (simp_all add: rests_def moves_def reads_def ps_advance_def)
  have sc3: "in_scope (scope @ [token_text src ?name]) s3" using e ctx3(3) by (simp add: in_scope_def)
  have "room s3" using scope(2) rest3 by (simp add: room_def ctx3)
  from inner [OF unit sc3 this] wf rest3 obtain ts m where
    d: "declarations src env (scope @ [token_text src ?name]) (set (ps_types s3)) ts (set (ps_types s4)) m" "unit_read src s3 ts s4 m"
    by auto
  have r: "rests s4 [peek s4] s5" "sign_token P_right_brace (peek s4)"
    using take_punctuation_True [OF rb] by simp_all
  have keep: "ps_rest s' = ps_rest s5" "ps_context s' = ps_context s4" "ps_types s' = ps_types s4"
    using r(1) by (simp_all add: s' rests_def moves_def)
  have "ps_scope s5 = ps_scope s2" using r(1) d(2) ctx3(3) by (simp add: unit_read_def rests_def moves_def reads_def)
  then have scope': "ps_scope s' = ps_scope s" using e k by (simp add: s' rests_def moves_def reads_def)
  have "declared src env scope (set (ps_types s)) (peek s # ?name # peek (ps_advance s2) # ts @ [peek s4]) (set (ps_types s')) m"
    unfolding keep using declarations_declared.intros(5) [OF kind id l(2) d(1) r(2)] by (simp add: ctx3)
  moreover have "unit_read src s (peek s # ?name # peek (ps_advance s2) # ts @ [peek s4]) s' m"
    using d(2) r(1) rest3 scope'
    by (auto simp: unit_read_def keep ctx3 room_def rests_def moves_def reads_def)
  ultimately show ?thesis by blast
qed

lemma parse_unit_step:
  assumes run: "parse_unit (Suc n) src env nested s = Some (Inr u, s')" and scope: "in_scope scope s" "room s"
    and wf: "\<forall>t \<in> set (ps_rest s). token_wf src t"
    and inner: "\<And>u s'. parse_namespace n src env s = Some (Inr u, s') \<Longrightarrow> token_kind (peek s) = Tk_keyword_namespace \<Longrightarrow>
      \<exists>ts m. declared src env scope (set (ps_types s)) ts (set (ps_types s')) m \<and> unit_read src s ts s' m"
    and later: "\<And>u t t'. parse_unit n src env nested t = Some (Inr u, t') \<Longrightarrow> in_scope scope t \<Longrightarrow> room t \<Longrightarrow>
      \<forall>x \<in> set (ps_rest t). token_wf src x \<Longrightarrow>
      \<exists>ts m. declarations src env scope (set (ps_types t)) ts (set (ps_types t')) m \<and> unit_read src t ts t' m \<and>
        (token_kind (peek t') = Tk_eof \<or> nested \<and> sign_token P_right_brace (peek t'))"
  shows "\<exists>ts m. declarations src env scope (set (ps_types s)) ts (set (ps_types s')) m \<and> unit_read src s ts s' m \<and>
    (token_kind (peek s') = Tk_eof \<or> nested \<and> sign_token P_right_brace (peek s'))"
proof (cases "token_kind (peek s) = Tk_eof \<or> nested \<and> sign_token P_right_brace (peek s)")
  case True
  with run have "s' = s" by auto
  with True scope(2) wf show ?thesis
    by (intro exI [of _ "[]"] exI [of _ "([], [])"])
      (auto simp: unit_read_def reads_def shows_more_refl intro: declarations_declared.intros(1))
next
  case False
  from run False obtain v s1 where s1: "parse_unit n src env nested s1 = Some (Inr u, s')"
    and d: "token_kind (peek s) = Tk_keyword_enum \<and> parse_enum src env s = (Inr v, s1) \<or>
      token_kind (peek s) = Tk_keyword_struct \<and> parse_struct src env s = (Inr v, s1) \<or>
      token_kind (peek s) = Tk_keyword_namespace \<and> parse_namespace n src env s = Some (Inr v, s1)"
    by (auto split: if_splits option.splits prod.splits sum.splits)
  have "\<exists>ts m. declared src env scope (set (ps_types s)) ts (set (ps_types s1)) m \<and> unit_read src s ts s1 m"
    using d parse_enum_read [OF _ scope _ wf] parse_struct_read [OF _ scope _ wf] inner by blast
  then obtain ts a where a: "declared src env scope (set (ps_types s)) ts (set (ps_types s1)) a" "unit_read src s ts s1 a" by blast
  from later [OF s1] unit_read_scope [OF a(2) scope(1)] obtain us b where
    b: "declarations src env scope (set (ps_types s1)) us (set (ps_types s')) b" "unit_read src s1 us s' b"
      "token_kind (peek s') = Tk_eof \<or> nested \<and> sign_token P_right_brace (peek s')" by blast
  show ?thesis
    using declarations_declared.intros(2) [OF a(1) b(1)] unit_read_trans [OF a(2) b(2)] b(3) by blast
qed

lemma parse_unit_read:
  "(\<forall>nested s u s' scope. parse_unit n src env nested s = Some (Inr u, s') \<longrightarrow> in_scope scope s \<longrightarrow> room s \<longrightarrow>
      (\<forall>t \<in> set (ps_rest s). token_wf src t) \<longrightarrow>
      (\<exists>ts m. declarations src env scope (set (ps_types s)) ts (set (ps_types s')) m \<and> unit_read src s ts s' m \<and>
        (token_kind (peek s') = Tk_eof \<or> nested \<and> sign_token P_right_brace (peek s')))) \<and>
   (\<forall>s u s' scope. parse_namespace n src env s = Some (Inr u, s') \<longrightarrow> in_scope scope s \<longrightarrow> room s \<longrightarrow>
      (\<forall>t \<in> set (ps_rest s). token_wf src t) \<longrightarrow> token_kind (peek s) = Tk_keyword_namespace \<longrightarrow>
      (\<exists>ts m. declared src env scope (set (ps_types s)) ts (set (ps_types s')) m \<and> unit_read src s ts s' m))"
proof (induction n)
  case (Suc n)
  show ?case
  proof (intro conjI allI impI)
    fix nested s u s' scope
    assume A: "parse_unit (Suc n) src env nested s = Some (Inr u, s')" "in_scope scope s" "room s" "\<forall>t \<in> set (ps_rest s). token_wf src t"
    show "\<exists>ts m. declarations src env scope (set (ps_types s)) ts (set (ps_types s')) m \<and> unit_read src s ts s' m \<and>
        (token_kind (peek s') = Tk_eof \<or> nested \<and> sign_token P_right_brace (peek s'))"
      by (rule parse_unit_step [OF A]) (use Suc A(2-4) in blast)+
  next
    fix s u s' scope
    assume A: "parse_namespace (Suc n) src env s = Some (Inr u, s')" "in_scope scope s" "room s"
      "\<forall>t \<in> set (ps_rest s). token_wf src t" "token_kind (peek s) = Tk_keyword_namespace"
    show "\<exists>ts m. declared src env scope (set (ps_types s)) ts (set (ps_types s')) m \<and> unit_read src s ts s' m"
      by (rule parse_namespace_step [OF A]) (use Suc in blast)
  qed
qed simp

end
