(* ===== verification/ParserComplete.thy ===== *)
theory ParserComplete
  imports ParserMembers
begin

text \<open>
  What is derivable is accepted: on tokens with a derivation in the grammar, and with no failing
  allocation, every routine of the parser returns a result and has read exactly those tokens.
\<close>

section \<open>Running the parser on given tokens\<close>

lemma peek_Cons [simp]: "ps_rest s = t # r \<Longrightarrow> peek s = t"
  by (simp add: peek_def)

lemma advance_Cons: "ps_rest s = t # r \<Longrightarrow> ps_advance s = s\<lparr>ps_rest := r\<rparr>"
  by (simp add: ps_advance_def)

lemma take_punctuation_Cons:
  "ps_rest s = t # r \<Longrightarrow> take_punctuation p s = (if sign_token p t then (True, s\<lparr>ps_rest := r\<rparr>) else (False, s))"
  by (simp add: take_punctuation_def advance_Cons)

lemma take_kind_Cons:
  "ps_rest s = t # r \<Longrightarrow> take_kind k s = (if token_kind t = k then (True, s\<lparr>ps_rest := r\<rparr>) else (False, s))"
  by (simp add: take_kind_def advance_Cons)

lemmas parse_Cons = advance_Cons take_punctuation_Cons take_kind_Cons

lemma sees_rest [simp]: "sees env (s\<lparr>ps_rest := r\<rparr>) = sees env s"
  by (rule sees_cong) simp_all

text \<open>The first token after a construct.\<close>

abbreviation next_sign :: "parser_token list \<Rightarrow> parser_punctuation" where
  "next_sign r \<equiv> token_punctuation (case r of [] \<Rightarrow> no_token | t # _ \<Rightarrow> t)"

abbreviation next_kind :: "parser_token list \<Rightarrow> parser_token_kind" where
  "next_kind r \<equiv> token_kind (case r of [] \<Rightarrow> no_token | t # _ \<Rightarrow> t)"

lemma take_punctuation_other:
  "next_sign (ps_rest s) \<noteq> p \<Longrightarrow> take_punctuation p s = (False, s)"
  by (cases "ps_rest s") (auto simp: take_punctuation_def peek_def)

section \<open>Expressions\<close>

lemma parse_underlying_complete:
  assumes "underlying_type src us t" "ps_rest s = us @ r" "next_kind r \<noteq> Tk_identifier"
  shows "\<exists>x. parse_underlying src s = (Inr (t, x), s\<lparr>ps_rest := r\<rparr>)"
proof -
  have k: "token_kind (peek (s\<lparr>ps_rest := r\<rparr>)) \<noteq> Tk_identifier" using assms(3) by (simp add: peek_def)
  have id: "list_all identifier_token us" and w: "(map (token_text src) us, t) \<in> set underlying_words"
    using assms(1) by (simp_all add: underlying_type_def)
  consider a where "us = [a]" | a b where "us = [a, b]" | a b c where "us = [a, b, c]"
    using w by (auto simp: underlying_words_def map_eq_Cons_conv)
  then show ?thesis
  proof cases
    case 1
    with assms(2) id w k show ?thesis
      by (auto simp: underlying_words_def parse_underlying_def parse_unsigned_def peek_word_def parse_Cons Let_def)
  next
    case 2
    with assms(2) id w k show ?thesis
      by (auto simp: underlying_words_def parse_underlying_def parse_unsigned_def peek_word_def parse_Cons Let_def)
  next
    case 3
    with assms(2) id w k show ?thesis
      by (auto simp: underlying_words_def parse_underlying_def parse_unsigned_def peek_word_def parse_Cons Let_def)
  qed
qed

lemma parse_primary_complete:
  assumes "operand src (sees env s) ts v" "ps_rest s = ts @ r" "\<forall>t \<in> set ts. token_wf src t"
  shows "parse_primary src env s = (Inr v, s\<lparr>ps_rest := r\<rparr>)"
  using assms(1)
proof cases
  case (small t n)
  have "n \<le> 9223372036854775807" using small(5) by (simp add: word_le_def)
  moreover have "token_punctuation t \<noteq> P_minus" using assms(3) small(1,3) by (auto simp: token_wf_def)
  ultimately show ?thesis
    using small assms(2) by (simp add: parse_primary_def parse_number_def parse_Cons Let_def signed_literal_def)
next
  case (large t n)
  have "\<not> n \<le> 9223372036854775807" using large(5) by (simp add: word_le_def)
  moreover have "token_punctuation t \<noteq> P_minus" using assms(3) large(1,3) by (auto simp: token_wf_def)
  ultimately show ?thesis
    using large assms(2) by (simp add: parse_primary_def parse_number_def parse_Cons Let_def unsigned_literal_def)
next
  case (negative m t n)
  have "\<not> n > push_bit 63 1" using negative(6) by (simp add: word_less_def push_bit_eq_mult)
  moreover have "0 - n = word_of_int (- uint n)" by simp
  ultimately show ?thesis
    using negative assms(2) by (simp add: parse_primary_def parse_number_def parse_Cons Let_def signed_literal_def)
next
  case (named t)
  have "token_punctuation t \<noteq> P_minus" using assms(3) named(1,2) by (auto simp: token_wf_def)
  moreover have "lookup_constant env (token_text src t) (token_offset t) (s\<lparr>ps_rest := r\<rparr>) = Some v"
    using named(3) by (simp add: fun_cong [OF fun_cong [OF sees_rest]])
  ultimately show ?thesis
    using named assms(2) by (simp add: parse_primary_def parse_Cons Let_def)
qed

lemma parse_sum_step:
  assumes "sign_token P_plus p" "operand src (sees env s) us w" "sum_constants v w = Some x"
    "ps_rest s = p # us @ r" "\<forall>t \<in> set us. token_wf src t"
  shows "parse_sum src env v s = parse_sum src env x (s\<lparr>ps_rest := r\<rparr>)"
proof -
  have "parse_primary src env (s\<lparr>ps_rest := us @ r\<rparr>) = (Inr w, s\<lparr>ps_rest := r\<rparr>)"
    using parse_primary_complete [of src env "s\<lparr>ps_rest := us @ r\<rparr>" us w r] assms by simp
  with assms show ?thesis
    by (subst parse_sum.simps) (simp add: parse_Cons add_constant_sum)
qed

lemma parse_expression_sum:
  assumes "sum_expression src (sees env s) ts v" "ps_rest s = ts @ r" "\<forall>t \<in> set ts. token_wf src t"
  shows "parse_expression src env s = parse_sum src env v (s\<lparr>ps_rest := r\<rparr>)"
  using assms
proof (induction ts v arbitrary: r rule: sum_expression.induct)
  case (operand ts v)
  then show ?case using parse_primary_complete [of src env s ts v r]
    by (simp add: parse_expression_def and_then_parse_def)
next
  case (added ts v p us w x)
  have "parse_expression src env s = parse_sum src env v (s\<lparr>ps_rest := p # us @ r\<rparr>)"
    using added.IH [of "p # us @ r"] added.prems by simp
  also have "\<dots> = parse_sum src env x (s\<lparr>ps_rest := r\<rparr>)"
    using parse_sum_step [of p src env "s\<lparr>ps_rest := p # us @ r\<rparr>" us w v x r] added by simp
  finally show ?case .
qed

lemma parse_expression_complete:
  assumes "sum_expression src (sees env s) ts v" "ps_rest s = ts @ r" "\<forall>t \<in> set ts. token_wf src t"
    "next_sign r \<noteq> P_plus"
  shows "parse_expression src env s = (Inr v, s\<lparr>ps_rest := r\<rparr>)"
proof -
  have "take_punctuation P_plus (s\<lparr>ps_rest := r\<rparr>) = (False, s\<lparr>ps_rest := r\<rparr>)"
    by (rule take_punctuation_other) (simp add: assms(4))
  then show ?thesis
    unfolding parse_expression_sum [OF assms(1-3)] by (subst parse_sum.simps) simp
qed

lemma parse_initializer_complete:
  assumes "initializer src (sees env s) nxt us v" "ps_rest s = us @ r" "\<forall>t \<in> set us. token_wf src t"
    "next_sign r \<noteq> P_plus" "next_sign r \<noteq> P_equal"
  shows "\<exists>x. parse_initializer src env name nxt s = (Inr (v, x), s\<lparr>ps_rest := r\<rparr>)"
  using assms(1)
proof cases
  case implicit
  then have "take_punctuation P_equal s = (False, s)" using assms by (intro take_punctuation_other) simp
  then show ?thesis using implicit assms(2) by (simp add: parse_initializer_def)
next
  case (explicit e ts)
  have "parse_expression src env (s\<lparr>ps_rest := ts @ r\<rparr>) = (Inr v, s\<lparr>ps_rest := r\<rparr>)"
    using parse_expression_complete [of src env "s\<lparr>ps_rest := ts @ r\<rparr>" ts v r] explicit assms by simp
  then show ?thesis
    using explicit assms(2) by (simp add: parse_initializer_def parse_Cons Let_def and_then_parse_def)
qed

lemma parse_separator_complete:
  assumes "separator nxt v sep t w" "ps_rest s = sep @ t # r"
  shows "parse_separator name nxt v s = (Inr w, s\<lparr>ps_rest := t # r\<rparr>)"
  using assms(1)
  by cases (use assms(2) in \<open>auto simp: parse_separator_def parse_Cons increment_constant_successor\<close>)

section \<open>Storing without failures\<close>

text \<open>No allocation fails and \<open>b\<close> more bytes of names fit.\<close>

definition ready :: "nat \<Rightarrow> parser_state \<Rightarrow> bool" where
  "ready b s \<longleftrightarrow> ps_memory s = [] \<and> length (sx_names (ps_context s)) + b \<le> u32_max"

text \<open>From \<open>s\<close> to \<open>t\<close> only \<open>r\<close> is left to read and \<open>b\<close> bytes of names are stored.\<close>

definition gets :: "parser_state \<Rightarrow> parser_token list \<Rightarrow> nat \<Rightarrow> parser_state \<Rightarrow> bool" where
  "gets s r b t \<longleftrightarrow>
     ps_rest t = r \<and> ps_scope t = ps_scope s \<and> ps_memory t = ps_memory s \<and>
     length (sx_names (ps_context t)) = length (sx_names (ps_context s)) + b"

lemma gets_trans: "gets s q a t \<Longrightarrow> gets t r b u \<Longrightarrow> gets s r (a + b) u"
  by (simp add: gets_def)

lemma ready_gets: "ready (a + b) s \<Longrightarrow> gets s r a t \<Longrightarrow> ready b t"
  by (simp add: ready_def gets_def)

lemma ready_less: "ready b s \<Longrightarrow> a \<le> b \<Longrightarrow> ready a s"
  by (simp add: ready_def)

lemma push_complete: "ps_memory s = [] \<Longrightarrow> push f s = (Inr (), update_context f s)"
  by (simp add: push_def ps_allocate_Nil)

lemma keep_constant_complete:
  "ps_memory s = [] \<Longrightarrow> keep_constant n v s = (Inr (), s\<lparr>ps_constants := um_emplace n v (ps_constants s)\<rparr>)"
  by (simp add: keep_constant_def ps_allocate_Nil)

lemma store_name_complete:
  "ready (length n) s \<Longrightarrow> n \<noteq> [] \<Longrightarrow>
   \<exists>r. store_name n s = (Inr r, s\<lparr>ps_context := add_names n (ps_context s)\<rparr>)"
  by (auto simp: ready_def store_name_def ps_allocate_Nil sx_store_name_def add_names_def)

lemma gets_update_context:
  "gets s r b t \<Longrightarrow> sx_names (f (ps_context t)) = sx_names (ps_context t) \<Longrightarrow> gets s r b (update_context f t)"
  by (simp add: gets_def update_context_def)

section \<open>Enumerations\<close>

lemma parse_enumerator_complete:
  assumes id: "identifier_token name" "token_wf src name" and fresh: "map_of (ps_constants s) (token_text src name) = None"
    and init: "initializer src (sees env s) nxt us v" "\<forall>x \<in> set us. token_wf src x" and sep: "separator nxt v sep t w"
    and rest: "ps_rest s = name # us @ sep @ t # r" and room: "ready (length (token_text src name)) s"
  shows "\<exists>s'. parse_enumerator src env nxt s = (Inr w, s') \<and> gets s (t # r) (length (token_text src name)) s' \<and>
    ps_types s' = ps_types s \<and> map_of (ps_constants s') = (map_of (ps_constants s))(token_text src name \<mapsto> v)"
proof -
  let ?n = "token_text src name"
  let ?s1 = "s\<lparr>ps_rest := us @ sep @ t # r\<rparr>"
  have "?n \<noteq> []" using id by (simp add: token_wf_def plain_name_def)
  with room obtain q where st: "store_name ?n ?s1 = (Inr q, ?s1\<lparr>ps_context := add_names ?n (ps_context s)\<rparr>)" (is "_ = (_, ?s2)")
    using store_name_complete [of ?n ?s1] by (auto simp: ready_def)
  have signs: "next_sign (sep @ t # r) \<noteq> P_plus" "next_sign (sep @ t # r) \<noteq> P_equal"
    using sep by (auto elim!: separator.cases)
  have "sees env ?s2 = sees env s" by (rule sees_cong) simp_all
  with init(1) have "initializer src (sees env ?s2) nxt us v" by simp
  from parse_initializer_complete [OF this _ init(2) signs] obtain x where
    i: "parse_initializer src env name nxt ?s2 = (Inr (v, x), ?s2\<lparr>ps_rest := sep @ t # r\<rparr>)" by auto
  let ?s3 = "?s2\<lparr>ps_rest := sep @ t # r\<rparr>" let ?s4 = "?s3\<lparr>ps_constants := um_emplace ?n v (ps_constants s)\<rparr>"
  have mem: "ps_memory ?s3 = []" "ps_memory ?s4 = []" using room by (simp_all add: ready_def)
  have k: "keep_constant ?n v ?s3 = (Inr (), ?s4)" using keep_constant_complete [OF mem(1)] by simp
  let ?f = "add_value \<lparr>evf_name = q, evf_value = v, evf_name_range = token_range name, evf_expression_range = x\<rparr>"
  let ?s5 = "update_context ?f ?s4"
  have "parse_separator name nxt v ?s5 = (Inr w, ?s5\<lparr>ps_rest := t # r\<rparr>)"
    by (rule parse_separator_complete [OF sep]) (simp add: update_context_def)
  with st i k push_complete [OF mem(2), of ?f] have
    "parse_enumerator src env nxt s = (Inr w, ?s5\<lparr>ps_rest := t # r\<rparr>)"
    using id(1) rest fresh by (simp add: parse_enumerator_def parse_Cons Let_def and_then_parse_def add_value_def [abs_def])
  moreover have "gets s (t # r) (length ?n) (?s5\<lparr>ps_rest := t # r\<rparr>)"
    by (simp add: gets_def update_context_def add_value_def add_names_def)
  ultimately show ?thesis
    using fresh by (intro exI [of _ "?s5\<lparr>ps_rest := t # r\<rparr>"])
      (auto simp: update_context_def um_lookup_emplace fun_eq_iff)
qed

lemma enumerator_loop_complete:
  assumes "enumerators src env scope own nxt ts vs" "in_scope scope s" "map_of (ps_constants s) = map_of own"
    "ps_rest s = ts @ r" "\<forall>x \<in> set ts. token_wf src x" "ready (length (names_of vs)) s"
  shows "\<exists>k s'. enumerator_loop src env nxt n s = (Inr k, s') \<and> gets s r (length (names_of vs)) s' \<and> ps_types s' = ps_types s"
  using assms
proof (induction own nxt ts vs arbitrary: s n rule: enumerators.induct)
  case (close t own nxt)
  then show ?case
    by (subst enumerator_loop.simps) (simp add: parse_Cons gets_def names_of_def)
next
  case (item name own nxt us v sep t nxt' ts vs)
  let ?n = "token_text src name"
  have fresh: "map_of (ps_constants s) ?n = None" using item by (simp add: map_of_eq_None_iff)
  have look: "initializer src (sees env s) nxt us v"
    using item(3) sees_in_scope [of scope s own env] item.prems(1,2) by (simp add: in_scope_def)
  have rest: "ps_rest s = name # us @ sep @ t # (ts @ r)" using item.prems(3) by simp
  have room: "ready (length ?n + length (names_of vs)) s" using item.prems(5) by (simp add: names_of_def)
  obtain s1 where s1: "parse_enumerator src env nxt s = (Inr nxt', s1)" "gets s (t # ts @ r) (length ?n) s1"
    "ps_types s1 = ps_types s" "map_of (ps_constants s1) = (map_of (ps_constants s))(?n \<mapsto> v)"
    using parse_enumerator_complete [OF item(1) _ fresh look _ item(4) rest ready_less [OF room]] item.prems(4) by auto
  have own: "map_of (ps_constants s1) = map_of (own @ [(?n, v)])"
    using s1(4) item.prems(2) map_of_snoc_new [of own ?n v] fresh by (simp del: map_of_append)
  have "in_scope scope s1" using item.prems(1) s1(2) by (simp add: in_scope_def gets_def)
  from item.IH [OF this own _ _ ready_gets [OF room s1(2)], of "cast_u32 (n + 1)"] s1(2) item.prems(4) obtain k s2 where
    s2: "enumerator_loop src env nxt' (cast_u32 (n + 1)) s1 = (Inr k, s2)" "gets s1 r (length (names_of vs)) s2" "ps_types s2 = ps_types s1"
    by (auto simp: gets_def)
  have "token_punctuation name \<noteq> P_right_brace" using item(1) item.prems(4) by (auto simp: token_wf_def)
  then have "enumerator_loop src env nxt n s = (Inr k, s2)"
    using rest s1(1) s2(1) by (subst enumerator_loop.simps) (simp add: take_punctuation_Cons)
  moreover have "gets s r (length (names_of ((?n, v) # vs))) s2"
    using gets_trans [OF s1(2) s2(2)] by (simp add: names_of_def)
  ultimately show ?case using s1(3) s2(3) by auto
qed

lemma store_scope_complete:
  assumes "in_scope scope s" "ready (length (join scope)) s"
  shows "\<exists>r. store_scope s = (Inr r, s\<lparr>ps_context := add_names (join scope) (ps_context s)\<rparr>)"
proof (cases "join scope = []")
  case True
  then show ?thesis using assms(1) by (simp add: store_scope_def in_scope_def add_names_def)
next
  case False
  then show ?thesis using assms store_name_complete [of "join scope" s] by (simp add: store_scope_def in_scope_def)
qed

lemma qualify_nonempty: "list_all plain_name scope \<Longrightarrow> plain_name n \<Longrightarrow> qualify scope n \<noteq> []"
  using join_empty [of "scope @ [n]"] by (simp add: qualify_def)

lemma declare_type_complete:
  assumes "in_scope scope s" "ready (length (qualify scope n)) s" "plain_name n"
  shows "\<exists>r. declare_type n s = (Inr r, s\<lparr>ps_context := add_names (qualify scope n) (ps_context s),
    ps_types := List.insert (qualify scope n) (ps_types s)\<rparr>)"
proof -
  have q: "qualified_name (ps_scope s) n = qualify scope n" "qualify scope n \<noteq> []"
    using assms by (simp_all add: in_scope_def qualified_join qualify_nonempty)
  obtain r where "store_name (qualify scope n) s = (Inr r, s\<lparr>ps_context := add_names (qualify scope n) (ps_context s)\<rparr>)"
    using store_name_complete [OF assms(2) q(2)] by blast
  moreover have "ps_memory s = []" using assms(2) by (simp add: ready_def)
  ultimately show ?thesis
    by (simp add: declare_type_def store_qualified_def register_local_type_def ps_allocate_Nil q and_then_parse_def)
qed

lemma enum_done_complete:
  "ps_memory s = [] \<Longrightarrow> \<exists>s'. enum_done f s = (Inr (), s') \<and> gets s (ps_rest s) 0 s' \<and> ps_types s' = ps_types s"
  by (simp add: enum_done_def push_complete gets_def update_context_def)

lemma parse_enum_rest_complete:
  assumes body: "enum_body src env scope (\<not> edf_anonymous f \<and> (edf_scoped f \<or> edf_explicit_underlying f \<noteq> None)) bs state vs"
    and scope: "in_scope scope s" and rest: "ps_rest s = bs @ r" and wf: "\<forall>x \<in> set bs. token_wf src x"
    and room: "ready (length (names_of vs)) s"
  shows "\<exists>s'. parse_enum_rest src env d f s = (Inr (), s') \<and> gets s r (length (names_of vs)) s' \<and> ps_types s' = ps_types s"
  using body
proof cases
  case (opaque t)
  let ?s1 = "s\<lparr>ps_rest := r\<rparr>"
  have "ps_memory ?s1 = []" using room by (simp add: ready_def)
  from enum_done_complete [OF this, of "f\<lparr>edf_definition_state := Enum_opaque\<rparr>"] obtain s' where
    "enum_done (f\<lparr>edf_definition_state := Enum_opaque\<rparr>) ?s1 = (Inr (), s')" "gets ?s1 r 0 s'" "ps_types s' = ps_types s" by auto
  with opaque rest show ?thesis by (auto simp: parse_enum_rest_def parse_Cons gets_def names_of_def)
next
  case (defined b ts t)
  let ?s1 = "s\<lparr>ps_rest := ts @ t # r, ps_constants := []\<rparr>"
  have "in_scope scope ?s1" "ready (length (names_of vs)) ?s1" using scope room by (simp_all add: in_scope_def ready_def)
  from enumerator_loop_complete [OF defined(4) this(1) _ _ _ this(2), where r = "t # r" and n = 0] wf defined(1) obtain k s2 where
    s2: "enumerator_loop src env (signed_literal 0) 0 ?s1 = (Inr k, s2)" "gets ?s1 (t # r) (length (names_of vs)) s2" "ps_types s2 = ps_types s"
    by auto
  have start: "\<lparr>constant_type = Long_long_integer, constant_bits = 0\<rparr> = signed_literal 0" by (simp add: signed_literal_def)
  let ?s3 = "s2\<lparr>ps_rest := r\<rparr>"
  have "ps_memory ?s3 = []" using room s2(2) by (simp add: ready_def gets_def)
  from enum_done_complete [OF this, of "f\<lparr>edf_enumerator_count := k\<rparr>"] obtain s' where
    "enum_done (f\<lparr>edf_enumerator_count := k\<rparr>) ?s3 = (Inr (), s')" "gets ?s3 r 0 s'" "ps_types s' = ps_types s" using s2(3) by auto
  moreover have "take_punctuation P_semicolon s2 = (True, ?s3)" using s2(2) defined(5) by (simp add: gets_def take_punctuation_Cons)
  ultimately show ?thesis
    using defined(1,3) rest s2(1,2) by (auto simp: parse_enum_rest_def parse_Cons start and_then_parse_def gets_def)
qed

lemma sign_kind: "token_wf src t \<Longrightarrow> sign_token p t \<Longrightarrow> p \<noteq> P_none \<Longrightarrow> token_kind t = Tk_punctuation"
  by (auto simp: token_wf_def)

lemma enum_body_first:
  assumes "enum_body src env scope q bs state vs" "\<forall>x \<in> set bs. token_wf src x"
  obtains t ts where "bs = t # ts" "token_kind t = Tk_punctuation" "sign_token P_semicolon t \<or> sign_token P_left_brace t"
  using assms by (cases rule: enum_body.cases) (auto dest: sign_kind)

text \<open>The optional parts in front of a body, given the kind of the token after them.\<close>

lemma take_class_complete:
  assumes "optional_class cs scoped" "ps_rest s = cs @ r" "next_kind r \<noteq> Tk_keyword_class"
  shows "take_kind Tk_keyword_class s = (scoped, s\<lparr>ps_rest := r\<rparr>)"
  using assms(1)
proof cases
  case 1
  then show ?thesis using assms(2,3) by (cases r) (simp_all add: take_kind_def peek_def)
next
  case (2 t)
  then show ?thesis using assms(2) by (simp add: take_kind_Cons)
qed

lemma parse_optional_underlying_complete:
  assumes "optional_underlying src us b" "ps_rest s = us @ r" "next_sign r \<noteq> P_colon" "next_kind r \<noteq> Tk_identifier"
  shows "\<exists>x. parse_optional_underlying src s = (Inr (b, x), s\<lparr>ps_rest := r\<rparr>)"
  using assms(1)
proof cases
  case 1
  then have "take_punctuation P_colon s = (False, s)" using assms by (intro take_punctuation_other) simp
  then show ?thesis using 1 assms(2) by (simp add: parse_optional_underlying_def)
next
  case (2 c us' t)
  then obtain x where "parse_underlying src (s\<lparr>ps_rest := us' @ r\<rparr>) = (Inr (t, x), s\<lparr>ps_rest := r\<rparr>)"
    using parse_underlying_complete [of src us' t "s\<lparr>ps_rest := us' @ r\<rparr>" r] assms(4) by auto
  then show ?thesis using 2 assms(2) by (simp add: parse_optional_underlying_def take_punctuation_Cons and_then_parse_def)
qed

lemma declare_optional_complete:
  assumes "in_scope scope s" "ready (length (case map_option (qualify scope) name of None \<Rightarrow> [] | Some n \<Rightarrow> n)) s"
    "case name of None \<Rightarrow> True | Some n \<Rightarrow> plain_name n \<and> n = w"
  shows "\<exists>q s'. (if name = None then finish no_name else declare_type w) s = (Inr q, s') \<and>
    gets s (ps_rest s) (length (case map_option (qualify scope) name of None \<Rightarrow> [] | Some n \<Rightarrow> n)) s' \<and>
    set (ps_types s') = (case map_option (qualify scope) name of None \<Rightarrow> set (ps_types s) | Some n \<Rightarrow> insert n (set (ps_types s)))"
proof (cases name)
  case None
  then show ?thesis by (simp add: gets_def)
next
  case (Some n)
  with assms declare_type_complete [of scope s n] show ?thesis by (auto simp: gets_def add_names_def)
qed

lemma parse_enum_complete:
  assumes decl: "enum_declaration src env scope ts m" and scope: "in_scope scope s" and rest: "ps_rest s = ts @ r"
    and wf: "\<forall>x \<in> set ts. token_wf src x" and room: "ready (length (enum_spelling m)) s"
  shows "\<exists>s'. parse_enum src env s = (Inr (), s') \<and> gets s r (length (enum_spelling m)) s' \<and>
    set (ps_types s') = declared_types m (set (ps_types s))"
  using decl
proof cases
  case (1 k cs scoped ns name us underlying bs state vs)
  obtain b bs' where b: "bs = b # bs'" "token_kind b = Tk_punctuation" "sign_token P_semicolon b \<or> sign_token P_left_brace b"
    using enum_body_first [OF 1(7)] wf 1(1) by auto
  have colon: "us = [] \<or> (\<exists>c us'. us = c # us' \<and> token_kind c = Tk_punctuation)"
    using 1(6) wf by (auto simp: 1(1) elim!: optional_underlying.cases dest: sign_kind)
  let ?q = "case map_option (qualify scope) name of None \<Rightarrow> [] | Some n \<Rightarrow> n"
  have len: "enum_spelling m = join scope @ ?q @ names_of vs" by (simp add: enum_spelling_def 1(2))
  let ?s1 = "s\<lparr>ps_rest := cs @ ns @ us @ bs @ r\<rparr>" let ?s2 = "s\<lparr>ps_rest := ns @ us @ bs @ r\<rparr>" let ?s3 = "s\<lparr>ps_rest := us @ bs @ r\<rparr>"
    and ?s4 = "s\<lparr>ps_rest := bs @ r\<rparr>"
  have a: "ps_advance s = ?s1" "peek s = k" using rest by (simp_all add: 1(1) advance_Cons)
  have cls: "take_kind Tk_keyword_class ?s1 = (scoped, ?s2)"
    using take_class_complete [OF 1(4), of ?s1 "ns @ us @ bs @ r"] 1(5) colon b by (auto elim!: optional_name.cases)
  have nm: "name = (if identifier_token (peek ?s2) then Some (token_text src (peek ?s2)) else None)"
    "(if identifier_token (peek ?s2) then ps_advance ?s2 else ?s2) = ?s3"
    "identifier_token (peek ?s2) \<Longrightarrow> ns = [peek ?s2]"
    using 1(5) colon b by (auto elim!: optional_name.cases simp: advance_Cons peek_def)
  let ?name = "if identifier_token (peek ?s2) then peek ?s2 else no_token"
  have anon: "token_length ?name = 0 \<longleftrightarrow> name = None"
    and plain: "case name of None \<Rightarrow> True | Some n \<Rightarrow> plain_name n \<and> n = token_text src ?name"
  proof -
    have "token_wf src (peek ?s2)" if i: "identifier_token (peek ?s2)"
    proof -
      have "peek ?s2 \<in> set ns" by (subst nm(3) [OF i]) simp
      then show ?thesis using wf by (simp add: 1(1))
    qed
    then show "token_length ?name = 0 \<longleftrightarrow> name = None" "case name of None \<Rightarrow> True | Some n \<Rightarrow> plain_name n \<and> n = token_text src ?name"
      unfolding nm(1) by (auto simp: token_wf_def no_token_def)
  qed
  obtain x where u: "parse_optional_underlying src ?s3 = (Inr (underlying, x), ?s4)"
    using parse_optional_underlying_complete [OF 1(6), of ?s3 "bs @ r"] b by auto
  have "ready (length (join scope)) ?s4" "in_scope scope ?s4" using room scope by (simp_all add: ready_def len in_scope_def)
  then obtain sr where sc: "store_scope ?s4 = (Inr sr, ?s4\<lparr>ps_context := add_names (join scope) (ps_context s)\<rparr>)" (is "_ = (_, ?s5)")
    using store_scope_complete [of scope ?s4] by auto
  have "in_scope scope ?s5" "ready (length ?q) ?s5" using scope room by (simp_all add: in_scope_def ready_def len add_names_def)
  from declare_optional_complete [OF this plain] obtain q s6 where
    d: "(if name = None then finish no_name else declare_type (token_text src ?name)) ?s5 = (Inr q, s6)"
    "gets ?s5 (ps_rest ?s5) (length ?q) s6" "set (ps_types s6) = (case map_option (qualify scope) name of None \<Rightarrow> set (ps_types ?s5) | Some n \<Rightarrow> insert n (set (ps_types ?s5)))"
    by blast
  have sc6: "in_scope scope s6" "ps_rest s6 = bs @ r" "ready (length (names_of vs)) s6"
    using scope room d(2) by (simp_all add: in_scope_def gets_def ready_def len add_names_def)
  let ?f = "\<lparr>edf_canonical_name = q, edf_scope_name = sr, edf_anonymous = (name = None), edf_scoped = scoped,
    edf_definition_state = Enum_defined, edf_explicit_underlying = underlying,
    edf_enumerator_offset = cast_u32 (length (sx_enum_values (ps_context s6))), edf_enumerator_count = 0,
    edf_declaration_range = \<lparr>range_offset = token_offset k, range_length = 0\<rparr>,
    edf_name_range = token_range ?name, edf_underlying_range = x\<rparr>"
  have "enum_body src env scope (\<not> edf_anonymous ?f \<and> (edf_scoped ?f \<or> edf_explicit_underlying ?f \<noteq> None)) bs state vs"
    using 1(7) by simp
  from parse_enum_rest_complete [OF this sc6(1,2) _ sc6(3), of k] wf 1(1) obtain s' where
    fin: "parse_enum_rest src env k ?f s6 = (Inr (), s')" "gets s6 r (length (names_of vs)) s'" "ps_types s' = ps_types s6" by auto
  have "parse_enum src env s = (Inr (), s')"
    using u sc d(1) fin(1) by (simp add: parse_enum_def Let_def a cls nm(2) anon and_then_parse_def)
  moreover have "gets s r (length (enum_spelling m)) s'"
    using d(2) fin(2) by (simp add: gets_def len add_names_def)
  moreover have "set (ps_types s') = declared_types m (set (ps_types s))"
    using d(3) fin(3) by (simp add: declared_types_def 1(2) split: option.splits)
  ultimately show ?thesis by blast
qed

section \<open>Aggregates\<close>

lemma push_modifier_complete:
  "ps_memory s = [] \<Longrightarrow> push_modifier k p x s =
     (Inr (), update_context (add_modifiers [\<lparr>smf_kind = k, smf_payload = p, smf_range = x\<rparr>]) s)"
  by (simp add: push_modifier_def push_complete add_modifiers_def [abs_def])

text \<open>The modifiers read so far are exactly those of the member, and hold no reference.\<close>

definition unreferenced :: "member_declaration_source_fact \<Rightarrow> parser_state \<Rightarrow> bool" where
  "unreferenced m s \<longleftrightarrow>
     mdf_modifier_offset m + mdf_modifier_count m = length (sx_type_modifiers (ps_context s)) \<and>
     length (sx_type_modifiers (ps_context s)) + length (ps_rest s) \<le> u32_max \<and>
     (\<forall>x \<in> set (sx_modifiers (ps_context s) m).
        smf_kind x \<noteq> Modifier_lvalue_reference \<and> smf_kind x \<noteq> Modifier_rvalue_reference)"

lemma unreferenced_after: "unreferenced m s \<Longrightarrow> \<not> after_reference m s"
  by (auto simp: unreferenced_def after_reference_def Let_def)

lemma fact_slice_snoc:
  "i + n = length xs \<Longrightarrow> fact_slice i (Suc n) (xs @ [x]) = fact_slice i n xs @ [x]"
  by (auto simp: fact_slice_def)

lemma unreferenced_push:
  assumes "unreferenced m s" "ps_rest s = ts @ ps_rest t" "ts \<noteq> []"
    "ps_context t = add_modifiers [x] (ps_context s)" "smf_kind x = Modifier_pointer \<or> smf_kind x = Modifier_array"
  shows "unreferenced (count_modifier m) t"
proof -
  have n: "cast_u32 (mdf_modifier_count m + 1) = mdf_modifier_count m + 1"
    using assms(1-3) by (cases ts) (auto simp: unreferenced_def)
  have "sx_modifiers (ps_context t) (count_modifier m) = sx_modifiers (ps_context s) m @ [x]"
    using assms(1) n unfolding unreferenced_def sx_modifiers_def assms(4)
    by (simp add: add_modifiers_def count_modifier_def fact_slice_snoc)
  with assms n show ?thesis
    by (cases ts) (auto simp: unreferenced_def add_modifiers_def count_modifier_def)
qed

lemma unreferenced_cong:
  "mdf_modifier_offset m' = mdf_modifier_offset m \<Longrightarrow> mdf_modifier_count m' = mdf_modifier_count m \<Longrightarrow>
   sx_type_modifiers (ps_context t) = sx_type_modifiers (ps_context s) \<Longrightarrow> length (ps_rest t) \<le> length (ps_rest s) \<Longrightarrow>
   unreferenced m s \<Longrightarrow> unreferenced m' t"
  by (simp add: unreferenced_def sx_modifiers_def)

lemma pointer_loop_complete:
  assumes "list_all (sign_token P_asterisk) ps" "ps_rest s = ps @ r" "next_sign r \<noteq> P_asterisk"
    "ps_memory s = []" "unreferenced m s"
  shows "\<exists>m' s'. pointer_loop m s = (Inr m', s') \<and> gets s r 0 s' \<and> ps_types s' = ps_types s \<and> unreferenced m' s'"
  using assms
proof (induction ps arbitrary: m s)
  case Nil
  then have "\<not> sign_token P_asterisk (peek s)" by (simp add: peek_def)
  then show ?case using Nil by (subst pointer_loop.simps) (simp add: gets_def)
next
  case (Cons t ps)
  let ?s1 = "update_context (add_modifiers [\<lparr>smf_kind = Modifier_pointer, smf_payload = 0, smf_range = token_range t\<rparr>]) (s\<lparr>ps_rest := ps @ r\<rparr>)"
  let ?m = "extend_type_range (token_offset t + token_length t) (count_modifier m)"
  have "unreferenced (count_modifier m) ?s1"
    by (rule unreferenced_push [OF Cons.prems(5), of "[t]"]) (use Cons.prems(2) in \<open>auto simp: update_context_def\<close>)
  then have "unreferenced ?m ?s1" by (rule unreferenced_cong [rotated -1]) (simp_all add: extend_type_range_def)
  from Cons.IH [OF _ _ Cons.prems(3) _ this] Cons.prems obtain m' s' where
    "pointer_loop ?m ?s1 = (Inr m', s')" "gets ?s1 r 0 s'" "ps_types s' = ps_types ?s1" "unreferenced m' s'"
    by (auto simp: update_context_def)
  moreover have "push_modifier Modifier_pointer 0 (token_range t) (s\<lparr>ps_rest := ps @ r\<rparr>) = (Inr (), ?s1)"
    by (rule push_modifier_complete) (simp add: Cons.prems(4))
  ultimately show ?case
    using Cons.prems(1,2) by (subst pointer_loop.simps) (auto simp: advance_Cons gets_def update_context_def add_modifiers_def)
qed

lemma parse_reference_complete:
  assumes "reference_modifier rs refs" "ps_rest s = rs @ r" "next_sign r \<noteq> P_ampersand" "ps_memory s = []" "unreferenced m s"
  shows "\<exists>m' s'. parse_reference m s = (Inr m', s') \<and> gets s r 0 s' \<and> ps_types s' = ps_types s \<and>
    (refs = [] \<longrightarrow> unreferenced m' s')"
  using assms(1)
proof cases
  case 1
  then have "\<not> sign_token P_ampersand (peek s)" using assms(2,3) by (simp add: peek_def)
  then show ?thesis using 1 assms by (simp add: parse_reference_def gets_def)
next
  case (2 a)
  then have "\<not> sign_token P_ampersand (peek (s\<lparr>ps_rest := r\<rparr>))" using assms(3) by (simp add: peek_def)
  with 2 assms(2,4) show ?thesis
    by (simp add: parse_reference_def advance_Cons Let_def and_then_parse_def push_modifier_complete gets_def
        update_context_def add_modifiers_def)
next
  case (3 a b)
  with assms(2,4) show ?thesis
    by (simp add: parse_reference_def advance_Cons Let_def and_then_parse_def push_modifier_complete gets_def
        update_context_def add_modifiers_def)
qed

lemma extent_loop_complete:
  assumes "array_modifiers src as arrays" "ps_rest s = as @ r" "next_sign r \<noteq> P_left_bracket" "ps_memory s = []"
    "arrays \<noteq> [] \<longrightarrow> unreferenced m s"
  shows "\<exists>m' s'. extent_loop src m s = (Inr m', s') \<and> gets s r 0 s' \<and> ps_types s' = ps_types s"
  using assms
proof (induction as arrays arbitrary: m s rule: array_modifiers.induct)
  case 1
  then have "take_punctuation P_left_bracket s = (False, s)" by (intro take_punctuation_other) simp
  then show ?case using 1 by (subst extent_loop.simps) (simp add: gets_def)
next
  case (2 a t n b ts ms)
  let ?s1 = "s\<lparr>ps_rest := t # b # ts @ r\<rparr>" let ?s2 = "s\<lparr>ps_rest := ts @ r\<rparr>"
  let ?x = "\<lparr>range_offset = token_offset a, range_length = sub_u32 (token_offset b + token_length b) (token_offset a)\<rparr>"
  let ?s3 = "update_context (add_modifiers [\<lparr>smf_kind = Modifier_array, smf_payload = n, smf_range = ?x\<rparr>]) ?s2"
  have un: "unreferenced m s" using "2.prems"(4) by simp
  then have "unreferenced m ?s2" by (rule unreferenced_cong [rotated -1]) (use "2.prems"(1) in simp_all)
  then have after: "\<not> after_reference m ?s2" by (rule unreferenced_after)
  have next3: "unreferenced (count_modifier m) ?s3"
    by (rule unreferenced_push [OF un, of "[a, t, b]"]) (use "2.prems"(1) in \<open>auto simp: update_context_def\<close>)
  have push: "push_modifier Modifier_array n ?x ?s2 = (Inr (), ?s3)"
    by (rule push_modifier_complete) (simp add: "2.prems"(3))
  have "parse_extent src a m ?s1 = (Inr (count_modifier m), ?s3)"
    using 2(2-5) after push by (simp add: parse_extent_def advance_Cons Let_def and_then_parse_def)
  moreover from "2.IH" [of ?s3 "count_modifier m"] "2.prems" next3 obtain m' s' where
    "extent_loop src (count_modifier m) ?s3 = (Inr m', s')" "gets ?s3 r 0 s'" "ps_types s' = ps_types ?s3"
    by (auto simp: update_context_def)
  ultimately show ?case
    using 2(1) "2.prems"(1) by (subst extent_loop.simps)
      (auto simp: take_punctuation_Cons Let_def gets_def update_context_def add_modifiers_def)
qed

lemma parse_member_type_complete:
  assumes "base_type src env scope types t base" "in_scope scope s" "set (ps_types s) = types"
    "ready (length (case base of Inl _ \<Rightarrow> [] | Inr c \<Rightarrow> c)) s"
  shows "\<exists>m' s'. parse_member_type src env t m s = (Inr m', s') \<and>
    gets s (ps_rest s) (length (case base of Inl _ \<Rightarrow> [] | Inr c \<Rightarrow> c)) s' \<and> ps_types s' = ps_types s \<and>
    mdf_modifier_offset m' = mdf_modifier_offset m \<and> mdf_modifier_count m' = mdf_modifier_count m \<and>
    sx_type_modifiers (ps_context s') = sx_type_modifiers (ps_context s)"
  using assms(1)
proof cases
  case 1
  then show ?thesis by (simp add: parse_member_type_def gets_def)
next
  case (2 c)
  obtain x s1 where l: "lookup_type_from env (token_text src t) (token_offset t) (join scope) s = (x, s1)" by force
  have "ps_memory s = []" using assms(4) by (simp add: ready_def)
  with lookup_type_join [OF _ assms(3) l] assms(2) 2(4) have "x = Some c" "s1 = s" by (auto simp: in_scope_def)
  with l have "lookup_type env (token_text src t) (token_offset t) s = (Some c, s)"
    using assms(2) by (simp add: lookup_type_def in_scope_def)
  moreover obtain q where "store_name c s = (Inr q, s\<lparr>ps_context := add_names c (ps_context s)\<rparr>)"
    using store_name_complete [of c s] assms(4) 2(1,5) by auto
  ultimately show ?thesis
    using 2 by (simp add: parse_member_type_def and_then_parse_def gets_def add_names_def)
qed

lemma member_done_complete:
  assumes "ps_rest s = t # r" "sign_token P_semicolon t" "ps_memory s = []"
  shows "\<exists>s'. member_done start m s = (Inr (), s') \<and> gets s r 0 s' \<and> ps_types s' = ps_types s"
  using assms by (simp add: member_done_def take_punctuation_Cons push_complete gets_def update_context_def)

lemma array_modifiers_first:
  "array_modifiers src as arrays \<Longrightarrow> as = [] \<or> (\<exists>a as'. as = a # as' \<and> sign_token P_left_bracket a)"
  by (auto elim: array_modifiers.cases)

lemma reference_modifier_first:
  "reference_modifier rs refs \<Longrightarrow> rs = [] \<or> (\<exists>a rs'. rs = a # rs' \<and> sign_token P_ampersand a)"
  by (auto elim: reference_modifier.cases)

lemma parse_member_complete:
  assumes decl: "member_declaration src env scope types ts mm" and scope: "in_scope scope s" "set (ps_types s) = types"
    and rest: "ps_rest s = ts @ r" and wf: "\<forall>x \<in> set ts. token_wf src x" and bytes: "ready (length (member_spelling mm)) s"
    and room: "length (sx_type_modifiers (ps_context s)) + length (ps_rest s) \<le> u32_max"
  shows "\<exists>s'. parse_member src env s = (Inr (), s') \<and> gets s r (length (member_spelling mm)) s' \<and> ps_types s' = ps_types s"
  using decl
proof cases
  case (1 b base ps rs refs name as arrays t)
  let ?c = "case base of Inl _ \<Rightarrow> [] | Inr c \<Rightarrow> c" let ?n = "token_text src name"
  have len: "length (member_spelling mm) = length ?c + length ?n" by (simp add: 1(2) member_spelling_def)
  let ?s1 = "s\<lparr>ps_rest := ps @ rs @ name # as @ t # r\<rparr>"
  have s: "ps_rest s = b # ps @ rs @ name # as @ t # r" using rest 1(1) by simp
  have id: "identifier_token b" "identifier_token name" using 1(3,6) by (auto elim: base_type.cases)
  have plain: "?n \<noteq> []" "token_punctuation name = P_none" using id(2) wf by (auto simp: 1(1) token_wf_def plain_name_def)
  let ?m = "\<lparr>mdf_name = no_name, mdf_type_name = no_name, mdf_builtin = None,
    mdf_modifier_offset = cast_u32 (length (sx_type_modifiers (ps_context s))), mdf_modifier_count = 0,
    mdf_declaration_range = no_text_range, mdf_name_range = no_text_range, mdf_type_range = token_range b\<rparr>"
  have "in_scope scope ?s1" "set (ps_types ?s1) = types" "ready (length ?c) ?s1"
    using scope bytes by (simp_all add: in_scope_def ready_def len)
  from parse_member_type_complete [OF 1(3) this, of ?m] obtain m1 s1 where
    m1: "parse_member_type src env b ?m ?s1 = (Inr m1, s1)" "gets ?s1 (ps_rest ?s1) (length ?c) s1" "ps_types s1 = ps_types s"
    "mdf_modifier_offset m1 = mdf_modifier_offset ?m" "mdf_modifier_count m1 = 0"
    "sx_type_modifiers (ps_context s1) = sx_type_modifiers (ps_context s)" by auto
  have un1: "unreferenced m1 s1"
    using room m1(2,4,5) by (auto simp: unreferenced_def m1(6) gets_def s sx_modifiers_def fact_slice_def)
  have mem1: "ps_memory s1 = []" using bytes m1(2) by (simp add: ready_def gets_def)
  have nx: "next_sign (rs @ name # as @ t # r) \<noteq> P_asterisk" "next_sign (name # as @ t # r) \<noteq> P_ampersand"
    "next_sign (t # r) \<noteq> P_left_bracket"
    using reference_modifier_first [OF 1(5)] plain(2) 1(9) by auto
  from pointer_loop_complete [OF 1(4) _ nx(1) mem1 un1] m1(2) obtain m2 s2 where
    m2: "pointer_loop m1 s1 = (Inr m2, s2)" "gets s1 (rs @ name # as @ t # r) 0 s2" "ps_types s2 = ps_types s1" "unreferenced m2 s2"
    by (auto simp: gets_def)
  have mem2: "ps_memory s2 = []" using mem1 m2(2) by (simp add: gets_def)
  from parse_reference_complete [OF 1(5) _ nx(2) mem2 m2(4)] m2(2) obtain m3 s3 where
    m3: "parse_reference m2 s2 = (Inr m3, s3)" "gets s2 (name # as @ t # r) 0 s3" "ps_types s3 = ps_types s2" "refs = [] \<longrightarrow> unreferenced m3 s3"
    by (auto simp: gets_def)
  have rest3: "ps_rest s3 = name # as @ t # r" using m3(2) by (simp add: gets_def)
  have g3: "gets s (name # as @ t # r) (length ?c) s3" using m1(2) m2(2) m3(2) by (simp add: gets_def)
  let ?s3 = "s3\<lparr>ps_rest := as @ t # r\<rparr>"
  have "ready (length ?n) ?s3" using bytes g3 by (simp add: ready_def gets_def len)
  from store_name_complete [OF this plain(1)] obtain q where
    q: "store_name ?n ?s3 = (Inr q, ?s3\<lparr>ps_context := add_names ?n (ps_context s3)\<rparr>)" (is "_ = (_, ?s4)") by auto
  let ?m4 = "m3\<lparr>mdf_name := q, mdf_name_range := token_range name\<rparr>"
  have m4: "parse_member_name src m3 s3 = (Inr ?m4, ?s4)"
    using q id(2) rest3 by (simp add: parse_member_name_def Let_def advance_Cons and_then_parse_def)
  have "arrays \<noteq> [] \<longrightarrow> unreferenced ?m4 ?s4"
  proof
    assume "arrays \<noteq> []"
    then have "unreferenced m3 s3" using 1(8) m3(4) by blast
    then show "unreferenced ?m4 ?s4" by (rule unreferenced_cong [rotated -1]) (simp_all add: add_names_def rest3)
  qed
  from extent_loop_complete [OF 1(7) _ nx(3) _ this] g3 bytes obtain m5 s5 where
    m5: "extent_loop src ?m4 ?s4 = (Inr m5, s5)" "gets ?s4 (t # r) 0 s5" "ps_types s5 = ps_types ?s4"
    by (auto simp: gets_def ready_def)
  have "ps_rest s5 = t # r" "ps_memory s5 = []" using m5(2) g3 bytes by (simp_all add: gets_def ready_def)
  from member_done_complete [OF this(1) 1(9) this(2), of b m5] obtain s6 where
    s6: "member_done b m5 s5 = (Inr (), s6)" "gets s5 r 0 s6" "ps_types s6 = ps_types s5" by blast
  have "parse_member src env s = (Inr (), s6)"
    using m1(1) m2(1) m3(1) m4 m5(1) s6(1) id(1) s by (simp add: parse_member_def Let_def advance_Cons and_then_parse_def)
  moreover have "gets s r (length (member_spelling mm)) s6"
    using g3 m5(2) s6(2) by (simp add: gets_def len add_names_def)
  moreover have "ps_types s6 = ps_types s" using m1(3) m2(3) m3(3) m5(3) s6(3) by simp
  ultimately show ?thesis by blast
qed

lemma member_declaration_first:
  "member_declaration src env scope types ts mm \<Longrightarrow> \<exists>b ts'. ts = b # ts' \<and> identifier_token b"
  by (auto elim!: member_declaration.cases base_type.cases)

lemma parse_member_room:
  assumes "parse_member src env s = (Inr u, s')" "in_scope scope s" "room s"
  shows "room s'"
proof -
  obtain ts m f xs where m: "moves s ts s'"
    "ps_context s' = add_members [f] (add_modifiers xs (add_names (member_spelling m) (ps_context s)))"
    "length xs < length ts" "length (sx_names (ps_context s')) \<le> u32_max"
    using parse_member_sound [OF assms] by blast
  show ?thesis
    by (rule room_moves [OF assms(3) m(1,4)]) (use m(3) in \<open>simp_all add: m(2) add_members_def add_modifiers_def add_names_def\<close>)
qed

lemma member_loop_complete:
  assumes "member_declarations src env scope types ts ms" "in_scope scope s" "set (ps_types s) = types"
    "ps_rest s = ts @ r" "\<forall>x \<in> set ts. token_wf src x" "ready (length (members_spelling ms)) s" "room s"
  shows "\<exists>k s'. member_loop src env n s = (Inr k, s') \<and> gets s r (length (members_spelling ms)) s' \<and> ps_types s' = ps_types s"
  using assms
proof (induction ts ms arbitrary: s n rule: member_declarations.induct)
  case (1 t)
  then show ?case by (subst member_loop.simps) (simp add: take_punctuation_Cons gets_def members_spelling_def)
next
  case (2 ts m us ms)
  have bytes: "ready (length (member_spelling m) + length (members_spelling ms)) s"
    using "2.prems"(5) by (simp add: members_spelling_def)
  have rest: "ps_rest s = ts @ us @ r" using "2.prems"(3) by simp
  from parse_member_complete [OF 2(1) "2.prems"(1,2) rest _ ready_less [OF bytes]] "2.prems"(4,6) obtain s1 where
    s1: "parse_member src env s = (Inr (), s1)" "gets s (us @ r) (length (member_spelling m)) s1" "ps_types s1 = ps_types s"
    by (auto simp: room_def)
  have sc1: "in_scope scope s1" "set (ps_types s1) = types" "ps_rest s1 = us @ r"
    using "2.prems"(1,2) s1(2,3) by (simp_all add: in_scope_def gets_def)
  from "2.IH" [OF sc1 _ ready_gets [OF bytes s1(2)] parse_member_room [OF s1(1) "2.prems"(1,6)], of "cast_u32 (n + 1)"] "2.prems"(4)
  obtain k s2 where s2: "member_loop src env (cast_u32 (n + 1)) s1 = (Inr k, s2)" "gets s1 r (length (members_spelling ms)) s2"
    "ps_types s2 = ps_types s1" by auto
  obtain b ts' where b: "ts = b # ts'" "identifier_token b" using member_declaration_first [OF 2(1)] by blast
  then have "token_punctuation b \<noteq> P_right_brace" using "2.prems"(4) by (auto simp: token_wf_def)
  then have "member_loop src env n s = (Inr k, s2)"
    using rest b(1) s1(1) s2(1) by (subst member_loop.simps) (simp add: take_punctuation_Cons)
  then show ?case
    using gets_trans [OF s1(2) s2(2)] s1(3) s2(3) by (auto simp: members_spelling_def)
qed

lemma aggregate_done_complete:
  "ps_memory s = [] \<Longrightarrow> \<exists>s'. aggregate_done d f s = (Inr (), s') \<and> gets s (ps_rest s) 0 s' \<and> ps_types s' = ps_types s"
  by (simp add: aggregate_done_def push_complete gets_def update_context_def)

lemma parse_struct_rest_complete:
  assumes body: "struct_body src env scope (set (ps_types s)) bs state ms" and scope: "in_scope scope s" "room s"
    and rest: "ps_rest s = bs @ r" and wf: "\<forall>x \<in> set bs. token_wf src x" and bytes: "ready (length (members_spelling ms)) s"
  shows "\<exists>s'. parse_struct_rest src env d f s = (Inr (), s') \<and> gets s r (length (members_spelling ms)) s' \<and> ps_types s' = ps_types s"
  using body unfolding struct_body_def
proof (elim disjE conjE exE)
  fix t assume t: "ms = []" "bs = [t]" "sign_token P_semicolon t"
  have "ps_memory (s\<lparr>ps_rest := r\<rparr>) = []" using bytes by (simp add: ready_def)
  from aggregate_done_complete [OF this, of d "f\<lparr>adf_definition_state := Aggregate_declared\<rparr>"] t rest show ?thesis
    by (auto simp: parse_struct_rest_def take_punctuation_Cons gets_def members_spelling_def)
next
  fix b ts t assume t: "bs = b # ts @ [t]" "sign_token P_left_brace b" "member_declarations src env scope (set (ps_types s)) ts ms"
    "sign_token P_semicolon t"
  let ?s1 = "s\<lparr>ps_rest := ts @ t # r\<rparr>"
  have "in_scope scope ?s1" "set (ps_types ?s1) = set (ps_types s)" "ready (length (members_spelling ms)) ?s1" "room ?s1"
    using scope bytes rest t(1) by (simp_all add: in_scope_def ready_def room_def)
  from member_loop_complete [OF t(3) this(1,2) _ _ this(3,4), where r = "t # r" and n = 0] wf t(1) obtain k s2 where
    s2: "member_loop src env 0 ?s1 = (Inr k, s2)" "gets ?s1 (t # r) (length (members_spelling ms)) s2" "ps_types s2 = ps_types s" by auto
  let ?f = "f\<lparr>adf_member_offset := cast_u32 (length (sx_aggregate_members (ps_context s))), adf_member_count := k,
    adf_definition_state := Aggregate_defined\<rparr>"
  have "ps_memory (s2\<lparr>ps_rest := r\<rparr>) = []" using bytes s2(2) by (simp add: ready_def gets_def)
  from aggregate_done_complete [OF this, of d ?f] obtain s' where
    s': "aggregate_done d ?f (s2\<lparr>ps_rest := r\<rparr>) = (Inr (), s')" "gets (s2\<lparr>ps_rest := r\<rparr>) r 0 s'" "ps_types s' = ps_types s2" by auto
  have "take_punctuation P_semicolon s2 = (True, s2\<lparr>ps_rest := r\<rparr>)" using s2(2) t(4) by (simp add: gets_def take_punctuation_Cons)
  then have "parse_struct_rest src env d f s = (Inr (), s')"
    using t(1,2) rest s2(1) s'(1) by (simp add: parse_struct_rest_def take_punctuation_Cons Let_def and_then_parse_def)
  moreover have "gets s r (length (members_spelling ms)) s'" using s2(2) s'(2) by (simp add: gets_def)
  ultimately show ?thesis using s2(3) s'(3) by auto
qed

lemma struct_declaration_body:
  assumes "struct_declaration src env scope types ts types' m"
  obtains k name bs where "ts = k # name # bs" "token_kind k = Tk_keyword_struct" "identifier_token name"
    "types' = insert (qualify scope (token_text src name)) types" "struct_body src env scope types' bs (ag_state m) (ag_members m)"
    "ag_name m = qualify scope (token_text src name)" "ag_scope m = join scope"
  using assms by cases (auto simp: struct_body_def)

lemma parse_struct_complete:
  assumes decl: "struct_declaration src env scope (set (ps_types s)) ts types' m" and scope: "in_scope scope s" "room s"
    and rest: "ps_rest s = ts @ r" and wf: "\<forall>x \<in> set ts. token_wf src x" and bytes: "ready (length (aggregate_spelling m)) s"
  shows "\<exists>s'. parse_struct src env s = (Inr (), s') \<and> gets s r (length (aggregate_spelling m)) s' \<and> set (ps_types s') = types'"
  using decl
proof (rule struct_declaration_body)
  fix k name bs
  let ?n = "token_text src name" let ?q = "qualify scope ?n"
  assume d: "ts = k # name # bs" "token_kind k = Tk_keyword_struct" "identifier_token name" "types' = insert ?q (set (ps_types s))"
    "struct_body src env scope types' bs (ag_state m) (ag_members m)" "ag_name m = ?q" "ag_scope m = join scope"
  have len: "aggregate_spelling m = ?q @ join scope @ members_spelling (ag_members m)" by (simp add: aggregate_spelling_def d(6,7))
  let ?s1 = "s\<lparr>ps_rest := bs @ r\<rparr>"
  have plain: "plain_name ?n" using wf d(1,3) by (simp add: token_wf_def)
  have sc1: "in_scope scope ?s1" "ready (length ?q) ?s1" using scope bytes by (simp_all add: in_scope_def ready_def len)
  obtain q where q: "declare_type ?n ?s1 = (Inr q, ?s1\<lparr>ps_context := add_names ?q (ps_context s), ps_types := List.insert ?q (ps_types s)\<rparr>)"
    (is "_ = (_, ?s2)") using declare_type_complete [OF sc1 plain] by auto
  have "in_scope scope ?s2" "ready (length (join scope)) ?s2" using scope bytes by (simp_all add: in_scope_def ready_def len add_names_def)
  from store_scope_complete [OF this] obtain sr where
    sr: "store_scope ?s2 = (Inr sr, ?s2\<lparr>ps_context := add_names (join scope) (add_names ?q (ps_context s))\<rparr>)" (is "_ = (_, ?s3)") by auto
  have types: "set (ps_types ?s3) = types'" by (simp add: d(4))
  have "in_scope scope ?s3" "ready (length (members_spelling (ag_members m))) ?s3"
    using scope bytes by (simp_all add: in_scope_def ready_def len add_names_def)
  moreover have "room ?s3" using scope(2) bytes rest by (simp add: room_def ready_def len add_names_def d(1))
  moreover have "struct_body src env scope (set (ps_types ?s3)) bs (ag_state m) (ag_members m)" using d(5) by (simp only: types)
  moreover have "\<forall>x \<in> set bs. token_wf src x" using wf d(1) by simp
  moreover have "ps_rest ?s3 = bs @ r" by simp
  ultimately have "\<exists>s'. parse_struct_rest src env k
      \<lparr>adf_canonical_name = q, adf_scope_name = sr, adf_definition_state = Aggregate_declared, adf_member_offset = 0,
       adf_member_count = 0, adf_declaration_range = \<lparr>range_offset = token_offset k, range_length = 0\<rparr>,
       adf_name_range = token_range name\<rparr> ?s3 = (Inr (), s') \<and>
      gets ?s3 r (length (members_spelling (ag_members m))) s' \<and> ps_types s' = ps_types ?s3"
    by (intro parse_struct_rest_complete)
  then obtain s' where s': "parse_struct_rest src env k
      \<lparr>adf_canonical_name = q, adf_scope_name = sr, adf_definition_state = Aggregate_declared, adf_member_offset = 0,
       adf_member_count = 0, adf_declaration_range = \<lparr>range_offset = token_offset k, range_length = 0\<rparr>,
       adf_name_range = token_range name\<rparr> ?s3 = (Inr (), s')"
    "gets ?s3 r (length (members_spelling (ag_members m))) s'" "ps_types s' = ps_types ?s3" by blast
  have "parse_struct src env s = (Inr (), s')"
    using q sr s'(1) rest d(1,3) by (simp add: parse_struct_def Let_def advance_Cons and_then_parse_def)
  moreover have "gets s r (length (aggregate_spelling m)) s'" using s'(2) by (simp add: gets_def len add_names_def)
  moreover have "set (ps_types s') = types'" using s'(3) types by simp
  ultimately show ?thesis by blast
qed

section \<open>Units\<close>

definition parse_declaration ::
    "nat \<Rightarrow> string \<Rightarrow> source_environment \<Rightarrow> parser_state \<Rightarrow> ((status_code + unit) \<times> parser_state) option" where
  "parse_declaration n src env s =
     (if token_kind (peek s) = Tk_keyword_enum then Some (parse_enum src env s)
      else if token_kind (peek s) = Tk_keyword_struct then Some (parse_struct src env s)
      else if token_kind (peek s) = Tk_keyword_namespace then parse_namespace n src env s
      else Some (fail_peek Parser_invalid_source s))"

lemma parse_unit_Suc:
  "parse_unit (Suc n) src env nested s =
     (if token_kind (peek s) = Tk_eof \<or> nested \<and> token_punctuation (peek s) = P_right_brace then Some (Inr (), s)
      else
        case parse_declaration n src env s of
          None \<Rightarrow> None
        | Some (Inl st, s) \<Rightarrow> Some (Inl st, s)
        | Some (Inr _, s) \<Rightarrow> parse_unit n src env nested s)"
  by (simp add: parse_declaration_def)

lemma enter_scope_complete:
  assumes "ps_memory s = []" "in_scope scope s" "plain_name x"
  shows "enter_scope x s = (True, s\<lparr>ps_scope := join (scope @ [x])\<rparr>)"
  using assms by (simp add: enter_scope_def ps_allocate_Nil in_scope_def qualified_join qualify_def)

lemma take_join_snoc: "take (length (join scope)) (join (scope @ [x])) = join scope"
  by (cases "scope = []") (simp_all add: join_snoc)

text \<open>A run over the tokens of declarations, ready to go on.\<close>

definition runs_over ::
    "string \<Rightarrow> parser_state \<Rightarrow> parser_token list \<Rightarrow> nat \<Rightarrow> string set \<Rightarrow> ((status_code + unit) \<times> parser_state) option \<Rightarrow> bool" where
  "runs_over src s r b types' x \<longleftrightarrow>
     (\<exists>s'. x = Some (Inr (), s') \<and> gets s r b s' \<and> set (ps_types s') = types' \<and> room s')"

definition can_run :: "string \<Rightarrow> string list \<Rightarrow> string set \<Rightarrow> parser_token list \<Rightarrow> nat \<Rightarrow> parser_state \<Rightarrow> bool" where
  "can_run src scope types ts b s \<longleftrightarrow>
     in_scope scope s \<and> set (ps_types s) = types \<and> ps_rest s = ts \<and> (\<forall>x \<in> set ts. token_wf src x) \<and> ready b s \<and> room s"

lemma can_run_enum:
  assumes "enum_declaration src env scope ts m" "can_run src scope types (ts @ r) (length (enum_spelling m)) s"
  shows "runs_over src s r (length (enum_spelling m)) (declared_types m types) (parse_declaration n src env s)"
proof -
  have s: "in_scope scope s" "set (ps_types s) = types" "ps_rest s = ts @ r" "\<forall>x \<in> set (ts @ r). token_wf src x"
    "ready (length (enum_spelling m)) s" "room s" using assms(2) by (simp_all add: can_run_def)
  obtain s' where s': "parse_enum src env s = (Inr (), s')" "gets s r (length (enum_spelling m)) s'"
    "set (ps_types s') = declared_types m types"
    using parse_enum_complete [OF assms(1) s(1,3) _ s(5)] s(2,4) by auto
  have k: "token_kind (peek s) = Tk_keyword_enum" using assms(1) s(3) by (auto elim!: enum_declaration.cases)
  have "room s'" using parse_enum_read [OF s'(1) s(1,6) k] s(3,4) by (auto simp: unit_read_def)
  with s' k show ?thesis by (simp add: runs_over_def parse_declaration_def)
qed

lemma can_run_struct:
  assumes "struct_declaration src env scope types ts types' m" "can_run src scope types (ts @ r) (length (aggregate_spelling m)) s"
  shows "runs_over src s r (length (aggregate_spelling m)) types' (parse_declaration n src env s)"
proof -
  have s: "in_scope scope s" "set (ps_types s) = types" "ps_rest s = ts @ r" "\<forall>x \<in> set (ts @ r). token_wf src x"
    "ready (length (aggregate_spelling m)) s" "room s" using assms(2) by (simp_all add: can_run_def)
  obtain s' where s': "parse_struct src env s = (Inr (), s')" "gets s r (length (aggregate_spelling m)) s'"
    "set (ps_types s') = types'"
    using parse_struct_complete [of src env scope s ts types' m r] assms(1) s by auto
  have k: "token_kind (peek s) = Tk_keyword_struct" using assms(1) s(3) by (auto elim!: struct_declaration.cases)
  have "room s'" using parse_struct_read [OF s'(1) s(1,6) k] s(3,4) by (auto simp: unit_read_def)
  with s' k show ?thesis by (simp add: runs_over_def parse_declaration_def)
qed

lemma can_run_namespace:
  assumes t: "token_kind k = Tk_keyword_namespace" "identifier_token name" "sign_token P_left_brace l" "sign_token P_right_brace e"
    and run: "can_run src scope types (k # name # l # ts @ e # r) b s"
    and inner: "\<And>s. can_run src (scope @ [token_text src name]) types (ts @ e # r) b s \<Longrightarrow>
      runs_over src s (e # r) b types' (parse_unit n src env True s)"
  shows "runs_over src s r b types' (parse_declaration (Suc n) src env s)"
proof -
  let ?x = "token_text src name"
  have s: "in_scope scope s" "set (ps_types s) = types" "ps_rest s = k # name # l # ts @ e # r"
    "\<forall>x \<in> set (k # name # l # ts @ e # r). token_wf src x" "ready b s" "room s" using run by (simp_all add: can_run_def)
  let ?s1 = "s\<lparr>ps_rest := name # l # ts @ e # r\<rparr>"
  have plain: "plain_name ?x" using s(4) t(2) by (simp add: token_wf_def)
  have "ps_memory ?s1 = []" "in_scope scope ?s1" using s(1,5) by (simp_all add: ready_def in_scope_def)
  from enter_scope_complete [OF this plain] have en: "enter_scope ?x ?s1 = (True, ?s1\<lparr>ps_scope := join (scope @ [?x])\<rparr>)" .
  let ?s3 = "s\<lparr>ps_scope := join (scope @ [?x]), ps_rest := ts @ e # r\<rparr>"
  have "can_run src (scope @ [?x]) types (ts @ e # r) b ?s3"
    using s plain by (simp add: can_run_def in_scope_def ready_def room_def)
  from inner [OF this] obtain s4 where s4: "parse_unit n src env True ?s3 = Some (Inr (), s4)" "gets ?s3 (e # r) b s4"
    "set (ps_types s4) = types'" "room s4" by (auto simp: runs_over_def)
  let ?s5 = "s4\<lparr>ps_scope := join scope, ps_rest := r\<rparr>"
  have scope4: "ps_scope s4 = join (scope @ [?x])" "ps_rest s4 = e # r" using s4(2) by (simp_all add: gets_def)
  have ps: "ps_scope s = join scope" using s(1) by (simp add: in_scope_def)
  have "parse_namespace (Suc n) src env s = Some (Inr (), ?s5)"
    using s(3) t en s4(1) scope4 ps by (simp add: advance_Cons take_punctuation_Cons Let_def take_join_snoc)
  then have "parse_declaration (Suc n) src env s = Some (Inr (), ?s5)"
    using s(3) t(1) by (simp add: parse_declaration_def)
  moreover have "gets s r b ?s5" using s4(2) ps by (simp add: gets_def)
  moreover have "room ?s5" using s4(4) scope4(2) by (simp add: room_def)
  ultimately show ?thesis using s4(3) by (simp add: runs_over_def)
qed

lemma runs_over_can_run:
  assumes "runs_over src s r a types' (Some (x, s'))" "can_run src scope types (ts @ r) (a + b) s"
  shows "can_run src scope types' r b s'"
  using assms by (auto simp: runs_over_def can_run_def in_scope_def gets_def ready_def)

lemma declared_first:
  assumes "declared src env scope types ts types' a" "\<forall>x \<in> set ts. token_wf src x"
  shows "\<exists>k ts'. ts = k # ts' \<and> token_kind k \<noteq> Tk_eof \<and> token_punctuation k \<noteq> P_right_brace"
  using assms
  by (cases rule: declared.cases) (auto elim!: enum_declaration.cases struct_declaration.cases simp: token_wf_def)

lemma parse_unit_runs:
  "declarations src env scope types ts types' a \<Longrightarrow>
     2 * length ts < n \<Longrightarrow> can_run src scope types (ts @ r) (unit_bytes a) s \<Longrightarrow>
     next_kind r = Tk_eof \<or> nested \<and> next_sign r = P_right_brace \<Longrightarrow>
     runs_over src s r (unit_bytes a) types' (parse_unit n src env nested s)"
  "declared src env scope types ts types' a \<Longrightarrow>
     2 * length ts \<le> n \<Longrightarrow> can_run src scope types (ts @ r) (unit_bytes a) s \<Longrightarrow>
     runs_over src s r (unit_bytes a) types' (parse_declaration n src env s)"
proof (induction arbitrary: n r s nested and n r s rule: declarations_declared.inducts)
  case (none scope types)
  then obtain n' where "n = Suc n'" by (cases n) auto
  moreover have "token_kind (peek s) = Tk_eof \<or> nested \<and> sign_token P_right_brace (peek s)"
    using none by (simp add: can_run_def peek_def)
  ultimately show ?case
    using none by (simp add: runs_over_def can_run_def gets_def unit_bytes_def)
next
  case (more scope types ts types' a us types'' b)
  then obtain n' where n: "n = Suc n'" by (cases n) auto
  have wf: "\<forall>x \<in> set ts. token_wf src x" using more.prems(2) by (simp add: can_run_def)
  obtain k ts' where k: "ts = k # ts'" "token_kind k \<noteq> Tk_eof" "token_punctuation k \<noteq> P_right_brace"
    using declared_first [OF more.IH(1) wf] by blast
  have pk: "peek s = k" using more.prems(2) k(1) by (simp add: can_run_def)
  have all: "can_run src scope types (ts @ us @ r) (unit_bytes a + unit_bytes b) s"
    using more.prems(2) by (simp add: unit_bytes_join)
  then have "can_run src scope types (ts @ us @ r) (unit_bytes a) s" by (auto simp: can_run_def intro: ready_less)
  with more.prems(1) n k(1) have one: "runs_over src s (us @ r) (unit_bytes a) types' (parse_declaration n' src env s)"
    by (intro more.IH(2)) simp_all
  then obtain s1 where s1: "parse_declaration n' src env s = Some (Inr (), s1)" "gets s (us @ r) (unit_bytes a) s1"
    by (auto simp: runs_over_def)
  from runs_over_can_run [OF one [unfolded s1(1)] all] have "can_run src scope types' (us @ r) (unit_bytes b) s1" .
  with more.prems n k(1) have "runs_over src s1 r (unit_bytes b) types'' (parse_unit n' src env nested s1)"
    by (intro more.IH(4)) simp_all
  then obtain s2 where
    s2: "parse_unit n' src env nested s1 = Some (Inr (), s2)" "gets s1 r (unit_bytes b) s2" "set (ps_types s2) = types''" "room s2"
    by (auto simp: runs_over_def)
  have "parse_unit n src env nested s = Some (Inr (), s2)"
    unfolding n parse_unit_Suc using pk k(2,3) s1(1) s2(1) by simp
  then show ?case using gets_trans [OF s1(2) s2(2)] s2(3,4) by (simp add: runs_over_def unit_bytes_join)
next
  case (enumeration scope ts m types)
  then show ?case using can_run_enum [of src env scope ts m types r s n] by (simp add: unit_bytes_def)
next
  case (aggregate scope types ts types' m)
  then show ?case using can_run_struct [of src env scope types ts types' m r s n] by (simp add: unit_bytes_def)
next
  case (scope k name l scope types ts types' a e)
  then obtain n' where n: "n = Suc n'" by (cases n) auto
  show ?case unfolding n
  proof (rule can_run_namespace [OF scope(1-3) scope.hyps(4)])
    show "can_run src scope types (k # name # l # ts @ e # r) (unit_bytes a) s" using scope.prems(2) by simp
    show "\<And>s. can_run src (scope @ [token_text src name]) types (ts @ e # r) (unit_bytes a) s \<Longrightarrow>
      runs_over src s (e # r) (unit_bytes a) types' (parse_unit n' src env True s)"
      by (rule scope.IH(2)) (use scope.prems(1) scope.hyps(4) n in simp_all)
  qed
qed

end
