(* ===== verification/ParserTotal.thy ===== *)
theory ParserTotal
  imports ParserComplete
begin

text \<open>
  The parser always returns, whatever the tokens and the answers of the allocations: the fuel of the
  entry points is enough, and no routine, failing ones included, moves past the token of the end of
  the input, so that \<^verbatim>\<open>peek()\<close> always has a token to read.
\<close>

section \<open>Moving within the tokens\<close>

definition ends_well :: "parser_token list \<Rightarrow> bool" where
  "ends_well ts \<longleftrightarrow> ts \<noteq> [] \<and> token_kind (last ts) = Tk_eof \<and> token_punctuation (last ts) = P_none"

text \<open>
  The tokens only get fewer and the end of the input stays among them. As they only get fewer, there
  was a token at every state in between.
\<close>

definition within :: "parser_state \<Rightarrow> parser_state \<Rightarrow> bool" where
  "within s t \<longleftrightarrow> length (ps_rest t) \<le> length (ps_rest s) \<and> (ends_well (ps_rest s) \<longrightarrow> ends_well (ps_rest t))"

named_theorems within_intros

lemma stays_refl [simp, within_intros]: "within s s"
  by (simp add: within_def)

lemma stays_trans: "within s t \<Longrightarrow> within t u \<Longrightarrow> within s u"
  by (auto simp: within_def)

lemma within_same: "within s t \<Longrightarrow> ps_rest u = ps_rest t \<Longrightarrow> within s u"
  by (simp add: within_def)

lemma stays_advance [within_intros]:
  "within s t \<Longrightarrow> token_kind (peek t) \<noteq> Tk_eof \<or> token_punctuation (peek t) \<noteq> P_none \<Longrightarrow> within s (ps_advance t)"
  by (cases "ps_rest t") (auto simp: within_def ps_advance_def ends_well_def peek_def split: if_splits)

lemma within_take_punctuation:
  "within s t \<Longrightarrow> p \<noteq> P_none \<Longrightarrow> take_punctuation p t = (b, u) \<Longrightarrow> within s u"
  by (auto simp: take_punctuation_def within_intros split: if_splits)

lemma within_take_kind:
  "within s t \<Longrightarrow> k \<noteq> Tk_eof \<Longrightarrow> take_kind k t = (b, u) \<Longrightarrow> within s u"
  by (auto simp: take_kind_def within_intros split: if_splits)

lemma within_and_then [within_intros]:
  assumes "within s (snd (m t))" and "\<And>x u. m t = (Inr x, u) \<Longrightarrow> within s u \<Longrightarrow> within s (snd (f x u))"
  shows "within s (snd (and_then_parse m f t))"
  using assms by (cases "m t") (auto simp: and_then_parse_def split: sum.splits)

lemma within_basic [within_intros]:
  assumes "within s t"
  shows "within s (snd (finish x t))" "within s (snd (fail_at d i j t))" "within s (snd (fail_token d e t))"
    "within s (snd (fail_peek d t))" "within s (snd (push f t))" "within s (snd (keep_constant n v t))"
    "within s (snd (store_name n t))" "within s (snd (push_modifier k p r t))"
proof -
  show "within s (snd (finish x t))"
    by (rule within_same [OF assms]) (simp add: finish_def)
  show "within s (snd (fail_at d i j t))"
    by (rule within_same [OF assms]) (rule fail_at_rest [OF prod.collapse [symmetric]])
  show "within s (snd (fail_token d e t))"
    by (rule within_same [OF assms]) (rule fail_token_rest [OF prod.collapse [symmetric]])
  show "within s (snd (fail_peek d t))"
    by (rule within_same [OF assms]) (rule fail_peek_rest [OF prod.collapse [symmetric]])
  show "within s (snd (push f t))"
    by (rule within_same [OF assms]) (rule push_rest [OF prod.collapse [symmetric]])
  show "within s (snd (keep_constant n v t))"
    by (rule within_same [OF assms]) (rule keep_constant_rest [OF prod.collapse [symmetric]])
  show "within s (snd (store_name n t))"
    by (rule within_same [OF assms]) (rule store_name_rest [OF prod.collapse [symmetric]])
  show "within s (snd (push_modifier k p r t))"
    by (rule within_same [OF assms]) (rule push_modifier_rest [OF prod.collapse [symmetric]])
qed

section \<open>Expressions and enumerations\<close>

lemma within_parse_unsigned [within_intros]: "within s t \<Longrightarrow> within s (snd (parse_unsigned src r t))"
  by (auto simp: parse_unsigned_def peek_word_def Let_def intro!: within_intros)

lemma within_parse_underlying [within_intros]: "within s t \<Longrightarrow> within s (snd (parse_underlying src t))"
  by (auto simp: parse_underlying_def peek_word_def Let_def intro!: within_intros)

lemma within_parse_number:
  assumes "within s t"
  shows "within s (snd (parse_number src t))"
proof -
  obtain b u where t: "take_punctuation P_minus t = (b, u)" by force
  from within_take_punctuation [OF assms _ t] have "within s u" by simp
  then show ?thesis
    by (auto simp: parse_number_def t Let_def intro!: within_intros split: option.splits)
qed

lemma within_parse_primary [within_intros]: "within s t \<Longrightarrow> within s (snd (parse_primary src env t))"
  by (auto simp: parse_primary_def Let_def intro!: within_intros within_parse_number split: option.splits)

lemma within_parse_sum: "within s t \<Longrightarrow> within s (snd (parse_sum src env v t))"
proof (induction src env v t rule: parse_sum.induct)
  case (1 src env v t)
  obtain b u where t: "take_punctuation P_plus t = (b, u)" by force
  from within_take_punctuation [OF "1.prems" _ t] have u: "within s u" by simp
  obtain x w where p: "parse_primary src env u = (x, w)" by force
  from within_parse_primary [OF u, of src env] have w: "within s w" by (simp add: p)
  show ?case
    using "1.IH" [OF t [symmetric] _ p [symmetric] _ _ w] u w
    by (subst parse_sum.simps) (auto simp: t p intro!: within_intros split: sum.splits option.splits)
qed

lemma within_parse_expression [within_intros]: "within s t \<Longrightarrow> within s (snd (parse_expression src env t))"
  by (auto simp: parse_expression_def intro!: within_intros within_parse_sum)

lemma within_parse_initializer [within_intros]:
  assumes "within s t"
  shows "within s (snd (parse_initializer src env name nxt t))"
proof -
  obtain b u where t: "take_punctuation P_equal t = (b, u)" by force
  from within_take_punctuation [OF assms _ t] have "within s u" by simp
  then show ?thesis by (auto simp: parse_initializer_def t Let_def intro!: within_intros)
qed

lemma within_parse_separator [within_intros]:
  assumes "within s t"
  shows "within s (snd (parse_separator name nxt v t))"
proof -
  obtain b u where t: "take_punctuation P_comma t = (b, u)" by force
  from within_take_punctuation [OF assms _ t] have "within s u" by simp
  then show ?thesis by (auto simp: parse_separator_def increment_constant_def t intro!: within_intros)
qed

lemma within_parse_enumerator: "within s t \<Longrightarrow> within s (snd (parse_enumerator src env nxt t))"
  by (auto simp: parse_enumerator_def Let_def split_beta intro!: within_intros)

lemma within_enumerator_loop [within_intros]: "within s t \<Longrightarrow> within s (snd (enumerator_loop src env nxt n t))"
proof (induction src env nxt n t rule: enumerator_loop.induct)
  case (1 src env nxt n t)
  obtain b u where t: "take_punctuation P_right_brace t = (b, u)" by force
  from within_take_punctuation [OF "1.prems" _ t] have u: "within s u" by simp
  obtain x w where p: "parse_enumerator src env nxt u = (x, w)" by force
  from within_parse_enumerator [OF u, of src env nxt] have w: "within s w" by (simp add: p)
  show ?case
    using "1.IH" [OF t [symmetric] _ p [symmetric] _ w] u w
    by (subst enumerator_loop.simps) (auto simp: t p intro!: within_intros split: sum.splits)
qed

lemma within_parse_optional_underlying [within_intros]:
  assumes "within s t"
  shows "within s (snd (parse_optional_underlying src t))"
proof -
  obtain b u where t: "take_punctuation P_colon t = (b, u)" by force
  from within_take_punctuation [OF assms _ t] have "within s u" by simp
  then show ?thesis by (auto simp: parse_optional_underlying_def t split_beta intro!: within_intros)
qed

lemma within_store_scope [within_intros]: "within s t \<Longrightarrow> within s (snd (store_scope t))"
  by (auto simp: store_scope_def intro!: within_intros)

lemma within_ps_allocate: "within s t \<Longrightarrow> ps_allocate t = (b, u) \<Longrightarrow> within s u"
  by (erule within_same) (rule ps_allocate_rest)

lemma within_store_qualified [within_intros]:
  assumes "within s t"
  shows "within s (snd (store_qualified n t))"
proof -
  obtain b u where a: "ps_allocate t = (b, u)" by force
  with within_ps_allocate [OF assms a] show ?thesis by (auto simp: store_qualified_def intro!: within_intros)
qed

lemma within_register_local_type [within_intros]:
  assumes "within s t"
  shows "within s (snd (register_local_type n t))"
proof -
  obtain b u where a: "ps_allocate t = (b, u)" by force
  with within_ps_allocate [OF assms a] show ?thesis
    by (auto simp: register_local_type_def intro: within_same)
qed

lemma within_declare_type [within_intros]: "within s t \<Longrightarrow> within s (snd (declare_type n t))"
  by (auto simp: declare_type_def intro!: within_intros)

lemma within_enum_done [within_intros]: "within s t \<Longrightarrow> within s (snd (enum_done d t))"
  by (simp add: enum_done_def within_intros)

lemma within_parse_enum_rest [within_intros]:
  assumes "within s t"
  shows "within s (snd (parse_enum_rest src env k d t))"
proof -
  obtain b u where t: "take_punctuation P_semicolon t = (b, u)" by force
  from within_take_punctuation [OF assms _ t] have u: "within s u" by simp
  obtain c w where w: "take_punctuation P_left_brace u = (c, w)" by force
  from within_take_punctuation [OF u _ w] have "within s w" by simp
  then have w': "within s (w\<lparr>ps_constants := []\<rparr>)" by (rule within_same) simp
  show ?thesis
    using u \<open>within s w\<close> w'
    by (auto simp: parse_enum_rest_def t w intro!: within_intros split: prod.splits dest: within_take_punctuation)
qed

lemma within_parse_enum:
  assumes "token_kind (peek s) = Tk_keyword_enum"
  shows "within s (snd (parse_enum src env s))" "length (ps_rest (snd (parse_enum src env s))) < length (ps_rest s)"
proof -
  obtain b u where t: "take_kind Tk_keyword_class (ps_advance s) = (b, u)" by force
  have "within s (ps_advance s)" using assms by (intro within_intros) simp_all
  from within_take_kind [OF this _ t] have u: "within s u" by simp
  show "within s (snd (parse_enum src env s))"
    using u by (auto simp: parse_enum_def t Let_def split_beta intro!: within_intros)
  have "within (ps_advance s) u" by (rule within_take_kind [OF stays_refl _ t]) simp
  then have "within (ps_advance s) (snd (parse_enum src env s))"
    by (auto simp: parse_enum_def t Let_def split_beta intro!: within_intros)
  moreover have "length (ps_rest (ps_advance s)) < length (ps_rest s)"
    using assms by (cases "ps_rest s") (simp_all add: peek_def no_token_def)
  ultimately show "length (ps_rest (snd (parse_enum src env s))) < length (ps_rest s)"
    by (simp add: within_def)
qed

section \<open>Aggregates\<close>

lemma within_pointer_loop [within_intros]: "within s t \<Longrightarrow> within s (snd (pointer_loop m t))"
proof (induction m t rule: pointer_loop.induct)
  case (1 m t)
  show ?case
  proof (cases "sign_token P_asterisk (peek t)")
    case True
    then have a: "within s (ps_advance t)" using "1.prems" by (intro within_intros) simp_all
    obtain x w where p: "push_modifier Modifier_pointer 0 (token_range (peek t)) (ps_advance t) = (x, w)" by force
    have w: "within s w" using within_basic(8) [OF a, of Modifier_pointer 0 "token_range (peek t)"] by (simp add: p)
    show ?thesis
      using "1.IH" [OF _ refl p [symmetric] _ w] True w
      by (subst pointer_loop.simps) (auto simp: p Let_def split: sum.splits)
  next
    case False
    then show ?thesis using "1.prems" by (subst pointer_loop.simps) (simp add: within_intros)
  qed
qed

lemma within_parse_reference [within_intros]: "within s t \<Longrightarrow> within s (snd (parse_reference m t))"
  by (auto simp: parse_reference_def Let_def intro!: within_intros)

lemma within_parse_extent: "within s t \<Longrightarrow> within s (snd (parse_extent src k m t))"
  by (auto simp: parse_extent_def Let_def intro!: within_intros split: option.splits)

lemma within_extent_loop [within_intros]: "within s t \<Longrightarrow> within s (snd (extent_loop src m t))"
proof (induction src m t rule: extent_loop.induct)
  case (1 src m t)
  obtain b u where t: "take_punctuation P_left_bracket t = (b, u)" by force
  from within_take_punctuation [OF "1.prems" _ t] have u: "within s u" by simp
  obtain x w where p: "parse_extent src (peek t) m u = (x, w)" by force
  from within_parse_extent [OF u, of src "peek t" m] have w: "within s w" by (simp add: p)
  show ?case
    using "1.IH" [OF refl t [symmetric] _ p [symmetric] _ w] u w
    by (subst extent_loop.simps) (auto simp: t p Let_def intro!: within_intros split: sum.splits)
qed

lemma within_parse_member_type [within_intros]: "within s t \<Longrightarrow> within s (snd (parse_member_type src env k m t))"
  using within_same [OF _ lookup_type_rest]
  by (auto simp: parse_member_type_def intro!: within_intros split: prod.splits option.splits)

lemma within_parse_member_name [within_intros]: "within s t \<Longrightarrow> within s (snd (parse_member_name src m t))"
  by (auto simp: parse_member_name_def Let_def intro!: within_intros)

lemma within_member_done [within_intros]:
  assumes "within s t"
  shows "within s (snd (member_done k m t))"
proof -
  obtain b u where t: "take_punctuation P_semicolon t = (b, u)" by force
  from within_take_punctuation [OF assms _ t] have "within s u" by simp
  then show ?thesis by (auto simp: member_done_def t intro!: within_intros)
qed

lemma within_parse_member: "within s t \<Longrightarrow> within s (snd (parse_member src env t))"
  by (auto simp: parse_member_def Let_def intro!: within_intros)

lemma within_member_loop [within_intros]: "within s t \<Longrightarrow> within s (snd (member_loop src env n t))"
proof (induction src env n t rule: member_loop.induct)
  case (1 src env n t)
  obtain b u where t: "take_punctuation P_right_brace t = (b, u)" by force
  from within_take_punctuation [OF "1.prems" _ t] have u: "within s u" by simp
  obtain x w where p: "parse_member src env u = (x, w)" by force
  from within_parse_member [OF u, of src env] have w: "within s w" by (simp add: p)
  show ?case
    using "1.IH" [OF t [symmetric] _ p [symmetric] _ w] u w
    by (subst member_loop.simps) (auto simp: t p intro!: within_intros split: sum.splits)
qed

lemma within_aggregate_done [within_intros]: "within s t \<Longrightarrow> within s (snd (aggregate_done k d t))"
  by (simp add: aggregate_done_def within_intros)

lemma within_parse_struct_rest [within_intros]:
  assumes "within s t"
  shows "within s (snd (parse_struct_rest src env k d t))"
proof -
  obtain b u where t: "take_punctuation P_semicolon t = (b, u)" by force
  from within_take_punctuation [OF assms _ t] have u: "within s u" by simp
  obtain c w where w: "take_punctuation P_left_brace u = (c, w)" by force
  from within_take_punctuation [OF u _ w] have "within s w" by simp
  with u show ?thesis
    by (auto simp: parse_struct_rest_def t w Let_def intro!: within_intros split: prod.splits dest: within_take_punctuation)
qed

lemma within_parse_struct:
  assumes "token_kind (peek s) = Tk_keyword_struct"
  shows "within s (snd (parse_struct src env s))" "length (ps_rest (snd (parse_struct src env s))) < length (ps_rest s)"
proof -
  have "within s (ps_advance s)" using assms by (intro within_intros) simp_all
  then show "within s (snd (parse_struct src env s))"
    by (auto simp: parse_struct_def Let_def intro!: within_intros)
  have "within (ps_advance s) (snd (parse_struct src env s))"
    by (auto simp: parse_struct_def Let_def intro!: within_intros)
  moreover have "length (ps_rest (ps_advance s)) < length (ps_rest s)"
    using assms by (cases "ps_rest s") (simp_all add: peek_def no_token_def)
  ultimately show "length (ps_rest (snd (parse_struct src env s))) < length (ps_rest s)"
    by (simp add: within_def)
qed

section \<open>Units\<close>

definition returns_within :: "parser_state \<Rightarrow> ((status_code + unit) \<times> parser_state) option \<Rightarrow> bool" where
  "returns_within s x \<longleftrightarrow> (\<exists>y. x = Some y \<and> within s (snd y))"

lemma returns_within_Some [simp]: "returns_within s (Some y) \<longleftrightarrow> within s (snd y)"
  by (simp add: returns_within_def)

lemma returns_within_mono: "within s t \<Longrightarrow> returns_within t x \<Longrightarrow> returns_within s x"
  by (auto simp: returns_within_def intro: stays_trans)

lemma within_enter_scope: "within s t \<Longrightarrow> enter_scope n t = (b, u) \<Longrightarrow> within s u"
  by (erule within_same) (auto simp: enter_scope_def split: prod.splits if_splits dest: ps_allocate_rest)

lemma namespace_within:
  assumes fuel: "2 * length (ps_rest (ps_advance s)) < n"
    and unit: "\<And>t. 2 * length (ps_rest t) < n \<Longrightarrow> returns_within t (parse_unit n src env True t)"
  shows "returns_within (ps_advance s) (parse_namespace (Suc n) src env s)"
proof -
  let ?s = "ps_advance s"
  obtain b t where en: "enter_scope (token_text src (peek ?s)) ?s = (b, t)" by force
  have t: "within ?s t" by (rule within_enter_scope [OF stays_refl en])
  have same: "peek t = peek ?s"
    using en by (auto simp: peek_def enter_scope_def split: prod.splits if_splits dest: ps_allocate_rest)
  obtain c u where take: "take_punctuation P_left_brace (ps_advance t) = (c, u)" by force
  show ?thesis
  proof (cases "token_kind (peek ?s) = Tk_identifier")
    case True
    have u: "within ?s u"
      by (rule within_take_punctuation [OF stays_advance [OF t] _ take]) (simp_all add: same True)
    then have "2 * length (ps_rest u) < n" using fuel by (simp add: within_def)
    from returns_within_mono [OF u unit [OF this]] obtain r v where
      v: "parse_unit n src env True u = Some (r, v)" "within ?s v" by (auto simp: returns_within_def)
    obtain d w where close: "take_punctuation P_right_brace v = (d, w)" by force
    from within_take_punctuation [OF v(2) _ close] have w: "within ?s w" by simp
    then have "within ?s (w\<lparr>ps_scope := x\<rparr>)" for x by (rule within_same) simp
    with True en t take u v close w show ?thesis
      by (auto simp: Let_def intro!: within_intros split: sum.splits)
  next
    case False
    then show ?thesis by (auto simp: Let_def intro!: within_intros)
  qed
qed

lemma declaration_within:
  assumes fuel: "2 * length (ps_rest s) \<le> n" and some: "token_kind (peek s) \<noteq> Tk_eof"
    and unit: "\<And>m t. m < n \<Longrightarrow> 2 * length (ps_rest t) < m \<Longrightarrow> returns_within t (parse_unit m src env True t)"
  shows "returns_within s (parse_declaration n src env s) \<and>
    (\<forall>u t. parse_declaration n src env s = Some (Inr u, t) \<longrightarrow> length (ps_rest t) < length (ps_rest s))"
proof -
  have a: "within s (ps_advance s)" "length (ps_rest (ps_advance s)) < length (ps_rest s)"
    using some by (auto intro!: within_intros) (cases "ps_rest s", simp_all add: peek_def no_token_def)
  then obtain n' where n: "n = Suc n'" using fuel by (cases n) auto
  have body: "returns_within t (parse_unit n' src env True t)" if "2 * length (ps_rest t) < n'" for t
    using unit [of n' t] that n by simp
  have "2 * length (ps_rest (ps_advance s)) < n'" using a(2) fuel n by simp
  note space = namespace_within [OF this body, folded n]
  show ?thesis
  proof (cases "token_kind (peek s)" rule: parser_token_kind.exhaust)
    case Tk_keyword_enum
    then show ?thesis using within_parse_enum [OF Tk_keyword_enum, of src env]
      by (auto simp: parse_declaration_def)
  next
    case Tk_keyword_struct
    then show ?thesis using within_parse_struct [OF Tk_keyword_struct, of src env]
      by (auto simp: parse_declaration_def)
  next
    case Tk_keyword_namespace
    then have "parse_declaration n src env s = parse_namespace n src env s" by (simp add: parse_declaration_def)
    with space a show ?thesis by (auto simp: returns_within_def within_def intro: stays_trans)
  qed (simp_all add: parse_declaration_def within_intros)
qed

lemma unit_within: "2 * length (ps_rest s) < n \<Longrightarrow> returns_within s (parse_unit n src env nested s)"
proof (induction n arbitrary: nested s rule: less_induct)
  case (less n)
  then obtain n' where n: "n = Suc n'" by (cases n) auto
  show ?case
  proof (cases "token_kind (peek s) = Tk_eof \<or> nested \<and> sign_token P_right_brace (peek s)")
    case True
    then show ?thesis unfolding n parse_unit_Suc by simp
  next
    case False
    have "returns_within s (parse_declaration n' src env s) \<and>
      (\<forall>u t. parse_declaration n' src env s = Some (Inr u, t) \<longrightarrow> length (ps_rest t) < length (ps_rest s))"
      using less n False by (intro declaration_within) auto
    then obtain r t where t: "parse_declaration n' src env s = Some (r, t)" "within s t"
      "\<forall>u. r = Inr u \<longrightarrow> length (ps_rest t) < length (ps_rest s)" by (auto simp: returns_within_def)
    show ?thesis
    proof (cases r)
      case (Inl st)
      then show ?thesis unfolding n parse_unit_Suc using False t by auto
    next
      case (Inr u)
      then have "returns_within t (parse_unit n' src env nested t)"
        using less.prems t(3) n by (intro less.IH) auto
      then show ?thesis unfolding n parse_unit_Suc using False t(1) Inr returns_within_mono [OF t(2)] by auto
    qed
  qed
qed

text \<open>The two facts that the parser rests on: its fuel is enough, and it stays before the end of the input.\<close>

lemma parse_fuel_enough: "parse_unit (unit_fuel ts) src env nested (initial_parser_state c ts mem) \<noteq> None"
  using unit_within [of "initial_parser_state c ts mem" "unit_fuel ts" src env nested]
  by (auto simp: unit_fuel_def initial_parser_state_def returns_within_def)

lemma parse_in_range:
  assumes "parse_unit (unit_fuel ts) src env nested (initial_parser_state c ts mem) = Some (r, s)" "ends_well ts"
  shows "ends_well (ps_rest s)"
  using unit_within [of "initial_parser_state c ts mem" "unit_fuel ts" src env nested] assms
  by (auto simp: unit_fuel_def initial_parser_state_def returns_within_def within_def)

section \<open>What a failure reports\<close>

text \<open>
  A routine that returns a result reports nothing; a failure has one of two statuses, and it has added
  at most one diagnostic, the first status being the only one that adds one.
\<close>

definition reports :: "parser_state \<Rightarrow> (status_code + 'a) \<times> parser_state \<Rightarrow> bool" where
  "reports s x \<longleftrightarrow>
     (let before = sx_diagnostics (ps_context s); after = sx_diagnostics (ps_context (snd x)) in
      case fst x of
        Inr _ \<Rightarrow> after = before
      | Inl st \<Rightarrow> st = Configuration_failed \<and> (after = before \<or> (\<exists>d. after = before @ [d]))
                 \<or> st = Initialization_failed \<and> after = before)"

definition unreported :: "parser_state \<Rightarrow> parser_state \<Rightarrow> bool" where
  "unreported s t \<longleftrightarrow> sx_diagnostics (ps_context t) = sx_diagnostics (ps_context s)"

named_theorems reports_intros

lemma unreported_refl [simp, reports_intros]: "unreported s s"
  by (simp add: unreported_def)

lemma unreported_trans: "unreported s t \<Longrightarrow> unreported t u \<Longrightarrow> unreported s u"
  by (simp add: unreported_def)

lemma reports_from: "unreported s t \<Longrightarrow> reports t x \<Longrightarrow> reports s x"
  by (simp add: reports_def unreported_def)

lemma reports_Inr: "reports s (Inr x, t) \<longleftrightarrow> unreported s t"
  by (simp add: reports_def unreported_def)

lemma unreported_simps [simp]:
  "unreported s (ps_advance t) \<longleftrightarrow> unreported s t" "unreported s (t\<lparr>ps_rest := r\<rparr>) \<longleftrightarrow> unreported s t"
  "unreported s (t\<lparr>ps_constants := c\<rparr>) \<longleftrightarrow> unreported s t" "unreported s (t\<lparr>ps_types := y\<rparr>) \<longleftrightarrow> unreported s t"
  "unreported s (t\<lparr>ps_scope := z\<rparr>) \<longleftrightarrow> unreported s t" "unreported s (t\<lparr>ps_memory := m\<rparr>) \<longleftrightarrow> unreported s t"
  by (simp_all add: unreported_def ps_advance_def)

lemma unreported_ps_allocate: "ps_allocate t = (b, u) \<Longrightarrow> unreported s t \<Longrightarrow> unreported s u"
  by (auto simp: ps_allocate_def split: prod.splits)

lemma unreported_take:
  "take_punctuation p t = (b, u) \<Longrightarrow> unreported s t \<Longrightarrow> unreported s u"
  "take_kind k t = (b, u) \<Longrightarrow> unreported s t \<Longrightarrow> unreported s u"
  by (auto simp: take_punctuation_def take_kind_def split: if_splits)

lemma reports_and_then [reports_intros]:
  assumes "reports s (m t)" and "\<And>x u. unreported s u \<Longrightarrow> reports s (f x u)"
  shows "reports s (and_then_parse m f t)"
proof (cases "m t")
  case (Pair r u)
  then show ?thesis using assms
    by (cases r) (auto simp: and_then_parse_def reports_Inr, simp add: reports_def)
qed

lemma reports_finish [reports_intros]: "unreported s t \<Longrightarrow> reports s (finish x t)"
  by (simp add: finish_def reports_Inr)

lemma reports_fail_at [reports_intros]: "unreported s t \<Longrightarrow> reports s (fail_at d i j t)"
  using unreported_ps_allocate [of t _ _ s]
  by (auto simp: fail_at_def reports_def unreported_def update_context_def split: prod.splits)

lemma reports_fail [reports_intros]:
  "unreported s t \<Longrightarrow> reports s (fail_token d e t)" "unreported s t \<Longrightarrow> reports s (fail_peek d t)"
  by (auto simp: fail_peek_def fail_token_def intro: reports_fail_at)

lemma reports_push:
  assumes "unreported s t" "\<And>c. sx_diagnostics (f c) = sx_diagnostics c"
  shows "reports s (push f t)"
  using unreported_ps_allocate [of t _ _ s] assms
  by (auto simp: push_def reports_def unreported_def update_context_def split: prod.splits)

lemma reports_store_name [reports_intros]:
  assumes "unreported s t"
  shows "reports s (store_name n t)"
proof -
  obtain b u where a: "ps_allocate t = (b, u)" by force
  obtain st r c where c: "sx_store_name b n (ps_context u) = (st, r, c)" by (metis prod_cases3)
  have "sx_diagnostics c = sx_diagnostics (ps_context u) \<and> (st = Ok \<or> st = Configuration_failed \<or> st = Initialization_failed)"
    using c by (auto simp: sx_store_name_def split: if_splits)
  with unreported_ps_allocate [OF a assms] show ?thesis
    by (auto simp: store_name_def a c reports_def unreported_def)
qed

lemma reports_basic [reports_intros]:
  assumes "unreported s t"
  shows "reports s (keep_constant n v t)" "reports s (store_qualified n t)" "reports s (register_local_type n t)"
    "reports s (push_modifier k p r t)" "reports s (enum_done ed t)" "reports s (aggregate_done a ad t)"
    "reports s (push (\<lambda>c. c\<lparr>sx_enum_values := f c\<rparr>) t)" "reports s (push (\<lambda>c. c\<lparr>sx_aggregate_members := g c\<rparr>) t)"
    "reports s (store_scope t)"
proof -
  obtain b u where a: "ps_allocate t = (b, u)" by force
  have u: "unreported s u" by (rule unreported_ps_allocate [OF a assms])
  show "reports s (keep_constant n v t)"
    using u by (simp add: keep_constant_def a reports_def unreported_def)
  show "reports s (store_qualified n t)"
    using u by (cases b) (simp_all add: store_qualified_def a reports_store_name, simp add: reports_def unreported_def)
  show "reports s (register_local_type n t)"
    using u by (simp add: register_local_type_def a reports_def unreported_def)
  show "reports s (push_modifier k p r t)"
    unfolding push_modifier_def by (rule reports_push [OF assms]) simp
  show "reports s (enum_done ed t)"
    unfolding enum_done_def by (rule reports_push [OF assms]) simp
  show "reports s (aggregate_done a ad t)"
    unfolding aggregate_done_def by (rule reports_push [OF assms]) simp
  show "reports s (push (\<lambda>c. c\<lparr>sx_enum_values := f c\<rparr>) t)"
    by (rule reports_push [OF assms]) simp
  show "reports s (push (\<lambda>c. c\<lparr>sx_aggregate_members := g c\<rparr>) t)"
    by (rule reports_push [OF assms]) simp
  show "reports s (store_scope t)" using assms by (auto simp: store_scope_def intro!: reports_intros)
qed

lemma reports_parse_unsigned [reports_intros]: "unreported s t \<Longrightarrow> reports s (parse_unsigned src r t)"
  by (auto simp: parse_unsigned_def Let_def intro!: reports_intros)

lemma reports_parse_underlying [reports_intros]: "unreported s t \<Longrightarrow> reports s (parse_underlying src t)"
  by (auto simp: parse_underlying_def Let_def intro!: reports_intros)

lemma reports_parse_number:
  assumes "unreported s t"
  shows "reports s (parse_number src t)"
proof -
  obtain b u where t: "take_punctuation P_minus t = (b, u)" by force
  from unreported_take(1) [OF t assms] show ?thesis
    by (auto simp: parse_number_def t Let_def intro!: reports_intros split: option.splits)
qed

lemma reports_parse_primary [reports_intros]: "unreported s t \<Longrightarrow> reports s (parse_primary src env t)"
  by (auto simp: parse_primary_def Let_def intro!: reports_intros reports_parse_number split: option.splits)

text \<open>A step of a loop that goes on only after a result.\<close>

lemma reports_loop:
  assumes "reports s (m t)" and "\<And>x u. m t = (Inr x, u) \<Longrightarrow> unreported s u \<Longrightarrow> reports s (f x u)"
  shows "reports s (case m t of (Inl st, u) \<Rightarrow> (Inl st, u) | (Inr x, u) \<Rightarrow> f x u)"
proof (cases "m t")
  case (Pair r u)
  then show ?thesis using assms
    by (cases r) (auto simp: reports_Inr, simp add: reports_def)
qed

lemma reports_parse_sum: "unreported s t \<Longrightarrow> reports s (parse_sum src env v t)"
proof (induction src env v t rule: parse_sum.induct)
  case (1 src env v t)
  obtain b u where t: "take_punctuation P_plus t = (b, u)" by force
  have u: "unreported s u" by (rule unreported_take(1) [OF t "1.prems"])
  show ?case
    unfolding parse_sum.simps [of src env v t] t prod.case
    by (auto intro!: reports_intros reports_loop u "1.IH" [OF t [symmetric] _ sym refl] split: option.splits)
qed

lemma reports_parse_expression [reports_intros]: "unreported s t \<Longrightarrow> reports s (parse_expression src env t)"
  by (auto simp: parse_expression_def intro!: reports_intros reports_parse_sum)

lemma reports_parse_initializer [reports_intros]:
  assumes "unreported s t"
  shows "reports s (parse_initializer src env name nxt t)"
proof -
  obtain b u where t: "take_punctuation P_equal t = (b, u)" by force
  from unreported_take(1) [OF t assms] show ?thesis
    by (auto simp: parse_initializer_def t Let_def intro!: reports_intros)
qed

lemma reports_parse_separator [reports_intros]:
  assumes "unreported s t"
  shows "reports s (parse_separator name nxt v t)"
proof -
  obtain b u where t: "take_punctuation P_comma t = (b, u)" by force
  from unreported_take(1) [OF t assms] show ?thesis
    by (auto simp: parse_separator_def increment_constant_def t intro!: reports_intros)
qed

lemma reports_parse_enumerator [reports_intros]: "unreported s t \<Longrightarrow> reports s (parse_enumerator src env nxt t)"
  by (auto simp: parse_enumerator_def Let_def split_beta intro!: reports_intros)

lemma reports_enumerator_loop [reports_intros]: "unreported s t \<Longrightarrow> reports s (enumerator_loop src env nxt n t)"
proof (induction src env nxt n t rule: enumerator_loop.induct)
  case (1 src env nxt n t)
  obtain b u where t: "take_punctuation P_right_brace t = (b, u)" by force
  have u: "unreported s u" by (rule unreported_take(1) [OF t "1.prems"])
  show ?case
    unfolding enumerator_loop.simps [of src env nxt n t] t prod.case
    by (auto intro!: reports_intros reports_loop u "1.IH" [OF t [symmetric] _ sym refl])
qed

lemma reports_declare_type [reports_intros]: "unreported s t \<Longrightarrow> reports s (declare_type n t)"
  by (auto simp: declare_type_def intro!: reports_intros)

lemma reports_parse_optional_underlying [reports_intros]:
  assumes "unreported s t"
  shows "reports s (parse_optional_underlying src t)"
proof -
  obtain b u where t: "take_punctuation P_colon t = (b, u)" by force
  from unreported_take(1) [OF t assms] show ?thesis
    by (auto simp: parse_optional_underlying_def t split_beta intro!: reports_intros)
qed

lemma reports_semicolon:
  assumes "unreported s t" "\<And>u. unreported s u \<Longrightarrow> reports s (f u)"
  shows "reports s (case take_punctuation P_semicolon t of (semicolon, u) \<Rightarrow>
      if \<not> semicolon then fail_peek d u else f u)"
proof -
  obtain b u where t: "take_punctuation P_semicolon t = (b, u)" by force
  from unreported_take(1) [OF t assms(1)] assms(2) show ?thesis by (auto simp: t intro!: reports_intros)
qed

lemma reports_parse_enum_rest [reports_intros]:
  assumes "unreported s t"
  shows "reports s (parse_enum_rest src env k d t)"
proof -
  obtain b u where t: "take_punctuation P_semicolon t = (b, u)" by force
  from unreported_take(1) [OF t assms] have u: "unreported s u" .
  obtain c w where w: "take_punctuation P_left_brace u = (c, w)" by force
  from unreported_take(1) [OF w u] have "unreported s w" .
  with u show ?thesis
    by (auto simp: parse_enum_rest_def t w intro!: reports_intros reports_semicolon)
qed

lemma reports_parse_enum [reports_intros]:
  assumes "unreported s t"
  shows "reports s (parse_enum src env t)"
proof -
  obtain b u where k: "take_kind Tk_keyword_class (ps_advance t) = (b, u)" by force
  have "unreported s (ps_advance t)" using assms by simp
  from unreported_take(2) [OF k this] show ?thesis
    by (auto simp: parse_enum_def k Let_def split_beta intro!: reports_intros)
qed

lemma reports_pointer_loop [reports_intros]: "unreported s t \<Longrightarrow> reports s (pointer_loop m t)"
proof (induction m t rule: pointer_loop.induct)
  case (1 m t)
  show ?case
    unfolding pointer_loop.simps [of m t] Let_def
    by (auto intro!: reports_intros reports_loop "1.prems" "1.IH" [OF _ refl sym refl])
qed

lemma reports_parse_reference [reports_intros]: "unreported s t \<Longrightarrow> reports s (parse_reference m t)"
  by (auto simp: parse_reference_def Let_def intro!: reports_intros)

lemma reports_parse_extent [reports_intros]: "unreported s t \<Longrightarrow> reports s (parse_extent src k m t)"
  by (auto simp: parse_extent_def Let_def intro!: reports_intros split: option.splits)

lemma reports_extent_loop [reports_intros]: "unreported s t \<Longrightarrow> reports s (extent_loop src m t)"
proof (induction src m t rule: extent_loop.induct)
  case (1 src m t)
  obtain b u where t: "take_punctuation P_left_bracket t = (b, u)" by force
  have u: "unreported s u" by (rule unreported_take(1) [OF t "1.prems"])
  show ?case
    unfolding extent_loop.simps [of src m t] Let_def t prod.case
    by (auto intro!: reports_intros reports_loop u "1.IH" [OF refl t [symmetric] _ sym refl])
qed

lemma unreported_lookup_type:
  "lookup_type env name offset t = (r, u) \<Longrightarrow> unreported s t \<Longrightarrow> unreported s u"
proof -
  have "unreported s t \<Longrightarrow> unreported s (snd (lookup_type_from env name offset scope t))" for scope
  proof (induction env name offset scope t rule: lookup_type_from.induct)
    case (1 env name offset scope t)
    obtain ok u where a: "ps_allocate t = (ok, u)" by force
    obtain ok2 w where b: "ps_allocate u = (ok2, w)" by force
    obtain st v where f: "find_type_exact env scope name offset = (st, v)" by force
    have u: "unreported s u" by (rule unreported_ps_allocate [OF a "1.prems"])
    show ?case
      using "1.IH" [OF a [symmetric] _ refl _ f [symmetric] _ _ u] u unreported_ps_allocate [OF b u]
      by (subst lookup_type_from.simps) (auto simp: a b f Let_def)
  qed
  then show "lookup_type env name offset t = (r, u) \<Longrightarrow> unreported s t \<Longrightarrow> unreported s u"
    unfolding lookup_type_def by (metis snd_conv)
qed

lemma reports_parse_member_type [reports_intros]: "unreported s t \<Longrightarrow> reports s (parse_member_type src env k m t)"
  by (auto simp: parse_member_type_def intro!: reports_intros split: prod.splits option.splits
      dest: unreported_lookup_type)

lemma reports_parse_member_name [reports_intros]: "unreported s t \<Longrightarrow> reports s (parse_member_name src m t)"
  by (auto simp: parse_member_name_def Let_def intro!: reports_intros)

lemma reports_member_done [reports_intros]: "unreported s t \<Longrightarrow> reports s (member_done k m t)"
  by (auto simp: member_done_def intro!: reports_intros reports_semicolon)

lemma reports_parse_member [reports_intros]: "unreported s t \<Longrightarrow> reports s (parse_member src env t)"
  by (auto simp: parse_member_def Let_def intro!: reports_intros)

lemma reports_member_loop [reports_intros]: "unreported s t \<Longrightarrow> reports s (member_loop src env n t)"
proof (induction src env n t rule: member_loop.induct)
  case (1 src env n t)
  obtain b u where t: "take_punctuation P_right_brace t = (b, u)" by force
  have u: "unreported s u" by (rule unreported_take(1) [OF t "1.prems"])
  show ?case
    unfolding member_loop.simps [of src env n t] t prod.case
    by (auto intro!: reports_intros reports_loop u "1.IH" [OF t [symmetric] _ sym refl])
qed

lemma reports_parse_struct_rest [reports_intros]:
  assumes "unreported s t"
  shows "reports s (parse_struct_rest src env k d t)"
proof -
  obtain b u where t: "take_punctuation P_semicolon t = (b, u)" by force
  from unreported_take(1) [OF t assms] have u: "unreported s u" .
  obtain c w where w: "take_punctuation P_left_brace u = (c, w)" by force
  from unreported_take(1) [OF w u] have "unreported s w" .
  with u show ?thesis
    by (auto simp: parse_struct_rest_def t w Let_def intro!: reports_intros reports_semicolon)
qed

lemma reports_parse_struct [reports_intros]: "unreported s t \<Longrightarrow> reports s (parse_struct src env t)"
  by (auto simp: parse_struct_def Let_def intro!: reports_intros)

lemma reports_namespace:
  assumes start: "unreported s t" and run: "parse_namespace (Suc n) src env t = Some x"
    and unit: "\<And>u y. unreported s u \<Longrightarrow> parse_unit n src env True u = Some y \<Longrightarrow> reports s y"
  shows "reports s x"
proof -
  let ?t = "ps_advance t"
  have t: "unreported s ?t" using start by simp
  obtain b u where en: "enter_scope (token_text src (peek ?t)) ?t = (b, u)" by force
  have u: "unreported s u"
    using en unreported_ps_allocate [OF _ t] by (auto simp: enter_scope_def split: prod.splits if_splits)
  obtain c w where take: "take_punctuation P_left_brace (ps_advance u) = (c, w)" by force
  have w: "unreported s w" by (rule unreported_take(1) [OF take]) (simp add: u)
  consider (name) "token_kind (peek ?t) \<noteq> Tk_identifier" | (scope) "token_kind (peek ?t) = Tk_identifier" "\<not> b"
    | (brace) "token_kind (peek ?t) = Tk_identifier" b "\<not> c" | (body) "token_kind (peek ?t) = Tk_identifier" b c by blast
  then show ?thesis
  proof cases
    case name
    then show ?thesis using run t by (auto simp: Let_def intro: reports_intros)
  next
    case scope
    then have "x = (Inl Initialization_failed, u)" using run en by (simp add: Let_def)
    then show ?thesis using u by (simp add: reports_def unreported_def)
  next
    case brace
    then show ?thesis using run en take w by (auto simp: Let_def intro: reports_intros)
  next
    case body
    then obtain r v where v: "parse_unit n src env True w = Some (r, v)"
      using run en take by (auto simp: Let_def split: option.splits)
    obtain d z where close: "take_punctuation P_right_brace v = (d, z)" by force
    from unit [OF w v] show ?thesis
      using run en take body v close
      by (cases r) (auto simp: Let_def reports_Inr intro: reports_intros unreported_take(1) split: if_splits)
  qed
qed

lemma parse_unit_reports:
  "unreported s t \<Longrightarrow> parse_unit n src env nested t = Some x \<Longrightarrow> reports s x"
proof (induction n arbitrary: nested t x rule: less_induct)
  case (less n)
  from less.prems(2) obtain n' where n: "n = Suc n'" by (cases n) auto
  have decl: "reports s y" if "parse_declaration n' src env t = Some y" for y
  proof (cases n')
    case (Suc k)
    have body: "\<And>u y. unreported s u \<Longrightarrow> parse_unit k src env True u = Some y \<Longrightarrow> reports s y"
      by (rule less.IH) (use n Suc in simp_all)
    have space: "parse_namespace (Suc k) src env t = Some y \<Longrightarrow> reports s y"
      by (rule reports_namespace [OF less.prems(1) _ body]) assumption+
    show ?thesis using that less.prems(1) space Suc
      by (auto simp: parse_declaration_def simp del: parse_namespace.simps intro: reports_intros split: if_splits)
  qed (use that less.prems(1) in \<open>auto simp: parse_declaration_def intro: reports_intros split: if_splits\<close>)
  show ?case
  proof (cases "token_kind (peek t) = Tk_eof \<or> nested \<and> sign_token P_right_brace (peek t)")
    case True
    then show ?thesis using less.prems unfolding n parse_unit_Suc by (auto simp: reports_Inr)
  next
    case False
    then obtain r u where d: "parse_declaration n' src env t = Some (r, u)"
      using less.prems(2) unfolding n parse_unit_Suc by (auto split: option.splits)
    show ?thesis
    proof (cases r)
      case (Inl st)
      then show ?thesis using False d decl less.prems(2) unfolding n parse_unit_Suc by auto
    next
      case (Inr v)
      then have "unreported s u" using decl [OF d] by (simp add: reports_Inr)
      moreover have "parse_unit n' src env nested u = Some x"
        using False d Inr less.prems(2) unfolding n parse_unit_Suc by (auto split: if_splits)
      ultimately show ?thesis using less.IH [of n' u nested x] n by simp
    qed
  qed
qed


section \<open>The routine\<close>

lemma ends_well_eof: "ends_well (ts @ [eof_token n])"
  by (simp add: ends_well_def eof_token_def)

text \<open>
  The outcome of \<^verbatim>\<open>parse_tokens\<close>. An initialization failure is reported if the one allocation of its
  diagnostic succeeds.
\<close>

lemma parse_tokens_of_reports:
  assumes "sx_diagnostics c = []"
  shows "\<exists>st c'. parse_tokens_of src env ts mem c = Some (st, c') \<and>
    (if st = Ok then sx_diagnostics c' = []
     else st \<in> {Configuration_failed, Initialization_failed} \<and> length (sx_diagnostics c') \<le> 1)"
proof -
  let ?s = "initial_parser_state c ts mem"
  obtain r s where run: "parse_unit (unit_fuel ts) src env False ?s = Some (r, s)"
    using parse_fuel_enough [of ts src env False c mem] by auto
  from parse_unit_reports [OF unreported_refl run] have
    "case r of Inr _ \<Rightarrow> sx_diagnostics (ps_context s) = []
       | Inl st \<Rightarrow> st \<in> {Configuration_failed, Initialization_failed} \<and> length (sx_diagnostics (ps_context s)) \<le> 1"
    using assms by (auto simp: reports_def initial_parser_state_def Let_def split: sum.splits)
  with run show ?thesis
    by (auto simp: parse_tokens_of_def Let_def emit_initialization_failure_if_needed_def split: sum.splits)
qed

end
