(* ===== verification/ParserTheorems.thy ===== *)
theory ParserTheorems
  imports ParserTotal
begin

text \<open>
  The parser on the bytes of a Source: what it accepts, what the context then shows, what a failure
  reports, and the interface that other Sources see. The tokens are those of the lexical grammar.
\<close>

section \<open>The tokens of a Source\<close>

lemma lexeme_token:
  assumes "lexeme k p l r" "k = token_kind t" "p = token_punctuation t" "l = token_text src t" "token_length t = length l"
  shows "token_wf src t \<and> token_kind t \<noteq> Tk_eof \<and> l \<noteq> []"
  using assms(1)
proof cases
  case (word c cs)
  have colon: "\<not> word_char CHR '':''" by code_simp
  have "\<forall>x \<in> set (c # cs). word_char x" using word(4,5) by (auto simp: list_all_iff word_char_def)
  with colon have "CHR '':'' \<notin> set (c # cs)" by blast
  then have "plain_name (c # cs)" by (simp add: plain_name_def)
  moreover have "k \<noteq> Tk_eof" using word(1) by (simp add: identifier_kind_def)
  ultimately show ?thesis using word assms by (simp add: token_wf_def)
next
  case (number c cs)
  then show ?thesis using assms by (simp add: token_wf_def)
next
  case (quoted body)
  then show ?thesis using assms by (simp add: token_wf_def)
next
  case (sign c)
  then show ?thesis using assms by (simp add: token_wf_def)
qed

lemma layout_tokens:
  "layout b i r ts \<Longrightarrow> src = pre @ r \<Longrightarrow> length pre = i \<Longrightarrow>
     list_all (\<lambda>t. token_wf src t \<and> token_kind t \<noteq> Tk_eof) ts \<and> length ts \<le> length r"
proof (induction ts arbitrary: b i r pre)
  case (Cons t ts)
  then obtain g l q where t: "r = g @ l @ q" "lexeme (token_kind t) (token_punctuation t) l q"
    "token_offset t = i + length g" "token_length t = length l" "layout False (i + length g + length l) q ts" by auto
  have "l = token_text src t" by (simp add: token_text_def t Cons.prems(2,3) [symmetric] Cons.prems(2))
  from lexeme_token [OF t(2) refl refl this t(4)] have
    one: "token_wf src t" "token_kind t \<noteq> Tk_eof" "l \<noteq> []" by auto
  have "list_all (\<lambda>t. token_wf src t \<and> token_kind t \<noteq> Tk_eof) ts \<and> length ts \<le> length q"
    by (rule Cons.IH [OF t(5), of "pre @ g @ l"]) (simp_all add: Cons.prems(2,3) t(1))
  with one show ?case by (cases l) (simp_all add: t(1))
qed simp

lemma eof_token_wf: "token_wf src (eof_token n)"
  by (simp add: token_wf_def eof_token_def)

text \<open>The tokens and the meaning of a Source that declares something.\<close>

definition declares :: "string \<Rightarrow> source_environment \<Rightarrow> unit_meaning \<Rightarrow> bool" where
  "declares src env m \<longleftrightarrow> (\<exists>ts types. layout True 0 src ts \<and> declarations src env [] {} ts types m)"

text \<open>The state in which the tokens of a Source are parsed.\<close>

definition lexed_context :: "source_context \<Rightarrow> parser_token list \<Rightarrow> source_context" where
  "lexed_context c ts = (sx_reset c)\<lparr>sx_tokens := ts, sx_diagnostics := []\<rparr>"

lemma lexed_start:
  fixes c :: source_context and mem :: "bool list"
  assumes "layout True 0 src ts" "length src < u32_max"
  defines "s \<equiv> initial_parser_state (lexed_context c (ts @ [eof_token (length src)])) (ts @ [eof_token (length src)]) mem"
  shows "in_scope [] s" "room s" "\<forall>t \<in> set (ps_rest s). token_wf src t" "set (ps_types s) = {}"
    "list_all (\<lambda>t. token_kind t \<noteq> Tk_eof) ts"
  using layout_tokens [OF assms(1), of src "[]"] assms(2) eof_token_wf
  by (auto simp: s_def initial_parser_state_def in_scope_def room_def lexed_context_def sx_reset_def list_all_iff)

lemma lexed_end:
  "ts @ t # r = us @ [e] \<Longrightarrow> token_kind t = Tk_eof \<Longrightarrow> list_all (\<lambda>t. token_kind t \<noteq> Tk_eof) us \<Longrightarrow> ts = us"
proof (induction ts arbitrary: us)
  case Nil
  then show ?case by (cases us) auto
next
  case (Cons x ts)
  then show ?case by (cases us) auto
qed

text \<open>The routine is the lexer followed by the parser proper.\<close>

lemma parse_source_run:
  assumes "length src \<le> u32_max" "parse_source lex_mem emitted src env mem c = Some (Ok, c')"
  shows "\<exists>ts. layout True 0 src ts \<and>
    parse_tokens_of src env (ts @ [eof_token (length src)]) mem (lexed_context c (ts @ [eof_token (length src)])) = Some (Ok, c')"
proof -
  obtain st ts dirs diag where l: "lex_source lex_mem emitted False src = (st, ts, dirs, diag)" by (metis prod_cases4)
  have st: "st = Ok" using assms(2) by (auto simp: parse_source_def l Let_def split: if_splits)
  have "lex_mem" using l st assms(1) by (auto simp: lex_source_def Let_def split: if_splits)
  with l st have "\<exists>dirs diag. lex_source True emitted False src = (Ok, ts, dirs, diag)" by simp
  then obtain us where us: "layout True 0 src us" "ts = us @ [eof_token (length src)]"
    using lex_source_layout [OF assms(1), of emitted False ts] by blast
  have "diag = None" using l st by (auto simp: lex_source_def Let_def split: if_splits prod.splits option.splits)
  with assms(2) us show ?thesis
    by (intro exI [of _ us]) (simp add: parse_source_def l st Let_def lexed_context_def)
qed

lemma parse_source_runs:
  assumes "length src \<le> u32_max" "layout True 0 src ts"
  shows "parse_source True emitted src env mem c =
    parse_tokens_of src env (ts @ [eof_token (length src)]) mem (lexed_context c (ts @ [eof_token (length src)]))"
proof -
  obtain dirs diag where l: "lex_source True emitted False src = (Ok, ts @ [eof_token (length src)], dirs, diag)"
    using lex_source_layout [OF assms(1), of emitted False] assms(2) by blast
  have "diag = None" using l by (auto simp: lex_source_def Let_def split: if_splits prod.splits option.splits)
  then show ?thesis by (simp add: parse_source_def l Let_def lexed_context_def)
qed

section \<open>Soundness and completeness\<close>

lemma parse_tokens_sound:
  assumes "layout True 0 src us" "length src < u32_max"
    and run: "parse_tokens_of src env (us @ [eof_token (length src)]) mem (lexed_context c (us @ [eof_token (length src)])) = Some (Ok, c')"
  shows "\<exists>types m. declarations src env [] {} us types m \<and> shows_more (lexed_context c (us @ [eof_token (length src)])) c' m \<and>
    length (sx_names c') \<le> u32_max"
proof -
  let ?ts = "us @ [eof_token (length src)]" let ?c = "lexed_context c ?ts" let ?s = "initial_parser_state ?c ?ts mem"
  obtain r s where p: "parse_unit (unit_fuel ?ts) src env False ?s = Some (r, s)"
    using run by (auto simp: parse_tokens_of_def split: option.splits)
  have "\<not> (\<exists>st. r = Inl st \<and> st = Ok)" using parse_unit_reports [OF unreported_refl p] by (auto simp: reports_def Let_def)
  then obtain u where u: "r = Inr u" "c' = ps_context s"
    using run p by (cases r) (auto simp: parse_tokens_of_def emit_initialization_failure_if_needed_def Let_def)
  note start = lexed_start(1-4) [OF assms(1,2), of c mem]
  have "parse_unit (unit_fuel ?ts) src env False ?s = Some (Inr u, s)" using p u(1) by simp
  from parse_unit_read [THEN conjunct1, rule_format, OF this start(1,2)] start(3,4) obtain ts m where
    m: "declarations src env [] {} ts (set (ps_types s)) m" "unit_read src ?s ts s m" "token_kind (peek s) = Tk_eof"
    by auto
  have "ends_well (ps_rest s)" by (rule parse_in_range [OF p ends_well_eof])
  then obtain t q where t: "ps_rest s = t # q" by (cases "ps_rest s") (auto simp: ends_well_def)
  have "ts @ t # q = us @ [eof_token (length src)]"
    using m(2) t by (simp add: unit_read_def reads_def initial_parser_state_def)
  from lexed_end [OF this] m(3) t lexed_start(5) [OF assms(1,2)] have "ts = us" by simp
  moreover have "shows_more (lexed_context c ?ts) c' m" "length (sx_names c') \<le> u32_max"
    using m(2) u(2) by (simp_all add: unit_read_def initial_parser_state_def room_def)
  ultimately show ?thesis using m(1) by blast
qed

lemma parse_tokens_complete:
  assumes "layout True 0 src us" "length src < u32_max" "declarations src env [] {} us types m" "unit_bytes m \<le> u32_max"
  shows "\<exists>c'. parse_tokens_of src env (us @ [eof_token (length src)]) [] (lexed_context c (us @ [eof_token (length src)])) = Some (Ok, c')"
proof -
  let ?ts = "us @ [eof_token (length src)]" let ?s = "initial_parser_state (lexed_context c ?ts) ?ts []"
  note start = lexed_start(1-4) [OF assms(1,2), of c "[]"]
  have "can_run src [] {} (us @ [eof_token (length src)]) (unit_bytes m) ?s"
    using start assms(4) by (simp add: can_run_def ready_def initial_parser_state_def lexed_context_def sx_reset_def)
  then have "runs_over src ?s [eof_token (length src)] (unit_bytes m) types (parse_unit (unit_fuel ?ts) src env False ?s)"
    by (intro parse_unit_runs(1) [OF assms(3)]) (simp_all add: unit_fuel_def eof_token_def)
  then show ?thesis
    by (auto simp: runs_over_def parse_tokens_of_def emit_initialization_failure_if_needed_def)
qed

lemma shows_more_context:
  "sx_names c = [] \<Longrightarrow> sx_enums c = [] \<Longrightarrow> sx_aggregates c = [] \<Longrightarrow> shows_more c c' m \<Longrightarrow>
     context_shows c' m \<and> length (sx_names c') = unit_bytes m"
  by (auto simp: shows_more_def context_shows_def)

lemma parse_source_sound:
  assumes "length src < u32_max" "parse_source lex_mem emitted src env mem c = Some (Ok, c')"
  shows "\<exists>m. declares src env m \<and> context_shows c' m \<and> length (sx_names c') = unit_bytes m \<and> unit_bytes m \<le> u32_max"
proof -
  obtain us where us: "layout True 0 src us"
    "parse_tokens_of src env (us @ [eof_token (length src)]) mem (lexed_context c (us @ [eof_token (length src)])) = Some (Ok, c')"
    using parse_source_run [OF _ assms(2)] assms(1) by auto
  obtain types m where m: "declarations src env [] {} us types m" "length (sx_names c') \<le> u32_max"
    "shows_more (lexed_context c (us @ [eof_token (length src)])) c' m"
    using parse_tokens_sound [OF us(1) assms(1) us(2)] by blast
  have "context_shows c' m \<and> length (sx_names c') = unit_bytes m"
    by (rule shows_more_context [OF _ _ _ m(3)]) (simp_all add: lexed_context_def sx_reset_def)
  moreover from this have "unit_bytes m \<le> u32_max" using m(2) by simp
  moreover have "declares src env m" using us(1) m(1) unfolding declares_def by blast
  ultimately show ?thesis by blast
qed

lemma parse_source_complete:
  assumes "length src < u32_max" "declares src env m" "unit_bytes m \<le> u32_max"
  shows "\<exists>c'. parse_source True emitted src env [] c = Some (Ok, c')"
proof -
  obtain us types where us: "layout True 0 src us" "declarations src env [] {} us types m"
    using assms(2) by (auto simp: declares_def)
  from parse_tokens_complete [OF us(1) assms(1) us(2) assms(3)] show ?thesis
    using parse_source_runs [OF _ us(1)] assms(1) by auto
qed

section \<open>Theorems\<close>

text \<open>A Source for the examples, and one that uses the parser's arithmetic and modifiers.\<close>

definition example_source :: string where
  "example_source = ''enum A : int { X = 1, Y }; struct S { A * p; int q[3]; };''"

definition empty_environment :: source_environment where
  "empty_environment = dependency_environment []"

lemma example_short: "length example_source < u32_max"
  unfolding example_source_def u32_max_def by code_simp

lemma example_parses:
  "map_option fst (parse_source True True example_source empty_environment [] new_source_context) = Some Ok"
  unfolding example_source_def empty_environment_def by code_simp

lemma example_parses_again:
  "map_option fst (parse_source True True example_source empty_environment [True, True] new_source_context) = Some Ok"
  unfolding example_source_def empty_environment_def by code_simp

text \<open>C5: The parser accepts exactly the Sources that have a derivation in the grammar of declarations with its
  scopes, types and constants, and whose names fit in the arena.\<close>

theorem parse_source_accepts_grammar:
  assumes "length src < u32_max"
  shows "(\<exists>c'. parse_source True emitted src env [] c = Some (Ok, c')) \<longleftrightarrow>
    (\<exists>m. declares src env m \<and> unit_bytes m \<le> u32_max)"
  using parse_source_sound [OF assms] parse_source_complete [OF assms] by blast

theorem parse_source_accepts_grammar_witness:
  "\<exists>m. declares example_source empty_environment m \<and> unit_bytes m \<le> u32_max"
  using parse_source_accepts_grammar [OF example_short, of True empty_environment new_source_context] example_parses by auto

text \<open>C7: Whatever the answers of the allocations, a Source that is accepted has a derivation, and the facts of the
  context show its meaning, declaration by declaration: names, scopes, values, members and modifiers. The arena holds
  its names and nothing else.\<close>

theorem parse_source_shows:
  assumes "length src < u32_max" "parse_source lex_mem emitted src env mem c = Some (Ok, c')"
  shows "\<exists>m. declares src env m \<and> context_shows c' m \<and> length (sx_names c') = unit_bytes m"
  using parse_source_sound [OF assms] by blast

theorem parse_source_shows_witness:
  "\<exists>m. declares example_source empty_environment m \<and>
    context_shows (snd (the (parse_source True True example_source empty_environment [True, True] new_source_context))) m"
proof -
  obtain c' where c: "parse_source True True example_source empty_environment [True, True] new_source_context = Some (Ok, c')"
    using example_parses_again by auto
  from parse_source_shows [OF example_short c] show ?thesis unfolding c by auto
qed


text \<open>C35: On the tokens of the lexer the parser ends with a token left to read, accepted or not, so that no routine on
  the way has read past the token of the end of the input.\<close>

theorem parse_stays_in_tokens:
  assumes "lex_source lex_mem emitted want src = (Ok, ts, dirs, diag)"
  shows "\<exists>r s. parse_unit (unit_fuel ts) src env False (initial_parser_state c ts mem) = Some (r, s) \<and>
    ps_rest s \<noteq> [] \<and> length (ps_rest s) \<le> length ts"
proof -
  have "ends_well ts"
    using assms by (auto simp: lex_source_def Let_def ends_well_def split: if_splits prod.splits option.splits)
  then show ?thesis
    using unit_within [of "initial_parser_state c ts mem" "unit_fuel ts" src env False]
    by (auto simp: unit_fuel_def initial_parser_state_def returns_within_def within_def ends_well_def)
qed

theorem parse_stays_in_tokens_witness:
  "\<exists>r s. parse_unit (unit_fuel (fst (snd (lex_source True True False ''enum A {'')))) ''enum A {'' empty_environment False
     (initial_parser_state new_source_context (fst (snd (lex_source True True False ''enum A {''))) []) = Some (r, s) \<and>
    ps_rest s \<noteq> []"
proof -
  obtain st ts dirs diag where l: "lex_source True True False ''enum A {'' = (st, ts, dirs, diag)" by (metis prod_cases4)
  have "fst (lex_source True True False ''enum A {'') = Ok" by code_simp
  then have "st = Ok" by (simp add: l)
  from parse_stays_in_tokens [OF l [unfolded this], of empty_environment new_source_context "[]"] show ?thesis
    unfolding l by auto
qed

text \<open>
  A case the grammar makes visible: after a comma the parser computes the value of the next enumerator
  before it knows whether that has an initializer, so an enumerator of the largest value must be the last,
  even where the next one says its value.
\<close>

lemma largest_enumerator_must_be_last:
  "map_option fst (parse_source True True ''enum A { X = 9223372036854775807, Y = 1 };'' empty_environment [] new_source_context)
     = Some Configuration_failed"
  "map_option fst (parse_source True True ''enum A { X = 9223372036854775807 };'' empty_environment [] new_source_context)
     = Some Ok"
  unfolding empty_environment_def by code_simp+

section \<open>The interface of a Source\<close>

definition enum_constants :: "enum_meaning \<Rightarrow> source_constant_binding list" where
  "enum_constants m =
     map (\<lambda>(n, v). \<lparr>cb_scope_name = (if em_scoped m then case em_name m of None \<Rightarrow> [] | Some t \<Rightarrow> t else em_scope m),
                    cb_name = n, cb_value = v\<rparr>) (em_values m)"

definition named_type :: "string \<Rightarrow> string \<Rightarrow> source_type_binding" where
  "named_type scope n = \<lparr>tb_scope_name = scope, tb_name = local_name n, tb_canonical_name = n\<rparr>"

definition enum_types :: "enum_meaning \<Rightarrow> source_type_binding list" where
  "enum_types m = (case em_name m of None \<Rightarrow> [] | Some n \<Rightarrow> [named_type (em_scope m) n])"

definition interface_constants :: "unit_meaning \<Rightarrow> source_constant_binding list" where
  "interface_constants m = concat (map enum_constants (fst m))"

definition interface_types :: "unit_meaning \<Rightarrow> source_type_binding list" where
  "interface_types m =
     concat (map enum_types (fst m)) @ map (\<lambda>a. named_type (ag_scope a) (ag_name a)) (snd m)"

lemma resolves_nonempty: "resolves c r n \<Longrightarrow> ref_length r \<noteq> 0"
  by (auto simp: resolves_def sx_resolve_name_def Let_def split: if_splits)

lemma scope_shown_fact: "scope_shown c r scope \<Longrightarrow> scope_of_fact c r = Some scope"
  using resolves_nonempty [of c r scope]
  by (auto simp: scope_shown_def scope_of_fact_def resolves_def no_name_def split: if_splits)

lemma value_bindings_shown:
  "list_all2 (value_shown c) fs vs \<Longrightarrow>
     value_bindings c scope fs = Some (map (\<lambda>(n, v). \<lparr>cb_scope_name = scope, cb_name = n, cb_value = v\<rparr>) vs)"
  by (induction fs vs rule: list_all2_induct) (auto simp: value_shown_def resolves_def)

lemma enum_bindings_shown:
  "list_all2 (enum_shown c) fs ms \<Longrightarrow>
     enum_bindings c fs = Some (concat (map enum_constants ms), concat (map enum_types ms))"
proof (induction fs ms rule: list_all2_induct)
  case (Cons f fs m ms)
  have scope: "scope_of_fact c (edf_scope_name f) = Some (em_scope m)" and scoped: "edf_scoped f = em_scoped m"
    and vals: "value_bindings c t (sx_enumerators c f) =
      Some (map (\<lambda>(n, v). \<lparr>cb_scope_name = t, cb_name = n, cb_value = v\<rparr>) (em_values m))" for t
    using Cons(1) by (auto simp: enum_shown_def intro: scope_shown_fact value_bindings_shown)
  show ?case
  proof (cases "em_name m")
    case None
    then have "edf_anonymous f" using Cons(1) by (simp add: enum_shown_def)
    then show ?thesis using None Cons.IH scope scoped vals by (simp add: enum_constants_def enum_types_def)
  next
    case (Some n)
    then have "\<not> edf_anonymous f" "sx_resolve_name c (edf_canonical_name f) = (Ok, n)"
      using Cons(1) by (simp_all add: enum_shown_def resolves_def)
    then show ?thesis using Some Cons.IH scope scoped vals
      by (simp add: enum_constants_def enum_types_def named_type_def)
  qed
qed simp

lemma aggregate_bindings_shown:
  "list_all2 (aggregate_shown c) fs ms \<Longrightarrow>
     aggregate_bindings c fs = Some (map (\<lambda>a. named_type (ag_scope a) (ag_name a)) ms)"
  by (induction fs ms rule: list_all2_induct)
    (auto simp: aggregate_shown_def resolves_def named_type_def dest: scope_shown_fact)

text \<open>A type is exported under the name that it has in its scope.\<close>

lemma local_name_qualify: "plain_name n \<Longrightarrow> local_name (qualify scope n) = n"
proof (cases "scope = []")
  case True
  then show "plain_name n \<Longrightarrow> ?thesis" by (simp add: qualify_def local_name_def plain_name_def rfind_separator_none)
next
  case False
  then show "plain_name n \<Longrightarrow> ?thesis" by (simp add: qualify_def local_name_def join_snoc rfind_separator_last)
qed



end
