(* ===== verification/Spec2Isabelle.thy ===== *)
theory Spec2Isabelle
  imports GraphTransaction GraphCommit Lexer JsonWriter ParserTheorems
begin

text \<open>
  Verification development for the Server Entry.
\<close>

end
